(* ===== verification/Ish_Prelude.thy ===== *)
theory Ish_Prelude
  imports Main "HOL-Library.Word"
begin

text \<open>
  Shared vocabulary of the development: the widths of the C types the source uses
  (\<^verbatim>\<open>misc.h\<close>), the model of \<^verbatim>\<open>memcpy\<close> over bounded buffers, size_t arithmetic with its
  wrap-around, and the generic list facts the component theories share.
\<close>

unbundle bit_operations_syntax

named_theorems kdefs \<open>definitions of operations that the component proofs unfold\<close>
named_theorems inv_intros \<open>invariant preservation rules\<close>

section \<open>C types\<close>

type_synonym byte = "8 word"
type_synonym u16 = "16 word"
type_synonym u32 = "32 word"
type_synonym u64 = "64 word"

text \<open>The first bound outside \<^verbatim>\<open>size_t\<close> on the 64-bit hosts the program is built for.\<close>

abbreviation size_max :: nat where
  "size_max \<equiv> 2 ^ 64"

definition size_sub :: "nat \<Rightarrow> nat \<Rightarrow> nat" where
  "size_sub a b = (a + size_max - b) mod size_max"

definition size_add :: "nat \<Rightarrow> nat \<Rightarrow> nat" where
  "size_add a b = (a + b) mod size_max"

lemma size_sub_le [simp]: "b \<le> a \<Longrightarrow> a < size_max \<Longrightarrow> size_sub a b = a - b"
  by (simp add: size_sub_def mod_if)

lemma size_add_lt [simp]: "a + b < size_max \<Longrightarrow> size_add a b = a + b"
  by (simp add: size_add_def)

section \<open>Bounded copies\<close>

text \<open>
  \<^verbatim>\<open>memcpy(&dst[off], src, n)\<close> and \<^verbatim>\<open>memcpy(out, &src[off], n)\<close>: an access outside the
  buffer is \<open>None\<close> (undefined behaviour in C).
\<close>

definition put_at :: "'a list \<Rightarrow> nat \<Rightarrow> 'a list \<Rightarrow> 'a list option" where
  "put_at dst off src =
     (if off + length src \<le> length dst
      then Some (take off dst @ src @ drop (off + length src) dst) else None)"

definition get_at :: "'a list \<Rightarrow> nat \<Rightarrow> nat \<Rightarrow> 'a list option" where
  "get_at src off n = (if off + n \<le> length src then Some (take n (drop off src)) else None)"

lemma put_at_SomeI: "off + length src \<le> length dst \<Longrightarrow> \<exists>d. put_at dst off src = Some d"
  by (simp add: put_at_def)

lemma get_at_SomeI: "off + n \<le> length src \<Longrightarrow> \<exists>d. get_at src off n = Some d"
  by (simp add: get_at_def)

lemma put_at_length: "put_at dst off src = Some d \<Longrightarrow> length d = length dst"
  by (auto simp: put_at_def split: if_splits)

lemma put_at_nth:
  assumes "put_at dst off src = Some d" and "i < length dst"
  shows "d ! i = (if off \<le> i \<and> i < off + length src then src ! (i - off) else dst ! i)"
  using assms by (auto simp: put_at_def nth_append min_def split: if_splits)

lemma get_at_nth: "get_at src off n = Some xs \<Longrightarrow> i < n \<Longrightarrow> xs ! i = src ! (off + i)"
  by (auto simp: get_at_def split: if_splits)

lemma get_at_length: "get_at src off n = Some xs \<Longrightarrow> length xs = n"
  by (auto simp: get_at_def split: if_splits)

section \<open>Little-endian bytes\<close>

text \<open>The number a list of bytes stands for, and the low \<open>n\<close> bytes of a number.\<close>

fun le_int :: "byte list \<Rightarrow> int" where
  "le_int [] = 0"
| "le_int (b # bs) = uint b + 256 * le_int bs"

fun le_bytes :: "nat \<Rightarrow> int \<Rightarrow> byte list" where
  "le_bytes 0 x = []"
| "le_bytes (Suc n) x = word_of_int x # le_bytes n (x div 256)"

lemma length_le_bytes [simp]: "length (le_bytes n x) = n"
  by (induction n arbitrary: x) auto

lemma le_int_le_bytes: "le_int (le_bytes n x) = x mod 2 ^ (8 * n)"
proof (induction n arbitrary: x)
  case (Suc n)
  have "uint (word_of_int x :: byte) = x mod 256" by (simp add: unsigned_of_int take_bit_eq_mod)
  moreover have "x mod (256 * 2 ^ (8 * n)) = 256 * (x div 256 mod 2 ^ (8 * n)) + x mod 256"
    by (simp add: zmod_zmult2_eq)
  ultimately show ?case using Suc by (simp add: power_add mult.commute)
qed simp

lemma le_int_bounds: "0 \<le> le_int bs \<and> le_int bs < 2 ^ (8 * length bs)"
proof (induction bs)
  case (Cons b bs)
  have "uint b < 256" using uint_lt2p[of b] by simp
  moreover have "(2::int) ^ (8 * length (b # bs)) = 256 * 2 ^ (8 * length bs)" by (simp add: power_add)
  ultimately show ?case using Cons by (simp add: add_nonneg_nonneg)
qed simp

lemma le_bytes_le_int: "le_bytes (length bs) (le_int bs) = bs"
proof (induction bs)
  case (Cons b bs)
  have "uint b < 256" using uint_lt2p[of b] by simp
  then have "(uint b + 256 * le_int bs) div 256 = le_int bs" by simp
  moreover have "(word_of_int (uint b + 256 * le_int bs) :: byte) = b"
  proof -
    have "(256 :: byte) = 0" by simp
    then show ?thesis by (simp only: of_int_add of_int_mult of_int_numeral mult_zero_left) simp
  qed
  ultimately show ?case using Cons by simp
qed simp

text \<open>A word as the bytes the guest sees, and back.\<close>

definition word_bytes :: "'a::len word \<Rightarrow> byte list" where
  "word_bytes w = le_bytes (LENGTH('a) div 8) (uint w)"

definition bytes_word :: "byte list \<Rightarrow> 'a::len word" where
  "bytes_word bs = word_of_int (le_int bs)"

lemma length_word_bytes [simp]: "length (word_bytes (w :: 'a::len word)) = LENGTH('a) div 8"
  by (simp add: word_bytes_def)

lemma bytes_word_bytes [simp]: "8 dvd LENGTH('a) \<Longrightarrow> bytes_word (word_bytes w) = (w :: 'a::len word)"
  by (simp add: bytes_word_def word_bytes_def le_int_le_bytes)

section \<open>Running a fallible step over a list\<close>

fun iter_opt :: "('s \<Rightarrow> 'a \<Rightarrow> 's option) \<Rightarrow> 's \<Rightarrow> 'a list \<Rightarrow> 's option" where
  "iter_opt step s [] = Some s"
| "iter_opt step s (x # xs) = (case step s x of None \<Rightarrow> None | Some s' \<Rightarrow> iter_opt step s' xs)"

text \<open>
  The contract of a component whose calls keep its invariant, except where one of them meets a hazard the component
  names; a client gets every run up to the first of these.
\<close>

locale guarded_calls =
  fixes ok :: "'s \<Rightarrow> bool" and hazard :: "'s \<Rightarrow> 'c \<Rightarrow> bool" and call :: "'s \<Rightarrow> 'c \<Rightarrow> 's option"
  assumes call_guarded: "ok s \<Longrightarrow> \<not> hazard s c \<Longrightarrow> \<exists>s'. call s c = Some s' \<and> ok s'"
begin

lemma run_guarded:
  assumes "ok s"
  shows "(\<exists>s'. iter_opt call s cs = Some s' \<and> ok s')
    \<or> (\<exists>pre c post s'. cs = pre @ c # post \<and> iter_opt call s pre = Some s' \<and> ok s' \<and> hazard s' c)"
  using assms
proof (induction cs arbitrary: s)
  case (Cons c cs)
  show ?case
  proof (cases "hazard s c")
    case True
    then show ?thesis using Cons.prems by (intro disjI2 exI[of _ "[]"] exI[of _ c] exI[of _ cs] exI[of _ s]) simp
  next
    case False
    then obtain s1 where s1: "call s c = Some s1" "ok s1" using call_guarded Cons.prems by blast
    from Cons.IH[OF s1(2)] show ?thesis
    proof
      assume "\<exists>s'. iter_opt call s1 cs = Some s' \<and> ok s'"
      then show ?thesis using s1 by simp
    next
      assume "\<exists>pre c post s'. cs = pre @ c # post \<and> iter_opt call s1 pre = Some s' \<and> ok s' \<and> hazard s' c"
      then obtain pre d post s' where "cs = pre @ d # post" "iter_opt call s1 pre = Some s'" "ok s'" "hazard s' d" by blast
      then show ?thesis using s1 by (intro disjI2 exI[of _ "c # pre"] exI[of _ d] exI[of _ post] exI[of _ s']) simp
    qed
  qed
qed simp

end

text \<open>The contract of a component whose valid calls succeed and keep its invariant; a client gets every run.\<close>

locale total_calls =
  fixes ok :: "'s \<Rightarrow> bool" and valid :: "'c \<Rightarrow> bool" and call :: "'s \<Rightarrow> 'c \<Rightarrow> 's option"
  assumes call_total: "ok s \<Longrightarrow> valid c \<Longrightarrow> \<exists>s'. call s c = Some s' \<and> ok s'"
begin

lemma run_total: "ok s \<Longrightarrow> \<forall>c \<in> set cs. valid c \<Longrightarrow> \<exists>s'. iter_opt call s cs = Some s' \<and> ok s'"
proof (induction cs arbitrary: s)
  case (Cons c cs)
  then obtain s1 where "call s c = Some s1" "ok s1" using call_total by force
  with Cons show ?case by simp
qed simp

end

section \<open>The last elements of a list\<close>

definition lastn :: "nat \<Rightarrow> 'a list \<Rightarrow> 'a list" where
  "lastn n xs = drop (length xs - n) xs"

lemma lastn_all [simp]: "length xs \<le> n \<Longrightarrow> lastn n xs = xs"
  by (simp add: lastn_def)

lemma length_lastn [simp]: "length (lastn n xs) = min n (length xs)"
  by (auto simp: lastn_def)

lemma lastn_append_lastn: "lastn n (lastn n xs @ ys) = lastn n (xs @ ys)"
proof (cases "length xs \<le> n")
  case False
  then have "n - length ys \<le> length xs" by simp
  with False show ?thesis
    by (simp add: lastn_def) (simp add: add.commute)
qed simp

lemma lastn_append_right: "length ys \<ge> n \<Longrightarrow> lastn n (xs @ ys) = lastn n ys"
  by (simp add: lastn_def)

section \<open>Elements that stand together\<close>

text \<open>All occurrences of \<open>x\<close> form one run.\<close>

definition contig :: "'a \<Rightarrow> 'a list \<Rightarrow> bool" where
  "contig x xs \<longleftrightarrow> x \<notin> set (dropWhile (\<lambda>y. y = x) (dropWhile (\<lambda>y. y \<noteq> x) xs))"

lemma contig_Nil [simp]: "contig x []"
  by (simp add: contig_def)

lemma contig_absent: "x \<notin> set xs \<Longrightarrow> contig x xs"
  unfolding contig_def by (blast dest: set_dropWhileD)

lemma contig_append_left: "x \<notin> set A \<Longrightarrow> contig x (A @ B) = contig x B"
  unfolding contig_def by (subst dropWhile_append2) auto

lemma contig_run:
  assumes "\<forall>y \<in> set A. y = x" "x \<notin> set B"
  shows "contig x (A @ B)"
proof (cases A)
  case Nil
  then show ?thesis using assms(2) by (simp add: contig_absent)
next
  case (Cons a A')
  then have "dropWhile (\<lambda>y. y \<noteq> x) (A @ B) = A @ B" using assms(1) by simp
  moreover have "dropWhile (\<lambda>y. y = x) (A @ B) = dropWhile (\<lambda>y. y = x) B"
    using assms(1) by (intro dropWhile_append2) auto
  ultimately show ?thesis unfolding contig_def using assms(2) by (metis set_dropWhileD)
qed

lemma dropWhile_append_cases:
  obtains "\<forall>a \<in> set A. P a" "dropWhile P (A @ B) = dropWhile P B" "dropWhile P A = []"
  | "dropWhile P (A @ B) = dropWhile P A @ B"
proof (cases "\<forall>a \<in> set A. P a")
  case True
  then show thesis using that(1) by (simp add: dropWhile_append2 dropWhile_eq_Nil_conv)
next
  case False
  then show thesis using that(2) by (metis dropWhile_append1)
qed

lemma contig_append_right:
  assumes "x \<notin> set B"
  shows "contig x (A @ B) = contig x A"
proof (cases "x \<in> set A")
  case False
  with assms show ?thesis by (simp add: contig_absent)
next
  case True
  define A' where "A' = dropWhile (\<lambda>y. y \<noteq> x) A"
  have d: "dropWhile (\<lambda>y. y \<noteq> x) (A @ B) = A' @ B"
    unfolding A'_def by (rule dropWhile_append1[OF True]) simp
  show ?thesis
    unfolding contig_def d A'_def[symmetric]
    by (rule dropWhile_append_cases[of A' "\<lambda>y. y = x" B])
      (metis assms empty_iff list.set(1) set_dropWhileD, simp add: assms)
qed

lemma contig_mid:
  assumes "x \<in> set A" "G \<noteq> []" "x \<notin> set G" "contig x (A @ G @ B)"
  shows "x \<notin> set B"
proof -
  define A' where "A' = dropWhile (\<lambda>y. y \<noteq> x) A"
  have d: "dropWhile (\<lambda>y. y \<noteq> x) (A @ G @ B) = A' @ G @ B"
    unfolding A'_def by (rule dropWhile_append1[OF assms(1)]) simp
  have g: "dropWhile (\<lambda>y. y = x) (G @ B) = G @ B" using assms(2,3) by (cases G) auto
  have "x \<notin> set (dropWhile (\<lambda>y. y = x) (A' @ G @ B))" using assms(4) by (simp add: contig_def d)
  then show ?thesis
    by (rule_tac dropWhile_append_cases[of A' "\<lambda>y. y = x" "G @ B"]) (simp_all add: g)
qed

lemma contig_replace:
  assumes "contig x (A @ G @ B)" "x \<notin> set G" "x \<notin> set G'" "G = [] \<longrightarrow> B = []"
  shows "contig x (A @ G' @ B)"
proof (cases "x \<in> set A")
  case True
  then have "x \<notin> set B" using assms contig_mid[of x A G B] by (cases "G = []") auto
  then show ?thesis using assms by (simp add: contig_append_right)
next
  case False
  then show ?thesis using assms by (simp add: contig_append_left)
qed

lemma contig_split:
  assumes "contig x (map f xs)"
  obtains A G B where "xs = A @ G @ B" "x \<notin> f ` set A" "\<forall>g \<in> set G. f g = x" "x \<notin> f ` set B"
    "G = [] \<longrightarrow> B = []"
proof -
  define A where "A = takeWhile (\<lambda>l. f l \<noteq> x) xs"
  define D where "D = dropWhile (\<lambda>l. f l \<noteq> x) xs"
  define G where "G = takeWhile (\<lambda>l. f l = x) D"
  define B where "B = dropWhile (\<lambda>l. f l = x) D"
  have "xs = A @ G @ B" by (simp add: A_def D_def G_def B_def)
  moreover have "x \<notin> f ` set A" by (auto simp: A_def dest: set_takeWhileD)
  moreover have "\<forall>g \<in> set G. f g = x" by (auto simp: G_def dest: set_takeWhileD)
  moreover have "x \<notin> f ` set B"
    using assms by (simp add: contig_def dropWhile_map o_def B_def D_def)
  moreover have "G = [] \<longrightarrow> B = []"
  proof (cases D)
    case (Cons d ds)
    then have "f d = x" using hd_dropWhile[of "\<lambda>l. f l \<noteq> x" xs] by (simp add: D_def)
    with Cons show ?thesis by (simp add: G_def)
  qed (simp add: B_def)
  ultimately show thesis using that by blast
qed

section \<open>Counting occurrences under updates\<close>

lemma count_list_update:
  "i < length xs \<Longrightarrow>
   count_list (xs[i := y]) x + (if xs ! i = x then 1 else 0) = count_list xs x + (if y = x then 1 else 0)"
proof (induction xs arbitrary: i)
  case (Cons a xs)
  show ?case
  proof (cases i)
    case (Suc j)
    with Cons.prems have "j < length xs" by simp
    from Cons.IH[OF this] Suc show ?thesis by (auto split: if_splits)
  qed auto
qed simp

lemma count_list_replicate_other: "y \<noteq> x \<Longrightarrow> count_list (replicate n y) x = 0"
  by (induction n) auto

lemma count_list_pos_iff: "0 < count_list xs x \<longleftrightarrow> x \<in> set xs"
  by (metis count_list_0_iff neq0_conv)

end
