(* ===== verification/Ring_Fifo.thy ===== *)
theory Ring_Fifo
  imports Ish_Prelude
begin

text \<open>
  The byte ring buffer of \<^verbatim>\<open>util/fifo.c\<close>. A \<open>None\<close> result is an access outside the
  buffer (or a division by a zero capacity), which the C code does not check for.
  \<^verbatim>\<open>malloc\<close> is taken to return the storage; the contents of fresh storage are a parameter.
\<close>

section \<open>State\<close>

record fifo =
  fbuf :: "byte list"
  fcapacity :: nat
  fsize :: nat
  fstart :: nat

definition fifo_init :: "byte list \<Rightarrow> fifo" where
  "fifo_init storage =
     \<lparr>fbuf = storage, fcapacity = length storage, fsize = 0, fstart = 0\<rparr>"

definition fifo_remaining :: "fifo \<Rightarrow> nat" where
  "fifo_remaining f = size_sub (fcapacity f) (fsize f)"

section \<open>Operations\<close>

text \<open>The eviction step of an overwriting write (\<^verbatim>\<open>excess\<close>).\<close>

definition fifo_evict :: "fifo \<Rightarrow> nat \<Rightarrow> fifo" where
  "fifo_evict f n =
     (let excess = size_sub n (fifo_remaining f)
      in f\<lparr>fstart := size_add (fstart f) excess mod fcapacity f,
           fsize := size_sub (fsize f) excess\<rparr>)"

definition fifo_put :: "fifo \<Rightarrow> byte list \<Rightarrow> fifo option" where
  "fifo_put f data =
     (let tail = size_add (fstart f) (fsize f) mod fcapacity f;
          first = min (fcapacity f - tail) (length data)
      in case put_at (fbuf f) tail (take first data) of
           None \<Rightarrow> None
         | Some b1 \<Rightarrow>
             (case put_at b1 0 (drop first data) of
                None \<Rightarrow> None
              | Some b2 \<Rightarrow> Some (f\<lparr>fbuf := b2, fsize := size_add (fsize f) (length data)\<rparr>)))"

text \<open>Returns the C result (0 or 1) and the new buffer.\<close>

definition fifo_write :: "fifo \<Rightarrow> byte list \<Rightarrow> bool \<Rightarrow> (nat \<times> fifo) option" where
  "fifo_write f data overwrite =
     (if length data > fifo_remaining f then
        if \<not> overwrite then Some (1, f)
        else if fcapacity f = 0 then None
        else map_option (Pair 0) (fifo_put (fifo_evict f (length data)) data)
      else if fcapacity f = 0 then None
      else map_option (Pair 0) (fifo_put f data))"

text \<open>\<open>None\<close> as the data is the C result 1: nothing is copied.\<close>

definition fifo_read :: "fifo \<Rightarrow> nat \<Rightarrow> bool \<Rightarrow> bool \<Rightarrow> (byte list option \<times> fifo) option" where
  "fifo_read f n peek lst =
     (if n > fsize f then Some (None, f)
      else if fcapacity f = 0 then None
      else
        let start = (if lst then size_add (fstart f) (size_sub (fsize f) n) mod fcapacity f
                     else fstart f);
            first = min (fcapacity f - fstart f) n
        in case get_at (fbuf f) start first of
             None \<Rightarrow> None
           | Some xs \<Rightarrow>
               (case get_at (fbuf f) 0 (n - first) of
                  None \<Rightarrow> None
                | Some ys \<Rightarrow>
                    Some (Some (xs @ ys),
                      if peek then f
                      else f\<lparr>fstart := size_add start n mod fcapacity f, fsize := fsize f - n\<rparr>)))"

definition fifo_flush :: "fifo \<Rightarrow> fifo" where
  "fifo_flush f = f\<lparr>fsize := 0\<rparr>"

section \<open>Abstraction: the queued bytes\<close>

definition fifo_ok :: "fifo \<Rightarrow> bool" where
  "fifo_ok f \<longleftrightarrow> 0 < fcapacity f \<and> length (fbuf f) = fcapacity f \<and> 2 * fcapacity f < size_max
     \<and> fsize f \<le> fcapacity f \<and> fstart f < fcapacity f"

definition fifo_bytes :: "fifo \<Rightarrow> byte list" where
  "fifo_bytes f = map (\<lambda>i. fbuf f ! ((fstart f + i) mod fcapacity f)) [0..<fsize f]"

lemma length_fifo_bytes [simp]: "length (fifo_bytes f) = fsize f"
  by (simp add: fifo_bytes_def)

lemma fifo_bytes_nth:
  "i < fsize f \<Longrightarrow> fifo_bytes f ! i = fbuf f ! ((fstart f + i) mod fcapacity f)"
  by (simp add: fifo_bytes_def)

lemma fifo_okD:
  assumes "fifo_ok f"
  shows "0 < fcapacity f" "length (fbuf f) = fcapacity f" "2 * fcapacity f < size_max"
    "fsize f \<le> fcapacity f" "fstart f < fcapacity f" "fcapacity f < size_max"
    "fifo_remaining f = fcapacity f - fsize f"
  using assms by (auto simp: fifo_ok_def fifo_remaining_def)

lemma mod_add_small:
  "(a::nat) < c \<Longrightarrow> b \<le> c \<Longrightarrow> (a + b) mod c = (if a + b < c then a + b else a + b - c)"
  by (auto simp: mod_if)

subsection \<open>Index arithmetic of a wrapped ring\<close>

definition ring_ix :: "nat \<Rightarrow> nat \<Rightarrow> nat \<Rightarrow> nat" where
  "ring_ix c s i = (if s + i < c then s + i else s + i - c)"

lemma ring_ix_mod: "s < c \<Longrightarrow> i \<le> c \<Longrightarrow> (s + i) mod c = ring_ix c s i"
  by (simp add: ring_ix_def mod_add_small)

lemma ring_ix_lt: "s < c \<Longrightarrow> i \<le> c \<Longrightarrow> ring_ix c s i < c"
  by (auto simp: ring_ix_def)

lemma ring_ix_cases:
  assumes "s < c" "i \<le> c"
  obtains "s + i < c" "ring_ix c s i = s + i" | "c \<le> s + i" "ring_ix c s i + c = s + i"
  using assms by (cases "s + i < c") (auto simp: ring_ix_def)

lemma ring_cell_old:
  assumes s: "s < c" and nm: "n + m \<le> c" and i: "i < n" and f1: "first \<le> c - ring_ix c s n"
    and f2: "first \<le> m" and f3: "first = m \<or> first = c - ring_ix c s n"
  shows "\<not> ring_ix c s i < m - first"
    "\<not> (ring_ix c s n \<le> ring_ix c s i \<and> ring_ix c s i < ring_ix c s n + first)"
proof -
  have n: "n \<le> c" and ic: "i \<le> c" using nm i by auto
  have "\<not> ring_ix c s i < m - first
      \<and> \<not> (ring_ix c s n \<le> ring_ix c s i \<and> ring_ix c s i < ring_ix c s n + first)"
    by (rule ring_ix_cases[OF s n]; rule ring_ix_cases[OF s ic]) (use assms in linarith)+
  then show "\<not> ring_ix c s i < m - first"
    "\<not> (ring_ix c s n \<le> ring_ix c s i \<and> ring_ix c s i < ring_ix c s n + first)" by auto
qed

lemma ring_cell_new:
  assumes s: "s < c" and nm: "n + m \<le> c" and i: "n \<le> i" "i < n + m"
    and f: "first \<le> c - ring_ix c s n" "first \<le> m" "first = m \<or> first = c - ring_ix c s n"
  shows "if ring_ix c s i < m - first then first + ring_ix c s i = i - n
         else ring_ix c s n \<le> ring_ix c s i \<and> ring_ix c s i < ring_ix c s n + first
           \<and> ring_ix c s i - ring_ix c s n = i - n"
proof -
  have n: "n \<le> c" and ic: "i \<le> c" using nm i by auto
  show ?thesis
    by (rule ring_ix_cases[OF s n]; rule ring_ix_cases[OF s ic]) (use assms in \<open>auto split: if_splits\<close>)
qed

subsection \<open>The put step appends\<close>

lemma fifo_put_ok:
  assumes ok: "fifo_ok f" and room: "length data \<le> fcapacity f - fsize f"
  shows "\<exists>f'. fifo_put f data = Some f' \<and> fifo_ok f' \<and> fifo_bytes f' = fifo_bytes f @ data
           \<and> fcapacity f' = fcapacity f"
proof -
  note D = fifo_okD[OF ok]
  define c where "c = fcapacity f"
  define tail where "tail = (fstart f + fsize f) mod c"
  define first where "first = min (c - tail) (length data)"
  have sa: "size_add (fstart f) (fsize f) = fstart f + fsize f"
    using D by (intro size_add_lt) linarith
  have tl: "tail < c" using D by (simp add: tail_def c_def)
  have fl: "first \<le> c - tail" "first \<le> length data"
    "first = length data \<or> first = c - tail" by (auto simp: first_def)
  then have lf: "length (take first data) = first" by simp
  obtain b1 where b1: "put_at (fbuf f) tail (take first data) = Some b1"
    using put_at_SomeI[of tail "take first data" "fbuf f"] fl(1) lf tl D(2) by (fastforce simp: c_def)
  have l1: "length b1 = c" using put_at_length[OF b1] D by (simp add: c_def)
  obtain b2 where b2: "put_at b1 0 (drop first data) = Some b2"
    using put_at_SomeI[of 0 "drop first data" b1] l1 room fl(2) D by (fastforce simp: c_def)
  have l2: "length b2 = c" using put_at_length[OF b2] l1 by simp
  define f' where "f' = f\<lparr>fbuf := b2, fsize := fsize f + length data\<rparr>"
  have sa2: "size_add (fsize f) (length data) = fsize f + length data"
    using D room by (intro size_add_lt) linarith
  have put: "fifo_put f data = Some f'"
    using b1 b2 sa sa2 by (simp add: fifo_put_def Let_def f'_def tail_def first_def c_def)
  have ok': "fifo_ok f'" using D l2 room by (simp add: fifo_ok_def f'_def c_def)
  have cell: "b2 ! i = (if i < length data - first then data ! (first + i)
                 else if tail \<le> i \<and> i < tail + first then data ! (i - tail) else fbuf f ! i)"
    if "i < c" for i
    using that put_at_nth[OF b2, of i] put_at_nth[OF b1, of i, unfolded lf] l1 D fl
    by (auto simp: c_def)
  have "fifo_bytes f' = fifo_bytes f @ data"
  proof (rule nth_equalityI)
    show "length (fifo_bytes f') = length (fifo_bytes f @ data)" by (simp add: f'_def)
  next
    fix i assume "i < length (fifo_bytes f')"
    then have i: "i < fsize f + length data" by (simp add: f'_def)
    define p where "p = ring_ix c (fstart f) i"
    have p: "p < c" using D i room ring_ix_lt by (simp add: p_def c_def)
    have t: "tail = ring_ix c (fstart f) (fsize f)"
      using D ring_ix_mod by (simp add: tail_def c_def)
    have lhs: "fifo_bytes f' ! i = b2 ! p"
      using i D room by (simp add: fifo_bytes_nth f'_def p_def c_def ring_ix_mod)
    have bnd: "fstart f < c" "fsize f + length data \<le> c" using D room by (simp_all add: c_def)
    note F = fl[unfolded t]
    show "fifo_bytes f' ! i = (fifo_bytes f @ data) ! i"
    proof (cases "i < fsize f")
      case True
      have "fifo_bytes f ! i = fbuf f ! p"
        using True D by (simp add: fifo_bytes_nth p_def c_def ring_ix_mod)
      moreover have "b2 ! p = fbuf f ! p"
        using cell[OF p] ring_cell_old[OF bnd True F] by (simp add: t p_def)
      ultimately show ?thesis using True by (simp add: lhs nth_append)
    next
      case False
      then have "b2 ! p = data ! (i - fsize f)"
        using cell[OF p] ring_cell_new[OF bnd _ i F] by (auto simp: t p_def split: if_splits)
      with False show ?thesis by (simp add: lhs nth_append)
    qed
  qed
  with put ok' show ?thesis by (auto simp: f'_def)
qed

subsection \<open>The operations against the queued bytes\<close>

lemma fifo_init_ok:
  assumes "storage \<noteq> []" "2 * length storage < size_max"
  shows "fifo_ok (fifo_init storage)" "fifo_bytes (fifo_init storage) = []"
  using assms by (auto simp: fifo_init_def fifo_ok_def fifo_bytes_def)

lemma fifo_write_room:
  assumes "fifo_ok f" "length data \<le> fcapacity f - fsize f"
  shows "\<exists>f'. fifo_write f data ov = Some (0, f') \<and> fifo_ok f' \<and> fcapacity f' = fcapacity f
           \<and> fifo_bytes f' = fifo_bytes f @ data"
  using fifo_put_ok[OF assms] fifo_okD[OF assms(1)] assms(2) by (auto simp: fifo_write_def)

lemma fifo_write_full:
  "fifo_ok f \<Longrightarrow> fcapacity f - fsize f < length data \<Longrightarrow> fifo_write f data False = Some (1, f)"
  by (simp add: fifo_write_def fifo_okD)

lemma fifo_evict_ok:
  assumes ok: "fifo_ok f" and over: "fcapacity f - fsize f < n" and fits: "n \<le> fcapacity f"
  shows "fifo_ok (fifo_evict f n)" "fsize (fifo_evict f n) = fcapacity f - n"
    "fcapacity (fifo_evict f n) = fcapacity f"
    "fifo_bytes (fifo_evict f n) = drop (n - (fcapacity f - fsize f)) (fifo_bytes f)"
proof -
  note D = fifo_okD[OF ok]
  define c where "c = fcapacity f"
  define e where "e = n - (c - fsize f)"
  have e: "size_sub n (fifo_remaining f) = e" using D over fits by (simp add: e_def c_def)
  have ele: "e \<le> fsize f" "e \<le> c" using fits D by (auto simp: e_def c_def)
  have sz: "size_sub (fsize f) e = c - n" using ele D fits over by (simp add: e_def c_def)
  have st: "size_add (fstart f) e = fstart f + e" using ele D by (intro size_add_lt) (simp add: c_def)
  have ev: "fifo_evict f n = f\<lparr>fstart := (fstart f + e) mod c, fsize := c - n\<rparr>"
    by (simp add: fifo_evict_def Let_def e sz st c_def)
  show "fifo_ok (fifo_evict f n)" "fsize (fifo_evict f n) = fcapacity f - n"
    "fcapacity (fifo_evict f n) = fcapacity f"
    using D by (auto simp: ev fifo_ok_def c_def)
  have len: "fsize f - e = c - n" using ele fits over D by (simp add: e_def c_def)
  have "fifo_bytes (fifo_evict f n) = drop e (fifo_bytes f)"
  proof (rule nth_equalityI)
    show "length (fifo_bytes (fifo_evict f n)) = length (drop e (fifo_bytes f))"
      by (simp add: ev len)
  next
    fix i assume "i < length (fifo_bytes (fifo_evict f n))"
    then have "i < c - n" by (simp add: ev)
    with len have "e + i < fsize f" by simp
    with \<open>i < c - n\<close> show "fifo_bytes (fifo_evict f n) ! i = drop e (fifo_bytes f) ! i"
      by (simp add: fifo_bytes_nth ev c_def mod_add_left_eq add.assoc)
  qed
  then show "fifo_bytes (fifo_evict f n) = drop (n - (fcapacity f - fsize f)) (fifo_bytes f)"
    by (simp add: e_def c_def)
qed

lemma fifo_write_overwrite:
  assumes ok: "fifo_ok f" and fits: "length data \<le> fcapacity f"
  shows "\<exists>f'. fifo_write f data True = Some (0, f') \<and> fifo_ok f' \<and> fcapacity f' = fcapacity f
           \<and> fifo_bytes f' = lastn (fcapacity f) (fifo_bytes f @ data)"
proof (cases "length data \<le> fcapacity f - fsize f")
  case True
  then have "length (fifo_bytes f @ data) \<le> fcapacity f" using fifo_okD(4)[OF ok] by simp
  then show ?thesis using fifo_write_room[OF ok True, of True] by simp
next
  case False
  then have over: "fcapacity f - fsize f < length data" by simp
  note ev = fifo_evict_ok[OF ok over fits]
  note D = fifo_okD[OF ok]
  have "fifo_write f data True = map_option (Pair 0) (fifo_put (fifo_evict f (length data)) data)"
    using over D by (simp add: fifo_write_def)
  moreover have "lastn (fcapacity f) (fifo_bytes f @ data)
      = drop (length data - (fcapacity f - fsize f)) (fifo_bytes f) @ data"
    using fits D over by (simp add: lastn_def) (metis Nat.diff_diff_right add.commute)
  ultimately show ?thesis using fifo_put_ok[OF ev(1), of data] ev fits by auto
qed

lemma fifo_read_short: "fsize f < n \<Longrightarrow> fifo_read f n pk lst = Some (None, f)"
  by (simp add: fifo_read_def)

text \<open>Copying \<open>n\<close> bytes from ring index \<open>s\<close> in the two steps of the C code.\<close>

lemma ring_copy:
  assumes "length b = c" "s < c" "n \<le> c"
  shows "\<exists>xs ys. get_at b s (min (c - s) n) = Some xs \<and> get_at b 0 (n - min (c - s) n) = Some ys
     \<and> xs @ ys = map (\<lambda>i. b ! ((s + i) mod c)) [0..<n]"
proof -
  define first where "first = min (c - s) n"
  have f: "first \<le> c - s" "first \<le> n" "first = n \<or> first = c - s" by (auto simp: first_def)
  obtain xs where xs: "get_at b s first = Some xs"
    using get_at_SomeI[of s first b] f assms by fastforce
  obtain ys where ys: "get_at b 0 (n - first) = Some ys"
    using get_at_SomeI[of 0 "n - first" b] f assms by fastforce
  have "xs @ ys = map (\<lambda>i. b ! ((s + i) mod c)) [0..<n]"
  proof (rule nth_equalityI)
    show "length (xs @ ys) = length (map (\<lambda>i. b ! ((s + i) mod c)) [0..<n])"
      using get_at_length[OF xs] get_at_length[OF ys] f by simp
  next
    fix i assume "i < length (xs @ ys)"
    then have i: "i < n" using get_at_length[OF xs] get_at_length[OF ys] f by simp
    show "(xs @ ys) ! i = map (\<lambda>i. b ! ((s + i) mod c)) [0..<n] ! i"
    proof (cases "i < first")
      case True
      then have "(s + i) mod c = s + i" using f assms by simp
      with True i show ?thesis using get_at_length[OF xs] get_at_nth[OF xs True] by (simp add: nth_append)
    next
      case False
      then have "first = c - s" "n - first > i - first" using f i by auto
      moreover have "c \<le> s + i" using \<open>first = c - s\<close> False assms by linarith
      ultimately have "(s + i) mod c = i - first" using i assms by (simp add: mod_add_small)
      then show ?thesis using False i get_at_length[OF xs] get_at_nth[OF ys \<open>n - first > i - first\<close>]
        by (simp add: nth_append)
    qed
  qed
  with xs ys show ?thesis by (auto simp: first_def)
qed

lemma fifo_read_front:
  assumes ok: "fifo_ok f" and n: "n \<le> fsize f"
  shows "\<exists>f'. fifo_read f n pk False = Some (Some (take n (fifo_bytes f)), f')
     \<and> fifo_ok f' \<and> fcapacity f' = fcapacity f
     \<and> fifo_bytes f' = (if pk then fifo_bytes f else drop n (fifo_bytes f))"
proof -
  note D = fifo_okD[OF ok]
  have nc: "n \<le> fcapacity f" using n D by simp
  obtain xs ys where c: "get_at (fbuf f) (fstart f) (min (fcapacity f - fstart f) n) = Some xs"
      "get_at (fbuf f) 0 (n - min (fcapacity f - fstart f) n) = Some ys"
      "xs @ ys = map (\<lambda>i. fbuf f ! ((fstart f + i) mod fcapacity f)) [0..<n]"
    using ring_copy[OF D(2,5) nc] by blast
  have t: "xs @ ys = take n (fifo_bytes f)"
    using n unfolding c(3) fifo_bytes_def by (simp add: take_map)
  have st: "size_add (fstart f) n = fstart f + n" using D nc by (intro size_add_lt) linarith
  define f' where "f' = f\<lparr>fstart := (fstart f + n) mod fcapacity f, fsize := fsize f - n\<rparr>"
  have "fifo_bytes f' = drop n (fifo_bytes f)"
    by (rule nth_equalityI)
      (simp_all add: f'_def fifo_bytes_nth mod_add_left_eq add.assoc)
  moreover have "fifo_ok f'" using D by (auto simp: f'_def fifo_ok_def)
  ultimately show ?thesis
    using c(1,2) t n D st ok by (auto simp: fifo_read_def f'_def)
qed

text \<open>
  \<open>FIFO_LAST\<close>: the number of bytes before the wrap is computed from the queue's start, not
  from the start of the bytes asked for. The read is right while the queue does not wrap.
\<close>

lemma fifo_peek_last_unwrapped:
  assumes ok: "fifo_ok f" and n: "n \<le> fsize f" and nowrap: "fstart f + fsize f \<le> fcapacity f"
  shows "fifo_read f n True True = Some (Some (lastn n (fifo_bytes f)), f)"
proof (cases "n = 0")
  case True
  with fifo_okD[OF ok] show ?thesis by (simp add: fifo_read_def get_at_def lastn_def)
next
  case False
  note D = fifo_okD[OF ok]
  define st where "st = fstart f + (fsize f - n)"
  have stc: "st < fcapacity f" using False n nowrap by (simp add: st_def)
  have sa: "size_add (fstart f) (size_sub (fsize f) n) mod fcapacity f = st"
    using D n stc by (simp add: st_def)
  have m: "min (fcapacity f - fstart f) n = n" using n nowrap by simp
  have g: "get_at (fbuf f) st n = Some (take n (drop st (fbuf f)))"
    using D n nowrap by (simp add: get_at_def st_def)
  have "take n (drop st (fbuf f)) = lastn n (fifo_bytes f)"
    by (rule nth_equalityI)
      (use D n nowrap in \<open>simp_all add: lastn_def fifo_bytes_nth st_def add.assoc\<close>)
  then show ?thesis
    using n D unfolding fifo_read_def Let_def if_True sa m g by (simp add: get_at_def)
qed

lemma fifo_peek_last_wrapped_overrun:
  assumes ok: "fifo_ok f" and n: "0 < n" "n < fsize f"
    and wrap: "fcapacity f < fstart f + fsize f" "fstart f + (fsize f - n) < fcapacity f"
  shows "fifo_read f n pk True = None"
proof -
  note D = fifo_okD[OF ok]
  define st where "st = fstart f + (fsize f - n)"
  have sa: "size_add (fstart f) (size_sub (fsize f) n) mod fcapacity f = st"
    using D n wrap by (simp add: st_def)
  have "fcapacity f < st + min (fcapacity f - fstart f) n"
    using n wrap D by (cases "fcapacity f - fstart f \<le> n") (simp_all add: st_def; linarith)+
  then have "get_at (fbuf f) st (min (fcapacity f - fstart f) n) = None"
    using D by (simp add: get_at_def)
  with n D show ?thesis unfolding fifo_read_def Let_def if_True sa by simp
qed

section \<open>The contract a bounded byte log offers its writers\<close>

text \<open>
  A client that only appends with overwriting sees a window on the last \<open>capacity\<close> bytes of
  everything ever written.
\<close>

locale byte_window =
  fixes ok :: "'q \<Rightarrow> bool"
    and contents :: "'q \<Rightarrow> byte list"
    and capacity :: "'q \<Rightarrow> nat"
    and append :: "'q \<Rightarrow> byte list \<Rightarrow> 'q option"
  assumes append_law: "ok q \<Longrightarrow> length d \<le> capacity q \<Longrightarrow>
    \<exists>q'. append q d = Some q' \<and> ok q' \<and> capacity q' = capacity q
      \<and> contents q' = lastn (capacity q) (contents q @ d)"
begin

lemma append_many:
  "ok q \<Longrightarrow> \<forall>d \<in> set ds. length d \<le> capacity q \<Longrightarrow> length (contents q) \<le> capacity q \<Longrightarrow>
   \<exists>q'. iter_opt append q ds = Some q' \<and> ok q' \<and> capacity q' = capacity q
      \<and> contents q' = lastn (capacity q) (contents q @ concat ds)"
proof (induction ds arbitrary: q)
  case Nil
  then show ?case by simp
next
  case (Cons d ds)
  then obtain q1 where q1: "append q d = Some q1" "ok q1" "capacity q1 = capacity q"
      "contents q1 = lastn (capacity q) (contents q @ d)"
    using append_law[of q d] by auto
  have "length (contents q1) \<le> capacity q1" by (simp add: q1)
  with Cons.IH[of q1] Cons.prems q1 obtain q2 where "iter_opt append q1 ds = Some q2" "ok q2"
      "capacity q2 = capacity q" "contents q2 = lastn (capacity q) (contents q1 @ concat ds)"
    by auto
  with q1 show ?case by (simp add: lastn_append_lastn)
qed

end

definition fifo_append :: "fifo \<Rightarrow> byte list \<Rightarrow> fifo option" where
  "fifo_append f d = map_option snd (fifo_write f d True)"

interpretation fifo_window: byte_window fifo_ok fifo_bytes fcapacity fifo_append
proof unfold_locales
  fix f :: fifo and d :: "byte list" assume "fifo_ok f" "length d \<le> fcapacity f"
  from fifo_write_overwrite[OF this]
  show "\<exists>q'. fifo_append f d = Some q' \<and> fifo_ok q' \<and> fcapacity q' = fcapacity f
      \<and> fifo_bytes q' = lastn (fcapacity f) (fifo_bytes f @ d)"
    by (auto simp: fifo_append_def)
qed

end
