(* ===== verification/Kernel_Errno.thy ===== *)
theory Kernel_Errno
  imports Ish_Prelude
begin

text \<open>
  Guest error numbers (\<^verbatim>\<open>kernel/errno.h\<close>) and the translation of host errors into them
  (\<^verbatim>\<open>kernel/errno.c\<close>). As in the source an error is a negative number with a name; a
  kernel operation that cannot confuse errors with values returns \<open>errno + 'a\<close>.
  The host's numbering comes from its own \<^verbatim>\<open>errno.h\<close> and is a parameter of \<open>err_map\<close>.
\<close>

type_synonym errno = int

type_synonym 'a res = "errno + 'a"

abbreviation (input) EPERM :: errno where "EPERM \<equiv> -1"
abbreviation (input) ENOENT :: errno where "ENOENT \<equiv> -2"
abbreviation (input) ESRCH :: errno where "ESRCH \<equiv> -3"
abbreviation (input) EINTR :: errno where "EINTR \<equiv> -4"
abbreviation (input) EIO :: errno where "EIO \<equiv> -5"
abbreviation (input) ENXIO :: errno where "ENXIO \<equiv> -6"
abbreviation (input) E2BIG :: errno where "E2BIG \<equiv> -7"
abbreviation (input) ENOEXEC :: errno where "ENOEXEC \<equiv> -8"
abbreviation (input) EBADF :: errno where "EBADF \<equiv> -9"
abbreviation (input) ECHILD :: errno where "ECHILD \<equiv> -10"
abbreviation (input) EAGAIN :: errno where "EAGAIN \<equiv> -11"
abbreviation (input) ENOMEM :: errno where "ENOMEM \<equiv> -12"
abbreviation (input) EACCES :: errno where "EACCES \<equiv> -13"
abbreviation (input) EFAULT :: errno where "EFAULT \<equiv> -14"
abbreviation (input) ENOTBLK :: errno where "ENOTBLK \<equiv> -15"
abbreviation (input) EBUSY :: errno where "EBUSY \<equiv> -16"
abbreviation (input) EEXIST :: errno where "EEXIST \<equiv> -17"
abbreviation (input) EXDEV :: errno where "EXDEV \<equiv> -18"
abbreviation (input) ENODEV :: errno where "ENODEV \<equiv> -19"
abbreviation (input) ENOTDIR :: errno where "ENOTDIR \<equiv> -20"
abbreviation (input) EISDIR :: errno where "EISDIR \<equiv> -21"
abbreviation (input) EINVAL :: errno where "EINVAL \<equiv> -22"
abbreviation (input) ENFILE :: errno where "ENFILE \<equiv> -23"
abbreviation (input) EMFILE :: errno where "EMFILE \<equiv> -24"
abbreviation (input) ENOTTY :: errno where "ENOTTY \<equiv> -25"
abbreviation (input) ETXTBSY :: errno where "ETXTBSY \<equiv> -26"
abbreviation (input) EFBIG :: errno where "EFBIG \<equiv> -27"
abbreviation (input) ENOSPC :: errno where "ENOSPC \<equiv> -28"
abbreviation (input) ESPIPE :: errno where "ESPIPE \<equiv> -29"
abbreviation (input) EROFS :: errno where "EROFS \<equiv> -30"
abbreviation (input) EMLINK :: errno where "EMLINK \<equiv> -31"
abbreviation (input) EPIPE :: errno where "EPIPE \<equiv> -32"
abbreviation (input) EDOM :: errno where "EDOM \<equiv> -33"
abbreviation (input) ERANGE :: errno where "ERANGE \<equiv> -34"
abbreviation (input) EDEADLK :: errno where "EDEADLK \<equiv> -35"
abbreviation (input) ENAMETOOLONG :: errno where "ENAMETOOLONG \<equiv> -36"
abbreviation (input) ENOLCK :: errno where "ENOLCK \<equiv> -37"
abbreviation (input) ENOSYS :: errno where "ENOSYS \<equiv> -38"
abbreviation (input) ENOTEMPTY :: errno where "ENOTEMPTY \<equiv> -39"
abbreviation (input) ELOOP :: errno where "ELOOP \<equiv> -40"
abbreviation (input) EBFONT :: errno where "EBFONT \<equiv> -59"
abbreviation (input) ENOSTR :: errno where "ENOSTR \<equiv> -60"
abbreviation (input) ENODATA :: errno where "ENODATA \<equiv> -61"
abbreviation (input) ETIME :: errno where "ETIME \<equiv> -62"
abbreviation (input) ENOSR :: errno where "ENOSR \<equiv> -63"
abbreviation (input) ENONET :: errno where "ENONET \<equiv> -64"
abbreviation (input) ENOPKG :: errno where "ENOPKG \<equiv> -65"
abbreviation (input) EREMOTE :: errno where "EREMOTE \<equiv> -66"
abbreviation (input) ENOLINK :: errno where "ENOLINK \<equiv> -67"
abbreviation (input) EADV :: errno where "EADV \<equiv> -68"
abbreviation (input) ESRMNT :: errno where "ESRMNT \<equiv> -69"
abbreviation (input) ECOMM :: errno where "ECOMM \<equiv> -70"
abbreviation (input) EPROTO :: errno where "EPROTO \<equiv> -71"
abbreviation (input) EMULTIHOP :: errno where "EMULTIHOP \<equiv> -72"
abbreviation (input) EDOTDOT :: errno where "EDOTDOT \<equiv> -73"
abbreviation (input) EBADMSG :: errno where "EBADMSG \<equiv> -74"
abbreviation (input) EOVERFLOW :: errno where "EOVERFLOW \<equiv> -75"
abbreviation (input) ENOTUNIQ :: errno where "ENOTUNIQ \<equiv> -76"
abbreviation (input) EBADFD :: errno where "EBADFD \<equiv> -77"
abbreviation (input) EREMCHG :: errno where "EREMCHG \<equiv> -78"
abbreviation (input) ELIBACC :: errno where "ELIBACC \<equiv> -79"
abbreviation (input) ELIBBAD :: errno where "ELIBBAD \<equiv> -80"
abbreviation (input) ELIBSCN :: errno where "ELIBSCN \<equiv> -81"
abbreviation (input) ELIBMAX :: errno where "ELIBMAX \<equiv> -82"
abbreviation (input) ELIBEXEC :: errno where "ELIBEXEC \<equiv> -83"
abbreviation (input) EILSEQ :: errno where "EILSEQ \<equiv> -84"
abbreviation (input) ERESTART :: errno where "ERESTART \<equiv> -85"
abbreviation (input) ESTRPIPE :: errno where "ESTRPIPE \<equiv> -86"
abbreviation (input) EUSERS :: errno where "EUSERS \<equiv> -87"
abbreviation (input) ENOTSOCK :: errno where "ENOTSOCK \<equiv> -88"
abbreviation (input) EDESTADDRREQ :: errno where "EDESTADDRREQ \<equiv> -89"
abbreviation (input) EMSGSIZE :: errno where "EMSGSIZE \<equiv> -90"
abbreviation (input) EPROTOTYPE :: errno where "EPROTOTYPE \<equiv> -91"
abbreviation (input) ENOPROTOOPT :: errno where "ENOPROTOOPT \<equiv> -92"
abbreviation (input) EPROTONOSUPPORT :: errno where "EPROTONOSUPPORT \<equiv> -93"
abbreviation (input) ESOCKTNOSUPPORT :: errno where "ESOCKTNOSUPPORT \<equiv> -94"
abbreviation (input) EOPNOTSUPP :: errno where "EOPNOTSUPP \<equiv> -95"
abbreviation (input) EPFNOSUPPORT :: errno where "EPFNOSUPPORT \<equiv> -96"
abbreviation (input) EAFNOSUPPORT :: errno where "EAFNOSUPPORT \<equiv> -97"
abbreviation (input) EADDRINUSE :: errno where "EADDRINUSE \<equiv> -98"
abbreviation (input) EADDRNOTAVAIL :: errno where "EADDRNOTAVAIL \<equiv> -99"
abbreviation (input) ENETDOWN :: errno where "ENETDOWN \<equiv> -100"
abbreviation (input) ENETUNREACH :: errno where "ENETUNREACH \<equiv> -101"
abbreviation (input) ENETRESET :: errno where "ENETRESET \<equiv> -102"
abbreviation (input) ECONNABORTED :: errno where "ECONNABORTED \<equiv> -103"
abbreviation (input) ECONNRESET :: errno where "ECONNRESET \<equiv> -104"
abbreviation (input) ENOBUFS :: errno where "ENOBUFS \<equiv> -105"
abbreviation (input) EISCONN :: errno where "EISCONN \<equiv> -106"
abbreviation (input) ENOTCONN :: errno where "ENOTCONN \<equiv> -107"
abbreviation (input) ESHUTDOWN :: errno where "ESHUTDOWN \<equiv> -108"
abbreviation (input) ETOOMANYREFS :: errno where "ETOOMANYREFS \<equiv> -109"
abbreviation (input) ETIMEDOUT :: errno where "ETIMEDOUT \<equiv> -110"
abbreviation (input) ECONNREFUSED :: errno where "ECONNREFUSED \<equiv> -111"
abbreviation (input) EHOSTDOWN :: errno where "EHOSTDOWN \<equiv> -112"
abbreviation (input) EHOSTUNREACH :: errno where "EHOSTUNREACH \<equiv> -113"
abbreviation (input) EALREADY :: errno where "EALREADY \<equiv> -114"
abbreviation (input) EINPROGRESS :: errno where "EINPROGRESS \<equiv> -115"
abbreviation (input) ESTALE :: errno where "ESTALE \<equiv> -116"
abbreviation (input) EUCLEAN :: errno where "EUCLEAN \<equiv> -117"
abbreviation (input) ENOTNAM :: errno where "ENOTNAM \<equiv> -118"
abbreviation (input) ENAVAIL :: errno where "ENAVAIL \<equiv> -119"
abbreviation (input) EISNAM :: errno where "EISNAM \<equiv> -120"
abbreviation (input) EREMOTEIO :: errno where "EREMOTEIO \<equiv> -121"
abbreviation (input) EDQUOT :: errno where "EDQUOT \<equiv> -122"
abbreviation (input) ECANCELED :: errno where "ECANCELED \<equiv> -125"

text \<open>
  Every number \<^verbatim>\<open>kernel/errno.h\<close> defines, in its order (\<^verbatim>\<open>_ENOTSUP\<close> is a second name of
  \<^verbatim>\<open>_EOPNOTSUPP\<close>).
\<close>

definition guest_errnos :: "errno list" where
  "guest_errnos =
    [EPERM, ENOENT, ESRCH, EINTR, EIO, ENXIO, E2BIG, ENOEXEC, EBADF, ECHILD, EAGAIN,
     ENOMEM, EACCES, EFAULT, ENOTBLK, EBUSY, EEXIST, EXDEV, ENODEV, ENOTDIR, EISDIR,
     EINVAL, ENFILE, EMFILE, ENOTTY, ETXTBSY, EFBIG, ENOSPC, ESPIPE, EROFS, EMLINK, EPIPE,
     EDOM, ERANGE, EDEADLK, ENAMETOOLONG, ENOLCK, ENOSYS, ENOTEMPTY, ELOOP, EBFONT, ENOSTR,
     ENODATA, ETIME, ENOSR, ENONET, ENOPKG, EREMOTE, ENOLINK, EADV, ESRMNT, ECOMM, EPROTO,
     EMULTIHOP, EDOTDOT, EBADMSG, EOVERFLOW, ENOTUNIQ, EBADFD, EREMCHG, ELIBACC, ELIBBAD,
     ELIBSCN, ELIBMAX, ELIBEXEC, EILSEQ, ERESTART, ESTRPIPE, EUSERS, ENOTSOCK,
     EDESTADDRREQ, EMSGSIZE, EPROTOTYPE, ENOPROTOOPT, EPROTONOSUPPORT, ESOCKTNOSUPPORT,
     EOPNOTSUPP, EPFNOSUPPORT, EAFNOSUPPORT, EADDRINUSE, EADDRNOTAVAIL, ENETDOWN,
     ENETUNREACH, ENETRESET, ECONNABORTED, ECONNRESET, ENOBUFS, EISCONN, ENOTCONN,
     ESHUTDOWN, ETOOMANYREFS, ETIMEDOUT, ECONNREFUSED, EHOSTDOWN, EHOSTUNREACH, EALREADY,
     EINPROGRESS, ESTALE, EUCLEAN, ENOTNAM, ENAVAIL, EISNAM, EREMOTEIO, EDQUOT, ECANCELED]"

text \<open>\<^verbatim>\<open>IS_ERR\<close> of \<^verbatim>\<open>misc.h\<close>, on the pointer an \<^verbatim>\<open>ERR_PTR\<close> makes of a number.\<close>

definition is_err :: "u64 \<Rightarrow> bool" where
  "is_err p \<longleftrightarrow> p > - 0xfff"

definition err_ptr :: "errno \<Rightarrow> u64" where
  "err_ptr e = word_of_int e"

lemma guest_errnos_distinct: "distinct guest_errnos"
  by (simp add: guest_errnos_def)

lemma guest_errnos_range: "\<forall>e \<in> set guest_errnos. -126 < e \<and> e < 0"
  by (simp add: guest_errnos_def)

lemma guest_errnos_is_err: "\<forall>e \<in> set guest_errnos. is_err (err_ptr e)"
  by (simp add: guest_errnos_def is_err_def err_ptr_def)

section \<open>Host errors\<close>

text \<open>
  The labels of the switch in \<^verbatim>\<open>err_map\<close>, in its order; \<open>host e\<close> is the host's number for
  the error the guest calls \<open>e\<close>. The extra label \<^verbatim>\<open>ENOTSUP\<close> is there only where the host
  gives it a number of its own.
\<close>

definition err_cases :: "errno list" where
  "err_cases =
    [EPERM, ENOENT, ESRCH, EINTR, EIO, ENXIO, E2BIG, ENOEXEC, EBADF, ECHILD, EAGAIN,
     ENOMEM, EACCES, EFAULT, ENOTBLK, EBUSY, EEXIST, EXDEV, ENODEV, ENOTDIR, EISDIR,
     EINVAL, ENFILE, EMFILE, ENOTTY, ETXTBSY, EFBIG, ENOSPC, ESPIPE, EROFS, EMLINK, EPIPE,
     EDOM, ERANGE, EDEADLK, ENAMETOOLONG, ENOLCK, ENOSYS, ENOTEMPTY, ELOOP, ENOSTR,
     ENODATA, ETIME, ENOSR, EREMOTE, ENOLINK, EPROTO, EMULTIHOP, EBADMSG, EOVERFLOW,
     EILSEQ, EUSERS, ENOTSOCK, EDESTADDRREQ, EMSGSIZE, EPROTOTYPE, ENOPROTOOPT,
     EPROTONOSUPPORT, ESOCKTNOSUPPORT, EOPNOTSUPP, EPFNOSUPPORT, EAFNOSUPPORT, EADDRINUSE,
     EADDRNOTAVAIL, ENETDOWN, ENETUNREACH, ENETRESET, ECONNABORTED, ECONNRESET, ENOBUFS,
     EISCONN, ENOTCONN, ESHUTDOWN, ETOOMANYREFS, ETIMEDOUT, ECONNREFUSED, EHOSTDOWN,
     EHOSTUNREACH, EALREADY, EINPROGRESS, ESTALE, EDQUOT]"

definition err_map :: "(errno \<Rightarrow> int) \<Rightarrow> int \<Rightarrow> int \<Rightarrow> int" where
  "err_map host host_enotsup err =
     (case find (\<lambda>e. host e = err) err_cases of
        Some e \<Rightarrow> e
      | None \<Rightarrow>
          if err = host_enotsup then EOPNOTSUPP
          else - (err OR 0x1000))"

text \<open>\<^verbatim>\<open>errno_map\<close> also raises SIGPIPE in the current task, when there is one.\<close>

definition errno_map :: "(errno \<Rightarrow> int) \<Rightarrow> int \<Rightarrow> int \<Rightarrow> bool \<Rightarrow> int \<times> bool" where
  "errno_map host host_enotsup err have_current =
     (err_map host host_enotsup err, err = host EPIPE \<and> have_current)"

lemma find_inj_on:
  assumes "inj_on f (set xs)" "x \<in> set xs"
  shows "find (\<lambda>y. f y = f x) xs = Some x"
  using assms by (induction xs) (auto simp: inj_on_def)

lemma err_map_known:
  "inj_on host (set err_cases) \<Longrightarrow> e \<in> set err_cases \<Longrightarrow> err_map host ns (host e) = e"
  by (simp add: err_map_def find_inj_on)

lemma err_map_unknown:
  "err \<notin> host ` set err_cases \<Longrightarrow> err \<noteq> ns \<Longrightarrow> err_map host ns err = - (err OR 0x1000)"
  by (auto simp: err_map_def find_None_iff find_Some_iff split: option.splits)

lemma err_cases_guest: "set err_cases \<subseteq> set guest_errnos"
  by (simp add: err_cases_def guest_errnos_def)

end
