(* ===== verification/Kernel_Log.thy ===== *)
theory Kernel_Log
  imports Ring_Fifo Kernel_Errno
begin

text \<open>
  The kernel log and \<^verbatim>\<open>syslog(2)\<close> of \<^verbatim>\<open>kernel/log.c\<close>. The fresh contents of a \<^verbatim>\<open>malloc\<close>ed
  block and the outcome of the copy to user memory are parameters; \<open>None\<close> is an access
  outside the ring buffer.
\<close>

record klog =
  log_buf :: fifo
  log_max_since_clear :: nat

definition klog_ok :: "klog \<Rightarrow> bool" where
  "klog_ok k \<longleftrightarrow> fifo_ok (log_buf k) \<and> log_max_since_clear k \<le> fcapacity (log_buf k)
     \<and> fcapacity (log_buf k) < 2 ^ 31"

text \<open>
  The C result, the bytes that reach the user's buffer, and the new state. The result of
  \<^verbatim>\<open>fifo_read\<close> is ignored by the C code: when it copies nothing, the block keeps what
  \<^verbatim>\<open>malloc\<close> returned.
\<close>

definition syslog_read ::
    "(nat \<Rightarrow> byte list) \<Rightarrow> bool \<Rightarrow> klog \<Rightarrow> int \<Rightarrow> bool \<Rightarrow> bool \<Rightarrow> (int \<times> byte list \<times> klog) option" where
  "syslog_read junk fault k len lst pk =
     (if len < 0 then Some (EINVAL, [], k)
      else
        let n = (if lst then min (nat len) (log_max_since_clear k)
                 else min (nat len) (fcapacity (log_buf k)))
        in case fifo_read (log_buf k) n pk lst of
             None \<Rightarrow> None
           | Some (data, f) \<Rightarrow>
               let buf = (case data of Some xs \<Rightarrow> xs | None \<Rightarrow> junk n);
                   k' = k\<lparr>log_buf := f\<rparr>
               in if fault then Some (EFAULT, [], k') else Some (int n, buf, k'))"

definition SYSLOG_ACTION_READ :: int where "SYSLOG_ACTION_READ = 2"
definition SYSLOG_ACTION_READ_ALL :: int where "SYSLOG_ACTION_READ_ALL = 3"
definition SYSLOG_ACTION_READ_CLEAR :: int where "SYSLOG_ACTION_READ_CLEAR = 4"
definition SYSLOG_ACTION_CLEAR :: int where "SYSLOG_ACTION_CLEAR = 5"
definition SYSLOG_ACTION_SIZE_UNREAD :: int where "SYSLOG_ACTION_SIZE_UNREAD = 9"
definition SYSLOG_ACTION_SIZE_BUFFER :: int where "SYSLOG_ACTION_SIZE_BUFFER = 10"

lemmas syslog_actions [simp] =
  SYSLOG_ACTION_READ_def SYSLOG_ACTION_READ_ALL_def SYSLOG_ACTION_READ_CLEAR_def
  SYSLOG_ACTION_CLEAR_def SYSLOG_ACTION_SIZE_UNREAD_def SYSLOG_ACTION_SIZE_BUFFER_def

definition do_syslog ::
    "(nat \<Rightarrow> byte list) \<Rightarrow> bool \<Rightarrow> klog \<Rightarrow> int \<Rightarrow> int \<Rightarrow> (int \<times> byte list \<times> klog) option" where
  "do_syslog junk fault k type len =
     (if type = SYSLOG_ACTION_READ then syslog_read junk fault k len False False
      else if type = SYSLOG_ACTION_READ_ALL then syslog_read junk fault k len True True
      else if type = SYSLOG_ACTION_READ_CLEAR then
        (case syslog_read junk fault k len True True of
           None \<Rightarrow> None
         | Some (res, out, k') \<Rightarrow>
             if res < 0 then Some (res, out, k')
             else Some (0, out, k'\<lparr>log_max_since_clear := 0\<rparr>))
      else if type = SYSLOG_ACTION_CLEAR then Some (0, [], k\<lparr>log_max_since_clear := 0\<rparr>)
      else if type = SYSLOG_ACTION_SIZE_UNREAD then Some (int (fsize (log_buf k)), [], k)
      else if type = SYSLOG_ACTION_SIZE_BUFFER then Some (int (fcapacity (log_buf k)), [], k)
      else if type \<in> {0, 1, 6, 7, 8} then Some (0, [], k)
      else Some (EINVAL, [], k))"

definition log_buf_append :: "klog \<Rightarrow> byte list \<Rightarrow> klog option" where
  "log_buf_append k msg =
     map_option
       (\<lambda>f. let m = log_max_since_clear k + length msg
            in k\<lparr>log_buf := f,
                 log_max_since_clear := (if m > fcapacity f then fcapacity f else m)\<rparr>)
       (fifo_append (log_buf k) msg)"

section \<open>Appending keeps the newest bytes\<close>

lemma log_buf_append_ok:
  assumes "klog_ok k" "length msg \<le> fcapacity (log_buf k)"
  shows "\<exists>k'. log_buf_append k msg = Some k' \<and> klog_ok k'
     \<and> fcapacity (log_buf k') = fcapacity (log_buf k)
     \<and> fifo_bytes (log_buf k') = lastn (fcapacity (log_buf k)) (fifo_bytes (log_buf k) @ msg)
     \<and> log_max_since_clear k' = min (fcapacity (log_buf k)) (log_max_since_clear k + length msg)"
proof -
  have "fifo_ok (log_buf k)" using assms(1) by (simp add: klog_ok_def)
  then obtain f where f: "fifo_append (log_buf k) msg = Some f" "fifo_ok f"
      "fcapacity f = fcapacity (log_buf k)"
      "fifo_bytes f = lastn (fcapacity (log_buf k)) (fifo_bytes (log_buf k) @ msg)"
    using fifo_window.append_law assms(2) by blast
  show ?thesis
    using f assms(1) by (simp add: klog_ok_def log_buf_append_def Let_def min_def)
qed

interpretation log_window:
  byte_window klog_ok "\<lambda>k. fifo_bytes (log_buf k)" "\<lambda>k. fcapacity (log_buf k)" log_buf_append
  by unfold_locales (use log_buf_append_ok in blast)

lemma klog_fifo: "klog_ok k \<Longrightarrow> length (fifo_bytes (log_buf k)) \<le> fcapacity (log_buf k)"
  by (simp add: klog_ok_def fifo_okD)

text \<open>
  Claim C18. However many messages are printed, the log holds exactly the last
  \<open>capacity\<close> bytes of everything printed since it was created: \<^verbatim>\<open>log_buf_append\<close> never fails
  or leaves the buffer, drops only the oldest bytes, and keeps the newest in order.
\<close>

theorem log_holds_last_bytes:
  assumes "klog_ok k" "\<forall>m \<in> set msgs. length m \<le> fcapacity (log_buf k)"
  shows "\<exists>k'. iter_opt log_buf_append k msgs = Some k' \<and> klog_ok k'
     \<and> fifo_bytes (log_buf k') = lastn (fcapacity (log_buf k)) (fifo_bytes (log_buf k) @ concat msgs)"
  using log_window.append_many[OF assms klog_fifo[OF assms(1)]] by blast

definition small_log :: klog where
  "small_log = \<lparr>log_buf = fifo_init [0, 0, 0, 0], log_max_since_clear = 0\<rparr>"

lemma small_log_ok: "klog_ok small_log" "fcapacity (log_buf small_log) = 4"
  by (simp_all add: small_log_def klog_ok_def fifo_ok_def fifo_init_def)

theorem log_holds_last_bytes_witness:
  "\<exists>k'. iter_opt log_buf_append small_log [[1, 2, 3], [4, 5]] = Some k'
     \<and> fifo_bytes (log_buf k') = [2, 3, 4, 5]"
  using log_holds_last_bytes[OF small_log_ok(1), of "[[1, 2, 3], [4, 5]]"]
  by (auto simp: small_log_ok lastn_def small_log_def fifo_init_def fifo_bytes_def)

section \<open>Reading\<close>

lemma syslog_read_oldest:
  assumes "klog_ok k" "0 \<le> len" "nat len \<le> fsize (log_buf k)"
  shows "\<exists>k'. syslog_read junk False k len False False
       = Some (len, take (nat len) (fifo_bytes (log_buf k)), k')
     \<and> klog_ok k' \<and> fifo_bytes (log_buf k') = drop (nat len) (fifo_bytes (log_buf k))"
proof -
  have fo: "fifo_ok (log_buf k)" using assms(1) by (simp add: klog_ok_def)
  have n: "min (nat len) (fcapacity (log_buf k)) = nat len" using fifo_okD(4)[OF fo] assms(3) by simp
  obtain f where "fifo_read (log_buf k) (nat len) False False
      = Some (Some (take (nat len) (fifo_bytes (log_buf k))), f)" "fifo_ok f"
      "fcapacity f = fcapacity (log_buf k)" "fifo_bytes f = drop (nat len) (fifo_bytes (log_buf k))"
    using fifo_read_front[OF fo assms(3), of False] by auto
  with assms(1,2) n show ?thesis by (auto simp: syslog_read_def Let_def klog_ok_def)
qed

text \<open>
  A destructive read of more bytes than the log holds (but no more than its
  capacity) is answered with as many bytes of uninitialised kernel heap: the failure of
  \<^verbatim>\<open>fifo_read\<close> is ignored, the whole block is copied to the guest and its length is returned.
\<close>

theorem syslog_read_leaks_heap:
  assumes "fsize (log_buf k) < nat len" "nat len \<le> fcapacity (log_buf k)"
  shows "do_syslog junk False k SYSLOG_ACTION_READ len = Some (len, junk (nat len), k)"
  using assms by (auto simp: do_syslog_def syslog_read_def Let_def fifo_read_short min_def)

theorem syslog_read_leaks_heap_witness:
  "do_syslog (\<lambda>n. replicate n 0xAA) False small_log SYSLOG_ACTION_READ 3 = Some (3, [0xAA, 0xAA, 0xAA], small_log)"
  using syslog_read_leaks_heap[of small_log 3 "\<lambda>n. replicate n 0xAA"] small_log_ok
  by (simp add: numeral_3_eq_3) (simp add: small_log_def fifo_init_def)

text \<open>
  The newest bytes (\<^verbatim>\<open>SYSLOG_ACTION_READ_ALL\<close>) are returned as they should be while the ring
  has not wrapped; once it has, reading fewer bytes than are stored can run past its end.
\<close>

lemma syslog_read_all_unwrapped:
  assumes "klog_ok k" "0 \<le> len" "log_max_since_clear k \<le> fsize (log_buf k)"
    "fstart (log_buf k) + fsize (log_buf k) \<le> fcapacity (log_buf k)"
  defines "n \<equiv> min (nat len) (log_max_since_clear k)"
  shows "do_syslog junk False k SYSLOG_ACTION_READ_ALL len
     = Some (int n, lastn n (fifo_bytes (log_buf k)), k)"
  using assms fifo_peek_last_unwrapped[of "log_buf k" n]
  by (simp add: do_syslog_def syslog_read_def klog_ok_def Let_def)

lemma syslog_read_all_wrapped:
  assumes "klog_ok k" "0 < len" "log_max_since_clear k \<le> fsize (log_buf k)"
    "nat len < log_max_since_clear k"
    "fcapacity (log_buf k) < fstart (log_buf k) + fsize (log_buf k)"
    "fstart (log_buf k) + (fsize (log_buf k) - nat len) < fcapacity (log_buf k)"
  shows "do_syslog junk fault k SYSLOG_ACTION_READ_ALL len = None"
proof -
  have "min (nat len) (log_max_since_clear k) = nat len" using assms by simp
  moreover have "fifo_read (log_buf k) (nat len) True True = None"
    using assms by (intro fifo_peek_last_wrapped_overrun) (auto simp: klog_ok_def)
  ultimately show ?thesis using assms(2) by (simp add: do_syslog_def syslog_read_def)
qed

text \<open>
  Asking the log for its newest bytes is not memory safe: after six bytes went into
  a log of four (so that the ring has wrapped), asking for the newest one copies from
  outside the ring buffer.
\<close>

theorem syslog_read_all_overrun:
  "\<exists>k. iter_opt log_buf_append small_log [[1, 2, 3, 4], [5]] = Some k
     \<and> klog_ok k \<and> fifo_bytes (log_buf k) = [2, 3, 4, 5]
     \<and> do_syslog junk fault k SYSLOG_ACTION_READ_ALL 2 = None"
  by (simp add: small_log_def log_buf_append_def fifo_append_def fifo_write_def fifo_put_def
      fifo_evict_def fifo_init_def fifo_remaining_def put_at_def size_sub_def size_add_def
      klog_ok_def fifo_ok_def fifo_bytes_def do_syslog_def syslog_read_def fifo_read_def get_at_def
      Let_def upt_rec)

end
