(* ===== verification/Posix_Locks.thy ===== *)
theory Posix_Locks
  imports Kernel_Errno
begin

text \<open>
  Advisory record locks (\<^verbatim>\<open>fs/lock.c\<close>): the list of locks an inode carries, the request that
  \<^verbatim>\<open>fcntl\<close> makes of a \<^verbatim>\<open>struct flock\<close>, and acquiring, testing and dropping locks. A file offset is the
  value of an \<^verbatim>\<open>off_t\<close>; every sum and difference of offsets is reduced to 64 signed bits by \<open>off_t\<close>,
  which is what the hosts do with it. A lock's owner is the address of a file table, an opaque number here.
\<close>

section \<open>Locks\<close>

datatype lock_type = RDLCK | WRLCK | UNLCK

record file_lock =
  lstart :: int
  lend :: int
  ltype :: lock_type
  lowner :: nat
  lpid :: int

definition OFF_T_MAX :: int where
  "OFF_T_MAX = 2 ^ 63 - 1"

definition OFF_T_MIN :: int where
  "OFF_T_MIN = - (2 ^ 63)"

text \<open>The value of an \<^verbatim>\<open>off_t\<close> after an operation whose exact result is \<open>x\<close>.\<close>

definition off_t :: "int \<Rightarrow> int" where
  "off_t x = (x + 2 ^ 63) mod 2 ^ 64 - 2 ^ 63"

lemma off_t_id [simp]: "OFF_T_MIN \<le> x \<Longrightarrow> x \<le> OFF_T_MAX \<Longrightarrow> off_t x = x"
  by (simp add: off_t_def OFF_T_MIN_def OFF_T_MAX_def)

lemma off_t_range: "OFF_T_MIN \<le> off_t x \<and> off_t x \<le> OFF_T_MAX"
  using pos_mod_bound[of "2 ^ 64" "x + 2 ^ 63"] pos_mod_sign[of "2 ^ 64" "x + 2 ^ 63"]
  by (simp add: off_t_def OFF_T_MIN_def OFF_T_MAX_def)

definition file_locks_overlap :: "file_lock \<Rightarrow> file_lock \<Rightarrow> bool" where
  "file_locks_overlap a b \<longleftrightarrow> lend a \<ge> lstart b \<and> lend b \<ge> lstart a"

definition file_locks_conflict :: "file_lock \<Rightarrow> file_lock \<Rightarrow> bool" where
  "file_locks_conflict a b \<longleftrightarrow>
     (if lowner a = lowner b then False
      else if \<not> file_locks_overlap a b then False
      else ltype a = WRLCK \<or> ltype b = WRLCK)"

definition file_locks_adjacent :: "file_lock \<Rightarrow> file_lock \<Rightarrow> bool" where
  "file_locks_adjacent a b \<longleftrightarrow> lend a = off_t (lstart b - 1) \<or> lend b = off_t (lstart a - 1)"

definition file_lock_test :: "file_lock list \<Rightarrow> file_lock \<Rightarrow> file_lock option" where
  "file_lock_test locks request = find (\<lambda>l. file_locks_conflict l request) locks"

section \<open>Acquiring\<close>

text \<open>
  The second loop of \<^verbatim>\<open>file_lock_acquire\<close>. \<open>found\<close> is \<^verbatim>\<open>found_our_locks\<close>; the request is
  extended as locks are merged into it; the new lock goes in front of the lock the loop
  stopped at, or at the end. The second result says whether \<^verbatim>\<open>posix_unlock\<close> was notified.
\<close>

definition place_lock :: "file_lock \<Rightarrow> file_lock list \<Rightarrow> file_lock list" where
  "place_lock r rest = (if ltype r \<noteq> UNLCK then r # rest else rest)"

fun acquire_walk :: "bool \<Rightarrow> file_lock list \<Rightarrow> file_lock \<Rightarrow> file_lock list \<times> bool" where
  "acquire_walk found [] r = (place_lock r [], False)"
| "acquire_walk found (l # ls) r =
     (if \<not> found \<and> lowner l \<noteq> lowner r then apfst ((#) l) (acquire_walk False ls r)
      else if found \<and> lowner l \<noteq> lowner r then (place_lock r (l # ls), False)
      else if ltype r = ltype l then
        (if \<not> file_locks_overlap l r \<and> \<not> file_locks_adjacent r l
         then apfst ((#) l) (acquire_walk True ls r)
         else acquire_walk True ls
                (r\<lparr>lstart := (if lstart l < lstart r then lstart l else lstart r),
                   lend := (if lend l > lend r then lend l else lend r)\<rparr>))
      else if \<not> file_locks_overlap l r then apfst ((#) l) (acquire_walk True ls r)
      else if lstart r > lstart l \<and> lend r < lend l then
        (l\<lparr>lend := off_t (lstart r - 1)\<rparr> # l\<lparr>lstart := off_t (lend r + 1)\<rparr> # fst (acquire_walk True ls r), True)
      else if lstart r \<le> lstart l \<and> lend r \<ge> lend l then
        (fst (acquire_walk True ls r), True)
      else if lstart l < lstart r then
        (l\<lparr>lend := off_t (lstart r - 1)\<rparr> # fst (acquire_walk True ls r), True)
      else if lend l > lend r then
        (l\<lparr>lstart := off_t (lend r + 1)\<rparr> # fst (acquire_walk True ls r), True)
      else (l # fst (acquire_walk True ls r), True))"

declare acquire_walk.simps(2) [simp del]

definition file_lock_acquire ::
    "file_lock list \<Rightarrow> file_lock \<Rightarrow> (file_lock list \<times> bool) res" where
  "file_lock_acquire locks r =
     (if ltype r \<noteq> UNLCK \<and> (\<exists>l \<in> set locks. file_locks_conflict l r) then Inl EAGAIN
      else Inr (acquire_walk False locks r))"

definition file_lock_remove_owned_by :: "file_lock list \<Rightarrow> nat \<Rightarrow> file_lock list" where
  "file_lock_remove_owned_by locks owner = filter (\<lambda>l. lowner l \<noteq> owner) locks"

section \<open>What a lock list means: who holds which byte\<close>

definition covers :: "file_lock \<Rightarrow> int \<Rightarrow> bool" where
  "covers l b \<longleftrightarrow> lstart l \<le> b \<and> b \<le> lend l"

definition holds :: "file_lock list \<Rightarrow> nat \<Rightarrow> int \<Rightarrow> lock_type \<Rightarrow> bool" where
  "holds locks owner b t \<longleftrightarrow> (\<exists>l \<in> set locks. lowner l = owner \<and> ltype l = t \<and> covers l b)"

text \<open>A range of an \<^verbatim>\<open>off_t\<close> that is not empty and does not start at the least value.\<close>

definition proper :: "file_lock \<Rightarrow> bool" where
  "proper l \<longleftrightarrow> OFF_T_MIN < lstart l \<and> lstart l \<le> lend l \<and> lend l \<le> OFF_T_MAX"

lemma proper_le: "proper l \<Longrightarrow> lstart l \<le> lend l"
  by (simp add: proper_def)

definition lock_valid :: "file_lock \<Rightarrow> bool" where
  "lock_valid l \<longleftrightarrow> proper l \<and> ltype l \<noteq> UNLCK"

text \<open>The locks of one owner: non-empty ranges that are pairwise disjoint.\<close>

definition group_ok :: "file_lock list \<Rightarrow> bool" where
  "group_ok ls \<longleftrightarrow> (\<forall>l \<in> set ls. lock_valid l)
     \<and> sorted_wrt (\<lambda>a b. \<not> (\<exists>x. covers a x \<and> covers b x)) ls"

text \<open>The locks of each owner stand together, which the loop relies on to stop early.\<close>

definition grouped :: "file_lock list \<Rightarrow> bool" where
  "grouped ls \<longleftrightarrow> (\<forall>ow. contig ow (map lowner ls))"

definition locks_ok :: "file_lock list \<Rightarrow> bool" where
  "locks_ok ls \<longleftrightarrow> grouped ls \<and> (\<forall>ow. group_ok (filter (\<lambda>l. lowner l = ow) ls))"

text \<open>No byte is write-locked by one owner and locked by another.\<close>

definition locks_compatible :: "file_lock list \<Rightarrow> bool" where
  "locks_compatible ls \<longleftrightarrow>
     (\<forall>o1 o2 b t. o1 \<noteq> o2 \<longrightarrow> holds ls o1 b WRLCK \<longrightarrow> \<not> holds ls o2 b t)"

lemma overlap_iff_byte:
  "lstart a \<le> lend a \<Longrightarrow> lstart b \<le> lend b \<Longrightarrow>
   file_locks_overlap a b \<longleftrightarrow> (\<exists>x. covers a x \<and> covers b x)"
  unfolding file_locks_overlap_def covers_def
  by (rule iffI, rule exI[of _ "max (lstart a) (lstart b)"]) auto

lemma holds_Nil [simp]: "\<not> holds [] ow b t"
  by (simp add: holds_def)

lemma holds_Cons [simp]:
  "holds (l # ls) ow b t \<longleftrightarrow> (lowner l = ow \<and> ltype l = t \<and> covers l b) \<or> holds ls ow b t"
  by (auto simp: holds_def)

lemma holds_append [simp]: "holds (xs @ ys) ow b t \<longleftrightarrow> holds xs ow b t \<or> holds ys ow b t"
  by (auto simp: holds_def)

lemma holds_filter: "holds (filter (\<lambda>l. lowner l = ow) ls) ow b t = holds ls ow b t"
  by (auto simp: holds_def)

lemma group_ok_Cons:
  "group_ok (l # ls) \<longleftrightarrow> lock_valid l \<and> group_ok ls
     \<and> (\<forall>m \<in> set ls. \<forall>x. covers l x \<longrightarrow> \<not> covers m x)"
  by (auto simp: group_ok_def)

lemma group_ok_simps [simp]: "group_ok []"
  by (simp add: group_ok_def)

section \<open>The walk over one owner's locks\<close>

text \<open>
  \<open>own ls r\<close>: every lock of \<open>ls\<close> belongs to the requester. Then the walk, whether it has
  found the group yet or not, is a walk over the requester's own locks.
\<close>

definition own :: "file_lock list \<Rightarrow> file_lock \<Rightarrow> bool" where
  "own ls r \<longleftrightarrow> (\<forall>l \<in> set ls. lowner l = lowner r)"

lemma own_Cons [simp]: "own (l # ls) r \<longleftrightarrow> lowner l = lowner r \<and> own ls r"
  by (simp add: own_def)

lemma own_update [simp]: "own ls (r\<lparr>lstart := a, lend := b\<rparr>) = own ls r"
  by (simp add: own_def)

text \<open>One step of the walk on a lock of the requester: merge it, keep it, or cut it.\<close>

definition merge_lock :: "file_lock \<Rightarrow> file_lock \<Rightarrow> file_lock" where
  "merge_lock l r =
     r\<lparr>lstart := (if lstart l < lstart r then lstart l else lstart r),
       lend := (if lend l > lend r then lend l else lend r)\<rparr>"

definition touches :: "file_lock \<Rightarrow> file_lock \<Rightarrow> bool" where
  "touches l r \<longleftrightarrow> file_locks_overlap l r \<or> lend r = lstart l - 1 \<or> lend l = lstart r - 1"

definition cut_lock :: "file_lock \<Rightarrow> file_lock \<Rightarrow> file_lock list" where
  "cut_lock l r =
     (if \<not> file_locks_overlap l r then [l]
      else if lstart r > lstart l \<and> lend r < lend l
        then [l\<lparr>lend := lstart r - 1\<rparr>, l\<lparr>lstart := lend r + 1\<rparr>]
      else if lstart r \<le> lstart l \<and> lend r \<ge> lend l then []
      else if lstart l < lstart r then [l\<lparr>lend := lstart r - 1\<rparr>]
      else [l\<lparr>lstart := lend r + 1\<rparr>])"

lemma merge_lock_simps [simp]:
  "lowner (merge_lock l r) = lowner r" "ltype (merge_lock l r) = ltype r"
  by (simp_all add: merge_lock_def)

lemma proper_merge: "proper l \<Longrightarrow> proper r \<Longrightarrow> proper (merge_lock l r)"
  by (auto simp: proper_def merge_lock_def)

text \<open>No operation on the offsets of proper locks leaves the range of \<^verbatim>\<open>off_t\<close>.\<close>

lemma no_wrap:
  assumes "proper l"
  shows "off_t (lstart l - 1) = lstart l - 1" "lend l < lend m \<Longrightarrow> proper m \<Longrightarrow> off_t (lend l + 1) = lend l + 1"
  using assms by (auto simp: proper_def intro!: off_t_id)

lemma walk_own_Cons:
  assumes "lowner l = lowner r" "proper l" "proper r"
  shows "fst (acquire_walk found (l # ls) r) =
    (if ltype r = ltype l
     then (if touches l r then fst (acquire_walk True ls (merge_lock l r))
           else l # fst (acquire_walk True ls r))
     else cut_lock l r @ fst (acquire_walk True ls r))"
proof -
  have "file_locks_overlap l r \<or> file_locks_adjacent r l \<longleftrightarrow> touches l r"
    using no_wrap(1)[OF assms(2)] no_wrap(1)[OF assms(3)] by (auto simp: touches_def file_locks_adjacent_def)
  moreover have "lend l > lend r \<Longrightarrow> off_t (lend r + 1) = lend r + 1" using no_wrap(2)[OF assms(3) _ assms(2)] by simp
  moreover have "\<not> (lstart r > lstart l \<and> lend r < lend l) \<Longrightarrow> \<not> (lstart r \<le> lstart l \<and> lend r \<ge> lend l)
      \<Longrightarrow> \<not> lstart l < lstart r \<Longrightarrow> lend l > lend r" by linarith
  ultimately show ?thesis
    using assms(1) no_wrap(1)[OF assms(3)]
    by (simp add: merge_lock_def cut_lock_def acquire_walk.simps(2) del: de_Morgan_disj) auto
qed

lemma walk_own_append:
  "own G r \<Longrightarrow> \<forall>l \<in> set G. proper l \<Longrightarrow> proper r \<Longrightarrow> lowner r \<notin> lowner ` set B
     \<Longrightarrow> fst (acquire_walk True (G @ B) r) = fst (acquire_walk True G r) @ B"
proof (induction G arbitrary: r)
  case Nil
  then show ?case by (cases B) (auto simp: place_lock_def acquire_walk.simps(2))
next
  case (Cons l G)
  then have "own G (merge_lock l r)" by (simp add: own_def)
  with Cons show ?case by (simp add: walk_own_Cons proper_merge)
qed

text \<open>Merging two ranges that overlap or touch covers exactly their union.\<close>

lemma covers_merge:
  assumes "lstart l \<le> lend l" "lstart r \<le> lend r" "touches l r"
  shows "covers (merge_lock l r) b \<longleftrightarrow> covers r b \<or> covers l b"
  using assms
  by (auto simp: covers_def touches_def merge_lock_def file_locks_overlap_def file_locks_adjacent_def)

lemma merge_nonempty: "lstart r \<le> lend r \<Longrightarrow> lstart (merge_lock l r) \<le> lend (merge_lock l r)"
  by (auto simp: merge_lock_def)

text \<open>Cutting removes exactly the request's bytes.\<close>

lemma cut_lock_mem:
  "x \<in> set (cut_lock l r) \<Longrightarrow> lowner x = lowner l \<and> ltype x = ltype l"
  by (auto simp: cut_lock_def split: if_splits)

lemma cut_lock_valid:
  "lock_valid l \<Longrightarrow> proper r \<Longrightarrow> x \<in> set (cut_lock l r) \<Longrightarrow> lock_valid x"
  by (auto simp: cut_lock_def lock_valid_def proper_def file_locks_overlap_def split: if_splits)

lemma cut_lock_bytes:
  assumes "lstart l \<le> lend l" "lstart r \<le> lend r"
  shows "(\<exists>x \<in> set (cut_lock l r). covers x b) \<longleftrightarrow> covers l b \<and> \<not> covers r b"
  using assms by (simp add: cut_lock_def covers_def file_locks_overlap_def) linarith

lemma cut_lock_group:
  assumes "lock_valid l" "proper r"
  shows "group_ok (cut_lock l r)"
proof -
  have "sorted_wrt (\<lambda>a b. \<not> (\<exists>x. covers a x \<and> covers b x)) (cut_lock l r)"
    using proper_le[OF assms(2)] by (simp add: cut_lock_def covers_def)
  with cut_lock_valid[OF assms] show ?thesis by (simp add: group_ok_def)
qed

lemma holds_cut:
  assumes "lstart l \<le> lend l" "lstart r \<le> lend r"
  shows "holds (cut_lock l r) ow b t
     \<longleftrightarrow> lowner l = ow \<and> ltype l = t \<and> covers l b \<and> \<not> covers r b"
proof -
  have "holds (cut_lock l r) ow b t
      \<longleftrightarrow> (\<exists>x \<in> set (cut_lock l r). (lowner l = ow \<and> ltype l = t) \<and> covers x b)"
    unfolding holds_def by (rule bex_cong[OF refl]) (auto dest: cut_lock_mem)
  then show ?thesis using cut_lock_bytes[OF assms, of b] by simp
qed

lemma walk_owner:
  "own ls r \<Longrightarrow> group_ok ls \<Longrightarrow> proper r \<Longrightarrow> x \<in> set (fst (acquire_walk True ls r)) \<Longrightarrow> lowner x = lowner r"
proof (induction ls arbitrary: r)
  case Nil
  then show ?case by (auto simp: place_lock_def split: if_splits)
next
  case (Cons l ls)
  then have o: "lowner l = lowner r" "own ls r" "own ls (merge_lock l r)" and g: "proper l" "group_ok ls"
    by (simp_all add: own_def group_ok_Cons lock_valid_def)
  have "x = l \<or> x \<in> set (cut_lock l r) \<or> x \<in> set (fst (acquire_walk True ls r))
      \<or> x \<in> set (fst (acquire_walk True ls (merge_lock l r)))"
    using Cons.prems(4) unfolding walk_own_Cons[OF o(1) g(1) Cons.prems(3)] by (auto split: if_splits)
  then show ?case
    using Cons.IH[OF o(2) g(2) Cons.prems(3)] Cons.IH[OF o(3) g(2) proper_merge[OF g(1) Cons.prems(3)]] cut_lock_mem[of x l r] o(1)
    by auto
qed

text \<open>
  The byte-level effect on the owner's locks: the request's bytes get the request's type (or
  none, for an unlock) and every other byte keeps the type it had.
\<close>

lemma walk_holds:
  assumes "own ls r" "group_ok ls" "proper r"
  shows "holds (fst (acquire_walk True ls r)) (lowner r) b t \<longleftrightarrow>
     (if covers r b then t = ltype r \<and> ltype r \<noteq> UNLCK else holds ls (lowner r) b t)"
  using assms
proof (induction ls arbitrary: r)
  case Nil
  then show ?case by (auto simp: place_lock_def)
next
  case (Cons l ls)
  have l: "lowner l = lowner r" "lstart l \<le> lend l" "ltype l \<noteq> UNLCK" and pl: "proper l" and g: "group_ok ls"
    and o: "own ls r" "own ls (merge_lock l r)"
    and dj: "\<And>t. covers l b \<Longrightarrow> \<not> holds ls (lowner r) b t"
    using Cons.prems by (auto simp: group_ok_Cons lock_valid_def own_def holds_def dest: proper_le)
  note IH1 = Cons.IH[OF o(1) g Cons.prems(3)]
  note IH2 = Cons.IH[OF o(2) g proper_merge[OF pl Cons.prems(3)]]
  note r = proper_le[OF Cons.prems(3)]
  note walk = walk_own_Cons[OF l(1) pl Cons.prems(3)]
  consider "ltype r = ltype l" "touches l r" | "ltype r = ltype l" "\<not> touches l r"
    | "ltype r \<noteq> ltype l" by blast
  then show ?case
  proof cases
    case 1
    then show ?thesis
      using IH2 dj l covers_merge[OF l(2) r 1(2), of b]
      by (auto simp: walk)
  next
    case 2
    then have "\<not> (covers l b \<and> covers r b)"
      using overlap_iff_byte[OF l(2) r] by (auto simp: touches_def)
    with 2 show ?thesis using IH1 l by (auto simp: walk)
  next
    case 3
    then show ?thesis
      using IH1 l holds_cut[OF l(2) r, of "lowner r" b t]
      by (auto simp: walk)
  qed
qed

lemma group_holds_byte:
  "own ls r \<Longrightarrow> m \<in> set ls \<Longrightarrow> covers m b \<Longrightarrow> holds ls (lowner r) b (ltype m)"
  by (auto simp: own_def holds_def)

lemma group_ok_append:
  "group_ok xs \<Longrightarrow> group_ok ys
     \<Longrightarrow> (\<And>x y b. x \<in> set xs \<Longrightarrow> y \<in> set ys \<Longrightarrow> covers x b \<Longrightarrow> \<not> covers y b) \<Longrightarrow> group_ok (xs @ ys)"
  by (auto simp: group_ok_def sorted_wrt_append)

lemma walk_group_ok:
  assumes "own ls r" "group_ok ls" "proper r"
  shows "group_ok (fst (acquire_walk True ls r))"
  using assms
proof (induction ls arbitrary: r)
  case Nil
  then show ?case by (auto simp: place_lock_def group_ok_Cons lock_valid_def)
next
  case (Cons l ls)
  have l: "lowner l = lowner r" "lstart l \<le> lend l" "lock_valid l" and pl: "proper l" and g: "group_ok ls"
    and o: "own ls r" "own ls (merge_lock l r)"
    and dj: "\<And>b t. covers l b \<Longrightarrow> \<not> holds ls (lowner r) b t"
    using Cons.prems by (auto simp: group_ok_Cons lock_valid_def own_def holds_def dest: proper_le)
  note r = proper_le[OF Cons.prems(3)]
  note walk = walk_own_Cons[OF l(1) pl Cons.prems(3)]
  let ?W = "fst (acquire_walk True ls r)"
  have IH1: "group_ok ?W" by (rule Cons.IH[OF o(1) g Cons.prems(3)])
  have IH2: "group_ok (fst (acquire_walk True ls (merge_lock l r)))"
    by (rule Cons.IH[OF o(2) g proper_merge[OF pl Cons.prems(3)]])
  have apart: "\<not> covers y b" if "y \<in> set ?W" "covers l b" "\<not> covers r b" for y b
  proof
    assume "covers y b"
    then have "holds ?W (lowner r) b (ltype y)"
      using that(1) walk_owner[OF o(1) g Cons.prems(3)] by (auto simp: holds_def)
    with that dj[OF that(2)] show False
      using walk_holds[OF o(1) g Cons.prems(3), of b "ltype y"] by simp
  qed
  show ?case
  proof (cases "ltype r = ltype l")
    case True
    show ?thesis
    proof (cases "touches l r")
      case False
      then have "\<not> covers r b" if "covers l b" for b
        using that overlap_iff_byte[OF l(2) r] by (auto simp: touches_def)
      then have "\<forall>m \<in> set ?W. \<forall>x. covers l x \<longrightarrow> \<not> covers m x" using apart by blast
      with True False l IH1 show ?thesis
        by (simp add: walk group_ok_Cons)
    qed (use True l IH2 in \<open>simp add: walk\<close>)
  next
    case False
    have "group_ok (cut_lock l r @ ?W)"
    proof (rule group_ok_append[OF cut_lock_group[OF l(3) Cons.prems(3)] IH1])
      fix x y b assume "x \<in> set (cut_lock l r)" "y \<in> set ?W" "covers x b"
      then show "\<not> covers y b"
        using cut_lock_bytes[OF l(2) r, of b] apart by blast
    qed
    with False l show ?thesis by (simp add: walk)
  qed
qed

section \<open>The walk over the whole list\<close>

lemma walk_skip:
  "lowner r \<notin> lowner ` set A \<Longrightarrow>
   fst (acquire_walk False (A @ D) r) = A @ fst (acquire_walk False D r)"
proof (induction A)
  case (Cons l A)
  then have "lowner l \<noteq> lowner r" by auto
  then have "acquire_walk False ((l # A) @ D) r = apfst ((#) l) (acquire_walk False (A @ D) r)"
    by (simp add: acquire_walk.simps(2))
  with Cons show ?case by simp
qed simp

lemma walk_found_irrelevant:
  "D = [] \<or> lowner (hd D) = lowner r \<Longrightarrow> fst (acquire_walk False D r) = fst (acquire_walk True D r)"
  by (cases D) (simp_all add: acquire_walk.simps(2))

lemma acquire_split:
  assumes "locks_ok ls" "proper r"
  obtains A G B where "ls = A @ G @ B" "lowner r \<notin> lowner ` set A" "own G r"
    "lowner r \<notin> lowner ` set B" "G = [] \<longrightarrow> B = []"
    "fst (acquire_walk False ls r) = A @ fst (acquire_walk True G r) @ B"
proof -
  have "contig (lowner r) (map lowner ls)" using assms(1) by (simp add: locks_ok_def grouped_def)
  then obtain A G B where s: "ls = A @ G @ B" "lowner r \<notin> lowner ` set A"
      "\<forall>g \<in> set G. lowner g = lowner r" "lowner r \<notin> lowner ` set B" "G = [] \<longrightarrow> B = []"
    by (rule contig_split)
  have own: "own G r" using s(3) by (simp add: own_def)
  have pr: "\<forall>l \<in> set G. proper l" using assms(1) s(1) by (auto simp: locks_ok_def group_ok_def lock_valid_def)
  have "fst (acquire_walk False ls r) = A @ fst (acquire_walk False (G @ B) r)"
    using walk_skip[OF s(2)] s(1) by simp
  also have "fst (acquire_walk False (G @ B) r) = fst (acquire_walk True (G @ B) r)"
  proof (rule walk_found_irrelevant)
    show "G @ B = [] \<or> lowner (hd (G @ B)) = lowner r" using s(3,5) by (cases G) simp_all
  qed
  also have "\<dots> = fst (acquire_walk True G r) @ B" by (rule walk_own_append[OF own pr assms(2) s(4)])
  finally show thesis using that s own by blast
qed

lemma holds_other: "ow \<notin> lowner ` set ls \<Longrightarrow> \<not> holds ls ow b t"
  by (auto simp: holds_def)

lemma filter_own: "\<forall>l \<in> set ls. lowner l = ow \<Longrightarrow> filter (\<lambda>l. lowner l = ow) ls = ls"
  by (simp add: filter_id_conv)

lemma filter_other: "ow \<notin> lowner ` set ls \<Longrightarrow> filter (\<lambda>l. lowner l = ow) ls = []"
  by (auto simp: filter_empty_conv)

lemma acquire_holds:
  assumes ok: "locks_ok ls" and r: "proper r"
  shows "holds (fst (acquire_walk False ls r)) ow b t \<longleftrightarrow>
     (if ow = lowner r \<and> covers r b then t = ltype r \<and> ltype r \<noteq> UNLCK else holds ls ow b t)"
proof -
  obtain A G B where s: "ls = A @ G @ B" "lowner r \<notin> lowner ` set A" "own G r"
      "lowner r \<notin> lowner ` set B"
      "fst (acquire_walk False ls r) = A @ fst (acquire_walk True G r) @ B"
    by (rule acquire_split[OF ok r])
  have "filter (\<lambda>l. lowner l = lowner r) ls = G"
    using s(1-4) by (simp add: filter_other filter_own own_def)
  then have g: "group_ok G" using ok by (auto simp: locks_ok_def)
  show ?thesis
  proof (cases "ow = lowner r")
    case True
    then show ?thesis
      using walk_holds[OF s(3) g r, of b t] s by (simp add: holds_other)
  next
    case False
    then have "\<not> holds (fst (acquire_walk True G r)) ow b t" "\<not> holds G ow b t"
      using walk_owner[OF s(3) g r] s(3) by (auto simp: holds_def own_def)
    with False show ?thesis using s by simp
  qed
qed

lemma acquire_locks_ok:
  assumes ok: "locks_ok ls" and r: "proper r"
  shows "locks_ok (fst (acquire_walk False ls r))"
proof -
  obtain A G B where s: "ls = A @ G @ B" "lowner r \<notin> lowner ` set A" "own G r"
      "lowner r \<notin> lowner ` set B" "G = [] \<longrightarrow> B = []"
      and w: "fst (acquire_walk False ls r) = A @ fst (acquire_walk True G r) @ B"
    by (rule acquire_split[OF ok r])
  define G' where "G' = fst (acquire_walk True G r)"
  have "filter (\<lambda>l. lowner l = lowner r) ls = G"
    using s by (simp add: filter_other filter_own own_def)
  then have g: "group_ok G" using ok by (auto simp: locks_ok_def)
  then have gok: "group_ok G'" using walk_group_ok[OF s(3) _ r] by (simp add: G'_def)
  have og: "\<forall>l \<in> set G'. lowner l = lowner r" using walk_owner[OF s(3) g r] by (simp add: G'_def)
  have "contig ow (map lowner (A @ G' @ B))" for ow
  proof (cases "ow = lowner r")
    case True
    then show ?thesis using s(2,4) og by (simp add: contig_append_left contig_run)
  next
    case False
    then have "ow \<notin> set (map lowner G)" "ow \<notin> set (map lowner G')"
      using og s(3) by (auto simp: own_def)
    then show ?thesis
      using contig_replace[of ow "map lowner A" "map lowner G" "map lowner B" "map lowner G'"] ok s(1,5)
      by (simp add: locks_ok_def grouped_def)
  qed
  moreover have "group_ok (filter (\<lambda>l. lowner l = ow) (A @ G' @ B))" for ow
  proof (cases "ow = lowner r")
    case True
    then show ?thesis using s(2,4) og gok by (simp add: filter_other filter_own)
  next
    case False
    then have "filter (\<lambda>l. lowner l = ow) (A @ G' @ B) = filter (\<lambda>l. lowner l = ow) ls"
      using og s(1,3) by (auto simp: own_def filter_empty_conv)
    then show ?thesis using ok by (simp add: locks_ok_def)
  qed
  ultimately show ?thesis by (simp add: w locks_ok_def grouped_def G'_def)
qed

section \<open>Conflicts at byte level\<close>

lemma locks_ok_valid: "locks_ok ls \<Longrightarrow> l \<in> set ls \<Longrightarrow> lock_valid l"
  by (auto simp: locks_ok_def group_ok_def)

definition wants_conflict :: "file_lock list \<Rightarrow> file_lock \<Rightarrow> bool" where
  "wants_conflict ls r \<longleftrightarrow> (\<exists>ow b t. ow \<noteq> lowner r \<and> covers r b \<and> holds ls ow b t
      \<and> (t = WRLCK \<or> ltype r = WRLCK))"

lemma wants_conflictI:
  "ow \<noteq> lowner r \<Longrightarrow> covers r b \<Longrightarrow> holds ls ow b t \<Longrightarrow> t = WRLCK \<or> ltype r = WRLCK
     \<Longrightarrow> wants_conflict ls r"
  unfolding wants_conflict_def by blast

lemma conflict_iff_bytes:
  assumes ok: "locks_ok ls" and r: "proper r"
  shows "(\<exists>l \<in> set ls. file_locks_conflict l r) \<longleftrightarrow> wants_conflict ls r"
proof
  assume "\<exists>l \<in> set ls. file_locks_conflict l r"
  then obtain l where l: "l \<in> set ls" "file_locks_conflict l r" by blast
  have "lstart l \<le> lend l" using locks_ok_valid[OF ok l(1)] by (simp add: lock_valid_def proper_le)
  moreover have "file_locks_overlap l r" "lowner l \<noteq> lowner r" "ltype l = WRLCK \<or> ltype r = WRLCK"
    using l(2) by (auto simp: file_locks_conflict_def split: if_splits)
  ultimately show "wants_conflict ls r"
    using l(1) proper_le[OF r] overlap_iff_byte[of l r] unfolding wants_conflict_def holds_def by blast
next
  assume "wants_conflict ls r"
  then obtain l b where "l \<in> set ls" "lowner l \<noteq> lowner r" "covers r b" "covers l b"
      "ltype l = WRLCK \<or> ltype r = WRLCK"
    unfolding wants_conflict_def holds_def by blast
  then show "\<exists>l \<in> set ls. file_locks_conflict l r"
    by (intro bexI[of _ l]) (auto simp: file_locks_conflict_def file_locks_overlap_def covers_def)
qed

lemma acquire_compatible:
  assumes ok: "locks_ok ls" and r: "proper r" and c: "locks_compatible ls"
    and nc: "ltype r = UNLCK \<or> \<not> wants_conflict ls r"
  shows "locks_compatible (fst (acquire_walk False ls r))"
  unfolding locks_compatible_def
proof (intro allI impI)
  fix o1 o2 b t
  assume ne: "(o1::nat) \<noteq> o2" and h1: "holds (fst (acquire_walk False ls r)) o1 b WRLCK"
  show "\<not> holds (fst (acquire_walk False ls r)) o2 b t"
  proof
    assume h2: "holds (fst (acquire_walk False ls r)) o2 b t"
    note H = h1[unfolded acquire_holds[OF ok r]] h2[unfolded acquire_holds[OF ok r]]
    consider "o1 = lowner r" "covers r b" | "o2 = lowner r" "covers r b"
      | "\<not> (o1 = lowner r \<and> covers r b)" "\<not> (o2 = lowner r \<and> covers r b)" by blast
    then show False
    proof cases
      case 1
      then have "ltype r = WRLCK" "holds ls o2 b t" "ltype r \<noteq> UNLCK" using H ne by simp_all
      then have "wants_conflict ls r" using 1 ne by (intro wants_conflictI[of o2 r b ls t]) auto
      with nc \<open>ltype r \<noteq> UNLCK\<close> show False by blast
    next
      case 2
      then have "holds ls o1 b WRLCK" "ltype r \<noteq> UNLCK" using H ne by simp_all
      then have "wants_conflict ls r" using 2 ne by (intro wants_conflictI[of o1 r b ls WRLCK]) auto
      with nc \<open>ltype r \<noteq> UNLCK\<close> show False by blast
    next
      case 3
      with H ne c show False unfolding locks_compatible_def by (metis (full_types))
    qed
  qed
qed

section \<open>The contract of a lock table\<close>

text \<open>
  What \<^verbatim>\<open>fcntl\<close> relies on: a request of some owner is refused without effect exactly when it
  conflicts; otherwise it takes effect on its own bytes only.
\<close>

locale lock_table =
  fixes ok :: "'s \<Rightarrow> bool"
    and held :: "'s \<Rightarrow> nat \<Rightarrow> int \<Rightarrow> lock_type \<Rightarrow> bool"
    and valid_req :: "'r \<Rightarrow> bool"
    and request :: "'s \<Rightarrow> 'r \<Rightarrow> 's option"
  assumes request_ok: "ok s \<Longrightarrow> valid_req r \<Longrightarrow> request s r = Some s' \<Longrightarrow> ok s'"
    and exclusive: "ok s \<Longrightarrow> o1 \<noteq> o2 \<Longrightarrow> held s o1 b WRLCK \<Longrightarrow> \<not> held s o2 b t"
begin

lemma run_ok:
  "ok s \<Longrightarrow> \<forall>r \<in> set rs. valid_req r \<Longrightarrow> iter_opt request s rs = Some s' \<Longrightarrow> ok s'"
  by (induction rs arbitrary: s) (auto split: option.splits intro: request_ok)

lemma run_exclusive:
  assumes "ok s" "\<forall>r \<in> set rs. valid_req r" "iter_opt request s rs = Some s'" "o1 \<noteq> o2"
    "held s' o1 b WRLCK"
  shows "\<not> held s' o2 b t"
  using exclusive[OF run_ok[OF assms(1-3)] assms(4,5)] .

end

definition inode_locks_ok :: "file_lock list \<Rightarrow> bool" where
  "inode_locks_ok ls \<longleftrightarrow> locks_ok ls \<and> locks_compatible ls"

text \<open>A non-blocking request of \<^verbatim>\<open>fcntl_setlk\<close>: refused requests leave the list as it is.\<close>

definition setlk_step :: "file_lock list \<Rightarrow> file_lock \<Rightarrow> file_lock list" where
  "setlk_step ls r = (case file_lock_acquire ls r of Inl _ \<Rightarrow> ls | Inr (ls', _) \<Rightarrow> ls')"

lemma setlk_step_ok:
  assumes "inode_locks_ok ls" "proper r"
  shows "inode_locks_ok (setlk_step ls r)"
proof -
  have ok: "locks_ok ls" "locks_compatible ls" using assms(1) by (simp_all add: inode_locks_ok_def)
  show ?thesis
  proof (cases "ltype r \<noteq> UNLCK \<and> wants_conflict ls r")
    case True
    then show ?thesis
      using conflict_iff_bytes[OF ok(1) assms(2)] assms(1)
      by (simp add: setlk_step_def file_lock_acquire_def)
  next
    case False
    then show ?thesis
      using conflict_iff_bytes[OF ok(1) assms(2)] acquire_compatible[OF ok(1) assms(2) ok(2)]
        acquire_locks_ok[OF ok(1) assms(2)]
      by (auto simp: setlk_step_def file_lock_acquire_def inode_locks_ok_def split: prod.splits)
  qed
qed

lemma remove_owned_holds:
  "holds (file_lock_remove_owned_by ls w) ow b t \<longleftrightarrow> ow \<noteq> w \<and> holds ls ow b t"
  by (auto simp: holds_def file_lock_remove_owned_by_def)

lemma contig_filter: "contig x xs \<Longrightarrow> contig x (filter (\<lambda>y. y \<noteq> w) xs)"
proof (cases "x = w")
  case False
  assume c: "contig x xs"
  then have "contig x (map (\<lambda>y. y) xs)" by simp
  then obtain A G B where d: "xs = A @ G @ B" "x \<notin> (\<lambda>y. y) ` set A" "\<forall>g \<in> set G. g = x"
      "x \<notin> (\<lambda>y. y) ` set B"
    by (rule contig_split)
  have "x \<notin> set (filter (\<lambda>y. y \<noteq> w) A)" using d(2) by simp
  moreover have "contig x (filter (\<lambda>y. y \<noteq> w) G @ filter (\<lambda>y. y \<noteq> w) B)"
    using d(3,4) by (intro contig_run) auto
  ultimately show ?thesis by (simp add: d(1) contig_append_left)
qed (simp add: contig_absent)

lemma remove_owned_ok: "inode_locks_ok ls \<Longrightarrow> inode_locks_ok (file_lock_remove_owned_by ls w)"
proof -
  assume ok: "inode_locks_ok ls"
  have "contig ow (map lowner (file_lock_remove_owned_by ls w))" for ow
    using ok contig_filter[of ow "map lowner ls" w]
    by (simp add: inode_locks_ok_def locks_ok_def grouped_def file_lock_remove_owned_by_def
        filter_map o_def)
  moreover have "group_ok (filter (\<lambda>l. lowner l = ow) (file_lock_remove_owned_by ls w))" for ow
  proof (cases "ow = w")
    case True
    then show ?thesis by (simp add: file_lock_remove_owned_by_def filter_empty_conv)
  next
    case False
    then have "filter (\<lambda>l. lowner l = ow) (file_lock_remove_owned_by ls w)
        = filter (\<lambda>l. lowner l = ow) ls"
      unfolding file_lock_remove_owned_by_def filter_filter by (intro filter_cong) auto
    then show ?thesis using ok by (simp add: inode_locks_ok_def locks_ok_def)
  qed
  ultimately show ?thesis
    using ok by (simp add: inode_locks_ok_def locks_ok_def grouped_def locks_compatible_def
        remove_owned_holds)
qed

text \<open>
  The operations on an inode's locks: a request, or the closing of a descriptor, which drops
  everything its table holds on the inode.
\<close>

datatype lock_op = SetLock file_lock | DropOwner nat

fun lock_op_valid :: "lock_op \<Rightarrow> bool" where
  "lock_op_valid (SetLock r) = proper r"
| "lock_op_valid (DropOwner _) = True"

fun run_lock_op :: "file_lock list \<Rightarrow> lock_op \<Rightarrow> file_lock list option" where
  "run_lock_op ls (SetLock r) = Some (setlk_step ls r)"
| "run_lock_op ls (DropOwner w) = Some (file_lock_remove_owned_by ls w)"

interpretation inode_locks: lock_table inode_locks_ok holds lock_op_valid run_lock_op
proof unfold_locales
  fix s r s' assume "inode_locks_ok s" "lock_op_valid r" "run_lock_op s r = Some s'"
  then show "inode_locks_ok s'" by (cases r) (auto intro: setlk_step_ok remove_owned_ok)
next
  fix s o1 o2 b t assume "inode_locks_ok s" "o1 \<noteq> o2" "holds s o1 b WRLCK"
  then show "\<not> holds s o2 b t" by (auto simp: inode_locks_ok_def locks_compatible_def)
qed

section \<open>The system calls' view: struct flock\<close>

record flock =
  fl_type :: int
  fl_whence :: int
  fl_start :: int
  fl_len :: int
  fl_pid :: int

definition F_RDLCK :: int where "F_RDLCK = 0"
definition F_WRLCK :: int where "F_WRLCK = 1"
definition F_UNLCK :: int where "F_UNLCK = 2"

lemmas flock_types [simp] = F_RDLCK_def F_WRLCK_def F_UNLCK_def

definition lock_type_of :: "int \<Rightarrow> lock_type" where
  "lock_type_of n = (if n = F_RDLCK then RDLCK else if n = F_WRLCK then WRLCK else UNLCK)"

fun lock_type_num :: "lock_type \<Rightarrow> int" where
  "lock_type_num RDLCK = F_RDLCK"
| "lock_type_num WRLCK = F_WRLCK"
| "lock_type_num UNLCK = F_UNLCK"

text \<open>
  The descriptor as \<^verbatim>\<open>file_lock_from_flock\<close> uses it: the answer of its \<^verbatim>\<open>lseek(fd, 0, CUR)\<close>
  (\<open>None\<close> when it has no such operation), of its \<^verbatim>\<open>fstat\<close>, its open mode, and the caller's
  file table and pid.
\<close>

record lock_fd =
  lf_lseek :: "(errno + int) option"
  lf_fstat_size :: "errno + int"
  lf_accmode :: int
  lf_owner :: nat
  lf_pid :: int

definition flock_offset :: "lock_fd \<Rightarrow> int \<Rightarrow> int res" where
  "flock_offset fd whence =
     (if whence = 0 then Inr 0
      else if whence = 1 then (case lf_lseek fd of None \<Rightarrow> Inr 0 | Some res \<Rightarrow> res)
      else if whence = 2 then lf_fstat_size fd
      else Inl EINVAL)"

definition file_lock_from_flock :: "lock_fd \<Rightarrow> flock \<Rightarrow> file_lock res" where
  "file_lock_from_flock fd fl =
     (case flock_offset fd (fl_whence fl) of
        Inl e \<Rightarrow> Inl e
      | Inr off \<Rightarrow>
          let start = off_t (fl_start fl + off);
              (s, e) = (if fl_len fl > 0 then (start, off_t (start + fl_len fl - 1))
                        else if fl_len fl < 0 then (off_t (off_t (start - 1) + fl_len fl + 1), off_t (start - 1))
                        else (start, OFF_T_MAX))
          in Inr \<lparr>lstart = s, lend = e, ltype = lock_type_of (fl_type fl),
                  lowner = lf_owner fd, lpid = lf_pid fd\<rparr>)"

definition flock_from_file_lock :: "file_lock \<Rightarrow> flock \<Rightarrow> flock" where
  "flock_from_file_lock l fl =
     fl\<lparr>fl_type := lock_type_num (ltype l), fl_whence := 0, fl_start := lstart l,
        fl_len := (if lend l \<noteq> OFF_T_MAX then off_t (lend l - lstart l + 1) else 0),
        fl_pid := lpid l\<rparr>"

definition fcntl_getlk :: "lock_fd \<Rightarrow> file_lock list \<Rightarrow> flock \<Rightarrow> errno + flock" where
  "fcntl_getlk fd locks fl =
     (if fl_type fl \<noteq> F_RDLCK \<and> fl_type fl \<noteq> F_WRLCK then Inl EINVAL
      else case file_lock_from_flock fd fl of
          Inl e \<Rightarrow> Inl e
        | Inr request \<Rightarrow>
            (case file_lock_test locks request of
               Some l \<Rightarrow> Inr (flock_from_file_lock l fl)
             | None \<Rightarrow> Inr (fl\<lparr>fl_type := F_UNLCK\<rparr>)))"

text \<open>
  The retry loop of \<^verbatim>\<open>fcntl_setlk\<close>. Each entry of \<open>wakes\<close> is what one \<^verbatim>\<open>wait_for\<close> returns: an
  error, or the inode's locks as they are when it is woken. \<open>None\<close>: still waiting.
\<close>

fun setlk_loop ::
    "bool \<Rightarrow> file_lock \<Rightarrow> file_lock list \<Rightarrow> (errno + file_lock list) list \<Rightarrow> (int \<times> file_lock list) option" where
  "setlk_loop blocking r locks wakes =
     (case file_lock_acquire locks r of
        Inr (locks', _) \<Rightarrow> Some (0, locks')
      | Inl e \<Rightarrow>
          if \<not> blocking then Some (e, locks)
          else (case wakes of
                  [] \<Rightarrow> None
                | Inl err # _ \<Rightarrow> Some (err, locks)
                | Inr locks' # wakes' \<Rightarrow> setlk_loop blocking r locks' wakes'))"

declare setlk_loop.simps [simp del]

definition O_RDONLY :: int where "O_RDONLY = 0"
definition O_WRONLY :: int where "O_WRONLY = 1"

definition fcntl_setlk ::
    "lock_fd \<Rightarrow> file_lock list \<Rightarrow> flock \<Rightarrow> bool \<Rightarrow> (errno + file_lock list) list \<Rightarrow> (int \<times> file_lock list) option" where
  "fcntl_setlk fd locks fl blocking wakes =
     (if fl_type fl \<noteq> F_RDLCK \<and> fl_type fl \<noteq> F_WRLCK \<and> fl_type fl \<noteq> F_UNLCK then Some (EINVAL, locks)
      else if fl_type fl = F_RDLCK \<and> lf_accmode fd = O_WRONLY then Some (EBADF, locks)
      else if fl_type fl = F_WRLCK \<and> lf_accmode fd = O_RDONLY then Some (EBADF, locks)
      else case file_lock_from_flock fd fl of
          Inl e \<Rightarrow> Some (e, locks)
        | Inr request \<Rightarrow> setlk_loop blocking request locks wakes)"

section \<open>Properties\<close>

lemma from_flock_proper:
  assumes "file_lock_from_flock fd fl = Inr r" "flock_offset fd (fl_whence fl) = Inr off"
    "OFF_T_MIN < fl_start fl + off + min 0 (fl_len fl)" "fl_start fl + off + max 0 (fl_len fl - 1) \<le> OFF_T_MAX"
  shows "proper r" "lowner r = lf_owner fd" "ltype r = lock_type_of (fl_type fl)"
proof -
  let ?s = "fl_start fl + off"
  have s: "off_t ?s = ?s" using assms(3,4) by (intro off_t_id) auto
  have "0 < fl_len fl \<Longrightarrow> off_t (?s + fl_len fl - 1) = ?s + fl_len fl - 1"
    "fl_len fl < 0 \<Longrightarrow> off_t (?s - 1) = ?s - 1" "fl_len fl < 0 \<Longrightarrow> off_t (?s - 1 + fl_len fl + 1) = ?s + fl_len fl"
    using assms(3,4) by (auto intro!: off_t_id)
  then show "proper r" "lowner r = lf_owner fd" "ltype r = lock_type_of (fl_type fl)"
    using assms s by (auto simp: file_lock_from_flock_def Let_def proper_def split: if_splits)
qed

text \<open>
  Claim C5. A successful request changes exactly what it says: the bytes of its range now
  have its type for its owner (or none, for an unlock), and every other byte of every owner
  keeps the lock it had, however the code merged, split, shortened or removed list entries. The request's
  range is not empty, stays within \<^verbatim>\<open>off_t\<close> and does not start at its least value, and so do the ranges
  in the list; \<open>lowest_offset_breaks_exclusion\<close> shows what a request from the least value does.
\<close>

theorem acquire_refines_byte_map:
  assumes "locks_ok ls" "proper r" "file_lock_acquire ls r = Inr (ls', notified)"
  shows "holds ls' ow b t \<longleftrightarrow>
     (if ow = lowner r \<and> covers r b then t = ltype r \<and> ltype r \<noteq> UNLCK else holds ls ow b t)"
proof -
  have "ls' = fst (acquire_walk False ls r)"
    using assms(3) by (auto simp: file_lock_acquire_def split: if_splits)
  then show ?thesis using acquire_holds[OF assms(1,2)] by simp
qed

definition lk :: "int \<Rightarrow> int \<Rightarrow> lock_type \<Rightarrow> nat \<Rightarrow> file_lock" where
  "lk s e t ow = \<lparr>lstart = s, lend = e, ltype = t, lowner = ow, lpid = 0\<rparr>"

lemma single_lock_ok: "OFF_T_MIN < s \<Longrightarrow> e \<le> OFF_T_MAX \<Longrightarrow> s \<le> e \<Longrightarrow> t \<noteq> UNLCK \<Longrightarrow> inode_locks_ok [lk s e t ow]"
  by (auto simp: inode_locks_ok_def locks_ok_def grouped_def contig_def group_ok_def lock_valid_def
      lk_def locks_compatible_def proper_def)

lemmas off_range = OFF_T_MIN_def OFF_T_MAX_def

theorem acquire_refines_byte_map_witness:
  "file_lock_acquire [lk 0 9 WRLCK 1] (lk 3 5 UNLCK 1) = Inr ([lk 0 2 WRLCK 1, lk 6 9 WRLCK 1], True)
   \<and> \<not> holds [lk 0 2 WRLCK 1, lk 6 9 WRLCK 1] 1 4 WRLCK"
proof -
  have a: "file_lock_acquire [lk 0 9 WRLCK 1] (lk 3 5 UNLCK 1)
      = Inr ([lk 0 2 WRLCK 1, lk 6 9 WRLCK 1], True)"
    by (simp add: file_lock_acquire_def acquire_walk.simps lk_def place_lock_def
        file_locks_overlap_def off_range)
  have "locks_ok [lk 0 9 WRLCK 1]" using single_lock_ok[of 0 9 WRLCK 1] by (simp add: inode_locks_ok_def off_range)
  from acquire_refines_byte_map[OF this _ a, of 1 4 WRLCK] show ?thesis
    using a by (simp add: lk_def covers_def proper_def off_range)
qed

text \<open>
  Claim C9. Mutual exclusion of record locks: after any sequence of requests and closes by any
  number of processes, no byte is write-locked by one owner while another owner holds a lock
  of either type on it. The ranges requested are not empty, stay within \<^verbatim>\<open>off_t\<close> and do not start at its
  least value (\<open>lock_op_valid\<close>); \<open>lowest_offset_breaks_exclusion\<close> shows that the last condition is needed.
\<close>

theorem record_locks_exclusive:
  assumes "\<forall>oper \<in> set ops. lock_op_valid oper" "iter_opt run_lock_op [] ops = Some ls"
    "o1 \<noteq> o2" "holds ls o1 b WRLCK"
  shows "\<not> holds ls o2 b t"
proof -
  have "inode_locks_ok []"
    by (simp add: inode_locks_ok_def locks_ok_def grouped_def locks_compatible_def)
  then show ?thesis by (rule inode_locks.run_exclusive[OF _ assms])
qed

theorem record_locks_exclusive_witness:
  "\<exists>ls. iter_opt run_lock_op [] [SetLock (lk 0 9 WRLCK 1), SetLock (lk 5 6 RDLCK 2)] = Some ls
     \<and> holds ls 1 5 WRLCK \<and> \<not> holds ls 2 5 RDLCK"
proof -
  have r: "iter_opt run_lock_op [] [SetLock (lk 0 9 WRLCK 1), SetLock (lk 5 6 RDLCK 2)]
      = Some [lk 0 9 WRLCK 1]"
    by (simp add: setlk_step_def file_lock_acquire_def place_lock_def file_locks_conflict_def
        file_locks_overlap_def lk_def)
  have h: "holds [lk 0 9 WRLCK 1] 1 5 WRLCK" by (simp add: lk_def covers_def)
  from record_locks_exclusive[OF _ r _ h, of 2 RDLCK] h r show ?thesis by (simp add: lk_def proper_def off_range)
qed

text \<open>
  Claim C40. A request that starts at the least offset is taken to be next to any lock of its owner and type that
  runs to the end of the file, because \<^verbatim>\<open>start - 1\<close> wraps: it is merged with it into a lock of the whole file,
  over the locks that other owners hold in between, although the request itself conflicts with none of them.
\<close>

theorem lowest_offset_breaks_exclusion:
  assumes "OFF_T_MIN \<le> e" "e < s1" "s1 \<le> e1" "e1 < s" "s \<le> OFF_T_MAX" "o1 \<noteq> o2" "t \<noteq> UNLCK"
  shows "inode_locks_ok [lk s1 e1 WRLCK o2, lk s OFF_T_MAX t o1]
     \<and> file_lock_acquire [lk s1 e1 WRLCK o2, lk s OFF_T_MAX t o1] (lk OFF_T_MIN e t o1)
         = Inr ([lk s1 e1 WRLCK o2, lk OFF_T_MIN OFF_T_MAX t o1], False)
     \<and> (\<forall>b. s1 \<le> b \<and> b \<le> e1 \<longrightarrow> holds [lk s1 e1 WRLCK o2, lk OFF_T_MIN OFF_T_MAX t o1] o2 b WRLCK
           \<and> holds [lk s1 e1 WRLCK o2, lk OFF_T_MIN OFF_T_MAX t o1] o1 b t)"
proof -
  let ?A = "lk s1 e1 WRLCK o2" and ?B = "lk s OFF_T_MAX t o1" and ?r = "lk OFF_T_MIN e t o1"
  have w: "off_t (OFF_T_MIN - 1) = OFF_T_MAX" by (simp add: off_t_def off_range)
  have "contig ow (map lowner [?A, ?B])" for ow by (simp add: contig_def lk_def)
  moreover have "group_ok (filter (\<lambda>l. lowner l = ow) [?A, ?B])" for ow
    using assms by (auto simp: group_ok_def lk_def lock_valid_def proper_def)
  moreover have "locks_compatible [?A, ?B]"
    using assms by (auto simp: locks_compatible_def lk_def covers_def)
  ultimately have ok: "inode_locks_ok [?A, ?B]" by (simp add: inode_locks_ok_def locks_ok_def grouped_def)
  have nc: "\<not> file_locks_conflict ?A ?r" "\<not> file_locks_conflict ?B ?r"
    using assms by (simp_all add: file_locks_conflict_def file_locks_overlap_def lk_def)
  have "file_locks_adjacent ?r ?B" by (simp add: file_locks_adjacent_def lk_def w)
  then have "acquire_walk False [?A, ?B] ?r = ([?A, lk OFF_T_MIN OFF_T_MAX t o1], False)"
    using assms by (simp add: acquire_walk.simps lk_def place_lock_def)
  then show ?thesis
    using ok nc assms by (auto simp: file_lock_acquire_def lk_def covers_def)
qed

theorem lowest_offset_breaks_exclusion_witness:
  "file_lock_acquire [lk 0 9 WRLCK 2, lk 100 OFF_T_MAX WRLCK 1] (lk OFF_T_MIN (- 5) WRLCK 1)
     = Inr ([lk 0 9 WRLCK 2, lk OFF_T_MIN OFF_T_MAX WRLCK 1], False)"
  using lowest_offset_breaks_exclusion[of "- 5" 0 9 100 1 2 WRLCK] by (simp add: off_range)

text \<open>A read lock needs a descriptor open for reading, a write lock one open for writing.\<close>

definition mode_allows :: "lock_fd \<Rightarrow> flock \<Rightarrow> bool" where
  "mode_allows fd fl \<longleftrightarrow>
     lf_accmode fd \<noteq> (if fl_type fl = F_RDLCK then O_WRONLY else O_RDONLY)"

text \<open>
  Claim C17. \<^verbatim>\<open>F_GETLK\<close> and \<^verbatim>\<open>F_SETLK\<close> agree for a read or write lock whose range is one (\<^verbatim>\<open>file_lock_from_flock\<close> accepts
  it): a request that does not wait is refused with \<^verbatim>\<open>EBADF\<close> when the
  descriptor is not open for the access its lock needs, and otherwise succeeds exactly when \<^verbatim>\<open>F_GETLK\<close> answers
  that the range is free (\<^verbatim>\<open>F_UNLCK\<close>), and else fails with \<^verbatim>\<open>EAGAIN\<close> and changes nothing.
\<close>

theorem getlk_predicts_setlk:
  assumes "fl_type fl = F_RDLCK \<or> fl_type fl = F_WRLCK"
    "file_lock_from_flock fd fl = Inr r"
    "\<forall>l \<in> set locks. ltype l \<noteq> UNLCK"
  shows "fcntl_setlk fd locks fl False [] = Some
     (if \<not> mode_allows fd fl then (EBADF, locks)
      else if fcntl_getlk fd locks fl = Inr (fl\<lparr>fl_type := F_UNLCK\<rparr>) then (0, fst (acquire_walk False locks r))
      else (EAGAIN, locks))"
proof -
  have rt: "ltype r = lock_type_of (fl_type fl)"
    using assms(2) by (auto simp: file_lock_from_flock_def Let_def split: sum.splits if_splits)
  have tn: "lock_type_num (ltype l) \<noteq> F_UNLCK" if "l \<in> set locks" for l
    using that assms(3) by (cases "ltype l") auto
  have fr: "lock_type_num (ltype l) \<noteq> F_UNLCK" if "find (\<lambda>l. file_locks_conflict l r) locks = Some l" for l
    using that tn by (metis find_Some_iff nth_mem)
  have "fcntl_getlk fd locks fl = Inr (fl\<lparr>fl_type := F_UNLCK\<rparr>)
      \<longleftrightarrow> find (\<lambda>l. file_locks_conflict l r) locks = None"
    using assms(1,2) fr
    by (auto simp: fcntl_getlk_def file_lock_test_def flock_from_file_lock_def
        split: option.splits dest!: arg_cong[of _ _ fl_type])
  then have g: "fcntl_getlk fd locks fl = Inr (fl\<lparr>fl_type := F_UNLCK\<rparr>) \<longleftrightarrow> \<not> (\<exists>l \<in> set locks. file_locks_conflict l r)"
    by (auto simp: find_None_iff)
  have t: "ltype r \<noteq> UNLCK" using rt assms(1) by (auto simp: lock_type_of_def)
  show ?thesis unfolding g
    using assms(1,2) t
    by (auto simp: fcntl_setlk_def setlk_loop.simps[of False] file_lock_acquire_def mode_allows_def split: prod.splits)
qed

definition demo_fd :: lock_fd where
  "demo_fd = \<lparr>lf_lseek = None, lf_fstat_size = Inr 100, lf_accmode = 2, lf_owner = 7, lf_pid = 1\<rparr>"

definition demo_flock :: "int \<Rightarrow> flock" where
  "demo_flock ty = \<lparr>fl_type = ty, fl_whence = 2, fl_start = -10, fl_len = 0, fl_pid = 0\<rparr>"

theorem getlk_predicts_setlk_witness:
  "fcntl_getlk demo_fd [lk 0 89 WRLCK 1] (demo_flock F_WRLCK) = Inr ((demo_flock F_WRLCK)\<lparr>fl_type := F_UNLCK\<rparr>)
   \<and> (\<exists>locks'. fcntl_setlk demo_fd [lk 0 89 WRLCK 1] (demo_flock F_WRLCK) False [] = Some (0, locks'))
   \<and> fcntl_setlk (demo_fd\<lparr>lf_accmode := O_RDONLY\<rparr>) [lk 0 89 WRLCK 1] (demo_flock F_WRLCK) False []
       = Some (EBADF, [lk 0 89 WRLCK 1])"
proof -
  let ?r = "lk 90 OFF_T_MAX WRLCK 7\<lparr>lpid := 1\<rparr>"
  have r: "file_lock_from_flock fd (demo_flock F_WRLCK) = Inr ?r"
    if "fd = demo_fd \<or> fd = demo_fd\<lparr>lf_accmode := O_RDONLY\<rparr>" for fd
    using that by (auto simp: demo_flock_def demo_fd_def file_lock_from_flock_def flock_offset_def
      lock_type_of_def lk_def off_range)
  have g: "fcntl_getlk demo_fd [lk 0 89 WRLCK 1] (demo_flock F_WRLCK) = Inr ((demo_flock F_WRLCK)\<lparr>fl_type := F_UNLCK\<rparr>)"
    using r[of demo_fd] by (simp add: fcntl_getlk_def file_lock_test_def file_locks_conflict_def file_locks_overlap_def lk_def)
      (simp add: demo_flock_def)
  have m: "mode_allows demo_fd (demo_flock F_WRLCK)" "\<not> mode_allows (demo_fd\<lparr>lf_accmode := O_RDONLY\<rparr>) (demo_flock F_WRLCK)"
    by (simp_all add: mode_allows_def demo_fd_def demo_flock_def O_RDONLY_def)
  have t: "fl_type (demo_flock F_WRLCK) = F_WRLCK" "\<forall>l \<in> set [lk 0 89 WRLCK 1]. ltype l \<noteq> UNLCK"
    by (simp_all add: demo_flock_def lk_def)
  show ?thesis
    using g m getlk_predicts_setlk[OF disjI2[OF t(1)] r[of demo_fd] t(2)]
      getlk_predicts_setlk[OF disjI2[OF t(1)] r[of "demo_fd\<lparr>lf_accmode := O_RDONLY\<rparr>"] t(2)] by simp
qed

text \<open>
  What \<^verbatim>\<open>F_GETLK\<close> reports about a lock names the same range again when it is used
  as a request, also for a lock to the end of the file (reported with length 0).
\<close>

theorem flock_roundtrip:
  assumes "lock_valid l" "0 \<le> lstart l"
  shows "\<exists>r. file_lock_from_flock fd (flock_from_file_lock l fl) = Inr r
     \<and> lstart r = lstart l \<and> lend r = lend l \<and> ltype r = ltype l"
proof -
  have p: "proper l" "ltype l \<noteq> UNLCK" using assms(1) by (simp_all add: lock_valid_def)
  then have s: "off_t (lstart l) = lstart l" by (simp add: proper_def)
  have e: "off_t (lend l) = lend l" using p(1) by (simp add: proper_def)
  have n: "lend l \<noteq> OFF_T_MAX \<Longrightarrow> off_t (lend l - lstart l + 1) = lend l - lstart l + 1"
    using p(1) assms(2) by (intro off_t_id) (auto simp: proper_def off_range)
  show ?thesis using p s e n assms(2)
    by (cases "ltype l")
      (auto simp: file_lock_from_flock_def flock_from_file_lock_def flock_offset_def lock_type_of_def proper_def Let_def)
qed

theorem flock_roundtrip_witness:
  "\<exists>r. file_lock_from_flock demo_fd (flock_from_file_lock (lk 5 OFF_T_MAX RDLCK 1) (demo_flock 0)) = Inr r
     \<and> lstart r = 5 \<and> lend r = OFF_T_MAX \<and> ltype r = RDLCK"
  using flock_roundtrip[of "lk 5 OFF_T_MAX RDLCK 1" demo_fd "demo_flock 0"]
  by (simp add: lock_valid_def lk_def proper_def off_range)

text \<open>A blocking request that returns success has acquired the lock on some woken state.\<close>

lemma setlk_loop_result:
  "setlk_loop blocking r locks wakes = Some (0, locks') \<Longrightarrow> Inl 0 \<notin> set wakes \<Longrightarrow>
   \<exists>ls n. (ls = locks \<or> Inr ls \<in> set wakes) \<and> file_lock_acquire ls r = Inr (locks', n)"
  by (induction blocking r locks wakes rule: setlk_loop.induct)
    (subst (asm) (2) setlk_loop.simps,
      fastforce simp: file_lock_acquire_def split: sum.splits prod.splits list.splits if_splits)

end
