(* ===== verification/Fd_Table.thy ===== *)
theory Fd_Table
  imports Posix_Locks "HOL-Library.Monad_Syntax"
begin

text \<open>
  Open file descriptions and descriptor tables (\<^verbatim>\<open>fs/fd.c\<close>, \<^verbatim>\<open>fs/fd.h\<close>, \<^verbatim>\<open>util/bits.h\<close>): the
  reference-counted \<^verbatim>\<open>struct fd\<close>s on a heap, the current task's table with its close-on-exec
  bits, the references a syscall holds, and the system calls on descriptors. Every operation
  returns an option: \<open>None\<close> is a host memory error (an index outside an array, a use of a freed
  description) or a failed assertion.
  Counts of references are natural numbers here: the code's \<^verbatim>\<open>atomic_uint\<close> is the same while a description has fewer than
  \<open>2 ^ 32\<close> descriptors, which the memory of the tables bounds.
  The file operations behind a description (\<^verbatim>\<open>ops->close\<close> and so on) are outside this
  component; what they answer is recorded in the description.
\<close>

section \<open>State\<close>

type_synonym fd_id = nat

record fdesc =
  fd_refcount :: nat
  fd_flags :: u32
  fd_inode :: "nat option"
  fd_ops_close :: int
  fd_mount_close :: "int option"
  fd_ops_getflags :: "u32 option"
  fd_ops_setflags :: "int option"

record fdtable =
  ft_size :: nat
  ft_files :: "fd_id option list"
  ft_cloexec :: "bool list"

text \<open>
  \<^verbatim>\<open>fs_alloc\<close>: whether \<^verbatim>\<open>malloc\<close> succeeds. \<^verbatim>\<open>fs_refs\<close>: the task's \<^verbatim>\<open>syscall_refs\<close>.
  \<^verbatim>\<open>fs_locks\<close>: the record locks of each inode. \<^verbatim>\<open>fs_nofile\<close>: \<^verbatim>\<open>rlimit(RLIMIT_NOFILE_)\<close>.
\<close>

record fstate =
  fs_descs :: "fd_id \<rightharpoonup> fdesc"
  fs_locks :: "nat \<Rightarrow> file_lock list"
  fs_table :: fdtable
  fs_table_id :: nat
  fs_refs :: "fd_id list"
  fs_nofile :: nat
  fs_alloc :: bool

definition O_NONBLOCK :: u32 where "O_NONBLOCK = 2 ^ 11"
definition O_APPEND :: u32 where "O_APPEND = 2 ^ 10"
definition O_CLOEXEC :: u32 where "O_CLOEXEC = 2 ^ 19"

text \<open>The number of bits in \<^verbatim>\<open>BITS_SIZE(n)\<close> bytes.\<close>

definition bits_size :: "nat \<Rightarrow> nat" where
  "bits_size n = ((n - 1) div 8 + 1) * 8"

definition bit_write :: "int \<Rightarrow> bool \<Rightarrow> bool list \<Rightarrow> bool list option" where
  "bit_write i v bs = (if 0 \<le> i \<and> nat i < length bs then Some (bs[nat i := v]) else None)"

definition bit_test :: "int \<Rightarrow> bool list \<Rightarrow> bool option" where
  "bit_test i bs = (if 0 \<le> i \<and> nat i < length bs then Some (bs ! nat i) else None)"

section \<open>Reference counting\<close>

definition fd_retain :: "fd_id \<Rightarrow> fstate \<Rightarrow> fstate option" where
  "fd_retain d s = do {
     fd \<leftarrow> fs_descs s d;
     Some (s\<lparr>fs_descs := (fs_descs s)(d \<mapsto> fd\<lparr>fd_refcount := fd_refcount fd + 1\<rparr>)\<rparr>) }"

definition fd_close_result :: "fdesc \<Rightarrow> int" where
  "fd_close_result fd =
     (case fd_mount_close fd of
        Some m \<Rightarrow> if m < 0 then m else fd_ops_close fd
      | None \<Rightarrow> fd_ops_close fd)"

definition fd_close :: "fd_id \<Rightarrow> fstate \<Rightarrow> (int \<times> fstate) option" where
  "fd_close d s = do {
     fd \<leftarrow> fs_descs s d;
     if fd_refcount fd = 1
     then Some (fd_close_result fd, s\<lparr>fs_descs := (fs_descs s)(d := None)\<rparr>)
     else Some (0, s\<lparr>fs_descs := (fs_descs s)(d \<mapsto> fd\<lparr>fd_refcount := fd_refcount fd - 1\<rparr>)\<rparr>) }"

section \<open>Tables\<close>

text \<open>The first result is the C result, 0 or an error.\<close>

definition fdtable_resize :: "bool \<Rightarrow> fdtable \<Rightarrow> nat \<Rightarrow> (int \<times> fdtable) option" where
  "fdtable_resize alloc t sz =
     (if \<not> sz > ft_size t then None
      else if \<not> alloc then Some (ENOMEM, t)
      else Some (0, \<lparr>ft_size = sz,
                     ft_files = take (ft_size t) (ft_files t) @ replicate (sz - ft_size t) None,
                     ft_cloexec = ft_cloexec t
                       @ replicate (bits_size sz - length (ft_cloexec t)) False\<rparr>))"

definition fdtable_new :: "bool \<Rightarrow> nat \<Rightarrow> (fdtable res) option" where
  "fdtable_new alloc sz =
     (if \<not> alloc then Some (Inl ENOMEM)
      else do {
        (err, t) \<leftarrow> fdtable_resize alloc \<lparr>ft_size = 0, ft_files = [], ft_cloexec = []\<rparr> sz;
        Some (if err < 0 then Inl err else Inr t) })"

definition fdtable_expand :: "fstate \<Rightarrow> int \<Rightarrow> (int \<times> fstate) option" where
  "fdtable_expand s mx =
     (let sz = nat ((mx + 1) mod 2 ^ 32)
      in if sz > fs_nofile s then Some (EMFILE, s)
         else if ft_size (fs_table s) \<ge> sz then Some (0, s)
         else do {
           (err, t) \<leftarrow> fdtable_resize (fs_alloc s) (fs_table s) sz;
           Some (err, s\<lparr>fs_table := t\<rparr>) })"

definition fdtable_get :: "fdtable \<Rightarrow> int \<Rightarrow> fd_id option" where
  "fdtable_get t f =
     (if f < 0 \<or> nat f \<ge> ft_size t then None else ft_files t ! nat f)"

definition table_store :: "int \<Rightarrow> fd_id option \<Rightarrow> fstate \<Rightarrow> fstate option" where
  "table_store f d s =
     (if 0 \<le> f \<and> nat f < length (ft_files (fs_table s))
      then Some (s\<lparr>fs_table := (fs_table s)\<lparr>ft_files := (ft_files (fs_table s))[nat f := d]\<rparr>\<rparr>)
      else None)"

definition cloexec_write :: "int \<Rightarrow> bool \<Rightarrow> fstate \<Rightarrow> fstate option" where
  "cloexec_write f v s = do {
     bs \<leftarrow> bit_write f v (ft_cloexec (fs_table s));
     Some (s\<lparr>fs_table := (fs_table s)\<lparr>ft_cloexec := bs\<rparr>\<rparr>) }"

definition fdtable_close :: "int \<Rightarrow> fstate \<Rightarrow> (int \<times> fstate) option" where
  "fdtable_close f s =
     (case fdtable_get (fs_table s) f of
        None \<Rightarrow> Some (EBADF, s)
      | Some d \<Rightarrow> do {
          fd \<leftarrow> fs_descs s d;
          let s1 = (case fd_inode fd of
                      None \<Rightarrow> s
                    | Some i \<Rightarrow> s\<lparr>fs_locks := (fs_locks s)
                        (i := file_lock_remove_owned_by (fs_locks s i) (fs_table_id s))\<rparr>);
          (err, s2) \<leftarrow> fd_close d s1;
          s3 \<leftarrow> table_store f None s2;
          s4 \<leftarrow> cloexec_write f False s3;
          Some (err, s4) })"

text \<open>
  \<^verbatim>\<open>fdtable_copy\<close>: the new table, and the description heap with one more reference for each of
  its entries.
\<close>

fun retain_all :: "fd_id option list \<Rightarrow> fstate \<Rightarrow> fstate option" where
  "retain_all [] s = Some s"
| "retain_all (None # fs) s = retain_all fs s"
| "retain_all (Some d # fs) s = do { s' \<leftarrow> fd_retain d s; retain_all fs s' }"

definition fdtable_copy :: "fstate \<Rightarrow> (fdtable res \<times> fstate) option" where
  "fdtable_copy s = do {
     r \<leftarrow> fdtable_new (fs_alloc s) (ft_size (fs_table s));
     case r of
       Inl e \<Rightarrow> Some (Inl e, s)
     | Inr t \<Rightarrow> do {
         let t' = t\<lparr>ft_files := ft_files (fs_table s), ft_cloexec := ft_cloexec (fs_table s)\<rparr>;
         s' \<leftarrow> retain_all (ft_files (fs_table s)) s;
         Some (Inr t', s') } }"

fun close_each :: "int list \<Rightarrow> fstate \<Rightarrow> fstate option" where
  "close_each [] s = Some s"
| "close_each (f # fs) s = do { (_, s') \<leftarrow> fdtable_close f s; close_each fs s' }"

text \<open>The last reference to a table closes everything in it (\<^verbatim>\<open>fdtable_release\<close>).\<close>

definition fdtable_release_last :: "fstate \<Rightarrow> fstate option" where
  "fdtable_release_last s = close_each (map int [0..<ft_size (fs_table s)]) s"

section \<open>References held by a syscall\<close>

definition syscall_ref_hold :: "fd_id \<Rightarrow> fstate \<Rightarrow> (bool \<times> fstate) option" where
  "syscall_ref_hold d s =
     (if d \<in> set (fs_refs s) then Some (True, s)
      else if \<not> fs_alloc s then Some (False, s)
      else do {
        s' \<leftarrow> fd_retain d s;
        Some (True, s'\<lparr>fs_refs := fs_refs s' @ [d]\<rparr>) })"

fun drain_refs :: "fd_id list \<Rightarrow> fstate \<Rightarrow> fstate option" where
  "drain_refs [] s = Some s"
| "drain_refs (d # ds) s = do { (_, s') \<leftarrow> fd_close d s; drain_refs ds s' }"

definition syscall_refs_release :: "fstate \<Rightarrow> fstate option" where
  "syscall_refs_release s = drain_refs (fs_refs s) (s\<lparr>fs_refs := []\<rparr>)"

definition f_get :: "int \<Rightarrow> fstate \<Rightarrow> (fd_id option \<times> fstate) option" where
  "f_get f s =
     (case fdtable_get (fs_table s) f of
        None \<Rightarrow> Some (None, s)
      | Some d \<Rightarrow> do {
          (held, s') \<leftarrow> syscall_ref_hold d s;
          Some (if held then Some d else None, s') })"

section \<open>Installing\<close>

text \<open>
  The search loop of \<^verbatim>\<open>f_install_start\<close>: the first free index from \<open>f\<close> on, below \<open>sz\<close>.
\<close>

function first_free :: "fd_id option list \<Rightarrow> nat \<Rightarrow> nat \<Rightarrow> nat" where
  "first_free files f sz =
     (if f < sz \<and> files ! f \<noteq> None then first_free files (Suc f) sz else f)"
  by pat_completeness auto
termination
  by (relation "measure (\<lambda>(files, f, sz). sz - f)") auto

declare first_free.simps [simp del]

definition f_install_start :: "fd_id \<Rightarrow> int \<Rightarrow> fstate \<Rightarrow> (int \<times> fstate) option" where
  "f_install_start d start s =
     (if start < 0 then None
      else do {
        let sz = min (fs_nofile s mod 2 ^ 32) (ft_size (fs_table s));
        let f = first_free (ft_files (fs_table s)) (nat start) sz;
        (r, s1) \<leftarrow> (if f \<ge> sz then do {
                        (err, s') \<leftarrow> fdtable_expand s (int f);
                        Some (if err < 0 then err else int f, s') }
                      else Some (int f, s));
        if r \<ge> 0 then do {
          s2 \<leftarrow> table_store r (Some d) s1;
          s3 \<leftarrow> cloexec_write r False s2;
          Some (r, s3) }
        else do { (_, s2) \<leftarrow> fd_close d s1; Some (r, s2) } })"

definition fd_getflags :: "fdesc \<Rightarrow> u32" where
  "fd_getflags fd = (case fd_ops_getflags fd of Some v \<Rightarrow> v | None \<Rightarrow> fd_flags fd)"

definition fd_setflags :: "fd_id \<Rightarrow> u32 \<Rightarrow> fstate \<Rightarrow> (int \<times> fstate) option" where
  "fd_setflags d flags s = do {
     fd \<leftarrow> fs_descs s d;
     (case fd_ops_setflags fd of
        Some r \<Rightarrow> Some (r, s)
      | None \<Rightarrow>
          let allowed = O_APPEND OR O_NONBLOCK
          in Some (0, s\<lparr>fs_descs := (fs_descs s)
               (d \<mapsto> fd\<lparr>fd_flags := (fd_flags fd AND NOT allowed) OR (flags AND allowed)\<rparr>)\<rparr>)) }"

definition f_install :: "fd_id \<Rightarrow> u32 \<Rightarrow> fstate \<Rightarrow> (int \<times> fstate) option" where
  "f_install d flags s = do {
     (f, s1) \<leftarrow> f_install_start d 0 s;
     if f \<ge> 0 then do {
       s2 \<leftarrow> (if flags AND O_CLOEXEC \<noteq> 0 then cloexec_write f True s1 else Some s1);
       s3 \<leftarrow> (if flags AND O_NONBLOCK \<noteq> 0 then map_option snd (fd_setflags d O_NONBLOCK s2) else Some s2);
       Some (f, s3) }
     else Some (f, s1) }"

section \<open>System calls\<close>

definition f_close :: "int \<Rightarrow> fstate \<Rightarrow> (int \<times> fstate) option" where
  "f_close f s = fdtable_close f s"

fun do_cloexec :: "int list \<Rightarrow> fstate \<Rightarrow> fstate option" where
  "do_cloexec [] s = Some s"
| "do_cloexec (f # fs) s = do {
     b \<leftarrow> bit_test f (ft_cloexec (fs_table s));
     s' \<leftarrow> (if b then map_option snd (fdtable_close f s) else Some s);
     do_cloexec fs s' }"

definition fdtable_do_cloexec :: "fstate \<Rightarrow> fstate option" where
  "fdtable_do_cloexec s = do_cloexec (map int [0..<ft_size (fs_table s)]) s"

definition sys_dup :: "int \<Rightarrow> fstate \<Rightarrow> (int \<times> fstate) option" where
  "sys_dup f s = do {
     (r, s1) \<leftarrow> f_get f s;
     (case r of
        None \<Rightarrow> Some (EBADF, s1)
      | Some d \<Rightarrow> do { s2 \<leftarrow> fd_retain d s1; f_install d 0 s2 }) }"

definition sys_dup3 :: "int \<Rightarrow> int \<Rightarrow> u32 \<Rightarrow> fstate \<Rightarrow> (int \<times> fstate) option" where
  "sys_dup3 f new_f flags s = do {
     (r, s1) \<leftarrow> f_get f s;
     (case r of
        None \<Rightarrow> Some (EBADF, s1)
      | Some d \<Rightarrow> do {
          (err, s2) \<leftarrow> fdtable_expand s1 new_f;
          if err < 0 then Some (err, s2)
          else do {
            s3 \<leftarrow> fd_retain d s2;
            (_, s4) \<leftarrow> f_close new_f s3;
            s5 \<leftarrow> table_store new_f (Some d) s4;
            s6 \<leftarrow> (if flags AND O_CLOEXEC \<noteq> 0 then cloexec_write new_f True s5 else Some s5);
            Some (new_f, s6) } }) }"

definition sys_dup2 :: "int \<Rightarrow> int \<Rightarrow> fstate \<Rightarrow> (int \<times> fstate) option" where
  "sys_dup2 f new_f s = sys_dup3 f new_f 0 s"

text \<open>
  The commands of \<^verbatim>\<open>sys_fcntl\<close> that act on descriptors. The argument reaches \<^verbatim>\<open>f_install_start\<close>
  as a signed 32-bit number.
\<close>

definition to_fd :: "u64 \<Rightarrow> int" where
  "to_fd a = sint (ucast a :: u32)"

definition fcntl_dupfd :: "int \<Rightarrow> u64 \<Rightarrow> fstate \<Rightarrow> (int \<times> fstate) option" where
  "fcntl_dupfd f arg s = do {
     (r, s1) \<leftarrow> f_get f s;
     (case r of
        None \<Rightarrow> Some (EBADF, s1)
      | Some d \<Rightarrow> do { s2 \<leftarrow> fd_retain d s1; f_install_start d (to_fd arg) s2 }) }"

definition fcntl_dupfd_cloexec :: "int \<Rightarrow> u64 \<Rightarrow> fstate \<Rightarrow> (int \<times> fstate) option" where
  "fcntl_dupfd_cloexec f arg s = do {
     (r, s1) \<leftarrow> f_get f s;
     (case r of
        None \<Rightarrow> Some (EBADF, s1)
      | Some d \<Rightarrow> do {
          s2 \<leftarrow> fd_retain d s1;
          (new_f, s3) \<leftarrow> f_install_start d (to_fd arg) s2;
          s4 \<leftarrow> cloexec_write new_f True s3;
          Some (new_f, s4) }) }"

definition fcntl_getfd :: "int \<Rightarrow> fstate \<Rightarrow> (int \<times> fstate) option" where
  "fcntl_getfd f s = do {
     (r, s1) \<leftarrow> f_get f s;
     (case r of
        None \<Rightarrow> Some (EBADF, s1)
      | Some d \<Rightarrow> do {
          b \<leftarrow> bit_test f (ft_cloexec (fs_table s1));
          Some (if b then 1 else 0, s1) }) }"

definition fcntl_setfd :: "int \<Rightarrow> u64 \<Rightarrow> fstate \<Rightarrow> (int \<times> fstate) option" where
  "fcntl_setfd f arg s = do {
     (r, s1) \<leftarrow> f_get f s;
     (case r of
        None \<Rightarrow> Some (EBADF, s1)
      | Some d \<Rightarrow> do {
          s2 \<leftarrow> cloexec_write f (arg AND 1 \<noteq> 0) s1;
          Some (0, s2) }) }"

definition fcntl_getfl :: "int \<Rightarrow> fstate \<Rightarrow> (int \<times> fstate) option" where
  "fcntl_getfl f s = do {
     (r, s1) \<leftarrow> f_get f s;
     (case r of
        None \<Rightarrow> Some (EBADF, s1)
      | Some d \<Rightarrow> do { fd \<leftarrow> fs_descs s1 d; Some (uint (fd_getflags fd), s1) }) }"

definition fcntl_setfl :: "int \<Rightarrow> u64 \<Rightarrow> fstate \<Rightarrow> (int \<times> fstate) option" where
  "fcntl_setfl f arg s = do {
     (r, s1) \<leftarrow> f_get f s;
     (case r of
        None \<Rightarrow> Some (EBADF, s1)
      | Some d \<Rightarrow> fd_setflags d (ucast arg) s1) }"

text \<open>
  The lock commands pass a blocking flag to \<^verbatim>\<open>fcntl_setlk\<close>; this is the flag as each switch case
  computes it.
\<close>

definition F_SETLK :: int where "F_SETLK = 6"
definition F_SETLKW :: int where "F_SETLKW = 7"
definition F_SETLK64 :: int where "F_SETLK64 = 13"
definition F_SETLKW64 :: int where "F_SETLKW64 = 14"

definition fcntl_lock_blocking :: "int \<Rightarrow> bool option" where
  "fcntl_lock_blocking cmd =
     (if cmd = F_SETLK \<or> cmd = F_SETLKW then Some (cmd = F_SETLKW64)
      else if cmd = F_SETLK64 \<or> cmd = F_SETLKW64 then Some (cmd = F_SETLKW)
      else None)"

text \<open>\<^verbatim>\<open>sys_close_range\<close>. \<^verbatim>\<open>(fd_t) x\<close> is the signed reading of a 32-bit word.\<close>

function close_range_loop :: "bool \<Rightarrow> int \<Rightarrow> int \<Rightarrow> fstate \<Rightarrow> fstate option" where
  "close_range_loop cloexec f lst s =
     (if f > lst then Some s
      else if f < 0 \<or> nat f \<ge> length (ft_files (fs_table s)) then None
      else if ft_files (fs_table s) ! nat f = None then close_range_loop cloexec (f + 1) lst s
      else if cloexec
        then (case cloexec_write f True s of
                None \<Rightarrow> None | Some s' \<Rightarrow> close_range_loop cloexec (f + 1) lst s')
      else (case fdtable_close f s of
              None \<Rightarrow> None | Some (_, s') \<Rightarrow> close_range_loop cloexec (f + 1) lst s'))"
  by pat_completeness auto
termination
  by (relation "measure (\<lambda>(c, f, lst, s). nat (lst + 1 - f))") auto

declare close_range_loop.simps [simp del]

definition sys_close_range :: "u32 \<Rightarrow> u32 \<Rightarrow> u32 \<Rightarrow> fstate \<Rightarrow> (int \<times> fstate) option" where
  "sys_close_range first lst flags s =
     (if first > lst then Some (EINVAL, s)
      else
        let lim = int (ft_size (fs_table s));
            last' = (if sint lst \<ge> lim then lim - 1 else sint lst)
        in map_option (Pair 0) (close_range_loop (flags AND 4 \<noteq> 0) (sint first) last' s))"

section \<open>The invariant: every reference is counted\<close>

definition table_wf :: "fdtable \<Rightarrow> bool" where
  "table_wf t \<longleftrightarrow> 0 < ft_size t \<and> ft_size t < 2 ^ 31 \<and> length (ft_files t) = ft_size t
     \<and> length (ft_cloexec t) = bits_size (ft_size t)"

text \<open>References in the table and in the syscall's list.\<close>

definition fd_refs :: "fstate \<Rightarrow> fd_id \<Rightarrow> nat" where
  "fd_refs s d = count_list (ft_files (fs_table s)) (Some d) + count_list (fs_refs s) d"

text \<open>
  \<open>held d\<close> references are owned by the code that is running (or by other tables). A
  description is on the heap exactly while something refers to it, with the exact count.
\<close>

definition counted :: "nat \<Rightarrow> fdesc option \<Rightarrow> bool" where
  "counted n fdo \<longleftrightarrow> map_option fd_refcount fdo = (if n = 0 then None else Some n)"

definition fd_inv :: "(fd_id \<Rightarrow> nat) \<Rightarrow> fstate \<Rightarrow> bool" where
  "fd_inv held s \<longleftrightarrow> table_wf (fs_table s) \<and> fs_nofile s < 2 ^ 31
     \<and> (\<forall>d. counted (fd_refs s d + held d) (fs_descs s d))"

lemma fd_invI:
  "table_wf (fs_table s) \<Longrightarrow> fs_nofile s < 2 ^ 31 \<Longrightarrow>
   (\<And>d. counted (fd_refs s d + held d) (fs_descs s d)) \<Longrightarrow> fd_inv held s"
  by (simp add: fd_inv_def)

lemma fd_invD: "fd_inv held s \<Longrightarrow> counted (fd_refs s d + held d) (fs_descs s d)"
  by (simp add: fd_inv_def)

lemma bits_size_ge: "0 < n \<Longrightarrow> n \<le> bits_size n"
  by (simp add: bits_size_def)

lemma bits_size_mono: "m \<le> n \<Longrightarrow> bits_size m \<le> bits_size n"
  by (simp add: bits_size_def div_le_mono)

lemma fd_inv_wf:
  assumes "fd_inv held s"
  shows "table_wf (fs_table s)" "0 < ft_size (fs_table s)"
    "length (ft_files (fs_table s)) = ft_size (fs_table s)"
    "ft_size (fs_table s) \<le> length (ft_cloexec (fs_table s))"
    "ft_size (fs_table s) < 2 ^ 31" "fs_nofile s < 2 ^ 31"
  using assms bits_size_ge by (auto simp: fd_inv_def table_wf_def)

lemma fd_inv_desc:
  "fd_inv held s \<Longrightarrow> 0 < fd_refs s d + held d \<Longrightarrow>
   \<exists>fd. fs_descs s d = Some fd \<and> fd_refcount fd = fd_refs s d + held d"
  using fd_invD[of held s d] by (auto simp: counted_def)

lemma table_entry_live:
  assumes "fd_inv held s" "fdtable_get (fs_table s) f = Some d"
  shows "0 < fd_refs s d" "0 \<le> f" "nat f < ft_size (fs_table s)" "ft_files (fs_table s) ! nat f = Some d"
proof -
  show r: "0 \<le> f" "nat f < ft_size (fs_table s)" "ft_files (fs_table s) ! nat f = Some d"
    using assms(2) by (auto simp: fdtable_get_def split: if_splits)
  then have "Some d \<in> set (ft_files (fs_table s))"
    using fd_inv_wf(3)[OF assms(1)] by (metis nth_mem)
  then show "0 < fd_refs s d" by (simp add: fd_refs_def count_list_pos_iff)
qed

subsection \<open>One reference at a time\<close>

lemma fd_inv_update:
  assumes "fd_inv held s" "counted (fd_refs s d + n) x"
  shows "fd_inv (held(d := n)) (s\<lparr>fs_descs := (fs_descs s)(d := x)\<rparr>)"
proof (rule fd_invI)
  fix e
  have "fd_refs (s\<lparr>fs_descs := (fs_descs s)(d := x)\<rparr>) e = fd_refs s e" by (simp add: fd_refs_def)
  then show "counted (fd_refs (s\<lparr>fs_descs := (fs_descs s)(d := x)\<rparr>) e + (held(d := n)) e)
      (fs_descs (s\<lparr>fs_descs := (fs_descs s)(d := x)\<rparr>) e)"
    using fd_invD[OF assms(1), of e] assms(2) by simp
qed (use fd_inv_wf[OF assms(1)] in simp_all)

lemma fd_retain_inv:
  assumes "fd_inv held s" "0 < fd_refs s d + held d"
  shows "\<exists>s'. fd_retain d s = Some s' \<and> fd_inv (held(d := held d + 1)) s'
     \<and> fs_table s' = fs_table s \<and> fs_refs s' = fs_refs s \<and> fs_nofile s' = fs_nofile s
     \<and> fs_alloc s' = fs_alloc s \<and> dom (fs_descs s') = dom (fs_descs s)"
proof -
  obtain fd where fd: "fs_descs s d = Some fd" "fd_refcount fd = fd_refs s d + held d"
    using fd_inv_desc[OF assms] by blast
  define s' where "s' = s\<lparr>fs_descs := (fs_descs s)(d \<mapsto> fd\<lparr>fd_refcount := fd_refcount fd + 1\<rparr>)\<rparr>"
  have "fd_inv (held(d := held d + 1)) s'"
    unfolding s'_def using assms fd by (intro fd_inv_update) (simp_all add: counted_def)
  then show ?thesis using fd by (auto simp: fd_retain_def s'_def)
qed

lemma fd_close_inv:
  assumes "fd_inv held s" "0 < held d"
  shows "\<exists>r s'. fd_close d s = Some (r, s') \<and> fd_inv (held(d := held d - 1)) s'
     \<and> fs_table s' = fs_table s \<and> fs_refs s' = fs_refs s \<and> fs_nofile s' = fs_nofile s
     \<and> fs_alloc s' = fs_alloc s
     \<and> (fs_descs s' d = None \<longleftrightarrow> fd_refs s d + held d = 1)
     \<and> (\<forall>e. e \<noteq> d \<longrightarrow> fs_descs s' e = fs_descs s e)"
proof -
  obtain fd where fd: "fs_descs s d = Some fd" "fd_refcount fd = fd_refs s d + held d"
    using fd_inv_desc[OF assms(1), of d] assms(2) by auto
  show ?thesis
  proof (cases "fd_refcount fd = 1")
    case True
    define s' where "s' = s\<lparr>fs_descs := (fs_descs s)(d := None)\<rparr>"
    have "fd_refs s d = 0" "held d = 1" using True fd(2) assms(2) by auto
    then have "fd_inv (held(d := held d - 1)) s'"
      unfolding s'_def using assms by (intro fd_inv_update) (simp_all add: counted_def)
    then show ?thesis using fd True by (auto simp: fd_close_def s'_def)
  next
    case False
    define s' where "s' = s\<lparr>fs_descs := (fs_descs s)(d \<mapsto> fd\<lparr>fd_refcount := fd_refcount fd - 1\<rparr>)\<rparr>"
    have "fd_inv (held(d := held d - 1)) s'"
      unfolding s'_def using assms fd False by (intro fd_inv_update) (auto simp: counted_def)
    then show ?thesis using fd False by (auto simp: fd_close_def s'_def)
  qed
qed

lemma table_store_refs:
  assumes "fd_inv held s" "0 \<le> f" "nat f < ft_size (fs_table s)"
  shows "\<exists>s'. table_store f x s = Some s' \<and> table_wf (fs_table s')
     \<and> fs_descs s' = fs_descs s \<and> fs_refs s' = fs_refs s \<and> fs_nofile s' = fs_nofile s
     \<and> fs_alloc s' = fs_alloc s
     \<and> ft_size (fs_table s') = ft_size (fs_table s)
     \<and> ft_cloexec (fs_table s') = ft_cloexec (fs_table s)
     \<and> ft_files (fs_table s') = (ft_files (fs_table s))[nat f := x]
     \<and> (\<forall>d. fd_refs s' d + (if ft_files (fs_table s) ! nat f = Some d then 1 else 0)
           = fd_refs s d + (if x = Some d then 1 else 0))"
  using fd_inv_wf(1,3)[OF assms(1)] assms(2,3)
    count_list_update[of "nat f" "ft_files (fs_table s)" x]
  by (auto simp: table_store_def fd_refs_def table_wf_def)

lemma table_put_inv:
  assumes "fd_inv held s" "0 \<le> f" "nat f < ft_size (fs_table s)"
    "ft_files (fs_table s) ! nat f = None" "0 < held d"
  shows "\<exists>s'. table_store f (Some d) s = Some s' \<and> fd_inv (held(d := held d - 1)) s'
     \<and> fs_refs s' = fs_refs s \<and> fs_nofile s' = fs_nofile s \<and> fs_alloc s' = fs_alloc s
     \<and> ft_size (fs_table s') = ft_size (fs_table s)
     \<and> ft_cloexec (fs_table s') = ft_cloexec (fs_table s)
     \<and> ft_files (fs_table s') = (ft_files (fs_table s))[nat f := Some d]
     \<and> fs_descs s' = fs_descs s"
proof -
  obtain s' where s': "table_store f (Some d) s = Some s'" "table_wf (fs_table s')"
      "fs_descs s' = fs_descs s" "fs_refs s' = fs_refs s" "fs_nofile s' = fs_nofile s"
      "fs_alloc s' = fs_alloc s"
      "ft_size (fs_table s') = ft_size (fs_table s)"
      "ft_cloexec (fs_table s') = ft_cloexec (fs_table s)"
      "ft_files (fs_table s') = (ft_files (fs_table s))[nat f := Some d]"
      and r: "\<And>e. fd_refs s' e = fd_refs s e + (if e = d then 1 else 0)"
    using table_store_refs[OF assms(1-3), of "Some d"] assms(4) by auto
  have "fd_refs s' e + (held(d := held d - 1)) e = fd_refs s e + held e" for e
    using r[of e] assms(5) by auto
  then have "fd_inv (held(d := held d - 1)) s'"
    using assms(1) s' by (simp add: fd_inv_def)
  with s' show ?thesis by blast
qed

lemma table_clear_inv:
  assumes "fd_inv held s" "fdtable_get (fs_table s) f = Some d"
  shows "\<exists>s'. table_store f None s = Some s' \<and> fd_inv (held(d := held d + 1)) s'
     \<and> fs_refs s' = fs_refs s \<and> fs_nofile s' = fs_nofile s \<and> fs_alloc s' = fs_alloc s
     \<and> ft_size (fs_table s') = ft_size (fs_table s)
     \<and> ft_cloexec (fs_table s') = ft_cloexec (fs_table s)
     \<and> ft_files (fs_table s') = (ft_files (fs_table s))[nat f := None]
     \<and> fs_descs s' = fs_descs s"
proof -
  note T = table_entry_live[OF assms]
  obtain s' where s': "table_store f None s = Some s'" "table_wf (fs_table s')"
      "fs_descs s' = fs_descs s" "fs_refs s' = fs_refs s" "fs_nofile s' = fs_nofile s"
      "fs_alloc s' = fs_alloc s"
      "ft_size (fs_table s') = ft_size (fs_table s)"
      "ft_cloexec (fs_table s') = ft_cloexec (fs_table s)"
      "ft_files (fs_table s') = (ft_files (fs_table s))[nat f := None]"
      and r: "\<And>e. fd_refs s' e + (if d = e then 1 else 0) = fd_refs s e"
    using table_store_refs[OF assms(1) T(2,3), of None] T(4) by auto
  have "fd_refs s' e + (held(d := held d + 1)) e = fd_refs s e + held e" for e
    using r[of e] by auto
  then have "fd_inv (held(d := held d + 1)) s'"
    using assms(1) s' by (simp add: fd_inv_def)
  with s' show ?thesis by blast
qed

lemma cloexec_write_inv:
  assumes "fd_inv held s" "0 \<le> f" "nat f < ft_size (fs_table s)"
  shows "\<exists>s'. cloexec_write f v s = Some s' \<and> fd_inv held s'
     \<and> fs_refs s' = fs_refs s \<and> fs_nofile s' = fs_nofile s \<and> fs_alloc s' = fs_alloc s
     \<and> fs_descs s' = fs_descs s
     \<and> ft_size (fs_table s') = ft_size (fs_table s)
     \<and> ft_files (fs_table s') = ft_files (fs_table s)
     \<and> ft_cloexec (fs_table s') = (ft_cloexec (fs_table s))[nat f := v]"
  using assms fd_inv_wf(4)[OF assms(1)]
  by (auto simp: cloexec_write_def bit_write_def fd_inv_def table_wf_def fd_refs_def)

subsection \<open>Growing the table\<close>

lemma fdtable_resize_ok:
  assumes "table_wf t" "ft_size t < n" "n < 2 ^ 31"
  shows "fdtable_resize True t n = Some (0, \<lparr>ft_size = n,
      ft_files = ft_files t @ replicate (n - ft_size t) None,
      ft_cloexec = ft_cloexec t @ replicate (bits_size n - bits_size (ft_size t)) False\<rparr>)"
    "table_wf \<lparr>ft_size = n, ft_files = ft_files t @ replicate (n - ft_size t) None,
      ft_cloexec = ft_cloexec t @ replicate (bits_size n - bits_size (ft_size t)) False\<rparr>"
  using assms bits_size_mono[of "ft_size t" n] by (auto simp: fdtable_resize_def table_wf_def)

text \<open>What expanding preserves: every entry and its close-on-exec bit, and new entries are empty.\<close>

definition cloexec_of :: "fdtable \<Rightarrow> int \<Rightarrow> bool" where
  "cloexec_of t f \<longleftrightarrow> 0 \<le> f \<and> nat f < length (ft_cloexec t) \<and> ft_cloexec t ! nat f"

definition same_entries :: "fdtable \<Rightarrow> fdtable \<Rightarrow> bool" where
  "same_entries t t' \<longleftrightarrow> (\<forall>f. fdtable_get t' f = fdtable_get t f) \<and> (\<forall>f. cloexec_of t' f = cloexec_of t f)"

lemma cloexec_extend:
  "cloexec_of \<lparr>ft_size = n, ft_files = fs, ft_cloexec = ft_cloexec t @ replicate k False\<rparr> f = cloexec_of t f"
  by (auto simp: cloexec_of_def nth_append)

lemma fdtable_get_extend:
  assumes "length (ft_files t) = ft_size t" "ft_size t \<le> n"
  shows "fdtable_get \<lparr>ft_size = n, ft_files = ft_files t @ replicate (n - ft_size t) None, ft_cloexec = c\<rparr> f
    = fdtable_get t f"
  using assms by (auto simp: fdtable_get_def nth_append)

lemma fdtable_expand_inv:
  assumes inv: "fd_inv held s" and f: "0 \<le> f" "f < 2 ^ 31"
  shows "\<exists>err s'. fdtable_expand s f = Some (err, s') \<and> fd_inv held s'
     \<and> fs_descs s' = fs_descs s \<and> fs_refs s' = fs_refs s \<and> fs_nofile s' = fs_nofile s
     \<and> fs_alloc s' = fs_alloc s \<and> same_entries (fs_table s) (fs_table s')
     \<and> (err = EMFILE \<and> s' = s \<and> fs_nofile s \<le> nat f
        \<or> err = ENOMEM \<and> s' = s \<and> \<not> fs_alloc s
        \<or> err = 0 \<and> nat f < ft_size (fs_table s') \<and> nat f < fs_nofile s)"
proof -
  note W = fd_inv_wf[OF inv]
  define n where "n = nat f + 1"
  have n: "nat ((f + 1) mod 2 ^ 32) = n" using f by (simp add: n_def)
  have nlt: "n < 2 ^ 31" if "n \<le> fs_nofile s" using that W(6) by linarith
  consider "n > fs_nofile s" | "n \<le> fs_nofile s" "n \<le> ft_size (fs_table s)"
    | "n \<le> fs_nofile s" "n > ft_size (fs_table s)" "\<not> fs_alloc s"
    | "n \<le> fs_nofile s" "n > ft_size (fs_table s)" "fs_alloc s" by linarith
  then show ?thesis
  proof cases
    case 1
    then show ?thesis using inv n by (auto simp: fdtable_expand_def n_def same_entries_def)
  next
    case 2
    then show ?thesis using inv n by (auto simp: fdtable_expand_def n_def same_entries_def)
  next
    case 3
    then show ?thesis
      using inv n by (auto simp: fdtable_expand_def fdtable_resize_def n_def same_entries_def)
  next
    case 4
    define t where "t = fs_table s"
    define t' where "t' = \<lparr>ft_size = n, ft_files = ft_files t @ replicate (n - ft_size t) None,
      ft_cloexec = ft_cloexec t @ replicate (bits_size n - bits_size (ft_size t)) False\<rparr>"
    have r: "fdtable_resize True t n = Some (0, t')" "table_wf t'"
      using fdtable_resize_ok[of t n] W(1) 4 nlt by (simp_all add: t_def t'_def)
    have "fd_refs (s\<lparr>fs_table := t'\<rparr>) d = fd_refs s d" for d
      by (simp add: fd_refs_def t'_def t_def count_list_replicate_other)
    then have "fd_inv held (s\<lparr>fs_table := t'\<rparr>)" using inv r(2) by (simp add: fd_inv_def)
    moreover have "same_entries t t'"
      using fdtable_get_extend[of t n] W(3) 4 cloexec_extend by (simp add: same_entries_def t'_def t_def)
    ultimately show ?thesis
      using r(1) 4 n by (auto simp: fdtable_expand_def t_def n_def t'_def)
  qed
qed

subsection \<open>Looking up and closing\<close>

lemma syscall_ref_hold_inv:
  assumes inv: "fd_inv held s" and d: "0 < fd_refs s d + held d"
  shows "\<exists>b s'. syscall_ref_hold d s = Some (b, s') \<and> fd_inv held s'
     \<and> fs_table s' = fs_table s \<and> fs_nofile s' = fs_nofile s \<and> fs_alloc s' = fs_alloc s
     \<and> (b \<longrightarrow> d \<in> set (fs_refs s')) \<and> (fs_alloc s \<longrightarrow> b) \<and> dom (fs_descs s') = dom (fs_descs s)"
proof -
  consider "d \<in> set (fs_refs s)" | "d \<notin> set (fs_refs s)" "\<not> fs_alloc s"
    | "d \<notin> set (fs_refs s)" "fs_alloc s" by blast
  then show ?thesis
  proof cases
    case 3
    obtain s1 where s1: "fd_retain d s = Some s1" "fd_inv (held(d := held d + 1)) s1"
        "fs_table s1 = fs_table s" "fs_refs s1 = fs_refs s" "fs_nofile s1 = fs_nofile s"
        "fs_alloc s1 = fs_alloc s" "dom (fs_descs s1) = dom (fs_descs s)"
      using fd_retain_inv[OF inv d] by blast
    define s' where "s' = s1\<lparr>fs_refs := fs_refs s1 @ [d]\<rparr>"
    have "fd_refs s' e + held e = fd_refs s1 e + (held(d := held d + 1)) e" for e
      by (simp add: s'_def fd_refs_def)
    then have "fd_inv held s'" using s1(2) by (simp add: fd_inv_def s'_def)
    then show ?thesis using s1 3 by (auto simp: syscall_ref_hold_def s'_def)
  qed (use inv in \<open>auto simp: syscall_ref_hold_def\<close>)
qed

lemma f_get_inv:
  assumes inv: "fd_inv held s"
  shows "\<exists>r s'. f_get f s = Some (r, s') \<and> fd_inv held s'
     \<and> fs_table s' = fs_table s \<and> fs_nofile s' = fs_nofile s \<and> fs_alloc s' = fs_alloc s
     \<and> (r \<noteq> None \<longrightarrow> r = fdtable_get (fs_table s) f)
     \<and> (fs_alloc s \<longrightarrow> r = fdtable_get (fs_table s) f)"
proof (cases "fdtable_get (fs_table s) f")
  case None
  then show ?thesis using inv by (auto simp: f_get_def)
next
  case (Some d)
  obtain b s' where "syscall_ref_hold d s = Some (b, s')" "fd_inv held s'"
      "fs_table s' = fs_table s" "fs_nofile s' = fs_nofile s" "fs_alloc s' = fs_alloc s"
      "fs_alloc s \<longrightarrow> b"
    using syscall_ref_hold_inv[OF inv, of d] table_entry_live(1)[OF inv Some] by auto
  then show ?thesis using Some by (auto simp: f_get_def)
qed

text \<open>
  The C code closes the description while the table still points at it. Clearing the slot
  first gives the same state, and keeps the invariant at every step.
\<close>

lemma fd_close_table:
  "fd_close d (s\<lparr>fs_table := t\<rparr>) = map_option (\<lambda>(r, s'). (r, s'\<lparr>fs_table := t\<rparr>)) (fd_close d s)"
  by (cases "fs_descs s d") (simp_all add: fd_close_def)

lemma fd_close_keeps_table: "fd_close d s = Some (r, s') \<Longrightarrow> fs_table s' = fs_table s"
  by (cases "fs_descs s d") (auto simp: fd_close_def split: if_splits)

lemma fd_inv_locks [simp]: "fd_inv held (s\<lparr>fs_locks := l\<rparr>) = fd_inv held s"
  by (simp add: fd_inv_def fd_refs_def)

definition clear_entry :: "fdtable \<Rightarrow> int \<Rightarrow> fdtable" where
  "clear_entry t f =
     t\<lparr>ft_files := (ft_files t)[nat f := None], ft_cloexec := (ft_cloexec t)[nat f := False]\<rparr>"

lemma fdtable_close_inv:
  assumes inv: "fd_inv held s" and g: "fdtable_get (fs_table s) f = Some d"
  shows "\<exists>err s'. fdtable_close f s = Some (err, s') \<and> fd_inv held s'
     \<and> fs_refs s' = fs_refs s \<and> fs_nofile s' = fs_nofile s \<and> fs_alloc s' = fs_alloc s
     \<and> fs_table s' = clear_entry (fs_table s) f
     \<and> (fs_descs s' d = None \<longleftrightarrow> fd_refs s d + held d = 1)"
proof -
  note T = table_entry_live[OF inv g]
  note W = fd_inv_wf[OF inv]
  obtain fd where fd: "fs_descs s d = Some fd" using fd_inv_desc[OF inv, of d] T(1) by auto
  define s1 where "s1 = (case fd_inode fd of None \<Rightarrow> s
      | Some i \<Rightarrow> s\<lparr>fs_locks := (fs_locks s)(i := file_lock_remove_owned_by (fs_locks s i) (fs_table_id s))\<rparr>)"
  have e1: "fs_table s1 = fs_table s" "fs_refs s1 = fs_refs s" "fs_nofile s1 = fs_nofile s"
      "fs_alloc s1 = fs_alloc s" "fs_descs s1 = fs_descs s"
    by (simp_all add: s1_def split: option.splits)
  then have i1: "fd_inv held s1" using inv by (simp add: fd_inv_def fd_refs_def)
  obtain sa where sa: "table_store f None s1 = Some sa" "fd_inv (held(d := held d + 1)) sa"
      "fs_refs sa = fs_refs s1" "fs_nofile sa = fs_nofile s1" "fs_alloc sa = fs_alloc s1"
      "ft_size (fs_table sa) = ft_size (fs_table s1)"
      "ft_cloexec (fs_table sa) = ft_cloexec (fs_table s1)"
      "ft_files (fs_table sa) = (ft_files (fs_table s1))[nat f := None]" "fs_descs sa = fs_descs s1"
    using table_clear_inv[OF i1, of f d] g e1 by auto
  have fsa: "nat f < ft_size (fs_table sa)" using sa e1 T by simp
  obtain sb where sb: "cloexec_write f False sa = Some sb" "fd_inv (held(d := held d + 1)) sb"
      "fs_refs sb = fs_refs sa" "fs_nofile sb = fs_nofile sa" "fs_alloc sb = fs_alloc sa"
      "fs_descs sb = fs_descs sa"
      "ft_size (fs_table sb) = ft_size (fs_table sa)"
      "ft_files (fs_table sb) = ft_files (fs_table sa)"
      "ft_cloexec (fs_table sb) = (ft_cloexec (fs_table sa))[nat f := False]"
    using cloexec_write_inv[OF sa(2) T(2) fsa, of False] by auto
  have tb: "fs_table sb = clear_entry (fs_table s) f"
    using sa sb e1 by (simp add: clear_entry_def)
  have sbt: "sb = s1\<lparr>fs_table := clear_entry (fs_table s) f\<rparr>"
    using sa(1) sb(1) tb e1
    by (auto simp: table_store_def cloexec_write_def bit_write_def split: if_splits)
  have "0 < (held(d := held d + 1)) d" by simp
  from fd_close_inv[OF sb(2) this] obtain r sc where sc0: "fd_close d sb = Some (r, sc)"
      "fd_inv ((held(d := held d + 1))(d := (held(d := held d + 1)) d - 1)) sc"
      "fs_table sc = fs_table sb" "fs_refs sc = fs_refs sb" "fs_nofile sc = fs_nofile sb"
      "fs_alloc sc = fs_alloc sb"
      "fs_descs sc d = None \<longleftrightarrow> fd_refs sb d + (held(d := held d + 1)) d = 1"
    by (elim exE conjE) (erule that, assumption+)
  then have sc: "fd_close d sb = Some (r, sc)" "fd_inv held sc"
      "fs_table sc = fs_table sb" "fs_refs sc = fs_refs sb" "fs_nofile sc = fs_nofile sb"
      "fs_alloc sc = fs_alloc sb" "fs_descs sc d = None \<longleftrightarrow> fd_refs sb d + held d = 0"
    by simp_all
  obtain s2 where s2: "fd_close d s1 = Some (r, s2)" "sc = s2\<lparr>fs_table := clear_entry (fs_table s) f\<rparr>"
    using sc(1) unfolding sbt fd_close_table by (cases "fd_close d s1") auto
  have st: "fs_table s2 = fs_table s" using fd_close_keeps_table[OF s2(1)] e1 by simp
  have "table_store f None s2 = Some (s2\<lparr>fs_table := (fs_table s)\<lparr>ft_files := (ft_files (fs_table s))[nat f := None]\<rparr>\<rparr>)"
    using T W st by (simp add: table_store_def)
  then have "fdtable_close f s = Some (r, sc)"
    using g fd s2 T W st
    by (simp add: fdtable_close_def s1_def[symmetric] cloexec_write_def bit_write_def clear_entry_def)
  moreover have "fd_refs sb d + 1 = fd_refs s d"
    using count_list_update[of "nat f" "ft_files (fs_table s)" None "Some d"] T W sa sb e1
    by (simp add: fd_refs_def)
  ultimately show ?thesis using sc sb sa e1 tb by auto
qed

subsection \<open>Installing a description\<close>

lemma first_free_spec:
  "f \<le> first_free files f n \<and> (first_free files f n < n \<longrightarrow> files ! first_free files f n = None)
   \<and> (\<forall>k. f \<le> k \<and> k < first_free files f n \<longrightarrow> k < n \<and> files ! k \<noteq> None)
   \<and> first_free files f n \<le> max f n"
proof (induction files f n rule: first_free.induct)
  case (1 files f n)
  show ?case
  proof (cases "f < n \<and> files ! f \<noteq> None")
    case True
    note IH = "1.IH"[OF True]
    have e: "first_free files f n = first_free files (Suc f) n" using True by (subst first_free.simps) simp
    have "k < n \<and> files ! k \<noteq> None" if "f \<le> k" "k < first_free files (Suc f) n" for k
      using that IH True by (cases "k = f") auto
    with IH e show ?thesis using True by auto
  next
    case False
    then have "first_free files f n = f" by (subst first_free.simps) (simp only: False if_False)
    with False show ?thesis by auto
  qed
qed

text \<open>Storing a description under a free number, as the last steps of an install do.\<close>

definition put_entry :: "fdtable \<Rightarrow> int \<Rightarrow> fd_id \<Rightarrow> bool \<Rightarrow> fdtable" where
  "put_entry t f d c =
     t\<lparr>ft_files := (ft_files t)[nat f := Some d], ft_cloexec := (ft_cloexec t)[nat f := c]\<rparr>"

lemma fdtable_get_put:
  assumes "length (ft_files t) = ft_size t" "0 \<le> f" "nat f < ft_size t"
  shows "fdtable_get (put_entry t f d c) g = (if g = f then Some d else fdtable_get t g)"
proof (cases "g < 0")
  case False
  with assms(2) have "nat f = nat g \<longleftrightarrow> g = f" by auto
  with assms False show ?thesis by (auto simp: fdtable_get_def put_entry_def nth_list_update)
qed (use assms(2) in \<open>simp add: fdtable_get_def\<close>)

lemma cloexec_put:
  assumes "0 \<le> f" "nat f < length (ft_cloexec t)"
  shows "cloexec_of (put_entry t f d c) g = (if g = f then c else cloexec_of t g)"
proof (cases "g < 0")
  case False
  with assms(1) have "nat f = nat g \<longleftrightarrow> g = f" by auto
  with assms False show ?thesis by (auto simp: cloexec_of_def put_entry_def nth_list_update)
qed (use assms(1) in \<open>auto simp: cloexec_of_def\<close>)

lemma fdtable_get_clear:
  assumes "length (ft_files t) = ft_size t" "0 \<le> f"
  shows "fdtable_get (clear_entry t f) g = (if g = f then None else fdtable_get t g)"
proof (cases "g < 0")
  case False
  with assms(2) have "nat f = nat g \<longleftrightarrow> g = f" by auto
  with assms False show ?thesis by (auto simp: fdtable_get_def clear_entry_def nth_list_update)
qed (use assms(2) in \<open>simp add: fdtable_get_def\<close>)

lemma store_and_flag:
  assumes inv: "fd_inv held s" and f: "0 \<le> f" "nat f < ft_size (fs_table s)"
    and free: "fdtable_get (fs_table s) f = None" and d: "0 < held d"
  shows "\<exists>s2 s3. table_store f (Some d) s = Some s2 \<and> cloexec_write f c s2 = Some s3
     \<and> fd_inv (held(d := held d - 1)) s3 \<and> fs_refs s3 = fs_refs s \<and> fs_nofile s3 = fs_nofile s
     \<and> fs_alloc s3 = fs_alloc s \<and> fs_table s3 = put_entry (fs_table s) f d c
     \<and> fs_descs s3 = fs_descs s"
proof -
  have "ft_files (fs_table s) ! nat f = None" using f free by (simp add: fdtable_get_def)
  from table_put_inv[OF inv f this d] obtain s2 where s2: "table_store f (Some d) s = Some s2"
      "fd_inv (held(d := held d - 1)) s2" "fs_refs s2 = fs_refs s" "fs_nofile s2 = fs_nofile s"
      "fs_alloc s2 = fs_alloc s" "ft_size (fs_table s2) = ft_size (fs_table s)"
      "ft_cloexec (fs_table s2) = ft_cloexec (fs_table s)"
      "ft_files (fs_table s2) = (ft_files (fs_table s))[nat f := Some d]"
      "fs_descs s2 = fs_descs s"
    by blast
  from cloexec_write_inv[OF s2(2) f(1), of c] f(2) s2(6) obtain s3 where
      "cloexec_write f c s2 = Some s3" "fd_inv (held(d := held d - 1)) s3" "fs_refs s3 = fs_refs s2"
      "fs_nofile s3 = fs_nofile s2" "fs_alloc s3 = fs_alloc s2" "fs_descs s3 = fs_descs s2"
      "ft_size (fs_table s3) = ft_size (fs_table s2)"
      "ft_files (fs_table s3) = ft_files (fs_table s2)"
      "ft_cloexec (fs_table s3) = (ft_cloexec (fs_table s2))[nat f := c]"
    by auto
  then show ?thesis using s2 by (auto simp: put_entry_def)
qed

text \<open>
  Installing takes over the caller's reference. On success the number is the least free one
  not below \<open>start\<close>; when no number below the limit is free, or memory is short, the reference is dropped and the
  table is as it was.
\<close>

lemma f_install_start_inv:
  assumes inv: "fd_inv held s" and d: "0 < held d" and st: "0 \<le> start" "start < 2 ^ 31"
  shows "\<exists>r s'. f_install_start d start s = Some (r, s') \<and> fd_inv (held(d := held d - 1)) s'
     \<and> fs_refs s' = fs_refs s \<and> fs_nofile s' = fs_nofile s \<and> fs_alloc s' = fs_alloc s
     \<and> (0 \<le> r \<and> start \<le> r \<and> nat r < ft_size (fs_table s')
          \<and> fdtable_get (fs_table s) r = None
          \<and> (\<forall>k. start \<le> k \<and> k < r \<longrightarrow> fdtable_get (fs_table s) k \<noteq> None)
          \<and> (\<forall>g. fdtable_get (fs_table s') g = (if g = r then Some d else fdtable_get (fs_table s) g))
          \<and> (\<forall>g. cloexec_of (fs_table s') g = (g \<noteq> r \<and> cloexec_of (fs_table s) g))
        \<or> (r = EMFILE \<and> (\<forall>k. start \<le> k \<and> k < int (fs_nofile s) \<longrightarrow> fdtable_get (fs_table s) k \<noteq> None)
            \<or> r = ENOMEM \<and> \<not> fs_alloc s) \<and> fs_table s' = fs_table s)"
proof -
  note W = fd_inv_wf[OF inv]
  define n where "n = min (fs_nofile s) (ft_size (fs_table s))"
  define f where "f = first_free (ft_files (fs_table s)) (nat start) n"
  have nof: "fs_nofile s mod 2 ^ 32 = fs_nofile s" using W(6) by simp
  note F = first_free_spec[of "nat start" "ft_files (fs_table s)" n, folded f_def]
  have used: "fdtable_get (fs_table s) k \<noteq> None" if "start \<le> k" "k < int f" for k
  proof -
    have "nat start \<le> nat k" "nat k < f" using that st by auto
    then have "nat k < n" "ft_files (fs_table s) ! nat k \<noteq> None" using F by auto
    then show ?thesis using that st by (auto simp: fdtable_get_def n_def)
  qed
  have f31: "int f < 2 ^ 31" using F st W(5) by (auto simp: max_def n_def split: if_splits)
  define ex where "ex = (if f \<ge> n then do {
      (err, s') \<leftarrow> fdtable_expand s (int f); Some (if err < 0 then err else int f, s') }
    else Some (int f, s))"
  have unfold: "f_install_start d start s = do {
      (r, s1) \<leftarrow> ex;
      if r \<ge> 0 then do { s2 \<leftarrow> table_store r (Some d) s1; s3 \<leftarrow> cloexec_write r False s2; Some (r, s3) }
      else do { (_, s2) \<leftarrow> fd_close d s1; Some (r, s2) } }"
    unfolding f_install_start_def Let_def nof n_def[symmetric] f_def[symmetric] ex_def
    using st(1) by simp
  define err where "err r \<longleftrightarrow>
      r = EMFILE \<and> (\<forall>k. start \<le> k \<and> k < int (fs_nofile s) \<longrightarrow> fdtable_get (fs_table s) k \<noteq> None)
      \<or> r = ENOMEM \<and> \<not> fs_alloc s" for r
  have full: "\<forall>k. start \<le> k \<and> k < int (fs_nofile s) \<longrightarrow> fdtable_get (fs_table s) k \<noteq> None" if "fs_nofile s \<le> f"
    using used that by auto
  have "\<exists>r s1. ex = Some (r, s1) \<and> fd_inv held s1 \<and> fs_refs s1 = fs_refs s
     \<and> fs_nofile s1 = fs_nofile s \<and> fs_alloc s1 = fs_alloc s
     \<and> same_entries (fs_table s) (fs_table s1)
     \<and> (r = int f \<and> f < ft_size (fs_table s1) \<and> fdtable_get (fs_table s) r = None
        \<or> err r \<and> s1 = s)"
  proof (cases "f < n")
    case True
    then have "f < ft_size (fs_table s)" "fdtable_get (fs_table s) (int f) = None"
      using F by (auto simp: n_def fdtable_get_def)
    then show ?thesis using True inv by (auto simp: ex_def same_entries_def)
  next
    case False
    have free: "fdtable_get (fs_table s) (int f) = None" if "f < fs_nofile s"
      using that False by (simp add: fdtable_get_def n_def)
    obtain er s1 where s1: "fdtable_expand s (int f) = Some (er, s1)" "fd_inv held s1"
        "fs_refs s1 = fs_refs s" "fs_nofile s1 = fs_nofile s" "fs_alloc s1 = fs_alloc s"
        "same_entries (fs_table s) (fs_table s1)"
        "er = EMFILE \<and> s1 = s \<and> fs_nofile s \<le> f \<or> er = ENOMEM \<and> s1 = s \<and> \<not> fs_alloc s
          \<or> er = 0 \<and> f < ft_size (fs_table s1) \<and> f < fs_nofile s"
      using fdtable_expand_inv[OF inv _ f31] by auto
    then show ?thesis using False free full by (auto simp: ex_def err_def)
  qed
  then obtain r s1 where s1: "ex = Some (r, s1)" "fd_inv held s1" "fs_refs s1 = fs_refs s"
      "fs_nofile s1 = fs_nofile s" "fs_alloc s1 = fs_alloc s"
      "same_entries (fs_table s) (fs_table s1)"
      and c: "r = int f \<and> f < ft_size (fs_table s1) \<and> fdtable_get (fs_table s) r = None
        \<or> err r \<and> s1 = s"
    by blast
  from c show ?thesis
  proof
    assume r: "r = int f \<and> f < ft_size (fs_table s1) \<and> fdtable_get (fs_table s) r = None"
    then have "fdtable_get (fs_table s1) r = None"
      using s1(6) unfolding same_entries_def by metis
    with store_and_flag[OF s1(2), of r d False] r d obtain s2 s3 where
        s3: "table_store r (Some d) s1 = Some s2" "cloexec_write r False s2 = Some s3"
        "fd_inv (held(d := held d - 1)) s3" "fs_refs s3 = fs_refs s1" "fs_nofile s3 = fs_nofile s1"
        "fs_alloc s3 = fs_alloc s1" "fs_table s3 = put_entry (fs_table s1) r d False"
      by auto
    have "fdtable_get (fs_table s3) g = (if g = r then Some d else fdtable_get (fs_table s) g)" for g
      using fdtable_get_put[OF fd_inv_wf(3)[OF s1(2)]] r s1(6) s3(7) by (simp add: same_entries_def)
    moreover have "nat r < length (ft_cloexec (fs_table s1))"
      using r fd_inv_wf(4)[OF s1(2)] by auto
    then have "cloexec_of (fs_table s3) g = (g \<noteq> r \<and> cloexec_of (fs_table s) g)" for g
      using cloexec_put[of r "fs_table s1" d False g] r s1(6) s3(7) by (auto simp: same_entries_def)
    moreover have "nat r < ft_size (fs_table s3)" using s3(7) r by (simp add: put_entry_def)
    ultimately show ?thesis
      using r s1 s3 used F st by (auto simp: unfold)
  next
    assume r: "err r \<and> s1 = s"
    then have neg: "\<not> 0 \<le> r" by (auto simp: err_def)
    from fd_close_inv[OF inv d] obtain x s2 where "fd_close d s = Some (x, s2)"
        "fd_inv (held(d := held d - 1)) s2" "fs_table s2 = fs_table s" "fs_refs s2 = fs_refs s"
        "fs_nofile s2 = fs_nofile s" "fs_alloc s2 = fs_alloc s" by blast
    then show ?thesis using r s1 neg by (auto simp: unfold err_def)
  qed
qed

lemma fd_setflags_inv:
  assumes inv: "fd_inv held s" and d: "0 < fd_refs s d + held d"
  shows "\<exists>r s'. fd_setflags d fl s = Some (r, s') \<and> fd_inv held s'
     \<and> fs_table s' = fs_table s \<and> fs_refs s' = fs_refs s"
proof -
  obtain fd where fd: "fs_descs s d = Some fd" "fd_refcount fd = fd_refs s d + held d"
    using fd_inv_desc[OF assms] by blast
  show ?thesis
  proof (cases "fd_ops_setflags fd")
    case None
    define x where "x = fd\<lparr>fd_flags := (fd_flags fd AND NOT (O_APPEND OR O_NONBLOCK))
      OR (fl AND (O_APPEND OR O_NONBLOCK))\<rparr>"
    have "fd_inv (held(d := held d)) (s\<lparr>fs_descs := (fs_descs s)(d \<mapsto> x)\<rparr>)"
      using fd d by (intro fd_inv_update[OF inv]) (simp add: counted_def x_def)
    then show ?thesis using fd None by (auto simp: fd_setflags_def Let_def x_def)
  qed (use fd inv in \<open>auto simp: fd_setflags_def\<close>)
qed

lemma f_install_inv:
  assumes inv: "fd_inv held s" and d: "0 < held d"
  shows "\<exists>r s'. f_install d flags s = Some (r, s') \<and> fd_inv (held(d := held d - 1)) s'"
proof -
  obtain r s1 where s1: "f_install_start d 0 s = Some (r, s1)" "fd_inv (held(d := held d - 1)) s1"
      and c: "0 \<le> r \<and> nat r < ft_size (fs_table s1) \<and> fdtable_get (fs_table s1) r = Some d
        \<or> (r = EMFILE \<or> r = ENOMEM)"
    using f_install_start_inv[OF inv d, of 0] by fastforce
  from c show ?thesis
  proof
    assume r: "0 \<le> r \<and> nat r < ft_size (fs_table s1) \<and> fdtable_get (fs_table s1) r = Some d"
    obtain s2 where s2: "(if flags AND O_CLOEXEC \<noteq> 0 then cloexec_write r True s1 else Some s1) = Some s2"
        "fd_inv (held(d := held d - 1)) s2" "ft_size (fs_table s2) = ft_size (fs_table s1)"
        "ft_files (fs_table s2) = ft_files (fs_table s1)"
      using cloexec_write_inv[OF s1(2), of r True] r s1(2) by (cases "flags AND O_CLOEXEC \<noteq> 0") auto
    have "fdtable_get (fs_table s2) r = Some d" using r s2(3,4) by (auto simp: fdtable_get_def split: if_splits)
    then have "0 < fd_refs s2 d" by (rule table_entry_live(1)[OF s2(2)])
    then have live: "0 < fd_refs s2 d + (held(d := held d - 1)) d" by simp
    have "\<exists>s3. (if flags AND O_NONBLOCK \<noteq> 0 then map_option snd (fd_setflags d O_NONBLOCK s2)
        else Some s2) = Some s3 \<and> fd_inv (held(d := held d - 1)) s3"
    proof (cases "flags AND O_NONBLOCK \<noteq> 0")
      case True
      obtain x s3 where "fd_setflags d O_NONBLOCK s2 = Some (x, s3)" "fd_inv (held(d := held d - 1)) s3"
        using fd_setflags_inv[OF s2(2) live, of O_NONBLOCK] by blast
      then show ?thesis using True by simp
    qed (use s2(2) in simp)
    then show ?thesis using s1(1) s2(1) r by (auto simp: f_install_def)
  next
    assume "r = EMFILE \<or> r = ENOMEM"
    then show ?thesis using s1 by (auto simp: f_install_def)
  qed
qed

subsection \<open>The system calls preserve the invariant\<close>

text \<open>What a lookup gives its caller: the entry of the table, held until the call ends.\<close>

lemma f_get_live:
  assumes inv: "fd_inv held s" and g: "f_get f s = Some (Some d, s1)"
  shows "fd_inv held s1" "fs_table s1 = fs_table s" "fdtable_get (fs_table s) f = Some d"
    "0 < fd_refs s1 d" "d \<in> set (fs_refs s1)"
    "0 \<le> f" "nat f < ft_size (fs_table s1)" "fs_nofile s1 = fs_nofile s" "fs_alloc s1 = fs_alloc s"
proof -
  from f_get_inv[OF inv, of f] g
  show r: "fd_inv held s1" "fs_table s1 = fs_table s" "fdtable_get (fs_table s) f = Some d"
    "fs_nofile s1 = fs_nofile s" "fs_alloc s1 = fs_alloc s"
    by auto
  then have "fdtable_get (fs_table s1) f = Some d" by simp
  then show "0 < fd_refs s1 d" "0 \<le> f" "nat f < ft_size (fs_table s1)"
    by (rule table_entry_live[OF r(1)])+
  from g r(3) obtain b where "syscall_ref_hold d s = Some (b, s1)" "b"
    by (auto simp: f_get_def split: option.splits Option.bind_splits if_splits)
  with table_entry_live(1)[OF inv r(3)] syscall_ref_hold_inv[OF inv, of d]
  show "d \<in> set (fs_refs s1)" by auto
qed

lemma f_get_cases:
  assumes "fd_inv held s"
  obtains s1 where "f_get f s = Some (None, s1)" "fd_inv held s1" "fs_table s1 = fs_table s"
  | d s1 where "f_get f s = Some (Some d, s1)"
proof -
  obtain r s1 where "f_get f s = Some (r, s1)" "fd_inv held s1" "fs_table s1 = fs_table s"
    using f_get_inv[OF assms, of f] by auto
  then show thesis using that by (cases r) auto
qed

lemma fdtable_close_total:
  assumes "fd_inv held s"
  shows "\<exists>r s'. fdtable_close f s = Some (r, s') \<and> fd_inv held s'
     \<and> ft_size (fs_table s') = ft_size (fs_table s) \<and> fs_refs s' = fs_refs s
     \<and> fs_nofile s' = fs_nofile s
     \<and> (0 \<le> f \<longrightarrow> (\<forall>g. fdtable_get (fs_table s') g = (if g = f then None else fdtable_get (fs_table s) g)))"
proof (cases "fdtable_get (fs_table s) f")
  case None
  then show ?thesis using assms by (auto simp: fdtable_close_def)
next
  case (Some d)
  from fdtable_close_inv[OF assms Some] obtain r s' where
      "fdtable_close f s = Some (r, s')" "fd_inv held s'" "fs_refs s' = fs_refs s"
      "fs_nofile s' = fs_nofile s" "fs_table s' = clear_entry (fs_table s) f"
    by blast
  moreover have "ft_size (clear_entry (fs_table s) f) = ft_size (fs_table s)"
    by (simp add: clear_entry_def)
  ultimately show ?thesis using fdtable_get_clear[OF fd_inv_wf(3)[OF assms]] by auto
qed

lemma fd_retain_held:
  assumes "fd_inv held s" "0 < fd_refs s d + held d"
  obtains s' where "fd_retain d s = Some s'" "fd_inv (held(d := held d + 1)) s'"
    "fs_table s' = fs_table s" "fs_refs s' = fs_refs s" "fs_nofile s' = fs_nofile s"
    "fs_alloc s' = fs_alloc s"
  using fd_retain_inv[OF assms] by blast

lemma sys_dup_inv:
  assumes inv: "fd_inv held s"
  shows "\<exists>r s'. sys_dup f s = Some (r, s') \<and> fd_inv held s'"
  using inv
proof (cases rule: f_get_cases[of held s f])
  case (2 d s1)
  note L = f_get_live[OF inv 2]
  obtain s2 where s2: "fd_retain d s1 = Some s2" "fd_inv (held(d := held d + 1)) s2"
    using fd_retain_held[OF L(1)] L(4) by (metis trans_less_add1)
  from f_install_inv[OF s2(2), of d 0] show ?thesis using 2 s2(1) by (auto simp: sys_dup_def)
qed (auto simp: sys_dup_def)

lemma fcntl_dupfd_inv:
  assumes inv: "fd_inv held s" and a: "0 \<le> to_fd arg"
  shows "\<exists>r s'. fcntl_dupfd f arg s = Some (r, s') \<and> fd_inv held s'"
  using inv
proof (cases rule: f_get_cases[of held s f])
  case (2 d s1)
  note L = f_get_live[OF inv 2]
  obtain s2 where s2: "fd_retain d s1 = Some s2" "fd_inv (held(d := held d + 1)) s2"
    using fd_retain_held[OF L(1)] L(4) by (metis trans_less_add1)
  have "to_fd arg < 2 ^ 31" using sint_lt[of "ucast arg :: u32"] by (simp add: to_fd_def)
  from f_install_start_inv[OF s2(2) _ a this, of d] show ?thesis
    using 2 s2(1) by (auto simp: fcntl_dupfd_def)
qed (auto simp: fcntl_dupfd_def)

text \<open>
  \<^verbatim>\<open>dup3\<close>: on success both numbers name the description that was looked up, and every other
  number is as before.
\<close>

lemma sys_dup3_inv:
  assumes inv: "fd_inv held s" and g: "0 \<le> g" "g < 2 ^ 31"
  shows "\<exists>r s'. sys_dup3 f g flags s = Some (r, s') \<and> fd_inv held s'
     \<and> (0 \<le> r \<longrightarrow> r = g \<and> fdtable_get (fs_table s) f \<noteq> None
          \<and> (\<forall>h. fdtable_get (fs_table s') h
                = (if h = g then fdtable_get (fs_table s) f else fdtable_get (fs_table s) h))
          \<and> (flags AND O_CLOEXEC \<noteq> 0 \<longrightarrow> ft_cloexec (fs_table s') ! nat g))
     \<and> (r < 0 \<longrightarrow> (\<forall>h. fdtable_get (fs_table s') h = fdtable_get (fs_table s) h))"
  using inv
proof (cases rule: f_get_cases[of held s f])
  case (2 d s1)
  note L = f_get_live[OF inv 2]
  from fdtable_expand_inv[OF L(1) g] obtain err s2 where e: "fdtable_expand s1 g = Some (err, s2)"
      "fd_inv held s2" "fs_descs s2 = fs_descs s1" "fs_refs s2 = fs_refs s1"
      "same_entries (fs_table s1) (fs_table s2)"
      "err = EMFILE \<and> s2 = s1 \<or> err = ENOMEM \<and> s2 = s1 \<or> err = 0 \<and> nat g < ft_size (fs_table s2)"
    by blast
  show ?thesis
  proof (cases "err < 0")
    case True
    then show ?thesis using 2 e L(2) by (auto simp: sys_dup3_def same_entries_def)
  next
    case False
    with e(6) have err0: "err = 0" and lt: "nat g < ft_size (fs_table s2)" by auto
    have same: "fdtable_get (fs_table s2) h = fdtable_get (fs_table s) h" for h
      using e(5) L(2) by (simp add: same_entries_def)
    have "0 < fd_refs s2 d + held d" using L(5) e(4) by (simp add: fd_refs_def count_list_pos_iff)
    from fd_retain_held[OF e(2) this] obtain s3 where s3: "fd_retain d s2 = Some s3"
        "fd_inv (held(d := held d + 1)) s3" "fs_table s3 = fs_table s2" "fs_refs s3 = fs_refs s2" .
    from fdtable_close_total[OF s3(2), of g] g(1) obtain x s4 where s4: "f_close g s3 = Some (x, s4)"
        "fd_inv (held(d := held d + 1)) s4" "ft_size (fs_table s4) = ft_size (fs_table s3)"
        "\<forall>h. fdtable_get (fs_table s4) h = (if h = g then None else fdtable_get (fs_table s3) h)"
      by (auto simp: f_close_def)
    have lt4: "nat g < ft_size (fs_table s4)" using lt s3 s4 by simp
    have fr4: "ft_files (fs_table s4) ! nat g = None"
      using s4(4)[rule_format, of g] lt4 g(1) by (simp add: fdtable_get_def)
    from table_put_inv[OF s4(2) g(1) lt4 fr4, of d] obtain s5 where s5:
        "table_store g (Some d) s4 = Some s5" "fd_inv held s5"
        "ft_size (fs_table s5) = ft_size (fs_table s4)"
        "ft_files (fs_table s5) = (ft_files (fs_table s4))[nat g := Some d]"
      by auto
    from cloexec_write_inv[OF s5(2) g(1), of True] lt4 s5(3) obtain s6 where s6:
        "cloexec_write g True s5 = Some s6" "fd_inv held s6"
        "ft_size (fs_table s6) = ft_size (fs_table s5)"
        "ft_files (fs_table s6) = ft_files (fs_table s5)"
        "ft_cloexec (fs_table s6) = (ft_cloexec (fs_table s5))[nat g := True]"
      by auto
    define s7 where "s7 = (if flags AND O_CLOEXEC \<noteq> 0 then s6 else s5)"
    have ft7: "ft_size (fs_table s7) = ft_size (fs_table s4)"
        "ft_files (fs_table s7) = (ft_files (fs_table s4))[nat g := Some d]"
      using s5 s6 by (simp_all add: s7_def)
    have run: "sys_dup3 f g flags s = Some (g, s7)"
      using 2 e(1) False s3(1) s4(1) s5(1) s6(1) by (simp add: sys_dup3_def s7_def)
    have "fdtable_get (fs_table s7) = fdtable_get (put_entry (fs_table s4) g d False)"
      using ft7 by (intro ext) (simp add: fdtable_get_def put_entry_def)
    then have "fdtable_get (fs_table s7) h
        = (if h = g then fdtable_get (fs_table s) f else fdtable_get (fs_table s) h)" for h
      using fdtable_get_put[OF fd_inv_wf(3)[OF s4(2)] g(1) lt4] s4(4) s3(3) same L(3) by simp
    moreover have "ft_cloexec (fs_table s7) ! nat g" if "flags AND O_CLOEXEC \<noteq> 0"
      using that s6(5) fd_inv_wf(4)[OF s5(2)] s5(3) lt4 by (simp add: s7_def)
    moreover have "fd_inv held s7" using s5(2) s6(2) by (simp add: s7_def)
    ultimately show ?thesis using run g(1) L(3) by simp
  qed
qed (auto simp: sys_dup3_def)

lemma fcntl_setfd_inv:
  assumes inv: "fd_inv held s"
  shows "\<exists>r s'. fcntl_setfd f arg s = Some (r, s') \<and> fd_inv held s'"
  using inv
proof (cases rule: f_get_cases[of held s f])
  case (2 d s1)
  note L = f_get_live[OF inv 2]
  from cloexec_write_inv[OF L(1,6,7), of "arg AND 1 \<noteq> 0"] show ?thesis
    using 2 by (auto simp: fcntl_setfd_def)
qed (auto simp: fcntl_setfd_def)

lemma fcntl_getfd_inv:
  assumes inv: "fd_inv held s"
  shows "\<exists>r s'. fcntl_getfd f s = Some (r, s') \<and> fd_inv held s'"
  using inv
proof (cases rule: f_get_cases[of held s f])
  case (2 d s1)
  note L = f_get_live[OF inv 2]
  show ?thesis
    using 2 L fd_inv_wf(4)[OF L(1)] by (auto simp: fcntl_getfd_def bit_test_def)
qed (auto simp: fcntl_getfd_def)

lemma fcntl_getfl_inv:
  assumes inv: "fd_inv held s"
  shows "\<exists>r s'. fcntl_getfl f s = Some (r, s') \<and> fd_inv held s'"
  using inv
proof (cases rule: f_get_cases[of held s f])
  case (2 d s1)
  note L = f_get_live[OF inv 2]
  show ?thesis using 2 L(1) fd_inv_desc[OF L(1), of d] L(4) by (auto simp: fcntl_getfl_def)
qed (auto simp: fcntl_getfl_def)

lemma fcntl_setfl_inv:
  assumes inv: "fd_inv held s"
  shows "\<exists>r s'. fcntl_setfl f arg s = Some (r, s') \<and> fd_inv held s'"
  using inv
proof (cases rule: f_get_cases[of held s f])
  case (2 d s1)
  note L = f_get_live[OF inv 2]
  show ?thesis using 2 fd_setflags_inv[OF L(1), of d "ucast arg"] L(4) by (auto simp: fcntl_setfl_def)
qed (auto simp: fcntl_setfl_def)

lemma drain_refs_inv:
  "fd_inv (\<lambda>e. held e + count_list ds e) s \<Longrightarrow>
   \<exists>s'. drain_refs ds s = Some s' \<and> fd_inv held s' \<and> fs_table s' = fs_table s \<and> fs_refs s' = fs_refs s"
proof (induction ds arbitrary: s)
  case (Cons d ds)
  let ?h = "\<lambda>e. held e + count_list (d # ds) e"
  have "0 < ?h d" by simp
  from fd_close_inv[OF Cons.prems this] obtain r s1 where s1: "fd_close d s = Some (r, s1)"
      "fd_inv (?h(d := ?h d - 1)) s1" "fs_table s1 = fs_table s" "fs_refs s1 = fs_refs s"
    by (elim exE conjE) (erule that, assumption+)
  have "?h(d := ?h d - 1) = (\<lambda>e. held e + count_list ds e)" by auto
  with Cons.IH[of s1] s1 show ?case by auto
qed simp

lemma syscall_refs_release_inv:
  assumes "fd_inv held s"
  shows "\<exists>s'. syscall_refs_release s = Some s' \<and> fd_inv held s' \<and> fs_table s' = fs_table s \<and> fs_refs s' = []"
proof -
  have "fd_inv (\<lambda>e. held e + count_list (fs_refs s) e) (s\<lparr>fs_refs := []\<rparr>)"
    using assms by (simp add: fd_inv_def fd_refs_def ac_simps)
  from drain_refs_inv[OF this] show ?thesis by (auto simp: syscall_refs_release_def)
qed

lemma close_range_loop_inv:
  assumes "fd_inv held s" "0 \<le> f" "lst < int (ft_size (fs_table s))"
  shows "\<exists>s'. close_range_loop c f lst s = Some s' \<and> fd_inv held s'
     \<and> (\<not> c \<longrightarrow> (\<forall>h. fdtable_get (fs_table s') h
           = (if f \<le> h \<and> h \<le> lst then None else fdtable_get (fs_table s) h)))
     \<and> (c \<longrightarrow> (\<forall>h. fdtable_get (fs_table s') h = fdtable_get (fs_table s) h))"
  using assms
proof (induction c f lst s rule: close_range_loop.induct)
  case (1 c f lst s)
  note W = fd_inv_wf[OF "1.prems"(1)]
  show ?case
  proof (cases "f > lst")
    case True
    then show ?thesis using 1 by (subst close_range_loop.simps) auto
  next
    case False
    then have nf: "nat f < ft_size (fs_table s)" using "1.prems" by linarith
    then have nb: "\<not> (f < 0 \<or> nat f \<ge> length (ft_files (fs_table s)))" using "1.prems" W(3) by auto
    note step = close_range_loop.simps[of c f lst s]
    show ?thesis
    proof (cases "ft_files (fs_table s) ! nat f = None")
      case True
      then have "fdtable_get (fs_table s) f = None" by (auto simp: fdtable_get_def)
      note free = this
      from "1.IH"(1)[OF False nb True "1.prems"(1)] "1.prems" obtain s1 where s1:
          "close_range_loop c (f + 1) lst s = Some s1" "fd_inv held s1"
          "\<not> c \<longrightarrow> (\<forall>h. fdtable_get (fs_table s1) h
            = (if f + 1 \<le> h \<and> h \<le> lst then None else fdtable_get (fs_table s) h))"
          "c \<longrightarrow> (\<forall>h. fdtable_get (fs_table s1) h = fdtable_get (fs_table s) h)"
        by auto
      have "close_range_loop c f lst s = Some s1" using s1(1) False True nb unfolding step by simp
      moreover have "fdtable_get (fs_table s1) h
          = (if f \<le> h \<and> h \<le> lst then None else fdtable_get (fs_table s) h)" if "\<not> c" for h
        using s1(3) that free False by (cases "h = f") auto
      ultimately show ?thesis using s1 by blast
    next
      case used: False
      show ?thesis
      proof (cases c)
        case True
        from cloexec_write_inv[OF "1.prems"(1,2) nf, of True] obtain s1 where s1:
            "cloexec_write f True s = Some s1" "fd_inv held s1"
            "ft_size (fs_table s1) = ft_size (fs_table s)" "ft_files (fs_table s1) = ft_files (fs_table s)"
          by auto
        then have "fdtable_get (fs_table s1) h = fdtable_get (fs_table s) h" for h
          by (simp add: fdtable_get_def)
        moreover have "close_range_loop c f lst s = close_range_loop c (f + 1) lst s1"
          using False nb used True s1(1) unfolding step by auto
        ultimately show ?thesis
          using "1.IH"(2)[OF False nb used True s1(1,2)] "1.prems" s1(3) True by auto
      next
        case c: False
        from fdtable_close_total[OF "1.prems"(1), of f] obtain r s1 where s1:
            "fdtable_close f s = Some (r, s1)" "fd_inv held s1"
            "ft_size (fs_table s1) = ft_size (fs_table s)"
            "\<forall>g. fdtable_get (fs_table s1) g = (if g = f then None else fdtable_get (fs_table s) g)"
          using "1.prems"(2) by auto
        from "1.IH"(3)[OF False nb used c s1(1) refl s1(2)] "1.prems" s1 c obtain s2 where s2:
            "close_range_loop c (f + 1) lst s1 = Some s2" "fd_inv held s2"
            "\<forall>h. fdtable_get (fs_table s2) h
              = (if f + 1 \<le> h \<and> h \<le> lst then None else fdtable_get (fs_table s1) h)"
          by auto
        have "fdtable_get (fs_table s2) h
            = (if f \<le> h \<and> h \<le> lst then None else fdtable_get (fs_table s) h)" for h
          using s2(3) s1(4) False by auto
        moreover have "close_range_loop c f lst s = Some s2"
          using False nb used c s1(1) s2(1) unfolding step by auto
        ultimately show ?thesis using s2(2) c by blast
      qed
    qed
  qed
qed

lemma sys_close_range_inv:
  assumes inv: "fd_inv held s" and f: "0 \<le> sint first"
  shows "\<exists>r s'. sys_close_range first lst flags s = Some (r, s') \<and> fd_inv held s'"
proof (cases "first > lst")
  case False
  define l where "l = (if sint lst \<ge> int (ft_size (fs_table s)) then int (ft_size (fs_table s)) - 1
    else sint lst)"
  have "l < int (ft_size (fs_table s))" by (simp add: l_def)
  from close_range_loop_inv[OF inv f this, of "flags AND 4 \<noteq> 0"] False show ?thesis
    by (auto simp: sys_close_range_def Let_def l_def)
qed (use inv in \<open>auto simp: sys_close_range_def\<close>)

section \<open>A task's descriptor calls\<close>

text \<open>
  The calls of a task, one after the other; at the end of each the dispatcher drops the
  references it held (\<^verbatim>\<open>syscall_refs_drain\<close>). \<open>fd_call_hazard s c\<close>: in the state \<open>s\<close> the call \<open>c\<close> is one for
  which the code leaves its arrays. These are a negative number as the target of \<^verbatim>\<open>dup3\<close> or as the start of
  \<^verbatim>\<open>F_DUPFD\<close>, \<^verbatim>\<open>F_DUPFD_CLOEXEC\<close> and \<^verbatim>\<open>close_range\<close>, and an \<^verbatim>\<open>F_DUPFD_CLOEXEC\<close> that finds no free number, whose
  error number it takes for the index of a bit.
\<close>

datatype fd_call =
    CClose int
  | CDup int
  | CDup3 int u32 u32
  | CDupfd int u64
  | CDupfdCloexec int u64
  | CGetfd int
  | CSetfd int u64
  | CGetfl int
  | CSetfl int u64
  | CCloseRange u32 u32 u32

fun fd_call_body :: "fd_call \<Rightarrow> fstate \<Rightarrow> (int \<times> fstate) option" where
  "fd_call_body (CClose f) s = f_close f s"
| "fd_call_body (CDup f) s = sys_dup f s"
| "fd_call_body (CDup3 f g fl) s = sys_dup3 f (sint g) fl s"
| "fd_call_body (CDupfd f a) s = fcntl_dupfd f a s"
| "fd_call_body (CDupfdCloexec f a) s = fcntl_dupfd_cloexec f a s"
| "fd_call_body (CGetfd f) s = fcntl_getfd f s"
| "fd_call_body (CSetfd f a) s = fcntl_setfd f a s"
| "fd_call_body (CGetfl f) s = fcntl_getfl f s"
| "fd_call_body (CSetfl f a) s = fcntl_setfl f a s"
| "fd_call_body (CCloseRange a b fl) s = sys_close_range a b fl s"

definition fd_call_run :: "fstate \<Rightarrow> fd_call \<Rightarrow> fstate option" where
  "fd_call_run s c = do { (_, s1) \<leftarrow> fd_call_body c s; syscall_refs_release s1 }"

definition no_free_number :: "fstate \<Rightarrow> int \<Rightarrow> bool" where
  "no_free_number s start \<longleftrightarrow>
     (\<forall>k. start \<le> k \<and> k < int (fs_nofile s) \<longrightarrow> fdtable_get (fs_table s) k \<noteq> None)"

fun fd_call_hazard :: "fstate \<Rightarrow> fd_call \<Rightarrow> bool" where
  "fd_call_hazard s (CDup3 f g fl) = (sint g < 0)"
| "fd_call_hazard s (CDupfd f a) = (to_fd a < 0)"
| "fd_call_hazard s (CDupfdCloexec f a) =
     (to_fd a < 0 \<or> (fdtable_get (fs_table s) f \<noteq> None \<and> no_free_number s (to_fd a)))"
| "fd_call_hazard s (CCloseRange a b fl) = (sint a < 0)"
| "fd_call_hazard s _ = False"

definition fds_ok :: "fstate \<Rightarrow> bool" where
  "fds_ok s \<longleftrightarrow> fd_inv (\<lambda>_. 0) s \<and> fs_refs s = []"

lemma to_fd_less: "to_fd a < 2 ^ 31"
  using sint_lt[of "ucast a :: u32"] by (simp add: to_fd_def)

lemma fcntl_dupfd_cloexec_inv:
  assumes inv: "fd_inv held s" and a: "0 \<le> to_fd arg" and e: "fs_refs s = []"
    and r: "fdtable_get (fs_table s) f = None \<or> \<not> no_free_number s (to_fd arg)"
  shows "\<exists>r s'. fcntl_dupfd_cloexec f arg s = Some (r, s') \<and> fd_inv held s'"
  using inv
proof (cases rule: f_get_cases[of held s f])
  case (2 d s1)
  note L = f_get_live[OF inv 2]
  have al: "fs_alloc s1"
    using 2 e L(9) by (auto simp: f_get_def syscall_ref_hold_def split: option.splits Option.bind_splits if_splits)
  obtain s2 where s2: "fd_retain d s1 = Some s2" "fd_inv (held(d := held d + 1)) s2" "fs_table s2 = fs_table s1"
      "fs_nofile s2 = fs_nofile s1" "fs_alloc s2 = fs_alloc s1"
    using fd_retain_held[OF L(1)] L(4) by (metis trans_less_add1)
  obtain r s3 where s3: "f_install_start d (to_fd arg) s2 = Some (r, s3)" "fd_inv held s3"
      and c: "0 \<le> r \<and> nat r < ft_size (fs_table s3)
        \<or> r = EMFILE \<and> no_free_number s2 (to_fd arg) \<or> r = ENOMEM \<and> \<not> fs_alloc s2"
    using f_install_start_inv[OF s2(2) _ a to_fd_less, of d] by (auto simp: no_free_number_def)
  have "\<not> no_free_number s2 (to_fd arg)" "fs_alloc s2"
    using r L(2,3,8) s2(3-5) al by (auto simp: no_free_number_def)
  with c have "0 \<le> r \<and> nat r < ft_size (fs_table s3)" by blast
  then obtain s4 where "cloexec_write r True s3 = Some s4" "fd_inv held s4" using cloexec_write_inv[OF s3(2)] by blast
  then show ?thesis using 2 s2(1) s3(1) by (auto simp: fcntl_dupfd_cloexec_def)
qed (auto simp: fcntl_dupfd_cloexec_def)

lemma fd_call_body_inv:
  "fd_inv held s \<Longrightarrow> fs_refs s = [] \<Longrightarrow> \<not> fd_call_hazard s c \<Longrightarrow> \<exists>r s'. fd_call_body c s = Some (r, s') \<and> fd_inv held s'"
proof (cases c)
  case (CClose f)
  assume "fd_inv held s"
  with CClose show ?thesis using fdtable_close_total[of held s f] by (auto simp: f_close_def)
next
  case (CDup3 f g fl)
  assume "fd_inv held s" "\<not> fd_call_hazard s c"
  with CDup3 show ?thesis using sys_dup3_inv[of held s "sint g" f fl] sint_lt[of g] by auto
next
  case (CDupfdCloexec f a)
  assume "fd_inv held s" "fs_refs s = []" "\<not> fd_call_hazard s c"
  with CDupfdCloexec show ?thesis using fcntl_dupfd_cloexec_inv[of held s a f] by auto
qed (auto intro: sys_dup_inv fcntl_dupfd_inv fcntl_getfd_inv fcntl_setfd_inv fcntl_getfl_inv
    fcntl_setfl_inv sys_close_range_inv)

interpretation task_fds: guarded_calls fds_ok fd_call_hazard fd_call_run
proof unfold_locales
  fix s c assume "fds_ok s" "\<not> fd_call_hazard s c"
  then obtain r s1 where "fd_call_body c s = Some (r, s1)" "fd_inv (\<lambda>_. 0) s1"
    using fd_call_body_inv[of "\<lambda>_. 0" s c] by (auto simp: fds_ok_def)
  then show "\<exists>s'. fd_call_run s c = Some s' \<and> fds_ok s'"
    using syscall_refs_release_inv by (fastforce simp: fd_call_run_def fds_ok_def)
qed

section \<open>Properties\<close>

text \<open>A table of two descriptions, used by the instances below.\<close>

definition sample_desc :: fdesc where
  "sample_desc = \<lparr>fd_refcount = 1, fd_flags = 0, fd_inode = None, fd_ops_close = 0,
     fd_mount_close = None, fd_ops_getflags = None, fd_ops_setflags = None\<rparr>"

definition sample_fds :: fstate where
  "sample_fds = \<lparr>fs_descs = [7 \<mapsto> sample_desc, 9 \<mapsto> sample_desc], fs_locks = (\<lambda>_. []),
     fs_table = \<lparr>ft_size = 3, ft_files = [Some 7, None, Some 9],
                 ft_cloexec = [False, False, True, False, False, False, False, False]\<rparr>,
     fs_table_id = 1, fs_refs = [], fs_nofile = 16, fs_alloc = True\<rparr>"

lemma sample_fds_ok: "fds_ok sample_fds"
  by (auto simp: fds_ok_def fd_inv_def sample_fds_def sample_desc_def table_wf_def bits_size_def
      fd_refs_def counted_def)

text \<open>The count of every description is the number of descriptors that name it, and it is freed when there is none.\<close>

definition counts_exact :: "fstate \<Rightarrow> bool" where
  "counts_exact s \<longleftrightarrow> (\<forall>d. map_option fd_refcount (fs_descs s d)
     = (let n = count_list (ft_files (fs_table s)) (Some d) in if n = 0 then None else Some n))"

lemma fds_ok_counts: "fds_ok s \<Longrightarrow> counts_exact s"
  using fd_invD[of "\<lambda>_. 0" s] by (simp add: counts_exact_def fds_ok_def fd_refs_def counted_def Let_def)





text \<open>
  \<^verbatim>\<open>dup2\<close> to a number in range either makes both numbers name the same description and
  changes no other number (whatever the target named is closed first), or returns an error and
  changes none. The reference counts stay exact.
\<close>

theorem dup2_same_description:
  assumes "fds_ok s" "0 \<le> g" "g < 2 ^ 31"
  shows "\<exists>r s'. sys_dup2 f g s = Some (r, s') \<and> fd_inv (\<lambda>_. 0) s'
     \<and> (0 \<le> r \<longrightarrow> r = g \<and> fdtable_get (fs_table s) f \<noteq> None
          \<and> (\<forall>h. fdtable_get (fs_table s') h
                = (if h = g then fdtable_get (fs_table s) f else fdtable_get (fs_table s) h)))
     \<and> (r < 0 \<longrightarrow> (\<forall>h. fdtable_get (fs_table s') h = fdtable_get (fs_table s) h))"
  using sys_dup3_inv[of "\<lambda>_. 0" s g f 0] assms by (auto simp: fds_ok_def sys_dup2_def)

lemma dup2_same_description_witness:
  "fds_ok sample_fds \<and> (\<exists>r s'. sys_dup2 2 0 sample_fds = Some (r, s'))"
  using dup2_same_description[OF sample_fds_ok, of 0 2] sample_fds_ok by auto

text \<open>What a run of closes leaves, as \<^verbatim>\<open>exec\<close> uses it.\<close>

lemma bit_test_in_table:
  assumes "fd_inv held s" "0 \<le> f" "nat f < ft_size (fs_table s)"
  shows "bit_test f (ft_cloexec (fs_table s)) = Some (ft_cloexec (fs_table s) ! nat f)"
  using assms fd_inv_wf(4)[OF assms(1)] by (simp add: bit_test_def)

lemma fdtable_close_cloexec:
  assumes "fd_inv held s" "fdtable_close f s = Some (r, s')" "g \<noteq> nat f"
  shows "ft_cloexec (fs_table s') ! g = ft_cloexec (fs_table s) ! g"
proof (cases "fdtable_get (fs_table s) f")
  case None
  with assms(2) show ?thesis by (simp add: fdtable_close_def)
next
  case (Some d)
  from fdtable_close_inv[OF assms(1) this] assms(2) have "fs_table s' = clear_entry (fs_table s) f" by auto
  with assms(3) show ?thesis by (simp add: clear_entry_def)
qed

lemma do_cloexec_spec:
  assumes "fd_inv held s" "distinct fs" "\<forall>f \<in> set fs. 0 \<le> f \<and> nat f < ft_size (fs_table s)"
  shows "\<exists>s'. do_cloexec fs s = Some s' \<and> fd_inv held s' \<and> fs_refs s' = fs_refs s
     \<and> (\<forall>h. fdtable_get (fs_table s') h
          = (if h \<in> set fs \<and> ft_cloexec (fs_table s) ! nat h then None else fdtable_get (fs_table s) h))"
  using assms
proof (induction fs arbitrary: s)
  case (Cons f fs)
  let ?b = "ft_cloexec (fs_table s) ! nat f"
  from fdtable_close_total[OF Cons.prems(1), of f] Cons.prems(3) obtain r s1 where s1:
      "fdtable_close f s = Some (r, s1)" "fd_inv held s1"
      "ft_size (fs_table s1) = ft_size (fs_table s)" "fs_refs s1 = fs_refs s"
      "\<forall>g. fdtable_get (fs_table s1) g = (if g = f then None else fdtable_get (fs_table s) g)"
    by auto
  define s2 where "s2 = (if ?b then s1 else s)"
  have s2: "fd_inv held s2" "ft_size (fs_table s2) = ft_size (fs_table s)" "fs_refs s2 = fs_refs s"
      "\<And>g. fdtable_get (fs_table s2) g = (if g = f \<and> ?b then None else fdtable_get (fs_table s) g)"
    using s1 Cons.prems(1) by (auto simp: s2_def)
  have cl: "ft_cloexec (fs_table s2) ! nat h = ft_cloexec (fs_table s) ! nat h" if "h \<in> set fs" for h
  proof -
    have "h \<noteq> f" "0 \<le> h" "0 \<le> f" using that Cons.prems(2,3) by auto
    then have "nat h \<noteq> nat f" by simp
    then show ?thesis using fdtable_close_cloexec[OF Cons.prems(1) s1(1)] by (simp add: s2_def)
  qed
  from Cons.IH[OF s2(1)] Cons.prems(2,3) s2(2) obtain s3 where s3: "do_cloexec fs s2 = Some s3"
      "fd_inv held s3" "fs_refs s3 = fs_refs s2"
      "\<forall>h. fdtable_get (fs_table s3) h
        = (if h \<in> set fs \<and> ft_cloexec (fs_table s2) ! nat h then None else fdtable_get (fs_table s2) h)"
    by auto
  have "bit_test f (ft_cloexec (fs_table s)) = Some ?b"
    using bit_test_in_table[OF Cons.prems(1)] Cons.prems(3) by simp
  then have "do_cloexec (f # fs) s = Some s3" using s1(1) s3(1) by (cases ?b) (simp_all add: s2_def)
  moreover have "fdtable_get (fs_table s3) h = (if h \<in> set (f # fs) \<and> ft_cloexec (fs_table s) ! nat h
      then None else fdtable_get (fs_table s) h)" for h
    using s3(4) s2(4) cl by auto
  ultimately show ?case using s3 s2 by auto
qed simp

text \<open>
  \<^verbatim>\<open>fdtable_do_cloexec\<close>, which \<^verbatim>\<open>exec\<close> runs, closes exactly the descriptors whose
  close-on-exec bit is set: every other number keeps its description, and the reference counts
  stay exact.
\<close>

theorem exec_closes_exactly_cloexec:
  assumes "fds_ok s"
  shows "\<exists>s'. fdtable_do_cloexec s = Some s' \<and> fds_ok s'
     \<and> (\<forall>h. fdtable_get (fs_table s') h
          = (if 0 \<le> h \<and> nat h < ft_size (fs_table s) \<and> ft_cloexec (fs_table s) ! nat h then None
             else fdtable_get (fs_table s) h))"
proof -
  let ?fs = "map int [0..<ft_size (fs_table s)]"
  have m: "h \<in> set ?fs \<longleftrightarrow> 0 \<le> h \<and> nat h < ft_size (fs_table s)" for h
    by (auto simp: image_iff) (metis atLeastLessThan_iff nat_0_le zero_le)
  have "distinct ?fs" by (simp add: distinct_map)
  from do_cloexec_spec[of "\<lambda>_. 0" s ?fs, OF _ this] assms m obtain s' where
      "do_cloexec ?fs s = Some s'" "fd_inv (\<lambda>_. 0) s'" "fs_refs s' = fs_refs s"
      "\<forall>h. fdtable_get (fs_table s') h
        = (if h \<in> set ?fs \<and> ft_cloexec (fs_table s) ! nat h then None else fdtable_get (fs_table s) h)"
    by (auto simp: fds_ok_def)
  then show ?thesis using assms unfolding fdtable_do_cloexec_def m fds_ok_def by auto
qed

lemma exec_closes_exactly_cloexec_witness:
  "\<exists>s'. fdtable_do_cloexec sample_fds = Some s' \<and> fds_ok s' \<and> fdtable_get (fs_table s') 2 = None
     \<and> fdtable_get (fs_table s') 0 = Some 7"
proof -
  from exec_closes_exactly_cloexec[OF sample_fds_ok] obtain s' where
    "fdtable_do_cloexec sample_fds = Some s'" "fds_ok s'"
    and h: "\<forall>h. fdtable_get (fs_table s') h
          = (if 0 \<le> h \<and> nat h < ft_size (fs_table sample_fds) \<and> ft_cloexec (fs_table sample_fds) ! nat h
             then None else fdtable_get (fs_table sample_fds) h)" by blast
  moreover have "fdtable_get (fs_table s') 2 = None" "fdtable_get (fs_table s') 0 = Some 7"
    unfolding h[rule_format] by (simp_all add: sample_fds_def fdtable_get_def)
  ultimately show ?thesis by blast
qed

section \<open>Arguments outside the ranges above\<close>

text \<open>
  On a usable table \<^verbatim>\<open>dup3(f, -1)\<close> indexes the table at -1: the size to expand to wraps to
  zero, which the table already has.
\<close>

theorem dup3_negative_out_of_bounds:
  assumes "fds_ok s" "fdtable_get (fs_table s) f = Some d" "fs_alloc s"
  shows "sys_dup3 f (- 1) flags s = None"
proof -
  have inv: "fd_inv (\<lambda>_. 0) s" using assms(1) by (simp add: fds_ok_def)
  obtain s1 where g: "f_get f s = Some (Some d, s1)"
    using f_get_inv[OF inv, of f] assms(2,3) by auto
  note L = f_get_live[OF inv g]
  obtain s2 where s2: "fd_retain d s1 = Some s2" using fd_retain_held[OF L(1), of d] L(4) by auto
  have "fdtable_expand s1 (- 1) = Some (0, s1)" by (simp add: fdtable_expand_def)
  then show ?thesis
    using g s2 by (simp add: sys_dup3_def f_close_def fdtable_close_def fdtable_get_def table_store_def)
qed

lemma dup3_negative_out_of_bounds_witness: "sys_dup3 0 (- 1) 0 sample_fds = None"
  by (rule dup3_negative_out_of_bounds[OF sample_fds_ok, of 0 7])
    (simp_all add: sample_fds_def fdtable_get_def)

text \<open>
  \<^verbatim>\<open>close_range(first, UINT_MAX, flags)\<close> succeeds and closes nothing when \<open>first\<close> is a
  non-negative descriptor number: the upper bound becomes -1 as an \<^verbatim>\<open>fd_t\<close>.
\<close>

theorem close_range_uint_max_closes_nothing:
  assumes "0 \<le> sint first"
  shows "sys_close_range first 0xFFFFFFFF flags s = Some (0, s)"
proof -
  have m: "sint (0xFFFFFFFF :: u32) = - 1" by simp
  have "(0xFFFFFFFF :: u32) = - 1" by simp
  then have "\<not> (0xFFFFFFFF :: u32) < first" by (simp only: not_less word_order.extremum)
  then show ?thesis
    using assms unfolding sys_close_range_def Let_def m
    by (simp add: close_range_loop.simps[of _ "sint first"])
qed

lemma close_range_uint_max_closes_nothing_witness:
  "sys_close_range 3 0xFFFFFFFF 0 sample_fds = Some (0, sample_fds)"
  by (rule close_range_uint_max_closes_nothing) simp

text \<open>
  Every locking command of \<^verbatim>\<open>fcntl\<close> requests a non-blocking lock: the waiting forms
  compare the command with the other family's constant.
\<close>

theorem setlkw_never_blocks: "fcntl_lock_blocking cmd \<noteq> Some True"
  by (simp add: fcntl_lock_blocking_def F_SETLK_def F_SETLKW_def F_SETLK64_def F_SETLKW64_def)

end
