(* ===== verification/Vector_Helpers.thy ===== *)
theory Vector_Helpers
  imports Ish_Prelude
begin

text \<open>
  The vector instructions that the ARM64 guest runs through C helpers
  (\<^verbatim>\<open>asbestos/guest-arm64/crypto_helpers.c\<close>): immediate shifts, table lookup, permutes and
  polynomial multiplication. A helper gets pointers into the register file, so the model is the
  file itself: 32 registers of 16 bytes, and register numbers for the pointers. A destination
  that is also a source is then the same bytes, as in the C code. \<open>None\<close> is a shift by the
  operand's width or more, which C leaves undefined.
\<close>

unbundle bit_operations_syntax

type_synonym vfile = "nat \<Rightarrow> byte list"

definition vfile_ok :: "vfile \<Rightarrow> bool" where
  "vfile_ok f \<longleftrightarrow> (\<forall>r. length (f r) = 16)"

section \<open>Lanes\<close>

text \<open>
  A lane of \<open>k\<close> bytes at index \<open>i\<close>, little endian, as the number the C code promotes it to; a
  store keeps its low \<open>k\<close> bytes.
\<close>

definition lane :: "nat \<Rightarrow> byte list \<Rightarrow> nat \<Rightarrow> int" where
  "lane k v i = le_int (take k (drop (k * i) v))"

definition set_lane :: "nat \<Rightarrow> nat \<Rightarrow> int \<Rightarrow> byte list \<Rightarrow> byte list" where
  "set_lane k i x v = take (k * i) v @ le_bytes k x @ drop (k * i + k) v"

lemma length_set_lane [simp]: "k * i + k \<le> length v \<Longrightarrow> length (set_lane k i x v) = length v"
  by (simp add: set_lane_def)

lemma take_drop_prefix:
  "m + k \<le> n \<Longrightarrow> n \<le> length v \<Longrightarrow> take k (drop m (take n v @ w)) = take k (drop m v)"
  by (simp add: drop_take)

lemma lane_set_lane:
  assumes "k * i + k \<le> length v" "k * j + k \<le> length v"
  shows "lane k (set_lane k i x v) j = (if i = j then x mod 2 ^ (8 * k) else lane k v j)"
proof -
  consider "i = j" | "i < j" | "j < i" by linarith
  then show ?thesis
  proof cases
    case 1
    then show ?thesis using assms by (simp add: lane_def set_lane_def le_int_le_bytes)
  next
    case 2
    then have "k * i + k \<le> k * j" by (metis Suc_leI mult_Suc_right mult_le_mono2 add.commute)
    then have "drop (k * j) (set_lane k i x v) = drop (k * j) v"
      using assms 2 by (simp add: set_lane_def)
    then show ?thesis using 2 by (simp add: lane_def)
  next
    case 3
    then have "k * j + k \<le> k * i" by (metis Suc_leI mult_Suc_right mult_le_mono2 add.commute)
    then have "take k (drop (k * j) (set_lane k i x v)) = take k (drop (k * j) v)"
      using assms take_drop_prefix[of "k * j" k "k * i" v] by (simp add: set_lane_def)
    then show ?thesis using 3 by (simp add: lane_def)
  qed
qed

text \<open>\<open>for (i = 0; i < cnt; i++) dst[i] = g(dst[i], src[i])\<close> on lanes of \<open>k\<close> bytes.\<close>

definition lane_step :: "nat \<Rightarrow> (int \<Rightarrow> int \<Rightarrow> int) \<Rightarrow> nat \<Rightarrow> nat \<Rightarrow> nat \<Rightarrow> vfile \<Rightarrow> vfile" where
  "lane_step k g rd rn i f = f(rd := set_lane k i (g (lane k (f rd) i) (lane k (f rn) i)) (f rd))"

definition lane_loop :: "nat \<Rightarrow> nat \<Rightarrow> (int \<Rightarrow> int \<Rightarrow> int) \<Rightarrow> nat \<Rightarrow> nat \<Rightarrow> vfile \<Rightarrow> vfile" where
  "lane_loop k cnt g rd rn f = fold (lane_step k g rd rn) [0..<cnt] f"

lemma lane_fits: "k * cnt \<le> 16 \<Longrightarrow> i < cnt \<Longrightarrow> k * i + k \<le> (16::nat)"
  by (metis Suc_leI le_trans mult_Suc_right mult_le_mono2 add.commute)

text \<open>The loop works lane by lane even where destination and source are the same register.\<close>

lemma lane_loop_all:
  assumes "vfile_ok f" "k * cnt \<le> 16"
  shows "vfile_ok (lane_loop k cnt g rd rn f)
     \<and> (\<forall>r. r \<noteq> rd \<longrightarrow> lane_loop k cnt g rd rn f r = f r)
     \<and> (\<forall>j. k * j + k \<le> 16 \<longrightarrow> lane k (lane_loop k cnt g rd rn f rd) j
          = (if j < cnt then g (lane k (f rd) j) (lane k (f rn) j) mod 2 ^ (8 * k) else lane k (f rd) j))"
  using assms(2)
proof (induction cnt)
  case 0
  then show ?case using assms(1) by (simp add: lane_loop_def)
next
  case (Suc n)
  let ?f = "lane_loop k n g rd rn f"
  have le: "k * n \<le> 16" "k * n + k \<le> 16" using Suc.prems by auto
  have st: "lane_loop k (Suc n) g rd rn f = lane_step k g rd rn n ?f" by (simp add: lane_loop_def)
  have ok: "vfile_ok ?f" and oth: "\<And>r. r \<noteq> rd \<Longrightarrow> ?f r = f r"
    and ln: "\<And>j. k * j + k \<le> 16 \<Longrightarrow> lane k (?f rd) j
          = (if j < n then g (lane k (f rd) j) (lane k (f rn) j) mod 2 ^ (8 * k) else lane k (f rd) j)"
    using Suc.IH[OF le(1)] by auto
  have src: "lane k (?f rn) n = lane k (f rn) n" using ln[OF le(2)] oth[of rn] by (cases "rn = rd") auto
  have len: "length (?f rd) = 16" using ok by (simp add: vfile_ok_def)
  have "lane k (lane_step k g rd rn n ?f rd) j = (if j < Suc n
      then g (lane k (f rd) j) (lane k (f rn) j) mod 2 ^ (8 * k) else lane k (f rd) j)"
    if j: "k * j + k \<le> 16" for j
    using lane_set_lane[of k n "?f rd" j] len le(2) j ln[OF j] ln[OF le(2)]
    by (auto simp: lane_step_def src)
  moreover have "vfile_ok (lane_step k g rd rn n ?f)"
    using ok le(2) by (auto simp: lane_step_def vfile_ok_def)
  moreover have "\<forall>r. r \<noteq> rd \<longrightarrow> lane_step k g rd rn n ?f r = f r" using oth by (simp add: lane_step_def)
  ultimately show ?case unfolding st by blast
qed

lemma lane_loop_spec:
  assumes "vfile_ok f" "k * cnt \<le> 16"
  shows "vfile_ok (lane_loop k cnt g rd rn f)"
    and "r \<noteq> rd \<Longrightarrow> lane_loop k cnt g rd rn f r = f r"
    and "k * j + k \<le> 16 \<Longrightarrow> lane k (lane_loop k cnt g rd rn f rd) j
      = (if j < cnt then g (lane k (f rd) j) (lane k (f rn) j) mod 2 ^ (8 * k) else lane k (f rd) j)"
  using lane_loop_all[OF assms] by auto

section \<open>Immediate shifts\<close>

text \<open>
  \<open>esize\<close> 0 to 3 selects lanes of 1, 2, 4 or 8 bytes; the operand is promoted to 32 bits for the
  first three, so a shift is defined below 32, and below 64 for the last.
\<close>

definition shift_defined :: "nat \<Rightarrow> nat \<Rightarrow> bool" where
  "shift_defined esize sh \<longleftrightarrow> sh < (if esize = 3 then 64 else 32)"

definition vcount :: "nat \<Rightarrow> bool \<Rightarrow> nat" where
  "vcount k q = (if q then 16 else 8) div k"

definition zero_upper :: "bool \<Rightarrow> nat \<Rightarrow> vfile \<Rightarrow> vfile" where
  "zero_upper q rd f = (if q then f else f(rd := take 8 (f rd) @ replicate 8 0))"

definition shl_imm_helper :: "nat \<Rightarrow> nat \<Rightarrow> nat \<Rightarrow> nat \<Rightarrow> bool \<Rightarrow> vfile \<Rightarrow> vfile option" where
  "shl_imm_helper rd rn shift esize q f =
     (if esize = 2 \<or> esize = 3
      then if shift_defined esize shift
           then Some (zero_upper q rd (lane_loop (2 ^ esize) (vcount (2 ^ esize) q)
                  (\<lambda>_ s. push_bit shift s) rd rn f))
           else None
      else Some f)"

definition ushr_imm_helper :: "nat \<Rightarrow> nat \<Rightarrow> nat \<Rightarrow> nat \<Rightarrow> bool \<Rightarrow> vfile \<Rightarrow> vfile option" where
  "ushr_imm_helper rd rn shift esize q f =
     (if esize \<le> 3
      then if shift_defined esize shift
           then Some (zero_upper q rd (lane_loop (2 ^ esize) (vcount (2 ^ esize) q)
                  (\<lambda>_ s. drop_bit shift s) rd rn f))
           else None
      else Some f)"

text \<open>A lane of \<open>k\<close> bytes read as a signed number.\<close>

definition signed_lane :: "nat \<Rightarrow> int \<Rightarrow> int" where
  "signed_lane k x = signed_take_bit (8 * k - 1) x"

definition sshr_imm_helper :: "nat \<Rightarrow> nat \<Rightarrow> nat \<Rightarrow> nat \<Rightarrow> bool \<Rightarrow> vfile \<Rightarrow> vfile option" where
  "sshr_imm_helper rd rn shift esize q f =
     (if esize \<le> 3
      then if shift_defined esize shift
           then Some (zero_upper q rd (lane_loop (2 ^ esize) (vcount (2 ^ esize) q)
                  (\<lambda>_ s. drop_bit shift (signed_lane (2 ^ esize) s)) rd rn f))
           else None
      else Some f)"

text \<open>The accumulating and inserting forms do not touch the upper half of the destination.\<close>

definition usra_imm_helper :: "nat \<Rightarrow> nat \<Rightarrow> nat \<Rightarrow> nat \<Rightarrow> bool \<Rightarrow> vfile \<Rightarrow> vfile option" where
  "usra_imm_helper rd rn shift esize q f =
     (if esize \<le> 3
      then if shift_defined esize shift
           then Some (lane_loop (2 ^ esize) (vcount (2 ^ esize) q)
                  (\<lambda>d s. d + drop_bit shift s) rd rn f)
           else None
      else Some f)"

definition ssra_imm_helper :: "nat \<Rightarrow> nat \<Rightarrow> nat \<Rightarrow> nat \<Rightarrow> bool \<Rightarrow> vfile \<Rightarrow> vfile option" where
  "ssra_imm_helper rd rn shift esize q f =
     (if esize \<le> 3
      then if shift_defined esize shift
           then Some (lane_loop (2 ^ esize) (vcount (2 ^ esize) q)
                  (\<lambda>d s. signed_lane (2 ^ esize) d + drop_bit shift (signed_lane (2 ^ esize) s)) rd rn f)
           else None
      else Some f)"

text \<open>
  \<^verbatim>\<open>mask = (1 << (bits - shift)) - 1\<close>, stored in a variable of the lane's width. The mask's own
  shift must be defined too.
\<close>

definition sri_imm_helper :: "nat \<Rightarrow> nat \<Rightarrow> nat \<Rightarrow> nat \<Rightarrow> bool \<Rightarrow> vfile \<Rightarrow> vfile option" where
  "sri_imm_helper rd rn shift esize q f =
     (if esize \<le> 3
      then let k = 2 ^ esize; w = 8 * k; mask = take_bit w (2 ^ (w - shift) - 1)
           in if shift_defined esize shift \<and> shift \<le> w \<and> (esize = 3 \<longrightarrow> 0 < shift)
              then Some (lane_loop k (vcount k q)
                     (\<lambda>d s. (d AND NOT mask) OR (drop_bit shift s AND mask)) rd rn f)
              else None
      else Some f)"

definition sli_imm_helper :: "nat \<Rightarrow> nat \<Rightarrow> nat \<Rightarrow> nat \<Rightarrow> bool \<Rightarrow> vfile \<Rightarrow> vfile option" where
  "sli_imm_helper rd rn shift esize q f =
     (if esize \<le> 3
      then let k = 2 ^ esize; w = 8 * k; mask = take_bit w (NOT (2 ^ shift - 1))
           in if shift_defined esize shift
              then Some (lane_loop k (vcount k q)
                     (\<lambda>d s. (d AND NOT mask) OR (take_bit w (push_bit shift s) AND mask)) rd rn f)
              else None
      else Some f)"

text \<open>The forms on a scalar D register; they address the low 8 bytes of a register.\<close>

definition usra_scalar_helper :: "nat \<Rightarrow> nat \<Rightarrow> nat \<Rightarrow> vfile \<Rightarrow> vfile option" where
  "usra_scalar_helper rd rn shift f =
     (if shift < 64 then Some (lane_step 8 (\<lambda>d s. d + drop_bit shift s) rd rn 0 f) else None)"

definition ssra_scalar_helper :: "nat \<Rightarrow> nat \<Rightarrow> nat \<Rightarrow> vfile \<Rightarrow> vfile option" where
  "ssra_scalar_helper rd rn shift f =
     (if shift < 64
      then Some (lane_step 8 (\<lambda>d s. signed_lane 8 d + drop_bit shift (signed_lane 8 s)) rd rn 0 f)
      else None)"

text \<open>
  How the translator (\<^verbatim>\<open>gen.c\<close>, the USHR, SSHR, USRA and SSRA cases) computes lane size and shift
  from the fields of the instruction.
\<close>

definition right_shift_fields :: "nat \<Rightarrow> nat \<Rightarrow> (nat \<times> nat) option" where
  "right_shift_fields immh immb =
     (if immh = 0 then None
      else if 8 \<le> immh then Some (3, 128 - (8 * immh + immb))
      else if 4 \<le> immh then Some (2, 64 - (8 * immh + immb))
      else if 2 \<le> immh then Some (1, 32 - (8 * immh + immb))
      else Some (0, 16 - (8 * immh + immb)))"

section \<open>Table lookup\<close>

text \<open>The table is \<open>len + 1\<close> registers from \<open>rn\<close> on; the pointer wraps after register 31.\<close>

definition table_reg :: "nat \<Rightarrow> nat \<Rightarrow> nat" where
  "table_reg rn j = (if rn + j \<ge> 32 then rn + j - 32 else rn + j)"

definition table_byte :: "nat \<Rightarrow> nat \<Rightarrow> vfile \<Rightarrow> byte \<Rightarrow> byte option" where
  "table_byte rn len f index =
     (if unat index < (len + 1) * 16
      then Some (f (table_reg rn (unat index div 16)) ! (unat index mod 16)) else None)"

definition tbl_helper :: "nat \<Rightarrow> nat \<Rightarrow> nat \<Rightarrow> nat \<Rightarrow> bool \<Rightarrow> vfile \<Rightarrow> vfile" where
  "tbl_helper rd rn rm len q f =
     (let n = (if q then 16 else 8);
          result = map (\<lambda>i. case table_byte rn len f (f rm ! i) of Some b \<Rightarrow> b | None \<Rightarrow> 0) [0..<n]
      in f(rd := result @ replicate (16 - n) 0))"

definition tbx_helper :: "nat \<Rightarrow> nat \<Rightarrow> nat \<Rightarrow> nat \<Rightarrow> bool \<Rightarrow> vfile \<Rightarrow> vfile" where
  "tbx_helper rd rn rm len q f =
     (let n = (if q then 16 else 8);
          result = map (\<lambda>i. case table_byte rn len f (f rm ! i) of Some b \<Rightarrow> b | None \<Rightarrow> f rd ! i) [0..<n]
      in f(rd := result @ replicate (16 - n) 0))"

section \<open>Permutes\<close>

text \<open>
  The body the six permutes share: for every pair \<open>i\<close> and byte \<open>b\<close> of an element, one byte of
  \<open>rn\<close> and one of \<open>rm\<close> go to the local \<open>result\<close>; the four functions give element numbers.
\<close>

definition permute ::
  "(nat \<Rightarrow> nat) \<Rightarrow> (nat \<Rightarrow> nat) \<Rightarrow> (nat \<Rightarrow> nat) \<Rightarrow> (nat \<Rightarrow> nat) \<Rightarrow>
   nat \<Rightarrow> nat \<Rightarrow> nat \<Rightarrow> nat \<Rightarrow> bool \<Rightarrow> vfile \<Rightarrow> vfile" where
  "permute dn sn dm sm rd rn rm lanesz q f =
     (let esize = 2 ^ lanesz;
          elements = (if q then 16 else 8) div esize;
          result = fold (\<lambda>i. fold (\<lambda>b res.
                       (res[dn i * esize + b := f rn ! (sn i * esize + b)])
                           [dm i * esize + b := f rm ! (sm i * esize + b)])
                     [0..<esize]) [0..<elements div 2] (replicate 16 0)
      in f(rd := take (if q then 16 else 8) result @ replicate (if q then 0 else 8) 0))"

definition half_elements :: "nat \<Rightarrow> bool \<Rightarrow> nat" where
  "half_elements lanesz q = (if q then 16 else 8) div 2 ^ lanesz div 2"

definition uzp1_helper :: "nat \<Rightarrow> nat \<Rightarrow> nat \<Rightarrow> nat \<Rightarrow> bool \<Rightarrow> vfile \<Rightarrow> vfile" where
  "uzp1_helper rd rn rm lanesz q =
     permute (\<lambda>i. i) (\<lambda>i. i * 2) (\<lambda>i. half_elements lanesz q + i) (\<lambda>i. i * 2) rd rn rm lanesz q"

definition uzp2_helper :: "nat \<Rightarrow> nat \<Rightarrow> nat \<Rightarrow> nat \<Rightarrow> bool \<Rightarrow> vfile \<Rightarrow> vfile" where
  "uzp2_helper rd rn rm lanesz q =
     permute (\<lambda>i. i) (\<lambda>i. i * 2 + 1) (\<lambda>i. half_elements lanesz q + i) (\<lambda>i. i * 2 + 1) rd rn rm lanesz q"

definition trn1_helper :: "nat \<Rightarrow> nat \<Rightarrow> nat \<Rightarrow> nat \<Rightarrow> bool \<Rightarrow> vfile \<Rightarrow> vfile" where
  "trn1_helper = permute (\<lambda>i. i * 2) (\<lambda>i. i * 2) (\<lambda>i. i * 2 + 1) (\<lambda>i. i * 2)"

definition trn2_helper :: "nat \<Rightarrow> nat \<Rightarrow> nat \<Rightarrow> nat \<Rightarrow> bool \<Rightarrow> vfile \<Rightarrow> vfile" where
  "trn2_helper = permute (\<lambda>i. i * 2) (\<lambda>i. i * 2 + 1) (\<lambda>i. i * 2 + 1) (\<lambda>i. i * 2 + 1)"

definition zip1_helper :: "nat \<Rightarrow> nat \<Rightarrow> nat \<Rightarrow> nat \<Rightarrow> bool \<Rightarrow> vfile \<Rightarrow> vfile" where
  "zip1_helper = permute (\<lambda>i. i * 2) (\<lambda>i. i) (\<lambda>i. i * 2 + 1) (\<lambda>i. i)"

definition zip2_helper :: "nat \<Rightarrow> nat \<Rightarrow> nat \<Rightarrow> nat \<Rightarrow> bool \<Rightarrow> vfile \<Rightarrow> vfile" where
  "zip2_helper rd rn rm lanesz q =
     permute (\<lambda>i. i * 2) (\<lambda>i. half_elements lanesz q + i) (\<lambda>i. i * 2 + 1)
       (\<lambda>i. half_elements lanesz q + i) rd rn rm lanesz q"

section \<open>Polynomial multiplication\<close>

text \<open>\<^verbatim>\<open>__uint128_t\<close> is a 128-bit word.\<close>

definition pmull64_full :: "u64 \<Rightarrow> u64 \<Rightarrow> 128 word" where
  "pmull64_full a b =
     fold (\<lambda>i r. if bit b i then r XOR push_bit i (ucast a) else r) [0..<64] 0"

definition pmull8 :: "byte \<Rightarrow> byte \<Rightarrow> u16" where
  "pmull8 a b = fold (\<lambda>j r. if bit b j then r XOR push_bit j (ucast a) else r) [0..<8] 0"

text \<open>
  The byte form writes halfword \<open>i\<close> of the destination before it reads byte \<open>i + 1\<close> of the sources.
\<close>

definition pmull_step :: "nat \<Rightarrow> nat \<Rightarrow> nat \<Rightarrow> nat \<Rightarrow> nat \<Rightarrow> vfile \<Rightarrow> vfile" where
  "pmull_step rd rn rm off i f =
     f(rd := set_lane 2 i (uint (pmull8 (f rn ! (off + i)) (f rm ! (off + i)))) (f rd))"

definition pmull_helper :: "nat \<Rightarrow> nat \<Rightarrow> nat \<Rightarrow> bool \<Rightarrow> nat \<Rightarrow> vfile \<Rightarrow> vfile" where
  "pmull_helper rd rn rm q lanesz f =
     (if lanesz = 0 then fold (pmull_step rd rn rm (if q then 8 else 0)) [0..<8] f
      else if lanesz = 3 then
        let i = (if q then 1 else 0)
        in f(rd := set_lane 16 0 (uint (pmull64_full (word_of_int (lane 8 (f rn) i))
                                                     (word_of_int (lane 8 (f rm) i)))) (f rd))
      else f)"

definition eor3_step :: "nat \<Rightarrow> nat \<Rightarrow> nat \<Rightarrow> nat \<Rightarrow> nat \<Rightarrow> vfile \<Rightarrow> vfile" where
  "eor3_step rd rn rm ra i f = f(rd := (f rd)[i := f rn ! i XOR f rm ! i XOR f ra ! i])"

definition eor3_helper :: "nat \<Rightarrow> nat \<Rightarrow> nat \<Rightarrow> nat \<Rightarrow> vfile \<Rightarrow> vfile" where
  "eor3_helper rd rn rm ra f =
     fold (eor3_step rd rn rm ra) [0..<16] f"

section \<open>Lane facts\<close>

lemma take8_length: "vfile_ok f \<Longrightarrow> length (take 8 (f r)) = 8"
  by (simp add: vfile_ok_def)

lemma le_int_zeros: "le_int (replicate n 0) = 0"
  by (induction n) auto

lemma vcount_fits: "esize \<le> 3 \<Longrightarrow> 2 ^ esize * vcount (2 ^ esize) q \<le> 16"
  by (auto simp: vcount_def le_Suc_eq numeral_3_eq_3)

lemma vcount_low: "esize \<le> 3 \<Longrightarrow> \<not> q \<Longrightarrow> 2 ^ esize * vcount (2 ^ esize) q = 8"
  by (auto simp: vcount_def le_Suc_eq numeral_3_eq_3)

lemma zero_upper_ok: "vfile_ok f \<Longrightarrow> vfile_ok (zero_upper q rd f)"
  by (auto simp: zero_upper_def vfile_ok_def)

lemma zero_upper_lane:
  assumes "vfile_ok f" "esize \<le> 3" "2 ^ esize * j + 2 ^ esize \<le> 16"
  shows "lane (2 ^ esize) (zero_upper q rd f rd) j
    = (if j < vcount (2 ^ esize) q then lane (2 ^ esize) (f rd) j else 0)"
proof (cases q)
  case True
  from assms(2,3) True have "j < vcount (2 ^ esize) q"
    by (auto simp: vcount_def le_Suc_eq numeral_3_eq_3)
  with True show ?thesis by (simp add: zero_upper_def)
next
  case False
  let ?k = "2 ^ esize :: nat"
  have v: "?k * vcount ?k q = 8" using vcount_low[OF assms(2) False] .
  have len: "length (f rd) = 16" using assms(1) by (simp add: vfile_ok_def)
  show ?thesis
  proof (cases "j < vcount ?k q")
    case True
    then have "?k * j + ?k \<le> ?k * vcount ?k q" by (metis Suc_leI mult_Suc_right mult_le_mono2 add.commute)
    then show ?thesis
      using True False v len take_drop_prefix[of "?k * j" ?k 8 "f rd"] by (simp add: zero_upper_def lane_def)
  next
    case nl: False
    then have "?k * vcount ?k q \<le> ?k * j" by (simp only: not_less mult_le_mono2)
    with v have "8 \<le> ?k * j" by simp
    then have "take ?k (drop (?k * j) (take 8 (f rd) @ replicate 8 0)) = replicate (min ?k (8 - (?k * j - 8))) 0"
      using len by (simp add: min_def)
    then show ?thesis using nl False by (simp add: zero_upper_def lane_def le_int_zeros)
  qed
qed

text \<open>Lanes as numbers of their width.\<close>

lemma lane_bounds:
  assumes "vfile_ok f" "k * j + k \<le> 16"
  shows "0 \<le> lane k (f r) j" "lane k (f r) j < 2 ^ (8 * k)"
  using le_int_bounds[of "take k (drop (k * j) (f r))"] assms by (simp_all add: lane_def vfile_ok_def)

lemma shift_loop_spec:
  assumes "vfile_ok f" "esize \<le> 3" "2 ^ esize * j + 2 ^ esize \<le> 16"
  shows "lane (2 ^ esize) (zero_upper q rd (lane_loop (2 ^ esize) (vcount (2 ^ esize) q) g rd rn f) rd) j
    = (if j < vcount (2 ^ esize) q
       then g (lane (2 ^ esize) (f rd) j) (lane (2 ^ esize) (f rn) j) mod 2 ^ (8 * 2 ^ esize) else 0)"
  using zero_upper_lane[OF lane_loop_spec(1)[OF assms(1) vcount_fits[OF assms(2)]] assms(2,3)]
    lane_loop_spec(3)[OF assms(1) vcount_fits[OF assms(2)] assms(3)] by simp

lemma loop_frame:
  assumes "vfile_ok f" "esize \<le> 3"
  shows "vfile_ok (zero_upper q rd (lane_loop (2 ^ esize) (vcount (2 ^ esize) q) g rd rn f))"
    "r \<noteq> rd \<Longrightarrow> zero_upper q rd (lane_loop (2 ^ esize) (vcount (2 ^ esize) q) g rd rn f) r = f r"
  using lane_loop_spec(1,2)[OF assms(1) vcount_fits[OF assms(2)]]
  by (auto intro: zero_upper_ok) (simp add: zero_upper_def)

section \<open>Properties of the shifts\<close>

text \<open>
  For every defined shift USHR divides each lane by a power of two and SSHR does so on
  the signed value, rounding down; lanes beyond the operation are zero, other registers are
  unchanged, also when source and destination are one register.
\<close>

theorem right_shifts_divide_lanes:
  assumes "vfile_ok f" "esize \<le> 3" "shift_defined esize shift" "2 ^ esize * j + 2 ^ esize \<le> 16"
  shows "\<exists>u s. ushr_imm_helper rd rn shift esize q f = Some u \<and> sshr_imm_helper rd rn shift esize q f = Some s
     \<and> vfile_ok u \<and> vfile_ok s \<and> (\<forall>r. r \<noteq> rd \<longrightarrow> u r = f r \<and> s r = f r)
     \<and> lane (2 ^ esize) (u rd) j
         = (if j < vcount (2 ^ esize) q then lane (2 ^ esize) (f rn) j div 2 ^ shift else 0)
     \<and> signed_lane (2 ^ esize) (lane (2 ^ esize) (s rd) j)
         = (if j < vcount (2 ^ esize) q then signed_lane (2 ^ esize) (lane (2 ^ esize) (f rn) j) div 2 ^ shift
            else 0)"
proof -
  let ?k = "2 ^ esize :: nat"
  let ?u = "zero_upper q rd (lane_loop ?k (vcount ?k q) (\<lambda>_ s. drop_bit shift s) rd rn f)"
  let ?s = "zero_upper q rd (lane_loop ?k (vcount ?k q) (\<lambda>_ s. drop_bit shift (signed_lane ?k s)) rd rn f)"
  let ?x = "lane ?k (f rn) j"
  have b: "0 \<le> ?x" "?x < 2 ^ (8 * ?k)" using lane_bounds[OF assms(1,4)] by auto
  have "?x div 2 ^ shift \<le> ?x" using zdiv_mono2[of ?x 1 "2 ^ shift"] b(1) by simp
  with b have u: "drop_bit shift ?x mod 2 ^ (8 * ?k) = ?x div 2 ^ shift"
    by (simp add: drop_bit_eq_div pos_imp_zdiv_nonneg_iff)
  have "signed_lane ?k (drop_bit shift (signed_lane ?k ?x) mod 2 ^ (8 * ?k))
      = drop_bit shift (signed_lane ?k ?x)"
  proof (rule bit_eqI)
    fix n
    have "8 * ?k \<noteq> 0" by simp
    then show "bit (signed_lane ?k (drop_bit shift (signed_lane ?k ?x) mod 2 ^ (8 * ?k))) n
        = bit (drop_bit shift (signed_lane ?k ?x)) n"
      by (auto simp: signed_lane_def bit_signed_take_bit_iff bit_drop_bit_eq bit_take_bit_iff min_def
          simp flip: take_bit_eq_mod)
  qed
  then have s: "signed_lane ?k (drop_bit shift (signed_lane ?k ?x) mod 2 ^ (8 * ?k))
      = signed_lane ?k ?x div 2 ^ shift" by (simp add: drop_bit_eq_div)
  have "signed_lane ?k 0 = 0" by (simp add: signed_lane_def)
  then show ?thesis
    using assms u s loop_frame[OF assms(1,2)] shift_loop_spec[OF assms(1,2,4)]
    by (simp add: ushr_imm_helper_def sshr_imm_helper_def)
qed

definition demo_file :: vfile where
  "demo_file r = (if r = 1 then [1,2,3,4,5,6,7,8,9,10,11,12,13,14,15,0xf0] else replicate 16 0xee)"

lemma demo_file_ok: "vfile_ok demo_file"
  by (simp add: vfile_ok_def demo_file_def)

lemma right_shifts_divide_lanes_witness:
  "\<exists>u. ushr_imm_helper 1 1 4 0 True demo_file = Some u \<and> lane 1 (u 1) 15 = 15"
  using right_shifts_divide_lanes[OF demo_file_ok, of 0 4 15 1 1 True]
  by (auto simp: shift_defined_def vcount_def lane_def demo_file_def)

text \<open>
  Among the immediate right shifts an instruction can encode, exactly the one by 32 on
  32-bit lanes and the one by 64 on 64-bit lanes (both legal) reach a C shift by the operand's
  width, which is undefined.
\<close>

theorem right_shift_undefined_encodings:
  assumes "immh < 16" "immb < 8" "right_shift_fields immh immb = Some (esize, shift)"
  shows "1 \<le> shift \<and> shift \<le> 8 * 2 ^ esize
     \<and> (ushr_imm_helper rd rn shift esize q f = None \<longleftrightarrow> (immh = 4 \<or> immh = 8) \<and> immb = 0)
     \<and> (sshr_imm_helper rd rn shift esize q f = None \<longleftrightarrow> (immh = 4 \<or> immh = 8) \<and> immb = 0)
     \<and> (usra_imm_helper rd rn shift esize q f = None \<longleftrightarrow> (immh = 4 \<or> immh = 8) \<and> immb = 0)
     \<and> (ssra_imm_helper rd rn shift esize q f = None \<longleftrightarrow> (immh = 4 \<or> immh = 8) \<and> immb = 0)"
  using assms
  by (auto simp: right_shift_fields_def ushr_imm_helper_def sshr_imm_helper_def usra_imm_helper_def
      ssra_imm_helper_def shift_defined_def split: if_splits)

lemma right_shift_undefined_encodings_witness: "ushr_imm_helper 0 1 32 2 True demo_file = None"
  using right_shift_undefined_encodings[of 4 0 2 32 0 1 True demo_file] by (simp add: right_shift_fields_def)

text \<open>
  The 64-bit forms of USRA and SSRA add to the low lanes and leave the upper half of the
  destination as it was, where the architecture clears it (and where USHR does clear it).
\<close>

theorem accumulating_shift_keeps_upper_half:
  assumes "vfile_ok f" "esize \<le> 3" "shift_defined esize shift" "2 ^ esize * j + 2 ^ esize \<le> 16"
  shows "\<exists>u s. usra_imm_helper rd rn shift esize False f = Some u
     \<and> ssra_imm_helper rd rn shift esize False f = Some s
     \<and> lane (2 ^ esize) (u rd) j
         = (if j < vcount (2 ^ esize) False
            then (lane (2 ^ esize) (f rd) j + lane (2 ^ esize) (f rn) j div 2 ^ shift) mod 2 ^ (8 * 2 ^ esize)
            else lane (2 ^ esize) (f rd) j)
     \<and> (\<not> j < vcount (2 ^ esize) False \<longrightarrow> lane (2 ^ esize) (s rd) j = lane (2 ^ esize) (f rd) j)"
  using assms lane_loop_spec(3)[OF assms(1) vcount_fits[OF assms(2)] assms(4)]
  by (simp add: usra_imm_helper_def ssra_imm_helper_def drop_bit_eq_div)

lemma accumulating_shift_keeps_upper_half_witness:
  "\<exists>u. usra_imm_helper 0 1 4 0 False demo_file = Some u \<and> lane 1 (u 0) 15 = 0xee"
  using accumulating_shift_keeps_upper_half[OF demo_file_ok, of 0 4 15 0 1]
  by (auto simp: shift_defined_def vcount_def lane_def demo_file_def)

text \<open>
  SRI keeps the top \<open>shift\<close> bits of each destination lane and inserts the shifted source
  below them; SLI keeps the low \<open>shift\<close> bits and inserts above them.
\<close>

theorem shift_insert_bits:
  assumes "vfile_ok f" "esize \<le> 3" "shift_defined esize shift" "0 < shift" "shift < 8 * 2 ^ esize"
    "j < vcount (2 ^ esize) q" "n < 8 * 2 ^ esize"
  shows "\<exists>r l. sri_imm_helper rd rn shift esize q f = Some r \<and> sli_imm_helper rd rn shift esize q f = Some l
     \<and> bit (lane (2 ^ esize) (r rd) j) n
         = (if n < 8 * 2 ^ esize - shift then bit (lane (2 ^ esize) (f rn) j) (n + shift)
            else bit (lane (2 ^ esize) (f rd) j) n)
     \<and> bit (lane (2 ^ esize) (l rd) j) n
         = (if n < shift then bit (lane (2 ^ esize) (f rd) j) n
            else bit (lane (2 ^ esize) (f rn) j) (n - shift))"
proof -
  let ?k = "2 ^ esize :: nat"
  have fit: "?k * j + ?k \<le> 16" using lane_fits[OF vcount_fits[OF assms(2)] assms(6)] .
  have m: "(2::int) ^ m - 1 = mask m" for m by (simp add: mask_eq_exp_minus_1)
  show ?thesis
    using assms lane_loop_spec(3)[OF assms(1) vcount_fits[OF assms(2)] fit]
    by (auto simp: sri_imm_helper_def sli_imm_helper_def Let_def m bit_simps add.commute[of shift n]
        simp flip: take_bit_eq_mod)
qed

lemma shift_insert_bits_witness:
  "\<exists>r. sri_imm_helper 0 1 4 0 True demo_file = Some r \<and> bit (lane 1 (r 0) 15) 3"
  using shift_insert_bits[OF demo_file_ok, of 0 4 15 True 3 0 1]
  by (auto simp: shift_defined_def vcount_def lane_def demo_file_def bit_iff_odd)

section \<open>Properties of table lookup\<close>

text \<open>The table as one list of bytes: the \<open>len + 1\<close> registers from \<open>rn\<close> on, modulo 32.\<close>

definition table_bytes :: "nat \<Rightarrow> nat \<Rightarrow> vfile \<Rightarrow> byte list" where
  "table_bytes rn len f = concat (map (\<lambda>j. f ((rn + j) mod 32)) [0..<len + 1])"

lemma concat_blocks_nth:
  "(\<And>j. j < n \<Longrightarrow> length (g j) = 16) \<Longrightarrow> i < n * 16 \<Longrightarrow>
   concat (map g [0..<n]) ! i = g (i div 16) ! (i mod 16) \<and> length (concat (map g [0..<n])) = n * 16"
proof (induction n)
  case (Suc n)
  have len: "length (concat (map g [0..<n])) = n * 16"
  proof -
    have "map length (map g [0..<n]) = map (\<lambda>_. 16) [0..<n]" using Suc.prems(1) by simp
    then show ?thesis by (simp add: length_concat sum_list_triv del: map_map)
  qed
  show ?case
  proof (cases "i < n * 16")
    case True
    then show ?thesis using Suc len by (simp add: nth_append)
  next
    case False
    then have d: "i div 16 = n" using Suc.prems(2) by auto
    then have "i mod 16 = i - n * 16" by (simp add: modulo_nat_def)
    note d this
    then show ?thesis using False len Suc.prems by (simp add: nth_append)
  qed
qed simp

lemma table_byte_spec:
  assumes "vfile_ok f" "rn < 32" "len < 4"
  shows "table_byte rn len f ix = (if unat ix < length (table_bytes rn len f)
      then Some (table_bytes rn len f ! unat ix) else None)"
proof -
  have "table_reg rn j = (rn + j) mod 32" if "j < 4" for j
    using that assms(2) by (auto simp: table_reg_def mod_if)
  moreover have "unat ix div 16 < 4" if "unat ix < (len + 1) * 16" using that assms(3) by auto
  moreover have "length (table_bytes rn len f) = (len + 1) * 16"
    using assms(1) unfolding table_bytes_def vfile_ok_def
    by (simp add: length_concat comp_def sum_list_triv)
  ultimately show ?thesis
    using concat_blocks_nth[of "len + 1" "\<lambda>j. f ((rn + j) mod 32)" "unat ix"] assms(1)
    by (auto simp: table_byte_def table_bytes_def vfile_ok_def)
qed

text \<open>
  TBL reads each destination byte from the concatenation of \<open>len + 1\<close> consecutive
  registers (after register 31 comes register 0) at the index the source byte names, or zero when
  the index is out of range; TBX keeps the old byte there. The result is the same when the
  destination is one of the table registers or the index register.
\<close>

theorem table_lookup_concatenation:
  assumes "vfile_ok f" "rn < 32" "len < 4" "i < (if q then 16 else 8)"
  shows "tbl_helper rd rn rm len q f rd ! i
       = (if unat (f rm ! i) < 16 * (len + 1) then table_bytes rn len f ! unat (f rm ! i) else 0)
    \<and> tbx_helper rd rn rm len q f rd ! i
       = (if unat (f rm ! i) < 16 * (len + 1) then table_bytes rn len f ! unat (f rm ! i) else f rd ! i)"
proof -
  have l: "length (table_bytes rn len f) = 16 * (len + 1)"
    using assms(1) unfolding table_bytes_def vfile_ok_def
    by (simp add: length_concat comp_def sum_list_triv)
  show "tbl_helper rd rn rm len q f rd ! i
       = (if unat (f rm ! i) < 16 * (len + 1) then table_bytes rn len f ! unat (f rm ! i) else 0)
    \<and> tbx_helper rd rn rm len q f rd ! i
       = (if unat (f rm ! i) < 16 * (len + 1) then table_bytes rn len f ! unat (f rm ! i) else f rd ! i)"
    using assms(4) table_byte_spec[OF assms(1-3)] l
    by (auto simp: tbl_helper_def tbx_helper_def Let_def nth_append)
qed

lemma table_lookup_concatenation_witness:
  "tbx_helper 1 0 1 0 True demo_file 1 ! 15 = 0xf0"
  using table_lookup_concatenation[OF demo_file_ok, of 0 0 15 True 1 1]
  by (simp add: demo_file_def)

section \<open>Properties of the permutes\<close>

text \<open>A run of stores in which every store to \<open>p\<close> writes \<open>x\<close> leaves \<open>x\<close> there.\<close>

lemma fold_fold_concat: "fold (\<lambda>i. fold g (h i)) is = fold g (concat (map h is))"
  by (induction "is") (auto simp: fun_eq_iff)

lemma fold_stores_nth:
  assumes "\<forall>(p', x') \<in> set ws. p' = p \<longrightarrow> x' = x" "(p, x) \<in> set ws \<or> r ! p = x" "p < length r"
  shows "fold (\<lambda>(p, x) r. r[p := x]) ws r ! p = x"
  using assms
proof (induction ws arbitrary: r)
  case (Cons w ws)
  obtain q y where w: "w = (q, y)" by force
  show ?case using Cons w by (cases "q = p") auto
qed simp

lemma fold_stores_length: "length (fold (\<lambda>(p, x) r. r[p := x]) ws r) = length r"
  by (induction ws arbitrary: r) auto

text \<open>The stores of a permute, in order.\<close>

definition permute_stores ::
  "(nat \<Rightarrow> nat) \<Rightarrow> (nat \<Rightarrow> nat) \<Rightarrow> (nat \<Rightarrow> nat) \<Rightarrow> (nat \<Rightarrow> nat) \<Rightarrow> byte list \<Rightarrow> byte list \<Rightarrow>
   nat \<Rightarrow> nat \<Rightarrow> (nat \<times> byte) list" where
  "permute_stores dn sn dm sm vn vm e h =
     concat (map (\<lambda>i. concat (map (\<lambda>b. [(dn i * e + b, vn ! (sn i * e + b)), (dm i * e + b, vm ! (sm i * e + b))])
       [0..<e])) [0..<h])"

lemma permute_as_stores:
  "permute dn sn dm sm rd rn rm lanesz q f rd =
     take (if q then 16 else 8) (fold (\<lambda>(p, x) r. r[p := x])
       (permute_stores dn sn dm sm (f rn) (f rm) (2 ^ lanesz) (half_elements lanesz q)) (replicate 16 0))
     @ replicate (if q then 0 else 8) 0"
proof -
  let ?st = "\<lambda>(p, x) r. r[p := x]"
  have "(\<lambda>b r. (r[u b := x b])[w b := y b]) = (\<lambda>b. fold ?st [(u b, x b), (w b, y b)])"
    for u w :: "nat \<Rightarrow> nat" and x y :: "nat \<Rightarrow> byte" by (intro ext) simp
  then show ?thesis
    by (simp only: permute_def Let_def permute_stores_def half_elements_def fold_fold_concat
        fun_upd_same div_mult2_eq)
qed

lemma permute_other: "r \<noteq> rd \<Longrightarrow> permute dn sn dm sm rd rn rm lanesz q f r = f r"
  by (simp add: permute_def Let_def)

lemma half_elements_size: "lanesz < 4 \<Longrightarrow> 2 * half_elements lanesz q * 2 ^ lanesz \<le> (if q then 16 else 8)"
proof -
  assume "lanesz < 4"
  then have "lanesz = 0 \<or> lanesz = 1 \<or> lanesz = 2 \<or> lanesz = 3" by linarith
  then show ?thesis by (elim disjE) (simp_all add: half_elements_def)
qed

lemma element_unique:
  assumes "b < e" "b' < e" "i' * e + b' = i * e + (b::nat)"
  shows "i' = i \<and> b' = b"
proof -
  have "i' = i" using arg_cong[OF assms(3), of "\<lambda>x. x div e"] assms(1,2) by simp
  then show ?thesis using assms(3) by simp
qed

text \<open>
  When the two destination functions hit every element at most once, each element of the result is
  the one the source function names.
\<close>

lemma permute_element:
  assumes h: "h = half_elements lanesz q" and e: "e = 2 ^ lanesz" and z: "lanesz < 4"
    and d: "\<And>i j. i < h \<Longrightarrow> j < h \<Longrightarrow> dn i = dn j \<Longrightarrow> i = j" "\<And>i j. i < h \<Longrightarrow> j < h \<Longrightarrow> dm i = dm j \<Longrightarrow> i = j"
      "\<And>i j. i < h \<Longrightarrow> j < h \<Longrightarrow> dn i \<noteq> dm j" "\<And>i. i < h \<Longrightarrow> dn i < 2 * h \<and> dm i < 2 * h"
    and i: "i < h" "b < e"
  shows "permute dn sn dm sm rd rn rm lanesz q f rd ! (dn i * e + b) = f rn ! (sn i * e + b)"
    "permute dn sn dm sm rd rn rm lanesz q f rd ! (dm i * e + b) = f rm ! (sm i * e + b)"
proof -
  let ?ws = "permute_stores dn sn dm sm (f rn) (f rm) e h"
  have bound: "k * e + b < (if q then 16 else 8)" if "k < 2 * h" for k
  proof -
    have "k * e + b < Suc k * e" using i(2) by simp
    also have "\<dots> \<le> 2 * h * e" using that by (intro mult_right_mono) auto
    also have "\<dots> \<le> (if q then 16 else 8)" using half_elements_size[OF z, of q] h e by simp
    finally show ?thesis .
  qed
  have mem: "w \<in> set ?ws \<longleftrightarrow> (\<exists>j < h. \<exists>c < e. w = (dn j * e + c, f rn ! (sn j * e + c))
      \<or> w = (dm j * e + c, f rm ! (sm j * e + c)))" for w
    by (simp add: permute_stores_def Bex_def)
  have run: "permute dn sn dm sm rd rn rm lanesz q f rd ! p = x"
    if "p < (if q then 16 else 8)" "(p, x) \<in> set ?ws" "\<forall>(p', x') \<in> set ?ws. p' = p \<longrightarrow> x' = x" for p x
    using that fold_stores_nth[of ?ws p x "replicate 16 0"] fold_stores_length[of ?ws "replicate 16 0"]
    by (auto simp: permute_as_stores h[symmetric] e[symmetric] nth_append split: if_splits)
  show "permute dn sn dm sm rd rn rm lanesz q f rd ! (dn i * e + b) = f rn ! (sn i * e + b)"
  proof (rule run)
    show "dn i * e + b < (if q then 16 else 8)" using bound d(4)[OF i(1)] by blast
    show "(dn i * e + b, f rn ! (sn i * e + b)) \<in> set ?ws" using mem i by blast
    show "\<forall>(p', x') \<in> set ?ws. p' = dn i * e + b \<longrightarrow> x' = f rn ! (sn i * e + b)"
    proof (clarify)
      fix x' assume "(dn i * e + b, x') \<in> set ?ws"
      then obtain j c where j: "j < h" "c < e"
        and o: "dn i * e + b = dn j * e + c \<and> x' = f rn ! (sn j * e + c)
          \<or> dn i * e + b = dm j * e + c \<and> x' = f rm ! (sm j * e + c)"
        unfolding mem by auto
      from o consider "dn i = dn j \<and> b = c" "x' = f rn ! (sn j * e + c)" | "dn i = dm j \<and> b = c" "x' = f rm ! (sm j * e + c)"
        using element_unique[OF j(2) i(2)] by blast
      then show "x' = f rn ! (sn i * e + b)" using d(1)[of i j] d(2)[of i j] d(3)[of i j] d(3)[of j i] i(1) j(1) by cases auto
    qed
  qed
  show "permute dn sn dm sm rd rn rm lanesz q f rd ! (dm i * e + b) = f rm ! (sm i * e + b)"
  proof (rule run)
    show "dm i * e + b < (if q then 16 else 8)" using bound d(4)[OF i(1)] by blast
    show "(dm i * e + b, f rm ! (sm i * e + b)) \<in> set ?ws" using mem i by blast
    show "\<forall>(p', x') \<in> set ?ws. p' = dm i * e + b \<longrightarrow> x' = f rm ! (sm i * e + b)"
    proof (clarify)
      fix x' assume "(dm i * e + b, x') \<in> set ?ws"
      then obtain j c where j: "j < h" "c < e"
        and o: "dm i * e + b = dn j * e + c \<and> x' = f rn ! (sn j * e + c)
          \<or> dm i * e + b = dm j * e + c \<and> x' = f rm ! (sm j * e + c)"
        unfolding mem by auto
      from o consider "dm i = dn j \<and> b = c" "x' = f rn ! (sn j * e + c)" | "dm i = dm j \<and> b = c" "x' = f rm ! (sm j * e + c)"
        using element_unique[OF j(2) i(2)] by blast
      then show "x' = f rm ! (sm i * e + b)" using d(1)[of i j] d(2)[of i j] d(3)[of i j] d(3)[of j i] i(1) j(1) by cases auto
    qed
  qed
qed

text \<open>The elements each permute writes.\<close>

lemma interleave_dest:
  "(i::nat) * 2 = j * 2 \<Longrightarrow> i = j" "i * 2 + 1 = j * 2 + 1 \<Longrightarrow> i = j" "i * 2 \<noteq> j * 2 + 1"
  "i < h \<Longrightarrow> i * 2 < 2 * h \<and> i * 2 + 1 < 2 * h"
  by presburger+

lemma halves_dest:
  "(i::nat) < h \<Longrightarrow> j < h \<Longrightarrow> i \<noteq> h + j" "h + i = h + j \<Longrightarrow> i = j"
  "i < h \<Longrightarrow> i < 2 * h \<and> h + i < 2 * h"
  by auto

lemma interleave_elements:
  assumes "lanesz < 4" "i < half_elements lanesz q" "b < 2 ^ lanesz"
  shows "permute (\<lambda>i. i * 2) sn (\<lambda>i. i * 2 + 1) sm rd rn rm lanesz q f rd ! (i * 2 * 2 ^ lanesz + b)
      = f rn ! (sn i * 2 ^ lanesz + b)"
    "permute (\<lambda>i. i * 2) sn (\<lambda>i. i * 2 + 1) sm rd rn rm lanesz q f rd ! ((i * 2 + 1) * 2 ^ lanesz + b)
      = f rm ! (sm i * 2 ^ lanesz + b)"
  by (rule permute_element[OF refl refl assms(1) _ _ _ _ assms(2,3)];
      use interleave_dest in blast)+

lemma halves_elements:
  assumes "lanesz < 4" "i < half_elements lanesz q" "b < 2 ^ lanesz"
  shows "permute (\<lambda>i. i) sn (\<lambda>i. half_elements lanesz q + i) sm rd rn rm lanesz q f rd ! (i * 2 ^ lanesz + b)
      = f rn ! (sn i * 2 ^ lanesz + b)"
    "permute (\<lambda>i. i) sn (\<lambda>i. half_elements lanesz q + i) sm rd rn rm lanesz q f rd
        ! ((half_elements lanesz q + i) * 2 ^ lanesz + b)
      = f rm ! (sm i * 2 ^ lanesz + b)"
  using permute_element[OF refl refl assms(1) _ _ _ _ assms(2,3), of "\<lambda>i. i" "\<lambda>i. half_elements lanesz q + i"]
    halves_dest by force+

lemma byte_position:
  assumes "p < 2 * h * e"
  obtains i b where "i < 2 * h" "b < e" "p = i * e + (b::nat)"
proof
  have "0 < e" using assms by (cases e) auto
  then show "p mod e < e" by simp
  show "p = p div e * e + p mod e" by simp
  show "p div e < 2 * h" using assms by (simp add: less_mult_imp_div_less)
qed

text \<open>
  UZP1 and UZP2 undo ZIP1 and ZIP2: unzipping the two interleaved halves of a pair of
  registers gives back the pair, for every element size and both widths.
\<close>

theorem unzip_undoes_zip:
  assumes "lanesz < 4" "z1 \<noteq> z2" "z1 \<noteq> rn" "z1 \<noteq> rm" "p < 2 * half_elements lanesz q * 2 ^ lanesz"
  shows "let g = zip2_helper z2 rn rm lanesz q (zip1_helper z1 rn rm lanesz q f)
    in uzp1_helper rd z1 z2 lanesz q g rd ! p = f rn ! p \<and> uzp2_helper rd z1 z2 lanesz q g rd ! p = f rm ! p"
proof -
  let ?h = "half_elements lanesz q" and ?e = "2 ^ lanesz :: nat"
  define g1 where "g1 = zip1_helper z1 rn rm lanesz q f"
  define g where "g = zip2_helper z2 rn rm lanesz q g1"
  obtain i b where p: "i < 2 * ?h" "b < ?e" "p = i * ?e + b" using byte_position[OF assms(5)] .
  have src: "g1 rn = f rn" "g1 rm = f rm" "g z1 = g1 z1"
    using assms(2-4) by (simp_all add: g1_def g_def zip1_helper_def zip2_helper_def permute_other)
  have z1: "g1 z1 ! (j * 2 * ?e + b) = f rn ! (j * ?e + b)"
      "g1 z1 ! ((j * 2 + 1) * ?e + b) = f rm ! (j * ?e + b)" if "j < ?h" for j
    unfolding g1_def zip1_helper_def by (rule interleave_elements[OF assms(1) that p(2)])+
  have z2: "g z2 ! (j * 2 * ?e + b) = f rn ! ((?h + j) * ?e + b)"
      "g z2 ! ((j * 2 + 1) * ?e + b) = f rm ! ((?h + j) * ?e + b)" if "j < ?h" for j
    unfolding g_def zip2_helper_def src(1,2)[symmetric] by (rule interleave_elements[OF assms(1) that p(2)])+
  have "uzp1_helper rd z1 z2 lanesz q g rd ! p = f rn ! p \<and> uzp2_helper rd z1 z2 lanesz q g rd ! p = f rm ! p"
  proof (cases "i < ?h")
    case True
    show ?thesis
      using halves_elements(1)[OF assms(1) True p(2)] z1[OF True] src(3)
      by (simp add: p(3) uzp1_helper_def uzp2_helper_def)
  next
    case False
    then obtain j where j: "i = ?h + j" "j < ?h" using p(1) by (metis add.commute add_diff_inverse_nat mult_2 nat_add_left_cancel_less)
    show ?thesis
      using halves_elements(2)[OF assms(1) j(2) p(2)] z2[OF j(2)]
      by (simp add: p(3) j(1) uzp1_helper_def uzp2_helper_def)
  qed
  then show ?thesis by (simp only: Let_def g_def g1_def)
qed

lemma unzip_undoes_zip_witness:
  "let g = zip2_helper 4 1 2 0 True (zip1_helper 3 1 2 0 True demo_file)
   in uzp1_helper 1 3 4 0 True g 1 ! 15 = 0xf0"
  using unzip_undoes_zip[of 0 3 4 1 2 15 True demo_file 1]
  by (simp add: half_elements_def Let_def demo_file_def)

text \<open>
  TRN1 and TRN2 transpose: applied twice to a pair of registers they give the pair back.
\<close>

theorem transpose_twice:
  assumes "lanesz < 4" "z1 \<noteq> z2" "z1 \<noteq> rn" "z1 \<noteq> rm" "p < 2 * half_elements lanesz q * 2 ^ lanesz"
  shows "let g = trn2_helper z2 rn rm lanesz q (trn1_helper z1 rn rm lanesz q f)
    in trn1_helper rd z1 z2 lanesz q g rd ! p = f rn ! p \<and> trn2_helper rd z1 z2 lanesz q g rd ! p = f rm ! p"
proof -
  let ?h = "half_elements lanesz q" and ?e = "2 ^ lanesz :: nat"
  define g1 where "g1 = trn1_helper z1 rn rm lanesz q f"
  define g where "g = trn2_helper z2 rn rm lanesz q g1"
  obtain i b where p: "i < 2 * ?h" "b < ?e" "p = i * ?e + b" using byte_position[OF assms(5)] .
  have src: "g1 rn = f rn" "g1 rm = f rm" "g z1 = g1 z1"
    using assms(2-4) by (simp_all add: g1_def g_def trn1_helper_def trn2_helper_def permute_other)
  define j where "j = i div 2"
  have j: "j < ?h" "i = j * 2 \<or> i = j * 2 + 1" using p(1) by (auto simp: j_def)
  have z1: "g1 z1 ! (j * 2 * ?e + b) = f rn ! (j * 2 * ?e + b)"
      "g1 z1 ! ((j * 2 + 1) * ?e + b) = f rm ! (j * 2 * ?e + b)"
    unfolding g1_def trn1_helper_def by (rule interleave_elements[OF assms(1) j(1) p(2)])+
  have z2: "g z2 ! (j * 2 * ?e + b) = f rn ! ((j * 2 + 1) * ?e + b)"
      "g z2 ! ((j * 2 + 1) * ?e + b) = f rm ! ((j * 2 + 1) * ?e + b)"
    unfolding g_def trn2_helper_def src(1,2)[symmetric]
    by (rule interleave_elements[OF assms(1) j(1) p(2)])+
  note el = interleave_elements[OF assms(1) j(1) p(2)]
  have "trn1_helper rd z1 z2 lanesz q g rd ! p = f rn ! p \<and> trn2_helper rd z1 z2 lanesz q g rd ! p = f rm ! p"
    using j(2) el z1 z2 src(3) by (elim disjE) (simp_all add: p(3) trn1_helper_def trn2_helper_def)
  then show ?thesis by (simp only: Let_def g_def g1_def)
qed

lemma transpose_twice_witness:
  "let g = trn2_helper 4 1 2 1 True (trn1_helper 3 1 2 1 True demo_file)
   in trn1_helper 1 3 4 1 True g 1 ! 15 = 0xf0"
  using transpose_twice[of 1 3 4 1 2 15 True demo_file 1]
  by (simp add: half_elements_def Let_def demo_file_def)

section \<open>Properties of polynomial multiplication\<close>

text \<open>Bit \<open>n\<close> of a product over GF(2): the parity of the pairs of set bits whose indices add to \<open>n\<close>.\<close>

definition clmul_pairs :: "'a::len word \<Rightarrow> 'a word \<Rightarrow> nat \<Rightarrow> nat \<Rightarrow> nat set" where
  "clmul_pairs a b m n = {i. i < m \<and> bit b i \<and> i \<le> n \<and> bit a (n - i)}"

lemma clmul_loop:
  fixes a b :: "'a::len word"
  assumes "n < LENGTH('c::len)"
  shows "bit (fold (\<lambda>i r. if bit b i then r XOR push_bit i (ucast a) else r) [0..<m] (0 :: 'c word)) n
    \<longleftrightarrow> odd (card (clmul_pairs a b m n))"
proof (induction m)
  case (Suc m)
  have fin: "finite (clmul_pairs a b m n)" by (rule finite_subset[of _ "{..<m}"]) (auto simp: clmul_pairs_def)
  have step: "clmul_pairs a b (Suc m) n =
      (if bit b m \<and> m \<le> n \<and> bit a (n - m) then insert m (clmul_pairs a b m n) else clmul_pairs a b m n)"
    by (auto simp: clmul_pairs_def less_Suc_eq)
  have "m \<notin> clmul_pairs a b m n" by (simp add: clmul_pairs_def)
  then have "card (clmul_pairs a b (Suc m) n) = card (clmul_pairs a b m n)
      + (if bit b m \<and> m \<le> n \<and> bit a (n - m) then 1 else 0)" using fin step by simp
  moreover have "bit (ucast a :: 'c word) (n - m) \<longleftrightarrow> bit a (n - m)" using assms by (auto simp: bit_simps)
  ultimately show ?case using Suc assms by (auto simp: bit_xor_iff bit_push_bit_iff)
qed (simp add: clmul_pairs_def)

text \<open>
  \<^verbatim>\<open>pmull64_full\<close> is the carry-less product: bit \<open>n\<close> is the parity of the pairs of set bits of
  its arguments whose positions add up to \<open>n\<close>; in particular it commutes.
\<close>

theorem pmull64_carryless:
  "bit (pmull64_full a b) n = odd (card {i. i < 64 \<and> bit b i \<and> i \<le> n \<and> bit a (n - i)})
   \<and> pmull64_full a b = pmull64_full b a"
proof -
  have b: "bit (pmull64_full a b) n \<longleftrightarrow> odd (card (clmul_pairs a b 64 n))" for a b n
  proof (cases "n < 128")
    case True
    then show ?thesis using clmul_loop[where 'c = 128, of n b a 64] by (simp add: pmull64_full_def)
  next
    case False
    then have "clmul_pairs a b 64 n = {}" by (auto simp: clmul_pairs_def dest!: bit_imp_le_length)
    then show ?thesis using False bit_imp_le_length[of "pmull64_full a b" n] by auto
  qed
  have sym: "card (clmul_pairs a b 64 n) = card (clmul_pairs b a 64 n)" for a b :: u64 and n
  proof (rule bij_betw_same_card)
    show "bij_betw (\<lambda>i. n - i) (clmul_pairs a b 64 n) (clmul_pairs b a 64 n)"
      by (rule bij_betw_byWitness[where f' = "\<lambda>i. n - i"])
        (auto simp: clmul_pairs_def dest: bit_imp_le_length)
  qed
  have "pmull64_full a b = pmull64_full b a"
    by (rule bit_word_eqI) (simp add: b sym[of a b])
  then show ?thesis using b[of a b n] by (simp add: clmul_pairs_def)
qed

lemma pmull_steps_keep:
  assumes "vfile_ok f" "j \<notin> set is" "\<forall>i \<in> set is. i < 8" "j < 8"
  shows "vfile_ok (fold (pmull_step rd rn rm off) is f)
    \<and> lane 2 (fold (pmull_step rd rn rm off) is f rd) j = lane 2 (f rd) j
    \<and> (\<forall>r. r \<noteq> rd \<longrightarrow> fold (pmull_step rd rn rm off) is f r = f r)"
  using assms
proof (induction "is" arbitrary: f)
  case (Cons i "is")
  let ?f = "pmull_step rd rn rm off i f"
  have i: "2 * i + 2 \<le> 16" "2 * j + 2 \<le> 16" "i \<noteq> j" using Cons.prems(2-4) by auto
  have ok: "vfile_ok ?f" using Cons.prems(1) i(1) by (auto simp: pmull_step_def vfile_ok_def)
  have "lane 2 (?f rd) j = lane 2 (f rd) j"
    using lane_set_lane[of 2 i "f rd" j] Cons.prems(1) i by (simp add: pmull_step_def vfile_ok_def)
  moreover have "\<forall>r. r \<noteq> rd \<longrightarrow> ?f r = f r" by (simp add: pmull_step_def)
  ultimately show ?case using Cons.IH[OF ok] Cons.prems(2-4) by simp
qed simp

lemma pmull_fold_split: "i < 8 \<Longrightarrow> [0..<8] = [0..<i] @ i # [Suc i..<8]"
  using upt_add_eq_append[of 0 i "8 - i"] by (simp add: upt_conv_Cons)

text \<open>
  PMULL and PMULL2 on bytes write the eight carry-less products when the destination is a
  third register; with the first source as destination the low form has overwritten byte 1 with the
  high byte of the first product before it multiplies byte 1.
\<close>

theorem pmull_bytes:
  assumes "vfile_ok f" "i < 8" "rd \<noteq> rm"
  shows "(rd \<noteq> rn \<longrightarrow> lane 2 (pmull_helper rd rn rm q 0 f rd) i
      = uint (pmull8 (f rn ! ((if q then 8 else 0) + i)) (f rm ! ((if q then 8 else 0) + i))))
    \<and> lane 2 (pmull_helper rd rd rm False 0 f rd) 1
      = uint (pmull8 (word_of_int (uint (pmull8 (f rd ! 0) (f rm ! 0)) div 256)) (f rm ! 1))"
proof -
  have u: "uint (x :: u16) mod 65536 = uint x" for x using uint_lt2p[of x] by simp
  have len: "length (f r) = 16" for r using assms(1) by (simp add: vfile_ok_def)
  let ?off = "if q then 8 else 0 :: nat"
  let ?s = "\<lambda>is f. fold (pmull_step rd rn rm ?off) is f"
  have last: "lane 2 (fold (pmull_step rd rn' rm off) [0..<8] f rd) i
      = uint (pmull8 (fold (pmull_step rd rn' rm off) [0..<i] f rn' ! (off + i)) (f rm ! (off + i)))"
    if "i < 8" for i off rn'
  proof -
    let ?g = "fold (pmull_step rd rn' rm off) [0..<i] f"
    have g: "vfile_ok ?g" "?g rm = f rm"
      using pmull_steps_keep[OF assms(1), of i "[0..<i]" rd rn' rm off] that assms(3) by auto
    have sp: "fold (pmull_step rd rn' rm off) [0..<8] f
        = fold (pmull_step rd rn' rm off) [Suc i..<8] (pmull_step rd rn' rm off i ?g)"
      by (simp add: pmull_fold_split[OF that])
    have ok: "vfile_ok (pmull_step rd rn' rm off i ?g)"
      using g(1) that by (auto simp: pmull_step_def vfile_ok_def)
    show ?thesis
      using pmull_steps_keep[OF ok, of i "[Suc i..<8]" rd rn' rm off] that g
        lane_set_lane[of 2 i "?g rd" i] u
      unfolding sp by (simp add: pmull_step_def vfile_ok_def)
  qed
  have "rd \<noteq> rn \<longrightarrow> lane 2 (pmull_helper rd rn rm q 0 f rd) i
      = uint (pmull8 (f rn ! (?off + i)) (f rm ! (?off + i)))"
    using last[OF assms(2), of rn ?off] pmull_steps_keep[OF assms(1), of i "[0..<i]" rd rn rm ?off] assms(2)
    by (auto simp: pmull_helper_def)
  moreover have "set_lane 2 0 x (f rd) ! 1 = word_of_int (x div 256)" for x
    using len[of rd] by (simp add: set_lane_def numeral_2_eq_2)
  then have "lane 2 (pmull_helper rd rd rm False 0 f rd) 1
      = uint (pmull8 (word_of_int (uint (pmull8 (f rd ! 0) (f rm ! 0)) div 256)) (f rm ! 1))"
    using last[of 1 rd 0] by (simp add: pmull_helper_def pmull_step_def)
  ultimately show ?thesis by blast
qed

lemma pmull_bytes_witness:
  "lane 2 (pmull_helper 3 1 2 False 0 demo_file 3) 1 = uint (pmull8 2 0xee)"
  using pmull_bytes[OF demo_file_ok, of 1 3 2 1 False] by (simp add: demo_file_def)

text \<open>Three-way exclusive or, also where the destination is a source.\<close>

lemma eor3_spec:
  assumes "vfile_ok f" "i < 16"
  shows "eor3_helper rd rn rm ra f rd ! i = f rn ! i XOR f rm ! i XOR f ra ! i"
proof -
  let ?g = "\<lambda>n. fold (eor3_step rd rn rm ra) [0..<n] f"
  have "\<forall>r i. (?g n r ! i = (if r = rd \<and> i < n then f rn ! i XOR f rm ! i XOR f ra ! i else f r ! i))
      \<and> length (?g n r) = 16" if "n \<le> 16" for n
    using that
  proof (induction n)
    case (Suc n)
    define g where "g = ?g n"
    have IH: "g r ! i = (if r = rd \<and> i < n then f rn ! i XOR f rm ! i XOR f ra ! i else f r ! i)"
      "length (g r) = 16" for r i using Suc by (auto simp: g_def)
    have st: "?g (Suc n) = eor3_step rd rn rm ra n g" by (simp add: g_def)
    show ?case using Suc.prems unfolding st by (auto simp: eor3_step_def nth_list_update IH)
  qed (use assms(1) in \<open>simp add: vfile_ok_def\<close>)
  from this[of 16] show ?thesis using assms(2) by (simp add: eor3_helper_def)
qed

end
