(* ===== verification/Crypto_Helpers.thy ===== *)
theory Crypto_Helpers
  imports Ish_Prelude
begin

text \<open>
  The block cipher and hash helpers of \<^verbatim>\<open>asbestos/guest-arm64/crypto_helpers.c\<close>: AES rounds, the
  SHA-1, SHA-256, SHA-512, SM3 and SM4 steps. A helper updates an array of bytes or words through
  a pointer; the model takes the arrays as lists and returns the updated one. Where the C code
  stores before it has read everything the stores are written out in its order.
  The standards the helpers implement (FIPS 197 and 180-4, SM3, SM4) are given as recurrences in
  their own section, and the properties relate the two.
\<close>

unbundle bit_operations_syntax

section \<open>AES\<close>

definition aes_sbox :: "byte list" where
  "aes_sbox =
    [0x63, 0x7c, 0x77, 0x7b, 0xf2, 0x6b, 0x6f, 0xc5, 0x30, 0x01, 0x67, 0x2b, 0xfe, 0xd7, 0xab, 0x76,
     0xca, 0x82, 0xc9, 0x7d, 0xfa, 0x59, 0x47, 0xf0, 0xad, 0xd4, 0xa2, 0xaf, 0x9c, 0xa4, 0x72, 0xc0,
     0xb7, 0xfd, 0x93, 0x26, 0x36, 0x3f, 0xf7, 0xcc, 0x34, 0xa5, 0xe5, 0xf1, 0x71, 0xd8, 0x31, 0x15,
     0x04, 0xc7, 0x23, 0xc3, 0x18, 0x96, 0x05, 0x9a, 0x07, 0x12, 0x80, 0xe2, 0xeb, 0x27, 0xb2, 0x75,
     0x09, 0x83, 0x2c, 0x1a, 0x1b, 0x6e, 0x5a, 0xa0, 0x52, 0x3b, 0xd6, 0xb3, 0x29, 0xe3, 0x2f, 0x84,
     0x53, 0xd1, 0x00, 0xed, 0x20, 0xfc, 0xb1, 0x5b, 0x6a, 0xcb, 0xbe, 0x39, 0x4a, 0x4c, 0x58, 0xcf,
     0xd0, 0xef, 0xaa, 0xfb, 0x43, 0x4d, 0x33, 0x85, 0x45, 0xf9, 0x02, 0x7f, 0x50, 0x3c, 0x9f, 0xa8,
     0x51, 0xa3, 0x40, 0x8f, 0x92, 0x9d, 0x38, 0xf5, 0xbc, 0xb6, 0xda, 0x21, 0x10, 0xff, 0xf3, 0xd2,
     0xcd, 0x0c, 0x13, 0xec, 0x5f, 0x97, 0x44, 0x17, 0xc4, 0xa7, 0x7e, 0x3d, 0x64, 0x5d, 0x19, 0x73,
     0x60, 0x81, 0x4f, 0xdc, 0x22, 0x2a, 0x90, 0x88, 0x46, 0xee, 0xb8, 0x14, 0xde, 0x5e, 0x0b, 0xdb,
     0xe0, 0x32, 0x3a, 0x0a, 0x49, 0x06, 0x24, 0x5c, 0xc2, 0xd3, 0xac, 0x62, 0x91, 0x95, 0xe4, 0x79,
     0xe7, 0xc8, 0x37, 0x6d, 0x8d, 0xd5, 0x4e, 0xa9, 0x6c, 0x56, 0xf4, 0xea, 0x65, 0x7a, 0xae, 0x08,
     0xba, 0x78, 0x25, 0x2e, 0x1c, 0xa6, 0xb4, 0xc6, 0xe8, 0xdd, 0x74, 0x1f, 0x4b, 0xbd, 0x8b, 0x8a,
     0x70, 0x3e, 0xb5, 0x66, 0x48, 0x03, 0xf6, 0x0e, 0x61, 0x35, 0x57, 0xb9, 0x86, 0xc1, 0x1d, 0x9e,
     0xe1, 0xf8, 0x98, 0x11, 0x69, 0xd9, 0x8e, 0x94, 0x9b, 0x1e, 0x87, 0xe9, 0xce, 0x55, 0x28, 0xdf,
     0x8c, 0xa1, 0x89, 0x0d, 0xbf, 0xe6, 0x42, 0x68, 0x41, 0x99, 0x2d, 0x0f, 0xb0, 0x54, 0xbb, 0x16]"

definition aes_inv_sbox :: "byte list" where
  "aes_inv_sbox =
    [0x52, 0x09, 0x6a, 0xd5, 0x30, 0x36, 0xa5, 0x38, 0xbf, 0x40, 0xa3, 0x9e, 0x81, 0xf3, 0xd7, 0xfb,
     0x7c, 0xe3, 0x39, 0x82, 0x9b, 0x2f, 0xff, 0x87, 0x34, 0x8e, 0x43, 0x44, 0xc4, 0xde, 0xe9, 0xcb,
     0x54, 0x7b, 0x94, 0x32, 0xa6, 0xc2, 0x23, 0x3d, 0xee, 0x4c, 0x95, 0x0b, 0x42, 0xfa, 0xc3, 0x4e,
     0x08, 0x2e, 0xa1, 0x66, 0x28, 0xd9, 0x24, 0xb2, 0x76, 0x5b, 0xa2, 0x49, 0x6d, 0x8b, 0xd1, 0x25,
     0x72, 0xf8, 0xf6, 0x64, 0x86, 0x68, 0x98, 0x16, 0xd4, 0xa4, 0x5c, 0xcc, 0x5d, 0x65, 0xb6, 0x92,
     0x6c, 0x70, 0x48, 0x50, 0xfd, 0xed, 0xb9, 0xda, 0x5e, 0x15, 0x46, 0x57, 0xa7, 0x8d, 0x9d, 0x84,
     0x90, 0xd8, 0xab, 0x00, 0x8c, 0xbc, 0xd3, 0x0a, 0xf7, 0xe4, 0x58, 0x05, 0xb8, 0xb3, 0x45, 0x06,
     0xd0, 0x2c, 0x1e, 0x8f, 0xca, 0x3f, 0x0f, 0x02, 0xc1, 0xaf, 0xbd, 0x03, 0x01, 0x13, 0x8a, 0x6b,
     0x3a, 0x91, 0x11, 0x41, 0x4f, 0x67, 0xdc, 0xea, 0x97, 0xf2, 0xcf, 0xce, 0xf0, 0xb4, 0xe6, 0x73,
     0x96, 0xac, 0x74, 0x22, 0xe7, 0xad, 0x35, 0x85, 0xe2, 0xf9, 0x37, 0xe8, 0x1c, 0x75, 0xdf, 0x6e,
     0x47, 0xf1, 0x1a, 0x71, 0x1d, 0x29, 0xc5, 0x89, 0x6f, 0xb7, 0x62, 0x0e, 0xaa, 0x18, 0xbe, 0x1b,
     0xfc, 0x56, 0x3e, 0x4b, 0xc6, 0xd2, 0x79, 0x20, 0x9a, 0xdb, 0xc0, 0xfe, 0x78, 0xcd, 0x5a, 0xf4,
     0x1f, 0xdd, 0xa8, 0x33, 0x88, 0x07, 0xc7, 0x31, 0xb1, 0x12, 0x10, 0x59, 0x27, 0x80, 0xec, 0x5f,
     0x60, 0x51, 0x7f, 0xa9, 0x19, 0xb5, 0x4a, 0x0d, 0x2d, 0xe5, 0x7a, 0x9f, 0x93, 0xc9, 0x9c, 0xef,
     0xa0, 0xe0, 0x3b, 0x4d, 0xae, 0x2a, 0xf5, 0xb0, 0xc8, 0xeb, 0xbb, 0x3c, 0x83, 0x53, 0x99, 0x61,
     0x17, 0x2b, 0x04, 0x7e, 0xba, 0x77, 0xd6, 0x26, 0xe1, 0x69, 0x14, 0x63, 0x55, 0x21, 0x0c, 0x7d]"

definition sm4_sbox :: "byte list" where
  "sm4_sbox =
    [0xd6, 0x90, 0xe9, 0xfe, 0xcc, 0xe1, 0x3d, 0xb7, 0x16, 0xb6, 0x14, 0xc2, 0x28, 0xfb, 0x2c, 0x05,
     0x2b, 0x67, 0x9a, 0x76, 0x2a, 0xbe, 0x04, 0xc3, 0xaa, 0x44, 0x13, 0x26, 0x49, 0x86, 0x06, 0x99,
     0x9c, 0x42, 0x50, 0xf4, 0x91, 0xef, 0x98, 0x7a, 0x33, 0x54, 0x0b, 0x43, 0xed, 0xcf, 0xac, 0x62,
     0xe4, 0xb3, 0x1c, 0xa9, 0xc9, 0x08, 0xe8, 0x95, 0x80, 0xdf, 0x94, 0xfa, 0x75, 0x8f, 0x3f, 0xa6,
     0x47, 0x07, 0xa7, 0xfc, 0xf3, 0x73, 0x17, 0xba, 0x83, 0x59, 0x3c, 0x19, 0xe6, 0x85, 0x4f, 0xa8,
     0x68, 0x6b, 0x81, 0xb2, 0x71, 0x64, 0xda, 0x8b, 0xf8, 0xeb, 0x0f, 0x4b, 0x70, 0x56, 0x9d, 0x35,
     0x1e, 0x24, 0x0e, 0x5e, 0x63, 0x58, 0xd1, 0xa2, 0x25, 0x22, 0x7c, 0x3b, 0x01, 0x21, 0x78, 0x87,
     0xd4, 0x00, 0x46, 0x57, 0x9f, 0xd3, 0x27, 0x52, 0x4c, 0x36, 0x02, 0xe7, 0xa0, 0xc4, 0xc8, 0x9e,
     0xea, 0xbf, 0x8a, 0xd2, 0x40, 0xc7, 0x38, 0xb5, 0xa3, 0xf7, 0xf2, 0xce, 0xf9, 0x61, 0x15, 0xa1,
     0xe0, 0xae, 0x5d, 0xa4, 0x9b, 0x34, 0x1a, 0x55, 0xad, 0x93, 0x32, 0x30, 0xf5, 0x8c, 0xb1, 0xe3,
     0x1d, 0xf6, 0xe2, 0x2e, 0x82, 0x66, 0xca, 0x60, 0xc0, 0x29, 0x23, 0xab, 0x0d, 0x53, 0x4e, 0x6f,
     0xd5, 0xdb, 0x37, 0x45, 0xde, 0xfd, 0x8e, 0x2f, 0x03, 0xff, 0x6a, 0x72, 0x6d, 0x6c, 0x5b, 0x51,
     0x8d, 0x1b, 0xaf, 0x92, 0xbb, 0xdd, 0xbc, 0x7f, 0x11, 0xd9, 0x5c, 0x41, 0x1f, 0x10, 0x5a, 0xd8,
     0x0a, 0xc1, 0x31, 0x88, 0xa5, 0xcd, 0x7b, 0xbd, 0x2d, 0x74, 0xd0, 0x12, 0xb8, 0xe5, 0xb4, 0xb0,
     0x89, 0x69, 0x97, 0x4a, 0x0c, 0x96, 0x77, 0x7e, 0x65, 0xb9, 0xf1, 0x09, 0xc5, 0x6e, 0xc6, 0x84,
     0x18, 0xf0, 0x7d, 0xec, 0x3a, 0xdc, 0x4d, 0x20, 0x79, 0xee, 0x5f, 0x3e, 0xd7, 0xcb, 0x39, 0x48]"

text \<open>The rows of the state are moved with a temporary, in the order of the assignments.\<close>

definition aes_shiftrows :: "byte list \<Rightarrow> byte list" where
  "aes_shiftrows s =
     (let tmp = s ! 1;
          s = s[1 := s ! 5]; s = s[5 := s ! 9]; s = s[9 := s ! 13]; s = s[13 := tmp];
          tmp = s ! 2; s = s[2 := s ! 10]; s = s[10 := tmp];
          tmp = s ! 6; s = s[6 := s ! 14]; s = s[14 := tmp];
          tmp = s ! 15; s = s[15 := s ! 11]; s = s[11 := s ! 7]; s = s[7 := s ! 3]
      in s[3 := tmp])"

definition aes_inv_shiftrows :: "byte list \<Rightarrow> byte list" where
  "aes_inv_shiftrows s =
     (let tmp = s ! 13;
          s = s[13 := s ! 9]; s = s[9 := s ! 5]; s = s[5 := s ! 1]; s = s[1 := tmp];
          tmp = s ! 2; s = s[2 := s ! 10]; s = s[10 := tmp];
          tmp = s ! 6; s = s[6 := s ! 14]; s = s[14 := tmp];
          tmp = s ! 3; s = s[3 := s ! 7]; s = s[7 := s ! 11]; s = s[11 := s ! 15]
      in s[15 := tmp])"

definition aes_subbytes_shiftrows :: "byte list \<Rightarrow> byte list" where
  "aes_subbytes_shiftrows s = map (\<lambda>b. aes_sbox ! unat b) (aes_shiftrows s)"

definition aes_inv_subbytes_shiftrows :: "byte list \<Rightarrow> byte list" where
  "aes_inv_subbytes_shiftrows s = map (\<lambda>b. aes_inv_sbox ! unat b) (aes_inv_shiftrows s)"

text \<open>The eight turns of the multiplication loop; a turn doubles \<open>a\<close> modulo the polynomial.\<close>

definition xtime :: "byte \<Rightarrow> byte" where
  "xtime a = (if bit a 7 then push_bit 1 a XOR 0x1b else push_bit 1 a)"

fun gmul_loop :: "nat \<Rightarrow> byte \<Rightarrow> byte \<Rightarrow> byte \<Rightarrow> byte" where
  "gmul_loop 0 a b p = p"
| "gmul_loop (Suc n) a b p = gmul_loop n (xtime a) (drop_bit 1 b) (if bit b 0 then p XOR a else p)"

definition gmul :: "byte \<Rightarrow> byte \<Rightarrow> byte" where
  "gmul a b = gmul_loop 8 a b 0"

fun mix_column :: "byte list \<Rightarrow> byte list" where
  "mix_column [a0, a1, a2, a3] =
     [gmul a0 2 XOR gmul a1 3 XOR a2 XOR a3,
      a0 XOR gmul a1 2 XOR gmul a2 3 XOR a3,
      a0 XOR a1 XOR gmul a2 2 XOR gmul a3 3,
      gmul a0 3 XOR a1 XOR a2 XOR gmul a3 2]"
| "mix_column s = s"

fun inv_mix_column :: "byte list \<Rightarrow> byte list" where
  "inv_mix_column [a0, a1, a2, a3] =
     [gmul a0 0x0e XOR gmul a1 0x0b XOR gmul a2 0x0d XOR gmul a3 0x09,
      gmul a0 0x09 XOR gmul a1 0x0e XOR gmul a2 0x0b XOR gmul a3 0x0d,
      gmul a0 0x0d XOR gmul a1 0x09 XOR gmul a2 0x0e XOR gmul a3 0x0b,
      gmul a0 0x0b XOR gmul a1 0x0d XOR gmul a2 0x09 XOR gmul a3 0x0e]"
| "inv_mix_column s = s"

text \<open>The loop over the four columns of a 16-byte state.\<close>

definition on_columns :: "(byte list \<Rightarrow> byte list) \<Rightarrow> byte list \<Rightarrow> byte list" where
  "on_columns f s = concat (map (\<lambda>c. f (take 4 (drop (c * 4) s))) [0..<4])"

definition aes_mixcolumns :: "byte list \<Rightarrow> byte list" where
  "aes_mixcolumns = on_columns mix_column"

definition aes_inv_mixcolumns :: "byte list \<Rightarrow> byte list" where
  "aes_inv_mixcolumns = on_columns inv_mix_column"

section \<open>Rotations\<close>

text \<open>All calls rotate by constants between 1 and 31 (\<open>ror64\<close> takes any amount).\<close>

definition rotl32 :: "u32 \<Rightarrow> nat \<Rightarrow> u32" where
  "rotl32 x n = push_bit n x OR drop_bit (32 - n) x"

definition rol32 :: "u32 \<Rightarrow> nat \<Rightarrow> u32" where
  "rol32 x n = push_bit n x OR drop_bit (32 - n) x"

definition rotr32 :: "u32 \<Rightarrow> nat \<Rightarrow> u32" where
  "rotr32 x n = drop_bit n x OR push_bit (32 - n) x"

definition ror64 :: "u64 \<Rightarrow> nat \<Rightarrow> u64" where
  "ror64 x n = (let n = n mod 64 in if n = 0 then x else drop_bit n x OR push_bit (64 - n) x)"

section \<open>SHA-1\<close>

definition sha1_choose :: "u32 \<Rightarrow> u32 \<Rightarrow> u32 \<Rightarrow> u32" where
  "sha1_choose b c d = (b AND c) OR (NOT b AND d)"

definition sha1_parity :: "u32 \<Rightarrow> u32 \<Rightarrow> u32 \<Rightarrow> u32" where
  "sha1_parity b c d = b XOR c XOR d"

definition sha1_majority :: "u32 \<Rightarrow> u32 \<Rightarrow> u32 \<Rightarrow> u32" where
  "sha1_majority b c d = (b AND c) OR (b AND d) OR (c AND d)"

text \<open>The loop the three update helpers share, one turn per element of the schedule.\<close>

fun sha1_loop :: "(u32 \<Rightarrow> u32 \<Rightarrow> u32 \<Rightarrow> u32) \<Rightarrow> u32 list \<Rightarrow> u32 \<times> u32 \<times> u32 \<times> u32 \<times> u32
    \<Rightarrow> u32 \<times> u32 \<times> u32 \<times> u32 \<times> u32" where
  "sha1_loop ff [] st = st"
| "sha1_loop ff (w # ws) (a, b, c, d, e) =
     sha1_loop ff ws (rotl32 a 5 + ff b c d + e + w, a, rotl32 b 30, c, d)"

definition sha1_update :: "(u32 \<Rightarrow> u32 \<Rightarrow> u32 \<Rightarrow> u32) \<Rightarrow> u32 list \<Rightarrow> u32 \<Rightarrow> u32 list \<Rightarrow> u32 list" where
  "sha1_update ff qd sn vm =
     (case sha1_loop ff [vm ! 0, vm ! 1, vm ! 2, vm ! 3] (qd ! 0, qd ! 1, qd ! 2, qd ! 3, sn) of
        (a, b, c, d, e) \<Rightarrow> [a, b, c, d])"

definition sha1c_helper :: "u32 list \<Rightarrow> u32 \<Rightarrow> u32 list \<Rightarrow> u32 list" where
  "sha1c_helper = sha1_update sha1_choose"

definition sha1m_helper :: "u32 list \<Rightarrow> u32 \<Rightarrow> u32 list \<Rightarrow> u32 list" where
  "sha1m_helper = sha1_update sha1_majority"

definition sha1p_helper :: "u32 list \<Rightarrow> u32 \<Rightarrow> u32 list \<Rightarrow> u32 list" where
  "sha1p_helper = sha1_update sha1_parity"

definition sha1su0_helper :: "u32 list \<Rightarrow> u32 list \<Rightarrow> u32 list \<Rightarrow> u32 list" where
  "sha1su0_helper vd vn vm =
     [vd ! 2 XOR vd ! 0 XOR vm ! 0, vd ! 3 XOR vd ! 1 XOR vm ! 1,
      vn ! 0 XOR vd ! 2 XOR vm ! 2, vn ! 1 XOR vd ! 3 XOR vm ! 3]"

definition sha1su1_helper :: "u32 list \<Rightarrow> u32 list \<Rightarrow> u32 list" where
  "sha1su1_helper vd vn =
     (let t0 = vd ! 0 XOR vn ! 1; t1 = vd ! 1 XOR vn ! 2; t2 = vd ! 2 XOR vn ! 3; t3 = vd ! 3
      in [rotl32 t0 1, rotl32 t1 1, rotl32 t2 1, rotl32 t3 1 XOR rotl32 t0 3])"

section \<open>SHA-256\<close>

definition sha256_sigma0 :: "u32 \<Rightarrow> u32" where
  "sha256_sigma0 x = rotr32 x 2 XOR rotr32 x 13 XOR rotr32 x 22"

definition sha256_sigma1 :: "u32 \<Rightarrow> u32" where
  "sha256_sigma1 x = rotr32 x 6 XOR rotr32 x 11 XOR rotr32 x 25"

definition sha256_sig0 :: "u32 \<Rightarrow> u32" where
  "sha256_sig0 x = rotr32 x 7 XOR rotr32 x 18 XOR drop_bit 3 x"

definition sha256_sig1 :: "u32 \<Rightarrow> u32" where
  "sha256_sig1 x = rotr32 x 17 XOR rotr32 x 19 XOR drop_bit 10 x"

definition sha256_ch :: "u32 \<Rightarrow> u32 \<Rightarrow> u32 \<Rightarrow> u32" where
  "sha256_ch e f g = (e AND f) XOR (NOT e AND g)"

definition sha256_maj :: "u32 \<Rightarrow> u32 \<Rightarrow> u32 \<Rightarrow> u32" where
  "sha256_maj a b c = (a AND b) XOR (a AND c) XOR (b AND c)"

type_synonym sha256_vars = "(u32 \<times> u32 \<times> u32 \<times> u32) \<times> (u32 \<times> u32 \<times> u32 \<times> u32)"

fun sha256_loop :: "u32 list \<Rightarrow> sha256_vars \<Rightarrow> sha256_vars" where
  "sha256_loop [] st = st"
| "sha256_loop (w # ws) ((a, b, c, d), (e, f, g, h)) =
     (let t1 = h + sha256_sigma1 e + sha256_ch e f g + w;
          t2 = sha256_sigma0 a + sha256_maj a b c
      in sha256_loop ws ((t1 + t2, a, b, c), (d + t1, e, f, g)))"

definition sha256h_helper :: "u32 list \<Rightarrow> u32 list \<Rightarrow> u32 list \<Rightarrow> u32 list" where
  "sha256h_helper qd qn vm =
     (case sha256_loop [vm ! 0, vm ! 1, vm ! 2, vm ! 3]
             ((qd ! 0, qd ! 1, qd ! 2, qd ! 3), (qn ! 0, qn ! 1, qn ! 2, qn ! 3)) of
        ((a, b, c, d), _) \<Rightarrow> [a, b, c, d])"

definition sha256h2_helper :: "u32 list \<Rightarrow> u32 list \<Rightarrow> u32 list \<Rightarrow> u32 list" where
  "sha256h2_helper qd qn vm =
     (case sha256_loop [vm ! 0, vm ! 1, vm ! 2, vm ! 3]
             ((qn ! 0, qn ! 1, qn ! 2, qn ! 3), (qd ! 0, qd ! 1, qd ! 2, qd ! 3)) of
        (_, (e, f, g, h)) \<Rightarrow> [e, f, g, h])"

definition sha256su0_helper :: "u32 list \<Rightarrow> u32 list \<Rightarrow> u32 list" where
  "sha256su0_helper vd vn =
     [vd ! 0 + sha256_sig0 (vd ! 1), vd ! 1 + sha256_sig0 (vd ! 2),
      vd ! 2 + sha256_sig0 (vd ! 3), vd ! 3 + sha256_sig0 (vn ! 0)]"

text \<open>The last two lanes use the first two, already updated.\<close>

definition sha256su1_helper :: "u32 list \<Rightarrow> u32 list \<Rightarrow> u32 list \<Rightarrow> u32 list" where
  "sha256su1_helper vd vn vm =
     (let d0 = vd ! 0 + sha256_sig1 (vm ! 2) + vn ! 1;
          d1 = vd ! 1 + sha256_sig1 (vm ! 3) + vn ! 2;
          d2 = vd ! 2 + sha256_sig1 d0 + vn ! 3;
          d3 = vd ! 3 + sha256_sig1 d1 + vm ! 0
      in [d0, d1, d2, d3])"

section \<open>SHA-512\<close>

definition sha512_s0 :: "u64 \<Rightarrow> u64" where
  "sha512_s0 x = ror64 x 1 XOR ror64 x 8 XOR drop_bit 7 x"

definition sha512_s1 :: "u64 \<Rightarrow> u64" where
  "sha512_s1 x = ror64 x 19 XOR ror64 x 61 XOR drop_bit 6 x"

definition sha512_sum0 :: "u64 \<Rightarrow> u64" where
  "sha512_sum0 x = ror64 x 28 XOR ror64 x 34 XOR ror64 x 39"

definition sha512_sum1 :: "u64 \<Rightarrow> u64" where
  "sha512_sum1 x = ror64 x 14 XOR ror64 x 18 XOR ror64 x 41"

definition sha512_ch :: "u64 \<Rightarrow> u64 \<Rightarrow> u64 \<Rightarrow> u64" where
  "sha512_ch x y z = (x AND y) XOR (NOT x AND z)"

definition sha512_maj :: "u64 \<Rightarrow> u64 \<Rightarrow> u64 \<Rightarrow> u64" where
  "sha512_maj x y z = (x AND y) XOR (x AND z) XOR (y AND z)"

definition sha512su0_helper :: "u64 list \<Rightarrow> u64 list \<Rightarrow> u64 list" where
  "sha512su0_helper vd vn = [vd ! 0 + sha512_s0 (vd ! 1), vd ! 1 + sha512_s0 (vn ! 0)]"

definition sha512su1_helper :: "u64 list \<Rightarrow> u64 list \<Rightarrow> u64 list \<Rightarrow> u64 list" where
  "sha512su1_helper vd vn vm =
     [vd ! 0 + sha512_s1 (vn ! 0) + vm ! 0, vd ! 1 + sha512_s1 (vn ! 1) + vm ! 1]"

definition sha512h_helper :: "u64 list \<Rightarrow> u64 list \<Rightarrow> u64 list \<Rightarrow> u64 list" where
  "sha512h_helper vd vn vm =
     (let x0 = vn ! 0; x1 = vn ! 1; y0 = vm ! 0; y1 = vm ! 1; w0 = vd ! 0; w1 = vd ! 1;
          vtmp1 = sha512_ch y1 x0 x1 + sha512_sum1 y1 + w1;
          tmp = vtmp1 + y0;
          vtmp0 = sha512_ch tmp y1 x0 + sha512_sum1 tmp + w0
      in [vtmp0, vtmp1])"

definition sha512h2_helper :: "u64 list \<Rightarrow> u64 list \<Rightarrow> u64 list \<Rightarrow> u64 list" where
  "sha512h2_helper vd vn vm =
     (let x0 = vn ! 0; y0 = vm ! 0; y1 = vm ! 1; w0 = vd ! 0; w1 = vd ! 1;
          vtmp1 = sha512_maj x0 y1 y0 + sha512_sum0 y0 + w1;
          vtmp0 = sha512_maj vtmp1 y0 y1 + sha512_sum0 vtmp1 + w0
      in [vtmp0, vtmp1])"

section \<open>SM3 and SM4\<close>

definition sm3partw1_helper :: "u32 list \<Rightarrow> u32 list \<Rightarrow> u32 list \<Rightarrow> u32 list" where
  "sm3partw1_helper vd vn vm =
     (let t0 = vd ! 0 XOR vn ! 0; t1 = vd ! 1 XOR vn ! 1;
          t2 = vd ! 2 XOR vn ! 2; t3 = vd ! 3 XOR vn ! 3;
          r0 = t0 XOR rol32 (vm ! 1) 15; r1 = t1 XOR rol32 (vm ! 2) 15;
          r2 = t2 XOR rol32 (vm ! 3) 15; r3 = t3 XOR rol32 r0 15
      in [r0 XOR rol32 r0 15 XOR rol32 r0 23, r1 XOR rol32 r1 15 XOR rol32 r1 23,
          r2 XOR rol32 r2 15 XOR rol32 r2 23, r3 XOR rol32 r3 15 XOR rol32 r3 23])"

definition sm4_sbox_sub :: "u32 \<Rightarrow> u32" where
  "sm4_sbox_sub x =
     ucast (sm4_sbox ! unat (x AND 0xff))
     OR push_bit 8 (ucast (sm4_sbox ! unat (drop_bit 8 x AND 0xff)))
     OR push_bit 16 (ucast (sm4_sbox ! unat (drop_bit 16 x AND 0xff)))
     OR push_bit 24 (ucast (sm4_sbox ! unat (drop_bit 24 x AND 0xff)))"

definition sm4_t :: "u32 \<Rightarrow> u32" where
  "sm4_t x = (let y = sm4_sbox_sub x in y XOR rol32 y 2 XOR rol32 y 10 XOR rol32 y 18 XOR rol32 y 24)"

fun sm4_loop :: "u32 list \<Rightarrow> u32 \<times> u32 \<times> u32 \<times> u32 \<Rightarrow> u32 \<times> u32 \<times> u32 \<times> u32" where
  "sm4_loop [] r = r"
| "sm4_loop (rk # rks) (r0, r1, r2, r3) =
     sm4_loop rks (r1, r2, r3, sm4_t (r1 XOR r2 XOR r3 XOR rk) XOR r0)"

definition sm4e_helper :: "u32 list \<Rightarrow> u32 list \<Rightarrow> u32 list" where
  "sm4e_helper vd vn =
     (case sm4_loop [vn ! 0, vn ! 1, vn ! 2, vn ! 3] (vd ! 0, vd ! 1, vd ! 2, vd ! 3) of
        (a, b, c, d) \<Rightarrow> [a, b, c, d])"

section \<open>SVE\<close>

definition sve_eor_d_helper :: "u64 list \<Rightarrow> u64 list \<Rightarrow> u64 list" where
  "sve_eor_d_helper vn vm = [vn ! 0 XOR vm ! 0, vn ! 1 XOR vm ! 1]"

definition sve_xar_d_helper :: "u64 list \<Rightarrow> u64 list \<Rightarrow> u32 \<Rightarrow> u64 list" where
  "sve_xar_d_helper vn vm imm =
     (let n = unat (imm AND 63) in [ror64 (vn ! 0 XOR vm ! 0) n, ror64 (vn ! 1 XOR vm ! 1) n])"

section \<open>AES: the decryption steps undo the encryption steps\<close>

lemma inv_sbox_table: "map (\<lambda>b. aes_inv_sbox ! unat b) aes_sbox = map of_nat [0..<256]"
  by code_simp

lemma inv_sbox_sbox: "aes_inv_sbox ! unat (aes_sbox ! unat b) = b"
proof -
  have b: "unat b < 256" by (rule order.strict_trans2[OF unsigned_less]) simp
  have "length aes_sbox = 256" by (simp add: aes_sbox_def)
  then have "aes_inv_sbox ! unat (aes_sbox ! unat b) = map (\<lambda>b. aes_inv_sbox ! unat b) aes_sbox ! unat b"
    using b by simp
  also have "\<dots> = of_nat (unat b)" using b unfolding inv_sbox_table by simp
  finally show ?thesis by simp
qed

lemma list16:
  assumes "length v = 16"
  obtains a b c d e f g h i j k l m n p q where "v = [a,b,c,d,e,f,g,h,i,j,k,l,m,n,p,q]"
  using assms by (auto simp: length_Suc_conv numeral_eq_Suc)

lemma inv_shiftrows_shiftrows: "length s = 16 \<Longrightarrow> aes_inv_shiftrows (map g (aes_shiftrows s)) = map g s"
  by (erule list16) (simp add: aes_shiftrows_def aes_inv_shiftrows_def Let_def)

lemma inv_subbytes_subbytes:
  assumes "length s = 16"
  shows "aes_inv_subbytes_shiftrows (aes_subbytes_shiftrows s) = s"
  unfolding aes_inv_subbytes_shiftrows_def aes_subbytes_shiftrows_def inv_shiftrows_shiftrows[OF assms]
  by (simp add: comp_def inv_sbox_sbox)

lemma xtime_xor: "xtime (a XOR b) = xtime a XOR xtime b"
  by (auto simp: xtime_def bit_xor_iff push_bit_xor ac_simps)

lemma gmul_bits:
  "gmul a b = (if bit b 0 then a else 0) XOR (if bit b 1 then xtime a else 0)
     XOR (if bit b 2 then xtime (xtime a) else 0) XOR (if bit b 3 then xtime (xtime (xtime a)) else 0)
     XOR (if bit b 4 then xtime (xtime (xtime (xtime a))) else 0)
     XOR (if bit b 5 then xtime (xtime (xtime (xtime (xtime a)))) else 0)
     XOR (if bit b 6 then xtime (xtime (xtime (xtime (xtime (xtime a))))) else 0)
     XOR (if bit b 7 then xtime (xtime (xtime (xtime (xtime (xtime (xtime a)))))) else 0)"
proof -
  have acc: "(if c then p XOR x else p) = p XOR (if c then x else 0)" for c and p x :: byte by simp
  have lin: "gmul_loop n a (drop_bit k b) p = p XOR gmul_loop n a (drop_bit k b) 0" for n k a p
  proof (induction n arbitrary: k a p)
    case (Suc n)
    show ?case
      using Suc[of "xtime a" "Suc k" "if bit b k then p XOR a else p"]
        Suc[of "xtime a" "Suc k" "if bit b k then a else 0"]
      by (cases "bit b k") (simp_all add: bit_drop_bit_eq ac_simps)
  qed simp
  have step: "gmul_loop (Suc n) a (drop_bit k b) 0
      = (if bit b k then a else 0) XOR gmul_loop n (xtime a) (drop_bit (Suc k) b) 0" for n k a
    using lin[of n "xtime a" "Suc k" "if bit b k then a else 0"]
    by (cases "bit b k") (simp_all add: bit_drop_bit_eq)
  have eight: "(8::nat) = Suc (Suc (Suc (Suc (Suc (Suc (Suc (Suc 0)))))))" by simp
  have "gmul a b = gmul_loop 8 a (drop_bit 0 b) 0" by (simp add: gmul_def)
  then show ?thesis unfolding eight step by (simp add: eval_nat_numeral)
qed

lemma gmul_consts:
  "gmul a 2 = xtime a" "gmul a 3 = a XOR xtime a"
  "gmul a 0x09 = a XOR xtime (xtime (xtime a))"
  "gmul a 0x0b = a XOR xtime a XOR xtime (xtime (xtime a))"
  "gmul a 0x0d = a XOR xtime (xtime a) XOR xtime (xtime (xtime a))"
  "gmul a 0x0e = xtime a XOR xtime (xtime a) XOR xtime (xtime (xtime a))"
  by (simp_all add: gmul_bits ac_simps)

lemma xor_cancel: "(a :: 'a::len word) XOR (a XOR b) = b"
  by (simp flip: xor.assoc)

lemma xor_left_inject: "a XOR b = a XOR c \<longleftrightarrow> b = (c :: 'a::len word)"
  by (metis xor_cancel)

lemma inv_mix_column_mix_column: "inv_mix_column (mix_column [a, b, c, d]) = [a, b, c, d]"
  by (simp add: gmul_consts xtime_xor xor.assoc xor.commute xor.left_commute xor_cancel)

lemma columns16:
  "on_columns f [a,b,c,d,e,g,h,i,j,k,l,m,n,p,q,r] = f [a,b,c,d] @ f [e,g,h,i] @ f [j,k,l,m] @ f [n,p,q,r]"
  by (simp add: on_columns_def numeral_eq_Suc)

lemma mix_column_length: "\<exists>w x y z. mix_column [a, b, c, d] = [w, x, y, z]"
  by simp

text \<open>
  The AES decryption steps undo the encryption steps on every 16-byte state: inverse
  ShiftRows and SubBytes undo AESE's, and inverse MixColumns undoes MixColumns.
\<close>

theorem aes_steps_invert:
  assumes "length s = 16"
  shows "aes_inv_subbytes_shiftrows (aes_subbytes_shiftrows s) = s
    \<and> aes_inv_mixcolumns (aes_mixcolumns s) = s"
proof
  show "aes_inv_subbytes_shiftrows (aes_subbytes_shiftrows s) = s"
    by (rule inv_subbytes_subbytes[OF assms])
  show "aes_inv_mixcolumns (aes_mixcolumns s) = s"
  proof (rule list16[OF assms])
    fix a b c d e f g h i j k l m n p q
    assume s: "s = [a, b, c, d, e, f, g, h, i, j, k, l, m, n, p, q]"
    have inv: "inv_mix_column (mix_column [w, x, y, z]) = [w, x, y, z]" for w x y z
      by (rule inv_mix_column_mix_column)
    obtain a1 b1 c1 d1 where m1: "mix_column [a, b, c, d] = [a1, b1, c1, d1]"
      using mix_column_length by blast
    obtain a2 b2 c2 d2 where m2: "mix_column [e, f, g, h] = [a2, b2, c2, d2]"
      using mix_column_length by blast
    obtain a3 b3 c3 d3 where m3: "mix_column [i, j, k, l] = [a3, b3, c3, d3]"
      using mix_column_length by blast
    obtain a4 b4 c4 d4 where m4: "mix_column [m, n, p, q] = [a4, b4, c4, d4]"
      using mix_column_length by blast
    note i1 = inv[of a b c d, unfolded m1] inv[of e f g h, unfolded m2] inv[of i j k l, unfolded m3]
      inv[of m n p q, unfolded m4]
    show "aes_inv_mixcolumns (aes_mixcolumns s) = s"
      unfolding s aes_inv_mixcolumns_def aes_mixcolumns_def columns16 m1 m2 m3 m4 append_Cons append_Nil
      by (simp only: columns16 i1 append_Cons append_Nil)
  qed
qed

lemma aes_steps_invert_witness:
  "aes_inv_mixcolumns (aes_mixcolumns (replicate 15 0xd4 @ [0xbf])) = replicate 15 0xd4 @ [0xbf]"
  using aes_steps_invert[of "replicate 15 0xd4 @ [0xbf]"] by simp

section \<open>Rotations are the rotations of the word library\<close>

lemma shifts_rotr:
  fixes x :: "'a::len word"
  assumes "0 < m" "m < LENGTH('a)"
  shows "drop_bit m x OR push_bit (LENGTH('a) - m) x = word_rotr m x"
proof (rule bit_word_eqI)
  fix i assume i: "i < LENGTH('a)"
  have rot: "bit (word_rotr m x) i = bit x ((i + m) mod LENGTH('a))"
    using i assms by (simp add: bit_word_rotr_iff)
  show "bit (drop_bit m x OR push_bit (LENGTH('a) - m) x) i = bit (word_rotr m x) i"
  proof (cases "i + m < LENGTH('a)")
    case True
    then show ?thesis
      using i rot by (auto simp: bit_or_iff bit_push_bit_iff bit_drop_bit_eq add.commute)
  next
    case False
    then have "\<not> bit x (m + i)" by (auto dest: bit_imp_le_length)
    moreover have "(i + m) mod LENGTH('a) = i - (LENGTH('a) - m)" using False assms i by (simp add: mod_if)
    ultimately show ?thesis
      using False assms i rot by (auto simp: bit_or_iff bit_push_bit_iff bit_drop_bit_eq)
  qed
qed

lemma word_rotr_complement:
  fixes x :: "'a::len word"
  assumes "0 < m" "m < LENGTH('a)"
  shows "word_rotr (LENGTH('a) - m) x = word_rotl m x"
  by (rule bit_word_eqI) (use assms in \<open>simp add: bit_word_rotr_iff bit_word_rotl_iff\<close>)

lemma rotl32_rotl: "0 < n \<Longrightarrow> n < 32 \<Longrightarrow> rotl32 x n = word_rotl n x"
  using shifts_rotr[of "32 - n" x] word_rotr_complement[of n x] by (simp add: rotl32_def or.commute)

lemma rol32_rotl: "0 < n \<Longrightarrow> n < 32 \<Longrightarrow> rol32 x n = word_rotl n x"
  using rotl32_rotl by (simp add: rol32_def rotl32_def)

lemma rotr32_rotr: "0 < n \<Longrightarrow> n < 32 \<Longrightarrow> rotr32 x n = word_rotr n x"
  using shifts_rotr[of n x] by (simp add: rotr32_def)

lemma ror64_rotr: "ror64 x n = word_rotr n x"
proof -
  have "word_rotr (n mod 64) x = word_rotr n x"
    by (rule bit_word_eqI) (simp add: bit_word_rotr_iff mod_add_right_eq)
  moreover have "word_rotr 0 x = x" by (rule bit_word_eqI) (simp add: bit_word_rotr_iff)
  ultimately show ?thesis
    using shifts_rotr[of "n mod 64" x] by (auto simp: ror64_def Let_def)
qed

section \<open>SHA-2: rounds and schedules of the standard\<close>

text \<open>FIPS 180-4, with its own functions over the library's rotations.\<close>

definition fips_ch :: "'a::len word \<Rightarrow> 'a word \<Rightarrow> 'a word \<Rightarrow> 'a word" where
  "fips_ch x y z = (x AND y) XOR (NOT x AND z)"

definition fips_maj :: "'a::len word \<Rightarrow> 'a word \<Rightarrow> 'a word \<Rightarrow> 'a word" where
  "fips_maj x y z = (x AND y) XOR (x AND z) XOR (y AND z)"

definition fips_sum :: "nat \<Rightarrow> nat \<Rightarrow> nat \<Rightarrow> 'a::len word \<Rightarrow> 'a word" where
  "fips_sum i j k x = word_rotr i x XOR word_rotr j x XOR word_rotr k x"

definition fips_sigma :: "nat \<Rightarrow> nat \<Rightarrow> nat \<Rightarrow> 'a::len word \<Rightarrow> 'a word" where
  "fips_sigma i j k x = word_rotr i x XOR word_rotr j x XOR drop_bit k x"

text \<open>One round on the eight working variables; \<open>kw\<close> is the round constant plus the schedule word.\<close>

type_synonym 'w sha2_state = "'w \<times> 'w \<times> 'w \<times> 'w \<times> 'w \<times> 'w \<times> 'w \<times> 'w"

definition sha256_round :: "u32 \<Rightarrow> u32 sha2_state \<Rightarrow> u32 sha2_state" where
  "sha256_round kw = (\<lambda>(a, b, c, d, e, f, g, h).
     let t1 = h + fips_sum 6 11 25 e + fips_ch e f g + kw;
         t2 = fips_sum 2 13 22 a + fips_maj a b c
     in (t1 + t2, a, b, c, d + t1, e, f, g))"

definition sha512_round :: "u64 \<Rightarrow> u64 sha2_state \<Rightarrow> u64 sha2_state" where
  "sha512_round kw = (\<lambda>(a, b, c, d, e, f, g, h).
     let t1 = h + fips_sum 14 18 41 e + fips_ch e f g + kw;
         t2 = fips_sum 28 34 39 a + fips_maj a b c
     in (t1 + t2, a, b, c, d + t1, e, f, g))"

fun sha256_schedule :: "(nat \<Rightarrow> u32) \<Rightarrow> nat \<Rightarrow> u32" where
  "sha256_schedule m t =
     (if t < 16 then m t
      else fips_sigma 17 19 10 (sha256_schedule m (t - 2)) + sha256_schedule m (t - 7)
         + fips_sigma 7 18 3 (sha256_schedule m (t - 15)) + sha256_schedule m (t - 16))"

fun sha512_schedule :: "(nat \<Rightarrow> u64) \<Rightarrow> nat \<Rightarrow> u64" where
  "sha512_schedule m t =
     (if t < 16 then m t
      else fips_sigma 19 61 6 (sha512_schedule m (t - 2)) + sha512_schedule m (t - 7)
         + fips_sigma 1 8 7 (sha512_schedule m (t - 15)) + sha512_schedule m (t - 16))"

declare sha256_schedule.simps [simp del] sha512_schedule.simps [simp del]

lemma sha256_fips:
  "sha256_sigma0 = fips_sum 2 13 22" "sha256_sigma1 = fips_sum 6 11 25"
  "sha256_sig0 = fips_sigma 7 18 3" "sha256_sig1 = fips_sigma 17 19 10"
  "sha256_ch = fips_ch" "sha256_maj = fips_maj"
  by (intro ext, simp add: sha256_sigma0_def sha256_sigma1_def sha256_sig0_def sha256_sig1_def sha256_ch_def
      sha256_maj_def fips_sum_def fips_sigma_def fips_ch_def fips_maj_def rotr32_rotr)+

lemma sha512_fips:
  "sha512_sum0 = fips_sum 28 34 39" "sha512_sum1 = fips_sum 14 18 41"
  "sha512_s0 = fips_sigma 1 8 7" "sha512_s1 = fips_sigma 19 61 6"
  "sha512_ch = fips_ch" "sha512_maj = fips_maj"
  by (intro ext, simp add: sha512_sum0_def sha512_sum1_def sha512_s0_def sha512_s1_def sha512_ch_def
      sha512_maj_def fips_sum_def fips_sigma_def fips_ch_def fips_maj_def ror64_rotr)+

lemma sha256_loop_rounds:
  "sha256_loop ws ((a, b, c, d), (e, f, g, h)) =
     (case fold sha256_round ws (a, b, c, d, e, f, g, h) of
        (a, b, c, d, e, f, g, h) \<Rightarrow> ((a, b, c, d), (e, f, g, h)))"
  by (induction ws arbitrary: a b c d e f g h)
    (simp_all add: sha256_round_def sha256_fips Let_def del: One_nat_def)

text \<open>
  Claim C34. SHA256H and SHA256H2 on the two halves of the working variables are four rounds of
  SHA-256 as FIPS 180-4 defines them.
\<close>

theorem sha256_helpers_four_rounds:
  "fold sha256_round [w0, w1, w2, w3] (a, b, c, d, e, f, g, h) =
     (let ad = sha256h_helper [a, b, c, d] [e, f, g, h] [w0, w1, w2, w3];
          eh = sha256h2_helper [e, f, g, h] [a, b, c, d] [w0, w1, w2, w3]
      in (ad ! 0, ad ! 1, ad ! 2, ad ! 3, eh ! 0, eh ! 1, eh ! 2, eh ! 3))"
proof -
  obtain a' b' c' d' e' f' g' h' where
    r: "fold sha256_round [w0, w1, w2, w3] (a, b, c, d, e, f, g, h) = (a', b', c', d', e', f', g', h')"
    by (metis surj_pair)
  then have "sha256_loop [w0, w1, w2, w3] ((a, b, c, d), (e, f, g, h)) = ((a', b', c', d'), (e', f', g', h'))"
    by (simp only: sha256_loop_rounds) simp
  then show ?thesis
    unfolding r by (simp add: sha256h_helper_def sha256h2_helper_def Let_def del: sha256_loop.simps)
qed

text \<open>
  The schedule helpers compute the message schedules of SHA-256 and SHA-512: SHA256SU0
  and SHA256SU1 give the next four words from the last sixteen, SHA512SU0 and SHA512SU1 the next
  two.
\<close>

theorem sha2_schedule_helpers:
  "(let W = sha256_schedule m
    in sha256su1_helper
         (sha256su0_helper [W t, W (t + 1), W (t + 2), W (t + 3)] [W (t + 4), W (t + 5), W (t + 6), W (t + 7)])
         [W (t + 8), W (t + 9), W (t + 10), W (t + 11)] [W (t + 12), W (t + 13), W (t + 14), W (t + 15)]
       = [W (t + 16), W (t + 17), W (t + 18), W (t + 19)])
   \<and> (let W = sha512_schedule m'
      in sha512su1_helper (sha512su0_helper [W t, W (t + 1)] [W (t + 2), W (t + 3)])
           [W (t + 14), W (t + 15)] [W (t + 9), W (t + 10)]
         = [W (t + 16), W (t + 17)])"
  by (simp add: Let_def sha256su1_helper_def sha256su0_helper_def sha512su1_helper_def sha512su0_helper_def
      sha256_fips sha512_fips sha256_schedule.simps[of m "t + 16"] sha256_schedule.simps[of m "t + 17"]
      sha256_schedule.simps[of m "t + 18"] sha256_schedule.simps[of m "t + 19"]
      sha512_schedule.simps[of m' "t + 16"] sha512_schedule.simps[of m' "t + 17"] ac_simps)

text \<open>
  SHA512H followed by SHA512H2, on the registers as an implementation of SHA-512 lays
  them out (the pairs hold the higher variable in the low half), are two rounds of FIPS 180-4: the
  second gives the two new values of \<open>a\<close>, and \<open>d\<close>, \<open>c\<close> plus the first gives the two of \<open>e\<close>.
\<close>

theorem sha512_helpers_two_rounds:
  "fold sha512_round [w0, w1] (a, b, c, d, e, f, g, h) =
     (let t = sha512h_helper [g + w1, h + w0] [f, g] [d, e];
          n = sha512h2_helper t [c, d] [a, b]
      in (n ! 0, n ! 1, a, b, c + t ! 0, d + t ! 1, e, f))"
  by (simp add: Let_def sha512_round_def sha512h_helper_def sha512h2_helper_def sha512_fips
      fips_maj_def ac_simps)

section \<open>SHA-1\<close>

definition fips_parity :: "u32 \<Rightarrow> u32 \<Rightarrow> u32 \<Rightarrow> u32" where
  "fips_parity x y z = x XOR y XOR z"

definition sha1_round :: "(u32 \<Rightarrow> u32 \<Rightarrow> u32 \<Rightarrow> u32) \<Rightarrow> u32 \<Rightarrow> u32 \<times> u32 \<times> u32 \<times> u32 \<times> u32
    \<Rightarrow> u32 \<times> u32 \<times> u32 \<times> u32 \<times> u32" where
  "sha1_round ff kw = (\<lambda>(a, b, c, d, e).
     (word_rotl 5 a + ff b c d + e + kw, a, word_rotl 30 b, c, d))"

fun sha1_schedule :: "(nat \<Rightarrow> u32) \<Rightarrow> nat \<Rightarrow> u32" where
  "sha1_schedule m t =
     (if t < 16 then m t
      else word_rotl 1 (sha1_schedule m (t - 3) XOR sha1_schedule m (t - 8)
                        XOR sha1_schedule m (t - 14) XOR sha1_schedule m (t - 16)))"

declare sha1_schedule.simps [simp del]

lemma sha1_functions:
  "sha1_choose = fips_ch" "sha1_majority = fips_maj" "sha1_parity = fips_parity"
proof -
  show "sha1_choose = fips_ch"
    by (intro ext bit_word_eqI) (auto simp: sha1_choose_def fips_ch_def bit_simps)
  show "sha1_majority = fips_maj"
    by (intro ext bit_word_eqI) (auto simp: sha1_majority_def fips_maj_def bit_simps)
  show "sha1_parity = fips_parity" by (intro ext) (simp add: sha1_parity_def fips_parity_def)
qed

lemma sha1_loop_rounds: "sha1_loop ff ws st = fold (sha1_round ff) ws st"
  by (induction ff ws st rule: sha1_loop.induct) (simp_all add: sha1_round_def rotl32_rotl)

lemma four_sha1_rounds:
  "fold (sha1_round ff) [w0, w1, w2, w3] (a, b, c, d, e) =
     (let r = sha1_update ff [a, b, c, d] e [w0, w1, w2, w3]
      in (r ! 0, r ! 1, r ! 2, r ! 3, word_rotl 30 a))"
proof -
  have e: "\<exists>a' b' c' d'. fold (sha1_round ff) [w0, w1, w2, w3] (a, b, c, d, e) = (a', b', c', d', word_rotl 30 a)"
    by (simp add: sha1_round_def)
  then obtain a' b' c' d' where
    "fold (sha1_round ff) [w0, w1, w2, w3] (a, b, c, d, e) = (a', b', c', d', word_rotl 30 a)" by blast
  then show ?thesis by (simp add: sha1_update_def sha1_loop_rounds Let_def del: fold_simps)
qed

text \<open>
  SHA1C, SHA1P and SHA1M are four rounds of SHA-1 with the standard's Ch, Parity and Maj;
  the fifth variable, which the instructions do not return, is the old \<open>a\<close> rotated by 30.
\<close>

theorem sha1_helpers_four_rounds:
  "fold (sha1_round fips_ch) [w0, w1, w2, w3] (a, b, c, d, e) =
     (let r = sha1c_helper [a, b, c, d] e [w0, w1, w2, w3] in (r ! 0, r ! 1, r ! 2, r ! 3, word_rotl 30 a))
   \<and> fold (sha1_round fips_parity) [w0, w1, w2, w3] (a, b, c, d, e) =
     (let r = sha1p_helper [a, b, c, d] e [w0, w1, w2, w3] in (r ! 0, r ! 1, r ! 2, r ! 3, word_rotl 30 a))
   \<and> fold (sha1_round fips_maj) [w0, w1, w2, w3] (a, b, c, d, e) =
     (let r = sha1m_helper [a, b, c, d] e [w0, w1, w2, w3] in (r ! 0, r ! 1, r ! 2, r ! 3, word_rotl 30 a))"
  unfolding sha1c_helper_def sha1p_helper_def sha1m_helper_def sha1_functions
  using four_sha1_rounds by blast

lemma word_rotl_xor: "word_rotl n (x XOR y) = word_rotl n x XOR word_rotl n (y :: 'a::len word)"
  by (rule bit_word_eqI) (simp add: bit_word_rotl_iff bit_xor_iff)

lemma word_rotl_add:
  fixes x :: "'a::len word"
  shows "word_rotl m (word_rotl n x) = word_rotl (m + n) x"
proof -
  have "word_rotr (n + m) (word_rotl m (word_rotl n x)) = word_rotr n (word_rotr m (word_rotl m (word_rotl n x)))"
    by (simp only: word_rotr_word_rotr_eq)
  also have "\<dots> = word_rotr (n + m) (word_rotl (n + m) x)" by simp
  finally have "word_rotl (n + m) (word_rotr (n + m) (word_rotl m (word_rotl n x)))
      = word_rotl (n + m) (word_rotr (n + m) (word_rotl (n + m) x))" by simp
  then show ?thesis by (simp add: add.commute)
qed

lemma rotl3_eq_rotl2: "word_rotl 3 x = word_rotl 2 x \<longleftrightarrow> word_rotl 1 x = (x :: u32)"
proof -
  have "word_rotl 3 x = word_rotl 2 (word_rotl 1 x)" by (simp add: word_rotl_add)
  then show ?thesis by (metis word_rot_lr)
qed

lemma sha1_schedule_next:
  "16 \<le> k \<Longrightarrow> sha1_schedule m (t + k) = word_rotl 1 (sha1_schedule m (t + (k - 3)) XOR sha1_schedule m (t + (k - 8))
     XOR sha1_schedule m (t + (k - 14)) XOR sha1_schedule m (t + (k - 16)))"
  by (subst sha1_schedule.simps) simp

text \<open>
  SHA1SU0 and SHA1SU1 give the next four words of the SHA-1 schedule except the last one,
  which is right only when \<open>t0 = W(t+13) xor W(t+8) xor W(t+2) xor W(t)\<close> is invariant under rotation
  (all zeros or all ones): the helper rotates \<open>t0\<close> by 3 where the schedule needs 2.
\<close>

theorem sha1_schedule_last_word_wrong:
  "let W = sha1_schedule m;
       r = sha1su1_helper
             (sha1su0_helper [W t, W (t + 1), W (t + 2), W (t + 3)] [W (t + 4), W (t + 5), W (t + 6), W (t + 7)]
                [W (t + 8), W (t + 9), W (t + 10), W (t + 11)])
             [W (t + 12), W (t + 13), W (t + 14), W (t + 15)];
       t0 = W (t + 13) XOR W (t + 8) XOR W (t + 2) XOR W t
   in r ! 0 = W (t + 16) \<and> r ! 1 = W (t + 17) \<and> r ! 2 = W (t + 18)
      \<and> (r ! 3 = W (t + 19) \<longleftrightarrow> word_rotl 1 t0 = t0)"
proof -
  let ?W = "sha1_schedule m"
  let ?t0 = "?W (t + 13) XOR ?W (t + 8) XOR ?W (t + 2) XOR ?W t"
  let ?t3 = "?W (t + 11) XOR ?W (t + 5) XOR ?W (t + 3)"
  have w16: "?W (t + 16) = word_rotl 1 ?t0" by (simp add: sha1_schedule_next[of 16])
  have w19: "?W (t + 19) = word_rotl 1 ?t3 XOR word_rotl 2 ?t0"
    by (simp add: sha1_schedule_next[of 19] w16 word_rotl_xor word_rotl_add numeral_2_eq_2
        xor.assoc xor.commute xor.left_commute)
  have "word_rotl 1 ?t3 XOR word_rotl 3 ?t0 = word_rotl 1 ?t3 XOR word_rotl 2 ?t0
      \<longleftrightarrow> word_rotl 3 ?t0 = word_rotl 2 ?t0" by (rule xor_left_inject)
  then show ?thesis
    using w16 w19 rotl3_eq_rotl2[of ?t0]
    by (simp add: Let_def sha1su0_helper_def sha1su1_helper_def rotl32_rotl
        sha1_schedule_next[of 17] sha1_schedule_next[of 18]
        xor.assoc xor.commute xor.left_commute)
qed

section \<open>SM3 and SM4\<close>

definition sm3_p1 :: "u32 \<Rightarrow> u32" where
  "sm3_p1 x = x XOR word_rotl 15 x XOR word_rotl 23 x"

fun sm3_schedule :: "(nat \<Rightarrow> u32) \<Rightarrow> nat \<Rightarrow> u32" where
  "sm3_schedule m t =
     (if t < 16 then m t
      else sm3_p1 (sm3_schedule m (t - 16) XOR sm3_schedule m (t - 9) XOR word_rotl 15 (sm3_schedule m (t - 3)))
         XOR word_rotl 7 (sm3_schedule m (t - 13)) XOR sm3_schedule m (t - 6))"

declare sm3_schedule.simps [simp del]

lemma sm3_p1_xor: "sm3_p1 (x XOR y) = sm3_p1 x XOR sm3_p1 y"
  by (simp add: sm3_p1_def word_rotl_xor xor.assoc xor.commute xor.left_commute)

lemma sm3_schedule_next:
  "16 \<le> k \<Longrightarrow> sm3_schedule m (t + k) =
     sm3_p1 (sm3_schedule m (t + (k - 16)) XOR sm3_schedule m (t + (k - 9))
             XOR word_rotl 15 (sm3_schedule m (t + (k - 3))))
     XOR word_rotl 7 (sm3_schedule m (t + (k - 13))) XOR sm3_schedule m (t + (k - 6))"
  by (subst sm3_schedule.simps) simp

lemma sm3partw1_p1:
  "sm3partw1_helper vd vn vm =
     (let x = vd ! 0 XOR vn ! 0 XOR word_rotl 15 (vm ! 1)
      in [sm3_p1 x, sm3_p1 (vd ! 1 XOR vn ! 1 XOR word_rotl 15 (vm ! 2)),
          sm3_p1 (vd ! 2 XOR vn ! 2 XOR word_rotl 15 (vm ! 3)),
          sm3_p1 (vd ! 3 XOR vn ! 3 XOR word_rotl 15 x)])"
  by (simp add: sm3partw1_helper_def Let_def rol32_rotl sm3_p1_def xor.assoc)

text \<open>
  SM3PARTW1 on the last sixteen words gives, in its first three lanes, the next schedule
  words up to the terms SM3PARTW2 adds; in the last lane it takes word \<open>t + 16\<close> before the
  permutation P1 is applied to it, so lane 3 differs from what the schedule needs by
  \<open>P1(rotl 15 (P1 x) xor rotl 15 x)\<close> where \<open>x\<close> is P1's argument for word \<open>t + 16\<close>.
\<close>

theorem sm3_schedule_last_lane_wrong:
  "let W = sm3_schedule m;
       rest = (\<lambda>j. word_rotl 7 (W (t + (3 + j))) XOR W (t + (10 + j)));
       x = W t XOR W (t + 7) XOR word_rotl 15 (W (t + 13));
       r = sm3partw1_helper [W t, W (t + 1), W (t + 2), W (t + 3)]
             [W (t + 7), W (t + 8), W (t + 9), W (t + 10)] [W (t + 12), W (t + 13), W (t + 14), W (t + 15)]
   in r ! 0 = W (t + 16) XOR rest 0 \<and> r ! 1 = W (t + 17) XOR rest 1 \<and> r ! 2 = W (t + 18) XOR rest 2
      \<and> r ! 3 = W (t + 19) XOR rest 3 XOR sm3_p1 (word_rotl 15 (rest 0))
                XOR sm3_p1 (word_rotl 15 (sm3_p1 x) XOR word_rotl 15 x)"
  by (simp add: Let_def sm3partw1_p1 sm3_schedule_next[of 16] sm3_schedule_next[of 17]
      sm3_schedule_next[of 18] sm3_schedule_next[of 19] sm3_p1_xor word_rotl_xor
      xor.assoc xor.commute xor.left_commute xor_cancel)

text \<open>
  SM4E is its own inverse up to order: on the reversed block with the round keys reversed it
  gives the reversed plaintext, which is how SM4 decrypts.
\<close>

theorem sm4e_decrypts:
  "sm4e_helper (rev (sm4e_helper [a, b, c, d] [k0, k1, k2, k3])) (rev [k0, k1, k2, k3]) = rev [a, b, c, d]"
  by (simp add: sm4e_helper_def xor.assoc xor.commute xor.left_commute xor_cancel)

text \<open>The vector rotate of SVE.\<close>

lemma sve_xar_rotates:
  "sve_xar_d_helper [a, b] [c, d] imm = [word_rotr (unat imm) (a XOR c), word_rotr (unat imm) (b XOR d)]"
proof -
  have "imm AND 63 = take_bit 6 imm" by (simp add: take_bit_eq_mask mask_eq_exp_minus_1)
  then have m: "unat (imm AND 63) = unat imm mod 64"
    by (simp add: take_bit_eq_mod unat_mod_distrib)
  have "word_rotr (n mod 64) x = word_rotr n x" for n and x :: u64
    by (rule bit_word_eqI) (simp add: bit_word_rotr_iff mod_add_right_eq)
  then show ?thesis by (simp add: sve_xar_d_helper_def ror64_rotr m)
qed

end
