(* ===== verification/Page_Table.thy ===== *)
theory Page_Table
  imports Kernel_Errno "HOL-Library.Monad_Syntax"
begin

text \<open>
  The guest's address space (\<^verbatim>\<open>kernel/memory.c\<close>, \<^verbatim>\<open>kernel/memory.h\<close>): the four-level page table, the
  reference-counted host mappings its entries point to, and the lazy reservations. This theory has
  the state, the walk and its updates, and the traversal that skips unpopulated subtrees.
  Page numbers are at most 52 bits of a 64-bit word and counts likewise, so their sums do not
  wrap and are natural numbers here; the one subtraction that can wrap is written with it.
\<close>

section \<open>State\<close>

definition PT_BITS :: nat where "PT_BITS = 9"
definition PT_ENTRIES :: nat where "PT_ENTRIES = 2 ^ 9"
definition MEM_PAGES :: nat where "MEM_PAGES = 2 ^ 36"
definition PAGE_BYTES :: nat where "PAGE_BYTES = 2 ^ 12"
definition BAD_PAGE :: nat where "BAD_PAGE = 2 ^ 36"

text \<open>\<open>e_data = None\<close> is an entry that is not in use; the list of compiled blocks is the JIT's.\<close>

record pte =
  e_data :: "nat option"
  e_offset :: nat
  e_flags :: u32

definition empty_pte :: pte where
  "empty_pte = \<lparr>e_data = None, e_offset = 0, e_flags = 0\<rparr>"

type_synonym l3_table = "nat \<Rightarrow> pte"
type_synonym l2_table = "nat \<Rightarrow> l3_table option"
type_synonym l1_table = "nat \<Rightarrow> l2_table option"
type_synonym l0_table = "nat \<Rightarrow> l1_table option"

record mem_reservation =
  r_start :: nat
  r_pages :: nat
  r_flags :: u32

text \<open>\<open>m_invalidated\<close>: the pages given to \<^verbatim>\<open>asbestos_invalidate_page\<close>, latest first.\<close>

record mem =
  pgdir :: "l0_table option"
  pgdir_used :: nat
  mmap_hint :: nat
  reservations :: "mem_reservation list"
  m_changes :: nat
  m_invalidated :: "nat list"

definition mem_init :: mem where
  "mem_init = \<lparr>pgdir = Some (\<lambda>_. None), pgdir_used = 0, mmap_hint = 0, reservations = [],
     m_changes = 0, m_invalidated = []\<rparr>"

definition mem_changed :: "mem \<Rightarrow> mem" where
  "mem_changed m = m\<lparr>m_changes := m_changes m + 1\<rparr>"

section \<open>The walk\<close>

definition PT_INDEX :: "nat \<Rightarrow> nat \<Rightarrow> nat" where
  "PT_INDEX page level = (page div 2 ^ (PT_BITS * (3 - level))) mod PT_ENTRIES"

definition mem_l3 :: "mem \<Rightarrow> nat \<Rightarrow> l3_table option" where
  "mem_l3 m page = do {
     l0 \<leftarrow> pgdir m;
     l1 \<leftarrow> l0 (PT_INDEX page 0);
     l2 \<leftarrow> l1 (PT_INDEX page 1);
     l2 (PT_INDEX page 2) }"

definition mem_pt :: "mem \<Rightarrow> nat \<Rightarrow> pte option" where
  "mem_pt m page = do {
     l3 \<leftarrow> mem_l3 m page;
     let e = l3 (PT_INDEX page 3);
     if e_data e = None then None else Some e }"

text \<open>
  \<^verbatim>\<open>mem_pt_new\<close> builds the missing levels; \<open>None\<close> is the dereference of a null \<^verbatim>\<open>pgdir\<close>. What the
  caller then assigns through the pointer is \<open>pt_assign\<close>.
\<close>

definition mem_pt_new :: "mem \<Rightarrow> nat \<Rightarrow> mem option" where
  "mem_pt_new m page = do {
     l0 \<leftarrow> pgdir m;
     let (l1, used) = (case l0 (PT_INDEX page 0) of
           None \<Rightarrow> (\<lambda>_. None, pgdir_used m + 1) | Some l1 \<Rightarrow> (l1, pgdir_used m));
     let l2 = (case l1 (PT_INDEX page 1) of None \<Rightarrow> (\<lambda>_. None) | Some l2 \<Rightarrow> l2);
     let l3 = (case l2 (PT_INDEX page 2) of None \<Rightarrow> (\<lambda>_. empty_pte) | Some l3 \<Rightarrow> l3);
     let l2' = l2(PT_INDEX page 2 \<mapsto> l3);
     let l1' = l1(PT_INDEX page 1 \<mapsto> l2');
     let l0' = l0(PT_INDEX page 0 \<mapsto> l1');
     Some (m\<lparr>pgdir := Some l0', pgdir_used := used\<rparr>) }"

definition pt_assign :: "nat \<Rightarrow> pte \<Rightarrow> mem \<Rightarrow> mem option" where
  "pt_assign page e m = do {
     l0 \<leftarrow> pgdir m;
     l1 \<leftarrow> l0 (PT_INDEX page 0);
     l2 \<leftarrow> l1 (PT_INDEX page 1);
     l3 \<leftarrow> l2 (PT_INDEX page 2);
     let l3' = l3(PT_INDEX page 3 := e);
     let l2' = l2(PT_INDEX page 2 \<mapsto> l3');
     let l1' = l1(PT_INDEX page 1 \<mapsto> l2');
     let l0' = l0(PT_INDEX page 0 \<mapsto> l1');
     Some (m\<lparr>pgdir := Some l0'\<rparr>) }"

definition mem_pt_set :: "mem \<Rightarrow> nat \<Rightarrow> pte \<Rightarrow> mem option" where
  "mem_pt_set m page e = do { m1 \<leftarrow> mem_pt_new m page; pt_assign page e m1 }"

definition mem_pt_del :: "mem \<Rightarrow> nat \<Rightarrow> mem option" where
  "mem_pt_del m page =
     (case mem_pt m page of None \<Rightarrow> Some m | Some e \<Rightarrow> pt_assign page (e\<lparr>e_data := None\<rparr>) m)"

section \<open>The table is a map from pages to entries\<close>

lemma index_decompose:
  assumes "p < MEM_PAGES"
  shows "p = PT_INDEX p 0 * 2 ^ 27 + PT_INDEX p 1 * 2 ^ 18 + PT_INDEX p 2 * 2 ^ 9 + PT_INDEX p 3"
proof -
  have "p div 2 ^ 27 < 512" using assms by (simp add: MEM_PAGES_def div_less_iff_less_mult)
  then have a: "PT_INDEX p 0 = p div 2 ^ 27" by (simp add: PT_INDEX_def PT_BITS_def PT_ENTRIES_def)
  have b: "PT_INDEX p 1 = p div 2 ^ 18 mod 512" "PT_INDEX p 2 = p div 2 ^ 9 mod 512" "PT_INDEX p 3 = p mod 512"
    by (simp_all add: PT_INDEX_def PT_BITS_def PT_ENTRIES_def)
  have n: "(2::nat) ^ 27 = 134217728" "(2::nat) ^ 18 = 262144" "(2::nat) ^ 9 = 512" by simp_all
  have "p div 262144 div 512 = p div 134217728" "p div 512 div 512 = p div 262144"
    by (simp_all flip: div_mult2_eq)
  then have "p div 262144 = p div 134217728 * 512 + p div 262144 mod 512"
    "p div 512 = p div 262144 * 512 + p div 512 mod 512" "p = p div 512 * 512 + p mod 512"
    by (metis div_mult_mod_eq, metis div_mult_mod_eq, metis div_mult_mod_eq)
  then show ?thesis unfolding a b n by linarith
qed

text \<open>Only 36 bits of a page number take part.\<close>

lemma index_bits: "PT_INDEX page k = take_bit 9 (drop_bit (9 * (3 - k)) page)"
  by (simp add: PT_INDEX_def PT_BITS_def PT_ENTRIES_def take_bit_eq_mod drop_bit_eq_div)

lemma index_mod: "PT_INDEX (page mod MEM_PAGES) k = PT_INDEX page k"
proof -
  have "page mod MEM_PAGES = take_bit 36 page" by (simp add: MEM_PAGES_def take_bit_eq_mod)
  moreover have "min 9 (36 - 9 * (3 - k)) = 9" by (rule min_absorb1) simp
  ultimately show ?thesis by (simp only: index_bits drop_bit_take_bit take_bit_take_bit)
qed

lemma mem_pt_mod: "mem_pt m (page mod MEM_PAGES) = mem_pt m page"
  by (simp add: mem_pt_def mem_l3_def index_mod)

lemma index_inject:
  assumes "p < MEM_PAGES" "q < MEM_PAGES"
    "PT_INDEX p 0 = PT_INDEX q 0" "PT_INDEX p 1 = PT_INDEX q 1"
    "PT_INDEX p 2 = PT_INDEX q 2" "PT_INDEX p 3 = PT_INDEX q 3"
  shows "p = q"
  using index_decompose[OF assms(1)] index_decompose[OF assms(2)] assms(3-6) by simp

definition in_use :: "pte \<Rightarrow> bool" where
  "in_use e \<longleftrightarrow> e_data e \<noteq> None"

lemma pt_assign_lookup:
  assumes "mem_l3 m p = Some l3" "p < MEM_PAGES" "q < MEM_PAGES"
  shows "\<exists>m'. pt_assign p e m = Some m' \<and> mem_pt m' q = (if q = p then (if in_use e then Some e else None) else mem_pt m q)
     \<and> m' = m\<lparr>pgdir := pgdir m'\<rparr> \<and> pgdir m' \<noteq> None
     \<and> (mem_l3 m' q = None \<longleftrightarrow> mem_l3 m q = None)"
proof -
  obtain l0 l1 l2 where w: "pgdir m = Some l0" "l0 (PT_INDEX p 0) = Some l1" "l1 (PT_INDEX p 1) = Some l2"
      "l2 (PT_INDEX p 2) = Some l3"
    using assms(1) by (auto simp: mem_l3_def split: Option.bind_splits)
  have neq: "PT_INDEX q 0 \<noteq> PT_INDEX p 0 \<or> PT_INDEX q 1 \<noteq> PT_INDEX p 1
      \<or> PT_INDEX q 2 \<noteq> PT_INDEX p 2 \<or> PT_INDEX q 3 \<noteq> PT_INDEX p 3" if "q \<noteq> p"
    using index_inject[OF assms(2,3)] that by auto
  show ?thesis
  proof (cases "q = p")
    case True
    then show ?thesis using w by (simp add: pt_assign_def mem_pt_def mem_l3_def in_use_def Let_def)
  next
    case False
    show ?thesis
      using neq[OF False] w False
      by (auto simp: pt_assign_def mem_pt_def mem_l3_def Let_def split: Option.bind_splits)
  qed
qed

lemma mem_pt_new_lookup:
  assumes "pgdir m \<noteq> None" "p < MEM_PAGES" "q < MEM_PAGES"
  shows "\<exists>m' l3. mem_pt_new m p = Some m' \<and> mem_pt m' q = mem_pt m q \<and> mem_l3 m' p = Some l3
     \<and> m' = m\<lparr>pgdir := pgdir m', pgdir_used := pgdir_used m'\<rparr>
     \<and> (mem_l3 m q \<noteq> None \<longrightarrow> mem_l3 m' q \<noteq> None)"
proof -
  obtain l0 where l0: "pgdir m = Some l0" using assms(1) by blast
  show ?thesis
    using l0 by (auto simp: mem_pt_new_def mem_pt_def mem_l3_def Let_def empty_pte_def
        split: option.splits Option.bind_splits)
qed

text \<open>What the clients of the table rely on: it is a map from page numbers below a bound.\<close>

locale page_map =
  fixes ok :: "'s \<Rightarrow> bool" and bound :: nat and valid :: "'e \<Rightarrow> bool"
    and lookup :: "'s \<Rightarrow> nat \<Rightarrow> 'e option"
    and put :: "'s \<Rightarrow> nat \<Rightarrow> 'e \<Rightarrow> 's option" and del :: "'s \<Rightarrow> nat \<Rightarrow> 's option"
  assumes put_total: "ok s \<Longrightarrow> p < bound \<Longrightarrow> valid e \<Longrightarrow> \<exists>s'. put s p e = Some s' \<and> ok s'"
    and put_lookup: "ok s \<Longrightarrow> p < bound \<Longrightarrow> valid e \<Longrightarrow> q < bound \<Longrightarrow> put s p e = Some s' \<Longrightarrow>
      lookup s' q = (if q = p then Some e else lookup s q)"
    and del_total: "ok s \<Longrightarrow> p < bound \<Longrightarrow> \<exists>s'. del s p = Some s' \<and> ok s'"
    and del_lookup: "ok s \<Longrightarrow> p < bound \<Longrightarrow> q < bound \<Longrightarrow> del s p = Some s' \<Longrightarrow>
      lookup s' q = (if q = p then None else lookup s q)"
begin

text \<open>The map as a set of references to \<open>d\<close>, where \<open>tag\<close> says what an entry refers to.\<close>

definition refs :: "('e \<Rightarrow> 'd option) \<Rightarrow> 's \<Rightarrow> 'd \<Rightarrow> nat set" where
  "refs tag s d = {p. p < bound \<and> (\<exists>e. lookup s p = Some e \<and> tag e = Some d)}"

lemma refs_finite: "finite (refs tag s d)"
  by (rule finite_subset[of _ "{..<bound}"]) (auto simp: refs_def)

lemma refs_put:
  assumes "ok s" "p < bound" "valid e" "lookup s p = None" "put s p e = Some s'"
  shows "card (refs tag s' d) = card (refs tag s d) + (if tag e = Some d then 1 else 0)"
proof -
  have "refs tag s' d = (if tag e = Some d then insert p (refs tag s d) else refs tag s d)"
    using put_lookup[OF assms(1-3) _ assms(5)] assms(2,4) by (auto simp: refs_def split: if_splits)
  moreover have "p \<notin> refs tag s d" using assms(4) by (simp add: refs_def)
  ultimately show ?thesis by (cases "tag e = Some d") (simp_all add: card_insert_disjoint[OF refs_finite])
qed

lemma refs_del:
  assumes "ok s" "p < bound" "lookup s p = Some e" "del s p = Some s'"
  shows "card (refs tag s d) = card (refs tag s' d) + (if tag e = Some d then 1 else 0)"
proof -
  have "refs tag s d = (if tag e = Some d then insert p (refs tag s' d) else refs tag s' d)"
    using del_lookup[OF assms(1,2) _ assms(4)] assms(2,3) by (auto simp: refs_def split: if_splits)
  moreover have "p \<notin> refs tag s' d" using del_lookup[OF assms(1,2) assms(2,4)] by (simp add: refs_def)
  ultimately show ?thesis by (cases "tag e = Some d") (simp_all add: card_insert_disjoint[OF refs_finite])
qed

end

definition mem_ok :: "mem \<Rightarrow> bool" where
  "mem_ok m \<longleftrightarrow> pgdir m \<noteq> None"

lemma mem_pt_set_spec:
  assumes "mem_ok m" "p < MEM_PAGES" "in_use e"
  shows "\<exists>m'. mem_pt_set m p e = Some m' \<and> mem_ok m'
     \<and> m' = m\<lparr>pgdir := pgdir m', pgdir_used := pgdir_used m'\<rparr>
     \<and> (\<forall>q < MEM_PAGES. mem_pt m' q = (if q = p then Some e else mem_pt m q))"
proof -
  have ok: "pgdir m \<noteq> None" using assms(1) by (simp add: mem_ok_def)
  obtain m1 l3 where m1: "mem_pt_new m p = Some m1" "mem_l3 m1 p = Some l3"
      "m1 = m\<lparr>pgdir := pgdir m1, pgdir_used := pgdir_used m1\<rparr>"
    using mem_pt_new_lookup[OF ok assms(2,2)] by blast
  have new: "mem_pt m1 q = mem_pt m q" if "q < MEM_PAGES" for q
    using mem_pt_new_lookup[OF ok assms(2) that] m1(1) by auto
  obtain m2 where m2: "pt_assign p e m1 = Some m2" "m2 = m1\<lparr>pgdir := pgdir m2\<rparr>" "pgdir m2 \<noteq> None"
    using pt_assign_lookup[OF m1(2) assms(2,2), of e] by blast
  have look: "mem_pt m2 q = (if q = p then Some e else mem_pt m q)" if "q < MEM_PAGES" for q
    using pt_assign_lookup[OF m1(2) assms(2) that, of e] m2(1) new[OF that] assms(3) by auto
  have "m2 = m\<lparr>pgdir := pgdir m2, pgdir_used := pgdir_used m2\<rparr>" using m1(3) m2(2) 
    by (metis (no_types, lifting) mem.cases_scheme mem.select_convs(2) mem.surjective mem.update_convs(1,2))
  then show ?thesis using m1(1) m2 look by (auto simp: mem_pt_set_def mem_ok_def)
qed

lemma mem_pt_del_spec:
  assumes "mem_ok m" "p < MEM_PAGES"
  shows "\<exists>m'. mem_pt_del m p = Some m' \<and> mem_ok m' \<and> m' = m\<lparr>pgdir := pgdir m'\<rparr>
     \<and> (\<forall>q < MEM_PAGES. mem_pt m' q = (if q = p then None else mem_pt m q))"
proof (cases "mem_pt m p")
  case None
  then show ?thesis using assms(1) by (simp add: mem_pt_del_def mem_ok_def)
next
  case (Some e)
  then obtain l3 where l3: "mem_l3 m p = Some l3" by (auto simp: mem_pt_def split: Option.bind_splits)
  let ?e = "e\<lparr>e_data := None\<rparr>"
  have nu: "\<not> in_use ?e" by (simp add: in_use_def)
  obtain m' where m': "pt_assign p ?e m = Some m'" "m' = m\<lparr>pgdir := pgdir m'\<rparr>" "pgdir m' \<noteq> None"
    using pt_assign_lookup[OF l3 assms(2,2), of ?e] by blast
  have "mem_pt m' q = (if q = p then None else mem_pt m q)" if "q < MEM_PAGES" for q
    using pt_assign_lookup[OF l3 assms(2) that, of ?e] m'(1) nu by auto
  then show ?thesis using Some m' by (auto simp: mem_pt_del_def mem_ok_def)
qed

interpretation pt4: page_map mem_ok MEM_PAGES in_use mem_pt mem_pt_set mem_pt_del
proof unfold_locales
  fix m p e assume "mem_ok m" "p < MEM_PAGES" "in_use e"
  then show "\<exists>m'. mem_pt_set m p e = Some m' \<and> mem_ok m'" using mem_pt_set_spec by blast
next
  fix m p e q m' assume "mem_ok m" "p < MEM_PAGES" "in_use e" "q < MEM_PAGES" "mem_pt_set m p e = Some m'"
  then show "mem_pt m' q = (if q = p then Some e else mem_pt m q)" using mem_pt_set_spec[of m p e] by auto
next
  fix m p assume "mem_ok m" "p < MEM_PAGES"
  then show "\<exists>m'. mem_pt_del m p = Some m' \<and> mem_ok m'" using mem_pt_del_spec by blast
next
  fix m p q m' assume "mem_ok m" "p < MEM_PAGES" "q < MEM_PAGES" "mem_pt_del m p = Some m'"
  then show "mem_pt m' q = (if q = p then None else mem_pt m q)" using mem_pt_del_spec[of m p] by auto
qed

text \<open>The walk only ever looks at entries that are in use.\<close>

lemma mem_pt_in_use: "mem_pt m p = Some e \<Longrightarrow> in_use e"
  by (auto simp: mem_pt_def in_use_def Let_def split: Option.bind_splits if_splits)

section \<open>Skipping unpopulated subtrees\<close>

definition subtree_end :: "nat \<Rightarrow> nat \<Rightarrow> nat" where
  "subtree_end n page = (page div 2 ^ (PT_BITS * n) + 1) * 2 ^ (PT_BITS * n)"

lemma subtree_end_gt: "page < subtree_end n page"
  using dividend_less_div_times[of "2 ^ (PT_BITS * n)" page] by (simp add: subtree_end_def)

function next_loop :: "l0_table \<Rightarrow> nat \<Rightarrow> nat" where
  "next_loop l0 page =
     (if page < MEM_PAGES then
        (case l0 (PT_INDEX page 0) of
           None \<Rightarrow> next_loop l0 (subtree_end 3 page)
         | Some l1 \<Rightarrow>
             (case l1 (PT_INDEX page 1) of
                None \<Rightarrow> next_loop l0 (subtree_end 2 page)
              | Some l2 \<Rightarrow>
                  (case l2 (PT_INDEX page 2) of
                     None \<Rightarrow> next_loop l0 (subtree_end 1 page)
                   | Some l3 \<Rightarrow> page)))
      else page)"
  by pat_completeness auto
termination
  by (relation "measure (\<lambda>(l0, page). MEM_PAGES - page)") (auto simp: subtree_end_gt intro!: diff_less_mono2)

declare next_loop.simps [simp del]

definition mem_next_page :: "mem \<Rightarrow> nat \<Rightarrow> nat" where
  "mem_next_page m page =
     (if page + 1 \<ge> MEM_PAGES then page + 1
      else (case pgdir m of None \<Rightarrow> MEM_PAGES | Some l0 \<Rightarrow> next_loop l0 (page + 1)))"

lemma same_subtree:
  assumes "page \<le> q" "q < subtree_end n page"
  shows "q div 2 ^ (PT_BITS * n) = page div 2 ^ (PT_BITS * n)"
proof -
  let ?k = "(2::nat) ^ (PT_BITS * n)"
  have "q div ?k \<le> page div ?k"
    using assms(2) by (simp add: subtree_end_def less_mult_imp_div_less flip: Suc_eq_plus1 less_Suc_eq_le)
  moreover have "page div ?k \<le> q div ?k" using assms(1) by (rule div_le_mono)
  ultimately show ?thesis by simp
qed

lemma same_index:
  assumes "page \<le> q" "q < subtree_end n page" "level \<le> 3 - n" "n \<le> 3"
  shows "PT_INDEX q level = PT_INDEX page level"
proof -
  let ?b = PT_BITS
  have n: "n \<le> 3 - level" using assms(3,4) by linarith
  have "q div 2 ^ (?b * (3 - level)) = page div 2 ^ (?b * (3 - level))"
  proof -
    obtain r where "3 - level = n + r" using n le_Suc_ex by blast
    then have "(2::nat) ^ (?b * (3 - level)) = 2 ^ (?b * n) * 2 ^ (?b * r)"
      by (simp add: distrib_left power_add)
    then show ?thesis using same_subtree[OF assms(1,2)] by (simp add: div_mult2_eq)
  qed
  then show ?thesis by (simp add: PT_INDEX_def)
qed

text \<open>
  The traversal steps forward and only over pages with no populated leaf table.
\<close>

lemma next_loop_spec:
  "page \<le> next_loop l0 page
   \<and> (\<forall>q m. pgdir m = Some l0 \<and> page \<le> q \<and> q < next_loop l0 page \<and> q < MEM_PAGES \<longrightarrow> mem_l3 m q = None)"
proof (induction l0 page rule: next_loop.induct)
  case (1 l0 page)
  have skip: ?case
    if e: "next_loop l0 page = next_loop l0 (subtree_end n page)" and n: "n \<le> 3"
      and IH: "subtree_end n page \<le> next_loop l0 (subtree_end n page)
        \<and> (\<forall>q m. pgdir m = Some l0 \<and> subtree_end n page \<le> q \<and> q < next_loop l0 (subtree_end n page)
             \<and> q < MEM_PAGES \<longrightarrow> mem_l3 m q = None)"
      and empty: "\<And>q m. pgdir m = Some l0 \<Longrightarrow> page \<le> q \<Longrightarrow> q < subtree_end n page \<Longrightarrow> mem_l3 m q = None"
    for n
  proof -
    have "page \<le> next_loop l0 (subtree_end n page)" using IH subtree_end_gt[of page n] by simp
    moreover have "mem_l3 m q = None"
      if "pgdir m = Some l0" "page \<le> q" "q < next_loop l0 (subtree_end n page)" "q < MEM_PAGES" for q m
      using that IH empty by (cases "q < subtree_end n page") auto
    ultimately show ?thesis unfolding e by blast
  qed
  show ?case
  proof (cases "page < MEM_PAGES")
    case False
    then show ?thesis by (subst (1 2) next_loop.simps) auto
  next
    case True
    show ?thesis
    proof (cases "l0 (PT_INDEX page 0)")
      case None
      show ?thesis
      proof (rule skip[of 3])
        show "next_loop l0 page = next_loop l0 (subtree_end 3 page)"
          using True None by (subst next_loop.simps) simp
        show "mem_l3 m q = None" if "pgdir m = Some l0" "page \<le> q" "q < subtree_end 3 page" for q m
          using same_index[OF that(2,3), of 0] that(1) None by (simp add: mem_l3_def)
      qed (use "1.IH"(1)[OF True None] in auto)
    next
      case l1: (Some l1)
      show ?thesis
      proof (cases "l1 (PT_INDEX page 1)")
        case None
        show ?thesis
        proof (rule skip[of 2])
          show "next_loop l0 page = next_loop l0 (subtree_end 2 page)"
            using True l1 None by (subst next_loop.simps) simp
          show "mem_l3 m q = None" if "pgdir m = Some l0" "page \<le> q" "q < subtree_end 2 page" for q m
            using same_index[OF that(2,3), of 0] same_index[OF that(2,3), of 1] that(1) l1 None
            by (simp add: mem_l3_def)
        qed (use "1.IH"(2)[OF True l1 None] in auto)
      next
        case l2: (Some l2)
        show ?thesis
        proof (cases "l2 (PT_INDEX page 2)")
          case None
          show ?thesis
          proof (rule skip[of 1])
            show "next_loop l0 page = next_loop l0 (subtree_end 1 page)"
              using True l1 l2 None by (subst next_loop.simps) simp
            show "mem_l3 m q = None" if "pgdir m = Some l0" "page \<le> q" "q < subtree_end 1 page" for q m
              using same_index[OF that(2,3), of 0] same_index[OF that(2,3), of 1] same_index[OF that(2,3), of 2]
                that(1) l1 l2 None
              by (simp add: mem_l3_def)
          qed (use "1.IH"(3)[OF True l1 l2 None] in auto)
        next
          case (Some l3)
          then have "next_loop l0 page = page" using True l1 l2 by (subst next_loop.simps) simp
          then show ?thesis by auto
        qed
      qed
    qed
  qed
qed

lemma mem_next_page_spec:
  shows "page < mem_next_page m page"
    and "page < q \<Longrightarrow> q < mem_next_page m page \<Longrightarrow> q < MEM_PAGES \<Longrightarrow> mem_pt m q = None"
proof -
  have n: "mem_pt m q = None" if "mem_l3 m q = None" for q using that by (simp add: mem_pt_def)
  show "page < mem_next_page m page"
    using next_loop_spec[of "Suc page"] by (auto simp: mem_next_page_def Suc_le_eq split: option.splits)
  show "mem_pt m q = None" if "page < q" "q < mem_next_page m page" "q < MEM_PAGES"
  proof (cases "pgdir m")
    case None
    then show ?thesis by (simp add: mem_pt_def mem_l3_def)
  next
    case (Some l0)
    then show ?thesis
      using that next_loop_spec[of "Suc page" l0] by (intro n) (auto simp: mem_next_page_def split: if_splits)
  qed
qed

text \<open>
  The loop \<^verbatim>\<open>for (page = start; page < fin; mem_next_page(mem, &page))\<close> around a step that may change
  the table; \<open>tbl\<close> is the address space the traversal reads.
\<close>

function for_pages :: "('s \<Rightarrow> mem) \<Rightarrow> ('s \<Rightarrow> nat \<Rightarrow> 's option) \<Rightarrow> nat \<Rightarrow> nat \<Rightarrow> 's \<Rightarrow> 's option" where
  "for_pages tbl step page fin s =
     (if page < fin then
        (case step s page of
           None \<Rightarrow> None
         | Some s' \<Rightarrow> for_pages tbl step (mem_next_page (tbl s') page) fin s')
      else Some s)"
  by pat_completeness auto
termination
  by (relation "measure (\<lambda>(tbl, step, page, fin, s). fin - page)")
    (auto intro!: diff_less_mono2 mem_next_page_spec(1))

declare for_pages.simps [simp del]

lemma iter_opt_append:
  "iter_opt f s (xs @ ys) = (case iter_opt f s xs of None \<Rightarrow> None | Some s' \<Rightarrow> iter_opt f s' ys)"
  by (induction xs arbitrary: s) (auto split: option.splits)

lemma iter_opt_id: "\<forall>x \<in> set xs. f s x = Some s \<Longrightarrow> iter_opt f s xs = Some s"
  by (induction xs) simp_all

text \<open>
  When the step does nothing at an absent page, skipping subtrees makes no difference: the loop is the
  loop over every page of the range.
\<close>

lemma for_pages_every:
  assumes absent: "\<And>s p. mem_pt (tbl s) p = None \<Longrightarrow> step s p = Some s" and fin: "fin \<le> MEM_PAGES"
  shows "for_pages tbl step page fin s = iter_opt step s [page..<fin]"
proof (induction "fin - page" arbitrary: page s rule: less_induct)
  case less
  show ?case
  proof (cases "page < fin")
    case True
    note up = upt_conv_Cons[OF True]
    show ?thesis
    proof (cases "step s page")
      case None
      then show ?thesis using True up by (subst for_pages.simps) simp
    next
      case (Some s1)
      define nx where "nx = mem_next_page (tbl s1) page"
      have skip: "mem_pt (tbl s1) q = None" if "page < q" "q < nx" "q < fin" for q
        using mem_next_page_spec(2)[of page q "tbl s1"] that fin by (simp add: nx_def)
      have gt: "page < nx" using mem_next_page_spec(1) by (simp add: nx_def)
      have "[Suc page..<fin] = [Suc page..<min nx fin] @ [min nx fin..<fin]"
        using upt_add_eq_append[of "Suc page" "min nx fin" "fin - min nx fin"] gt True by simp
      moreover have "iter_opt step s1 [Suc page..<min nx fin] = Some s1"
        by (rule iter_opt_id) (use skip absent in auto)
      ultimately have "iter_opt step s1 [Suc page..<fin] = iter_opt step s1 [min nx fin..<fin]"
        by (simp add: iter_opt_append)
      also have "\<dots> = iter_opt step s1 [nx..<fin]" by (cases "nx \<le> fin") (simp_all add: min_def)
      also have "\<dots> = for_pages tbl step nx fin s1" using less[of nx s1] gt True by simp
      finally show ?thesis using True Some up by (subst for_pages.simps) (simp add: nx_def)
    qed
  next
    case False
    then show ?thesis by (subst for_pages.simps) simp
  qed
qed

end
