(* ===== verification/Address_Space.thy ===== *)
theory Address_Space
  imports Page_Table
begin

text \<open>
  Mapping, unmapping, protection, copy-on-write and faults (\<^verbatim>\<open>kernel/memory.c\<close>). The host mappings
  (\<^verbatim>\<open>struct data\<close>) live on a heap that the address spaces of all processes share; a mapping's memory
  is a function from offsets to bytes. \<open>None\<close> is a host memory error: a null directory or a mapping
  that has been freed. The locks are not modelled: an operation runs as one step, which is what
  holding \<^verbatim>\<open>mem->lock\<close> for writing gives it, and the re-checks after a lock upgrade see the state
  they left.
\<close>

section \<open>State and flags\<close>

definition P_READ :: u32 where "P_READ = 1"
definition P_WRITE :: u32 where "P_WRITE = 2"
definition P_EXEC :: u32 where "P_EXEC = 4"
definition P_GROWSDOWN :: u32 where "P_GROWSDOWN = 8"
definition P_COW :: u32 where "P_COW = 16"
definition P_ANONYMOUS :: u32 where "P_ANONYMOUS = 64"
definition P_SHARED :: u32 where "P_SHARED = 128"
definition P_CODE :: u32 where "P_CODE = 256"
definition P_META_FLAGS :: u32 where
  "P_META_FLAGS = P_ANONYMOUS OR P_GROWSDOWN OR P_COW OR P_SHARED OR P_CODE"

definition has :: "u32 \<Rightarrow> u32 \<Rightarrow> bool" where "has flags f \<longleftrightarrow> flags AND f \<noteq> 0"

definition P_WRITABLE :: "u32 \<Rightarrow> bool" where
  "P_WRITABLE flags \<longleftrightarrow> has flags P_WRITE \<and> \<not> has flags P_COW"

record hdata =
  d_size :: nat
  d_refs :: nat
  d_bytes :: "nat \<Rightarrow> byte"
  d_fd :: "nat option"

text \<open>
  \<open>h_closed\<close> and \<open>h_retained\<close>: the descriptions given to \<^verbatim>\<open>fd_close\<close> and \<^verbatim>\<open>fd_retain\<close>, latest first. \<open>h_alloc\<close>: host allocations succeed.
  \<open>h_anon\<close> is the global count of anonymous pages.
\<close>

record host =
  h_data :: "nat \<Rightarrow> hdata option"
  h_next :: nat
  h_closed :: "nat list"
  h_retained :: "nat list"
  h_alloc :: bool
  h_anon :: int

definition anon_add :: "int \<Rightarrow> host \<Rightarrow> host" where
  "anon_add n h = h\<lparr>h_anon := h_anon h + n\<rparr>"

lemma anon_add_fields [simp]:
  "h_data (anon_add n h) = h_data h" "h_next (anon_add n h) = h_next h" "h_closed (anon_add n h) = h_closed h"
  "h_alloc (anon_add n h) = h_alloc h" "h_anon (anon_add n h) = h_anon h + n"
  by (simp_all add: anon_add_def)

section \<open>Reservations\<close>

definition pt_map_lazy :: "bool \<Rightarrow> mem \<Rightarrow> nat \<Rightarrow> nat \<Rightarrow> u32 \<Rightarrow> int \<times> mem" where
  "pt_map_lazy alloc m start pages flags =
     (if \<not> alloc then (ENOMEM, m)
      else (0, mem_changed (m\<lparr>reservations :=
        \<lparr>r_start = start, r_pages = pages, r_flags = flags OR P_ANONYMOUS\<rparr> # reservations m\<rparr>)))"

definition res_covers :: "nat \<Rightarrow> mem_reservation \<Rightarrow> bool" where
  "res_covers page r \<longleftrightarrow> r_start r \<le> page \<and> page < r_start r + r_pages r"

definition mem_find_reservation :: "mem \<Rightarrow> nat \<Rightarrow> mem_reservation option" where
  "mem_find_reservation m page = find (res_covers page) (reservations m)"

definition reservations_overlap :: "mem \<Rightarrow> nat \<Rightarrow> nat \<Rightarrow> bool" where
  "reservations_overlap m start pages =
     (\<exists>r \<in> set (reservations m). r_start r < start + pages \<and> start < r_start r + r_pages r)"

text \<open>The loop of \<^verbatim>\<open>mem_remove_reservations\<close>; \<open>alloc\<close> is whether the tail of a split can be allocated.\<close>

fun remove_res :: "bool \<Rightarrow> nat \<Rightarrow> nat \<Rightarrow> mem_reservation list \<Rightarrow> mem_reservation list" where
  "remove_res alloc start fin [] = []"
| "remove_res alloc start fin (r # rs) =
     (let e = r_start r + r_pages r
      in if r_start r \<ge> fin \<or> e \<le> start then r # remove_res alloc start fin rs
         else if r_start r \<ge> start \<and> e \<le> fin then remove_res alloc start fin rs
         else if r_start r < start \<and> e > fin then
           (if alloc then r\<lparr>r_pages := start - r_start r\<rparr>
                          # \<lparr>r_start = fin, r_pages = e - fin, r_flags = r_flags r\<rparr>
                          # remove_res alloc start fin rs
            else r # remove_res alloc start fin rs)
         else if r_start r < start then r\<lparr>r_pages := start - r_start r\<rparr> # remove_res alloc start fin rs
         else r\<lparr>r_start := fin, r_pages := e - fin\<rparr> # remove_res alloc start fin rs)"

definition mem_remove_reservations :: "bool \<Rightarrow> mem \<Rightarrow> nat \<Rightarrow> nat \<Rightarrow> mem" where
  "mem_remove_reservations alloc m start pages =
     m\<lparr>reservations := remove_res alloc start (start + pages) (reservations m)\<rparr>"

section \<open>Unmapping and mapping\<close>

definition pt_is_hole :: "mem \<Rightarrow> nat \<Rightarrow> nat \<Rightarrow> bool" where
  "pt_is_hole m start pages \<longleftrightarrow>
     (\<forall>page \<in> set [start..<start + pages]. mem_pt m page = None) \<and> \<not> reservations_overlap m start pages"

definition data_put :: "nat \<Rightarrow> host \<Rightarrow> host option" where
  "data_put d h = do {
     x \<leftarrow> h_data h d;
     if d_refs x = 1
     then Some (h\<lparr>h_data := (h_data h)(d := None),
                  h_closed := (case d_fd x of None \<Rightarrow> h_closed h | Some f \<Rightarrow> f # h_closed h)\<rparr>)
     else Some (h\<lparr>h_data := (h_data h)(d \<mapsto> x\<lparr>d_refs := d_refs x - 1\<rparr>)\<rparr>) }"

definition data_get :: "nat \<Rightarrow> host \<Rightarrow> host option" where
  "data_get d h = do {
     x \<leftarrow> h_data h d;
     Some (h\<lparr>h_data := (h_data h)(d \<mapsto> x\<lparr>d_refs := d_refs x + 1\<rparr>)\<rparr>) }"

type_synonym space = "mem \<times> host"

definition unmap_page :: "space \<Rightarrow> nat \<Rightarrow> space option" where
  "unmap_page = (\<lambda>(m, h) page.
     (case mem_pt m page of
        None \<Rightarrow> Some (m, h)
      | Some e \<Rightarrow> do {
          m1 \<leftarrow> mem_pt_del (m\<lparr>m_invalidated := page # m_invalidated m\<rparr>) page;
          d \<leftarrow> e_data e;
          h1 \<leftarrow> data_put d (if has (e_flags e) P_ANONYMOUS then anon_add (- 1) h else h);
          Some (m1, h1) }))"

definition pt_unmap_always :: "space \<Rightarrow> nat \<Rightarrow> nat \<Rightarrow> space option" where
  "pt_unmap_always s start pages =
     (let m = fst s;
          last' = size_sub (start + pages) 1;
          m1 = (if last' > mmap_hint m then m\<lparr>mmap_hint := last'\<rparr> else m);
          m2 = mem_remove_reservations (h_alloc (snd s)) m1 start pages
      in map_option (\<lambda>(m, h). (mem_changed m, h)) (for_pages fst unmap_page start (start + pages) (m2, snd s)))"

definition pt_unmap :: "space \<Rightarrow> nat \<Rightarrow> nat \<Rightarrow> (int \<times> space) option" where
  "pt_unmap s start pages =
     (if \<exists>page \<in> set [start..<start + pages]. mem_pt (fst s) page = None then Some (- 1, s)
      else map_option (Pair 0) (pt_unmap_always s start pages))"

definition map_page :: "nat \<Rightarrow> nat \<Rightarrow> nat \<Rightarrow> u32 \<Rightarrow> space \<Rightarrow> nat \<Rightarrow> space option" where
  "map_page d start offset flags = (\<lambda>s page. do {
     (m, h) \<leftarrow> (if mem_pt (fst s) page \<noteq> None then map_option snd (pt_unmap s page 1) else Some s);
     h1 \<leftarrow> data_get d h;
     m1 \<leftarrow> mem_pt_set m page \<lparr>e_data = Some d, e_offset = (page - start) * PAGE_BYTES + offset, e_flags = flags\<rparr>;
     Some (m1, h1) })"

text \<open>
  \<open>memory\<close> is what the host's \<^verbatim>\<open>mmap\<close> returned: its bytes, or the error \<^verbatim>\<open>errno_map\<close> makes of a
  failure. The result is the C result with the address space.
\<close>

definition pt_map :: "space \<Rightarrow> nat \<Rightarrow> nat \<Rightarrow> errno + (nat \<Rightarrow> byte) \<Rightarrow> nat \<Rightarrow> u32 \<Rightarrow> (int \<times> space) option" where
  "pt_map s start pages memory offset flags =
     (case memory of
        Inl e \<Rightarrow> Some (e, s)
      | Inr bytes \<Rightarrow>
          let h = snd s; d = h_next h
          in if \<not> h_alloc h then Some (ENOMEM, s)
             else map_option (Pair 0)
               (iter_opt (map_page d start offset flags)
                 (fst s, h\<lparr>h_data := (h_data h)(d \<mapsto> \<lparr>d_size = pages * PAGE_BYTES + offset, d_refs = 0,
                                                    d_bytes = bytes, d_fd = None\<rparr>),
                           h_next := d + 1\<rparr>)
                 [start..<start + pages]))"

definition pt_map_nothing :: "space \<Rightarrow> nat \<Rightarrow> nat \<Rightarrow> u32 \<Rightarrow> (int \<times> space) option" where
  "pt_map_nothing s start pages flags =
     (if pages = 0 then Some (0, s)
      else if \<not> h_alloc (snd s) then Some (ENOMEM, s)
      else pt_map s start pages (Inr (\<lambda>_. 0)) 0 (flags OR P_ANONYMOUS))"

section \<open>Protection\<close>

text \<open>
  The second loop of \<^verbatim>\<open>pt_set_flags\<close>: runs of unmapped pages are mapped together. \<open>hostprot page\<close> is the
  error of the host's \<^verbatim>\<open>mprotect\<close> for the page, if it fails.
\<close>

function run_end :: "mem \<Rightarrow> nat \<Rightarrow> nat \<Rightarrow> nat" where
  "run_end m page fin =
     (if page + 1 < fin \<and> mem_pt m (page + 1) = None then run_end m (page + 1) fin else page)"
  by pat_completeness auto
termination
  by (relation "measure (\<lambda>(m, page, fin). fin - page)") auto

declare run_end.simps [simp del]

lemma run_end_ge: "page \<le> run_end m page fin"
proof (induction m page fin rule: run_end.induct)
  case (1 m page fin)
  then show ?case by (subst run_end.simps) (auto dest: Suc_leD)
qed

definition assign_flags :: "nat \<Rightarrow> u32 \<Rightarrow> space \<Rightarrow> space option" where
  "assign_flags page flags = (\<lambda>(m, h).
     (case mem_pt m page of
        None \<Rightarrow> None
      | Some e \<Rightarrow> map_option (\<lambda>m1. (m1, h)) (pt_assign page (e\<lparr>e_flags := flags\<rparr>) m)))"

function set_flags_loop ::
  "(nat \<Rightarrow> errno option) \<Rightarrow> u32 \<Rightarrow> nat \<Rightarrow> nat \<Rightarrow> space \<Rightarrow> (int \<times> space) option" where
  "set_flags_loop hostprot flags page fin s =
     (if page < fin then
        (case mem_pt (fst s) page of
           None \<Rightarrow>
             if has flags (P_READ OR P_WRITE OR P_EXEC) then
               let e = run_end (fst s) page fin
               in (case pt_map_nothing s page (e - page + 1) (flags OR P_ANONYMOUS) of
                     None \<Rightarrow> None
                   | Some (_, s') \<Rightarrow> set_flags_loop hostprot flags (e + 1) fin s')
             else set_flags_loop hostprot flags (page + 1) fin s
         | Some entry \<Rightarrow>
             (case assign_flags page (flags OR (e_flags entry AND P_META_FLAGS)) s of
                None \<Rightarrow> None
              | Some s' \<Rightarrow>
                  if has (flags AND NOT (e_flags entry)) (P_READ OR P_WRITE)
                  then (case hostprot page of
                          Some err \<Rightarrow> Some (err, s')
                        | None \<Rightarrow> set_flags_loop hostprot flags (page + 1) fin s')
                  else set_flags_loop hostprot flags (page + 1) fin s'))
      else Some (0, (mem_changed (fst s), snd s)))"
  by pat_completeness auto
termination
  by (relation "measure (\<lambda>(hp, flags, page, fin, s). fin - page)")
    (auto intro!: diff_less_mono2 simp: run_end_ge le_imp_less_Suc)

declare set_flags_loop.simps [simp del]

definition pt_set_flags ::
  "(nat \<Rightarrow> errno option) \<Rightarrow> space \<Rightarrow> nat \<Rightarrow> nat \<Rightarrow> u32 \<Rightarrow> (int \<times> space) option" where
  "pt_set_flags hostprot s start pages flags =
     (if \<exists>page \<in> set [start..<start + pages].
           mem_pt (fst s) page = None \<and> mem_find_reservation (fst s) page = None
      then Some (ENOMEM, s)
      else set_flags_loop hostprot flags start (start + pages) s)"

section \<open>Copy on write\<close>

text \<open>
  The two address spaces of a fork and the heap they share. The pages copied are counted one by one.
\<close>

definition cow_page :: "mem \<times> mem \<times> host \<Rightarrow> nat \<Rightarrow> (mem \<times> mem \<times> host) option" where
  "cow_page = (\<lambda>(src, dst, h) page.
     (case mem_pt src page of
        None \<Rightarrow> Some (src, dst, h)
      | Some entry \<Rightarrow> do {
          (dst1, h1) \<leftarrow> pt_unmap_always (dst, h) page 1;
          let fl = (if has (e_flags entry) P_SHARED then e_flags entry else e_flags entry OR P_COW);
          src1 \<leftarrow> pt_assign page (entry\<lparr>e_flags := fl\<rparr>) src;
          d \<leftarrow> e_data entry;
          h2 \<leftarrow> data_get d (if has fl P_ANONYMOUS then anon_add 1 h1 else h1);
          dst2 \<leftarrow> mem_pt_set dst1 page (entry\<lparr>e_flags := fl AND NOT P_CODE\<rparr>);
          Some (src1, dst2, h2) }))"

definition pt_copy_on_write :: "mem \<times> mem \<times> host \<Rightarrow> nat \<Rightarrow> nat \<Rightarrow> (mem \<times> mem \<times> host) option" where
  "pt_copy_on_write s start pages =
     map_option (\<lambda>(src, dst, h).
        (mem_changed src,
         mem_changed (if h_alloc h then dst\<lparr>reservations := rev (reservations src) @ reservations dst\<rparr> else dst), h))
       (for_pages fst cow_page start (start + pages) s)"

section \<open>Faults\<close>

datatype access = MEM_READ | MEM_WRITE | MEM_WRITE_PTRACE

text \<open>A pointer is a mapping and an offset in it.\<close>

definition mem_ptr_nofault :: "mem \<Rightarrow> nat \<Rightarrow> access \<Rightarrow> (nat \<times> nat) option" where
  "mem_ptr_nofault m addr type = do {
     e \<leftarrow> mem_pt m (addr div PAGE_BYTES);
     if type = MEM_WRITE \<and> \<not> P_WRITABLE (e_flags e) then None
     else do { d \<leftarrow> e_data e; Some (d, e_offset e + addr mod PAGE_BYTES) } }"

definition STACK_TOP_PAGE :: nat where "STACK_TOP_PAGE = 0xffffe"
definition RLIM_INFINITY :: nat where "RLIM_INFINITY = 2 ^ 64 - 1"

text \<open>The next mapped page above \<open>page\<close>, or \<open>MEM_PAGES\<close> or more when there is none.\<close>

function next_mapped :: "mem \<Rightarrow> nat \<Rightarrow> nat" where
  "next_mapped m p =
     (let p' = mem_next_page m p
      in if p' < MEM_PAGES \<and> mem_pt m p' = None then next_mapped m p' else p')"
  by pat_completeness auto
termination
proof (relation "measure (\<lambda>(m, p). MEM_PAGES - p)")
  fix m p p' assume "p' = mem_next_page m p" "p' < MEM_PAGES \<and> mem_pt m p' = None"
  then have "p < p'" "p' < MEM_PAGES" using mem_next_page_spec(1)[of p m] by simp_all
  then show "((m, p'), m, p) \<in> measure (\<lambda>(m, p). MEM_PAGES - p)" by simp
qed simp

declare next_mapped.simps [simp del]

text \<open>
  The first half of \<^verbatim>\<open>mem_ptr\<close>: an absent page is materialised by growing the stack region above it or
  from a reservation. The first result is false where the C code returns NULL there. The subtraction
  \<^verbatim>\<open>guard_page - page\<close> wraps when the page is above the stack.
\<close>

definition stack_allows :: "nat \<Rightarrow> nat \<Rightarrow> bool" where
  "stack_allows limit page \<longleftrightarrow>
     limit = RLIM_INFINITY
     \<or> size_sub STACK_TOP_PAGE page * PAGE_BYTES mod 2 ^ 64 \<le> (limit + 131072) mod 2 ^ 64"

definition mem_fault_in :: "nat \<Rightarrow> space \<Rightarrow> nat \<Rightarrow> (bool \<times> space) option" where
  "mem_fault_in limit s page =
     (if mem_pt (fst s) page \<noteq> None then Some (True, s)
      else
        let p = next_mapped (fst s) page;
            grows = (p < MEM_PAGES \<and> (case mem_pt (fst s) p of None \<Rightarrow> False | Some e \<Rightarrow> has (e_flags e) P_GROWSDOWN))
        in if grows then
             if \<not> stack_allows limit page then Some (False, s)
             else let count = (if p - page > 256 then 256 else p - page)
                  in map_option (\<lambda>(_, s). (True, s)) (pt_map_nothing (fst s, anon_add (int count) (snd s)) page count (P_WRITE OR P_GROWSDOWN))
           else
             (case mem_find_reservation (fst s) page of
                None \<Rightarrow> Some (False, s)
              | Some r \<Rightarrow> map_option (\<lambda>(_, s). (True, s))
                            (pt_map_nothing (fst s, anon_add 1 (snd s)) page 1 (r_flags r AND NOT P_GROWSDOWN))))"

text \<open>
  The second half, for a write to a mapped page: permission, invalidation of compiled code, and the
  private copy of a copy-on-write page. The result of the \<^verbatim>\<open>mmap\<close> for the copy is not checked, so a
  failure is a copy to an invalid address.
\<close>

definition copy_page :: "(nat \<Rightarrow> byte) \<Rightarrow> nat \<Rightarrow> nat \<Rightarrow> byte" where
  "copy_page bytes off i = (if i < PAGE_BYTES then bytes (off + i) else 0)"

definition mem_write_fault :: "space \<Rightarrow> nat \<Rightarrow> access \<Rightarrow> (bool \<times> space) option" where
  "mem_write_fault s page type =
     (case mem_pt (fst s) page of
        None \<Rightarrow> Some (True, s)
      | Some e \<Rightarrow>
          if type = MEM_READ then Some (True, s)
          else if type \<noteq> MEM_WRITE_PTRACE \<and> \<not> has (e_flags e) P_WRITE then Some (False, s)
          else do {
            let fl = (if type = MEM_WRITE_PTRACE then e_flags e OR P_WRITE OR P_COW else e_flags e);
            let fl1 = (if has fl P_CODE then fl AND NOT P_CODE else fl);
            m1 \<leftarrow> pt_assign page (e\<lparr>e_flags := fl1\<rparr>) (fst s);
            let m2 = m1\<lparr>m_invalidated := page # m_invalidated m1\<rparr>;
            let m3 = (if has fl P_CODE then mem_changed m2 else m2);
            if has fl1 P_COW \<and> \<not> h_alloc (snd s) then None
            else if has fl1 P_COW then do {
              d \<leftarrow> e_data e;
              x \<leftarrow> h_data (snd s) d;
              (_, m4, h4) \<leftarrow> pt_map (m3, if has fl1 P_ANONYMOUS then anon_add 1 (snd s) else snd s) page 1 (Inr (copy_page (d_bytes x) (e_offset e))) 0
                                (fl1 AND NOT P_COW);
              Some (True, (mem_changed m4, h4)) }
            else Some (True, (m3, snd s)) })"

definition mem_ptr :: "nat \<Rightarrow> space \<Rightarrow> nat \<Rightarrow> access \<Rightarrow> ((nat \<times> nat) option \<times> space) option" where
  "mem_ptr limit s addr type = do {
     (ok, s1) \<leftarrow> mem_fault_in limit s (addr div PAGE_BYTES);
     if \<not> ok then Some (None, s1)
     else do {
       (ok2, s2) \<leftarrow> mem_write_fault s1 (addr div PAGE_BYTES) type;
       if \<not> ok2 then Some (None, s2)
       else Some (mem_ptr_nofault (fst s2) addr type, s2) } }"

section \<open>Code pages\<close>

definition mmu_mark_code_page :: "mem \<Rightarrow> nat \<Rightarrow> (int \<times> mem) option" where
  "mmu_mark_code_page m page =
     (case mem_pt m page of
        None \<Rightarrow> Some (- 1, m)
      | Some e \<Rightarrow>
          if has (e_flags e) P_CODE then Some (0, m)
          else map_option (\<lambda>m1. (1, mem_changed m1)) (pt_assign page (e\<lparr>e_flags := e_flags e OR P_CODE\<rparr>) m))"

definition mmu_code_page_intact :: "mem \<Rightarrow> nat \<Rightarrow> bool" where
  "mmu_code_page_intact m page = (case mem_pt m page of None \<Rightarrow> False | Some e \<Rightarrow> has (e_flags e) P_CODE)"

definition mem_mmu_translate_write_nofault :: "mem \<Rightarrow> nat \<Rightarrow> (nat \<times> nat) option" where
  "mem_mmu_translate_write_nofault m addr =
     (if mmu_code_page_intact m (addr div PAGE_BYTES) then None else mem_ptr_nofault m addr MEM_WRITE)"

definition SEGV_MAPERR :: int where "SEGV_MAPERR = 1"
definition SEGV_ACCERR :: int where "SEGV_ACCERR = 2"

definition mem_segv_reason :: "mem \<Rightarrow> nat \<Rightarrow> int" where
  "mem_segv_reason m addr =
     (case mem_pt m (addr div PAGE_BYTES) of None \<Rightarrow> SEGV_MAPERR | Some _ \<Rightarrow> SEGV_ACCERR)"

end
