(* ===== verification/Address_Props.thy ===== *)
theory Address_Props
  imports Address_Space
begin

text \<open>
  Correctness of the address space: what a guest sees of it (\<open>page_view\<close>), the reference counts of the
  host mappings, and the isolation a fork's copy-on-write gives.
\<close>

section \<open>The guest's view and the reference counts\<close>

definition page_view :: "space \<Rightarrow> nat \<Rightarrow> (u32 \<times> (nat \<Rightarrow> byte)) option" where
  "page_view s page = do {
     e \<leftarrow> mem_pt (fst s) page;
     d \<leftarrow> e_data e;
     x \<leftarrow> h_data (snd s) d;
     Some (e_flags e, \<lambda>i. d_bytes x (e_offset e + i)) }"

definition data_refs :: "mem \<Rightarrow> nat \<Rightarrow> nat" where
  "data_refs m d = card (pt4.refs e_data m d)"

text \<open>
  \<open>n\<close> references and the state of the mapping agree; \<open>fresh\<close> allows a mapping nothing refers to yet.
\<close>

definition dcount :: "nat \<Rightarrow> bool \<Rightarrow> hdata option \<Rightarrow> bool" where
  "dcount n fresh xo \<longleftrightarrow> (case xo of None \<Rightarrow> n = 0 | Some x \<Rightarrow> d_refs x = n \<and> (n = 0 \<longrightarrow> fresh))"

text \<open>\<open>oth d\<close>: the references other address spaces hold.\<close>

definition as_inv :: "(nat \<Rightarrow> nat) \<Rightarrow> nat set \<Rightarrow> space \<Rightarrow> bool" where
  "as_inv oth nw s \<longleftrightarrow> mem_ok (fst s)
     \<and> (\<forall>d. dcount (data_refs (fst s) d + oth d) (d \<in> nw) (h_data (snd s) d))
     \<and> (\<forall>d \<ge> h_next (snd s). h_data (snd s) d = None)"

lemma as_invD:
  assumes "as_inv oth nw s"
  shows "mem_ok (fst s)" "dcount (data_refs (fst s) d + oth d) (d \<in> nw) (h_data (snd s) d)"
    "h_next (snd s) \<le> d \<Longrightarrow> h_data (snd s) d = None"
  using assms by (simp_all add: as_inv_def)

lemma as_invI:
  "mem_ok m \<Longrightarrow> (\<And>d. dcount (data_refs m d + oth d) (d \<in> nw) (h_data h d)) \<Longrightarrow>
   (\<And>d. h_next h \<le> d \<Longrightarrow> h_data h d = None) \<Longrightarrow> as_inv oth nw (m, h)"
  by (simp add: as_inv_def)

text \<open>Fields the page table does not depend on.\<close>

definition same_table :: "mem \<Rightarrow> mem \<Rightarrow> bool" where
  "same_table m m' \<longleftrightarrow> pgdir m' = pgdir m"

lemma same_table_lookup: "pgdir m' = pgdir m \<Longrightarrow> mem_pt m' p = mem_pt m p"
  by (simp add: mem_pt_def mem_l3_def)

lemma same_table_refs: "pgdir m' = pgdir m \<Longrightarrow> data_refs m' d = data_refs m d"
  using same_table_lookup[of m' m] by (simp add: data_refs_def pt4.refs_def)

lemma data_refs_pos:
  assumes "mem_pt m p = Some e" "e_data e = Some d" "p < MEM_PAGES"
  shows "0 < data_refs m d"
proof -
  have "p \<in> pt4.refs e_data m d" using assms by (simp add: pt4.refs_def)
  then show ?thesis using pt4.refs_finite[of e_data m d] by (auto simp: data_refs_def card_gt_0_iff)
qed

lemma live_data:
  assumes "as_inv oth nw s" "mem_pt (fst s) p = Some e" "p < MEM_PAGES"
  shows "\<exists>d x. e_data e = Some d \<and> h_data (snd s) d = Some x
    \<and> d_refs x = data_refs (fst s) d + oth d \<and> 0 < d_refs x"
proof -
  obtain d where d: "e_data e = Some d" using mem_pt_in_use[OF assms(2)] by (auto simp: in_use_def)
  have "0 < data_refs (fst s) d" using data_refs_pos[OF assms(2) d assms(3)] .
  with as_invD(2)[OF assms(1), of d] d show ?thesis
    by (auto simp: dcount_def split: option.splits)
qed

lemma page_view_None:
  "as_inv oth nw s \<Longrightarrow> p < MEM_PAGES \<Longrightarrow> page_view s p = None \<longleftrightarrow> mem_pt (fst s) p = None"
  by (cases "mem_pt (fst s) p") (auto simp: page_view_def dest!: live_data)

text \<open>What an operation leaves of the heap: the surviving mappings keep their bytes.\<close>

definition keeps :: "host \<Rightarrow> host \<Rightarrow> bool" where
  "keeps h h' \<longleftrightarrow> h_next h \<le> h_next h' \<and> h_alloc h' = h_alloc h
     \<and> (\<forall>d x'. d < h_next h \<longrightarrow> h_data h' d = Some x' \<longrightarrow>
          (\<exists>x. h_data h d = Some x \<and> d_bytes x' = d_bytes x \<and> d_fd x' = d_fd x))"

lemma keeps_refl: "keeps h h"
  by (auto simp: keeps_def)

lemma keeps_trans: "keeps h1 h2 \<Longrightarrow> keeps h2 h3 \<Longrightarrow> keeps h1 h3"
proof -
  assume k: "keeps h1 h2" "keeps h2 h3"
  have "\<exists>x. h_data h1 d = Some x \<and> d_bytes x' = d_bytes x \<and> d_fd x' = d_fd x"
    if d: "d < h_next h1" "h_data h3 d = Some x'" for d x'
  proof -
    have "d < h_next h2" using d(1) k(1) by (auto simp: keeps_def)
    then obtain y where "h_data h2 d = Some y" "d_bytes x' = d_bytes y" "d_fd x' = d_fd y" using d(2) k(2) by (auto simp: keeps_def)
    then show ?thesis using d(1) k(1) by (auto simp: keeps_def)
  qed
  then show ?thesis using k by (auto simp: keeps_def)
qed

lemma keeps_view:
  assumes "keeps h h'" "as_inv oth nw (m, h)" "as_inv oth' nw' (m', h')" "p < MEM_PAGES"
    "mem_pt m' p = mem_pt m p"
  shows "page_view (m', h') p = page_view (m, h) p"
proof (cases "mem_pt m p")
  case None
  then show ?thesis using assms(5) by (simp add: page_view_def)
next
  case (Some e)
  obtain d x where x: "e_data e = Some d" "h_data h d = Some x"
    using live_data[OF assms(2), of p e] Some assms(4) by auto
  obtain x' where x': "h_data h' d = Some x'"
    using live_data[OF assms(3), of p e] Some assms(4,5) x(1) by auto
  have "d < h_next h" using as_invD(3)[OF assms(2), of d] x(2) by (cases "d < h_next h") auto
  then have "d_bytes x' = d_bytes x" using assms(1) x(2) x' by (auto simp: keeps_def)
  then show ?thesis using Some x x' assms(5) by (simp add: page_view_def)
qed

lemma anon_irrelevant [simp]:
  "as_inv oth nw (m, anon_add n h) = as_inv oth nw (m, h)" "keeps (anon_add n h) h' = keeps h h'"
  "keeps h (anon_add n h') = keeps h h'" "page_view (m, anon_add n h) p = page_view (m, h) p"
  by (simp_all add: as_inv_def keeps_def page_view_def)

lemma anon_if [simp]:
  "h_data (if b then anon_add n h else h) = h_data h" "h_next (if b then anon_add n h else h) = h_next h"
  "h_alloc (if b then anon_add n h else h) = h_alloc h"
  "as_inv oth nw (m, if b then anon_add n h else h) = as_inv oth nw (m, h)"
  "keeps (if b then anon_add n h else h) h' = keeps h h'"
  by simp_all

section \<open>Unmapping\<close>

lemma data_put_spec:
  assumes "h_data h d = Some x" "0 < d_refs x"
  shows "\<exists>h'. data_put d h = Some h' \<and> keeps h h' \<and> h_next h' = h_next h
     \<and> h_data h' d = (if d_refs x = 1 then None else Some (x\<lparr>d_refs := d_refs x - 1\<rparr>))
     \<and> (\<forall>e. e \<noteq> d \<longrightarrow> h_data h' e = h_data h e)"
  using assms by (auto simp: data_put_def keeps_def split: option.splits)

lemma unmap_page_inv:
  assumes inv: "as_inv oth nw s" and p: "p < MEM_PAGES"
    and nw: "\<And>e d. mem_pt (fst s) p = Some e \<Longrightarrow> e_data e = Some d \<Longrightarrow> d \<notin> nw"
  shows "\<exists>s'. unmap_page s p = Some s' \<and> as_inv oth nw s' \<and> keeps (snd s) (snd s')
     \<and> h_next (snd s') = h_next (snd s) \<and> reservations (fst s') = reservations (fst s)
     \<and> mmap_hint (fst s') = mmap_hint (fst s)
     \<and> (\<forall>q < MEM_PAGES. mem_pt (fst s') q = (if q = p then None else mem_pt (fst s) q))
     \<and> (\<forall>c. (\<forall>e. mem_pt (fst s) p = Some e \<longrightarrow> e_data e \<noteq> Some c) \<longrightarrow> h_data (snd s') c = h_data (snd s) c)"
proof (cases "mem_pt (fst s) p")
  case None
  then have "unmap_page s p = Some s" by (cases s) (simp add: unmap_page_def)
  then show ?thesis using inv None keeps_refl by auto
next
  case (Some e)
  obtain m h where s: "s = (m, h)" by force
  obtain d x where x: "e_data e = Some d" "h_data h d = Some x" "d_refs x = data_refs m d + oth d" "0 < d_refs x"
    using live_data[OF inv Some p] unfolding s by auto
  define m0 where "m0 = m\<lparr>m_invalidated := p # m_invalidated m\<rparr>"
  have m0: "mem_ok m0" "mem_pt m0 q = mem_pt m q" "data_refs m0 d = data_refs m d" for q d
    using inv same_table_lookup[of m0 m] same_table_refs[of m0 m]
    by (simp_all add: m0_def as_inv_def s mem_ok_def)
  obtain m1 where m1: "mem_pt_del m0 p = Some m1" "mem_ok m1" "m1 = m0\<lparr>pgdir := pgdir m1\<rparr>"
      "\<forall>q < MEM_PAGES. mem_pt m1 q = (if q = p then None else mem_pt m0 q)"
    using mem_pt_del_spec[OF m0(1) p] by blast
  let ?h = "if has (e_flags e) P_ANONYMOUS then anon_add (- 1) h else h"
  have xh: "h_data ?h d = Some x" using x(2) by simp
  obtain h1 where h1: "data_put d ?h = Some h1" "keeps h h1" "h_next h1 = h_next h"
      "h_data h1 d = (if d_refs x = 1 then None else Some (x\<lparr>d_refs := d_refs x - 1\<rparr>))"
      "\<forall>e. e \<noteq> d \<longrightarrow> h_data h1 e = h_data h e"
    using data_put_spec[OF xh x(4)] unfolding anon_if by blast
  have run: "unmap_page s p = Some (m1, h1)"
    using Some m1(1) h1(1) x(1) by (simp add: unmap_page_def s flip: m0_def)
  have refs: "data_refs m c = data_refs m1 c + (if c = d then 1 else 0)" for c
    using pt4.refs_del[OF m0(1) p _ m1(1), of e e_data c] Some m0(2,3) x(1)
    by (auto simp: s data_refs_def)
  have "as_inv oth nw (m1, h1)"
  proof (rule as_invI)
    fix c
    have old: "dcount (data_refs m c + oth c) (c \<in> nw) (h_data h c)" using as_invD(2)[OF inv] by (simp add: s)
    have "d \<notin> nw" using nw Some x(1) by simp
    then show "dcount (data_refs m1 c + oth c) (c \<in> nw) (h_data h1 c)"
      using old refs[of c] h1(4,5) x(2-4) by (cases "c = d") (auto simp: dcount_def)
  next
    fix c assume "h_next h1 \<le> c"
    then show "h_data h1 c = None"
      using as_invD(3)[OF inv, of c] h1(3-5) x(2) by (cases "c = d") (auto simp: s)
  qed (rule m1(2))
  moreover have "reservations m1 = reservations m" "mmap_hint m1 = mmap_hint m"
    by (subst m1(3), simp add: m0_def)+
  ultimately show ?thesis using run h1 m1(4) m0(2) Some x(1) by (auto simp: s)
qed

lemma unmap_absent: "mem_pt (fst s) p = None \<Longrightarrow> unmap_page s p = Some s"
  by (cases s) (simp add: unmap_page_def)

lemma iter_unmap_inv:
  assumes "as_inv oth nw s" "\<forall>p \<in> set ps. p < MEM_PAGES"
    "\<And>p e d. p \<in> set ps \<Longrightarrow> mem_pt (fst s) p = Some e \<Longrightarrow> e_data e = Some d \<Longrightarrow> d \<notin> nw"
  shows "\<exists>s'. iter_opt unmap_page s ps = Some s' \<and> as_inv oth nw s' \<and> keeps (snd s) (snd s')
     \<and> h_next (snd s') = h_next (snd s) \<and> reservations (fst s') = reservations (fst s)
     \<and> mmap_hint (fst s') = mmap_hint (fst s)
     \<and> (\<forall>q < MEM_PAGES. mem_pt (fst s') q = (if q \<in> set ps then None else mem_pt (fst s) q))
     \<and> (\<forall>c. (\<forall>q \<in> set ps. \<forall>e. mem_pt (fst s) q = Some e \<longrightarrow> e_data e \<noteq> Some c) \<longrightarrow>
          h_data (snd s') c = h_data (snd s) c)"
  using assms
proof (induction ps arbitrary: s)
  case Nil
  then show ?case by (simp add: keeps_refl)
next
  case (Cons p ps)
  have p: "p < MEM_PAGES" using Cons.prems(2) by simp
  obtain s1 where s1: "unmap_page s p = Some s1" "as_inv oth nw s1" "keeps (snd s) (snd s1)"
      "h_next (snd s1) = h_next (snd s)" "reservations (fst s1) = reservations (fst s)"
      "mmap_hint (fst s1) = mmap_hint (fst s)"
      "\<forall>q < MEM_PAGES. mem_pt (fst s1) q = (if q = p then None else mem_pt (fst s) q)"
      "\<forall>c. (\<forall>e. mem_pt (fst s) p = Some e \<longrightarrow> e_data e \<noteq> Some c) \<longrightarrow> h_data (snd s1) c = h_data (snd s) c"
    using unmap_page_inv[OF Cons.prems(1) p] Cons.prems(3)[of p] by auto
  have "d \<notin> nw" if "q \<in> set ps" "mem_pt (fst s1) q = Some e" "e_data e = Some d" for q e d
    using that s1(7) Cons.prems(2) Cons.prems(3)[of q e d] by (auto split: if_splits)
  then obtain s2 where s2: "iter_opt unmap_page s1 ps = Some s2" "as_inv oth nw s2" "keeps (snd s1) (snd s2)"
      "h_next (snd s2) = h_next (snd s1)" "reservations (fst s2) = reservations (fst s1)"
      "mmap_hint (fst s2) = mmap_hint (fst s1)"
      "\<forall>q < MEM_PAGES. mem_pt (fst s2) q = (if q \<in> set ps then None else mem_pt (fst s1) q)"
      "\<forall>c. (\<forall>q \<in> set ps. \<forall>e. mem_pt (fst s1) q = Some e \<longrightarrow> e_data e \<noteq> Some c) \<longrightarrow>
          h_data (snd s2) c = h_data (snd s1) c"
    using Cons.IH[OF s1(2)] Cons.prems(2) by auto
  have "h_data (snd s2) c = h_data (snd s) c"
    if "\<forall>q \<in> set (p # ps). \<forall>e. mem_pt (fst s) q = Some e \<longrightarrow> e_data e \<noteq> Some c" for c
  proof -
    have "\<forall>q \<in> set ps. \<forall>e. mem_pt (fst s1) q = Some e \<longrightarrow> e_data e \<noteq> Some c"
      using that s1(7) Cons.prems(2) by (auto split: if_splits)
    then show ?thesis using s2(8) s1(8) that by auto
  qed
  then show ?case using s1 s2 keeps_trans[OF s1(3) s2(3)] by auto
qed

lemma as_inv_fields:
  assumes "as_inv oth nw (m, h)" "pgdir m' = pgdir m"
  shows "as_inv oth nw (m', h)"
  using assms same_table_refs[OF assms(2)] by (simp add: as_inv_def mem_ok_def)

text \<open>Unmapping a range: exactly its pages and its part of the reservations go.\<close>

lemma pt_unmap_always_inv:
  assumes inv: "as_inv oth nw s" and r: "start + pages \<le> MEM_PAGES"
    and nw: "\<And>p e d. start \<le> p \<Longrightarrow> p < start + pages \<Longrightarrow> mem_pt (fst s) p = Some e \<Longrightarrow>
      e_data e = Some d \<Longrightarrow> d \<notin> nw"
  shows "\<exists>s'. pt_unmap_always s start pages = Some s' \<and> as_inv oth nw s' \<and> keeps (snd s) (snd s')
     \<and> h_next (snd s') = h_next (snd s)
     \<and> reservations (fst s') = remove_res (h_alloc (snd s)) start (start + pages) (reservations (fst s))
     \<and> (\<forall>q < MEM_PAGES. mem_pt (fst s') q
          = (if start \<le> q \<and> q < start + pages then None else mem_pt (fst s) q))
     \<and> (\<forall>c. (\<forall>q e. start \<le> q \<and> q < start + pages \<and> mem_pt (fst s) q = Some e \<longrightarrow> e_data e \<noteq> Some c) \<longrightarrow>
          h_data (snd s') c = h_data (snd s) c)"
proof -
  obtain m h where s: "s = (m, h)" by force
  define m1 where "m1 = (if size_sub (start + pages) 1 > mmap_hint m
    then m\<lparr>mmap_hint := size_sub (start + pages) 1\<rparr> else m)"
  define m2 where "m2 = mem_remove_reservations (h_alloc h) m1 start pages"
  have t: "pgdir m2 = pgdir m" "reservations m2 = remove_res (h_alloc h) start (start + pages) (reservations m)"
    by (simp_all add: m2_def m1_def mem_remove_reservations_def)
  have inv2: "as_inv oth nw (m2, h)" using as_inv_fields[OF _ t(1)] inv by (simp add: s)
  have look: "mem_pt m2 p = mem_pt m p" for p by (rule same_table_lookup[OF t(1)])
  obtain m3 h3 where l: "iter_opt unmap_page (m2, h) [start..<start + pages] = Some (m3, h3)"
      "as_inv oth nw (m3, h3)" "keeps h h3" "h_next h3 = h_next h" "reservations m3 = reservations m2"
      "\<forall>q < MEM_PAGES. mem_pt m3 q = (if start \<le> q \<and> q < start + pages then None else mem_pt m2 q)"
      "\<forall>c. (\<forall>q \<in> set [start..<start + pages]. \<forall>e. mem_pt m2 q = Some e \<longrightarrow> e_data e \<noteq> Some c) \<longrightarrow>
          h_data h3 c = h_data h c"
  proof -
    have "\<forall>p \<in> set [start..<start + pages]. p < MEM_PAGES" using r by auto
    moreover have "d \<notin> nw" if "p \<in> set [start..<start + pages]" "mem_pt (fst (m2, h)) p = Some e" "e_data e = Some d"
      for p e d using nw[of p e d] that look by (simp add: s)
    ultimately obtain s3 where "iter_opt unmap_page (m2, h) [start..<start + pages] = Some s3"
        "as_inv oth nw s3" "keeps h (snd s3)" "h_next (snd s3) = h_next h" "reservations (fst s3) = reservations m2"
        "\<forall>q < MEM_PAGES. mem_pt (fst s3) q
          = (if q \<in> set [start..<start + pages] then None else mem_pt m2 q)"
        "\<forall>c. (\<forall>q \<in> set [start..<start + pages]. \<forall>e. mem_pt m2 q = Some e \<longrightarrow> e_data e \<noteq> Some c) \<longrightarrow>
          h_data (snd s3) c = h_data h c"
      using iter_unmap_inv[OF inv2, of "[start..<start + pages]"] by auto
    then show thesis using that[of "fst s3" "snd s3"] by auto
  qed
  have "pt_unmap_always s start pages = Some (mem_changed m3, h3)"
  proof -
    have "pt_unmap_always s start pages
        = map_option (\<lambda>(m, h). (mem_changed m, h)) (for_pages fst unmap_page start (start + pages) (m2, h))"
      by (simp add: pt_unmap_always_def s Let_def m2_def m1_def)
    then show ?thesis using l(1) for_pages_every[of fst unmap_page, OF unmap_absent r, of start "(m2, h)"] by simp
  qed
  moreover have "as_inv oth nw (mem_changed m3, h3)"
    using as_inv_fields[OF l(2), of "mem_changed m3"] by (simp add: mem_changed_def)
  moreover have "mem_pt (mem_changed m3) q = mem_pt m3 q" for q
    by (rule same_table_lookup) (simp add: mem_changed_def)
  moreover have "h_data h3 c = h_data h c"
    if "\<forall>q e. start \<le> q \<and> q < start + pages \<and> mem_pt (fst s) q = Some e \<longrightarrow> e_data e \<noteq> Some c" for c
  proof -
    have "\<forall>q \<in> set [start..<start + pages]. \<forall>e. mem_pt m2 q = Some e \<longrightarrow> e_data e \<noteq> Some c"
      using that look by (auto simp: s)
    then show ?thesis using l(7) by blast
  qed
  ultimately show ?thesis using l(1-6) t(2) look by (simp add: s mem_changed_def)
qed

lemma find_remove_res:
  "map_option r_flags (find (res_covers p) (remove_res True start fin rs))
   = (if start \<le> p \<and> p < fin then None else map_option r_flags (find (res_covers p) rs))"
proof (induction rs)
  case (Cons r rs)
  then show ?case
    by (cases "start \<le> p \<and> p < fin")
      (auto simp: Let_def res_covers_def[of p r] res_covers_def[of p "r\<lparr>r_pages := start - r_start r\<rparr>"]
        res_covers_def[of p "r\<lparr>r_start := fin, r_pages := r_start r + r_pages r - fin\<rparr>"]
        res_covers_def[of p "\<lparr>r_start = fin, r_pages = r_start r + r_pages r - fin, r_flags = r_flags r\<rparr>"])
qed simp

section \<open>Mapping\<close>

lemma data_get_spec:
  assumes "h_data h d = Some x"
  shows "\<exists>h'. data_get d h = Some h' \<and> keeps h h' \<and> h_next h' = h_next h
     \<and> h_data h' = (h_data h)(d \<mapsto> x\<lparr>d_refs := d_refs x + 1\<rparr>)"
  using assms by (auto simp: data_get_def keeps_def)

text \<open>An entry for \<open>d\<close> at an unmapped page, with one more reference.\<close>

lemma attach_inv:
  assumes inv: "as_inv oth nw (m, h)" and p: "p < MEM_PAGES" and free: "mem_pt m p = None"
    and e: "e_data e = Some d" and x: "h_data h d = Some x"
  shows "\<exists>h' m'. data_get d h = Some h' \<and> mem_pt_set m p e = Some m' \<and> as_inv oth nw (m', h')
     \<and> keeps h h' \<and> h_next h' = h_next h \<and> h_data h' = (h_data h)(d \<mapsto> x\<lparr>d_refs := d_refs x + 1\<rparr>)
     \<and> reservations m' = reservations m
     \<and> (\<forall>q < MEM_PAGES. mem_pt m' q = (if q = p then Some e else mem_pt m q))"
proof -
  have ok: "mem_ok m" using inv by (simp add: as_inv_def)
  have use': "in_use e" using e by (simp add: in_use_def)
  obtain m' where m': "mem_pt_set m p e = Some m'" "mem_ok m'"
      "m' = m\<lparr>pgdir := pgdir m', pgdir_used := pgdir_used m'\<rparr>"
      "\<forall>q < MEM_PAGES. mem_pt m' q = (if q = p then Some e else mem_pt m q)"
    using mem_pt_set_spec[OF ok p use'] by blast
  obtain h' where h': "data_get d h = Some h'" "keeps h h'" "h_next h' = h_next h"
      "h_data h' = (h_data h)(d \<mapsto> x\<lparr>d_refs := d_refs x + 1\<rparr>)"
    using data_get_spec[of h d x] x by blast
  have refs: "data_refs m' c = data_refs m c + (if c = d then 1 else 0)" for c
    using pt4.refs_put[OF ok p use' free m'(1), of e_data c] e by (auto simp: data_refs_def)
  have "as_inv oth nw (m', h')"
  proof (rule as_invI)
    fix c
    show "dcount (data_refs m' c + oth c) (c \<in> nw) (h_data h' c)"
      using as_invD(2)[OF inv, of c] refs[of c] h'(4) x by (cases "c = d") (auto simp: dcount_def)
  next
    fix c assume "h_next h' \<le> c"
    then show "h_data h' c = None" using as_invD(3)[OF inv, of c] h'(3,4) x by (cases "c = d") auto
  qed (rule m'(2))
  moreover have "reservations m' = reservations m" by (subst m'(3)) simp
  ultimately show ?thesis using m' h' by blast
qed

definition map_entry :: "nat \<Rightarrow> nat \<Rightarrow> nat \<Rightarrow> u32 \<Rightarrow> nat \<Rightarrow> pte" where
  "map_entry d start offset flags page =
     \<lparr>e_data = Some d, e_offset = (page - start) * PAGE_BYTES + offset, e_flags = flags\<rparr>"

lemma map_page_inv:
  assumes inv: "as_inv oth {d} s" and p: "p < MEM_PAGES" and x: "h_data (snd s) d = Some x"
    and new: "\<And>e. mem_pt (fst s) p = Some e \<Longrightarrow> e_data e \<noteq> Some d"
  shows "\<exists>s' x'. map_page d start offset flags s p = Some s' \<and> as_inv oth {d} s' \<and> keeps (snd s) (snd s')
     \<and> h_next (snd s') = h_next (snd s) \<and> h_data (snd s') d = Some x' \<and> d_bytes x' = d_bytes x
     \<and> (\<forall>q < MEM_PAGES. mem_pt (fst s') q
          = (if q = p then Some (map_entry d start offset flags p) else mem_pt (fst s) q))"
proof -
  have "\<exists>s1 y. (if mem_pt (fst s) p \<noteq> None then map_option snd (pt_unmap s p 1) else Some s) = Some s1
     \<and> as_inv oth {d} s1 \<and> keeps (snd s) (snd s1) \<and> h_next (snd s1) = h_next (snd s)
     \<and> (\<forall>q < MEM_PAGES. mem_pt (fst s1) q = (if q = p then None else mem_pt (fst s) q))
     \<and> h_data (snd s1) d = Some y \<and> d_bytes y = d_bytes x"
  proof (cases "mem_pt (fst s) p")
    case None
    then show ?thesis using inv x keeps_refl by auto
  next
    case (Some e)
    have nw: "c \<notin> {d}" if "p \<le> q" "q < p + 1" "mem_pt (fst s) q = Some e'" "e_data e' = Some c" for q e' c
    proof -
      have "q = p" using that(1,2) by simp
      then show ?thesis using that(3,4) new[of e'] by auto
    qed
    obtain s1 where s1: "pt_unmap_always s p 1 = Some s1" "as_inv oth {d} s1" "keeps (snd s) (snd s1)"
        "h_next (snd s1) = h_next (snd s)"
        "\<forall>q < MEM_PAGES. mem_pt (fst s1) q = (if p \<le> q \<and> q < p + 1 then None else mem_pt (fst s) q)"
        "\<forall>c. (\<forall>q e. p \<le> q \<and> q < p + 1 \<and> mem_pt (fst s) q = Some e \<longrightarrow> e_data e \<noteq> Some c) \<longrightarrow>
          h_data (snd s1) c = h_data (snd s) c"
      using pt_unmap_always_inv[OF inv, of p 1] p nw by auto
    have look: "\<forall>q < MEM_PAGES. mem_pt (fst s1) q = (if q = p then None else mem_pt (fst s) q)"
      using s1(5) by auto
    have "\<forall>q e. p \<le> q \<and> q < p + 1 \<and> mem_pt (fst s) q = Some e \<longrightarrow> e_data e \<noteq> Some d"
      using nw by blast
    then have "h_data (snd s1) d = Some x" using s1(6) x by simp
    then show ?thesis using s1 look Some by (auto simp: pt_unmap_def)
  qed
  then obtain m1 h1 y where s1: "(if mem_pt (fst s) p \<noteq> None then map_option snd (pt_unmap s p 1) else Some s) = Some (m1, h1)"
     "as_inv oth {d} (m1, h1)" "keeps (snd s) h1" "h_next h1 = h_next (snd s)"
     "\<forall>q < MEM_PAGES. mem_pt m1 q = (if q = p then None else mem_pt (fst s) q)"
     "h_data h1 d = Some y" "d_bytes y = d_bytes x" by auto
  have free: "mem_pt m1 p = None" using s1(5) p by simp
  obtain m2 h2 where s2: "data_get d h1 = Some h2" "mem_pt_set m1 p (map_entry d start offset flags p) = Some m2"
      "as_inv oth {d} (m2, h2)" "keeps h1 h2" "h_next h2 = h_next h1"
      "h_data h2 = (h_data h1)(d \<mapsto> y\<lparr>d_refs := d_refs y + 1\<rparr>)"
      "\<forall>q < MEM_PAGES. mem_pt m2 q = (if q = p then Some (map_entry d start offset flags p) else mem_pt m1 q)"
    using attach_inv[OF s1(2) p free _ s1(6), of "map_entry d start offset flags p"] by (auto simp: map_entry_def)
  have run: "map_page d start offset flags s p = Some (m2, h2)"
    unfolding map_page_def s1(1) using s2(1,2) by (simp add: map_entry_def)
  show ?thesis
    using run s2 s1 keeps_trans[OF s1(3) s2(4)] by auto
qed

lemma iter_map_inv:
  assumes "as_inv oth {d} s" "h_data (snd s) d = Some x" "distinct ps" "\<forall>p \<in> set ps. p < MEM_PAGES"
    "\<forall>p \<in> set ps. \<forall>e. mem_pt (fst s) p = Some e \<longrightarrow> e_data e \<noteq> Some d"
  shows "\<exists>s' x'. iter_opt (map_page d start offset flags) s ps = Some s' \<and> as_inv oth {d} s'
     \<and> keeps (snd s) (snd s') \<and> h_next (snd s') = h_next (snd s)
     \<and> h_data (snd s') d = Some x' \<and> d_bytes x' = d_bytes x
     \<and> (\<forall>q < MEM_PAGES. mem_pt (fst s') q
          = (if q \<in> set ps then Some (map_entry d start offset flags q) else mem_pt (fst s) q))"
  using assms
proof (induction ps arbitrary: s x)
  case Nil
  then show ?case by (auto simp: keeps_refl)
next
  case (Cons p ps)
  have p: "p < MEM_PAGES" "p \<notin> set ps" using Cons.prems(3,4) by simp_all
  obtain s1 x1 where s1: "map_page d start offset flags s p = Some s1" "as_inv oth {d} s1"
      "keeps (snd s) (snd s1)" "h_next (snd s1) = h_next (snd s)" "h_data (snd s1) d = Some x1"
      "d_bytes x1 = d_bytes x"
      "\<forall>q < MEM_PAGES. mem_pt (fst s1) q
          = (if q = p then Some (map_entry d start offset flags p) else mem_pt (fst s) q)"
    using map_page_inv[OF Cons.prems(1) p(1) Cons.prems(2), of start offset flags] Cons.prems(5) by auto
  have "\<forall>q \<in> set ps. \<forall>e. mem_pt (fst s1) q = Some e \<longrightarrow> e_data e \<noteq> Some d"
    using Cons.prems(4,5) s1(7) p(2) by auto
  then obtain s2 x2 where s2: "iter_opt (map_page d start offset flags) s1 ps = Some s2" "as_inv oth {d} s2"
      "keeps (snd s1) (snd s2)" "h_next (snd s2) = h_next (snd s1)" "h_data (snd s2) d = Some x2"
      "d_bytes x2 = d_bytes x1"
      "\<forall>q < MEM_PAGES. mem_pt (fst s2) q
          = (if q \<in> set ps then Some (map_entry d start offset flags q) else mem_pt (fst s1) q)"
    using Cons.IH[OF s1(2,5)] Cons.prems(3,4) by auto
  show ?case using s1 s2 keeps_trans[OF s1(3) s2(3)] by auto
qed

text \<open>
  Mapping a range: each of its pages shows its part of the new memory, every other page is as before.
\<close>

lemma pt_map_inv:
  assumes inv: "as_inv oth {} s" and r: "start + pages \<le> MEM_PAGES" "0 < pages" and al: "h_alloc (snd s)"
  shows "\<exists>s'. pt_map s start pages (Inr bytes) offset flags = Some (0, s') \<and> as_inv oth {} s'
     \<and> keeps (snd s) (snd s') \<and> h_next (snd s') = h_next (snd s) + 1
     \<and> (\<exists>x. h_data (snd s') (h_next (snd s)) = Some x \<and> d_bytes x = bytes)
     \<and> (\<forall>q < MEM_PAGES. mem_pt (fst s') q = (if start \<le> q \<and> q < start + pages
            then Some (map_entry (h_next (snd s)) start offset flags q) else mem_pt (fst s) q))"
proof -
  obtain m h where s: "s = (m, h)" by force
  define d where "d = h_next h"
  define x where "x = \<lparr>d_size = pages * PAGE_BYTES + offset, d_refs = 0, d_bytes = bytes, d_fd = None\<rparr>"
  define h0 where "h0 = h\<lparr>h_data := (h_data h)(d \<mapsto> x), h_next := d + 1\<rparr>"
  have none: "h_data h d = None" using as_invD(3)[OF inv, of d] by (simp add: s d_def)
  have free: "e_data e \<noteq> Some d" if "mem_pt m p = Some e" "p < MEM_PAGES" for p e
    using live_data[OF inv, of p e] that none by (auto simp: s)
  have zero: "data_refs m d = 0 \<and> oth d = 0"
    using as_invD(2)[OF inv, of d] none by (simp add: s dcount_def)
  have "as_inv oth {d} (m, h0)"
  proof (rule as_invI)
    fix c show "dcount (data_refs m c + oth c) (c \<in> {d}) (h_data h0 c)"
      using as_invD(2)[OF inv, of c] zero by (cases "c = d") (simp_all add: s h0_def dcount_def x_def)
  next
    fix c assume "h_next h0 \<le> c"
    then show "h_data h0 c = None" using as_invD(3)[OF inv, of c] by (simp add: s h0_def d_def)
  qed (use inv in \<open>simp add: as_inv_def s\<close>)
  then obtain s1 x1 where s1: "iter_opt (map_page d start offset flags) (m, h0) [start..<start + pages] = Some s1"
      "as_inv oth {d} s1" "keeps h0 (snd s1)" "h_next (snd s1) = d + 1" "h_data (snd s1) d = Some x1"
      "d_bytes x1 = bytes"
      "\<forall>q < MEM_PAGES. mem_pt (fst s1) q = (if start \<le> q \<and> q < start + pages
          then Some (map_entry d start offset flags q) else mem_pt m q)"
    using iter_map_inv[of oth d "(m, h0)" x "[start..<start + pages]" start offset flags] r free
    by (auto simp: h0_def x_def)
  have "mem_pt (fst s1) start = Some (map_entry d start offset flags start)" using s1(7) r by simp
  then have "0 < data_refs (fst s1) d" using data_refs_pos[of "fst s1" start] r by (simp add: map_entry_def)
  then have "dcount (data_refs (fst s1) c + oth c) (c \<in> {}) (h_data (snd s1) c)" for c
    using as_invD(2)[OF s1(2), of c] by (cases "c = d") (auto simp: dcount_def split: option.splits)
  then have "as_inv oth {} s1" using s1(2) by (simp add: as_inv_def)
  moreover have "keeps h (snd s1)"
  proof -
    have "keeps h h0" by (auto simp: keeps_def h0_def d_def)
    then show ?thesis using s1(3) by (rule keeps_trans)
  qed
  moreover have "pt_map s start pages (Inr bytes) offset flags = Some (0, s1)"
    using s1(1) al by (simp add: pt_map_def s Let_def d_def h0_def x_def)
  ultimately show ?thesis using s1 by (auto simp: s d_def)
qed

lemma pt_map_nothing_inv:
  assumes inv: "as_inv oth {} s" and r: "start + pages \<le> MEM_PAGES"
  shows "\<exists>r s'. pt_map_nothing s start pages fl = Some (r, s') \<and> as_inv oth {} s' \<and> keeps (snd s) (snd s')
     \<and> (r = 0 \<or> r = ENOMEM \<and> s' = s) \<and> (h_alloc (snd s) \<longrightarrow> r = 0)
     \<and> (r = 0 \<and> 0 < pages \<longrightarrow> (\<exists>x. h_data (snd s') (h_next (snd s)) = Some x \<and> d_bytes x = (\<lambda>_. 0)))
     \<and> (\<forall>q < MEM_PAGES. mem_pt (fst s') q = (if r = 0 \<and> start \<le> q \<and> q < start + pages
            then Some (map_entry (h_next (snd s)) start 0 (fl OR P_ANONYMOUS) q) else mem_pt (fst s) q))"
proof -
  consider "pages = 0" | "pages \<noteq> 0" "\<not> h_alloc (snd s)" | "0 < pages" "h_alloc (snd s)" by linarith
  then show ?thesis
  proof cases
    case 3
    then show ?thesis
      using pt_map_inv[OF inv r 3, of "\<lambda>_. 0" 0 "fl OR P_ANONYMOUS"] by (auto simp: pt_map_nothing_def)
  qed (use inv keeps_refl in \<open>auto simp: pt_map_nothing_def\<close>)
qed

section \<open>Flags\<close>

lemma has_bits:
  "has f P_READ \<longleftrightarrow> bit f 0" "has f P_WRITE \<longleftrightarrow> bit f 1" "has f P_GROWSDOWN \<longleftrightarrow> bit f 3"
  "has f P_COW \<longleftrightarrow> bit f 4" "has f P_SHARED \<longleftrightarrow> bit f 7" "has f P_CODE \<longleftrightarrow> bit f 8"
  using and_exp_eq_0_iff_not_bit[of f 0] and_exp_eq_0_iff_not_bit[of f 1] and_exp_eq_0_iff_not_bit[of f 3]
    and_exp_eq_0_iff_not_bit[of f 4] and_exp_eq_0_iff_not_bit[of f 7] and_exp_eq_0_iff_not_bit[of f 8]
  by (simp_all add: has_def P_READ_def P_WRITE_def P_GROWSDOWN_def P_COW_def P_SHARED_def P_CODE_def)

lemmas flag_defs = P_READ_def P_WRITE_def P_EXEC_def P_GROWSDOWN_def P_COW_def P_ANONYMOUS_def
  P_SHARED_def P_CODE_def P_META_FLAGS_def

lemma bit_of_exp: "bit (2 ^ k :: u32) n \<longleftrightarrow> n = k \<and> k < 32"
  by (auto simp: bit_exp_iff)

lemma flag_bits:
  "bit P_READ n \<longleftrightarrow> n = 0" "bit P_WRITE n \<longleftrightarrow> n = 1" "bit P_EXEC n \<longleftrightarrow> n = 2" "bit P_GROWSDOWN n \<longleftrightarrow> n = 3"
  "bit P_COW n \<longleftrightarrow> n = 4" "bit P_ANONYMOUS n \<longleftrightarrow> n = 6" "bit P_SHARED n \<longleftrightarrow> n = 7" "bit P_CODE n \<longleftrightarrow> n = 8"
  using bit_of_exp[of 0 n] bit_of_exp[of 1 n] bit_of_exp[of 2 n] bit_of_exp[of 3 n] bit_of_exp[of 4 n]
    bit_of_exp[of 6 n] bit_of_exp[of 7 n] bit_of_exp[of 8 n]
  by (simp_all add: flag_defs)

lemmas flag_simps = has_bits bit_and_iff bit_or_iff bit_not_iff flag_bits P_META_FLAGS_def

text \<open>Changing an entry's flags leaves the references and every other entry.\<close>

lemma assign_same_data:
  assumes inv: "as_inv oth nw (m, h)" and p: "p < MEM_PAGES" and e: "mem_pt m p = Some e"
    and e': "e_data e' = e_data e"
  shows "\<exists>m'. pt_assign p e' m = Some m' \<and> as_inv oth nw (m', h) \<and> m' = m\<lparr>pgdir := pgdir m'\<rparr>
     \<and> (\<forall>d. data_refs m' d = data_refs m d)
     \<and> (\<forall>q < MEM_PAGES. mem_pt m' q = (if q = p then Some e' else mem_pt m q))"
proof -
  have use': "in_use e'" using mem_pt_in_use[OF e] e' by (simp add: in_use_def)
  obtain l3 where l3: "mem_l3 m p = Some l3" using e by (auto simp: mem_pt_def split: Option.bind_splits)
  obtain m' where m': "pt_assign p e' m = Some m'" "m' = m\<lparr>pgdir := pgdir m'\<rparr>" "pgdir m' \<noteq> None"
    using pt_assign_lookup[OF l3 p p, of e'] by blast
  have look: "mem_pt m' q = (if q = p then Some e' else mem_pt m q)" if "q < MEM_PAGES" for q
    using pt_assign_lookup[OF l3 p that, of e'] m'(1) use' by auto
  have "pt4.refs e_data m' d = pt4.refs e_data m d" for d
    using look e e' by (auto simp: pt4.refs_def split: if_splits)
  then have refs: "data_refs m' d = data_refs m d" for d by (simp add: data_refs_def)
  have "as_inv oth nw (m', h)"
    using inv m'(3) by (simp add: as_inv_def refs mem_ok_def)
  then show ?thesis using m'(1,2) look refs by blast
qed

section \<open>Two address spaces\<close>

definition two_spaces :: "mem \<Rightarrow> mem \<Rightarrow> host \<Rightarrow> bool" where
  "two_spaces a b h \<longleftrightarrow> as_inv (data_refs b) {} (a, h) \<and> mem_ok b"

lemma two_spaces_swap: "two_spaces a b h \<Longrightarrow> two_spaces b a h"
  by (auto simp: two_spaces_def as_inv_def add.commute)

text \<open>A step of one space that keeps the heap's bytes does not show in the other.\<close>

lemma other_view_unchanged:
  assumes "two_spaces a b h" "two_spaces a' b h'" "keeps h h'" "p < MEM_PAGES"
  shows "page_view (b, h') p = page_view (b, h) p"
  using keeps_view[OF assms(3) _ _ assms(4) refl] two_spaces_swap[OF assms(1)] two_spaces_swap[OF assms(2)]
  unfolding two_spaces_def by blast

definition guarded :: "pte \<Rightarrow> bool" where
  "guarded e \<longleftrightarrow> has (e_flags e) P_COW \<or> has (e_flags e) P_SHARED"

text \<open>
  Within one space: two pages of one mapping show different parts of it and are shared or private
  alike. Between two: a mapping both spaces use is copy-on-write or shared in both.
\<close>

definition apart :: "pte \<Rightarrow> pte \<Rightarrow> bool" where
  "apart e f \<longleftrightarrow> (e_offset e + PAGE_BYTES \<le> e_offset f \<or> e_offset f + PAGE_BYTES \<le> e_offset e)
     \<and> has (e_flags e) P_SHARED = has (e_flags f) P_SHARED"

definition tidy :: "mem \<Rightarrow> bool" where
  "tidy m \<longleftrightarrow> (\<forall>p < MEM_PAGES. \<forall>q < MEM_PAGES. \<forall>e f. p \<noteq> q \<longrightarrow> mem_pt m p = Some e \<longrightarrow> mem_pt m q = Some f \<longrightarrow>
     e_data e = e_data f \<longrightarrow> apart e f)"

definition cow_marked :: "mem \<Rightarrow> mem \<Rightarrow> bool" where
  "cow_marked a b \<longleftrightarrow> (\<forall>p < MEM_PAGES. \<forall>q < MEM_PAGES. \<forall>e f. mem_pt a p = Some e \<longrightarrow> mem_pt b q = Some f \<longrightarrow>
     e_data e = e_data f \<longrightarrow> guarded e \<and> guarded f \<and> has (e_flags e) P_SHARED = has (e_flags f) P_SHARED)"

definition cow_flags :: "u32 \<Rightarrow> u32" where
  "cow_flags fl = (if has fl P_SHARED then fl else fl OR P_COW)"

lemma cow_page_inv:
  assumes two: "two_spaces src dst h" and p: "p < MEM_PAGES" and free: "mem_pt dst p = None"
  shows "\<exists>src' dst' h'. cow_page (src, dst, h) p = Some (src', dst', h') \<and> two_spaces src' dst' h' \<and> keeps h h'
     \<and> h_alloc h' = h_alloc h
     \<and> (\<forall>q < MEM_PAGES. mem_pt src' q = (if q = p then map_option (e_flags_update cow_flags) (mem_pt src q)
          else mem_pt src q))
     \<and> (\<forall>q < MEM_PAGES. mem_pt dst' q = (if q = p
          then map_option (e_flags_update (\<lambda>fl. cow_flags fl AND NOT P_CODE)) (mem_pt src q) else mem_pt dst q))"
proof (cases "mem_pt src p")
  case None
  then show ?thesis using two free keeps_refl by (auto simp: cow_page_def)
next
  case (Some e)
  have inv: "as_inv (data_refs src) {} (dst, h)" using two_spaces_swap[OF two] by (simp add: two_spaces_def)
  obtain dst1 h1 where d1: "pt_unmap_always (dst, h) p 1 = Some (dst1, h1)" "as_inv (data_refs src) {} (dst1, h1)"
      "keeps h h1" "h_next h1 = h_next h"
      "\<forall>q < MEM_PAGES. mem_pt dst1 q = (if p \<le> q \<and> q < p + 1 then None else mem_pt dst q)"
      "\<forall>c. (\<forall>q e. p \<le> q \<and> q < p + 1 \<and> mem_pt dst q = Some e \<longrightarrow> e_data e \<noteq> Some c) \<longrightarrow> h_data h1 c = h_data h c"
    using pt_unmap_always_inv[OF inv, of p 1] p by auto
  have at_page: "p \<le> q \<and> q < p + 1 \<longleftrightarrow> q = p" for q by auto
  have look1: "mem_pt dst1 q = mem_pt dst q" if "q < MEM_PAGES" for q
    using d1(5) that free unfolding at_page by auto
  have src1: "as_inv (data_refs dst1) {} (src, h1)" "mem_ok dst1"
    using d1(2) two by (auto simp: two_spaces_def as_inv_def add.commute)
  define fl where "fl = cow_flags (e_flags e)"
  obtain src2 where s2: "pt_assign p (e\<lparr>e_flags := fl\<rparr>) src = Some src2" "as_inv (data_refs dst1) {} (src2, h1)"
      "\<forall>d. data_refs src2 d = data_refs src d"
      "\<forall>q < MEM_PAGES. mem_pt src2 q = (if q = p then Some (e\<lparr>e_flags := fl\<rparr>) else mem_pt src q)"
    using assign_same_data[OF src1(1) p Some, of "e\<lparr>e_flags := fl\<rparr>"] by auto
  obtain d x where x: "e_data e = Some d" "h_data h1 d = Some x"
    using live_data[OF src1(1), of p e] Some p by auto
  have free1: "mem_pt dst1 p = None" using look1[OF p] free by simp
  have "data_refs src2 = data_refs src" using s2(3) by auto
  then have inv1: "as_inv (data_refs src2) {} (dst1, h1)" using d1(2) by simp
  define h1' where "h1' = (if has fl P_ANONYMOUS then anon_add 1 h1 else h1)"
  have k1: "as_inv (data_refs src2) {} (dst1, h1')" "h_data h1' d = Some x" "\<And>h. keeps h1' h = keeps h1 h"
    using inv1 x(2) by (simp_all add: h1'_def)
  obtain h2 dst2 where d2: "data_get d h1' = Some h2"
      "mem_pt_set dst1 p (e\<lparr>e_flags := fl AND NOT P_CODE\<rparr>) = Some dst2"
      "as_inv (data_refs src2) {} (dst2, h2)" "keeps h1 h2"
      "\<forall>q < MEM_PAGES. mem_pt dst2 q = (if q = p then Some (e\<lparr>e_flags := fl AND NOT P_CODE\<rparr>) else mem_pt dst1 q)"
    using attach_inv[OF k1(1) p free1 _ k1(2), of "e\<lparr>e_flags := fl AND NOT P_CODE\<rparr>"] x(1) k1(3) by auto
  have "mem_ok src2" using s2(2) by (simp add: as_inv_def)
  then have "two_spaces dst2 src2 h2" using d2(3) by (simp add: two_spaces_def)
  then have "two_spaces src2 dst2 h2" by (rule two_spaces_swap)
  moreover have "cow_page (src, dst, h) p = Some (src2, dst2, h2)"
    using Some d1(1) s2(1) x(1) d2(1,2) by (simp add: cow_page_def fl_def cow_flags_def h1'_def)
  moreover have "h_alloc h2 = h_alloc h" using keeps_trans[OF d1(3) d2(4)] by (simp add: keeps_def)
  ultimately show ?thesis
    using keeps_trans[OF d1(3) d2(4)] s2(4) d2(5) look1 Some by (auto simp: fl_def)
qed

lemma iter_cow_inv:
  assumes "two_spaces src dst h" "distinct ps" "\<forall>p \<in> set ps. p < MEM_PAGES \<and> mem_pt dst p = None"
  shows "\<exists>src' dst' h'. iter_opt cow_page (src, dst, h) ps = Some (src', dst', h') \<and> two_spaces src' dst' h' \<and> keeps h h'
     \<and> h_alloc h' = h_alloc h
     \<and> (\<forall>q < MEM_PAGES. mem_pt src' q = (if q \<in> set ps then map_option (e_flags_update cow_flags) (mem_pt src q)
          else mem_pt src q))
     \<and> (\<forall>q < MEM_PAGES. mem_pt dst' q = (if q \<in> set ps
          then map_option (e_flags_update (\<lambda>fl. cow_flags fl AND NOT P_CODE)) (mem_pt src q) else mem_pt dst q))"
  using assms
proof (induction ps arbitrary: src dst h)
  case Nil
  then show ?case by (auto simp: keeps_refl)
next
  case (Cons p ps)
  have p: "p < MEM_PAGES" "mem_pt dst p = None" "p \<notin> set ps" using Cons.prems by auto
  obtain src1 dst1 h1 where s1: "cow_page (src, dst, h) p = Some (src1, dst1, h1)" "two_spaces src1 dst1 h1"
      "keeps h h1" "h_alloc h1 = h_alloc h"
      "\<forall>q < MEM_PAGES. mem_pt src1 q = (if q = p then map_option (e_flags_update cow_flags) (mem_pt src q)
          else mem_pt src q)"
      "\<forall>q < MEM_PAGES. mem_pt dst1 q = (if q = p
          then map_option (e_flags_update (\<lambda>fl. cow_flags fl AND NOT P_CODE)) (mem_pt src q) else mem_pt dst q)"
    using cow_page_inv[OF Cons.prems(1) p(1,2)] by blast
  have "\<forall>q \<in> set ps. q < MEM_PAGES \<and> mem_pt dst1 q = None" using Cons.prems(3) s1(6) p(3) by auto
  then obtain src2 dst2 h2 where s2: "iter_opt cow_page (src1, dst1, h1) ps = Some (src2, dst2, h2)"
      "two_spaces src2 dst2 h2" "keeps h1 h2" "h_alloc h2 = h_alloc h1"
      "\<forall>q < MEM_PAGES. mem_pt src2 q = (if q \<in> set ps then map_option (e_flags_update cow_flags) (mem_pt src1 q)
          else mem_pt src1 q)"
      "\<forall>q < MEM_PAGES. mem_pt dst2 q = (if q \<in> set ps
          then map_option (e_flags_update (\<lambda>fl. cow_flags fl AND NOT P_CODE)) (mem_pt src1 q) else mem_pt dst1 q)"
    using Cons.IH[OF s1(2)] Cons.prems(2) by (metis distinct.simps(2))
  show ?case using s1 s2 keeps_trans[OF s1(3) s2(3)] p(3) by auto
qed

lemma guarded_cow: "guarded (e_flags_update cow_flags e)"
  by (simp add: guarded_def cow_flags_def flag_simps)

lemma guarded_cow_nocode: "guarded (e_flags_update (\<lambda>fl. cow_flags fl AND NOT P_CODE) e)"
  by (simp add: guarded_def cow_flags_def flag_simps)

lemma cow_page_absent: "mem_pt (fst s) p = None \<Longrightarrow> cow_page s p = Some s"
  by (cases s) (simp add: cow_page_def)

lemma tidyD:
  "tidy m \<Longrightarrow> p < MEM_PAGES \<Longrightarrow> q < MEM_PAGES \<Longrightarrow> p \<noteq> q \<Longrightarrow> mem_pt m p = Some e \<Longrightarrow> mem_pt m q = Some f \<Longrightarrow>
   e_data e = e_data f \<Longrightarrow> apart e f"
  unfolding tidy_def by blast

lemma tidy_from:
  assumes t: "tidy m" and from_old: "\<And>q e'. q < MEM_PAGES \<Longrightarrow> mem_pt m' q = Some e' \<Longrightarrow>
     \<exists>e. mem_pt m q = Some e \<and> e_data e' = e_data e \<and> e_offset e' = e_offset e
       \<and> has (e_flags e') P_SHARED = has (e_flags e) P_SHARED"
  shows "tidy m'"
  unfolding tidy_def
proof (intro allI impI)
  fix p q e f assume a: "p < MEM_PAGES" "q < MEM_PAGES" "p \<noteq> q" "mem_pt m' p = Some e" "mem_pt m' q = Some f"
    "e_data e = e_data f"
  obtain e0 where e: "mem_pt m p = Some e0" "e_data e = e_data e0" "e_offset e = e_offset e0"
      "has (e_flags e) P_SHARED = has (e_flags e0) P_SHARED" using from_old[OF a(1,4)] by blast
  obtain f0 where f: "mem_pt m q = Some f0" "e_data f = e_data f0" "e_offset f = e_offset f0"
      "has (e_flags f) P_SHARED = has (e_flags f0) P_SHARED" using from_old[OF a(2,5)] by blast
  have "apart e0 f0" using t a(1-3,6) e(1,2) f(1,2) unfolding tidy_def by metis
  then show "apart e f" using e f by (simp add: apart_def)
qed

text \<open>The contents of a page, without its flags.\<close>

definition page_bytes :: "mem \<Rightarrow> host \<Rightarrow> nat \<Rightarrow> (nat \<Rightarrow> byte) option" where
  "page_bytes m h p = map_option snd (page_view (m, h) p)"

lemma page_bytes_flags:
  assumes "mem_pt m' p = map_option (e_flags_update g) (mem_pt m p)"
  shows "page_bytes m' h p = page_bytes m h p"
  using assms by (cases "mem_pt m p") (auto simp: page_bytes_def page_view_def split: Option.bind_splits)

lemma page_view_flags:
  assumes "mem_pt m' p = map_option (e_flags_update g) (mem_pt m p)"
  shows "page_view (m', h) p = map_option (apfst g) (page_view (m, h) p)"
  using assms by (cases "mem_pt m p") (auto simp: page_view_def split: Option.bind_splits)

lemma every_page_cow:
  assumes two: "two_spaces src dst h" and empty: "\<And>p. p < MEM_PAGES \<Longrightarrow> mem_pt dst p = None"
  shows "\<exists>src' dst' h'. iter_opt cow_page (src, dst, h) [0..<MEM_PAGES] = Some (src', dst', h')
     \<and> two_spaces src' dst' h' \<and> keeps h h'
     \<and> (\<forall>q < MEM_PAGES. mem_pt src' q = map_option (e_flags_update cow_flags) (mem_pt src q))
     \<and> (\<forall>q < MEM_PAGES. mem_pt dst' q
          = map_option (e_flags_update (\<lambda>fl. cow_flags fl AND NOT P_CODE)) (mem_pt src q))"
proof -
  define ps where "ps = [0..<MEM_PAGES]"
  have ps: "distinct ps" "\<And>q. q \<in> set ps \<longleftrightarrow> q < MEM_PAGES" by (simp_all add: ps_def)
  have "\<forall>p \<in> set ps. p < MEM_PAGES \<and> mem_pt dst p = None" using ps(2) empty by blast
  from iter_cow_inv[OF two ps(1) this] show ?thesis
    unfolding ps_def[symmetric] ps(2) by (elim exE conjE) (intro exI conjI, assumption+, simp_all)
qed

lemma cow_flags_shared:
  "has (cow_flags fl) P_SHARED = has fl P_SHARED" "has (cow_flags fl AND NOT P_CODE) P_SHARED = has fl P_SHARED"
  by (auto simp: cow_flags_def flag_simps)

lemma fork_spec:
  assumes two: "two_spaces src dst h" and tidy: "tidy src" and empty: "\<And>p. p < MEM_PAGES \<Longrightarrow> mem_pt dst p = None"
  shows "\<exists>src' dst' h'. pt_copy_on_write (src, dst, h) 0 MEM_PAGES = Some (src', dst', h')
     \<and> two_spaces src' dst' h' \<and> cow_marked src' dst' \<and> tidy src' \<and> tidy dst'
     \<and> h_alloc h' = h_alloc h
     \<and> (\<forall>p < MEM_PAGES. page_view (src', h') p = map_option (apfst cow_flags) (page_view (src, h) p)
          \<and> page_view (dst', h') p = map_option (apfst (\<lambda>fl. cow_flags fl AND NOT P_CODE)) (page_view (src, h) p))"
proof -
  obtain src1 dst1 h1 where s1: "iter_opt cow_page (src, dst, h) [0..<MEM_PAGES] = Some (src1, dst1, h1)"
      "two_spaces src1 dst1 h1" "keeps h h1"
      "\<forall>q < MEM_PAGES. mem_pt src1 q = map_option (e_flags_update cow_flags) (mem_pt src q)"
      "\<forall>q < MEM_PAGES. mem_pt dst1 q = map_option (e_flags_update (\<lambda>fl. cow_flags fl AND NOT P_CODE)) (mem_pt src q)"
    using every_page_cow[OF two empty] by blast
  define dst2 where "dst2 = mem_changed (if h_alloc h1 then dst1\<lparr>reservations := rev (reservations src1) @ reservations dst1\<rparr> else dst1)"
  have t: "pgdir dst2 = pgdir dst1" "pgdir (mem_changed src1) = pgdir src1"
    by (simp_all add: dst2_def mem_changed_def)
  have run: "pt_copy_on_write (src, dst, h) 0 MEM_PAGES = Some (mem_changed src1, dst2, h1)"
    using s1(1) for_pages_every[of fst cow_page, OF cow_page_absent le_refl, of 0 "(src, dst, h)"]
    by (simp add: pt_copy_on_write_def dst2_def)
  have look: "mem_pt (mem_changed src1) p = mem_pt src1 p" "mem_pt dst2 p = mem_pt dst1 p" for p
    by (rule same_table_lookup[OF t(2)], rule same_table_lookup[OF t(1)])
  have refs: "data_refs dst2 = data_refs dst1" by (rule ext) (rule same_table_refs[OF t(1)])
  have two1: "two_spaces (mem_changed src1) dst2 h1"
    using s1(2) as_inv_fields[OF _ t(2), of "data_refs dst1" "{}" h1] t(1)
    by (simp add: two_spaces_def refs mem_ok_def)
  have marked: "cow_marked (mem_changed src1) dst2"
    unfolding cow_marked_def look
  proof (intro allI impI)
    fix p q e f assume pq: "p < MEM_PAGES" "q < MEM_PAGES" "mem_pt src1 p = Some e" "mem_pt dst1 q = Some f"
      "e_data e = e_data f"
    obtain e0 f0 where 0: "mem_pt src p = Some e0" "e = e_flags_update cow_flags e0"
        "mem_pt src q = Some f0" "f = e_flags_update (\<lambda>fl. cow_flags fl AND NOT P_CODE) f0"
      using s1(4,5) pq(1-4) by auto
    have "has (e_flags e0) P_SHARED = has (e_flags f0) P_SHARED"
    proof (cases "p = q")
      case False
      have "e_data e0 = e_data f0" using pq(5) 0(2,4) by simp
      then show ?thesis using tidyD[OF tidy pq(1,2) False 0(1,3)] by (simp add: apart_def)
    qed (use 0(1,3) in simp)
    then show "guarded e \<and> guarded f \<and> has (e_flags e) P_SHARED = has (e_flags f) P_SHARED"
      using 0 by (simp add: guarded_cow guarded_cow_nocode cow_flags_shared)
  qed
  have tidy1: "tidy (mem_changed src1)" "tidy dst2"
  proof -
    have from_src: "\<exists>e. mem_pt src q = Some e \<and> e_data e' = e_data e \<and> e_offset e' = e_offset e
       \<and> has (e_flags e') P_SHARED = has (e_flags e) P_SHARED"
      if g: "\<And>fl. has (g fl) P_SHARED = has fl P_SHARED"
        and e': "map_option (e_flags_update g) (mem_pt src q) = Some e'" for g q e'
    proof -
      obtain e where e: "mem_pt src q = Some e" "e_flags_update g e = e'" using e' by (cases "mem_pt src q") simp_all
      have "e_data e' = e_data e" "e_offset e' = e_offset e" "e_flags e' = g (e_flags e)"
        unfolding e(2)[symmetric] by simp_all
      then show ?thesis using e(1) g[of "e_flags e"] by metis
    qed
    show "tidy (mem_changed src1)"
    proof (rule tidy_from[OF tidy])
      fix q e' assume q: "q < MEM_PAGES" "mem_pt (mem_changed src1) q = Some e'"
      have "map_option (e_flags_update cow_flags) (mem_pt src q) = Some e'"
        using q(2) s1(4)[rule_format, OF q(1)] look(1)[of q] by argo
      then show "\<exists>e. mem_pt src q = Some e \<and> e_data e' = e_data e \<and> e_offset e' = e_offset e
          \<and> has (e_flags e') P_SHARED = has (e_flags e) P_SHARED"
        by (rule from_src[OF cow_flags_shared(1)])
    qed
    show "tidy dst2"
    proof (rule tidy_from[OF tidy])
      fix q e' assume q: "q < MEM_PAGES" "mem_pt dst2 q = Some e'"
      have "map_option (e_flags_update (\<lambda>fl. cow_flags fl AND NOT P_CODE)) (mem_pt src q) = Some e'"
        using q(2) s1(5)[rule_format, OF q(1)] look(2)[of q] by argo
      then show "\<exists>e. mem_pt src q = Some e \<and> e_data e' = e_data e \<and> e_offset e' = e_offset e
          \<and> has (e_flags e') P_SHARED = has (e_flags e) P_SHARED"
        by (rule from_src[OF cow_flags_shared(2)])
    qed
  qed
  have keep: "page_view (src, h1) p = page_view (src, h) p" if pp: "p < MEM_PAGES" for p
  proof (cases "mem_pt src p")
    case None
    then show ?thesis by (simp add: page_view_def)
  next
    case (Some e)
    have a: "as_inv (data_refs dst) {} (src, h)" using two by (simp add: two_spaces_def)
    have b: "as_inv (data_refs dst1) {} (src1, h1)" using s1(2) by (simp add: two_spaces_def)
    obtain d x where x: "e_data e = Some d" "h_data h d = Some x" using live_data[OF a, of p e] Some pp by auto
    obtain x1 where x1: "h_data h1 d = Some x1"
      using live_data[OF b, of p] s1(4) Some pp x(1) by fastforce
    have "d < h_next h" using as_invD(3)[OF a, of d] x(2) by (cases "d < h_next h") auto
    then have "d_bytes x1 = d_bytes x" using s1(3) x(2) x1 by (auto simp: keeps_def)
    then show ?thesis using Some x x1 by (simp add: page_view_def)
  qed
  have "page_view (mem_changed src1, h1) p = map_option (apfst cow_flags) (page_view (src, h) p)
      \<and> page_view (dst2, h1) p = map_option (apfst (\<lambda>fl. cow_flags fl AND NOT P_CODE)) (page_view (src, h) p)"
    if p: "p < MEM_PAGES" for p
  proof -
    have "page_view (mem_changed src1, h1) p = map_option (apfst cow_flags) (page_view (src, h1) p)"
      by (rule page_view_flags) (use s1(4) p look in auto)
    moreover have "page_view (dst2, h1) p = map_option (apfst (\<lambda>fl. cow_flags fl AND NOT P_CODE)) (page_view (src, h1) p)"
      by (rule page_view_flags) (use s1(5) p look in auto)
    ultimately show ?thesis using keep[OF p] by simp
  qed
  then show ?thesis using run two1 marked tidy1 s1(3) by (auto simp: keeps_def)
qed

end
