(* ===== verification/Address_Faults.thy ===== *)
theory Address_Faults
  imports Address_Props
begin

text \<open>
  Faults and protection changes over the invariant of \<open>Address_Props\<close>: what a fault maps, what a write
  fault copies, and what one process can do to the pages of another after a fork.
\<close>

section \<open>Demand faults\<close>

lemma next_mapped_spec:
  "page < next_mapped m page"
  "page < q \<Longrightarrow> q < next_mapped m page \<Longrightarrow> q < MEM_PAGES \<Longrightarrow> mem_pt m q = None"
  "next_mapped m page < MEM_PAGES \<Longrightarrow> mem_pt m (next_mapped m page) \<noteq> None"
proof (induction m page rule: next_mapped.induct)
  case (1 m page)
  let ?p = "mem_next_page m page"
  note nx = mem_next_page_spec[where page = page and m = m] next_mapped.simps[of m page]
  {
    case 1
    then show ?case using nx "1.IH"(1)[OF refl] by (auto simp: Let_def intro: less_trans)
  next
    case 2
    show ?case
    proof (cases "?p < MEM_PAGES \<and> mem_pt m ?p = None")
      case True
      then have "mem_pt m q = None" if "q \<noteq> ?p" "?p \<le> q"
        using 2 nx(3) "1.IH"(2)[OF refl True] that by (auto simp: Let_def)
      then show ?thesis using 2 nx(2)[of q] True by (cases "q < ?p"; cases "q = ?p") auto
    qed (use 2 nx in \<open>auto simp: Let_def\<close>)
  next
    case 3
    then show ?case using nx(3) "1.IH"(3)[OF refl] by (cases "?p < MEM_PAGES \<and> mem_pt m ?p = None") (auto simp: Let_def)
  }
qed

text \<open>
  A step of one space as the others see it: entries other than the pages \<open>ps\<close> are untouched, and the
  entries of \<open>ps\<close> use the mapping they had or one made by the step.
\<close>

definition came_from :: "pte \<Rightarrow> pte \<Rightarrow> bool" where
  "came_from e0 e \<longleftrightarrow> e_data e = e_data e0 \<and> e_offset e = e_offset e0
     \<and> (has (e_flags e0) P_COW \<longrightarrow> has (e_flags e) P_COW)
     \<and> has (e_flags e) P_SHARED = has (e_flags e0) P_SHARED"

lemma came_from_refl [simp]: "came_from e e"
  by (simp add: came_from_def)

lemma came_from_trans: "came_from e0 e1 \<Longrightarrow> came_from e1 e2 \<Longrightarrow> came_from e0 e2"
  by (simp add: came_from_def)

definition touches :: "nat set \<Rightarrow> space \<Rightarrow> space \<Rightarrow> bool" where
  "touches ps s s' \<longleftrightarrow> keeps (snd s) (snd s') \<and>
     (\<forall>q < MEM_PAGES. q \<notin> ps \<longrightarrow> mem_pt (fst s') q = mem_pt (fst s) q) \<and>
     (\<forall>q < MEM_PAGES. \<forall>e d. mem_pt (fst s') q = Some e \<longrightarrow> e_data e = Some d \<longrightarrow> d < h_next (snd s) \<longrightarrow>
        (\<exists>e0. mem_pt (fst s) q = Some e0 \<and> came_from e0 e)) \<and>
     (tidy (fst s) \<longrightarrow> tidy (fst s'))"

lemma touches_entry:
  assumes "touches ps s s'" "q < MEM_PAGES" "mem_pt (fst s') q = Some e" "e_data e = Some d" "d < h_next (snd s)"
  shows "\<exists>e0. mem_pt (fst s) q = Some e0 \<and> came_from e0 e"
  using assms by (auto simp: touches_def)

lemma touches_refl: "touches ps s s"
  by (auto simp: touches_def keeps_refl)

lemma touches_tidy: "touches ps s s' \<Longrightarrow> tidy (fst s) \<Longrightarrow> tidy (fst s')"
  by (simp add: touches_def)

lemma touches_trans:
  assumes "touches ps s1 s2" "touches ps' s2 s3"
  shows "touches (ps \<union> ps') s1 s3"
  unfolding touches_def
proof (intro conjI allI impI)
  show "keeps (snd s1) (snd s3)" using assms by (auto simp: touches_def intro: keeps_trans)
next
  fix q assume "q < MEM_PAGES" "q \<notin> ps \<union> ps'"
  then show "mem_pt (fst s3) q = mem_pt (fst s1) q" using assms by (simp add: touches_def)
next
  fix q e d assume q: "q < MEM_PAGES" "mem_pt (fst s3) q = Some e" "e_data e = Some d" "d < h_next (snd s1)"
  have "d < h_next (snd s2)" using q(4) assms(1) by (auto simp: touches_def keeps_def)
  then obtain e1 where e1: "mem_pt (fst s2) q = Some e1" "came_from e1 e"
    using touches_entry[OF assms(2) q(1-3)] by auto
  have "e_data e1 = Some d" using e1(2) q(3) by (simp add: came_from_def)
  then show "\<exists>e0. mem_pt (fst s1) q = Some e0 \<and> came_from e0 e"
    using touches_entry[OF assms(1) q(1) e1(1) _ q(4)] e1(2) came_from_trans by blast
next
  show "tidy (fst s1) \<Longrightarrow> tidy (fst s3)" using assms touches_tidy by blast
qed

lemma touches_mono: "touches ps s s' \<Longrightarrow> ps \<subseteq> qs \<Longrightarrow> touches qs s s'"
  by (auto simp: touches_def)

lemma touches_anon [simp]:
  "touches ps (m, anon_add n h) s' = touches ps (m, h) s'"
  "touches ps (m, if b then anon_add n h else h) s' = touches ps (m, h) s'"
  by (simp_all add: touches_def)

lemma touches_view:
  assumes "touches ps s s'" "as_inv oth {} s" "as_inv oth' {} s'" "q < MEM_PAGES" "q \<notin> ps"
  shows "page_view s' q = page_view s q"
proof -
  obtain m h m' h' where [simp]: "s = (m, h)" "s' = (m', h')" by (metis surj_pair)
  show ?thesis using assms keeps_view[of h h' oth "{}" m oth' "{}" m' q] by (auto simp: touches_def)
qed

text \<open>Entries of live pages name mappings below \<open>h_next\<close>.\<close>

lemma data_below_next:
  assumes "as_inv oth nw s" "mem_pt (fst s) p = Some e" "p < MEM_PAGES" "e_data e = Some d"
  shows "d < h_next (snd s)"
  using live_data[OF assms(1-3)] as_invD(3)[OF assms(1), of d] assms(4) by (cases "d < h_next (snd s)") auto

lemma pt_map_touches:
  assumes inv: "as_inv oth {} s" and k: "keeps (snd s) (snd s')"
    and look: "\<forall>q < MEM_PAGES. mem_pt (fst s') q = (if P q then Some (map_entry (h_next (snd s)) st off fl q)
        else mem_pt (fst s) q)"
    and from_start: "\<And>q. P q \<Longrightarrow> st \<le> q"
  shows "touches {q. P q} s s'"
proof -
  have apart_new: "apart (map_entry d st off fl p) (map_entry d st off fl q)" if "P p" "P q" "p < q" for p q d
  proof -
    have "(q - st) = (p - st) + (q - p)" using that from_start by (simp add: le_diff_conv2)
    moreover have "1 * PAGE_BYTES \<le> (q - p) * PAGE_BYTES" by (rule mult_right_mono) (use that(3) in simp_all)
    ultimately show ?thesis by (simp add: apart_def map_entry_def algebra_simps)
  qed
  have old: "e_data e \<noteq> Some (h_next (snd s))" if "mem_pt (fst s) q = Some e" "q < MEM_PAGES" for q e
    using data_below_next[OF inv that, of "h_next (snd s)"] by auto
  have "tidy (fst s')" if t: "tidy (fst s)"
    unfolding tidy_def
  proof (intro allI impI)
    fix p q e f assume a: "p < MEM_PAGES" "q < MEM_PAGES" "p \<noteq> q" "mem_pt (fst s') p = Some e"
      "mem_pt (fst s') q = Some f" "e_data e = e_data f"
    consider "P p" "P q" | "\<not> P p" "\<not> P q" | "P p" "\<not> P q" | "\<not> P p" "P q" by blast
    then show "apart e f"
    proof cases
      case 1
      then have "e = map_entry (h_next (snd s)) st off fl p" "f = map_entry (h_next (snd s)) st off fl q"
        using look a by auto
      then show ?thesis using apart_new[OF 1] apart_new[OF 1(2,1)] a(3) by (auto simp: apart_def neq_iff)
    next
      case 2
      then show ?thesis using look a t by (simp add: tidy_def)
    qed (use look a old[of q f] old[of p e] in \<open>auto simp: map_entry_def\<close>)
  qed
  then show ?thesis using k look by (auto simp: touches_def map_entry_def split: if_splits)
qed

text \<open>
  A demand fault changes no mapped page, maps zeros only, and maps the faulting page whenever the host
  has memory.
\<close>

definition zero_page :: "space \<Rightarrow> nat \<Rightarrow> bool" where
  "zero_page s q \<longleftrightarrow> (\<exists>fl. page_view s q = Some (fl, \<lambda>_. 0))"

lemma pt_map_nothing_zero:
  assumes inv: "as_inv oth {} s" and r: "start + pages \<le> MEM_PAGES"
  shows "\<exists>r s'. pt_map_nothing s start pages fl = Some (r, s') \<and> as_inv oth {} s'
     \<and> touches {q. start \<le> q \<and> q < start + pages} s s'
     \<and> (h_alloc (snd s) \<longrightarrow> r = 0) \<and> (r \<noteq> 0 \<longrightarrow> s' = s)
     \<and> (\<forall>q < MEM_PAGES. r = 0 \<and> start \<le> q \<and> q < start + pages \<longrightarrow>
          page_view s' q = Some (fl OR P_ANONYMOUS, \<lambda>_. 0))"
proof -
  obtain r s' where m: "pt_map_nothing s start pages fl = Some (r, s')" "as_inv oth {} s'" "keeps (snd s) (snd s')"
      "r = 0 \<or> r = ENOMEM \<and> s' = s" "h_alloc (snd s) \<longrightarrow> r = 0"
      "r = 0 \<and> 0 < pages \<longrightarrow> (\<exists>x. h_data (snd s') (h_next (snd s)) = Some x \<and> d_bytes x = (\<lambda>_. 0))"
      "\<forall>q < MEM_PAGES. mem_pt (fst s') q = (if r = 0 \<and> start \<le> q \<and> q < start + pages
            then Some (map_entry (h_next (snd s)) start 0 (fl OR P_ANONYMOUS) q) else mem_pt (fst s) q)"
    using pt_map_nothing_inv[OF inv r, of fl] by (elim exE conjE) (erule that, assumption+)
  have "touches {q. r = 0 \<and> start \<le> q \<and> q < start + pages} s s'"
    by (rule pt_map_touches[OF inv m(3,7)]) blast
  then have "touches {q. start \<le> q \<and> q < start + pages} s s'" by (rule touches_mono) auto
  moreover have "r \<noteq> 0 \<longrightarrow> s' = s" using m(4) by auto
  moreover have "\<forall>q < MEM_PAGES. r = 0 \<and> start \<le> q \<and> q < start + pages \<longrightarrow>
          page_view s' q = Some (fl OR P_ANONYMOUS, \<lambda>_. 0)"
    using m(6,7) by (auto simp: page_view_def map_entry_def)
  ultimately show ?thesis using m(1,2,5) by blast
qed

lemma mem_fault_in_spec:
  assumes inv: "as_inv oth {} s" and p: "page < MEM_PAGES"
  shows "\<exists>ok s'. mem_fault_in limit s page = Some (ok, s') \<and> as_inv oth {} s'
     \<and> touches {q. mem_pt (fst s) q = None} s s'
     \<and> (\<forall>q < MEM_PAGES. mem_pt (fst s) q = None \<and> mem_pt (fst s') q \<noteq> None \<longrightarrow> zero_page s' q)
     \<and> (ok \<and> h_alloc (snd s) \<longrightarrow> mem_pt (fst s') page \<noteq> None)
     \<and> (mem_pt (fst s) page \<noteq> None \<longrightarrow> s' = s \<and> ok)"
proof (cases "mem_pt (fst s) page = None")
  case False
  then show ?thesis using inv touches_refl by (auto simp: mem_fault_in_def)
next
  case absent: True
  let ?m = "fst s"
  have anon: "as_inv oth {} (?m, anon_add k (snd s))" for k using inv by (simp add: as_inv_def)
  have zeros: "\<exists>r s'. pt_map_nothing (?m, anon_add k (snd s)) page n fl = Some (r, s') \<and> as_inv oth {} s'
      \<and> touches {q. mem_pt ?m q = None} s s'
      \<and> (\<forall>q < MEM_PAGES. mem_pt ?m q = None \<and> mem_pt (fst s') q \<noteq> None \<longrightarrow> zero_page s' q)
      \<and> (h_alloc (snd s) \<longrightarrow> mem_pt (fst s') page \<noteq> None)"
    if n: "0 < n" "page + n \<le> MEM_PAGES" "\<forall>q. page \<le> q \<longrightarrow> q < page + n \<longrightarrow> mem_pt ?m q = None" for n fl k
  proof -
    obtain r s' where m: "pt_map_nothing (?m, anon_add k (snd s)) page n fl = Some (r, s')" "as_inv oth {} s'"
        "touches {q. page \<le> q \<and> q < page + n} s s'" "h_alloc (snd s) \<longrightarrow> r = 0"
        "r \<noteq> 0 \<longrightarrow> s' = (?m, anon_add k (snd s))"
        "\<forall>q < MEM_PAGES. r = 0 \<and> page \<le> q \<and> q < page + n \<longrightarrow> page_view s' q = Some (fl OR P_ANONYMOUS, \<lambda>_. 0)"
      using pt_map_nothing_zero[OF anon n(2), of k fl] by (auto simp: touches_anon(1)[of _ ?m k "snd s"])
    have "touches {q. mem_pt ?m q = None} s s'" by (rule touches_mono[OF m(3)]) (use n(3) in blast)
    moreover have "zero_page s' q" if q: "q < MEM_PAGES" "mem_pt ?m q = None" "mem_pt (fst s') q \<noteq> None" for q
    proof -
      have "page \<le> q \<and> q < page + n" using m(3) q unfolding touches_def by fastforce
      moreover have "r = 0" using m(5) q by auto
      ultimately show ?thesis using m(6) q(1) by (auto simp: zero_page_def)
    qed
    moreover have "mem_pt (fst s') page \<noteq> None" if al: "h_alloc (snd s)"
    proof -
      have "page_view s' page \<noteq> None" using m(4,6) al p n(1) by simp
      then show ?thesis by (cases "mem_pt (fst s') page") (simp_all add: page_view_def)
    qed
    ultimately show ?thesis using m(1,2) by blast
  qed
  let ?p = "next_mapped ?m page"
  let ?n = "if ?p - page > 256 then 256 else ?p - page"
  have grow: "0 < ?n \<and> page + ?n \<le> MEM_PAGES \<and> (\<forall>q. page \<le> q \<longrightarrow> q < page + ?n \<longrightarrow> mem_pt ?m q = None)"
    if pm: "?p < MEM_PAGES"
  proof (intro conjI allI impI)
    show "0 < ?n" "page + ?n \<le> MEM_PAGES" using next_mapped_spec(1)[of page ?m] pm by auto
    fix q assume q: "page \<le> q" "q < page + ?n"
    have "q < ?p" using q next_mapped_spec(1)[of page ?m] by (auto split: if_splits)
    then show "mem_pt ?m q = None"
      using next_mapped_spec(2)[of page q ?m] absent q(1) pm by (cases "q = page") auto
  qed
  have "page \<le> q \<and> q < page + 1 \<longleftrightarrow> q = page" for q by auto
  then have one: "\<forall>q. page \<le> q \<longrightarrow> q < page + 1 \<longrightarrow> mem_pt ?m q = None"
    using absent by metis
  have leave: ?thesis if "mem_fault_in limit s page = Some (False, s)"
    using that inv touches_refl absent by auto
  have mapped: ?thesis if "mem_fault_in limit s page = map_option (\<lambda>(_, s). (True, s)) (pt_map_nothing (?m, anon_add k (snd s)) page n fl)"
      "0 < n" "page + n \<le> MEM_PAGES" "\<forall>q. page \<le> q \<longrightarrow> q < page + n \<longrightarrow> mem_pt ?m q = None" for n fl k
    using zeros[OF that(2-4), of k fl] that(1) absent by (elim exE conjE) auto
  show ?thesis
  proof (cases "?p < MEM_PAGES \<and> (case mem_pt ?m ?p of None \<Rightarrow> False | Some e \<Rightarrow> has (e_flags e) P_GROWSDOWN)")
    case True
    show ?thesis
    proof (cases "stack_allows limit page")
      case False
      show ?thesis by (rule leave) (use absent True False in \<open>simp add: mem_fault_in_def\<close>)
    next
      case allows: True
      show ?thesis
        by (rule mapped[of "int ?n" ?n "P_WRITE OR P_GROWSDOWN"])
          (use absent True allows grow in \<open>simp_all add: mem_fault_in_def Let_def\<close>)
    qed
  next
    case False
    show ?thesis
    proof (cases "mem_find_reservation ?m page")
      case None
      show ?thesis by (rule leave) (use absent False None in \<open>simp add: mem_fault_in_def Let_def\<close>)
    next
      case (Some r)
      have run: "mem_fault_in limit s page
          = map_option (\<lambda>(_, s). (True, s)) (pt_map_nothing (?m, anon_add 1 (snd s)) page 1 (r_flags r AND NOT P_GROWSDOWN))"
        unfolding mem_fault_in_def Let_def using absent False Some by (simp only: if_True if_False option.case not_True_eq_False simp_thms)
      show ?thesis by (rule mapped[OF run]) (use p one in auto)
    qed
  qed
qed

section \<open>Write faults\<close>

text \<open>The bytes of a page are those below the page size.\<close>

definition same_page :: "(nat \<Rightarrow> byte) \<Rightarrow> (nat \<Rightarrow> byte) \<Rightarrow> bool" where
  "same_page f g \<longleftrightarrow> (\<forall>i < PAGE_BYTES. f i = g i)"

lemma mem_pt_changed [simp]: "mem_pt (mem_changed m) q = mem_pt m q"
  by (rule same_table_lookup) (simp add: mem_changed_def)

lemma same_page_simps [simp]: "same_page f f" "same_page (copy_page f off) (\<lambda>i. f (off + i))"
  by (simp_all add: same_page_def copy_page_def)

text \<open>The flags a write fault gives the entry before a copy.\<close>

definition write_flags :: "access \<Rightarrow> u32 \<Rightarrow> u32" where
  "write_flags type fl = (let fl = (if type = MEM_WRITE_PTRACE then fl OR P_WRITE OR P_COW else fl)
     in if has fl P_CODE then fl AND NOT P_CODE else fl)"

lemma write_flags_bits:
  "has (write_flags type fl) P_CODE \<longleftrightarrow> False" "has (write_flags type fl) P_SHARED \<longleftrightarrow> has fl P_SHARED"
  "has (write_flags type fl) P_WRITE \<longleftrightarrow> type = MEM_WRITE_PTRACE \<or> has fl P_WRITE"
  "has (write_flags type fl) P_COW \<longleftrightarrow> type = MEM_WRITE_PTRACE \<or> has fl P_COW"
  by (auto simp: write_flags_def Let_def flag_simps)

lemma mem_write_fault_step:
  assumes "mem_pt (fst s) page = Some e" "type \<noteq> MEM_READ" "type = MEM_WRITE_PTRACE \<or> has (e_flags e) P_WRITE"
  shows "mem_write_fault s page type =
     do { m1 \<leftarrow> pt_assign page (e\<lparr>e_flags := write_flags type (e_flags e)\<rparr>) (fst s);
          let m2 = m1\<lparr>m_invalidated := page # m_invalidated m1\<rparr>;
          let m3 = (if has (if type = MEM_WRITE_PTRACE then e_flags e OR P_WRITE OR P_COW else e_flags e) P_CODE
                    then mem_changed m2 else m2);
          if has (write_flags type (e_flags e)) P_COW \<and> \<not> h_alloc (snd s) then None
          else if has (write_flags type (e_flags e)) P_COW then do {
            d \<leftarrow> e_data e;
            x \<leftarrow> h_data (snd s) d;
            (_, m4, h4) \<leftarrow> pt_map (m3, if has (write_flags type (e_flags e)) P_ANONYMOUS then anon_add 1 (snd s) else snd s)
                              page 1 (Inr (copy_page (d_bytes x) (e_offset e))) 0
                              (write_flags type (e_flags e) AND NOT P_COW);
            Some (True, (mem_changed m4, h4)) }
          else Some (True, (m3, snd s)) }"
proof -
  have "\<not> (type \<noteq> MEM_WRITE_PTRACE \<and> \<not> has (e_flags e) P_WRITE)" using assms(3) by blast
  then show ?thesis
    using assms(1,2) by (simp only: mem_write_fault_def option.case if_False Let_def write_flags_def)
qed

lemma mem_write_fault_spec:
  assumes inv: "as_inv oth {} s" and p: "page < MEM_PAGES" and e: "mem_pt (fst s) page = Some e"
    and al: "h_alloc (snd s)" and w: "type \<noteq> MEM_READ" "type = MEM_WRITE_PTRACE \<or> has (e_flags e) P_WRITE"
  shows "\<exists>s' e'. mem_write_fault s page type = Some (True, s') \<and> as_inv oth {} s' \<and> touches {page} s s'
     \<and> mem_pt (fst s') page = Some e' \<and> P_WRITABLE (e_flags e') \<and> \<not> has (e_flags e') P_CODE
     \<and> (has (e_flags e') P_SHARED \<longleftrightarrow> has (e_flags e) P_SHARED)
     \<and> (\<exists>f g. page_bytes (fst s) (snd s) page = Some f \<and> page_bytes (fst s') (snd s') page = Some g \<and> same_page g f)"
proof -
  obtain m h where s: "s = (m, h)" by force
  define fl where "fl = write_flags type (e_flags e)"
  note bits = write_flags_bits[of type "e_flags e", folded fl_def]
  have inv0: "as_inv oth {} (m, h)" and e0: "mem_pt m page = Some e" using inv e by (simp_all add: s)
  obtain m1 where m1: "pt_assign page (e\<lparr>e_flags := fl\<rparr>) m = Some m1" "as_inv oth {} (m1, h)"
      "\<forall>q < MEM_PAGES. mem_pt m1 q = (if q = page then Some (e\<lparr>e_flags := fl\<rparr>) else mem_pt m q)"
    using assign_same_data[OF inv0 p e0, of "e\<lparr>e_flags := fl\<rparr>"] by auto
  define m3 where "m3 = (let m2 = m1\<lparr>m_invalidated := page # m_invalidated m1\<rparr> in
     if has (if type = MEM_WRITE_PTRACE then e_flags e OR P_WRITE OR P_COW else e_flags e) P_CODE
     then mem_changed m2 else m2)"
  have t3: "pgdir m3 = pgdir m1" by (simp add: m3_def Let_def mem_changed_def)
  have inv3: "as_inv oth {} (m3, h)" by (rule as_inv_fields[OF m1(2) t3])
  have look3: "mem_pt m3 q = (if q = page then Some (e\<lparr>e_flags := fl\<rparr>) else mem_pt m q)" if "q < MEM_PAGES" for q
    using m1(3) that by (simp add: same_table_lookup[OF t3])
  obtain d x where x: "e_data e = Some d" "h_data h d = Some x" using live_data[OF inv0, of page e] e0 p by auto
  have old: "page_bytes m h page = Some (\<lambda>i. d_bytes x (e_offset e + i))"
    using e0 x by (simp add: page_bytes_def page_view_def)
  have touch3: "touches {page} (m, h) (m3, h)" if "has (e_flags e) P_COW \<longrightarrow> has fl P_COW"
  proof -
    have "tidy m3" if "tidy m"
    proof (rule tidy_from[OF that])
      fix q e' assume "q < MEM_PAGES" "mem_pt m3 q = Some e'"
      then show "\<exists>e. mem_pt m q = Some e \<and> e_data e' = e_data e \<and> e_offset e' = e_offset e
          \<and> has (e_flags e') P_SHARED = has (e_flags e) P_SHARED"
        using look3[of q] e0 bits(2) by (auto split: if_splits)
    qed
    then show ?thesis using that look3 e0 bits(2) by (auto simp: touches_def keeps_refl came_from_def)
  qed
  note run = mem_write_fault_step[OF e w, folded fl_def, unfolded s fst_conv snd_conv]
  show ?thesis
  proof (cases "has fl P_COW")
    case False
    have "mem_write_fault s page type = Some (True, (m3, h))"
      unfolding s run using m1(1) False by (simp add: m3_def Let_def)
    moreover have "touches {page} s (m3, h)" using touch3 bits(4) by (simp add: s)
    moreover have "P_WRITABLE fl" using False bits(3) w(2) by (auto simp: P_WRITABLE_def)
    moreover have "page_bytes m3 h page = Some (\<lambda>i. d_bytes x (e_offset e + i))"
      using look3[OF p] x by (simp add: page_bytes_def page_view_def)
    ultimately show ?thesis using inv3 look3[OF p] bits old by (auto simp: s)
  next
    case True
    define h0 where "h0 = (if has fl P_ANONYMOUS then anon_add 1 h else h)"
    have h0: "as_inv oth {} (m3, h0)" "h_alloc h0" "h_next h0 = h_next h" "\<And>k. keeps h0 k = keeps h k"
      using inv3 al by (simp_all add: h0_def s)
    obtain m4 h4 y where m4: "pt_map (m3, h0) page 1 (Inr (copy_page (d_bytes x) (e_offset e))) 0 (fl AND NOT P_COW) = Some (0, (m4, h4))"
        "as_inv oth {} (m4, h4)" "keeps h h4" "h_data h4 (h_next h) = Some y"
        "d_bytes y = copy_page (d_bytes x) (e_offset e)"
        "\<forall>q < MEM_PAGES. mem_pt m4 q = (if page \<le> q \<and> q < page + 1
            then Some (map_entry (h_next h) page 0 (fl AND NOT P_COW) q) else mem_pt m3 q)"
      using pt_map_inv[OF h0(1), of page 1 "copy_page (d_bytes x) (e_offset e)" 0 "fl AND NOT P_COW"] p h0(2-4)
      by auto
    have at: "page \<le> q \<and> q < page + 1 \<longleftrightarrow> q = page" for q by auto
    have look4: "mem_pt (mem_changed m4) q = (if q = page then Some (map_entry (h_next h) page 0 (fl AND NOT P_COW) page)
        else mem_pt m q)" if "q < MEM_PAGES" for q
      using m4(6) look3 that unfolding at by simp
    have inv4: "as_inv oth {} (mem_changed m4, h4)"
      by (rule as_inv_fields[OF m4(2)]) (simp add: mem_changed_def)
    have "mem_write_fault s page type = Some (True, (mem_changed m4, h4))"
      unfolding s run using m1(1) True al x m4(1) by (simp add: m3_def Let_def s h0_def)
    moreover have "touches {q. q = page} s (mem_changed m4, h4)"
      by (rule pt_map_touches[OF inv, where st = page and off = 0 and fl = "fl AND NOT P_COW"])
        (use look4 m4(3) in \<open>auto simp: s\<close>)
    moreover have "P_WRITABLE (fl AND NOT P_COW)" "\<not> has (fl AND NOT P_COW) P_CODE"
        "has (fl AND NOT P_COW) P_SHARED = has (e_flags e) P_SHARED"
      using bits w(2) by (auto simp: P_WRITABLE_def flag_simps)
    moreover have "page_bytes (mem_changed m4) h4 page = Some (copy_page (d_bytes x) (e_offset e))"
      using look4[OF p] m4(4,5) by (simp add: page_bytes_def page_view_def map_entry_def)
    ultimately show ?thesis using inv4 look4[OF p] old by (auto simp: s map_entry_def)
  qed
qed

end
