(* ===== verification/User_Memory.thy ===== *)
theory User_Memory
  imports Address_Faults
begin

text \<open>
  Copies between the kernel and guest memory (\<^verbatim>\<open>kernel/user.c\<close>). Addresses and their sums wrap at 64 bits.
  The host's memory at a pointer is read and written through the mapping's byte function; \<open>None\<close> is a
  freed mapping, a failed host allocation for a private copy, or a copy past the kernel's buffer.
\<close>

definition ADDR_MOD :: nat where "ADDR_MOD = 2 ^ 64"

definition host_read :: "host \<Rightarrow> nat \<times> nat \<Rightarrow> nat \<Rightarrow> byte list option" where
  "host_read h ptr n = map_option (\<lambda>x. map (\<lambda>i. d_bytes x (snd ptr + i)) [0..<n]) (h_data h (fst ptr))"

definition poke :: "nat \<Rightarrow> byte list \<Rightarrow> (nat \<Rightarrow> byte) \<Rightarrow> nat \<Rightarrow> byte" where
  "poke off bs f i = (if off \<le> i \<and> i < off + length bs then bs ! (i - off) else f i)"

definition host_write :: "nat \<times> nat \<Rightarrow> byte list \<Rightarrow> host \<Rightarrow> host option" where
  "host_write ptr bs h = map_option
     (\<lambda>x. h\<lparr>h_data := (h_data h)(fst ptr \<mapsto> x\<lparr>d_bytes := poke (snd ptr) bs (d_bytes x)\<rparr>)\<rparr>) (h_data h (fst ptr))"

text \<open>The end of the chunk at \<open>p\<close>: the end of its page or of the copy.\<close>

definition chunk_end :: "nat \<Rightarrow> nat \<Rightarrow> nat" where
  "chunk_end fin p = (let e = (p div PAGE_BYTES + 1) * PAGE_BYTES mod ADDR_MOD in if e > fin then fin else e)"

text \<open>Its length; a chunk that wraps past the top of the address space would overrun the kernel's buffer.\<close>

definition chunk_len :: "nat \<Rightarrow> nat \<Rightarrow> nat option" where
  "chunk_len fin p = (if chunk_end fin p < p then None else Some (chunk_end fin p - p))"

lemma chunk_len_pos: "p < fin \<Longrightarrow> chunk_len fin p = Some n \<Longrightarrow> 0 < n"
proof -
  assume p: "p < fin" and n: "chunk_len fin p = Some n"
  show ?thesis
  proof (rule ccontr)
    assume "\<not> 0 < n"
    then have e: "chunk_end fin p = p" using n by (auto simp: chunk_len_def split: if_splits)
    then have "(p div PAGE_BYTES + 1) * PAGE_BYTES mod ADDR_MOD = p"
      using p by (auto simp: chunk_end_def Let_def split: if_splits)
    moreover have "p < (p div PAGE_BYTES + 1) * PAGE_BYTES" "(p div PAGE_BYTES + 1) * PAGE_BYTES \<le> p + PAGE_BYTES"
      using dividend_less_div_times[of PAGE_BYTES p] div_mult_mod_eq[of p PAGE_BYTES]
      by (auto simp: PAGE_BYTES_def)
    moreover have "(p div PAGE_BYTES + 1) * PAGE_BYTES mod ADDR_MOD
        = (p div PAGE_BYTES + 1) * PAGE_BYTES - (p div PAGE_BYTES + 1) * PAGE_BYTES div ADDR_MOD * ADDR_MOD"
      by (simp add: minus_div_mult_eq_mod)
    ultimately have "(p div PAGE_BYTES + 1) * PAGE_BYTES div ADDR_MOD \<noteq> 0" by (metis diff_zero mult_0 less_irrefl)
    then have "ADDR_MOD \<le> (p div PAGE_BYTES + 1) * PAGE_BYTES - p"
      using \<open>(p div PAGE_BYTES + 1) * PAGE_BYTES mod ADDR_MOD = p\<close>
      by (metis add_diff_cancel_right' div_mult_mod_eq mult_le_mono1 nat_mult_1 One_nat_def Suc_leI neq0_conv)
    then show False using \<open>(p div PAGE_BYTES + 1) * PAGE_BYTES \<le> p + PAGE_BYTES\<close>
      by (simp add: ADDR_MOD_def PAGE_BYTES_def)
  qed
qed

lemma chunk_len_less: "p < fin \<Longrightarrow> chunk_len fin p = Some n \<Longrightarrow> fin - (p + n) < fin - p"
  using chunk_len_pos[of p fin n] by simp

text \<open>
  The copy loops, from \<open>p\<close> to \<open>fin\<close>; \<open>acc\<close> is what has been read so far. The result is the C result
  (1 is a fault) with the bytes copied.
\<close>

function user_read_mem ::
  "nat \<Rightarrow> nat \<Rightarrow> nat \<Rightarrow> byte list \<Rightarrow> space \<Rightarrow> (int \<times> byte list \<times> space) option" where
  "user_read_mem limit fin p acc s =
     (if p < fin then
        (case mem_ptr limit s p MEM_READ of
           None \<Rightarrow> None
         | Some (None, s1) \<Rightarrow> Some (1, acc, s1)
         | Some (Some a, s1) \<Rightarrow>
             (case chunk_len fin p of
                None \<Rightarrow> None
              | Some n \<Rightarrow>
                  (case host_read (snd s1) a n of
                     None \<Rightarrow> None
                   | Some bs \<Rightarrow> user_read_mem limit fin (p + n) (acc @ bs) s1)))
      else Some (0, acc, s))"
  by pat_completeness auto
termination
  by (relation "measure (\<lambda>(limit, fin, p, acc, s). fin - p)") (auto intro: chunk_len_less)

function user_write_mem ::
  "nat \<Rightarrow> access \<Rightarrow> nat \<Rightarrow> nat \<Rightarrow> byte list \<Rightarrow> space \<Rightarrow> (int \<times> space) option" where
  "user_write_mem limit type fin p buf s =
     (if p < fin then
        (case mem_ptr limit s p type of
           None \<Rightarrow> None
         | Some (None, s1) \<Rightarrow> Some (1, s1)
         | Some (Some a, s1) \<Rightarrow>
             (case chunk_len fin p of
                None \<Rightarrow> None
              | Some n \<Rightarrow>
                  (case host_write a (take n buf) (snd s1) of
                     None \<Rightarrow> None
                   | Some h \<Rightarrow> user_write_mem limit type fin (p + n) (drop n buf) (fst s1, h))))
      else Some (0, s))"
  by pat_completeness auto
termination
  by (relation "measure (\<lambda>(limit, type, fin, p, buf, s). fin - p)") (auto intro: chunk_len_less)

declare user_read_mem.simps [simp del] user_write_mem.simps [simp del]

text \<open>The entry points; \<open>s = None\<close> is a task whose memory is gone.\<close>

definition user_read_task :: "nat \<Rightarrow> space option \<Rightarrow> nat \<Rightarrow> nat \<Rightarrow> (int \<times> byte list \<times> space option) option" where
  "user_read_task limit s addr count =
     (case s of None \<Rightarrow> Some (1, [], None)
      | Some s \<Rightarrow> map_option (\<lambda>(r, bs, s). (r, bs, Some s))
          (user_read_mem limit ((addr + count) mod ADDR_MOD) addr [] s))"

definition user_write_task :: "nat \<Rightarrow> space option \<Rightarrow> nat \<Rightarrow> byte list \<Rightarrow> (int \<times> space option) option" where
  "user_write_task limit s addr buf =
     (case s of None \<Rightarrow> Some (1, None)
      | Some s \<Rightarrow> map_option (\<lambda>(r, s). (r, Some s))
          (user_write_mem limit MEM_WRITE ((addr + length buf) mod ADDR_MOD) addr buf s))"

definition user_write_task_ptrace :: "nat \<Rightarrow> space option \<Rightarrow> nat \<Rightarrow> byte list \<Rightarrow> (int \<times> space option) option" where
  "user_write_task_ptrace limit s addr buf =
     (case s of None \<Rightarrow> Some (1, None)
      | Some s \<Rightarrow> map_option (\<lambda>(r, s). (r, Some s))
          (user_write_mem limit MEM_WRITE_PTRACE ((addr + length buf) mod ADDR_MOD) addr buf s))"

text \<open>
  A string is read byte by byte into \<open>buf\<close>, whose length is the limit; a byte that wraps to address 0
  leaves the buffer's old byte.
\<close>

function read_string_loop :: "nat \<Rightarrow> nat \<Rightarrow> nat \<Rightarrow> byte list \<Rightarrow> space \<Rightarrow> (int \<times> byte list \<times> space) option" where
  "read_string_loop limit addr i buf s =
     (if i < length buf then
        (case user_read_mem limit ((addr + i + 1) mod ADDR_MOD) ((addr + i) mod ADDR_MOD) [] s of
           None \<Rightarrow> None
         | Some (r, bs, s1) \<Rightarrow>
             let buf' = (case bs of [] \<Rightarrow> buf | b # _ \<Rightarrow> buf[i := b])
             in if r \<noteq> 0 then Some (1, buf', s1)
                else if buf' ! i = 0 then Some (0, buf', s1)
                else read_string_loop limit addr (i + 1) buf' s1)
      else Some (0, buf, s))"
  by pat_completeness auto
termination
  by (relation "measure (\<lambda>(limit, addr, i, buf, s). length buf - i)") (auto split: list.splits)

declare read_string_loop.simps [simp del]

definition user_read_string :: "nat \<Rightarrow> space option \<Rightarrow> nat \<Rightarrow> byte list \<Rightarrow> (int \<times> byte list \<times> space option) option" where
  "user_read_string limit s addr buf =
     (if addr = 0 then Some (1, buf, s)
      else case s of None \<Rightarrow> Some (1, buf, None)
        | Some s \<Rightarrow> map_option (\<lambda>(r, bs, s). (r, bs, Some s)) (read_string_loop limit addr 0 buf s))"

text \<open>\<open>str\<close> is the string with its terminating zero; the loop stops at the first zero of it.\<close>

fun write_string_loop :: "nat \<Rightarrow> nat \<Rightarrow> nat \<Rightarrow> byte list \<Rightarrow> space \<Rightarrow> (int \<times> space) option" where
  "write_string_loop limit addr i [] s = None"
| "write_string_loop limit addr i (b # str) s =
     (case user_write_mem limit MEM_WRITE ((addr + i + 1) mod ADDR_MOD) ((addr + i) mod ADDR_MOD) [b] s of
        None \<Rightarrow> None
      | Some (r, s1) \<Rightarrow>
          if r \<noteq> 0 then Some (1, s1)
          else if b = 0 then Some (0, s1)
          else write_string_loop limit addr (i + 1) str s1)"

definition user_write_string :: "nat \<Rightarrow> space option \<Rightarrow> nat \<Rightarrow> byte list \<Rightarrow> (int \<times> space option) option" where
  "user_write_string limit s addr str =
     (if addr = 0 then Some (1, s)
      else case s of None \<Rightarrow> Some (1, None)
        | Some s \<Rightarrow> map_option (\<lambda>(r, s). (r, Some s)) (write_string_loop limit addr 0 str s))"

end
