(* ===== verification/User_Props.thy ===== *)
theory User_Props
  imports User_Memory
begin

text \<open>
  Guest memory as a map from addresses to bytes, and the kernel's copies as reads and updates of it.
\<close>

definition USER_TOP :: nat where "USER_TOP = MEM_PAGES * PAGE_BYTES"

definition mem_byte :: "space \<Rightarrow> nat \<Rightarrow> byte option" where
  "mem_byte s a = map_option (\<lambda>f. f (a mod PAGE_BYTES)) (page_bytes (fst s) (snd s) (a div PAGE_BYTES))"

lemma user_page: "a < USER_TOP \<Longrightarrow> a div PAGE_BYTES < MEM_PAGES"
  by (simp add: USER_TOP_def less_mult_imp_div_less)

lemma page_pos [simp]: "0 < PAGE_BYTES" "PAGE_BYTES \<noteq> 0"
  by (simp_all add: PAGE_BYTES_def)

text \<open>
  What a fault may change of the bytes: mapped ones stay, unmapped ones stay so or become zero.
\<close>

definition faulted :: "space \<Rightarrow> space \<Rightarrow> bool" where
  "faulted s s' \<longleftrightarrow> (\<forall>a < USER_TOP. (\<forall>b. mem_byte s a = Some b \<longrightarrow> mem_byte s' a = Some b)
     \<and> (mem_byte s a = None \<longrightarrow> mem_byte s' a \<in> {None, Some 0}))"

lemma faulted_refl: "faulted s s"
  by (simp add: faulted_def)

lemma faulted_trans: "faulted s1 s2 \<Longrightarrow> faulted s2 s3 \<Longrightarrow> faulted s1 s3"
  unfolding faulted_def by (metis insertE insertI1 insertI2 singletonD)

lemma faultedD: "faulted s s' \<Longrightarrow> a < USER_TOP \<Longrightarrow> mem_byte s a = Some b \<Longrightarrow> mem_byte s' a = Some b"
  by (simp add: faulted_def)

lemma faultedI:
  assumes "\<And>q. q < MEM_PAGES \<Longrightarrow> page_view s q = None \<Longrightarrow> page_view s' q = None \<or> zero_page s' q"
    "\<And>q f. q < MEM_PAGES \<Longrightarrow> page_bytes (fst s) (snd s) q = Some f \<Longrightarrow>
       \<exists>g. page_bytes (fst s') (snd s') q = Some g \<and> same_page g f"
  shows "faulted s s'"
  unfolding faulted_def
proof (intro allI impI conjI)
  fix a b assume a: "a < USER_TOP" "mem_byte s a = Some b"
  then obtain f where f: "page_bytes (fst s) (snd s) (a div PAGE_BYTES) = Some f" "f (a mod PAGE_BYTES) = b"
    by (auto simp: mem_byte_def)
  then show "mem_byte s' a = Some b"
    using assms(2)[OF user_page[OF a(1)] f(1)] by (auto simp: mem_byte_def same_page_def)
next
  fix a assume a: "a < USER_TOP" "mem_byte s a = None"
  have "page_view s (a div PAGE_BYTES) = None" using a(2) by (simp add: mem_byte_def page_bytes_def)
  then show "mem_byte s' a \<in> {None, Some 0}"
    using assms(1)[OF user_page[OF a(1)]] by (auto simp: mem_byte_def page_bytes_def zero_page_def)
qed

section \<open>A pointer for an access\<close>

lemma touched_alloc: "touches ps s s' \<Longrightarrow> h_alloc (snd s') = h_alloc (snd s)"
  by (simp add: touches_def keeps_def)

lemma mem_fault_in_faulted:
  assumes inv: "as_inv oth {} s" and p: "page < MEM_PAGES"
  shows "\<exists>ok s'. mem_fault_in limit s page = Some (ok, s') \<and> as_inv oth {} s' \<and> touches UNIV s s' \<and> faulted s s'
     \<and> (ok \<and> h_alloc (snd s) \<longrightarrow> mem_pt (fst s') page \<noteq> None) \<and> (mem_pt (fst s) page \<noteq> None \<longrightarrow> s' = s \<and> ok)"
proof -
  obtain ok s' where r: "mem_fault_in limit s page = Some (ok, s')" "as_inv oth {} s'"
      "touches {q. mem_pt (fst s) q = None} s s'"
      "\<forall>q < MEM_PAGES. mem_pt (fst s) q = None \<and> mem_pt (fst s') q \<noteq> None \<longrightarrow> zero_page s' q"
      "ok \<and> h_alloc (snd s) \<longrightarrow> mem_pt (fst s') page \<noteq> None" "mem_pt (fst s) page \<noteq> None \<longrightarrow> s' = s \<and> ok"
    using mem_fault_in_spec[OF inv p, of limit] by blast
  have "faulted s s'"
  proof (rule faultedI)
    fix q assume "q < MEM_PAGES" "page_view s q = None"
    then show "page_view s' q = None \<or> zero_page s' q"
      using r(4) page_view_None[OF inv] page_view_None[OF r(2)] by blast
  next
    fix q f assume q: "q < MEM_PAGES" "page_bytes (fst s) (snd s) q = Some f"
    have "mem_pt (fst s) q \<noteq> None" using q(2) by (cases "mem_pt (fst s) q") (simp_all add: page_bytes_def page_view_def)
    then have "page_view s' q = page_view s q" using touches_view[OF r(3) inv r(2) q(1)] by simp
    then show "\<exists>g. page_bytes (fst s') (snd s') q = Some g \<and> same_page g f"
      using q(2) by (intro exI[of _ f]) (simp add: page_bytes_def)
  qed
  then show ?thesis using r touches_mono[OF r(3)] by blast
qed

definition writes :: "access \<Rightarrow> bool" where "writes type \<longleftrightarrow> type \<noteq> MEM_READ"

lemma mem_write_fault_faulted:
  assumes inv: "as_inv oth {} s" and p: "page < MEM_PAGES" and m: "mem_pt (fst s) page \<noteq> None"
    and al: "h_alloc (snd s)"
  shows "\<exists>ok s'. mem_write_fault s page type = Some (ok, s') \<and> as_inv oth {} s' \<and> touches UNIV s s' \<and> faulted s s'
     \<and> (ok \<longrightarrow> (\<exists>e. mem_pt (fst s') page = Some e
           \<and> (writes type \<longrightarrow> P_WRITABLE (e_flags e) \<and> \<not> has (e_flags e) P_CODE)))
     \<and> (\<not> writes type \<longrightarrow> s' = s \<and> ok)
     \<and> (\<forall>e. mem_pt (fst s) page = Some e \<and> (type = MEM_WRITE_PTRACE \<or> has (e_flags e) P_WRITE) \<longrightarrow> ok)"
proof -
  obtain e where e: "mem_pt (fst s) page = Some e" using m by blast
  consider "type = MEM_READ" | "type \<noteq> MEM_READ" "type \<noteq> MEM_WRITE_PTRACE \<and> \<not> has (e_flags e) P_WRITE"
    | "type \<noteq> MEM_READ" "type = MEM_WRITE_PTRACE \<or> has (e_flags e) P_WRITE" by blast
  then show ?thesis
  proof cases
    case 1
    then have "mem_write_fault s page type = Some (True, s)" using e by (simp add: mem_write_fault_def)
    then show ?thesis using inv touches_refl faulted_refl e 1 by (auto simp: writes_def)
  next
    case 2
    then have "mem_write_fault s page type = Some (False, s)" using e by (simp add: mem_write_fault_def)
    then show ?thesis using inv touches_refl faulted_refl 2 e by (auto simp: writes_def)
  next
    case 3
    obtain s' e' where r: "mem_write_fault s page type = Some (True, s')" "as_inv oth {} s'" "touches {page} s s'"
        "mem_pt (fst s') page = Some e'" "P_WRITABLE (e_flags e')" "\<not> has (e_flags e') P_CODE"
        "\<exists>f g. page_bytes (fst s) (snd s) page = Some f \<and> page_bytes (fst s') (snd s') page = Some g \<and> same_page g f"
      using mem_write_fault_spec[OF inv p e al 3] by blast
    have other: "page_view s' q = page_view s q" if "q < MEM_PAGES" "q \<noteq> page" for q
      using touches_view[OF r(3) inv r(2) that(1)] that(2) by simp
    have "faulted s s'"
    proof (rule faultedI)
      fix q assume q: "q < MEM_PAGES" "page_view s q = None"
      then have "q \<noteq> page" using page_view_None[OF inv] e by auto
      then show "page_view s' q = None \<or> zero_page s' q" using other q by simp
    next
      fix q f assume q: "q < MEM_PAGES" "page_bytes (fst s) (snd s) q = Some f"
      show "\<exists>g. page_bytes (fst s') (snd s') q = Some g \<and> same_page g f"
        using q r(7) other[OF q(1)] by (cases "q = page") (auto simp: page_bytes_def)
    qed
    then show ?thesis using r touches_mono[OF r(3)] 3 by (auto simp: writes_def)
  qed
qed

lemma mem_ptr_spec:
  assumes inv: "as_inv oth {} s" and a: "addr < USER_TOP" and al: "h_alloc (snd s)"
  shows "\<exists>ptr s'. mem_ptr limit s addr type = Some (ptr, s') \<and> as_inv oth {} s' \<and> touches UNIV s s' \<and> faulted s s'
     \<and> (\<forall>d off. ptr = Some (d, off) \<longrightarrow> (\<exists>e. mem_pt (fst s') (addr div PAGE_BYTES) = Some e \<and> e_data e = Some d
          \<and> off = e_offset e + addr mod PAGE_BYTES
          \<and> (writes type \<longrightarrow> P_WRITABLE (e_flags e) \<and> \<not> has (e_flags e) P_CODE)))
     \<and> (mem_pt (fst s) (addr div PAGE_BYTES) \<noteq> None \<and> \<not> writes type \<longrightarrow> s' = s \<and> ptr \<noteq> None)
     \<and> (\<forall>e. mem_pt (fst s) (addr div PAGE_BYTES) = Some e \<and> (type = MEM_WRITE_PTRACE \<or> has (e_flags e) P_WRITE) \<longrightarrow>
          ptr \<noteq> None)"
proof -
  let ?p = "addr div PAGE_BYTES"
  have p: "?p < MEM_PAGES" by (rule user_page[OF a])
  obtain ok s1 where 1: "mem_fault_in limit s ?p = Some (ok, s1)" "as_inv oth {} s1" "touches UNIV s s1" "faulted s s1"
      "ok \<and> h_alloc (snd s) \<longrightarrow> mem_pt (fst s1) ?p \<noteq> None" "mem_pt (fst s) ?p \<noteq> None \<longrightarrow> s1 = s \<and> ok"
    using mem_fault_in_faulted[OF inv p, of limit] by blast
  show ?thesis
  proof (cases ok)
    case False
    then have "mem_ptr limit s addr type = Some (None, s1)" using 1(1) by (simp add: mem_ptr_def)
    then show ?thesis using 1 False by auto
  next
    case True
    obtain ok2 s2 where 2: "mem_write_fault s1 ?p type = Some (ok2, s2)" "as_inv oth {} s2" "touches UNIV s1 s2"
        "faulted s1 s2" "ok2 \<longrightarrow> (\<exists>e. mem_pt (fst s2) ?p = Some e
           \<and> (writes type \<longrightarrow> P_WRITABLE (e_flags e) \<and> \<not> has (e_flags e) P_CODE))" "\<not> writes type \<longrightarrow> s2 = s1 \<and> ok2"
        "\<forall>e. mem_pt (fst s1) ?p = Some e \<and> (type = MEM_WRITE_PTRACE \<or> has (e_flags e) P_WRITE) \<longrightarrow> ok2"
      using mem_write_fault_faulted[OF 1(2) p, of type] 1(5) True al touched_alloc[OF 1(3)] by blast
    have t: "touches UNIV s s2" "faulted s s2"
      using touches_trans[OF 1(3) 2(3)] faulted_trans[OF 1(4) 2(4)] by simp_all
    have run: "mem_ptr limit s addr type = Some (if ok2 then mem_ptr_nofault (fst s2) addr type else None, s2)"
      using 1(1) True 2(1) by (simp add: mem_ptr_def)
    have ptr: "\<exists>e. mem_pt (fst s2) ?p = Some e \<and> e_data e = Some d \<and> off = e_offset e + addr mod PAGE_BYTES
        \<and> (writes type \<longrightarrow> P_WRITABLE (e_flags e) \<and> \<not> has (e_flags e) P_CODE)"
      if "ok2" "mem_ptr_nofault (fst s2) addr type = Some (d, off)" for d off
      using that 2(5) by (auto simp: mem_ptr_nofault_def split: if_splits Option.bind_splits)
    have "mem_ptr_nofault (fst s) addr type \<noteq> None" if m: "mem_pt (fst s) ?p \<noteq> None" "\<not> writes type"
      using m live_data[OF inv _ p] by (auto simp: mem_ptr_nofault_def writes_def)
    moreover have "ok2 \<and> mem_ptr_nofault (fst s2) addr type \<noteq> None"
      if m: "mem_pt (fst s) ?p = Some e" "type = MEM_WRITE_PTRACE \<or> has (e_flags e) P_WRITE" for e
    proof -
      have ok2: ok2 using 1(6) 2(7) m by auto
      then obtain e2 where e2: "mem_pt (fst s2) ?p = Some e2" "writes type \<longrightarrow> P_WRITABLE (e_flags e2)"
        using 2(5) by blast
      then show ?thesis using ok2 live_data[OF 2(2) e2(1) p] by (auto simp: mem_ptr_nofault_def writes_def)
    qed
    ultimately show ?thesis using run 2(2) t ptr 1(6) 2(6) by auto
  qed
qed

section \<open>A write through a pointer\<close>

lemma poke_shift: "poke (o' + k) bs f (o' + i) = poke k bs (\<lambda>i. f (o' + i)) i"
  by (simp add: poke_def)

lemma host_write_spec:
  assumes inv: "as_inv oth {} (m, h)" and t: "tidy m" and p: "p < MEM_PAGES" and e: "mem_pt m p = Some e"
    and d: "e_data e = Some d" and k: "k + length bs \<le> PAGE_BYTES"
  shows "\<exists>h'. host_write (d, e_offset e + k) bs h = Some h' \<and> as_inv oth {} (m, h')
     \<and> h_alloc h' = h_alloc h \<and> h_next h' = h_next h
     \<and> (\<forall>c. c \<noteq> d \<longrightarrow> h_data h' c = h_data h c)
     \<and> (\<forall>a < USER_TOP. mem_byte (m, h') a
          = (if a div PAGE_BYTES = p \<and> k \<le> a mod PAGE_BYTES \<and> a mod PAGE_BYTES < k + length bs
             then Some (bs ! (a mod PAGE_BYTES - k)) else mem_byte (m, h) a))"
proof -
  obtain x where x: "h_data h d = Some x" using live_data[OF inv, of p e] e p d by auto
  define x' where "x' = x\<lparr>d_bytes := poke (e_offset e + k) bs (d_bytes x)\<rparr>"
  define h' where "h' = h\<lparr>h_data := (h_data h)(d \<mapsto> x')\<rparr>"
  have run: "host_write (d, e_offset e + k) bs h = Some h'" using x by (simp add: host_write_def h'_def x'_def)
  have "as_inv oth {} (m, h')"
  proof (rule as_invI)
    fix c show "dcount (data_refs m c + oth c) (c \<in> {}) (h_data h' c)"
      using as_invD(2)[OF inv, of c] x by (cases "c = d") (simp_all add: h'_def x'_def dcount_def)
  next
    fix c assume "h_next h' \<le> c"
    then show "h_data h' c = None" using as_invD(3)[OF inv, of c] x by (cases "c = d") (auto simp: h'_def)
  qed (use as_invD(1)[OF inv] in simp)
  moreover have "mem_byte (m, h') a
      = (if a div PAGE_BYTES = p \<and> k \<le> a mod PAGE_BYTES \<and> a mod PAGE_BYTES < k + length bs
         then Some (bs ! (a mod PAGE_BYTES - k)) else mem_byte (m, h) a)" if a: "a < USER_TOP" for a
  proof (cases "mem_pt m (a div PAGE_BYTES)")
    case None
    then show ?thesis using e by (auto simp: mem_byte_def page_bytes_def page_view_def)
  next
    case (Some f)
    let ?i = "a mod PAGE_BYTES"
    obtain c y where y: "e_data f = Some c" "h_data h c = Some y"
      using live_data[OF inv, of "a div PAGE_BYTES" f] Some user_page[OF a] by auto
    have new: "mem_byte (m, h) a = Some (d_bytes y (e_offset f + ?i))"
      using Some y by (simp add: mem_byte_def page_bytes_def page_view_def)
    show ?thesis
    proof (cases "c = d")
      case False
      then have "a div PAGE_BYTES \<noteq> p" using Some e d y(1) by auto
      then show ?thesis using Some y False by (simp add: mem_byte_def page_bytes_def page_view_def h'_def)
    next
      case True
      then have old: "mem_byte (m, h') a = Some (poke (e_offset e + k) bs (d_bytes x) (e_offset f + ?i))"
        using Some y by (simp add: mem_byte_def page_bytes_def page_view_def h'_def x'_def)
      have i: "?i < PAGE_BYTES" by simp
      show ?thesis
      proof (cases "a div PAGE_BYTES = p")
        case True
        then have "f = e" using Some e by simp
        then show ?thesis using old new x y \<open>c = d\<close> True by (auto simp: poke_shift) (auto simp: poke_def)
      next
        case diff: False
        have "apart f e" using tidyD[OF t user_page[OF a] p diff Some e] y(1) d True by simp
        then have "\<not> (e_offset e + k \<le> e_offset f + ?i \<and> e_offset f + ?i < e_offset e + k + length bs)"
          unfolding apart_def using i k by linarith
        then have "poke (e_offset e + k) bs (d_bytes x) (e_offset f + ?i) = d_bytes x (e_offset f + ?i)"
          by (auto simp: poke_def)
        then show ?thesis using old new x y True diff by simp
      qed
    qed
  qed
  ultimately show ?thesis using run by (auto simp: h'_def)
qed

section \<open>The copy loops\<close>

lemma chunk_in_page:
  assumes "p < fin" "fin \<le> USER_TOP"
  shows "\<exists>n. chunk_len fin p = Some n \<and> 0 < n \<and> p mod PAGE_BYTES + n \<le> PAGE_BYTES \<and> p + n \<le> fin"
proof -
  let ?e = "(p div PAGE_BYTES + 1) * PAGE_BYTES"
  have e: "?e = p + (PAGE_BYTES - p mod PAGE_BYTES)" "p mod PAGE_BYTES < PAGE_BYTES"
    using div_mult_mod_eq[of p PAGE_BYTES] mod_less_divisor[OF page_pos(1), of p]
    unfolding add_mult_distrib mult_1 by linarith+
  have "?e \<le> USER_TOP" using user_page[of p] assms unfolding USER_TOP_def
    by (intro mult_right_mono) simp_all
  then have "?e mod ADDR_MOD = ?e" by (simp add: USER_TOP_def ADDR_MOD_def MEM_PAGES_def PAGE_BYTES_def)
  then have c: "chunk_end fin p = (if ?e > fin then fin else ?e)" by (simp add: chunk_end_def Let_def)
  have "p < chunk_end fin p \<and> p mod PAGE_BYTES + (chunk_end fin p - p) \<le> PAGE_BYTES \<and> chunk_end fin p \<le> fin"
  proof (cases "?e > fin")
    case True
    then have "chunk_end fin p = fin" using c by simp
    then show ?thesis using True e assms(1) by linarith
  next
    case False
    then have "chunk_end fin p = ?e" using c by simp
    then show ?thesis using False e by linarith
  qed
  moreover from this have "chunk_len fin p = Some (chunk_end fin p - p)" by (simp add: chunk_len_def)
  ultimately have n: "chunk_len fin p = Some (chunk_end fin p - p)" "0 < chunk_end fin p - p"
    "p mod PAGE_BYTES + (chunk_end fin p - p) \<le> PAGE_BYTES" "p + (chunk_end fin p - p) \<le> fin" by linarith+
  then show ?thesis using n by blast
qed

lemma chunk_addresses:
  assumes "p mod PAGE_BYTES + n \<le> PAGE_BYTES"
  shows "a div PAGE_BYTES = p div PAGE_BYTES \<and> p mod PAGE_BYTES \<le> a mod PAGE_BYTES
      \<and> a mod PAGE_BYTES < p mod PAGE_BYTES + n \<longleftrightarrow> p \<le> a \<and> a < p + n"
    "p \<le> a \<Longrightarrow> a < p + n \<Longrightarrow> a mod PAGE_BYTES - p mod PAGE_BYTES = a - p"
proof -
  have split: "x = x div PAGE_BYTES * PAGE_BYTES + x mod PAGE_BYTES" for x by simp
  have in_page: "a div PAGE_BYTES = p div PAGE_BYTES" if "p \<le> a" "a < p + n"
  proof (rule antisym)
    have "a < (p div PAGE_BYTES + 1) * PAGE_BYTES"
      using that(2) assms split[of p] unfolding add_mult_distrib mult_1 by linarith
    then have "a div PAGE_BYTES < p div PAGE_BYTES + 1" by (rule less_mult_imp_div_less)
    then show "a div PAGE_BYTES \<le> p div PAGE_BYTES" by simp
    show "p div PAGE_BYTES \<le> a div PAGE_BYTES" using that(1) by (rule div_le_mono)
  qed
  show "a div PAGE_BYTES = p div PAGE_BYTES \<and> p mod PAGE_BYTES \<le> a mod PAGE_BYTES
      \<and> a mod PAGE_BYTES < p mod PAGE_BYTES + n \<longleftrightarrow> p \<le> a \<and> a < p + n"
  proof
    assume "a div PAGE_BYTES = p div PAGE_BYTES \<and> p mod PAGE_BYTES \<le> a mod PAGE_BYTES
      \<and> a mod PAGE_BYTES < p mod PAGE_BYTES + n"
    moreover from this have "a = p div PAGE_BYTES * PAGE_BYTES + a mod PAGE_BYTES" using split[of a] by metis
    ultimately show "p \<le> a \<and> a < p + n" using split[of p] by linarith
  next
    assume b: "p \<le> a \<and> a < p + n"
    have d: "a div PAGE_BYTES = p div PAGE_BYTES" using in_page b by blast
    then have "a = p div PAGE_BYTES * PAGE_BYTES + a mod PAGE_BYTES" using split[of a] by metis
    then show "a div PAGE_BYTES = p div PAGE_BYTES \<and> p mod PAGE_BYTES \<le> a mod PAGE_BYTES
      \<and> a mod PAGE_BYTES < p mod PAGE_BYTES + n" using b split[of p] d by linarith
  qed
  show "a mod PAGE_BYTES - p mod PAGE_BYTES = a - p" if "p \<le> a" "a < p + n"
    using in_page[OF that] split[of a] split[of p] by (metis diff_cancel2 diff_add_inverse add_diff_cancel_left)
qed

definition outside_kept :: "space \<Rightarrow> nat \<Rightarrow> nat \<Rightarrow> space \<Rightarrow> bool" where
  "outside_kept s p n s' \<longleftrightarrow> (\<forall>a < USER_TOP. \<not> (p \<le> a \<and> a < p + n) \<longrightarrow>
     (\<forall>b. mem_byte s a = Some b \<longrightarrow> mem_byte s' a = Some b)
     \<and> (mem_byte s a = None \<longrightarrow> mem_byte s' a \<in> {None, Some 0}))"

definition now_reads :: "space \<Rightarrow> nat \<Rightarrow> byte list \<Rightarrow> bool" where
  "now_reads s p bs \<longleftrightarrow> (\<forall>i < length bs. mem_byte s (p + i) = Some (bs ! i))"

lemma faulted_outside: "faulted s s' \<Longrightarrow> outside_kept s p n s'"
  by (simp add: faulted_def outside_kept_def)

lemma user_write_spec:
  assumes "as_inv oth {} s" "tidy (fst s)" "h_alloc (snd s)" "p + length buf = fin" "fin \<le> USER_TOP" "writes type"
  shows "\<exists>r s'. user_write_mem limit type fin p buf s = Some (r, s') \<and> as_inv oth {} s' \<and> tidy (fst s')
     \<and> h_alloc (snd s') \<and> r \<in> {0, 1} \<and> outside_kept s p (length buf) s' \<and> (r = 0 \<longrightarrow> now_reads s' p buf)"
  using assms
proof (induction limit type fin p buf s rule: user_write_mem.induct)
  case (1 limit type fin p buf s)
  note step = user_write_mem.simps[of limit type fin p buf s]
  show ?case
  proof (cases "p < fin")
    case False
    then have "length buf = 0" using "1.prems"(4) by linarith
    then have "buf = []" by simp
    then show ?thesis using step False "1.prems" faulted_outside[OF faulted_refl] by (auto simp: now_reads_def)
  next
    case lt: True
    have a: "p < USER_TOP" using lt "1.prems"(5) by simp
    obtain ptr s1 where 1: "mem_ptr limit s p type = Some (ptr, s1)" "as_inv oth {} s1" "touches UNIV s s1"
        "faulted s s1" "\<forall>d off. ptr = Some (d, off) \<longrightarrow> (\<exists>e. mem_pt (fst s1) (p div PAGE_BYTES) = Some e
          \<and> e_data e = Some d \<and> off = e_offset e + p mod PAGE_BYTES
          \<and> (writes type \<longrightarrow> P_WRITABLE (e_flags e) \<and> \<not> has (e_flags e) P_CODE))"
      using mem_ptr_spec[OF "1.prems"(1) a "1.prems"(3), of limit type] by (elim exE conjE) (rule that)
    have t1: "tidy (fst s1)" "h_alloc (snd s1)"
      using touches_tidy[OF 1(3)] touched_alloc[OF 1(3)] "1.prems"(2,3) by auto
    show ?thesis
    proof (cases ptr)
      case None
      then have "user_write_mem limit type fin p buf s = Some (1, s1)" using step lt 1(1) by simp
      then show ?thesis using 1(2) t1 faulted_outside[OF 1(4)] by simp
    next
      case (Some w)
      obtain d off where w: "w = (d, off)" by force
      obtain e where e: "mem_pt (fst s1) (p div PAGE_BYTES) = Some e" "e_data e = Some d"
          "off = e_offset e + p mod PAGE_BYTES" using 1(5) Some w by blast
      obtain n where n: "chunk_len fin p = Some n" "0 < n" "p mod PAGE_BYTES + n \<le> PAGE_BYTES" "p + n \<le> fin"
        using chunk_in_page[OF lt "1.prems"(5)] by blast
      have len: "length (take n buf) = n" using n(4) "1.prems"(4) by simp
      have s1: "as_inv oth {} (fst s1, snd s1)" using 1(2) by simp
      obtain h where h: "host_write (d, off) (take n buf) (snd s1) = Some h" "as_inv oth {} (fst s1, h)" "h_alloc h"
          "\<forall>a < USER_TOP. mem_byte (fst s1, h) a = (if p \<le> a \<and> a < p + n then Some (take n buf ! (a mod PAGE_BYTES - p mod PAGE_BYTES))
             else mem_byte s1 a)"
        using host_write_spec[OF s1 t1(1) user_page[OF a] e(1,2), of "p mod PAGE_BYTES" "take n buf"] n(3) t1(2)
        unfolding len e(3) chunk_addresses(1)[OF n(3)] by (auto simp del: length_take)
      obtain r s' where rest: "user_write_mem limit type fin (p + n) (drop n buf) (fst s1, h) = Some (r, s')"
          "as_inv oth {} s'" "tidy (fst s')" "h_alloc (snd s')" "r \<in> {0, 1}"
          "outside_kept (fst s1, h) (p + n) (length (drop n buf)) s'" "r = 0 \<longrightarrow> now_reads s' (p + n) (drop n buf)"
        using "1.IH"[OF lt 1(1) refl Some[unfolded w] n(1) h(1)] h(2,3) t1(1) "1.prems"(4,5,6) n(4) by auto
      have run: "user_write_mem limit type fin p buf s = Some (r, s')"
        using step lt 1(1) Some w n(1) h(1) rest(1) by simp
      have early: "mem_byte s' a = Some (buf ! (a - p))" if "p \<le> a" "a < p + n" for a
      proof -
        have b: "a < USER_TOP" using that n(4) "1.prems"(5) by simp
        have "mem_byte (fst s1, h) a = Some (buf ! (a - p))"
          using h(4) b that chunk_addresses(2)[OF n(3) that] by auto
        then show ?thesis using rest(6) b that by (auto simp: outside_kept_def)
      qed
      have "now_reads s' p buf" if "r = 0"
        unfolding now_reads_def
      proof (intro allI impI)
        fix i assume i: "i < length buf"
        show "mem_byte s' (p + i) = Some (buf ! i)"
        proof (cases "i < n")
          case True
          then show ?thesis using early[of "p + i"] by simp
        next
          case False
          then have "p + i = p + n + (i - n)" "i = n + (i - n)" by simp_all
          moreover have "mem_byte s' (p + n + (i - n)) = Some (drop n buf ! (i - n))"
            by (rule rest(7)[rule_format, OF that, unfolded now_reads_def, rule_format]) (use i False in simp)
          moreover have "drop n buf ! (i - n) = buf ! (n + (i - n))" by (rule nth_drop) (use i False in simp)
          ultimately show ?thesis by metis
        qed
      qed
      moreover have "outside_kept s p (length buf) s'"
        unfolding outside_kept_def
      proof (intro allI impI)
        fix a assume b: "a < USER_TOP" "\<not> (p \<le> a \<and> a < p + length buf)"
        have "\<not> (p \<le> a \<and> a < p + n)" "\<not> (p + n \<le> a \<and> a < p + n + length (drop n buf))"
          using b n(4) "1.prems"(4) by auto
        then have "mem_byte (fst s1, h) a = mem_byte s1 a"
            "(\<forall>b. mem_byte s1 a = Some b \<longrightarrow> mem_byte s' a = Some b) \<and> (mem_byte s1 a = None \<longrightarrow> mem_byte s' a \<in> {None, Some 0})"
          using h(4) rest(6) b(1) unfolding outside_kept_def by auto
        then show "(\<forall>b. mem_byte s a = Some b \<longrightarrow> mem_byte s' a = Some b) \<and> (mem_byte s a = None \<longrightarrow> mem_byte s' a \<in> {None, Some 0})"
          using 1(4) b(1) unfolding faulted_def by (metis insertE insertI1 insertI2 singletonD)
      qed
      ultimately show ?thesis using run rest(2-5) by blast
    qed
  qed
qed

text \<open>A write to pages that are mapped writable succeeds, and leaves every writable page writable.\<close>

definition writable_page :: "space \<Rightarrow> nat \<Rightarrow> bool" where
  "writable_page s q \<longleftrightarrow> (\<exists>e. mem_pt (fst s) q = Some e \<and> has (e_flags e) P_WRITE)"

definition writable_range :: "space \<Rightarrow> nat \<Rightarrow> nat \<Rightarrow> bool" where
  "writable_range s p n \<longleftrightarrow> (\<forall>a. p \<le> a \<and> a < p + n \<longrightarrow> writable_page s (a div PAGE_BYTES))"

definition keeps_writable :: "space \<Rightarrow> space \<Rightarrow> bool" where
  "keeps_writable s s' \<longleftrightarrow> (\<forall>q < MEM_PAGES. writable_page s q \<longrightarrow> writable_page s' q)"

lemma keeps_writable_range:
  assumes "keeps_writable s s'" "writable_range s p n" "p + n \<le> USER_TOP"
  shows "writable_range s' p n"
  unfolding writable_range_def
proof (intro allI impI)
  fix a assume a: "p \<le> a \<and> a < p + n"
  then have "a div PAGE_BYTES < MEM_PAGES" using assms(3) by (intro user_page) auto
  with assms(1,2) a show "writable_page s' (a div PAGE_BYTES)" by (auto simp: keeps_writable_def writable_range_def)
qed

lemma mem_ptr_writable:
  assumes inv: "as_inv oth {} s" and a: "addr < USER_TOP" and al: "h_alloc (snd s)"
    and w: "writable_page s (addr div PAGE_BYTES)"
  obtains d s1 e1 where "mem_ptr limit s addr MEM_WRITE = Some (Some (d, e_offset e1 + addr mod PAGE_BYTES), s1)"
    "as_inv oth {} s1" "touches {addr div PAGE_BYTES} s s1" "mem_pt (fst s1) (addr div PAGE_BYTES) = Some e1" "e_data e1 = Some d"
    "keeps_writable s s1"
proof -
  let ?p = "addr div PAGE_BYTES"
  have p: "?p < MEM_PAGES" by (rule user_page[OF a])
  obtain e where e: "mem_pt (fst s) ?p = Some e" "has (e_flags e) P_WRITE" using w by (auto simp: writable_page_def)
  have 1: "mem_fault_in limit s ?p = Some (True, s)"
    using mem_fault_in_faulted[OF inv p, of limit] e(1) by auto
  obtain s1 e1 where 2: "mem_write_fault s ?p MEM_WRITE = Some (True, s1)" "as_inv oth {} s1" "touches {?p} s s1"
      "mem_pt (fst s1) ?p = Some e1" "P_WRITABLE (e_flags e1)"
    using mem_write_fault_spec[OF inv p e(1) al, of MEM_WRITE] e(2) by auto
  obtain d where d: "e_data e1 = Some d" using live_data[OF 2(2,4) p] by auto
  have "writable_page s1 q" if "q < MEM_PAGES" "writable_page s q" for q
    using that 2(3,4,5) by (cases "q = ?p") (auto simp: writable_page_def touches_def P_WRITABLE_def)
  then have "keeps_writable s s1" by (simp add: keeps_writable_def)
  moreover from 1 2 d have "mem_ptr limit s addr MEM_WRITE = Some (Some (d, e_offset e1 + addr mod PAGE_BYTES), s1)"
    by (simp add: mem_ptr_def mem_ptr_nofault_def)
  ultimately show thesis using 2 d by (rule_tac that)
qed

lemma user_write_writable:
  assumes "as_inv oth {} s" "tidy (fst s)" "h_alloc (snd s)" "p + length buf = fin" "fin \<le> USER_TOP"
    "writable_range s p (length buf)"
  shows "\<exists>s'. user_write_mem limit MEM_WRITE fin p buf s = Some (0, s') \<and> keeps_writable s s'"
  using assms
proof (induction "length buf" arbitrary: p buf s rule: less_induct)
  case less
  note step = user_write_mem.simps[of limit MEM_WRITE fin p buf s]
  show ?case
  proof (cases "p < fin")
    case False
    then show ?thesis using step by (simp add: keeps_writable_def)
  next
    case lt: True
    have a: "p < USER_TOP" using lt less.prems(5) by simp
    have "p \<le> p \<and> p < p + length buf" using lt less.prems(4) by simp
    then have w: "writable_page s (p div PAGE_BYTES)" using less.prems(6) unfolding writable_range_def by blast
    obtain d s1 e1 where 1: "mem_ptr limit s p MEM_WRITE = Some (Some (d, e_offset e1 + p mod PAGE_BYTES), s1)"
        "as_inv oth {} s1" "touches {p div PAGE_BYTES} s s1" "mem_pt (fst s1) (p div PAGE_BYTES) = Some e1" "e_data e1 = Some d"
        "keeps_writable s s1"
      by (rule mem_ptr_writable[OF less.prems(1) a less.prems(3) w])
    have t1: "tidy (fst s1)" "h_alloc (snd s1)" "as_inv oth {} (fst s1, snd s1)"
      using 1(2,3) less.prems(2,3) by (auto simp: touches_def keeps_def)
    obtain n where n: "chunk_len fin p = Some n" "0 < n" "p mod PAGE_BYTES + n \<le> PAGE_BYTES" "p + n \<le> fin"
      using chunk_in_page[OF lt less.prems(5)] by blast
    have len: "length (take n buf) = n" using n(4) less.prems(4) by simp
    obtain h where h: "host_write (d, e_offset e1 + p mod PAGE_BYTES) (take n buf) (snd s1) = Some h"
        "as_inv oth {} (fst s1, h)" "h_alloc h"
      using host_write_spec[OF t1(3,1) user_page[OF a] 1(4,5), of "p mod PAGE_BYTES" "take n buf"] n(3) t1(2)
      unfolding len by auto
    have k: "keeps_writable s (fst s1, h)" using 1(6) by (simp add: keeps_writable_def writable_page_def)
    have "writable_range (fst s1, h) p (length buf)"
      using less.prems(4,5) by (intro keeps_writable_range[OF k less.prems(6)]) simp
    then have "writable_range (fst s1, h) (p + n) (length (drop n buf))"
      using n(4) less.prems(4) by (auto simp: writable_range_def)
    moreover have "length (drop n buf) < length buf" using n(2,4) less.prems(4) by simp
    ultimately obtain s' where "user_write_mem limit MEM_WRITE fin (p + n) (drop n buf) (fst s1, h) = Some (0, s')"
        "keeps_writable (fst s1, h) s'"
      using less.hyps[of "drop n buf" "(fst s1, h)" "p + n"] h(2,3) t1(1) less.prems(4,5) n(4) by auto
    then have "user_write_mem limit MEM_WRITE fin p buf s = Some (0, s')" "keeps_writable s s'"
      using step lt 1(1) n(1) h(1) k by (simp_all add: keeps_writable_def)
    then show ?thesis by blast
  qed
qed

lemma user_write_one_page:
  assumes "as_inv oth {} s" "tidy (fst s)" "h_alloc (snd s)" "p < USER_TOP" "buf \<noteq> []"
    "p mod PAGE_BYTES + length buf \<le> PAGE_BYTES" "mem_pt (fst s) (p div PAGE_BYTES) = Some e" "has (e_flags e) P_WRITE"
  shows "\<exists>s'. user_write_mem limit MEM_WRITE (p + length buf) p buf s = Some (0, s')"
proof -
  have "p = p div PAGE_BYTES * PAGE_BYTES + p mod PAGE_BYTES" by (rule div_mult_mod_eq[symmetric])
  moreover have "(p div PAGE_BYTES + 1) * PAGE_BYTES \<le> MEM_PAGES * PAGE_BYTES"
    using user_page[OF assms(4)] by (intro mult_right_mono) simp_all
  ultimately have top: "p + length buf \<le> USER_TOP"
    using assms(6) unfolding USER_TOP_def add_mult_distrib mult_1 by linarith
  have "a div PAGE_BYTES = p div PAGE_BYTES" if "p \<le> a" "a < p + length buf" for a
    using chunk_addresses(1)[OF assms(6), of a] that by blast
  then have "writable_range s p (length buf)" using assms(7,8) by (simp add: writable_range_def writable_page_def)
  from user_write_writable[OF assms(1-3) refl top this] show ?thesis by blast
qed

lemma now_reads_faulted:
  "now_reads s p bs \<Longrightarrow> faulted s s' \<Longrightarrow> p + length bs \<le> USER_TOP \<Longrightarrow> now_reads s' p bs"
  by (simp add: now_reads_def faulted_def)

lemma now_reads_append:
  "now_reads s p (xs @ ys) \<longleftrightarrow> now_reads s p xs \<and> now_reads s (p + length xs) ys"
proof
  assume l: "now_reads s p (xs @ ys)"
  have "mem_byte s (p + length xs + i) = Some (ys ! i)" if "i < length ys" for i
    using l[unfolded now_reads_def, rule_format, of "length xs + i"] that by (simp add: add.assoc)
  moreover have "mem_byte s (p + i) = Some (xs ! i)" if "i < length xs" for i
    using l[unfolded now_reads_def, rule_format, of i] that by (simp add: nth_append)
  ultimately show "now_reads s p xs \<and> now_reads s (p + length xs) ys" by (simp add: now_reads_def)
next
  assume r: "now_reads s p xs \<and> now_reads s (p + length xs) ys"
  show "now_reads s p (xs @ ys)"
    unfolding now_reads_def
  proof (intro allI impI)
    fix i assume i: "i < length (xs @ ys)"
    show "mem_byte s (p + i) = Some ((xs @ ys) ! i)"
    proof (cases "i < length xs")
      case True
      then show ?thesis using r by (simp add: now_reads_def nth_append)
    next
      case False
      then have "i - length xs < length ys" using i by simp
      then have "mem_byte s (p + length xs + (i - length xs)) = Some (ys ! (i - length xs))"
        by (rule r[unfolded now_reads_def, THEN conjunct2, rule_format])
      then show ?thesis using False by (simp add: nth_append)
    qed
  qed
qed

lemma host_read_spec:
  assumes "as_inv oth {} s" "a < USER_TOP" "mem_pt (fst s) (a div PAGE_BYTES) = Some e" "e_data e = Some d"
    "a mod PAGE_BYTES + n \<le> PAGE_BYTES"
  shows "\<exists>bs. host_read (snd s) (d, e_offset e + a mod PAGE_BYTES) n = Some bs \<and> length bs = n \<and> now_reads s a bs"
proof -
  obtain x where x: "h_data (snd s) d = Some x"
    using live_data[OF assms(1,3) user_page[OF assms(2)]] assms(4) by auto
  have "mem_byte s (a + i) = Some (d_bytes x (e_offset e + a mod PAGE_BYTES + i))" if i: "i < n" for i
  proof -
    have b: "(a + i) div PAGE_BYTES = a div PAGE_BYTES" "(a + i) mod PAGE_BYTES - a mod PAGE_BYTES = i"
        "a mod PAGE_BYTES \<le> (a + i) mod PAGE_BYTES"
      using chunk_addresses[OF assms(5), of "a + i"] i by auto
    then have "(a + i) mod PAGE_BYTES = a mod PAGE_BYTES + i" by simp
    then show ?thesis using assms(3,4) x b(1) by (simp add: mem_byte_def page_bytes_def page_view_def add.assoc)
  qed
  then show ?thesis using x by (auto simp: host_read_def now_reads_def)
qed

lemma user_read_spec:
  assumes "as_inv oth {} s" "h_alloc (snd s)" "fin \<le> USER_TOP"
  shows "\<exists>r bs s'. user_read_mem limit fin p acc s = Some (r, acc @ bs, s') \<and> as_inv oth {} s' \<and> touches UNIV s s'
     \<and> faulted s s' \<and> r \<in> {0, 1} \<and> now_reads s' p bs \<and> length bs \<le> fin - p \<and> (r = 0 \<longrightarrow> length bs = fin - p)
     \<and> ((\<forall>a. p \<le> a \<and> a < fin \<longrightarrow> mem_byte s a \<noteq> None) \<longrightarrow> r = 0 \<and> s' = s)"
  using assms
proof (induction limit fin p acc s rule: user_read_mem.induct)
  case (1 limit fin p acc s)
  note step = user_read_mem.simps[of limit fin p acc s]
  show ?case
  proof (cases "p < fin")
    case False
    then show ?thesis using step "1.prems" faulted_refl touches_refl by (auto simp: now_reads_def)
  next
    case lt: True
    have a: "p < USER_TOP" using lt "1.prems"(3) by simp
    obtain ptr s1 where 1: "mem_ptr limit s p MEM_READ = Some (ptr, s1)" "as_inv oth {} s1" "touches UNIV s s1"
        "faulted s s1" "\<forall>d off. ptr = Some (d, off) \<longrightarrow> (\<exists>e. mem_pt (fst s1) (p div PAGE_BYTES) = Some e
          \<and> e_data e = Some d \<and> off = e_offset e + p mod PAGE_BYTES)"
        "mem_pt (fst s) (p div PAGE_BYTES) \<noteq> None \<longrightarrow> s1 = s \<and> ptr \<noteq> None"
      using mem_ptr_spec[OF "1.prems"(1) a "1.prems"(2), of limit MEM_READ] by (auto simp: writes_def)
    have mapped: "mem_pt (fst s) (p div PAGE_BYTES) \<noteq> None" if "mem_byte s p \<noteq> None"
      using that by (cases "mem_pt (fst s) (p div PAGE_BYTES)") (auto simp: mem_byte_def page_bytes_def page_view_def)
    show ?thesis
    proof (cases ptr)
      case None
      then have "user_read_mem limit fin p acc s = Some (1, acc, s1)" using step lt 1(1) by simp
      moreover have "\<not> (\<forall>a. p \<le> a \<and> a < fin \<longrightarrow> mem_byte s a \<noteq> None)" using 1(6) None mapped lt by blast
      ultimately show ?thesis using 1(2-4)
        by (intro exI[of _ 1] exI[of _ "[]"] exI[of _ s1]) (simp add: now_reads_def)
    next
      case (Some w)
      obtain d off where w: "w = (d, off)" by force
      obtain e where e: "mem_pt (fst s1) (p div PAGE_BYTES) = Some e" "e_data e = Some d"
          "off = e_offset e + p mod PAGE_BYTES" using 1(5) Some w by blast
      obtain n where n: "chunk_len fin p = Some n" "0 < n" "p mod PAGE_BYTES + n \<le> PAGE_BYTES" "p + n \<le> fin"
        using chunk_in_page[OF lt "1.prems"(3)] by blast
      obtain bs where bs: "host_read (snd s1) (d, off) n = Some bs" "length bs = n" "now_reads s1 p bs"
        using host_read_spec[OF 1(2) a e(1,2) n(3)] e(3) by blast
      have al: "h_alloc (snd s1)" using touched_alloc[OF 1(3)] "1.prems"(2) by simp
      obtain r cs s' where rest: "user_read_mem limit fin (p + n) (acc @ bs) s1 = Some (r, (acc @ bs) @ cs, s')"
          "as_inv oth {} s'" "touches UNIV s1 s'" "faulted s1 s'" "r \<in> {0, 1}" "now_reads s' (p + n) cs"
          "length cs \<le> fin - (p + n)" "r = 0 \<longrightarrow> length cs = fin - (p + n)"
          "(\<forall>a. p + n \<le> a \<and> a < fin \<longrightarrow> mem_byte s1 a \<noteq> None) \<longrightarrow> r = 0 \<and> s' = s1"
        using "1.IH"[OF lt 1(1) refl Some[unfolded w] n(1) bs(1) 1(2) al "1.prems"(3)] by blast
      have run: "user_read_mem limit fin p acc s = Some (r, acc @ (bs @ cs), s')"
        using step lt 1(1) Some w n(1) bs(1) rest(1) by simp
      have "now_reads s' p bs" using now_reads_faulted[OF bs(3) rest(4)] bs(2) n(4) "1.prems"(3) by simp
      then have reads: "now_reads s' p (bs @ cs)" using rest(6) bs(2) by (simp add: now_reads_append)
      have len: "length (bs @ cs) \<le> fin - p" "r = 0 \<longrightarrow> length (bs @ cs) = fin - p"
        using rest(7,8) bs(2) n(4) by auto
      have stay: "r = 0 \<and> s' = s" if m: "\<forall>a. p \<le> a \<and> a < fin \<longrightarrow> mem_byte s a \<noteq> None"
      proof -
        have "s1 = s" using 1(6) mapped m lt by blast
        then show ?thesis using rest(9) m by auto
      qed
      have "touches UNIV s s'" "faulted s s'"
        using touches_trans[OF 1(3) rest(3)] faulted_trans[OF 1(4) rest(4)] by simp_all
      then show ?thesis using run rest(2,5) reads len stay by blast
    qed
  qed
qed


text \<open>An address space with nothing mapped, and one with a writable page.\<close>

definition no_host :: host where
  "no_host = \<lparr>h_data = (\<lambda>_. None), h_next = 0, h_closed = [], h_retained = [], h_alloc = True, h_anon = 0\<rparr>"

lemma init_lookup [simp]: "mem_pt mem_init p = None"
  by (simp add: mem_pt_def mem_l3_def mem_init_def)

lemma as_inv_init: "as_inv (\<lambda>_. 0) {} (mem_init, no_host)"
  by (simp add: as_inv_def dcount_def no_host_def mem_ok_def data_refs_def pt4.refs_def) (simp add: mem_init_def)

lemma one_page_space:
  assumes p: "p < MEM_PAGES" and sh: "\<not> has fl P_SHARED" "has fl P_WRITE"
  shows "\<exists>s e. pt_map_nothing (mem_init, no_host) p 1 fl = Some (0, s) \<and> as_inv (\<lambda>_. 0) {} s \<and> tidy (fst s)
     \<and> h_alloc (snd s) \<and> mem_pt (fst s) p = Some e \<and> has (e_flags e) P_WRITE \<and> \<not> has (e_flags e) P_SHARED"
proof -
  obtain r s where m: "pt_map_nothing (mem_init, no_host) p 1 fl = Some (r, s)" "as_inv (\<lambda>_. 0) {} s"
      "keeps no_host (snd s)" "r = 0"
      "\<forall>q < MEM_PAGES. mem_pt (fst s) q = (if r = 0 \<and> p \<le> q \<and> q < p + 1
            then Some (map_entry 0 p 0 (fl OR P_ANONYMOUS) q) else None)"
    using pt_map_nothing_inv[OF as_inv_init, of p 1 fl] p by (auto simp: no_host_def)
  have at: "p \<le> q \<and> q < p + 1 \<longleftrightarrow> q = p" for q by auto
  have look: "mem_pt (fst s) q = (if q = p then Some (map_entry 0 p 0 (fl OR P_ANONYMOUS) q) else None)"
    if "q < MEM_PAGES" for q using m(4,5) that unfolding at by simp
  have "tidy (fst s)" unfolding tidy_def using look by (metis option.distinct(1))
  moreover have "h_alloc (snd s)" using m(3) by (simp add: keeps_def no_host_def)
  moreover have "has (fl OR P_ANONYMOUS) P_WRITE" "\<not> has (fl OR P_ANONYMOUS) P_SHARED"
    using sh by (auto simp: flag_simps)
  ultimately show ?thesis using m(1,2,4) look[OF p] by (auto simp: map_entry_def)
qed

lemma fresh_space:
  assumes "start + pages \<le> MEM_PAGES" "has fl P_WRITE"
  shows "\<exists>s. pt_map_nothing (mem_init, no_host) start pages fl = Some (0, s) \<and> as_inv (\<lambda>_. 0) {} s \<and> tidy (fst s)
     \<and> h_alloc (snd s) \<and> writable_range s (start * PAGE_BYTES) (pages * PAGE_BYTES)"
proof -
  obtain s where z: "pt_map_nothing (mem_init, no_host) start pages fl = Some (0, s)" "as_inv (\<lambda>_. 0) {} s"
      "touches {q. start \<le> q \<and> q < start + pages} (mem_init, no_host) s"
    using pt_map_nothing_zero[OF as_inv_init assms(1), of fl] by (auto simp: no_host_def)
  have e: "mem_pt (fst s) q = Some (map_entry 0 start 0 (fl OR P_ANONYMOUS) q)" if "start \<le> q" "q < start + pages" for q
    using pt_map_nothing_inv[OF as_inv_init assms(1), of fl] z(1) that assms(1) by (auto simp: no_host_def)
  have "tidy (fst s)" "h_alloc (snd s)" using z(3) by (auto simp: touches_def keeps_def tidy_def no_host_def)
  moreover have "writable_range s (start * PAGE_BYTES) (pages * PAGE_BYTES)"
    unfolding writable_range_def writable_page_def
  proof (intro allI impI)
    fix a assume a: "start * PAGE_BYTES \<le> a \<and> a < start * PAGE_BYTES + pages * PAGE_BYTES"
    then have "start \<le> a div PAGE_BYTES" by (metis div_le_mono nonzero_mult_div_cancel_right page_pos(2))
    moreover have "a div PAGE_BYTES < start + pages" using a by (intro less_mult_imp_div_less) (simp add: add_mult_distrib)
    moreover have "has (fl OR P_ANONYMOUS) P_WRITE" using assms(2) by (simp add: flag_simps)
    ultimately show "\<exists>e. mem_pt (fst s) (a div PAGE_BYTES) = Some e \<and> has (e_flags e) P_WRITE"
      using e by (auto simp: map_entry_def)
  qed
  ultimately show ?thesis using z by blast
qed


text \<open>A copy whose range wraps past the top of the address space copies nothing and reports success,
  so the caller goes on with whatever its buffer held.\<close>

theorem wrapped_copy_reports_success:
  assumes "addr < ADDR_MOD" "n < ADDR_MOD" "ADDR_MOD \<le> addr + n"
  shows "user_read_task limit (Some s) addr n = Some (0, [], Some s)
     \<and> (\<forall>bs. length bs = n \<longrightarrow> user_write_task limit (Some s) addr bs = Some (0, Some s))"
proof -
  have "(addr + n) mod ADDR_MOD = addr + n - ADDR_MOD" using assms by (simp add: mod_if)
  then have "\<not> addr < (addr + n) mod ADDR_MOD" using assms by simp
  then show ?thesis
    by (simp add: user_read_task_def user_write_task_def user_read_mem.simps user_write_mem.simps)
qed

theorem wrapped_copy_reports_success_witness:
  "user_read_task 0 (Some (mem_init, no_host)) (ADDR_MOD - 4) 16 = Some (0, [], Some (mem_init, no_host))"
  using wrapped_copy_reports_success[of "ADDR_MOD - 4" 16 0 "(mem_init, no_host)"] by (simp add: ADDR_MOD_def)

end
