(* ===== verification/Address_Protect.thy ===== *)
theory Address_Protect
  imports Address_Faults
begin

text \<open>
  Changing the protection of a range (\<^verbatim>\<open>pt_set_flags\<close>): what each page of the range becomes, and that the
  rest of the space and every other space stay as they were.
\<close>

lemma run_end_spec:
  assumes "page < fin" "mem_pt m page = None"
  shows "run_end m page fin < fin" "\<And>q. page \<le> q \<Longrightarrow> q \<le> run_end m page fin \<Longrightarrow> mem_pt m q = None"
  using assms
proof (induction m page fin rule: run_end.induct)
  case (1 m page fin)
  note step = run_end.simps[of m page fin]
  {
    case 1
    then show ?case using step "1.IH" by (cases "page + 1 < fin \<and> mem_pt m (page + 1) = None") auto
  next
    case 2
    then show ?case using step "1.IH"(2)[of q]
      by (cases "page + 1 < fin \<and> mem_pt m (page + 1) = None"; cases "q = page") auto
  }
qed

lemma assign_flags_spec:
  assumes inv: "as_inv oth {} s" and p: "page < MEM_PAGES" and e: "mem_pt (fst s) page = Some e"
    and fl: "has fl P_SHARED = has (e_flags e) P_SHARED" "has (e_flags e) P_COW \<Longrightarrow> has fl P_COW"
  shows "\<exists>s'. assign_flags page fl s = Some s' \<and> as_inv oth {} s' \<and> touches {page} s s' \<and> snd s' = snd s
     \<and> (\<forall>q < MEM_PAGES. mem_pt (fst s') q = (if q = page then Some (e\<lparr>e_flags := fl\<rparr>) else mem_pt (fst s) q))"
proof -
  obtain m h where s: "s = (m, h)" by force
  obtain m1 where m1: "pt_assign page (e\<lparr>e_flags := fl\<rparr>) m = Some m1" "as_inv oth {} (m1, h)"
      "\<forall>q < MEM_PAGES. mem_pt m1 q = (if q = page then Some (e\<lparr>e_flags := fl\<rparr>) else mem_pt m q)"
    using assign_same_data[of oth "{}" m h page e "e\<lparr>e_flags := fl\<rparr>"] inv p e by (auto simp: s)
  have "tidy m1" if "tidy m"
  proof (rule tidy_from[OF that])
    fix q e' assume "q < MEM_PAGES" "mem_pt m1 q = Some e'"
    then show "\<exists>e. mem_pt m q = Some e \<and> e_data e' = e_data e \<and> e_offset e' = e_offset e
        \<and> has (e_flags e') P_SHARED = has (e_flags e) P_SHARED"
      using m1(3) e fl(1) by (auto simp: s split: if_splits)
  qed
  then have "touches {page} s (m1, h)"
    using m1(3) e fl by (auto simp: touches_def keeps_refl came_from_def s)
  then show ?thesis using m1 e by (auto simp: assign_flags_def s)
qed

text \<open>The view of a page of the range afterwards.\<close>

definition prot_view :: "u32 \<Rightarrow> (u32 \<times> (nat \<Rightarrow> byte)) option \<Rightarrow> (u32 \<times> (nat \<Rightarrow> byte)) option" where
  "prot_view flags v = (case v of
     None \<Rightarrow> if has flags (P_READ OR P_WRITE OR P_EXEC) then Some (flags OR P_ANONYMOUS, \<lambda>_. 0) else None
   | Some (fl, f) \<Rightarrow> Some (flags OR (fl AND P_META_FLAGS), f))"

definition prot_done :: "u32 \<Rightarrow> nat \<Rightarrow> nat \<Rightarrow> space \<Rightarrow> space \<Rightarrow> bool" where
  "prot_done flags page fin s s' \<longleftrightarrow>
     (\<forall>q < MEM_PAGES. page \<le> q \<longrightarrow> q < fin \<longrightarrow> page_view s' q = prot_view flags (page_view s q))"

lemma meta_flags_keep:
  assumes "\<not> has flags P_SHARED"
  shows "has (flags OR (fl AND P_META_FLAGS)) P_SHARED = has fl P_SHARED"
    "has fl P_COW \<Longrightarrow> has (flags OR (fl AND P_META_FLAGS)) P_COW"
  using assms by (auto simp: flag_simps)

text \<open>One part of the range done, and then the rest.\<close>

lemma prot_done_join:
  assumes "touches {q. page \<le> q \<and> q < mid} s s1" "as_inv oth {} s" "as_inv oth {} s1"
    "touches {q. mid \<le> q \<and> q < fin} s1 s'" "as_inv oth {} s'"
    "prot_done flags page mid s s1" "prot_done flags mid fin s1 s'"
  shows "prot_done flags page fin s s'"
  unfolding prot_done_def
proof (intro allI impI)
  fix q assume q: "q < MEM_PAGES" "page \<le> q" "q < fin"
  show "page_view s' q = prot_view flags (page_view s q)"
  proof (cases "q < mid")
    case True
    then have "page_view s' q = page_view s1 q" using touches_view[OF assms(4,3,5) q(1)] by simp
    then show ?thesis using True assms(6) q by (simp add: prot_done_def)
  next
    case False
    then have "page_view s1 q = page_view s q" using touches_view[OF assms(1,2,3) q(1)] by simp
    then show ?thesis using False assms(7) q by (simp add: prot_done_def)
  qed
qed

lemma set_flags_loop_spec:
  assumes "as_inv oth {} s" "fin \<le> MEM_PAGES" "\<not> has flags P_SHARED"
  shows "\<exists>r s'. set_flags_loop hostprot flags page fin s = Some (r, s') \<and> as_inv oth {} s'
     \<and> touches {q. page \<le> q \<and> q < fin} s s'
     \<and> (h_alloc (snd s) \<and> (\<forall>q. hostprot q = None) \<longrightarrow> r = 0 \<and> prot_done flags page fin s s')"
  using assms
proof (induction hostprot flags page fin s rule: set_flags_loop.induct)
  case (1 hostprot flags page fin s)
  note step = set_flags_loop.simps[of hostprot flags page fin s]
  note inv = "1.prems"(1) and fin = "1.prems"(2) and ns = "1.prems"(3)
  let ?goal = "\<lambda>page s r s'. as_inv oth {} s' \<and> touches {q. page \<le> q \<and> q < fin} s s'
     \<and> (h_alloc (snd s) \<and> (\<forall>q. hostprot q = None) \<longrightarrow> r = 0 \<and> prot_done flags page fin s s')"
  have join: "?goal page s r s'"
    if one: "as_inv oth {} s1" "touches {q. page \<le> q \<and> q < mid} s s1"
        "h_alloc (snd s) \<and> (\<forall>q. hostprot q = None) \<longrightarrow> prot_done flags page mid s s1"
      and rest: "?goal mid s1 r s'" and mid: "page \<le> mid" "mid \<le> fin" for mid s1 r s'
  proof (intro conjI impI)
    have "touches ({q. page \<le> q \<and> q < mid} \<union> {q. mid \<le> q \<and> q < fin}) s s'"
      using touches_trans[OF one(2)] rest by blast
    then show "touches {q. page \<le> q \<and> q < fin} s s'" by (rule touches_mono) (use mid in auto)
    have al: "h_alloc (snd s1) = h_alloc (snd s)" using one(2) by (simp add: touches_def keeps_def)
    assume h: "h_alloc (snd s) \<and> (\<forall>q. hostprot q = None)"
    then show "r = 0" using rest al by simp
    show "prot_done flags page fin s s'"
      using prot_done_join[OF one(2) inv one(1), of fin s'] one(3) rest h al by blast
  qed (use rest in blast)
  show ?case
  proof (cases "page < fin")
    case False
    have "as_inv oth {} (mem_changed (fst s), snd s)"
      by (rule as_inv_fields[of oth "{}" "fst s" "snd s"]) (use inv in \<open>simp_all add: mem_changed_def\<close>)
    moreover have "touches {q. page \<le> q \<and> q < fin} s (mem_changed (fst s), snd s)"
      by (auto simp: touches_def keeps_refl tidy_def)
    ultimately show ?thesis using step False by (simp add: prot_done_def)
  next
    case lt: True
    show ?thesis
    proof (cases "mem_pt (fst s) page")
      case absent: None
      have none: "page_view s q = None" if "mem_pt (fst s) q = None" for q using that by (simp add: page_view_def)
      show ?thesis
      proof (cases "has flags (P_READ OR P_WRITE OR P_EXEC)")
        case rwx: True
        define e where "e = run_end (fst s) page fin"
        have e: "e < fin" "\<And>q. page \<le> q \<Longrightarrow> q \<le> e \<Longrightarrow> mem_pt (fst s) q = None" "page \<le> e"
          using run_end_spec[OF lt absent] run_end_ge[of page "fst s" fin] by (auto simp: e_def)
        have len: "page + (e - page + 1) = e + 1" using e(3) by simp
        obtain r s1 where s1: "pt_map_nothing s page (e - page + 1) (flags OR P_ANONYMOUS) = Some (r, s1)"
            "as_inv oth {} s1" "touches {q. page \<le> q \<and> q < e + 1} s s1" "h_alloc (snd s) \<longrightarrow> r = 0"
            "\<forall>q < MEM_PAGES. r = 0 \<and> page \<le> q \<and> q < e + 1 \<longrightarrow>
               page_view s1 q = Some ((flags OR P_ANONYMOUS) OR P_ANONYMOUS, \<lambda>_. 0)"
          using pt_map_nothing_zero[OF inv, of page "e - page + 1" "flags OR P_ANONYMOUS"] e(1) fin
          unfolding len by auto
        have done1: "h_alloc (snd s) \<and> (\<forall>q. hostprot q = None) \<longrightarrow> prot_done flags page (e + 1) s s1"
          using s1(4,5) e(2) none rwx by (auto simp: prot_done_def prot_view_def or.assoc)
        obtain r' s' where s': "set_flags_loop hostprot flags (e + 1) fin s1 = Some (r', s')" "?goal (e + 1) s1 r' s'"
          using "1.IH"(1)[OF lt absent rwx e_def s1(1) refl s1(2) fin ns] by blast
        have "set_flags_loop hostprot flags page fin s = Some (r', s')"
          using step lt absent rwx s1(1) s'(1) by (simp add: Let_def flip: e_def)
        then show ?thesis using join[OF s1(2,3) done1 s'(2)] e(1,3) by simp
      next
        case False
        obtain r' s' where s': "set_flags_loop hostprot flags (page + 1) fin s = Some (r', s')" "?goal (page + 1) s r' s'"
          using "1.IH"(2)[OF lt absent False inv fin ns] by blast
        have "prot_done flags page (page + 1) s s"
          using False absent none by (auto simp: prot_done_def prot_view_def le_less_Suc_eq)
        then show ?thesis
          using step lt absent False s'(1) join[OF inv touches_refl _ s'(2)] by simp
      qed
    next
      case (Some entry)
      let ?fl = "flags OR (e_flags entry AND P_META_FLAGS)"
      have p: "page < MEM_PAGES" using lt fin by simp
      obtain s1 where s1: "assign_flags page ?fl s = Some s1" "as_inv oth {} s1" "touches {page} s s1" "snd s1 = snd s"
          "\<forall>q < MEM_PAGES. mem_pt (fst s1) q = (if q = page then Some (entry\<lparr>e_flags := ?fl\<rparr>) else mem_pt (fst s) q)"
        using assign_flags_spec[OF inv p Some meta_flags_keep[OF ns]] by blast
      have one: "touches {q. page \<le> q \<and> q < page + 1} s s1" by (rule touches_mono[OF s1(3)]) simp
      have "page_view s1 page = prot_view flags (page_view s page)"
        using Some s1(4,5) p live_data[OF inv Some p] by (auto simp: page_view_def prot_view_def)
      then have done1: "prot_done flags page (page + 1) s s1" by (auto simp: prot_done_def le_less_Suc_eq)
      show ?thesis
      proof (cases "has (flags AND NOT (e_flags entry)) (P_READ OR P_WRITE) \<and> hostprot page \<noteq> None")
        case True
        then obtain err where "hostprot page = Some err" by auto
        then have "set_flags_loop hostprot flags page fin s = Some (err, s1)" using step lt Some s1(1) True by simp
        moreover have "touches {q. page \<le> q \<and> q < fin} s s1" by (rule touches_mono[OF s1(3)]) (use lt in simp)
        ultimately show ?thesis using s1(2) True by auto
      next
        case go: False
        have "\<exists>r' s'. set_flags_loop hostprot flags (page + 1) fin s1 = Some (r', s') \<and> ?goal (page + 1) s1 r' s'"
          using go "1.IH"(3)[OF lt Some s1(1) _ _ s1(2) fin ns] "1.IH"(4)[OF lt Some s1(1) _ s1(2) fin ns]
          by (cases "has (flags AND NOT (e_flags entry)) (P_READ OR P_WRITE)") auto
        then obtain r' s' where s': "set_flags_loop hostprot flags (page + 1) fin s1 = Some (r', s')"
            "?goal (page + 1) s1 r' s'" by blast
        have "set_flags_loop hostprot flags page fin s = Some (r', s')"
          using step lt Some s1(1) go s'(1) by (auto split: option.splits)
        then show ?thesis using join[OF s1(2) one _ s'(2)] done1 lt by simp
      qed
    qed
  qed
qed

end
