(* ===== verification/Memory_Map.thy ===== *)
theory Memory_Map
  imports User_Props Address_Protect
begin

text \<open>
  Finding holes (\<^verbatim>\<open>kernel/memory.c\<close>) and the memory system calls (\<^verbatim>\<open>kernel/mmap.c\<close>). A call's result is
  the C result as an integer: an address, 0, or a negative error. Lengths and addresses are naturals with
  their wrap-around written out. Tracing and the environment variables that turn it on are left out.
\<close>

section \<open>Holes\<close>

definition MMAP_HOLE_START :: nat where "MMAP_HOLE_START = 0xefffd"
definition MMAP_HOLE_END :: nat where "MMAP_HOLE_END = 0x100"
definition USER_ADDR_MAX_PAGE :: nat where "USER_ADDR_MAX_PAGE = 0xFFFFFFFFF"

definition hole_overlaps_reservation :: "mem \<Rightarrow> nat \<Rightarrow> nat \<Rightarrow> bool" where
  "hole_overlaps_reservation m start n =
     (\<exists>r \<in> set (reservations m). r_start r < start + n \<and> start < r_start r + r_pages r)"

text \<open>The base of the largest empty subtree \<open>page\<close> is in, if it is in one.\<close>

definition empty_base :: "mem \<Rightarrow> nat \<Rightarrow> nat option" where
  "empty_base m page =
     (let b0 = PT_INDEX page 0 * 2 ^ (PT_BITS * 3);
          b1 = b0 + PT_INDEX page 1 * 2 ^ (PT_BITS * 2);
          b2 = b1 + PT_INDEX page 2 * 2 ^ PT_BITS
      in case pgdir m of None \<Rightarrow> Some b0 | Some l0 \<Rightarrow>
         (case l0 (PT_INDEX page 0) of None \<Rightarrow> Some b0 | Some l1 \<Rightarrow>
         (case l1 (PT_INDEX page 1) of None \<Rightarrow> Some b1 | Some l2 \<Rightarrow>
         (case l2 (PT_INDEX page 2) of None \<Rightarrow> Some b2 | Some l3 \<Rightarrow> None))))"

lemma index_sum_le:
  "PT_INDEX page 0 * 2 ^ 27 + PT_INDEX page 1 * 2 ^ 18 + PT_INDEX page 2 * 2 ^ 9 + PT_INDEX page 3 \<le> page"
proof -
  have m: "page mod MEM_PAGES < MEM_PAGES" by (simp add: MEM_PAGES_def)
  have "page mod MEM_PAGES \<le> page" by simp
  then show ?thesis using index_decompose[OF m] unfolding index_mod by linarith
qed

lemma empty_base_le: "empty_base m page = Some base \<Longrightarrow> base \<le> page"
  using index_sum_le[of page] by (auto simp: empty_base_def Let_def PT_BITS_def split: option.splits)

text \<open>\<open>hole\<close> is \<^verbatim>\<open>hole_end\<close> while \<^verbatim>\<open>in_hole\<close>.\<close>

function find_hole_loop :: "mem \<Rightarrow> nat \<Rightarrow> nat \<Rightarrow> nat option \<Rightarrow> nat" where
  "find_hole_loop m n page hole =
     (if MMAP_HOLE_END < page then
        let he = (case hole of None \<Rightarrow> page + 1 | Some e \<Rightarrow> e)
        in (case empty_base m page of
              Some base \<Rightarrow>
                if he - (if base > MMAP_HOLE_END then base else MMAP_HOLE_END + 1) \<ge> n then he - n
                else if base = 0 then BAD_PAGE
                else find_hole_loop m n (base - 1) (Some he)
            | None \<Rightarrow>
                if mem_pt m page \<noteq> None then find_hole_loop m n (page - 1) None
                else if he - page \<ge> n then page
                else find_hole_loop m n (page - 1) (Some he))
      else BAD_PAGE)"
  by pat_completeness auto
termination
  by (relation "measure (\<lambda>(m, n, page, hole). page)") (auto dest: empty_base_le)

declare find_hole_loop.simps [simp del]

definition pt_find_hole_from :: "mem \<Rightarrow> nat \<Rightarrow> nat \<Rightarrow> nat" where
  "pt_find_hole_from m n start = find_hole_loop m n start None"

text \<open>The search above 4 GB looks at whole top-level subtrees only.\<close>

definition l0_base :: "nat \<Rightarrow> nat" where "l0_base page = PT_INDEX page 0 * 2 ^ (PT_BITS * 3)"

definition l0_end :: "nat \<Rightarrow> nat" where
  "l0_end page = (let e = l0_base page + 2 ^ (PT_BITS * 3) in if e > USER_ADDR_MAX_PAGE then USER_ADDR_MAX_PAGE else e)"

definition l0_occupied :: "mem \<Rightarrow> nat \<Rightarrow> bool" where
  "l0_occupied m page \<longleftrightarrow>
     (case pgdir m of None \<Rightarrow> False | Some l0 \<Rightarrow> l0 (PT_INDEX page 0) \<noteq> None)
     \<or> hole_overlaps_reservation m (l0_base page) (2 ^ (PT_BITS * 3))"

lemma l0_end_gt: "page < USER_ADDR_MAX_PAGE \<Longrightarrow> page < l0_end page"
proof -
  assume p: "page < USER_ADDR_MAX_PAGE"
  then have "page div 2 ^ 27 < 2 ^ 9" by (simp add: USER_ADDR_MAX_PAGE_def div_less_iff_less_mult)
  then have "PT_INDEX page 0 = page div 2 ^ 27" by (simp add: PT_INDEX_def PT_BITS_def PT_ENTRIES_def)
  moreover have "page < page div 2 ^ 27 * 2 ^ 27 + 2 ^ 27" 
  proof -
    have "page mod 2 ^ 27 < 2 ^ 27" "page div 2 ^ 27 * 2 ^ 27 + page mod 2 ^ 27 = page" by simp_all
    then show ?thesis by linarith
  qed
  ultimately show ?thesis using p by (simp add: l0_end_def l0_base_def PT_BITS_def Let_def)
qed

lemma l0_end_less: "page < USER_ADDR_MAX_PAGE \<Longrightarrow> USER_ADDR_MAX_PAGE - l0_end page < USER_ADDR_MAX_PAGE - page"
  by (intro diff_less_mono2 l0_end_gt)

function hole_high_loop :: "mem \<Rightarrow> nat \<Rightarrow> nat \<Rightarrow> nat \<Rightarrow> nat \<Rightarrow> nat" where
  "hole_high_loop m n page hole_start hole_size =
     (if page < USER_ADDR_MAX_PAGE then
        if \<not> l0_occupied m page then
          let start = (if hole_size = 0 then if l0_base page < page then page else l0_base page else hole_start)
          in if l0_end page - start \<ge> n then start
             else hole_high_loop m n (l0_end page) start (l0_end page - start)
        else hole_high_loop m n (l0_end page) hole_start 0
      else BAD_PAGE)"
  by pat_completeness auto
termination
  by (relation "measure (\<lambda>(m, n, page, hs, sz). USER_ADDR_MAX_PAGE - page)") (auto intro: l0_end_less)

declare hole_high_loop.simps [simp del]

definition pt_find_hole_high :: "mem \<Rightarrow> nat \<Rightarrow> nat" where
  "pt_find_hole_high m n = hole_high_loop m n 0x100000 0x100000 0"

text \<open>
  One of the two retry loops of \<^verbatim>\<open>pt_find_hole_impl\<close>: at most \<open>attempts\<close> candidates, each below the
  reservation the one before overlaps. The second result is \<^verbatim>\<open>start\<close> afterwards.
\<close>

fun hole_attempts :: "nat \<Rightarrow> mem \<Rightarrow> nat \<Rightarrow> nat \<Rightarrow> nat option \<times> nat" where
  "hole_attempts 0 m n start = (None, start)"
| "hole_attempts (Suc k) m n start =
     (let result = pt_find_hole_from m n start
      in if result = BAD_PAGE then (None, start)
         else if \<not> hole_overlaps_reservation m result n then (Some result, start)
         else hole_attempts k m n
                (case find (\<lambda>r. r_start r < result + n \<and> result < r_start r + r_pages r) (reservations m) of
                   None \<Rightarrow> start | Some r \<Rightarrow> if r_start r > 0 then r_start r - 1 else 0))"

definition set_hint :: "nat \<Rightarrow> mem \<Rightarrow> mem" where
  "set_hint result m = m\<lparr>mmap_hint := (if result > 0 then result - 1 else 0)\<rparr>"

definition hole_above :: "mem \<Rightarrow> nat \<Rightarrow> nat option" where
  "hole_above m n = (let result = pt_find_hole_high m n
     in if result \<noteq> BAD_PAGE \<and> \<not> hole_overlaps_reservation m result n then Some result else None)"

definition hole_below :: "mem \<Rightarrow> nat \<Rightarrow> nat option" where
  "hole_below m n =
     (let hint = mmap_hint m;
          start = (if hint = 0 \<or> hint > MMAP_HOLE_START \<or> hint \<le> MMAP_HOLE_END + n then MMAP_HOLE_START else hint)
      in case hole_attempts 10 m n start of
           (Some r, _) \<Rightarrow> Some r
         | (None, start') \<Rightarrow> if start' < MMAP_HOLE_START then fst (hole_attempts 10 m n MMAP_HOLE_START) else None)"

definition pt_find_hole_impl :: "mem \<Rightarrow> nat \<Rightarrow> bool \<Rightarrow> nat \<times> mem" where
  "pt_find_hole_impl m n prefer_high =
     (case (if prefer_high then hole_above m n else None) of
        Some r \<Rightarrow> (r, m)
      | None \<Rightarrow>
          (case hole_below m n of
             Some r \<Rightarrow> (r, set_hint r m)
           | None \<Rightarrow> (case (if \<not> prefer_high then hole_above m n else None) of
               Some r \<Rightarrow> (r, m) | None \<Rightarrow> (BAD_PAGE, m))))"

definition pt_find_hole :: "mem \<Rightarrow> nat \<Rightarrow> nat \<times> mem" where
  "pt_find_hole m n = pt_find_hole_impl m n False"

definition pt_find_hole_for_reservation :: "mem \<Rightarrow> nat \<Rightarrow> nat \<times> mem" where
  "pt_find_hole_for_reservation m n = pt_find_hole_impl m n True"

section \<open>Mapping\<close>

definition MMAP_SHARED :: u32 where "MMAP_SHARED = 1"
definition MMAP_PRIVATE :: u32 where "MMAP_PRIVATE = 2"
definition MMAP_FIXED :: u32 where "MMAP_FIXED = 16"
definition MMAP_ANONYMOUS :: u32 where "MMAP_ANONYMOUS = 32"
definition MMAP_NORESERVE :: u32 where "MMAP_NORESERVE = 16384"
definition P_RWX :: u32 where "P_RWX = P_READ OR P_WRITE OR P_EXEC"
definition ANON_MMAP_LIMIT_PAGES :: int where "ANON_MMAP_LIMIT_PAGES = 1048576"

text \<open>
  What the descriptor argument is: not open, a file that cannot be mapped, or a description and its
  \<^verbatim>\<open>mmap\<close> operation, which belongs to its file system.
\<close>

datatype file_arg =
    NoFd
  | NoMmap
  | MmapFd nat "space \<Rightarrow> nat \<Rightarrow> nat \<Rightarrow> nat \<Rightarrow> u32 \<Rightarrow> u32 \<Rightarrow> (int \<times> space) option"

text \<open>
  Where a request for \<open>addr\<close> goes: an error, the page asked for, or (\<open>Inr None\<close>) wherever there is a hole.
\<close>

definition mmap_hint_page :: "mem \<Rightarrow> nat \<Rightarrow> nat \<Rightarrow> u32 \<Rightarrow> errno + nat option" where
  "mmap_hint_page m addr pages flags =
     (if addr = 0 then Inr None
      else if addr mod PAGE_BYTES \<noteq> 0 then Inl EINVAL
      else let page = addr div PAGE_BYTES
           in if page + pages > (if page < 0x100000 then STACK_TOP_PAGE else USER_ADDR_MAX_PAGE) then
                if has flags MMAP_FIXED then Inl ENOMEM else Inr None
              else if \<not> has flags MMAP_FIXED \<and> \<not> pt_is_hole m page pages then Inr None
              else Inr (Some page))"

definition mmap_place :: "mem \<Rightarrow> nat \<Rightarrow> nat \<Rightarrow> u32 \<Rightarrow> u32 \<Rightarrow> errno + nat \<times> mem" where
  "mmap_place m addr pages prot flags =
     (case mmap_hint_page m addr pages flags of
        Inl e \<Rightarrow> Inl e
      | Inr (Some page) \<Rightarrow> Inr (page, m)
      | Inr None \<Rightarrow>
          let cage = (prot = 0 \<and> has flags MMAP_PRIVATE \<and> has flags MMAP_ANONYMOUS
                        \<and> \<not> has flags MMAP_SHARED \<and> pages \<ge> 0x8000);
              (page, m') = (if cage then pt_find_hole_for_reservation m pages else pt_find_hole m pages)
          in if page = BAD_PAGE then Inl ENOMEM else Inr (page, m'))"

definition mmap_anonymous :: "space \<Rightarrow> nat \<Rightarrow> nat \<Rightarrow> u32 \<Rightarrow> u32 \<Rightarrow> (int \<times> space) option" where
  "mmap_anonymous s page pages prot flags =
     (let m = fst s; h = snd s;
          none = (\<not> has prot P_READ \<and> \<not> has prot P_WRITE \<and> \<not> has prot P_EXEC);
          lazy = (\<lambda>page. case pt_map_lazy (h_alloc h) m page pages prot of
                    (err, m') \<Rightarrow> Some (if err < 0 then err else int (page * PAGE_BYTES), (m', h)))
      in if has flags MMAP_NORESERVE \<and> pages > 0x10000 then
           let align = (if pages > 0x40000 then 0x40000 else pages);
               aligned = page div align * align
           in lazy (if aligned \<ge> MMAP_HOLE_END \<and> pt_is_hole m aligned pages then aligned else page)
         else if none \<and> pages \<ge> 0x8000 then lazy page
         else if \<not> none \<and> h_anon h + int pages > ANON_MMAP_LIMIT_PAGES then Some (ENOMEM, s)
         else
           let counted = (if none then h else anon_add (int pages) h)
           in (case pt_map_nothing (m, counted) page pages prot of
                 None \<Rightarrow> None
               | Some (err, s') \<Rightarrow>
                   if err < 0 then Some (err, (fst s', if none then snd s' else anon_add (- int pages) (snd s')))
                   else Some (int (page * PAGE_BYTES), s')))"

definition set_data_fd :: "nat \<Rightarrow> nat \<Rightarrow> space \<Rightarrow> space option" where
  "set_data_fd f page s = do {
     e \<leftarrow> mem_pt (fst s) page;
     d \<leftarrow> e_data e;
     x \<leftarrow> h_data (snd s) d;
     Some (fst s, (snd s)\<lparr>h_data := (h_data (snd s))(d \<mapsto> x\<lparr>d_fd := Some f\<rparr>),
                          h_retained := f # h_retained (snd s)\<rparr>) }"

definition do_mmap :: "file_arg \<Rightarrow> space \<Rightarrow> nat \<Rightarrow> nat \<Rightarrow> u32 \<Rightarrow> u32 \<Rightarrow> nat \<Rightarrow> (int \<times> space) option" where
  "do_mmap file s addr len prot flags offset =
     (let pages = (len + PAGE_BYTES - 1) mod ADDR_MOD div PAGE_BYTES
      in if pages = 0 then Some (EINVAL, s)
         else case mmap_place (fst s) addr pages prot flags of
           Inl e \<Rightarrow> Some (e, s)
         | Inr (page, m) \<Rightarrow>
             let prot' = (if has flags MMAP_SHARED then prot OR P_SHARED else prot);
                 s' = (m, snd s)
             in if has flags MMAP_ANONYMOUS then mmap_anonymous s' page pages prot' flags
                else (case file of
                        NoFd \<Rightarrow> Some (EBADF, s')
                      | NoMmap \<Rightarrow> Some (ENODEV, s')
                      | MmapFd f op \<Rightarrow>
                          (case op s' page pages offset prot' flags of
                             None \<Rightarrow> None
                           | Some (err, s1) \<Rightarrow>
                               if err < 0 then Some (err, s1)
                               else map_option (Pair (int (page * PAGE_BYTES))) (set_data_fd f page s1))))"

text \<open>The checks the three entry points share. \<^verbatim>\<open>mmap2\<close> and \<^verbatim>\<open>mmap\<close> have 32-bit lengths and offsets.\<close>

definition mmap_common :: "file_arg \<Rightarrow> space \<Rightarrow> nat \<Rightarrow> nat \<Rightarrow> u32 \<Rightarrow> u32 \<Rightarrow> nat \<Rightarrow> (int \<times> space) option" where
  "mmap_common file s addr len prot flags offset =
     (if len = 0 then Some (EINVAL, s)
      else if prot AND NOT P_RWX \<noteq> 0 then Some (EINVAL, s)
      else if has flags MMAP_PRIVATE \<and> has flags MMAP_SHARED then Some (EINVAL, s)
      else do_mmap file s addr len prot flags offset)"

definition sys_mmap2 :: "file_arg \<Rightarrow> space \<Rightarrow> nat \<Rightarrow> nat \<Rightarrow> u32 \<Rightarrow> u32 \<Rightarrow> nat \<Rightarrow> (int \<times> space) option" where
  "sys_mmap2 file s addr len prot flags offset =
     mmap_common file s addr len prot flags (offset * PAGE_BYTES mod 2 ^ 32)"

definition sys_mmap64 :: "file_arg \<Rightarrow> space \<Rightarrow> nat \<Rightarrow> nat \<Rightarrow> u32 \<Rightarrow> u32 \<Rightarrow> nat \<Rightarrow> (int \<times> space) option" where
  "sys_mmap64 file s addr len prot flags offset =
     (if len = 0 then Some (EINVAL, s)
      else if prot AND NOT P_RWX \<noteq> 0 then Some (EINVAL, s)
      else if has flags MMAP_PRIVATE \<and> has flags MMAP_SHARED then Some (EINVAL, s)
      else do_mmap file s addr len prot flags (offset mod 2 ^ 32))"

definition sys_munmap :: "space \<Rightarrow> nat \<Rightarrow> nat \<Rightarrow> (int \<times> space) option" where
  "sys_munmap s addr len =
     (if addr mod PAGE_BYTES \<noteq> 0 then Some (EINVAL, s)
      else if len = 0 then Some (EINVAL, s)
      else map_option (Pair 0)
             (pt_unmap_always s (addr div PAGE_BYTES) ((len + PAGE_BYTES - 1) mod ADDR_MOD div PAGE_BYTES)))"

section \<open>Remapping, protection, advice\<close>

definition MREMAP_MAYMOVE :: u32 where "MREMAP_MAYMOVE = 1"
definition MREMAP_FIXED :: u32 where "MREMAP_FIXED = 2"

text \<open>
  Lengths are 32-bit and \<^verbatim>\<open>PAGE\<close> rounds them down. The flag check of the loop dereferences a null entry.
\<close>

definition sys_mremap :: "space \<Rightarrow> nat \<Rightarrow> nat \<Rightarrow> nat \<Rightarrow> u32 \<Rightarrow> (int \<times> space) option" where
  "sys_mremap s addr old_len new_len flags =
     (let old_pages = old_len div PAGE_BYTES; new_pages = new_len div PAGE_BYTES; page = addr div PAGE_BYTES
      in if addr mod PAGE_BYTES \<noteq> 0 then Some (EINVAL, s)
         else if flags AND NOT (MREMAP_MAYMOVE OR MREMAP_FIXED) \<noteq> 0 then Some (EINVAL, s)
         else if has flags MREMAP_FIXED then Some (EINVAL, s)
         else if new_pages \<le> old_pages then
           map_option (\<lambda>(err, s'). (if err < 0 then EFAULT else int addr, s'))
             (pt_unmap s (page + new_pages) (old_pages - new_pages))
         else (case mem_pt (fst s) page of
             None \<Rightarrow> Some (EFAULT, s)
           | Some entry \<Rightarrow>
               if \<exists>p \<in> set [page..<page + old_pages]. mem_pt (fst s) p = None then None
               else if \<not> has (e_flags entry) P_ANONYMOUS then Some (EFAULT, s)
               else if \<not> pt_is_hole (fst s) (page + old_pages) (new_pages - old_pages) then Some (ENOMEM, s)
               else map_option (\<lambda>(err, s'). (if err < 0 then err else int addr, s'))
                      (pt_map_nothing s (page + old_pages) (new_pages - old_pages) (e_flags entry))))"

definition sys_mprotect :: "(nat \<Rightarrow> errno option) \<Rightarrow> space \<Rightarrow> nat \<Rightarrow> nat \<Rightarrow> u32 \<Rightarrow> (int \<times> space) option" where
  "sys_mprotect hostprot s addr len prot =
     (if addr mod PAGE_BYTES \<noteq> 0 then Some (EINVAL, s)
      else if prot AND NOT P_RWX \<noteq> 0 then Some (EINVAL, s)
      else pt_set_flags hostprot s (addr div PAGE_BYTES)
             ((len + PAGE_BYTES - 1) mod ADDR_MOD div PAGE_BYTES) prot)"

definition MADV_DONTNEED :: u32 where "MADV_DONTNEED = 4"
definition MADV_FREE :: u32 where "MADV_FREE = 8"

text \<open>One page of \<^verbatim>\<open>MADV_DONTNEED\<close>; the first result is \<^verbatim>\<open>any\<close>.\<close>

definition file_backed :: "space \<Rightarrow> pte \<Rightarrow> bool" where
  "file_backed s e \<longleftrightarrow> \<not> has (e_flags e) P_ANONYMOUS
     \<and> (case e_data e of None \<Rightarrow> False | Some d \<Rightarrow>
          (case h_data (snd s) d of None \<Rightarrow> False | Some x \<Rightarrow> d_fd x \<noteq> None))"

definition dontneed_page :: "nat \<Rightarrow> bool \<times> space \<Rightarrow> nat \<Rightarrow> (bool \<times> space) option" where
  "dontneed_page limit = (\<lambda>(any, s) p.
     (case mem_pt (fst s) (p div PAGE_BYTES) of
        None \<Rightarrow> Some (any, s)
      | Some e \<Rightarrow>
          if file_backed s e then Some (any, s)
          else (case mem_ptr limit s p MEM_WRITE of
                  None \<Rightarrow> None
                | Some (None, s1) \<Rightarrow> Some (any, s1)
                | Some (Some ptr, s1) \<Rightarrow>
                    map_option (\<lambda>h. (True, (fst s1, h))) (host_write ptr (replicate PAGE_BYTES 0) (snd s1)))))"

definition sys_madvise :: "nat \<Rightarrow> space \<Rightarrow> nat \<Rightarrow> nat \<Rightarrow> u32 \<Rightarrow> (int \<times> space) option" where
  "sys_madvise limit s addr len advice =
     (let page = addr div PAGE_BYTES; pages = (len + PAGE_BYTES - 1) mod 2 ^ 32 div PAGE_BYTES;
          fin = (addr + len) mod ADDR_MOD
      in if addr mod PAGE_BYTES \<noteq> 0 then Some (EINVAL, s)
         else if \<exists>p \<in> set [page..<page + pages]. mem_pt (fst s) p = None \<and> mem_find_reservation (fst s) p = None
           then Some (ENOMEM, s)
         else if advice = MADV_FREE then Some (0, s)
         else if advice = MADV_DONTNEED then
           map_option (\<lambda>(any, s'). (0, if any then (mem_changed (fst s'), snd s') else s'))
             (iter_opt (dontneed_page limit) (False, s)
               (map (\<lambda>i. addr + i * PAGE_BYTES) [0..<(fin - addr + PAGE_BYTES - 1) div PAGE_BYTES]))
         else Some (0, s))"

definition sys_membarrier :: "int \<Rightarrow> u32 \<Rightarrow> int" where
  "sys_membarrier cmd flags =
     (if flags \<noteq> 0 then EINVAL
      else if cmd = 0 then 1 + 2 + 4 + 8 + 16 + 32 + 64
      else if cmd = 4 \<or> cmd = 16 \<or> cmd = 64 then 0
      else if cmd = 1 \<or> cmd = 2 \<or> cmd = 8 \<or> cmd = 32 then 0
      else EINVAL)"

section \<open>Address-space objects and the break\<close>

record mm =
  mm_refcount :: nat
  mm_mem :: mem
  start_brk :: nat
  brk :: nat
  exefile :: "nat option"

definition mm_new :: "host \<Rightarrow> mm option" where
  "mm_new h = (if \<not> h_alloc h then None
     else Some \<lparr>mm_refcount = 1, mm_mem = mem_init, start_brk = 0, brk = 0, exefile = None\<rparr>)"

text \<open>The outer \<open>None\<close> is a null dereference: a space without an executable cannot be copied.\<close>

definition mm_copy :: "mm \<Rightarrow> host \<Rightarrow> (mm option \<times> mm \<times> host) option" where
  "mm_copy mm h =
     (if \<not> h_alloc h then Some (None, mm, h)
      else do {
        f \<leftarrow> exefile mm;
        (src, dst, h') \<leftarrow> pt_copy_on_write (mm_mem mm, mem_init, h\<lparr>h_retained := f # h_retained h\<rparr>) 0 MEM_PAGES;
        Some (Some (mm\<lparr>mm_mem := dst, mm_refcount := 1\<rparr>), mm\<lparr>mm_mem := src\<rparr>, h') })"

definition mm_retain :: "mm \<Rightarrow> mm" where
  "mm_retain mm = mm\<lparr>mm_refcount := mm_refcount mm + 1\<rparr>"

definition mem_destroy :: "space \<Rightarrow> space option" where
  "mem_destroy s = map_option (\<lambda>(m, h). (m\<lparr>reservations := [], pgdir := None\<rparr>, h)) (pt_unmap_always s 0 MEM_PAGES)"

text \<open>\<open>Inl\<close> is the heap after the last reference went, \<open>Inr\<close> the object that remains.\<close>

definition mm_release :: "mm \<Rightarrow> host \<Rightarrow> (host + mm) option" where
  "mm_release mm h =
     (if mm_refcount mm = 1 then
        let h1 = (case exefile mm of None \<Rightarrow> h | Some f \<Rightarrow> h\<lparr>h_closed := f # h_closed h\<rparr>)
        in map_option (\<lambda>(m, h2). Inl h2) (mem_destroy (mm_mem mm, h1))
      else Some (Inr (mm\<lparr>mm_refcount := mm_refcount mm - 1\<rparr>)))"

definition PAGE_ROUND_UP :: "nat \<Rightarrow> nat" where
  "PAGE_ROUND_UP n = (n + PAGE_BYTES - 1) mod ADDR_MOD div PAGE_BYTES"

text \<open>
  A break within a page of \<open>2 ^ 64\<close> rounds to page 0. The number of pages then wraps in C to a range so long that
  its end wraps too, which no properties here concern: they take breaks below the end of the guest's range.
\<close>

definition sys_brk :: "mm \<Rightarrow> host \<Rightarrow> nat \<Rightarrow> (nat \<times> mm \<times> host) option" where
  "sys_brk mm h new_brk =
     (let old = brk mm; out = Some (brk mm, mm, h)
      in if new_brk < start_brk mm then out
         else if new_brk > old then
           let start = PAGE_ROUND_UP old; n = size_sub (PAGE_ROUND_UP new_brk) start
           in if \<not> pt_is_hole (mm_mem mm) start n then out
              else if h_anon h + int n > ANON_MMAP_LIMIT_PAGES then out
              else (case pt_map_nothing (mm_mem mm, anon_add (int n) h) start n P_WRITE of
                      None \<Rightarrow> None
                    | Some (err, m', h') \<Rightarrow>
                        if err < 0 then Some (brk mm, mm\<lparr>mm_mem := m'\<rparr>, anon_add (- int n) h')
                        else Some (new_brk, mm\<lparr>mm_mem := m', brk := new_brk\<rparr>, h'))
         else if new_brk < old \<and> PAGE_ROUND_UP new_brk < PAGE_ROUND_UP old then
           (case pt_unmap_always (mm_mem mm, h) (PAGE_ROUND_UP new_brk) (PAGE_ROUND_UP old - PAGE_ROUND_UP new_brk) of
              None \<Rightarrow> None
            | Some (m', h') \<Rightarrow> Some (new_brk, mm\<lparr>mm_mem := m', brk := new_brk\<rparr>, h'))
         else Some (new_brk, mm\<lparr>brk := new_brk\<rparr>, h))"

end
