(* ===== verification/Fork_Isolation.thy ===== *)
theory Fork_Isolation
  imports User_Props Address_Protect
begin

text \<open>
  What one process can do to the memory of another after a fork. The operations are those of
  \<open>Address_Space\<close> and \<open>User_Memory\<close>; a run is any sequence of them by one of the two processes.
\<close>

section \<open>Operations of one process\<close>

datatype mem_op =
    OpWrite nat "byte list"
  | OpRead nat nat
  | OpMap nat nat u32 "nat \<Rightarrow> byte"
  | OpUnmap nat nat
  | OpProtect nat nat u32

definition op_ok :: "mem_op \<Rightarrow> bool" where
  "op_ok op = (case op of
     OpWrite a bs \<Rightarrow> a + length bs \<le> USER_TOP
   | OpRead a n \<Rightarrow> a + n \<le> USER_TOP
   | OpMap st n fl f \<Rightarrow> 0 < n \<and> st + n \<le> MEM_PAGES
   | OpUnmap st n \<Rightarrow> st + n \<le> MEM_PAGES
   | OpProtect st n fl \<Rightarrow> st + n \<le> MEM_PAGES \<and> \<not> has fl P_SHARED)"

definition run_op :: "nat \<Rightarrow> space \<Rightarrow> mem_op \<Rightarrow> space option" where
  "run_op limit s op = (case op of
     OpWrite a bs \<Rightarrow> map_option snd (user_write_mem limit MEM_WRITE (a + length bs) a bs s)
   | OpRead a n \<Rightarrow> map_option (snd \<circ> snd) (user_read_mem limit (a + n) a [] s)
   | OpMap st n fl f \<Rightarrow> map_option snd (pt_map s st n (Inr f) 0 fl)
   | OpUnmap st n \<Rightarrow> pt_unmap_always s st n
   | OpProtect st n fl \<Rightarrow> map_option snd (pt_set_flags (\<lambda>_. None) s st n fl))"

section \<open>One step beside another space\<close>

lemma unmap_touches:
  assumes inv: "as_inv oth {} s" and r: "start + pages \<le> MEM_PAGES"
  shows "\<exists>s'. pt_unmap_always s start pages = Some s' \<and> as_inv oth {} s' \<and> touches UNIV s s'"
proof -
  obtain s' where s': "pt_unmap_always s start pages = Some s'" "as_inv oth {} s'" "keeps (snd s) (snd s')"
      "\<forall>q < MEM_PAGES. mem_pt (fst s') q = (if start \<le> q \<and> q < start + pages then None else mem_pt (fst s) q)"
    using pt_unmap_always_inv[OF inv r] by auto
  have "tidy (fst s')" if "tidy (fst s)"
  proof (rule tidy_from[OF that])
    fix q e' assume "q < MEM_PAGES" "mem_pt (fst s') q = Some e'"
    then show "\<exists>e. mem_pt (fst s) q = Some e \<and> e_data e' = e_data e \<and> e_offset e' = e_offset e
        \<and> has (e_flags e') P_SHARED = has (e_flags e) P_SHARED" using s'(4) by (auto split: if_splits)
  qed
  then have "touches UNIV s s'" using s'(3,4) by (auto simp: touches_def split: if_splits)
  then show ?thesis using s' by blast
qed

definition beside :: "mem \<Rightarrow> space \<Rightarrow> bool" where
  "beside b s \<longleftrightarrow> two_spaces (fst s) b (snd s) \<and> cow_marked (fst s) b \<and> tidy (fst s) \<and> h_alloc (snd s)"

text \<open>The pages of \<open>b\<close> that are not shared with anyone look the same.\<close>

definition private_same :: "mem \<Rightarrow> space \<Rightarrow> space \<Rightarrow> bool" where
  "private_same b s s' \<longleftrightarrow> (\<forall>q < MEM_PAGES. \<forall>e. mem_pt b q = Some e \<longrightarrow> \<not> has (e_flags e) P_SHARED \<longrightarrow>
     page_view (b, snd s') q = page_view (b, snd s) q)"

lemma private_same_refl: "private_same b s s"
  by (simp add: private_same_def)

lemma private_same_trans: "private_same b s1 s2 \<Longrightarrow> private_same b s2 s3 \<Longrightarrow> private_same b s1 s3"
  by (simp add: private_same_def)

text \<open>The mappings of \<open>b\<close> are older than any that a step of the other space makes.\<close>

lemma touches_cow_marked:
  assumes t: "touches UNIV s s'" and two: "two_spaces (fst s) b (snd s)" and c: "cow_marked (fst s) b"
  shows "cow_marked (fst s') b"
  unfolding cow_marked_def
proof (intro allI impI)
  fix p q e f assume a: "p < MEM_PAGES" "q < MEM_PAGES" "mem_pt (fst s') p = Some e" "mem_pt b q = Some f" "e_data e = e_data f"
  have inv: "as_inv (data_refs (fst s)) {} (b, snd s)" using two_spaces_swap[OF two] by (simp add: two_spaces_def)
  obtain d where d: "e_data f = Some d" "d < h_next (snd s)"
    using live_data[OF inv, of q f] data_below_next[OF inv, of q f] a(2,4) by auto
  obtain e0 where e0: "mem_pt (fst s) p = Some e0" "came_from e0 e"
    using touches_entry[OF t a(1,3)] a(5) d by auto
  then have "guarded e0 \<and> guarded f \<and> has (e_flags e0) P_SHARED = has (e_flags f) P_SHARED"
    using c a(1,2,4,5) by (auto simp: cow_marked_def came_from_def)
  then show "guarded e \<and> guarded f \<and> has (e_flags e) P_SHARED = has (e_flags f) P_SHARED"
    using e0(2) by (auto simp: guarded_def came_from_def)
qed

lemma beside_touches:
  assumes b: "beside b s" and t: "touches UNIV s s'" and inv: "as_inv (data_refs b) {} s'"
  shows "beside b s' \<and> private_same b s s'"
proof
  have two: "two_spaces (fst s) b (snd s)" "two_spaces (fst s') b (snd s')"
    using b inv by (simp_all add: beside_def two_spaces_def)
  show "beside b s'"
    using b two touches_cow_marked[OF t two(1)] touches_tidy[OF t] touched_alloc[OF t] by (simp add: beside_def)
  have k: "keeps (snd s) (snd s')" using t by (simp add: touches_def)
  show "private_same b s s'" using other_view_unchanged[OF two k] by (simp add: private_same_def)
qed

text \<open>A store reaches mappings of \<open>b\<close> only through a shared page.\<close>

lemma beside_store:
  assumes b: "beside b (m, h)" and p: "p < MEM_PAGES" and e: "mem_pt m p = Some e" "e_data e = Some d"
    and w: "P_WRITABLE (e_flags e)"
    and h: "as_inv (data_refs b) {} (m, h')" "h_alloc h' = h_alloc h" "\<forall>c. c \<noteq> d \<longrightarrow> h_data h' c = h_data h c"
  shows "beside b (m, h') \<and> private_same b (m, h) (m, h')"
proof
  show "beside b (m, h')" using b h(1,2) by (simp add: beside_def two_spaces_def)
  have "e_data f \<noteq> Some d" if q: "q < MEM_PAGES" "mem_pt b q = Some f" "\<not> has (e_flags f) P_SHARED" for q f
  proof
    assume "e_data f = Some d"
    then have "guarded e \<and> has (e_flags e) P_SHARED = has (e_flags f) P_SHARED"
      using b p e q(1,2) unfolding beside_def cow_marked_def fst_conv by metis
    then show False using w q(3) by (auto simp: guarded_def P_WRITABLE_def)
  qed
  then have "page_view (b, h') q = page_view (b, h) q"
    if q: "q < MEM_PAGES" "mem_pt b q = Some f" "\<not> has (e_flags f) P_SHARED" for q f
  proof (cases "e_data f")
    case (Some c)
    then have "h_data h' c = h_data h c" using h(3) \<open>\<And>q f. \<lbrakk>q < MEM_PAGES; mem_pt b q = Some f; \<not> has (e_flags f) P_SHARED\<rbrakk>
      \<Longrightarrow> e_data f \<noteq> Some d\<close>[OF q] by auto
    then show ?thesis using q(2) Some by (simp add: page_view_def)
  qed (use q(2) in \<open>simp add: page_view_def\<close>)
  then show "private_same b (m, h) (m, h')" by (simp add: private_same_def)
qed

lemma user_write_beside:
  assumes "beside b s" "p + length buf = fin" "fin \<le> USER_TOP" "user_write_mem limit MEM_WRITE fin p buf s = Some (r, s')"
  shows "beside b s' \<and> private_same b s s'"
  using assms
proof (induction limit "MEM_WRITE" fin p buf s rule: user_write_mem.induct)
  case (1 limit fin p buf s)
  note step = user_write_mem.simps[of limit MEM_WRITE fin p buf s]
  show ?case
  proof (cases "p < fin")
    case False
    then show ?thesis using step "1.prems" private_same_refl by auto
  next
    case lt: True
    have a: "p < USER_TOP" using lt "1.prems"(3) by simp
    have inv: "as_inv (data_refs b) {} s" "h_alloc (snd s)" using "1.prems"(1) by (simp_all add: beside_def two_spaces_def)
    obtain ptr s1 where 1: "mem_ptr limit s p MEM_WRITE = Some (ptr, s1)" "as_inv (data_refs b) {} s1" "touches UNIV s s1"
        "\<forall>d off. ptr = Some (d, off) \<longrightarrow> (\<exists>e. mem_pt (fst s1) (p div PAGE_BYTES) = Some e
          \<and> e_data e = Some d \<and> off = e_offset e + p mod PAGE_BYTES
          \<and> (writes MEM_WRITE \<longrightarrow> P_WRITABLE (e_flags e) \<and> \<not> has (e_flags e) P_CODE))"
      using mem_ptr_spec[OF inv(1) a inv(2), of limit MEM_WRITE] by (elim exE conjE) (rule that)
    have b1: "beside b s1" "private_same b s s1" using beside_touches[OF "1.prems"(1) 1(3,2)] by simp_all
    show ?thesis
    proof (cases ptr)
      case None
      then show ?thesis using step lt 1(1) "1.prems"(4) b1 by simp
    next
      case (Some w)
      obtain d off where w: "w = (d, off)" by force
      obtain e where e: "mem_pt (fst s1) (p div PAGE_BYTES) = Some e" "e_data e = Some d"
          "off = e_offset e + p mod PAGE_BYTES" "P_WRITABLE (e_flags e)"
        using 1(4) Some w by (auto simp: writes_def)
      obtain n where n: "chunk_len fin p = Some n" "0 < n" "p mod PAGE_BYTES + n \<le> PAGE_BYTES" "p + n \<le> fin"
        using chunk_in_page[OF lt "1.prems"(3)] by blast
      have s1: "as_inv (data_refs b) {} (fst s1, snd s1)" "tidy (fst s1)" "beside b (fst s1, snd s1)"
        using 1(2) b1(1) by (simp_all add: beside_def)
      have len: "p mod PAGE_BYTES + length (take n buf) \<le> PAGE_BYTES" using n(3) by simp
      obtain h where h: "host_write (d, off) (take n buf) (snd s1) = Some h" "as_inv (data_refs b) {} (fst s1, h)"
          "h_alloc h = h_alloc (snd s1)" "\<forall>c. c \<noteq> d \<longrightarrow> h_data h c = h_data (snd s1) c"
        using host_write_spec[OF s1(1,2) user_page[OF a] e(1,2) len] e(3) by blast
      have b2: "beside b (fst s1, h)" "private_same b s1 (fst s1, h)"
        using beside_store[OF s1(3) user_page[OF a] e(1,2,4) h(2-4)] by simp_all
      have rest: "user_write_mem limit MEM_WRITE fin (p + n) (drop n buf) (fst s1, h) = Some (r, s')"
        using step lt 1(1) Some w n(1) h(1) "1.prems"(4) by simp
      have "beside b s' \<and> private_same b (fst s1, h) s'"
        using "1.hyps"[OF lt 1(1) refl Some[unfolded w] n(1) h(1) b2(1) _ "1.prems"(3) rest] "1.prems"(2) n(4) by simp
      then show ?thesis using b1(2) b2(2) private_same_trans by blast
    qed
  qed
qed

lemma pt_set_flags_spec:
  assumes "as_inv oth {} s" "start + pages \<le> MEM_PAGES" "\<not> has flags P_SHARED"
  shows "\<exists>r s'. pt_set_flags hostprot s start pages flags = Some (r, s') \<and> as_inv oth {} s'
     \<and> touches {q. start \<le> q \<and> q < start + pages} s s'"
proof (cases "\<exists>page \<in> set [start..<start + pages].
    mem_pt (fst s) page = None \<and> mem_find_reservation (fst s) page = None")
  case True
  then have "pt_set_flags hostprot s start pages flags = Some (ENOMEM, s)" unfolding pt_set_flags_def by (rule if_P)
  then show ?thesis using assms(1) touches_refl by blast
next
  case False
  then have "pt_set_flags hostprot s start pages flags = set_flags_loop hostprot flags start (start + pages) s"
    unfolding pt_set_flags_def by (rule if_not_P)
  then show ?thesis using set_flags_loop_spec[OF assms, of hostprot start] by auto
qed

lemma run_op_beside:
  assumes b: "beside b s" and ok: "op_ok op"
  shows "\<exists>s'. run_op limit s op = Some s' \<and> beside b s' \<and> private_same b s s'"
proof -
  have inv: "as_inv (data_refs b) {} s" "tidy (fst s)" "h_alloc (snd s)"
    using b by (simp_all add: beside_def two_spaces_def)
  have via: ?thesis if "run_op limit s op = Some s'" "as_inv (data_refs b) {} s'" "touches UNIV s s'" for s'
    using that beside_touches[OF b] by blast
  show ?thesis
  proof (cases op)
    case (OpWrite a bs)
    then have top: "a + length bs \<le> USER_TOP" using ok by (simp add: op_ok_def)
    obtain r s' where w: "user_write_mem limit MEM_WRITE (a + length bs) a bs s = Some (r, s')"
      using user_write_spec[OF inv refl top, of MEM_WRITE limit] by (auto simp: writes_def)
    then show ?thesis using OpWrite user_write_beside[OF b refl top w] by (simp add: run_op_def)
  next
    case (OpRead a n)
    then have top: "a + n \<le> USER_TOP" using ok by (simp add: op_ok_def)
    obtain r bs s' where "user_read_mem limit (a + n) a [] s = Some (r, [] @ bs, s')" "as_inv (data_refs b) {} s'"
        "touches UNIV s s'"
      using user_read_spec[OF inv(1,3) top, of limit a "[]"] by (elim exE conjE) (rule that)
    then show ?thesis using OpRead via by (simp add: run_op_def)
  next
    case (OpMap st n fl f)
    then have r: "st + n \<le> MEM_PAGES" "0 < n" using ok by (simp_all add: op_ok_def)
    obtain s' where s': "pt_map s st n (Inr f) 0 fl = Some (0, s')" "as_inv (data_refs b) {} s'" "keeps (snd s) (snd s')"
        "\<forall>q < MEM_PAGES. mem_pt (fst s') q = (if st \<le> q \<and> q < st + n
            then Some (map_entry (h_next (snd s)) st 0 fl q) else mem_pt (fst s) q)"
      using pt_map_inv[OF inv(1) r inv(3), of f 0 fl] by (elim exE conjE) (rule that)
    have "touches {q. st \<le> q \<and> q < st + n} s s'" by (rule pt_map_touches[OF inv(1) s'(3,4)]) blast
    then show ?thesis using OpMap via s'(1,2) touches_mono by (simp add: run_op_def)
  next
    case (OpUnmap st n)
    then have "st + n \<le> MEM_PAGES" using ok by (simp add: op_ok_def)
    then obtain s' where "pt_unmap_always s st n = Some s'" "as_inv (data_refs b) {} s'" "touches UNIV s s'"
      using unmap_touches[OF inv(1)] by blast
    then show ?thesis using OpUnmap via by (simp add: run_op_def)
  next
    case (OpProtect st n fl)
    then show ?thesis
      using ok via pt_set_flags_spec[OF inv(1), of st n fl "\<lambda>_. None"] touches_mono by (fastforce simp: run_op_def op_ok_def)
  qed
qed

lemma run_ops_beside:
  assumes "beside b s" "\<forall>op \<in> set ops. op_ok op"
  shows "\<exists>s'. iter_opt (run_op limit) s ops = Some s' \<and> beside b s' \<and> private_same b s s'"
  using assms
proof (induction ops arbitrary: s)
  case Nil
  then show ?case using private_same_refl by simp
next
  case (Cons op ops)
  obtain s1 where s1: "run_op limit s op = Some s1" "beside b s1" "private_same b s s1"
    using run_op_beside[OF Cons.prems(1), of op limit] Cons.prems(2) by auto
  obtain s2 where "iter_opt (run_op limit) s1 ops = Some s2" "beside b s2" "private_same b s1 s2"
    using Cons.IH[OF s1(2)] Cons.prems(2) by auto
  then show ?case using s1 private_same_trans by auto
qed

section \<open>Properties\<close>

text \<open>Claim C19. Forking copies the address space: it succeeds on every space with an empty child, every reference
  count is then exact, and both processes have the parent's pages with the parent's bytes and flags, where each private page is
  marked copy-on-write in both (\<open>cow_flags\<close>) and the child's pages are not marked as compiled code.\<close>

theorem fork_copies_memory:
  assumes "two_spaces src dst h" "tidy src" "\<And>p. p < MEM_PAGES \<Longrightarrow> mem_pt dst p = None"
  shows "\<exists>src' dst' h'. pt_copy_on_write (src, dst, h) 0 MEM_PAGES = Some (src', dst', h')
     \<and> two_spaces src' dst' h'
     \<and> (\<forall>p < MEM_PAGES. page_view (src', h') p = map_option (apfst cow_flags) (page_view (src, h) p)
          \<and> page_view (dst', h') p = map_option (apfst (\<lambda>fl. cow_flags fl AND NOT P_CODE)) (page_view (src, h) p))"
  using fork_spec[OF assms] by blast

lemma init_refs: "data_refs mem_init = (\<lambda>_. 0)"
  by (rule ext) (simp add: data_refs_def pt4.refs_def)

lemma beside_init:
  assumes "as_inv (\<lambda>_. 0) {} s"
  shows "two_spaces (fst s) mem_init (snd s)"
  using assms by (simp add: two_spaces_def init_refs) (simp add: mem_ok_def mem_init_def)

lemma write_page_5:
  "\<exists>s e. as_inv (\<lambda>_. 0) {} s \<and> tidy (fst s) \<and> h_alloc (snd s) \<and> mem_pt (fst s) 5 = Some e
     \<and> has (e_flags e) P_WRITE \<and> \<not> has (e_flags e) P_SHARED"
  using one_page_space[of 5 P_WRITE] by (auto simp: flag_simps MEM_PAGES_def)

theorem fork_copies_memory_witness:
  "\<exists>m h src' dst' h' fl f. page_view (m, h) 5 = Some (fl, f) \<and> has fl P_WRITE
     \<and> pt_copy_on_write (m, mem_init, h) 0 MEM_PAGES = Some (src', dst', h')
     \<and> page_view (dst', h') 5 = Some (cow_flags fl AND NOT P_CODE, f)"
proof -
  obtain s e where s: "as_inv (\<lambda>_. 0) {} s" "tidy (fst s)" "mem_pt (fst s) 5 = Some e" "has (e_flags e) P_WRITE"
    using write_page_5 by blast
  have p: "(5::nat) < MEM_PAGES" by (simp add: MEM_PAGES_def)
  obtain d x where "e_data e = Some d" "h_data (snd s) d = Some x" using live_data[OF s(1,3) p] by blast
  then have v: "page_view (fst s, snd s) 5 = Some (e_flags e, \<lambda>i. d_bytes x (e_offset e + i))"
    using s(3) by (simp add: page_view_def)
  from fork_copies_memory[OF beside_init[OF s(1)] s(2) init_lookup] obtain src' dst' h' where
      "pt_copy_on_write (fst s, mem_init, snd s) 0 MEM_PAGES = Some (src', dst', h')"
      "\<forall>p < MEM_PAGES. page_view (dst', h') p
          = map_option (apfst (\<lambda>fl. cow_flags fl AND NOT P_CODE)) (page_view (fst s, snd s) p)" by blast
  moreover from this(2) p v have "page_view (dst', h') 5
      = Some (cow_flags (e_flags e) AND NOT P_CODE, \<lambda>i. d_bytes x (e_offset e + i))" by simp
  ultimately show ?thesis using v s(4) by blast
qed

text \<open>Claim C3. After a fork the two processes are isolated: whatever sequence of reads, writes, mappings,
  unmappings and protection changes one of them runs, all of it succeeds or faults without touching freed
  memory, and every page of the other that is not \<^verbatim>\<open>MAP_SHARED\<close> keeps its bytes and flags.\<close>

theorem fork_isolates:
  assumes "two_spaces src dst h" "tidy src" "h_alloc h" "\<And>p. p < MEM_PAGES \<Longrightarrow> mem_pt dst p = None"
    "\<forall>op \<in> set ops. op_ok op"
  shows "\<exists>src' dst' h'. pt_copy_on_write (src, dst, h) 0 MEM_PAGES = Some (src', dst', h')
     \<and> (\<exists>s. iter_opt (run_op limit) (src', h') ops = Some s \<and> private_same dst' (src', h') s)
     \<and> (\<exists>s. iter_opt (run_op limit) (dst', h') ops = Some s \<and> private_same src' (dst', h') s)"
proof -
  obtain src' dst' h' where f: "pt_copy_on_write (src, dst, h) 0 MEM_PAGES = Some (src', dst', h')"
      "two_spaces src' dst' h'" "cow_marked src' dst'" "tidy src'" "tidy dst'" "h_alloc h' = h_alloc h"
    using fork_spec[OF assms(1,2,4)] by blast
  have c: "cow_marked dst' src'" using f(3) unfolding cow_marked_def by metis
  have "beside dst' (src', h')" "beside src' (dst', h')"
    using f(2-6) c two_spaces_swap[OF f(2)] assms(3) by (simp_all add: beside_def)
  then obtain s1 s2 where "iter_opt (run_op limit) (src', h') ops = Some s1" "private_same dst' (src', h') s1"
      "iter_opt (run_op limit) (dst', h') ops = Some s2" "private_same src' (dst', h') s2"
    using run_ops_beside assms(5) by metis
  then show ?thesis using f(1) by (intro exI conjI)
qed

theorem fork_isolates_witness:
  "\<exists>m h src' dst' h'. pt_copy_on_write (m, mem_init, h) 0 MEM_PAGES = Some (src', dst', h')
     \<and> (\<exists>s. iter_opt (run_op 0) (dst', h') [OpWrite 20490 [104, 105], OpUnmap 5 1] = Some s
           \<and> private_same src' (dst', h') s)"
proof -
  obtain s where s: "as_inv (\<lambda>_. 0) {} s" "tidy (fst s)" "h_alloc (snd s)" using write_page_5 by blast
  have ok: "\<forall>op \<in> set [OpWrite 20490 [104, 105], OpUnmap 5 1]. op_ok op"
    by (simp add: op_ok_def USER_TOP_def MEM_PAGES_def PAGE_BYTES_def)
  show ?thesis using fork_isolates[OF beside_init[OF s(1)] s(2,3) init_lookup ok, of 0] by blast
qed

text \<open>Claim C23. Unmapping a range removes exactly its pages: the others keep bytes and flags, and the
  reference counts stay exact.\<close>

theorem munmap_exact:
  assumes "as_inv oth {} s" "start + pages \<le> MEM_PAGES"
  shows "\<exists>s'. pt_unmap_always s start pages = Some s' \<and> as_inv oth {} s'
     \<and> (\<forall>q < MEM_PAGES. page_view s' q = (if start \<le> q \<and> q < start + pages then None else page_view s q))"
proof -
  obtain m h where s: "s = (m, h)" by force
  obtain m' h' where s': "pt_unmap_always s start pages = Some (m', h')" "as_inv oth {} (m', h')" "keeps h h'"
      "\<forall>q < MEM_PAGES. mem_pt m' q = (if start \<le> q \<and> q < start + pages then None else mem_pt m q)"
    using pt_unmap_always_inv[OF assms] by (auto simp: s)
  have "page_view (m', h') q = (if start \<le> q \<and> q < start + pages then None else page_view s q)" if q: "q < MEM_PAGES" for q
    using s'(4) q keeps_view[OF s'(3) assms(1)[unfolded s] s'(2) q] by (auto simp: s page_view_def)
  then show ?thesis using s'(1,2) by blast
qed

theorem munmap_exact_witness:
  "\<exists>s s'. page_view s 5 \<noteq> None \<and> pt_unmap_always s 4 3 = Some s' \<and> page_view s' 5 = None"
proof -
  obtain s e where s: "as_inv (\<lambda>_. 0) {} s" "mem_pt (fst s) 5 = Some e" using write_page_5 by blast
  have p: "(5::nat) < MEM_PAGES" "4 + 3 \<le> MEM_PAGES" by (simp_all add: MEM_PAGES_def)
  obtain s' where "pt_unmap_always s 4 3 = Some s'"
      "\<forall>q < MEM_PAGES. page_view s' q = (if 4 \<le> q \<and> q < 4 + 3 then None else page_view s q)"
    using munmap_exact[OF s(1) p(2)] by blast
  moreover from this have "page_view s' 5 = None" using p(1) by simp
  moreover have "page_view s 5 \<noteq> None" using page_view_None[OF s(1) p(1)] s(2) by simp
  ultimately show ?thesis by blast
qed

text \<open>Claim C22. Changing the protection of a range is all or nothing: with a page that is neither mapped nor
  reserved the result is ENOMEM and nothing changes; otherwise, when the host does not fail, each mapped
  page keeps its bytes and its meta flags under the new protection, unmapped ones become zero pages exactly
  when the new protection allows access, and every other page is unchanged.\<close>

theorem mprotect_exact:
  assumes "as_inv oth {} s" "start + pages \<le> MEM_PAGES" "\<not> has flags P_SHARED" "h_alloc (snd s)"
  shows "\<exists>r s'. pt_set_flags (\<lambda>_. None) s start pages flags = Some (r, s') \<and> as_inv oth {} s' \<and>
     (if \<exists>q \<in> {start..<start + pages}. mem_pt (fst s) q = None \<and> mem_find_reservation (fst s) q = None
      then r = ENOMEM \<and> s' = s
      else r = 0 \<and> (\<forall>q < MEM_PAGES. page_view s' q =
             (if start \<le> q \<and> q < start + pages then prot_view flags (page_view s q) else page_view s q)))"
proof (cases "\<exists>q \<in> set [start..<start + pages]. mem_pt (fst s) q = None \<and> mem_find_reservation (fst s) q = None")
  case True
  then have "pt_set_flags (\<lambda>_. None) s start pages flags = Some (ENOMEM, s)" unfolding pt_set_flags_def by (rule if_P)
  then show ?thesis using assms(1) True by auto
next
  case False
  then have run: "pt_set_flags (\<lambda>_. None) s start pages flags
      = set_flags_loop (\<lambda>_. None) flags start (start + pages) s"
    unfolding pt_set_flags_def by (rule if_not_P)
  obtain s' where s': "set_flags_loop (\<lambda>_. None) flags start (start + pages) s = Some (0, s')" "as_inv oth {} s'"
      "touches {q. start \<le> q \<and> q < start + pages} s s'" "prot_done flags start (start + pages) s s'"
    using set_flags_loop_spec[OF assms(1-3), of "\<lambda>_. None" start] assms(4) by auto
  have "page_view s' q = (if start \<le> q \<and> q < start + pages then prot_view flags (page_view s q) else page_view s q)"
    if q: "q < MEM_PAGES" for q
    using touches_view[OF s'(3) assms(1) s'(2) q] s'(4) q by (simp add: prot_done_def)
  then show ?thesis using run s'(1,2) False by auto
qed

theorem mprotect_exact_witness:
  "\<exists>s s'. page_view s 5 \<noteq> None \<and> pt_set_flags (\<lambda>_. None) s 5 1 P_READ = Some (0, s')
     \<and> page_view s' 5 = prot_view P_READ (page_view s 5)"
proof -
  obtain s e where s: "as_inv (\<lambda>_. 0) {} s" "h_alloc (snd s)" "mem_pt (fst s) 5 = Some e" using write_page_5 by blast
  have p: "(5::nat) < MEM_PAGES" "5 + 1 \<le> MEM_PAGES" "\<not> has P_READ P_SHARED"
    by (simp_all add: MEM_PAGES_def flag_simps)
  have m: "\<not> (\<exists>q \<in> {5..<5 + 1}. mem_pt (fst s) q = None \<and> mem_find_reservation (fst s) q = None)"
  proof -
    have "{5..<5 + 1} = {5 :: nat}" by auto
    then show ?thesis using s(3) by simp
  qed
  obtain s' where "pt_set_flags (\<lambda>_. None) s 5 1 P_READ = Some (0, s')"
      "\<forall>q < MEM_PAGES. page_view s' q = (if 5 \<le> q \<and> q < 5 + 1 then prot_view P_READ (page_view s q) else page_view s q)"
    using mprotect_exact[OF s(1) p(2,3) s(2)] unfolding if_not_P[OF m] by blast
  moreover from this have "page_view s' 5 = prot_view P_READ (page_view s 5)" using p(1) by simp
  moreover have "page_view s 5 \<noteq> None" using page_view_None[OF s(1) p(1)] s(3) by simp
  ultimately show ?thesis by blast
qed

text \<open>Claim C24. A demand fault maps its page whenever the host has memory and the C code does not refuse,
  maps nothing but zeros, and changes no page that was mapped.\<close>

theorem demand_fault_maps_zeros:
  assumes "as_inv oth {} s" "page < MEM_PAGES" "h_alloc (snd s)"
  shows "\<exists>ok s'. mem_fault_in limit s page = Some (ok, s') \<and> as_inv oth {} s' \<and> (ok \<longrightarrow> page_view s' page \<noteq> None)
     \<and> (\<forall>q < MEM_PAGES. page_view s q \<noteq> None \<longrightarrow> page_view s' q = page_view s q)
     \<and> (\<forall>q < MEM_PAGES. page_view s q = None \<and> page_view s' q \<noteq> None \<longrightarrow> zero_page s' q)"
proof -
  obtain ok s' where r: "mem_fault_in limit s page = Some (ok, s')" "as_inv oth {} s'"
      "touches {q. mem_pt (fst s) q = None} s s'"
      "\<forall>q < MEM_PAGES. mem_pt (fst s) q = None \<and> mem_pt (fst s') q \<noteq> None \<longrightarrow> zero_page s' q"
      "ok \<and> h_alloc (snd s) \<longrightarrow> mem_pt (fst s') page \<noteq> None"
    using mem_fault_in_spec[OF assms(1,2), of limit] by blast
  have "page_view s' q = page_view s q" if "q < MEM_PAGES" "page_view s q \<noteq> None" for q
    using touches_view[OF r(3) assms(1) r(2) that(1)] that page_view_None[OF assms(1)] by simp
  then have kept: "\<forall>q < MEM_PAGES. page_view s q \<noteq> None \<longrightarrow> page_view s' q = page_view s q" by simp
  have zeros: "\<forall>q < MEM_PAGES. page_view s q = None \<and> page_view s' q \<noteq> None \<longrightarrow> zero_page s' q"
  proof (intro allI impI, elim conjE)
    fix q assume "q < MEM_PAGES" "page_view s q = None" "page_view s' q \<noteq> None"
    then show "zero_page s' q"
      using r(4)[rule_format, of q] page_view_None[OF assms(1), of q] page_view_None[OF r(2), of q] by metis
  qed
  have "ok \<longrightarrow> page_view s' page \<noteq> None" using r(5) assms(3) page_view_None[OF r(2) assms(2)] by metis
  then show ?thesis using r(1,2) kept zeros by (intro exI conjI)
qed

theorem demand_fault_maps_zeros_witness:
  "\<exists>ok s'. mem_fault_in 0 (snd (pt_map_lazy True mem_init 5 10 P_WRITE), no_host) 7 = Some (ok, s')
     \<and> ok \<and> page_view s' 7 \<noteq> None"
proof -
  define m where "m = snd (pt_map_lazy True mem_init 5 10 P_WRITE)"
  have m: "pgdir m = pgdir mem_init" by (simp add: m_def pt_map_lazy_def mem_changed_def)
  have inv: "as_inv (\<lambda>_. 0) {} (m, no_host)" by (rule as_inv_fields[OF as_inv_init m])
  have none: "mem_pt m q = None" for q by (simp add: same_table_lookup[OF m])
  have p: "(7::nat) < MEM_PAGES" "h_alloc (snd (m, no_host))" by (simp_all add: MEM_PAGES_def no_host_def)
  obtain ok s' where r: "mem_fault_in 0 (m, no_host) 7 = Some (ok, s')" "ok \<longrightarrow> page_view s' 7 \<noteq> None"
    using demand_fault_maps_zeros[OF inv p, of 0] by blast
  have "mem_find_reservation m 7 = Some \<lparr>r_start = 5, r_pages = 10, r_flags = P_WRITE OR P_ANONYMOUS\<rparr>"
    by (simp add: mem_find_reservation_def m_def pt_map_lazy_def mem_changed_def mem_init_def res_covers_def)
  then have ok using r(1) none by (auto simp: mem_fault_in_def Let_def split: if_splits)
  then show ?thesis using r unfolding m_def by blast
qed

text \<open>Claim C25. Write or execute, not both: the pointer a write gets is never into a page marked as holding
  compiled code, not into a copy-on-write page, and the fast path refuses marked pages.\<close>

theorem write_pointers_leave_code_pages:
  assumes "as_inv oth {} s" "addr < USER_TOP" "h_alloc (snd s)"
    "mem_ptr limit s addr MEM_WRITE = Some (Some ptr, s')"
  shows "\<not> mmu_code_page_intact (fst s') (addr div PAGE_BYTES)
     \<and> mem_mmu_translate_write_nofault (fst s') addr = Some ptr
     \<and> (\<forall>m. mmu_mark_code_page (fst s') (addr div PAGE_BYTES) = Some (1, m) \<longrightarrow>
          mem_mmu_translate_write_nofault m addr = None)"
proof -
  obtain d off where p: "ptr = (d, off)" by force
  have pg: "addr div PAGE_BYTES < MEM_PAGES" by (rule user_page[OF assms(2)])
  obtain ptr' s2 where m: "mem_ptr limit s addr MEM_WRITE = Some (ptr', s2)" "as_inv oth {} s2"
      "\<forall>d off. ptr' = Some (d, off) \<longrightarrow> (\<exists>e. mem_pt (fst s2) (addr div PAGE_BYTES) = Some e \<and> e_data e = Some d
          \<and> off = e_offset e + addr mod PAGE_BYTES
          \<and> (writes MEM_WRITE \<longrightarrow> P_WRITABLE (e_flags e) \<and> \<not> has (e_flags e) P_CODE))"
    using mem_ptr_spec[OF assms(1-3), of limit MEM_WRITE] by (elim exE conjE) (rule that)
  obtain e where e: "mem_pt (fst s') (addr div PAGE_BYTES) = Some e" "e_data e = Some d"
      "off = e_offset e + addr mod PAGE_BYTES" "P_WRITABLE (e_flags e)" "\<not> has (e_flags e) P_CODE"
    using m assms(4) p by (auto simp: writes_def)
  have inv: "as_inv oth {} (fst s', snd s')" using m(1,2) assms(4) by simp
  have mark: "mem_mmu_translate_write_nofault m' addr = None"
    if "mmu_mark_code_page (fst s') (addr div PAGE_BYTES) = Some (1, m')" for m'
  proof -
    obtain m1 where m1: "pt_assign (addr div PAGE_BYTES) (e\<lparr>e_flags := e_flags e OR P_CODE\<rparr>) (fst s') = Some m1"
        "\<forall>q < MEM_PAGES. mem_pt m1 q = (if q = addr div PAGE_BYTES then Some (e\<lparr>e_flags := e_flags e OR P_CODE\<rparr>)
           else mem_pt (fst s') q)"
      using assign_same_data[OF inv pg e(1), of "e\<lparr>e_flags := e_flags e OR P_CODE\<rparr>"] by auto
    have "m' = mem_changed m1" using that e(1,5) m1(1) by (simp add: mmu_mark_code_page_def)
    moreover have "mem_pt m1 (addr div PAGE_BYTES) = Some (e\<lparr>e_flags := e_flags e OR P_CODE\<rparr>)"
      using m1(2)[rule_format, OF pg] by simp
    ultimately have "mmu_code_page_intact m' (addr div PAGE_BYTES)"
      by (simp add: mmu_code_page_intact_def flag_simps)
    then show ?thesis by (simp add: mem_mmu_translate_write_nofault_def)
  qed
  have "\<not> mmu_code_page_intact (fst s') (addr div PAGE_BYTES)" using e(1,5) by (simp add: mmu_code_page_intact_def)
  moreover from this have "mem_mmu_translate_write_nofault (fst s') addr = Some ptr"
    unfolding mem_mmu_translate_write_nofault_def mem_ptr_nofault_def e(1) using e(2-4) p by simp
  ultimately show ?thesis using mark by blast
qed

theorem write_pointers_leave_code_pages_witness:
  "\<exists>s s' ptr. mem_ptr 0 s 20490 MEM_WRITE = Some (Some ptr, s')
     \<and> mem_mmu_translate_write_nofault (fst s') 20490 = Some ptr"
proof -
  obtain s e where s: "as_inv (\<lambda>_. 0) {} s" "h_alloc (snd s)" "mem_pt (fst s) 5 = Some e" "has (e_flags e) P_WRITE"
    using write_page_5 by blast
  have p: "(20490::nat) < USER_TOP" "20490 div PAGE_BYTES = 5" by (simp_all add: MEM_PAGES_def PAGE_BYTES_def USER_TOP_def)
  obtain ptr s' where "mem_ptr 0 s 20490 MEM_WRITE = Some (Some ptr, s')"
    using mem_ptr_spec[OF s(1) p(1) s(2), of 0 MEM_WRITE] s(3,4) p(2) by fastforce
  then show ?thesis using write_pointers_leave_code_pages[OF s(1) p(1) s(2)] by blast
qed

end
