(* ===== verification/Memory_Map_Props.thy ===== *)
theory Memory_Map_Props
  imports Memory_Map Fork_Isolation
begin

text \<open>Correctness of the search for holes and of the memory system calls.\<close>

section \<open>The search for a hole\<close>

lemma index_parts:
  fixes p :: nat
  assumes p: "p = a * 2 ^ 27 + b * 2 ^ 18 + c * 2 ^ 9 + d" and "b < 512" "c < 512" "d < 512"
  shows "p div 2 ^ 27 = a" "p div 2 ^ 18 = a * 2 ^ 9 + b" "p div 2 ^ 9 = a * 2 ^ 18 + b * 2 ^ 9 + c"
  unfolding p by (rule div_nat_eqI; use assms(2-) in simp)+

lemma empty_subtree:
  assumes "page < MEM_PAGES" "empty_base m page = Some base" "base \<le> q" "q \<le> page"
  shows "mem_pt m q = None"
proof -
  let ?i = "PT_INDEX page"
  note dec = index_decompose[OF assms(1)]
  have i: "?i k < 512" for k by (simp add: PT_INDEX_def PT_ENTRIES_def)
  have up: "PT_INDEX q k = PT_INDEX page k" if "q div 2 ^ (9 * j) = page div 2 ^ (9 * j)" "j \<le> 3 - k" for j k
  proof -
    have "9 * j + 9 * (3 - k - j) = 9 * (3 - k)" using that(2) by simp
    then have "x div 2 ^ (9 * (3 - k)) = x div 2 ^ (9 * j) div 2 ^ (9 * (3 - k - j))" for x :: nat
      by (metis div_mult2_eq power_add)
    then show ?thesis using that(1) by (simp add: PT_INDEX_def PT_BITS_def)
  qed
  have same: "q div 2 ^ (9 * j) = page div 2 ^ (9 * j)" if "page div 2 ^ (9 * j) * 2 ^ (9 * j) \<le> q" for j
  proof (rule antisym)
    show "q div 2 ^ (9 * j) \<le> page div 2 ^ (9 * j)" using assms(4) by (rule div_le_mono)
    show "page div 2 ^ (9 * j) \<le> q div 2 ^ (9 * j)" using div_le_mono[OF that, of "2 ^ (9 * j)"] by simp
  qed
  have b: "page div 2 ^ 27 * 2 ^ 27 = ?i 0 * 2 ^ 27" "page div 2 ^ 18 * 2 ^ 18 = ?i 0 * 2 ^ 27 + ?i 1 * 2 ^ 18"
      "page div 2 ^ 9 * 2 ^ 9 = ?i 0 * 2 ^ 27 + ?i 1 * 2 ^ 18 + ?i 2 * 2 ^ 9"
  proof -
    note parts = index_parts[OF dec i i i]
    show "page div 2 ^ 27 * 2 ^ 27 = ?i 0 * 2 ^ 27" "page div 2 ^ 18 * 2 ^ 18 = ?i 0 * 2 ^ 27 + ?i 1 * 2 ^ 18"
      "page div 2 ^ 9 * 2 ^ 9 = ?i 0 * 2 ^ 27 + ?i 1 * 2 ^ 18 + ?i 2 * 2 ^ 9" using parts by simp_all
  qed
  show ?thesis
    using assms(2,3) same[of 3] same[of 2] same[of 1] up[of 3 0] up[of 2 0] up[of 2 1] up[of 1 0] up[of 1 1] up[of 1 2] b
    by (auto simp: empty_base_def mem_pt_def mem_l3_def Let_def PT_BITS_def split: option.splits)
qed

text \<open>A free range of \<open>n\<close> pages above \<^verbatim>\<open>MMAP_HOLE_END\<close>.\<close>

definition free_range :: "mem \<Rightarrow> nat \<Rightarrow> nat \<Rightarrow> bool" where
  "free_range m r n \<longleftrightarrow> MMAP_HOLE_END < r \<and> (\<forall>q. r \<le> q \<and> q < r + n \<longrightarrow> mem_pt m q = None)"

text \<open>The state of the scan at \<open>page\<close>: what is above it in the running hole is free but too short.\<close>

definition scan_ok :: "mem \<Rightarrow> nat \<Rightarrow> nat \<Rightarrow> nat option \<Rightarrow> bool" where
  "scan_ok m n page hole \<longleftrightarrow> (case hole of None \<Rightarrow> True
     | Some he \<Rightarrow> page < he \<and> he \<le> MEM_PAGES \<and> he - (page + 1) < n \<and> (\<forall>q. page < q \<and> q < he \<longrightarrow> mem_pt m q = None))"

definition scan_top :: "nat \<Rightarrow> nat option \<Rightarrow> nat" where
  "scan_top page hole = (case hole of None \<Rightarrow> page + 1 | Some he \<Rightarrow> he)"

lemma scan_top_Some: "scan_top page (Some he) = he"
  by (simp add: scan_top_def)

lemma find_hole_loop_spec:
  assumes "page < MEM_PAGES" "0 < n" "scan_ok m n page hole"
  shows "if find_hole_loop m n page hole = BAD_PAGE
      then \<forall>r. r + n \<le> scan_top page hole \<longrightarrow> \<not> free_range m r n
      else free_range m (find_hole_loop m n page hole) n \<and> find_hole_loop m n page hole + n \<le> scan_top page hole"
  using assms
proof (induction m n page hole rule: find_hole_loop.induct)
  case (1 m n page hole)
  let ?he = "scan_top page hole"
  note step = find_hole_loop.simps[of m n page hole]
  have he: "page < ?he" "\<forall>q. page < q \<and> q < ?he \<longrightarrow> mem_pt m q = None" "hole = None \<or> ?he - (page + 1) < n"
    using "1.prems"(3) by (auto simp: scan_ok_def scan_top_def split: option.splits)
  have short: "?he - (page + 1) < n" using he(3) "1.prems"(2) by (auto simp: scan_top_def split: option.splits)
  have top: "?he \<le> MEM_PAGES" using "1.prems"(1,3) by (auto simp: scan_ok_def scan_top_def split: option.splits)
  let ?goal = "if find_hole_loop m n page hole = BAD_PAGE then \<forall>r. r + n \<le> ?he \<longrightarrow> \<not> free_range m r n
      else free_range m (find_hole_loop m n page hole) n \<and> find_hole_loop m n page hole + n \<le> ?he"
  have found: ?goal if "find_hole_loop m n page hole = r" "r + n \<le> ?he" "free_range m r n" for r
  proof -
    have "r \<noteq> BAD_PAGE" using that(2) top "1.prems"(2) by (simp add: BAD_PAGE_def MEM_PAGES_def)
    then show ?thesis using that by simp
  qed
  have code_he: "(case hole of None \<Rightarrow> page + 1 | Some e \<Rightarrow> e) = ?he" by (simp add: scan_top_def)
  show ?case
  proof (cases "MMAP_HOLE_END < page")
    case False
    have "\<not> free_range m r n" if "r + n \<le> ?he" for r
      using that False short "1.prems"(2) by (auto simp: free_range_def)
    then show ?thesis using step False by simp
  next
    case inside: True
    have none: ?goal if "find_hole_loop m n page hole = BAD_PAGE" "?he - (MMAP_HOLE_END + 1) < n"
    proof -
      have "\<not> free_range m r n" if "r + n \<le> ?he" for r
        using that \<open>?he - (MMAP_HOLE_END + 1) < n\<close> by (auto simp: free_range_def)
      then show ?thesis using that(1) by simp
    qed
    show ?thesis
    proof (cases "empty_base m page")
      case (Some base)
      have empty: "mem_pt m q = None" if "base \<le> q" "q \<le> page" for q
        by (rule empty_subtree[OF "1.prems"(1) Some that])
      let ?eb = "if base > MMAP_HOLE_END then base else MMAP_HOLE_END + 1"
      have eb: "base \<le> ?eb" "MMAP_HOLE_END < ?eb" "?eb \<le> page" using inside empty_base_le[OF Some] by auto
      have free: "mem_pt m q = None" if "?eb \<le> q" "q < ?he" for q
        using empty[of q] he(2) that eb(1) by (cases "q \<le> page") auto
      show ?thesis
      proof (cases "n \<le> ?he - ?eb")
        case True
        have "?eb \<le> ?he - n" using True "1.prems"(2) by linarith
        moreover have "?he - n + n = ?he" using True by linarith
        ultimately have "free_range m (?he - n) n"
          unfolding free_range_def using free eb(2) by (metis (no_types, lifting) dual_order.strict_trans1 le_trans)
        moreover have "find_hole_loop m n page hole = ?he - n"
          using step inside Some True by (simp add: code_he Let_def)
        ultimately show ?thesis using found True by auto
      next
        case False
        show ?thesis
        proof (cases "base \<le> MMAP_HOLE_END")
          case low: True
          then have "\<not> MMAP_HOLE_END < base - 1" by simp
          then have "find_hole_loop m n (base - 1) (Some ?he) = BAD_PAGE"
            by (subst find_hole_loop.simps) (simp only: if_False)
          then have "find_hole_loop m n page hole = BAD_PAGE"
            using step inside Some False by (simp add: code_he Let_def)
          then show ?thesis using none False low by simp
        next
          case high: False
          then have b: "0 < base" "base - 1 + 1 = base" by simp_all
          have ok: "scan_ok m n (base - 1) (Some ?he)"
            unfolding scan_ok_def option.case b(2) using False high free top eb(3) he(1) b(1) by auto
          have eq: "find_hole_loop m n page hole = find_hole_loop m n (base - 1) (Some ?he)"
            using step inside Some False b(1) by (simp add: code_he Let_def)
          have lt: "base - 1 < MEM_PAGES" using empty_base_le[OF Some] "1.prems"(1) by simp
          have "base \<noteq> 0" using b(1) by simp
          then show ?thesis
            using "1.IH"(3)[OF inside refl Some, unfolded code_he, OF False _ lt "1.prems"(2) ok]
            unfolding eq scan_top_Some by blast
        qed
      qed
    next
      case None
      have p1: "page - 1 < MEM_PAGES" "page - 1 + 1 = page" using inside "1.prems"(1) by simp_all
      show ?thesis
      proof (cases "mem_pt m page = None")
        case False
        have eq: "find_hole_loop m n page hole = find_hole_loop m n (page - 1) None"
          using step inside None False by (simp add: Let_def)
        have ih: "if find_hole_loop m n (page - 1) None = BAD_PAGE
            then \<forall>r. r + n \<le> page \<longrightarrow> \<not> free_range m r n
            else free_range m (find_hole_loop m n (page - 1) None) n \<and> find_hole_loop m n (page - 1) None + n \<le> page"
        proof -
          have "scan_top (page - 1) None = page" "scan_ok m n (page - 1) None"
            using p1(2) by (simp_all add: scan_ok_def scan_top_def)
          then show ?thesis using "1.IH"(1)[OF inside refl None False p1(1) "1.prems"(2)] by metis
        qed
        have "r + n \<le> page" if "r + n \<le> ?he" "free_range m r n" for r
        proof -
          have "\<not> (r \<le> page \<and> page < r + n)" using that(2) False by (auto simp: free_range_def)
          then show ?thesis using that(1) short by linarith
        qed
        then have fits: "\<forall>r. r + n \<le> ?he \<longrightarrow> free_range m r n \<longrightarrow> r + n \<le> page" by blast
        show ?thesis
        proof (cases "find_hole_loop m n (page - 1) None = BAD_PAGE")
          case True
          then show ?thesis using ih fits unfolding eq by metis
        next
          case False
          then have "find_hole_loop m n (page - 1) None + n \<le> ?he" using ih he(1) by simp
          then show ?thesis using ih False unfolding eq by metis
        qed
      next
        case free: True
        have fr: "mem_pt m q = None" if "page \<le> q" "q < ?he" for q
          using that free he(2) by (cases "q = page") auto
        show ?thesis
        proof (cases "n \<le> ?he - page")
          case True
          have "find_hole_loop m n page hole = page" using step inside None free True by (simp add: code_he Let_def)
          moreover have "free_range m page n" using fr True inside by (auto simp: free_range_def)
          ultimately show ?thesis using found True he(1) by auto
        next
          case False
          have eq: "find_hole_loop m n page hole = find_hole_loop m n (page - 1) (Some ?he)"
            using step inside None free False by (simp add: code_he Let_def)
          have ok: "scan_ok m n (page - 1) (Some ?he)"
            unfolding scan_ok_def option.case p1(2) using fr False he(1) top inside by auto
          have "\<not> mem_pt m page \<noteq> None" using free by simp
          then show ?thesis
            using "1.IH"(2)[OF inside refl None, unfolded code_he, OF _ False p1(1) "1.prems"(2) ok]
            unfolding eq scan_top_Some by blast
        qed
      qed
    qed
  qed
qed

lemma find_hole_from_spec:
  assumes "start < MEM_PAGES" "0 < n"
  shows "if pt_find_hole_from m n start = BAD_PAGE then \<forall>r. r + n \<le> start + 1 \<longrightarrow> \<not> free_range m r n
      else free_range m (pt_find_hole_from m n start) n \<and> pt_find_hole_from m n start + n \<le> start + 1"
proof -
  have "scan_top start None = start + 1" "scan_ok m n start None" by (simp_all add: scan_ok_def scan_top_def)
  then show ?thesis using find_hole_loop_spec[OF assms, of m None] unfolding pt_find_hole_from_def by metis
qed

text \<open>Above 4 GB: a subtree without a node maps nothing.\<close>

lemma l0_subtree:
  assumes "page < USER_ADDR_MAX_PAGE" "\<not> l0_occupied m page"
  shows "l0_base page \<le> page" "l0_end page \<le> USER_ADDR_MAX_PAGE"
    "\<And>q. l0_base page \<le> q \<Longrightarrow> q < l0_end page \<Longrightarrow> mem_pt m q = None"
proof -
  have "page div 2 ^ 27 < 2 ^ 9" using assms(1) by (simp add: USER_ADDR_MAX_PAGE_def div_less_iff_less_mult)
  then have i: "PT_INDEX page 0 = page div 2 ^ 27" by (simp add: PT_INDEX_def PT_BITS_def PT_ENTRIES_def)
  then show "l0_base page \<le> page" by (simp add: l0_base_def PT_BITS_def)
  show "l0_end page \<le> USER_ADDR_MAX_PAGE" by (simp add: l0_end_def Let_def)
  fix q assume q: "l0_base page \<le> q" "q < l0_end page"
  have b: "2 ^ 27 * (page div 2 ^ 27) \<le> q" "q < 2 ^ 27 * Suc (page div 2 ^ 27)"
    using q i by (simp_all add: l0_base_def l0_end_def PT_BITS_def Let_def split: if_splits)
  have "q div 2 ^ 27 = page div 2 ^ 27" by (rule div_nat_eqI[OF b])
  then have "PT_INDEX q 0 = PT_INDEX page 0" by (simp add: PT_INDEX_def PT_BITS_def)
  then show "mem_pt m q = None"
    using assms(2) by (auto simp: l0_occupied_def mem_pt_def mem_l3_def split: option.splits)
qed

definition high_ok :: "mem \<Rightarrow> nat \<Rightarrow> nat \<Rightarrow> nat \<Rightarrow> bool" where
  "high_ok m page hs sz \<longleftrightarrow> 0x100000 \<le> page \<and> (sz \<noteq> 0 \<longrightarrow> 0x100000 \<le> hs \<and> hs \<le> page
     \<and> (\<forall>q. hs \<le> q \<and> q < page \<longrightarrow> mem_pt m q = None))"

lemma hole_high_loop_spec:
  assumes "high_ok m page hs sz" "0 < n" "hole_high_loop m n page hs sz = r" "r \<noteq> BAD_PAGE"
  shows "0x100000 \<le> r \<and> r + n \<le> USER_ADDR_MAX_PAGE \<and> (\<forall>q. r \<le> q \<and> q < r + n \<longrightarrow> mem_pt m q = None)"
  using assms
proof (induction m n page hs sz rule: hole_high_loop.induct)
  case (1 m n page hs sz)
  note step = hole_high_loop.simps[of m n page hs sz]
  have lt: "page < USER_ADDR_MAX_PAGE" using "1.prems"(3,4) step by (cases "page < USER_ADDR_MAX_PAGE") auto
  have up: "page < l0_end page" by (rule l0_end_gt[OF lt])
  show ?case
  proof (cases "l0_occupied m page")
    case True
    have "high_ok m (l0_end page) hs 0" using "1.prems"(1) up by (simp add: high_ok_def)
    then show ?thesis using "1.IH"(2)[OF lt] True step lt "1.prems"(2-4) by simp
  next
    case False
    note sub = l0_subtree[OF lt False]
    define st where "st = (if sz = 0 then if l0_base page < page then page else l0_base page else hs)"
    have st: "0x100000 \<le> st" "st \<le> page" using "1.prems"(1) sub(1) by (auto simp: st_def high_ok_def)
    have free: "mem_pt m q = None" if "st \<le> q" "q < l0_end page" for q
    proof (cases "q < page")
      case True
      then show ?thesis using that(1) "1.prems"(1) sub(1) by (auto simp: st_def high_ok_def split: if_splits)
    next
      case False
      then show ?thesis using sub that(2) by simp
    qed
    show ?thesis
    proof (cases "n \<le> l0_end page - st")
      case True
      have "r = st" using "1.prems"(3) step lt False True by (simp add: Let_def flip: st_def)
      then show ?thesis using st(1) free True sub(2) up st(2) by auto
    next
      case short: False
      have "high_ok m (l0_end page) st (l0_end page - st)" using st up free by (auto simp: high_ok_def)
      moreover have "hole_high_loop m n (l0_end page) st (l0_end page - st) = r"
        using "1.prems"(3) step lt False short by (simp add: Let_def flip: st_def)
      ultimately show ?thesis
        using "1.IH"(1)[OF lt False st_def short] "1.prems"(2,4) by simp
    qed
  qed
qed

text \<open>A range that is a hole, as \<^verbatim>\<open>pt_is_hole\<close> tests it.\<close>

lemma overlap_same: "hole_overlaps_reservation m r n = reservations_overlap m r n"
  by (simp add: hole_overlaps_reservation_def reservations_overlap_def)

lemma hole_above_spec:
  assumes "hole_above m n = Some r" "0 < n"
  shows "pt_is_hole m r n \<and> r + n \<le> USER_ADDR_MAX_PAGE \<and> MMAP_HOLE_END < r"
proof -
  have r: "hole_high_loop m n 0x100000 0x100000 0 = r" "r \<noteq> BAD_PAGE" "\<not> reservations_overlap m r n"
    using assms(1) by (auto simp: hole_above_def pt_find_hole_high_def Let_def overlap_same split: if_splits)
  show ?thesis using hole_high_loop_spec[OF _ assms(2) r(1,2)] r(3)
    by (auto simp: high_ok_def pt_is_hole_def MMAP_HOLE_END_def)
qed

lemma hole_attempts_spec:
  assumes "start < MEM_PAGES" "0 < n" "fst (hole_attempts k m n start) = Some r"
  shows "pt_is_hole m r n \<and> r + n \<le> start + 1 \<and> MMAP_HOLE_END < r"
  using assms
proof (induction k arbitrary: start)
  case 0
  then show ?case by simp
next
  case (Suc k)
  let ?c = "pt_find_hole_from m n start"
  have c: "?c \<noteq> BAD_PAGE" using Suc.prems(3) by (auto simp: Let_def)
  then have f: "free_range m ?c n" "?c + n \<le> start + 1" using find_hole_from_spec[OF Suc.prems(1,2), of m] by simp_all
  show ?case
  proof (cases "hole_overlaps_reservation m ?c n")
    case False
    then have "r = ?c" using Suc.prems(3) c by simp
    then show ?thesis using f False by (auto simp: pt_is_hole_def free_range_def overlap_same)
  next
    case True
    define next' where "next' = (case find (\<lambda>r. r_start r < ?c + n \<and> ?c < r_start r + r_pages r) (reservations m) of
        None \<Rightarrow> start | Some r \<Rightarrow> if r_start r > 0 then r_start r - 1 else 0)"
    have "next' \<le> start" using f(2) by (auto simp: next'_def find_Some_iff split: option.splits)
    moreover have "fst (hole_attempts k m n next') = Some r"
      using Suc.prems(3) c True by (simp add: Let_def next'_def)
    ultimately show ?thesis using Suc.IH[of next'] Suc.prems(1,2) by auto
  qed
qed

lemma hole_below_spec:
  assumes "hole_below m n = Some r" "0 < n"
  shows "pt_is_hole m r n \<and> r + n \<le> MMAP_HOLE_START + 1 \<and> MMAP_HOLE_END < r"
proof -
  define st where "st = (if mmap_hint m = 0 \<or> mmap_hint m > MMAP_HOLE_START \<or> mmap_hint m \<le> MMAP_HOLE_END + n
    then MMAP_HOLE_START else mmap_hint m)"
  have st: "st \<le> MMAP_HOLE_START" by (auto simp: st_def)
  have top: "MMAP_HOLE_START < MEM_PAGES" by (simp add: MMAP_HOLE_START_def MEM_PAGES_def)
  have "fst (hole_attempts 10 m n st) = Some r \<or> fst (hole_attempts 10 m n MMAP_HOLE_START) = Some r"
    using assms(1) by (auto simp: hole_below_def Let_def st_def[symmetric] split: prod.splits option.splits if_splits)
  then show ?thesis
    using hole_attempts_spec[of st n 10 m r] hole_attempts_spec[of MMAP_HOLE_START n 10 m r] st top assms(2) by auto
qed

lemma hole_impl_spec:
  assumes "pt_find_hole_impl m n pref = (r, m')" "0 < n"
  shows "pgdir m' = pgdir m \<and> reservations m' = reservations m
     \<and> (r \<noteq> BAD_PAGE \<longrightarrow> pt_is_hole m r n \<and> MMAP_HOLE_END < r \<and> r + n \<le> USER_ADDR_MAX_PAGE)"
proof -
  have le: "MMAP_HOLE_START + 1 \<le> USER_ADDR_MAX_PAGE" by (simp add: MMAP_HOLE_START_def USER_ADDR_MAX_PAGE_def)
  show ?thesis
    using assms(1) hole_above_spec[OF _ assms(2), of m r] hole_below_spec[OF _ assms(2), of m r] le
    by (auto simp: pt_find_hole_impl_def set_hint_def split: option.splits if_splits)
qed

section \<open>Mapping\<close>

lemma mmap_hint_page_spec:
  assumes "mmap_hint_page m addr pages flags = Inr (Some page)"
  shows "page + pages \<le> USER_ADDR_MAX_PAGE \<and> page = addr div PAGE_BYTES \<and> addr mod PAGE_BYTES = 0
     \<and> (\<not> has flags MMAP_FIXED \<longrightarrow> pt_is_hole m page pages)"
proof -
  have "STACK_TOP_PAGE \<le> USER_ADDR_MAX_PAGE" by (simp add: STACK_TOP_PAGE_def USER_ADDR_MAX_PAGE_def)
  then show ?thesis using assms by (auto simp: mmap_hint_page_def Let_def split: if_splits)
qed

lemma mmap_place_spec:
  assumes "mmap_place m addr pages prot flags = Inr (page, m')" "0 < pages"
  shows "pgdir m' = pgdir m \<and> reservations m' = reservations m \<and> page + pages \<le> USER_ADDR_MAX_PAGE
     \<and> (\<not> has flags MMAP_FIXED \<longrightarrow> pt_is_hole m page pages)"
proof (cases "mmap_hint_page m addr pages flags")
  case (Inl e)
  then show ?thesis using assms(1) by (simp add: mmap_place_def)
next
  case (Inr po)
  show ?thesis
  proof (cases po)
    case (Some p)
    then have "mmap_hint_page m addr pages flags = Inr (Some page)" "m' = m"
      using assms(1) Inr by (simp_all add: mmap_place_def)
    then show ?thesis using mmap_hint_page_spec by blast
  next
    case None
    obtain pref where "pt_find_hole_impl m pages pref = (page, m')" "page \<noteq> BAD_PAGE"
      using assms(1) Inr None
      by (auto simp: mmap_place_def Let_def pt_find_hole_def pt_find_hole_for_reservation_def split: prod.splits if_splits)
    then show ?thesis using hole_impl_spec[OF _ assms(2)] by blast
  qed
qed

text \<open>What a page of a fresh anonymous mapping is: zero-filled, or reserved and still unmapped.\<close>

definition fresh_page :: "space \<Rightarrow> nat \<Rightarrow> bool" where
  "fresh_page s q \<longleftrightarrow> zero_page s q \<or> page_view s q = None \<and> mem_find_reservation (fst s) q \<noteq> None"

lemma lazy_spec:
  assumes "as_inv oth {} (m, h)" "pt_map_lazy a m page pages prot = (err, m')"
  shows "as_inv oth {} (m', h) \<and> (\<forall>q. page_view (m', h) q = page_view (m, h) q)
     \<and> (0 \<le> err \<longrightarrow> err = 0 \<and> (\<forall>q. page \<le> q \<and> q < page + pages \<longrightarrow> mem_find_reservation m' q \<noteq> None))"
proof -
  have t: "pgdir m' = pgdir m" using assms(2) by (auto simp: pt_map_lazy_def mem_changed_def split: if_splits)
  have "as_inv oth {} (m', h)" by (rule as_inv_fields[OF assms(1) t])
  moreover have "page_view (m', h) q = page_view (m, h) q" for q
    by (simp add: page_view_def same_table_lookup[OF t])
  moreover have "0 \<le> err \<longrightarrow> err = 0 \<and> (\<forall>q. page \<le> q \<and> q < page + pages \<longrightarrow> mem_find_reservation m' q \<noteq> None)"
    using assms(2) by (auto simp: pt_map_lazy_def mem_changed_def mem_find_reservation_def res_covers_def  split: if_splits)
  ultimately show ?thesis by blast
qed

definition maps_fresh :: "space \<Rightarrow> nat \<Rightarrow> nat \<Rightarrow> space \<Rightarrow> bool" where
  "maps_fresh s page pages s' \<longleftrightarrow>
     (\<forall>q < MEM_PAGES. if page \<le> q \<and> q < page + pages then fresh_page s' q else page_view s' q = page_view s q)"

lemma hole_unmapped: "pt_is_hole m page pages \<Longrightarrow> page \<le> q \<Longrightarrow> q < page + pages \<Longrightarrow> mem_pt m q = None"
  by (auto simp: pt_is_hole_def)

lemma mmap_anonymous_spec:
  assumes inv: "as_inv oth {} s" and hole: "pt_is_hole (fst s) page pages" and r: "page + pages \<le> MEM_PAGES"
  shows "\<exists>res s'. mmap_anonymous s page pages prot flags = Some (res, s') \<and> as_inv oth {} s'
     \<and> (res < 0 \<longrightarrow> (\<forall>q < MEM_PAGES. page_view s' q = page_view s q))
     \<and> (0 \<le> res \<longrightarrow> (\<exists>p. res = int (p * PAGE_BYTES) \<and> p \<le> page \<and> pt_is_hole (fst s) p pages \<and> maps_fresh s p pages s'))"
proof -
  obtain m h where s: "s = (m, h)" by force
  have i: "as_inv oth {} (m, h)" using inv by (simp add: s)
  have lazy: ?thesis
    if "mmap_anonymous s page pages prot flags = (case pt_map_lazy (h_alloc h) m p pages prot of
          (err, m') \<Rightarrow> Some (if err < 0 then err else int (p * PAGE_BYTES), (m', h)))"
      "pt_is_hole m p pages" "p \<le> page" for p
  proof -
    obtain err m' where e: "pt_map_lazy (h_alloc h) m p pages prot = (err, m')" by force
    note l = lazy_spec[OF i e]
    have "page_view s q = None" if "p \<le> q" "q < p + pages" for q
      using hole_unmapped[OF \<open>pt_is_hole m p pages\<close> that] by (simp add: s page_view_def)
    then have "0 \<le> err \<longrightarrow> maps_fresh s p pages (m', h)"
      using l by (auto simp: maps_fresh_def fresh_page_def s)
    then show ?thesis using that e l by (auto simp: s)
  qed
  define none where "none = (\<not> has prot P_READ \<and> \<not> has prot P_WRITE \<and> \<not> has prot P_EXEC)"
  define al where "al = page div (if pages > 0x40000 then 0x40000 else pages) * (if pages > 0x40000 then 0x40000 else pages)"
  have al: "al \<le> page" by (simp add: al_def)
  consider (big) "has flags MMAP_NORESERVE \<and> pages > 0x10000"
    | (cage) "\<not> (has flags MMAP_NORESERVE \<and> pages > 0x10000)" "none \<and> pages \<ge> 0x8000"
    | (full) "\<not> (has flags MMAP_NORESERVE \<and> pages > 0x10000)" "\<not> (none \<and> pages \<ge> 0x8000)"
        "\<not> none \<and> h_anon h + int pages > ANON_MMAP_LIMIT_PAGES"
    | (map) "\<not> (has flags MMAP_NORESERVE \<and> pages > 0x10000)" "\<not> (none \<and> pages \<ge> 0x8000)"
        "\<not> (\<not> none \<and> h_anon h + int pages > ANON_MMAP_LIMIT_PAGES)" by blast
  then show ?thesis
  proof cases
    case big
    define p where "p = (if al \<ge> MMAP_HOLE_END \<and> pt_is_hole m al pages then al else page)"
    have "mmap_anonymous s page pages prot flags = (case pt_map_lazy (h_alloc h) m p pages prot of
          (err, m') \<Rightarrow> Some (if err < 0 then err else int (p * PAGE_BYTES), (m', h)))"
      unfolding mmap_anonymous_def Let_def s fst_conv snd_conv al_def[symmetric] p_def[symmetric]
      using big by (simp only: if_True simp_thms)
    moreover have "pt_is_hole m p pages" "p \<le> page" using hole al by (auto simp: p_def s)
    ultimately show ?thesis by (rule lazy)
  next
    case cage
    have "mmap_anonymous s page pages prot flags = (case pt_map_lazy (h_alloc h) m page pages prot of
          (err, m') \<Rightarrow> Some (if err < 0 then err else int (page * PAGE_BYTES), (m', h)))"
      unfolding mmap_anonymous_def Let_def s fst_conv snd_conv none_def[symmetric] using cage by (simp only: if_True if_False simp_thms)
    then show ?thesis by (rule lazy) (use hole in \<open>simp_all add: s\<close>)
  next
    case full
    have "mmap_anonymous s page pages prot flags = Some (ENOMEM, s)"
      unfolding mmap_anonymous_def Let_def s fst_conv snd_conv none_def[symmetric] using full by (simp only: if_True if_False simp_thms)
    then show ?thesis using inv by auto
  next
    case map
    define c where "c = (if none then h else anon_add (int pages) h)"
    have c: "as_inv oth {} (m, c)" "\<And>q. page_view (m, c) q = page_view s q" using i by (simp_all add: c_def s)
    obtain err s' where n: "pt_map_nothing (m, c) page pages prot = Some (err, s')" "as_inv oth {} s'"
        "touches {q. page \<le> q \<and> q < page + pages} (m, c) s'" "err \<noteq> 0 \<longrightarrow> s' = (m, c)"
        "\<forall>q < MEM_PAGES. err = 0 \<and> page \<le> q \<and> q < page + pages \<longrightarrow> page_view s' q = Some (prot OR P_ANONYMOUS, \<lambda>_. 0)"
      using pt_map_nothing_zero[OF c(1) r, of prot] by (elim exE conjE) (rule that)
    have sgn: "err = 0 \<or> err < 0" using pt_map_nothing_inv[OF c(1) r, of prot] n(1) by auto
    have run: "mmap_anonymous s page pages prot flags =
        (if err < 0 then Some (err, (fst s', if none then snd s' else anon_add (- int pages) (snd s')))
         else Some (int (page * PAGE_BYTES), s'))"
      unfolding mmap_anonymous_def Let_def s fst_conv snd_conv none_def[symmetric] c_def[symmetric] using map n(1)
      by (simp only: if_False option.case prod.case)
    show ?thesis
    proof (cases "err < 0")
      case True
      then have "s' = (m, c)" using n(4) by auto
      then show ?thesis using True run c by (auto simp: s)
    next
      case False
      then have z: "err = 0" using sgn by simp
      have "maps_fresh s page pages s'"
        unfolding maps_fresh_def
      proof (intro allI impI)
        fix q assume q: "q < MEM_PAGES"
        show "if page \<le> q \<and> q < page + pages then fresh_page s' q else page_view s' q = page_view s q"
          using n(5) z q touches_view[OF n(3) c(1) n(2) q] c(2) by (auto simp: fresh_page_def zero_page_def)
      qed
      moreover have "\<not> int page * int PAGE_BYTES < 0" by (simp add: not_less)
      ultimately show ?thesis using run False n(2) hole by (auto simp: s)
    qed
  qed
qed

text \<open>Claim C12. An anonymous \<^verbatim>\<open>mmap\<close> without \<^verbatim>\<open>MAP_FIXED\<close> never displaces anything: whatever the hint, the
  length and the free memory, the call returns; on success its range was a hole before, holds only zero or
  reserved pages after, and every other page is unchanged; on an error no page has changed.\<close>

theorem mmap_never_displaces:
  assumes "as_inv oth {} s" "\<not> has flags MMAP_FIXED" "has flags MMAP_ANONYMOUS"
  shows "\<exists>res s'. sys_mmap64 file s addr len prot flags offset = Some (res, s') \<and> as_inv oth {} s'
     \<and> (res < 0 \<longrightarrow> (\<forall>q < MEM_PAGES. page_view s' q = page_view s q))
     \<and> (0 \<le> res \<longrightarrow> (\<exists>p. res = int (p * PAGE_BYTES)
          \<and> pt_is_hole (fst s) p ((len + PAGE_BYTES - 1) mod ADDR_MOD div PAGE_BYTES)
          \<and> maps_fresh s p ((len + PAGE_BYTES - 1) mod ADDR_MOD div PAGE_BYTES) s'))"
proof -
  define pages where "pages = (len + PAGE_BYTES - 1) mod ADDR_MOD div PAGE_BYTES"
  obtain m h where s: "s = (m, h)" by force
  have fail: ?thesis if "sys_mmap64 file s addr len prot flags offset = Some (e, s)" "e < 0" for e
    using that assms(1) by auto
  show ?thesis
  proof (cases "len = 0 \<or> prot AND NOT P_RWX \<noteq> 0 \<or> has flags MMAP_PRIVATE \<and> has flags MMAP_SHARED \<or> pages = 0")
    case True
    then have "sys_mmap64 file s addr len prot flags offset = Some (EINVAL, s)"
      unfolding sys_mmap64_def do_mmap_def Let_def pages_def[symmetric] by auto
    then show ?thesis by (rule fail) simp
  next
    case ok: False
    then have run: "sys_mmap64 file s addr len prot flags offset = do_mmap file s addr len prot flags (offset mod 2 ^ 32)"
        "0 < pages" by (auto simp: sys_mmap64_def)
    show ?thesis
    proof (cases "mmap_place m addr pages prot flags")
      case (Inl e)
      have "e = EINVAL \<or> e = ENOMEM" using Inl
        by (auto simp: mmap_place_def mmap_hint_page_def Let_def split: if_splits sum.splits option.splits prod.splits)
      moreover have "do_mmap file s addr len prot flags (offset mod 2 ^ 32) = Some (e, s)"
        unfolding do_mmap_def Let_def pages_def[symmetric] s using ok Inl by simp
      ultimately show ?thesis using fail run(1) by auto
    next
      case (Inr pm)
      obtain page m' where pm: "pm = (page, m')" by force
      have pl: "pgdir m' = pgdir m" "reservations m' = reservations m" "page + pages \<le> USER_ADDR_MAX_PAGE" "pt_is_hole m page pages"
        using mmap_place_spec[OF Inr[unfolded pm] run(2)] assms(2) by auto
      have hole': "pt_is_hole m' p pages = pt_is_hole m p pages" for p
        using same_table_lookup[OF pl(1)] pl(2) by (simp add: pt_is_hole_def reservations_overlap_def)
      have inv': "as_inv oth {} (m', h)" using as_inv_fields[OF _ pl(1)] assms(1) by (simp add: s)
      have view': "page_view (m', h) q = page_view s q" for q by (simp add: s page_view_def same_table_lookup[OF pl(1)])
      define prot' where "prot' = (if has flags MMAP_SHARED then prot OR P_SHARED else prot)"
      have "USER_ADDR_MAX_PAGE \<le> MEM_PAGES" by (simp add: USER_ADDR_MAX_PAGE_def MEM_PAGES_def)
      then have r: "page + pages \<le> MEM_PAGES" using pl(3) by simp
      have "do_mmap file s addr len prot flags (offset mod 2 ^ 32) = mmap_anonymous (m', h) page pages prot' flags"
        unfolding do_mmap_def Let_def pages_def[symmetric] prot'_def s using ok Inr pm assms(3) by simp
      moreover have "maps_fresh (m', h) p n s' = maps_fresh s p n s'" for p n s' by (simp add: maps_fresh_def view')
      moreover have "pt_is_hole (fst (m', h)) page pages" using hole' pl(4) by simp
      ultimately obtain res s' where a: "sys_mmap64 file s addr len prot flags offset = Some (res, s')" "as_inv oth {} s'"
          "res < 0 \<longrightarrow> (\<forall>q < MEM_PAGES. page_view s' q = page_view s q)"
          "0 \<le> res \<longrightarrow> (\<exists>p. res = int (p * PAGE_BYTES) \<and> p \<le> page \<and> pt_is_hole m p pages \<and> maps_fresh s p pages s')"
        using mmap_anonymous_spec[OF inv' _ r, of prot' flags] run(1) unfolding view' fst_conv hole' by auto
      then show ?thesis unfolding pages_def[symmetric] by (intro exI conjI) (auto simp: s)
    qed
  qed
qed

theorem mmap_never_displaces_witness:
  "\<exists>res s'. sys_mmap64 NoFd (mem_init, no_host) 0 8192 P_WRITE (MMAP_PRIVATE OR MMAP_ANONYMOUS) 0 = Some (res, s')
     \<and> as_inv (\<lambda>_. 0) {} s'"
proof -
  have "\<not> has (MMAP_PRIVATE OR MMAP_ANONYMOUS) MMAP_FIXED" "has (MMAP_PRIVATE OR MMAP_ANONYMOUS) MMAP_ANONYMOUS"
    by (simp_all add: has_def MMAP_PRIVATE_def MMAP_ANONYMOUS_def MMAP_FIXED_def)
  from mmap_never_displaces[OF as_inv_init this, of NoFd 0 8192 P_WRITE 0] show ?thesis by blast
qed

end
