(* ===== verification/Memory_Calls.thy ===== *)
theory Memory_Calls
  imports Memory_Map_Props
begin

text \<open>
  Further properties of the memory calls: release of an address space, the program break, \<^verbatim>\<open>madvise\<close>,
  and the places where the calls do not do what their callers rely on.
\<close>

lemma whole_pages:
  assumes "0 < n" "n \<le> MEM_PAGES"
  shows "(n * PAGE_BYTES + PAGE_BYTES - 1) mod ADDR_MOD div PAGE_BYTES = n"
proof -
  have "n * PAGE_BYTES + PAGE_BYTES - 1 < ADDR_MOD"
    using assms by (simp add: MEM_PAGES_def PAGE_BYTES_def ADDR_MOD_def)
  moreover have "n * PAGE_BYTES + PAGE_BYTES - 1 = PAGE_BYTES - 1 + n * PAGE_BYTES" by (simp add: PAGE_BYTES_def)
  moreover have "(PAGE_BYTES - 1) div PAGE_BYTES = 0" by (simp add: PAGE_BYTES_def)
  ultimately show ?thesis by simp
qed

text \<open>Claim C21. The search for a hole below 4 GB is exact: from any start it returns a range of unmapped pages
  above the guard area when there is one at or below the start, the highest such, and \<^verbatim>\<open>BAD_PAGE\<close> only when
  there is none.\<close>

theorem hole_search_exact:
  assumes "start < MEM_PAGES" "0 < n"
  shows "(pt_find_hole_from m n start = BAD_PAGE \<longleftrightarrow> (\<nexists>r. r + n \<le> start + 1 \<and> free_range m r n))
     \<and> (pt_find_hole_from m n start \<noteq> BAD_PAGE \<longrightarrow>
          free_range m (pt_find_hole_from m n start) n \<and> pt_find_hole_from m n start + n \<le> start + 1)"
  using find_hole_from_spec[OF assms, of m] by (cases "pt_find_hole_from m n start = BAD_PAGE") auto

theorem hole_search_exact_witness:
  "pt_find_hole_from mem_init 2 5000 \<noteq> BAD_PAGE \<longleftrightarrow> (\<exists>r. r + 2 \<le> 5001 \<and> free_range mem_init r 2)"
  using hole_search_exact[of 5000 2 mem_init] by (simp add: MEM_PAGES_def)

section \<open>Release\<close>

text \<open>Claim C27. Destroying an address space gives back everything it held: a host mapping survives exactly when
  another address space still refers to it, with the count of those references.\<close>

theorem destroy_frees_all:
  assumes "as_inv oth {} s"
  shows "\<exists>m' h'. mem_destroy s = Some (m', h') \<and> pgdir m' = None \<and> reservations m' = []
     \<and> (\<forall>d. dcount (oth d) False (h_data h' d))"
proof -
  obtain m' h' where s': "pt_unmap_always s 0 MEM_PAGES = Some (m', h')" "as_inv oth {} (m', h')"
      "\<forall>q < MEM_PAGES. mem_pt m' q = (if 0 \<le> q \<and> q < 0 + MEM_PAGES then None else mem_pt (fst s) q)"
    using pt_unmap_always_inv[OF assms, of 0 MEM_PAGES] by auto
  have "data_refs m' d = 0" for d using s'(3) by (simp add: data_refs_def pt4.refs_def)
  then have "dcount (oth d) False (h_data h' d)" for d using as_invD(2)[OF s'(2), of d] by simp
  then show ?thesis using s'(1) by (simp add: mem_destroy_def)
qed

theorem destroy_frees_all_witness:
  "\<exists>s m' h'. page_view s 5 \<noteq> None \<and> mem_destroy s = Some (m', h') \<and> (\<forall>d. h_data h' d = None)"
proof -
  obtain s e where s: "as_inv (\<lambda>_. 0) {} s" "mem_pt (fst s) 5 = Some e" using write_page_5 by blast
  have p: "(5::nat) < MEM_PAGES" by (simp add: MEM_PAGES_def)
  have "page_view s 5 \<noteq> None" using page_view_None[OF s(1) p] s(2) by simp
  moreover obtain m' h' where d: "mem_destroy s = Some (m', h')" "\<forall>d. dcount 0 False (h_data h' d)"
    using destroy_frees_all[OF s(1)] by blast
  have "h_data h' d = None" for d using d(2)[rule_format, of d] by (auto simp: dcount_def split: option.splits)
  ultimately show ?thesis using d(1) by blast
qed

section \<open>Where the calls go wrong\<close>

text \<open>\<^verbatim>\<open>mmap(MAP_FIXED, PROT_NONE)\<close> of 128 MB or more leaves what was mapped there in place: the call
  reports success and every page of the range keeps its old bytes and permissions.\<close>

theorem mmap_fixed_lazy_keeps_old:
  assumes "h_alloc (snd s)" "page \<noteq> 0" "0x8000 \<le> n" "page + n \<le> STACK_TOP_PAGE"
  shows "\<exists>s'. sys_mmap64 NoFd s (page * PAGE_BYTES) (n * PAGE_BYTES) 0 (MMAP_FIXED OR MMAP_PRIVATE OR MMAP_ANONYMOUS) 0
      = Some (int (page * PAGE_BYTES), s') \<and> (\<forall>q. page_view s' q = page_view s q)"
proof -
  define flags where "flags = (MMAP_FIXED OR MMAP_PRIVATE OR MMAP_ANONYMOUS :: u32)"
  have fl: "has flags MMAP_FIXED" "has flags MMAP_ANONYMOUS" "\<not> has flags MMAP_SHARED" "\<not> has flags MMAP_NORESERVE"
    by (simp_all add: flags_def has_def MMAP_FIXED_def MMAP_PRIVATE_def MMAP_ANONYMOUS_def MMAP_SHARED_def MMAP_NORESERVE_def)
  have none: "\<not> has 0 P_READ" "\<not> has 0 P_WRITE" "\<not> has 0 P_EXEC" by (simp_all add: has_def)
  have n: "(n * PAGE_BYTES + PAGE_BYTES - 1) mod ADDR_MOD div PAGE_BYTES = n"
    using assms(3,4) by (intro whole_pages) (simp_all add: STACK_TOP_PAGE_def MEM_PAGES_def)
  have pos: "n * PAGE_BYTES \<noteq> 0" "page * PAGE_BYTES \<noteq> 0" "n \<noteq> 0" "page < 0x100000"
    using assms(2-4) by (simp_all add: PAGE_BYTES_def STACK_TOP_PAGE_def)
  have pg: "page * PAGE_BYTES mod PAGE_BYTES = 0" "page * PAGE_BYTES div PAGE_BYTES = page" "\<not> page + n > STACK_TOP_PAGE"
    using assms(4) by (simp_all add: PAGE_BYTES_def)
  have "mmap_hint_page (fst s) (page * PAGE_BYTES) n flags = Inr (Some page)"
    unfolding mmap_hint_page_def Let_def pg if_P[OF pos(4)] using pos(2) fl(1) pg(3) by simp
  then have place: "mmap_place (fst s) (page * PAGE_BYTES) n 0 flags = Inr (page, fst s)"
    by (simp add: mmap_place_def)
  obtain err m' where lz: "pt_map_lazy (h_alloc (snd s)) (fst s) page n 0 = (err, m')" by force
  then have m': "err = 0" "pgdir m' = pgdir (fst s)" using assms(1) by (auto simp: pt_map_lazy_def mem_changed_def)
  have "mmap_anonymous s page n 0 flags = Some (int (page * PAGE_BYTES), (m', snd s))"
    using fl(4) none assms(3) lz m'(1) by (simp add: mmap_anonymous_def Let_def)
  then have "sys_mmap64 NoFd s (page * PAGE_BYTES) (n * PAGE_BYTES) 0 flags 0 = Some (int (page * PAGE_BYTES), (m', snd s))"
    unfolding sys_mmap64_def do_mmap_def Let_def n using pos place fl by simp
  moreover have "page_view (m', snd s) q = page_view s q" for q
    by (simp add: page_view_def same_table_lookup[OF m'(2)])
  ultimately show ?thesis unfolding flags_def by blast
qed

theorem mmap_fixed_lazy_keeps_old_witness:
  "\<exists>s s'. page_view s 5 \<noteq> None
     \<and> sys_mmap64 NoFd s (5 * PAGE_BYTES) (0x8000 * PAGE_BYTES) 0 (MMAP_FIXED OR MMAP_PRIVATE OR MMAP_ANONYMOUS) 0
       = Some (int (5 * PAGE_BYTES), s') \<and> page_view s' 5 \<noteq> None"
proof -
  obtain s e where s: "as_inv (\<lambda>_. 0) {} s" "mem_pt (fst s) 5 = Some e" "h_alloc (snd s)" using write_page_5 by blast
  have p: "(5::nat) < MEM_PAGES" by (simp add: MEM_PAGES_def)
  have v: "page_view s 5 \<noteq> None" using page_view_None[OF s(1) p] s(2) by simp
  have b: "(5 :: nat) \<noteq> 0" "0x8000 \<le> (0x8000 :: nat)" "5 + 0x8000 \<le> STACK_TOP_PAGE" by (simp_all add: STACK_TOP_PAGE_def)
  obtain s' where "sys_mmap64 NoFd s (5 * PAGE_BYTES) (0x8000 * PAGE_BYTES) 0 (MMAP_FIXED OR MMAP_PRIVATE OR MMAP_ANONYMOUS) 0
       = Some (int (5 * PAGE_BYTES), s')" "\<forall>q. page_view s' q = page_view s q"
    using mmap_fixed_lazy_keeps_old[OF s(3) b] by blast
  moreover from this(2) have "page_view s' 5 \<noteq> None" using v by metis
  ultimately show ?thesis using v by blast
qed

text \<open>\<^verbatim>\<open>mremap\<close> rounds lengths down to pages: growing a mapping into part of another page reports
  success and maps nothing.\<close>

theorem mremap_drops_partial_page:
  assumes "addr mod PAGE_BYTES = 0" "old_len div PAGE_BYTES = new_len div PAGE_BYTES"
  shows "\<exists>s'. sys_mremap s addr old_len new_len MREMAP_MAYMOVE = Some (int addr, s')
     \<and> (\<forall>q. page_view s' q = page_view s q)"
proof -
  have fl: "MREMAP_MAYMOVE AND NOT (MREMAP_MAYMOVE OR MREMAP_FIXED) = 0" "\<not> has MREMAP_MAYMOVE MREMAP_FIXED"
    by (simp_all add: MREMAP_MAYMOVE_def MREMAP_FIXED_def has_def)
  obtain s' where u: "pt_unmap s (addr div PAGE_BYTES + new_len div PAGE_BYTES) 0 = Some (0, s')"
      "pgdir (fst s') = pgdir (fst s)" "snd s' = snd s"
    by (cases s) (auto simp: pt_unmap_def pt_unmap_always_def Let_def for_pages.simps mem_changed_def mem_remove_reservations_def)
  have "page_view s' q = page_view s q" for q
    using same_table_lookup[OF u(2)] u(3) by (simp add: page_view_def)
  then show ?thesis using assms fl u(1) by (simp add: sys_mremap_def Let_def)
qed

theorem mremap_drops_partial_page_witness:
  "\<exists>s'. sys_mremap (mem_init, no_host) 4096 4096 8191 MREMAP_MAYMOVE = Some (4096, s') \<and> page_view s' 2 = None"
  using mremap_drops_partial_page[of 4096 4096 8191 "(mem_init, no_host)"] by (auto simp: PAGE_BYTES_def page_view_def)

lemma del_alias: "mem_pt_del m (p + MEM_PAGES) = mem_pt_del m p"
proof -
  have i: "PT_INDEX (p + MEM_PAGES) k = PT_INDEX p k" for k
    using index_mod[of "p + MEM_PAGES" k] index_mod[of p k] by simp
  then show ?thesis by (simp add: mem_pt_del_def pt_assign_def mem_pt_def mem_l3_def split: option.split)
qed

lemma look_alias: "mem_pt m (p + MEM_PAGES) = mem_pt m p"
  using mem_pt_mod[of m "p + MEM_PAGES"] mem_pt_mod[of m p] by simp

text \<open>Addresses are looked up by their low 48 bits only: unmapping an address outside the guest's range
  succeeds and takes away the page it aliases.\<close>

theorem munmap_above_range_aliases:
  assumes "as_inv oth {} s" "page < MEM_PAGES" "page_view s page \<noteq> None"
  shows "\<exists>s'. sys_munmap s ((page + MEM_PAGES) * PAGE_BYTES) PAGE_BYTES = Some (0, s') \<and> page_view s' page = None"
proof -
  obtain m h where s: "s = (m, h)" by force
  let ?p = "page + MEM_PAGES"
  define m1 where "m1 = (if size_sub (?p + 1) 1 > mmap_hint m then m\<lparr>mmap_hint := size_sub (?p + 1) 1\<rparr> else m)"
  define m2 where "m2 = mem_remove_reservations (h_alloc h) m1 ?p 1"
  define m3 where "m3 = m2\<lparr>m_invalidated := ?p # m_invalidated m2\<rparr>"
  have t: "pgdir m3 = pgdir m" "pgdir m2 = pgdir m" by (simp_all add: m1_def m2_def m3_def mem_remove_reservations_def)
  have inv3: "as_inv oth {} (m3, h)" using as_inv_fields[OF _ t(1)] assms(1) by (simp add: s)
  obtain e where e: "mem_pt m page = Some e"
    using assms(3) by (cases "mem_pt m page") (simp_all add: s page_view_def)
  obtain d x where x: "e_data e = Some d" "h_data h d = Some x" "0 < d_refs x"
    using live_data[OF assms(1), of page e] e assms(2) by (auto simp: s)
  have ok3: "mem_ok m3" using inv3 by (simp add: as_inv_def)
  obtain m4 where m4: "mem_pt_del m3 page = Some m4" "\<forall>q < MEM_PAGES. mem_pt m4 q = (if q = page then None else mem_pt m3 q)"
    using mem_pt_del_spec[OF ok3 assms(2)] by blast
  let ?h = "if has (e_flags e) P_ANONYMOUS then anon_add (- 1) h else h"
  obtain h1 where h1: "data_put d ?h = Some h1" using data_put_spec[of ?h d x] x by auto
  have step: "unmap_page (m2, h) ?p = Some (m4, h1)"
    using e x(1) m4(1) h1 same_table_lookup[OF t(2)] by (simp add: unmap_page_def look_alias del_alias flip: m3_def)
  have last': "for_pages fst unmap_page (mem_next_page m4 ?p) (?p + 1) (m4, h1) = Some (m4, h1)"
    using mem_next_page_spec(1)[of ?p m4] by (subst for_pages.simps) simp
  have "for_pages fst unmap_page ?p (?p + 1) (m2, h) = Some (m4, h1)"
    using step last' by (subst for_pages.simps) simp
  then have "pt_unmap_always s ?p 1 = Some (mem_changed m4, h1)"
    unfolding pt_unmap_always_def Let_def s fst_conv snd_conv m1_def[symmetric] m2_def[symmetric] by simp
  moreover have "(PAGE_BYTES + PAGE_BYTES - 1) mod ADDR_MOD div PAGE_BYTES = 1" "?p * PAGE_BYTES div PAGE_BYTES = ?p"
    by (simp_all add: PAGE_BYTES_def ADDR_MOD_def)
  ultimately have "sys_munmap s (?p * PAGE_BYTES) PAGE_BYTES = Some (0, (mem_changed m4, h1))"
    by (simp add: sys_munmap_def)
  moreover have "page_view (mem_changed m4, h1) page = None" using m4(2) assms(2) by (simp add: page_view_def)
  ultimately show ?thesis by blast
qed

theorem munmap_above_range_aliases_witness:
  "\<exists>s s'. page_view s 5 \<noteq> None \<and> sys_munmap s (0x1000000005000) 4096 = Some (0, s') \<and> page_view s' 5 = None"
proof -
  obtain s e where s: "as_inv (\<lambda>_. 0) {} s" "mem_pt (fst s) 5 = Some e" using write_page_5 by blast
  have p: "(5::nat) < MEM_PAGES" "(5 + MEM_PAGES) * 4096 = 0x1000000005000" "PAGE_BYTES = 4096"
    by (simp_all add: MEM_PAGES_def PAGE_BYTES_def)
  have v: "page_view s 5 \<noteq> None" using page_view_None[OF s(1) p(1)] s(2) by simp
  show ?thesis using munmap_above_range_aliases[OF s(1) p(1) v] v unfolding p(2,3) by blast
qed

section \<open>The count of anonymous pages\<close>

lemma unmap_page_anon:
  assumes "unmap_page s p = Some s'" "mem_pt (fst s) p = Some e" "has (e_flags e) P_ANONYMOUS"
  shows "h_anon (snd s') = h_anon (snd s) - 1"
proof -
  have put: "h_anon h' = h_anon h" if "data_put d h = Some h'" for d h h'
    using that by (auto simp: data_put_def split: Option.bind_splits if_splits)
  show ?thesis using assms by (cases s) (auto simp: unmap_page_def split: Option.bind_splits dest!: put)
qed

lemma iter_unmap_anon:
  assumes "as_inv oth {} s" "distinct ps"
    "\<forall>p \<in> set ps. p < MEM_PAGES \<and> (\<exists>e. mem_pt (fst s) p = Some e \<and> has (e_flags e) P_ANONYMOUS)"
    "iter_opt unmap_page s ps = Some s'"
  shows "h_anon (snd s') = h_anon (snd s) - int (length ps)"
  using assms
proof (induction ps arbitrary: s)
  case Nil
  then show ?case by simp
next
  case (Cons p ps)
  have p: "p < MEM_PAGES" using Cons.prems(3) by simp
  obtain s1 where s1: "unmap_page s p = Some s1" "as_inv oth {} s1"
      "\<forall>q < MEM_PAGES. mem_pt (fst s1) q = (if q = p then None else mem_pt (fst s) q)"
    using unmap_page_inv[OF Cons.prems(1) p] by auto
  have "\<forall>q \<in> set ps. q < MEM_PAGES \<and> (\<exists>e. mem_pt (fst s1) q = Some e \<and> has (e_flags e) P_ANONYMOUS)"
    using Cons.prems(2,3) s1(3) by auto
  then have "h_anon (snd s') = h_anon (snd s1) - int (length ps)"
    using Cons.IH[OF s1(2)] Cons.prems(2,4) s1(1) by simp
  moreover have "h_anon (snd s1) = h_anon (snd s) - 1"
    using Cons.prems(3) unmap_page_anon[OF s1(1)] by auto
  ultimately show ?case by simp
qed

lemma unmap_always_anon:
  assumes inv: "as_inv oth {} s" and r: "start + n \<le> MEM_PAGES"
    and anon: "\<forall>q. start \<le> q \<and> q < start + n \<longrightarrow> (\<exists>e. mem_pt (fst s) q = Some e \<and> has (e_flags e) P_ANONYMOUS)"
    and run: "pt_unmap_always s start n = Some s'"
  shows "h_anon (snd s') = h_anon (snd s) - int n"
proof -
  obtain m h where s: "s = (m, h)" by force
  define m1 where "m1 = (if size_sub (start + n) 1 > mmap_hint m then m\<lparr>mmap_hint := size_sub (start + n) 1\<rparr> else m)"
  define m2 where "m2 = mem_remove_reservations (h_alloc h) m1 start n"
  have t: "pgdir m2 = pgdir m" by (simp add: m1_def m2_def mem_remove_reservations_def)
  have inv2: "as_inv oth {} (m2, h)" using as_inv_fields[OF _ t] inv by (simp add: s)
  obtain s2 where s2: "for_pages fst unmap_page start (start + n) (m2, h) = Some s2" "snd s' = snd s2"
    using run unfolding pt_unmap_always_def Let_def s fst_conv snd_conv m1_def[symmetric] m2_def[symmetric] by auto
  have "iter_opt unmap_page (m2, h) [start..<start + n] = Some s2"
    using s2(1) for_pages_every[of fst unmap_page, OF unmap_absent r, of start "(m2, h)"] by simp
  moreover have "\<forall>p \<in> set [start..<start + n]. p < MEM_PAGES
      \<and> (\<exists>e. mem_pt (fst (m2, h)) p = Some e \<and> has (e_flags e) P_ANONYMOUS)"
    using anon r same_table_lookup[OF t] by (auto simp: s)
  ultimately have "h_anon (snd s2) = h_anon h - int (length [start..<start + n])"
    using iter_unmap_anon[OF inv2 distinct_upt] by auto
  then show ?thesis using s2(2) by (simp add: s)
qed

text \<open>Mapping a hole does not touch the count.\<close>

lemma map_page_anon:
  assumes "map_page d st off fl s p = Some s'" "mem_pt (fst s) p = None"
  shows "h_anon (snd s') = h_anon (snd s)"
  using assms by (auto simp: map_page_def data_get_def split: Option.bind_splits prod.splits)

lemma iter_map_anon:
  assumes "as_inv oth {d} s" "h_data (snd s) d = Some x" "distinct ps"
    "\<forall>p \<in> set ps. p < MEM_PAGES \<and> mem_pt (fst s) p = None" "iter_opt (map_page d st off fl) s ps = Some s'"
  shows "h_anon (snd s') = h_anon (snd s)"
  using assms
proof (induction ps arbitrary: s x)
  case Nil
  then show ?case by simp
next
  case (Cons p ps)
  have p: "p < MEM_PAGES" "mem_pt (fst s) p = None" using Cons.prems(4) by simp_all
  obtain s1 x1 where s1: "map_page d st off fl s p = Some s1" "as_inv oth {d} s1" "h_data (snd s1) d = Some x1"
      "\<forall>q < MEM_PAGES. mem_pt (fst s1) q = (if q = p then Some (map_entry d st off fl p) else mem_pt (fst s) q)"
    using map_page_inv[OF Cons.prems(1) p(1) Cons.prems(2), of st off fl] p(2) by auto
  have "\<forall>q \<in> set ps. q < MEM_PAGES \<and> mem_pt (fst s1) q = None" using Cons.prems(3,4) s1(4) by auto
  then have "h_anon (snd s') = h_anon (snd s1)"
    using Cons.IH[OF s1(2,3)] Cons.prems(3,5) s1(1) by simp
  then show ?case using map_page_anon[OF s1(1) p(2)] by simp
qed

lemma map_nothing_anon:
  assumes inv: "as_inv oth {} s" and r: "start + n \<le> MEM_PAGES"
    and free: "\<forall>q. start \<le> q \<and> q < start + n \<longrightarrow> mem_pt (fst s) q = None"
    and run: "pt_map_nothing s start n fl = Some (err, s')"
  shows "h_anon (snd s') = h_anon (snd s)"
proof (cases "n = 0 \<or> \<not> h_alloc (snd s)")
  case True
  then show ?thesis using run by (auto simp: pt_map_nothing_def split: if_splits)
next
  case False
  obtain m h where s: "s = (m, h)" by force
  define d where "d = h_next h"
  define h0 where "h0 = h\<lparr>h_data := (h_data h)(d \<mapsto> \<lparr>d_size = n * PAGE_BYTES, d_refs = 0, d_bytes = (\<lambda>_. 0), d_fd = None\<rparr>), h_next := d + 1\<rparr>"
  have it: "iter_opt (map_page d start 0 (fl OR P_ANONYMOUS)) (m, h0) [start..<start + n] = Some s'"
    using run False by (auto simp: pt_map_nothing_def pt_map_def s d_def h0_def Let_def)
  have none: "h_data h d = None" using as_invD(3)[OF inv, of d] by (simp add: s d_def)
  have zero: "data_refs m d = 0 \<and> oth d = 0" using as_invD(2)[OF inv, of d] none by (simp add: s dcount_def)
  have "as_inv oth {d} (m, h0)"
  proof (rule as_invI)
    fix c show "dcount (data_refs m c + oth c) (c \<in> {d}) (h_data h0 c)"
      using as_invD(2)[OF inv, of c] zero by (cases "c = d") (simp_all add: s h0_def dcount_def)
  next
    fix c assume "h_next h0 \<le> c"
    then show "h_data h0 c = None" using as_invD(3)[OF inv, of c] by (simp add: s h0_def d_def)
  qed (use inv in \<open>simp add: as_inv_def s\<close>)
  moreover have "h_data (snd (m, h0)) d \<noteq> None" by (simp add: h0_def)
  moreover have "\<forall>p \<in> set [start..<start + n]. p < MEM_PAGES \<and> mem_pt (fst (m, h0)) p = None" using free r by (auto simp: s)
  ultimately have "h_anon (snd s') = h_anon h0" using iter_map_anon[OF _ _ distinct_upt _ it] by auto
  then show ?thesis by (simp add: s h0_def)
qed

text \<open>The count that limits anonymous memory is not kept exact: mapping an inaccessible region of less
  than 128 MB and unmapping it again leaves the guest's memory as it was and lowers the count by the
  region's pages, so a guest can lower the count without bound and the limit never applies.\<close>

theorem anon_count_drifts:
  assumes "as_inv oth {} s" "0 < n" "n < 0x8000"
    "sys_mmap64 NoFd s 0 (n * PAGE_BYTES) 0 (MMAP_PRIVATE OR MMAP_ANONYMOUS) 0 = Some (res, s1)" "0 \<le> res"
    "h_alloc (snd s)"
  shows "\<exists>s2. sys_munmap s1 (nat res) (n * PAGE_BYTES) = Some (0, s2) \<and> h_anon (snd s2) = h_anon (snd s) - int n
     \<and> (\<forall>q < MEM_PAGES. page_view s2 q = page_view s q)"
proof -
  define flags where "flags = (MMAP_PRIVATE OR MMAP_ANONYMOUS :: u32)"
  have fl: "has flags MMAP_ANONYMOUS" "\<not> has flags MMAP_SHARED" "\<not> has flags MMAP_NORESERVE" "\<not> has flags MMAP_FIXED"
    by (simp_all add: flags_def has_def MMAP_PRIVATE_def MMAP_ANONYMOUS_def MMAP_SHARED_def MMAP_NORESERVE_def MMAP_FIXED_def)
  have none: "\<not> has 0 P_READ" "\<not> has 0 P_WRITE" "\<not> has 0 P_EXEC" by (simp_all add: has_def)
  have pos: "n * PAGE_BYTES \<noteq> 0" "n \<noteq> 0" using assms(2) by (simp_all add: PAGE_BYTES_def)
  have n: "(n * PAGE_BYTES + PAGE_BYTES - 1) mod ADDR_MOD div PAGE_BYTES = n"
    using assms(2,3) by (intro whole_pages) (simp_all add: MEM_PAGES_def)
  obtain m h where s: "s = (m, h)" by force
  have mm: "do_mmap NoFd s 0 (n * PAGE_BYTES) 0 flags 0 = Some (res, s1)"
  proof -
    have "sys_mmap64 NoFd s 0 (n * PAGE_BYTES) 0 flags 0 = do_mmap NoFd s 0 (n * PAGE_BYTES) 0 flags 0"
      using pos fl(2) by (simp add: sys_mmap64_def)
    then show ?thesis using assms(4) by (simp add: flags_def)
  qed
  obtain page m' where pl: "mmap_place m 0 n 0 flags = Inr (page, m')"
  proof (cases "mmap_place m 0 n 0 flags")
    case (Inl e)
    then have "res = e" using mm pos(2) unfolding do_mmap_def Let_def n by (simp add: s)
    moreover have "e < 0" using Inl
      by (auto simp: mmap_place_def mmap_hint_page_def Let_def split: if_splits sum.splits option.splits prod.splits)
    ultimately show ?thesis using assms(5) by simp
  qed (use that in force)
  have p: "pgdir m' = pgdir m" "page + n \<le> USER_ADDR_MAX_PAGE" "pt_is_hole m page n"
    using mmap_place_spec[OF pl assms(2)] fl(4) by auto
  have "USER_ADDR_MAX_PAGE \<le> MEM_PAGES" by (simp add: USER_ADDR_MAX_PAGE_def MEM_PAGES_def)
  then have r: "page + n \<le> MEM_PAGES" using p(2) by simp
  have inv': "as_inv oth {} (m', h)" using as_inv_fields[OF _ p(1)] assms(1) by (simp add: s)
  have free: "\<forall>q. page \<le> q \<and> q < page + n \<longrightarrow> mem_pt m' q = None"
    using hole_unmapped[OF p(3)] same_table_lookup[OF p(1)] by simp
  have mm2: "mmap_anonymous (m', h) page n 0 flags = Some (res, s1)"
    using mm pos(2) pl fl(1,2) unfolding do_mmap_def Let_def n by (simp add: s)
  obtain err s0 where t: "pt_map_nothing (m', h) page n 0 = Some (err, s0)" "as_inv oth {} s0" "touches {q. page \<le> q \<and> q < page + n} (m', h) s0"
      "h_alloc h \<longrightarrow> err = 0" "\<forall>q < MEM_PAGES. err = 0 \<and> page \<le> q \<and> q < page + n \<longrightarrow> page_view s0 q = Some (0 OR P_ANONYMOUS, \<lambda>_. 0)"
    using pt_map_nothing_zero[OF inv' r, of 0] by auto
  have e0: "err = 0" using t(4) assms(6) by (simp add: s)
  have "res = int (page * PAGE_BYTES) \<and> s1 = s0"
    using mm2 fl(3) none assms(3) t(1) e0 by (simp add: mmap_anonymous_def Let_def)
  then have res: "res = int (page * PAGE_BYTES)" "s1 = s0" by blast+
  have anon: "\<forall>q. page \<le> q \<and> q < page + n \<longrightarrow> (\<exists>e. mem_pt (fst s0) q = Some e \<and> has (e_flags e) P_ANONYMOUS)"
  proof (intro allI impI)
    fix q assume q: "page \<le> q \<and> q < page + n"
    then have "page_view s0 q = Some (P_ANONYMOUS, \<lambda>_. 0)" using t(5) e0 r by simp
    then obtain e where "mem_pt (fst s0) q = Some e" "e_flags e = P_ANONYMOUS"
      by (cases "mem_pt (fst s0) q") (auto simp: page_view_def split: Option.bind_splits)
    then show "\<exists>e. mem_pt (fst s0) q = Some e \<and> has (e_flags e) P_ANONYMOUS" by (auto simp: has_def P_ANONYMOUS_def)
  qed
  obtain s2 where u: "pt_unmap_always s0 page n = Some s2" "as_inv oth {} s2"
      "\<forall>q < MEM_PAGES. page_view s2 q = (if page \<le> q \<and> q < page + n then None else page_view s0 q)"
    using munmap_exact[OF t(2) r] by blast
  have cnt: "h_anon (snd s2) = h_anon h - int n"
    using unmap_always_anon[OF t(2) r anon u(1)] map_nothing_anon[OF inv' r _ t(1)] free by simp
  have view: "page_view s2 q = page_view s q" if q: "q < MEM_PAGES" for q
  proof (cases "page \<le> q \<and> q < page + n")
    case True
    then show ?thesis using u(3) q hole_unmapped[OF p(3)] by (simp add: s page_view_def)
  next
    case False
    then have "page_view s0 q = page_view (m', h) q" using touches_view[OF t(3) inv' t(2) q] by simp
    moreover have "page_view (m', h) q = page_view s q" by (simp add: s page_view_def same_table_lookup[OF p(1)])
    moreover have "page_view s2 q = page_view s0 q" using u(3)[rule_format, OF q] False by (simp only: if_False)
    ultimately show ?thesis by simp
  qed
  have "sys_munmap s1 (nat res) (n * PAGE_BYTES) = Some (0, s2)"
  proof -
    have a: "nat (int (page * PAGE_BYTES)) = page * PAGE_BYTES" "page * PAGE_BYTES mod PAGE_BYTES = 0"
      "page * PAGE_BYTES div PAGE_BYTES = page" by (rule nat_int, simp_all)
    show ?thesis unfolding sys_munmap_def res a n u(1) using pos(1) by simp
  qed
  then show ?thesis using cnt view by (auto simp: s)
qed

theorem anon_count_drifts_witness:
  "\<exists>res s1 s2. sys_mmap64 NoFd (mem_init, no_host) 0 (16 * PAGE_BYTES) 0 (MMAP_PRIVATE OR MMAP_ANONYMOUS) 0 = Some (res, s1)
     \<and> sys_munmap s1 (nat res) (16 * PAGE_BYTES) = Some (0, s2) \<and> h_anon (snd s2) = - 16"
proof -
  define flags where "flags = (MMAP_PRIVATE OR MMAP_ANONYMOUS :: u32)"
  have fl: "has flags MMAP_ANONYMOUS" "\<not> has flags MMAP_SHARED" "\<not> has flags MMAP_NORESERVE" "\<not> has flags MMAP_FIXED"
    by (simp_all add: flags_def has_def MMAP_PRIVATE_def MMAP_ANONYMOUS_def MMAP_SHARED_def MMAP_NORESERVE_def MMAP_FIXED_def)
  have none: "\<not> has 0 P_READ" "\<not> has 0 P_WRITE" "\<not> has 0 P_EXEC" by (simp_all add: has_def)
  have n: "(16 * PAGE_BYTES + PAGE_BYTES - 1) mod ADDR_MOD div PAGE_BYTES = 16"
    by (intro whole_pages) (simp_all add: MEM_PAGES_def)
  have "free_range mem_init 0x101 16" by (simp add: free_range_def MMAP_HOLE_END_def)
  moreover have "0x101 + 16 \<le> MMAP_HOLE_START + 1" "MMAP_HOLE_START < MEM_PAGES"
    by (simp_all add: MMAP_HOLE_START_def MEM_PAGES_def)
  ultimately have "pt_find_hole_from mem_init 16 MMAP_HOLE_START \<noteq> BAD_PAGE"
    using find_hole_from_spec[of MMAP_HOLE_START 16 mem_init] by fastforce
  moreover have "\<not> hole_overlaps_reservation mem_init p n" for p n by (simp add: hole_overlaps_reservation_def mem_init_def)
  ultimately have "hole_below mem_init 16 = Some (pt_find_hole_from mem_init 16 MMAP_HOLE_START)"
    by (simp add: hole_below_def mem_init_def eval_nat_numeral Let_def)
  then obtain page m where pl: "pt_find_hole mem_init 16 = (page, m)" "page \<noteq> BAD_PAGE"
    using \<open>pt_find_hole_from mem_init 16 MMAP_HOLE_START \<noteq> BAD_PAGE\<close>
    by (simp add: pt_find_hole_def pt_find_hole_impl_def)
  then have place: "mmap_place mem_init 0 16 0 flags = Inr (page, m)"
    by (simp add: mmap_place_def mmap_hint_page_def)
  have p: "pgdir m = pgdir mem_init" "page + 16 \<le> USER_ADDR_MAX_PAGE"
    using mmap_place_spec[OF place] by simp_all
  have inv: "as_inv (\<lambda>_. 0) {} (m, no_host)" by (rule as_inv_fields[OF as_inv_init p(1)])
  have "USER_ADDR_MAX_PAGE \<le> MEM_PAGES" by (simp add: USER_ADDR_MAX_PAGE_def MEM_PAGES_def)
  then have r: "page + 16 \<le> MEM_PAGES" using p(2) by simp
  obtain s1 where m1: "pt_map_nothing (m, no_host) page 16 0 = Some (0, s1)"
    using pt_map_nothing_zero[OF inv r, of 0] by (auto simp: no_host_def)
  have "mmap_anonymous (m, no_host) page 16 0 flags = Some (int (page * PAGE_BYTES), s1)"
    using m1 fl(3) none by (simp add: mmap_anonymous_def)
  then have "do_mmap NoFd (mem_init, no_host) 0 (16 * PAGE_BYTES) 0 flags 0 = Some (int (page * PAGE_BYTES), s1)"
    unfolding do_mmap_def Let_def n using place fl by simp
  then have mm: "sys_mmap64 NoFd (mem_init, no_host) 0 (16 * PAGE_BYTES) 0 flags 0 = Some (int (page * PAGE_BYTES), s1)"
    using fl(2) by (simp add: sys_mmap64_def)
  have "h_alloc (snd (mem_init, no_host))" "(0 :: nat) < 16" "(16 :: nat) < 0x8000" by (simp_all add: no_host_def)
  then obtain s2 where "sys_munmap s1 (nat (int (page * PAGE_BYTES))) (16 * PAGE_BYTES) = Some (0, s2)"
      "h_anon (snd s2) = h_anon (snd (mem_init, no_host)) - int 16"
    using anon_count_drifts[OF as_inv_init _ _ mm[unfolded flags_def]] by auto
  moreover from this(2) have "h_anon (snd s2) = - 16" by (simp add: no_host_def)
  ultimately show ?thesis using mm unfolding flags_def by blast
qed

section \<open>The program break\<close>

lemma round_up_small: "n + PAGE_BYTES \<le> ADDR_MOD \<Longrightarrow> PAGE_ROUND_UP n = (n + PAGE_BYTES - 1) div PAGE_BYTES"
proof -
  assume "n + PAGE_BYTES \<le> ADDR_MOD"
  moreover have "0 < PAGE_BYTES" by simp
  ultimately have "n + PAGE_BYTES - 1 < ADDR_MOD" by linarith
  then show ?thesis by (simp add: PAGE_ROUND_UP_def)
qed

lemma round_up_le:
  assumes "n \<le> USER_TOP"
  shows "PAGE_ROUND_UP n \<le> MEM_PAGES"
proof -
  have "n + PAGE_BYTES \<le> ADDR_MOD" using assms by (simp add: USER_TOP_def MEM_PAGES_def PAGE_BYTES_def ADDR_MOD_def)
  moreover have "(n + PAGE_BYTES - 1) div PAGE_BYTES \<le> (USER_TOP + PAGE_BYTES - 1) div PAGE_BYTES"
    using assms by (intro div_le_mono) simp
  moreover have "(USER_TOP + PAGE_BYTES - 1) div PAGE_BYTES = MEM_PAGES" by (simp add: USER_TOP_def MEM_PAGES_def PAGE_BYTES_def)
  ultimately show ?thesis using round_up_small[of n] by simp
qed

lemma round_up_mono: "n \<le> k \<Longrightarrow> k \<le> USER_TOP \<Longrightarrow> PAGE_ROUND_UP n \<le> PAGE_ROUND_UP k"
proof -
  assume a: "n \<le> k" "k \<le> USER_TOP"
  have "k + PAGE_BYTES \<le> ADDR_MOD" using a(2) by (simp add: USER_TOP_def MEM_PAGES_def PAGE_BYTES_def ADDR_MOD_def)
  then have "PAGE_ROUND_UP n = (n + PAGE_BYTES - 1) div PAGE_BYTES" "PAGE_ROUND_UP k = (k + PAGE_BYTES - 1) div PAGE_BYTES"
    using round_up_small[of n] round_up_small[of k] a(1) by auto
  then show ?thesis using a(1) by (simp add: div_le_mono)
qed

text \<open>What the pages are after the break has moved from \<open>old\<close> to \<open>new\<close>.\<close>

definition brk_view :: "nat \<Rightarrow> nat \<Rightarrow> space \<Rightarrow> nat \<Rightarrow> (u32 \<times> (nat \<Rightarrow> byte)) option" where
  "brk_view old new s q =
     (if PAGE_ROUND_UP old \<le> q \<and> q < PAGE_ROUND_UP new then Some (P_WRITE OR P_ANONYMOUS, \<lambda>_. 0)
      else if PAGE_ROUND_UP new \<le> q \<and> q < PAGE_ROUND_UP old then None
      else page_view s q)"

text \<open>Claim C26. \<^verbatim>\<open>brk\<close> returns the break in force afterwards, moves it all the way or not at all, and the pages
  follow: growing adds zero pages where there was a hole, shrinking removes the pages that lie wholly above,
  and when the break stays where it was no page has changed.\<close>

theorem brk_moves_heap:
  assumes "as_inv oth {} (mm_mem mm, h)" "brk mm \<le> USER_TOP" "new \<le> USER_TOP"
  shows "\<exists>mm' h'. sys_brk mm h new = Some (brk mm', mm', h') \<and> as_inv oth {} (mm_mem mm', h')
     \<and> start_brk mm' = start_brk mm \<and> brk mm' \<in> {brk mm, new} \<and> (brk mm' < brk mm \<longrightarrow> start_brk mm \<le> brk mm')
     \<and> (\<forall>q < MEM_PAGES. page_view (mm_mem mm', h') q = brk_view (brk mm) (brk mm') (mm_mem mm, h) q)"
proof -
  let ?s = "(mm_mem mm, h)"
  define RU where "RU = PAGE_ROUND_UP"
  have stay: "brk_view b b ?s q = page_view ?s q" for b q by (auto simp: brk_view_def)
  have out: ?thesis if "sys_brk mm h new = Some (brk mm, mm, h)"
    using that assms(1) stay by (intro exI[of _ mm] exI[of _ h]) simp
  consider "new < start_brk mm" | (grow) "start_brk mm \<le> new" "brk mm < new" | (shrink) "start_brk mm \<le> new" "new \<le> brk mm"
    by linarith
  then show ?thesis
  proof cases
    case 1
    then show ?thesis by (intro out) (simp add: sys_brk_def)
  next
    case grow
    have ru: "RU (brk mm) \<le> RU new" "RU new \<le> MEM_PAGES"
      unfolding RU_def using round_up_mono[of "brk mm" new] round_up_le[OF assms(3)] grow(2) assms(3) by simp_all
    define n where "n = RU new - RU (brk mm)"
    have n: "size_sub (RU new) (RU (brk mm)) = n"
    proof -
      have "RU new < size_max" using ru(2) by (simp add: MEM_PAGES_def)
      moreover have "RU new + size_max - RU (brk mm) = n + size_max" using ru(1) by (simp add: n_def)
      ultimately show ?thesis by (simp only: size_sub_def mod_add_self2) (simp add: n_def)
    qed
    have sum: "RU (brk mm) + n = RU new" using ru(1) by (simp add: n_def)
    show ?thesis
    proof (cases "pt_is_hole (mm_mem mm) (RU (brk mm)) n \<and> \<not> h_anon h + int n > ANON_MMAP_LIMIT_PAGES")
      case False
      have "sys_brk mm h new = Some (brk mm, mm, h)"
        unfolding sys_brk_def Let_def RU_def[symmetric] n using False grow by auto
      then show ?thesis by (rule out)
    next
      case True
      have inv: "as_inv oth {} (mm_mem mm, anon_add (int n) h)" using assms(1) by simp
      have r: "RU (brk mm) + n \<le> MEM_PAGES" using sum ru(2) by simp
      obtain err m' h' where p: "pt_map_nothing (mm_mem mm, anon_add (int n) h) (RU (brk mm)) n P_WRITE = Some (err, m', h')"
          "as_inv oth {} (m', h')" "touches {q. RU (brk mm) \<le> q \<and> q < RU (brk mm) + n} (mm_mem mm, anon_add (int n) h) (m', h')"
          "err \<noteq> 0 \<longrightarrow> (m', h') = (mm_mem mm, anon_add (int n) h)"
          "\<forall>q < MEM_PAGES. err = 0 \<and> RU (brk mm) \<le> q \<and> q < RU (brk mm) + n \<longrightarrow> page_view (m', h') q = Some (P_WRITE OR P_ANONYMOUS, \<lambda>_. 0)"
        using pt_map_nothing_zero[OF inv r, of P_WRITE] by auto
      have sgn: "err = 0 \<or> err < 0" using pt_map_nothing_inv[OF inv r, of P_WRITE] p(1) by auto
      have run: "sys_brk mm h new = (if err < 0 then Some (brk mm, mm\<lparr>mm_mem := m'\<rparr>, anon_add (- int n) h')
          else Some (new, mm\<lparr>mm_mem := m', brk := new\<rparr>, h'))"
        unfolding sys_brk_def Let_def RU_def[symmetric] n using True grow p(1) by simp
      show ?thesis
      proof (cases "err < 0")
        case True
        then have "m' = mm_mem mm" "h' = anon_add (int n) h" using p(4) by auto
        then show ?thesis using run True assms(1) stay by (intro exI[of _ "mm\<lparr>mm_mem := m'\<rparr>"] exI[of _ "anon_add (- int n) h'"]) simp
      next
        case False
        then have z: "err = 0" using sgn by simp
        have "page_view (m', h') q = brk_view (brk mm) new ?s q" if q: "q < MEM_PAGES" for q
          using p(5) z q touches_view[OF p(3) inv p(2) q] ru(1) unfolding brk_view_def RU_def[symmetric] sum by auto
        then show ?thesis
          using run False p(2) grow by (intro exI[of _ "mm\<lparr>mm_mem := m', brk := new\<rparr>"] exI[of _ h']) simp
      qed
    qed
  next
    case shrink
    have ru: "RU new \<le> RU (brk mm)" "RU (brk mm) \<le> MEM_PAGES"
      unfolding RU_def using round_up_mono[of new "brk mm"] round_up_le[OF assms(2)] shrink(2) assms(2) by simp_all
    show ?thesis
    proof (cases "new < brk mm \<and> RU new < RU (brk mm)")
      case False
      have "sys_brk mm h new = Some (new, mm\<lparr>brk := new\<rparr>, h)"
        unfolding sys_brk_def Let_def RU_def[symmetric] using False shrink by auto
      moreover have "RU new = RU (brk mm)" using False ru(1) shrink(2) by (cases "new = brk mm") auto
      then have "brk_view (brk mm) new ?s q = page_view ?s q" for q by (auto simp: brk_view_def RU_def)
      ultimately show ?thesis using assms(1) shrink by (intro exI[of _ "mm\<lparr>brk := new\<rparr>"] exI[of _ h]) simp
    next
      case True
      define n where "n = RU (brk mm) - RU new"
      have sum: "RU new + n = RU (brk mm)" using ru(1) by (simp add: n_def)
      have r: "RU new + n \<le> MEM_PAGES" using sum ru(2) by simp
      obtain m' h' where u: "pt_unmap_always ?s (RU new) n = Some (m', h')" "as_inv oth {} (m', h')"
          "\<forall>q < MEM_PAGES. page_view (m', h') q = (if RU new \<le> q \<and> q < RU new + n then None else page_view ?s q)"
        using munmap_exact[OF assms(1) r] by auto
      have "sys_brk mm h new = Some (new, mm\<lparr>mm_mem := m', brk := new\<rparr>, h')"
        unfolding sys_brk_def Let_def RU_def[symmetric] n_def[symmetric] using True shrink u(1) by simp
      moreover have "page_view (m', h') q = brk_view (brk mm) new ?s q" if "q < MEM_PAGES" for q
        using u(3) that ru(1) unfolding brk_view_def RU_def[symmetric] sum by auto
      ultimately show ?thesis
        using u(2) shrink by (intro exI[of _ "mm\<lparr>mm_mem := m', brk := new\<rparr>"] exI[of _ h']) simp
    qed
  qed
qed

theorem brk_moves_heap_witness:
  "\<exists>mm' h'. sys_brk \<lparr>mm_refcount = 1, mm_mem = mem_init, start_brk = 0x10000, brk = 0x10000, exefile = None\<rparr> no_host 0x11001
      = Some (brk mm', mm', h') \<and> brk mm' = 0x11001 \<and> page_view (mm_mem mm', h') 17 = Some (P_WRITE OR P_ANONYMOUS, \<lambda>_. 0)"
proof -
  define mm where "mm = \<lparr>mm_refcount = 1, mm_mem = mem_init, start_brk = 0x10000, brk = 0x10000, exefile = None\<rparr>"
  have f: "as_inv (\<lambda>_. 0) {} (mm_mem mm, no_host)" "brk mm \<le> USER_TOP" "(0x11001 :: nat) \<le> USER_TOP"
    using as_inv_init by (simp_all add: mm_def USER_TOP_def MEM_PAGES_def PAGE_BYTES_def)
  obtain mm' h' where r: "sys_brk mm no_host 0x11001 = Some (brk mm', mm', h')"
      "\<forall>q < MEM_PAGES. page_view (mm_mem mm', h') q = brk_view (brk mm) (brk mm') (mm_mem mm, no_host) q"
    using brk_moves_heap[OF f] by blast
  have ru: "PAGE_ROUND_UP 0x10000 = 16" "PAGE_ROUND_UP 0x11001 = 18" "size_sub 18 16 = 2"
    by (simp_all add: PAGE_ROUND_UP_def PAGE_BYTES_def ADDR_MOD_def size_sub_def)
  have inv: "as_inv (\<lambda>_. 0) {} (mem_init, anon_add (int 2) no_host)" using as_inv_init by simp
  have "16 + 2 \<le> MEM_PAGES" by (simp add: MEM_PAGES_def)
  then obtain m2 h2 where "pt_map_nothing (mem_init, anon_add (int 2) no_host) 16 2 P_WRITE = Some (0, m2, h2)"
    using pt_map_nothing_zero[OF inv, of 16 2 P_WRITE] by (auto simp: no_host_def)
  moreover have "pt_is_hole mem_init 16 2" by (simp add: pt_is_hole_def reservations_overlap_def) (simp add: mem_init_def)
  ultimately have "brk mm' = 0x11001"
    using r(1) ru by (simp add: sys_brk_def mm_def Let_def ANON_MMAP_LIMIT_PAGES_def no_host_def split: if_splits)
  moreover from this have "page_view (mm_mem mm', h') 17 = Some (P_WRITE OR P_ANONYMOUS, \<lambda>_. 0)"
    using r(2) ru by (simp add: brk_view_def mm_def MEM_PAGES_def)
  ultimately show ?thesis using r(1) unfolding mm_def by blast
qed

section \<open>MADV_DONTNEED\<close>

text \<open>A fault on a mapped page concerns that page only.\<close>

lemma mem_ptr_mapped:
  assumes inv: "as_inv oth {} s" and p: "addr div PAGE_BYTES < MEM_PAGES" and e: "mem_pt (fst s) (addr div PAGE_BYTES) = Some e"
    and al: "h_alloc (snd s)"
  shows "if has (e_flags e) P_WRITE
     then \<exists>d s' e'. mem_ptr limit s addr MEM_WRITE = Some (Some (d, e_offset e' + addr mod PAGE_BYTES), s')
        \<and> mem_pt (fst s') (addr div PAGE_BYTES) = Some e' \<and> e_data e' = Some d
        \<and> as_inv oth {} s' \<and> touches {addr div PAGE_BYTES} s s'
     else mem_ptr limit s addr MEM_WRITE = Some (None, s)"
proof -
  have fi: "mem_fault_in limit s (addr div PAGE_BYTES) = Some (True, s)" using e by (simp add: mem_fault_in_def)
  show ?thesis
  proof (cases "has (e_flags e) P_WRITE")
    case False
    then have "mem_write_fault s (addr div PAGE_BYTES) MEM_WRITE = Some (False, s)" using e by (simp add: mem_write_fault_def)
    then show ?thesis using fi False by (simp add: mem_ptr_def)
  next
    case True
    obtain s' e' where w: "mem_write_fault s (addr div PAGE_BYTES) MEM_WRITE = Some (True, s')" "as_inv oth {} s'"
        "touches {addr div PAGE_BYTES} s s'" "mem_pt (fst s') (addr div PAGE_BYTES) = Some e'" "P_WRITABLE (e_flags e')"
      using mem_write_fault_spec[OF inv p e al, of MEM_WRITE] True by auto
    obtain d where d: "e_data e' = Some d" using live_data[OF w(2,4) p] by auto
    have "mem_ptr limit s addr MEM_WRITE = Some (Some (d, e_offset e' + addr mod PAGE_BYTES), s')"
      using fi w(1,4,5) d by (simp add: mem_ptr_def mem_ptr_nofault_def)
    then have "mem_ptr limit s addr MEM_WRITE = Some (Some (d, e_offset e' + addr mod PAGE_BYTES), s')
        \<and> mem_pt (fst s') (addr div PAGE_BYTES) = Some e' \<and> e_data e' = Some d
        \<and> as_inv oth {} s' \<and> touches {addr div PAGE_BYTES} s s'"
      using w d by simp
    then show ?thesis unfolding if_P[OF True] by blast
  qed
qed

text \<open>The pages whose bytes the call discards.\<close>

definition discarded :: "space \<Rightarrow> nat \<Rightarrow> bool" where
  "discarded s q \<longleftrightarrow> (case mem_pt (fst s) q of None \<Rightarrow> False
     | Some e \<Rightarrow> has (e_flags e) P_WRITE \<and> \<not> file_backed s e)"

definition discard :: "nat set \<Rightarrow> space \<Rightarrow> space \<Rightarrow> bool" where
  "discard ps s s' \<longleftrightarrow> (\<forall>a < USER_TOP. mem_byte s' a =
     (if a div PAGE_BYTES \<in> ps \<and> discarded s (a div PAGE_BYTES) then Some 0 else mem_byte s a))"

text \<open>Neither the entry nor the kind of a page changes with another page's step.\<close>

lemma discarded_other:
  assumes inv: "as_inv oth {} s" "as_inv oth {} s'" and t: "touches {p} s s'" and q: "q < MEM_PAGES" "q \<noteq> p"
  shows "discarded s' q = discarded s q"
proof -
  have look: "mem_pt (fst s') q = mem_pt (fst s) q" using t q by (simp add: touches_def)
  show ?thesis
  proof (cases "mem_pt (fst s) q")
    case (Some e)
    obtain d x where x: "e_data e = Some d" "h_data (snd s) d = Some x" using live_data[OF inv(1) Some q(1)] by auto
    obtain x' where x': "h_data (snd s') d = Some x'" using live_data[OF inv(2) _ q(1), of e] look Some x(1) by auto
    have "d < h_next (snd s)" by (rule data_below_next[OF inv(1) Some q(1) x(1)])
    then have "d_fd x' = d_fd x" using t x(2) x' by (auto simp: touches_def keeps_def)
    then show ?thesis using look Some x x' by (simp add: discarded_def file_backed_def)
  qed (simp add: discarded_def look)
qed

lemma dontneed_page_spec:
  assumes inv: "as_inv oth {} s" "tidy (fst s)" "h_alloc (snd s)" and q: "q < MEM_PAGES"
  shows "\<exists>any' s'. dontneed_page limit (any, s) (q * PAGE_BYTES) = Some (any', s') \<and> as_inv oth {} s' \<and> tidy (fst s')
     \<and> h_alloc (snd s') \<and> discard {q} s s' \<and> (\<forall>p < MEM_PAGES. p \<noteq> q \<longrightarrow> discarded s' p = discarded s p)"
proof -
  have a: "q * PAGE_BYTES div PAGE_BYTES = q" "q * PAGE_BYTES mod PAGE_BYTES = 0" by simp_all
  have nop: ?thesis if "\<not> discarded s q" "dontneed_page limit (any, s) (q * PAGE_BYTES) = Some (any, s)"
    using that inv by (auto simp: discard_def)
  show ?thesis
  proof (cases "mem_pt (fst s) q")
    case None
    then show ?thesis by (intro nop) (simp_all add: dontneed_page_def discarded_def a)
  next
    case (Some e)
    have pg: "q * PAGE_BYTES div PAGE_BYTES < MEM_PAGES" "mem_pt (fst s) (q * PAGE_BYTES div PAGE_BYTES) = Some e"
      unfolding a using q Some by simp_all
    note mp = mem_ptr_mapped[OF inv(1) pg inv(3), of limit, unfolded a]
    show ?thesis
    proof (cases "discarded s q")
      case False
      show ?thesis
      proof (cases "file_backed s e")
        case True
        then show ?thesis by (intro nop False) (simp add: dontneed_page_def a Some)
      next
        case nf: False
        then have "\<not> has (e_flags e) P_WRITE" using False Some by (simp add: discarded_def)
        then show ?thesis using mp nf by (intro nop False) (simp add: dontneed_page_def a Some)
      qed
    next
      case True
      then have w: "has (e_flags e) P_WRITE" "\<not> file_backed s e" using Some by (simp_all add: discarded_def)
      obtain d s1 e' where 1: "mem_ptr limit s (q * PAGE_BYTES) MEM_WRITE = Some (Some (d, e_offset e'), s1)"
          "mem_pt (fst s1) q = Some e'" "e_data e' = Some d" "as_inv oth {} s1" "touches {q} s s1"
        using mp w(1) by auto
      have t1: "tidy (fst s1)" "h_alloc (snd s1)" using touches_tidy[OF 1(5)] touched_alloc[OF 1(5)] inv by simp_all
      have i1: "as_inv oth {} (fst s1, snd s1)" using 1(4) by simp
      have k: "0 + length (replicate PAGE_BYTES (0 :: byte)) \<le> PAGE_BYTES" by simp
      obtain h where h: "host_write (d, e_offset e' + 0) (replicate PAGE_BYTES 0) (snd s1) = Some h" "as_inv oth {} (fst s1, h)"
          "h_alloc h = h_alloc (snd s1)" "h_next h = h_next (snd s1)" "\<forall>c. c \<noteq> d \<longrightarrow> h_data h c = h_data (snd s1) c"
          "\<forall>a < USER_TOP. mem_byte (fst s1, h) a
            = (if a div PAGE_BYTES = q \<and> 0 \<le> a mod PAGE_BYTES \<and> a mod PAGE_BYTES < 0 + length (replicate PAGE_BYTES (0 :: byte))
               then Some (replicate PAGE_BYTES 0 ! (a mod PAGE_BYTES - 0)) else mem_byte (fst s1, snd s1) a)"
        using host_write_spec[OF i1 t1(1) q 1(2,3) k] by (elim exE conjE) (rule that)
      have run: "dontneed_page limit (any, s) (q * PAGE_BYTES) = Some (True, (fst s1, h))"
        using 1(1) h(1) w(2) by (simp add: dontneed_page_def a Some)
      have "discard {q} s (fst s1, h)"
        unfolding discard_def
      proof (intro allI impI)
        fix b assume b: "b < USER_TOP"
        show "mem_byte (fst s1, h) b = (if b div PAGE_BYTES \<in> {q} \<and> discarded s (b div PAGE_BYTES) then Some 0 else mem_byte s b)"
        proof (cases "b div PAGE_BYTES = q")
          case True
          then show ?thesis using h(6) b \<open>discarded s q\<close> by simp
        next
          case False
          have "page_view s1 (b div PAGE_BYTES) = page_view s (b div PAGE_BYTES)"
            using touches_view[OF 1(5) inv(1) 1(4) user_page[OF b]] False by simp
          then have "mem_byte s1 b = mem_byte s b" by (simp add: mem_byte_def page_bytes_def)
          then show ?thesis using h(6) b False by simp
        qed
      qed
      moreover have "discarded (fst s1, h) p = discarded s p" if p: "p < MEM_PAGES" "p \<noteq> q" for p
      proof -
        have "file_backed (fst s1, h) f = file_backed s1 f" for f
        proof -
          obtain x where x: "h_data (snd s1) d = Some x" using live_data[OF 1(4,2) q] 1(3) by auto
          then have "\<exists>y. h_data h d = Some y \<and> d_fd y = d_fd x" using h(1) by (auto simp: host_write_def)
          then show ?thesis using x h(5) by (cases "e_data f = Some d") (auto simp: file_backed_def split: option.splits)
        qed
        then have "discarded (fst s1, h) p = discarded s1 p" by (simp add: discarded_def split: option.split)
        then show ?thesis using discarded_other[OF inv(1) 1(4,5) p] by simp
      qed
      ultimately show ?thesis using run h(2,3) t1 by auto
    qed
  qed
qed

lemma iter_dontneed_spec:
  assumes "as_inv oth {} s" "tidy (fst s)" "h_alloc (snd s)" "distinct qs" "\<forall>q \<in> set qs. q < MEM_PAGES"
  shows "\<exists>any' s'. iter_opt (dontneed_page limit) (any, s) (map (\<lambda>q. q * PAGE_BYTES) qs) = Some (any', s') \<and> as_inv oth {} s'
     \<and> discard (set qs) s s'"
  using assms
proof (induction qs arbitrary: s any)
  case Nil
  then show ?case by (auto simp: discard_def)
next
  case (Cons q qs)
  obtain any1 s1 where 1: "dontneed_page limit (any, s) (q * PAGE_BYTES) = Some (any1, s1)" "as_inv oth {} s1"
      "tidy (fst s1)" "h_alloc (snd s1)" "discard {q} s s1" "\<forall>p < MEM_PAGES. p \<noteq> q \<longrightarrow> discarded s1 p = discarded s p"
    using dontneed_page_spec[OF Cons.prems(1-3), of q limit any] Cons.prems(5) by auto
  obtain any2 s2 where 2: "iter_opt (dontneed_page limit) (any1, s1) (map (\<lambda>q. q * PAGE_BYTES) qs) = Some (any2, s2)"
      "as_inv oth {} s2" "discard (set qs) s1 s2"
    using Cons.IH[OF 1(2-4), of any1] Cons.prems(4,5) by auto
  have "discard (set (q # qs)) s s2"
    unfolding discard_def
  proof (intro allI impI)
    fix b assume b: "b < USER_TOP"
    let ?p = "b div PAGE_BYTES"
    have "?p \<in> set qs \<Longrightarrow> ?p \<noteq> q" using Cons.prems(4) by auto
    then show "mem_byte s2 b = (if ?p \<in> set (q # qs) \<and> discarded s ?p then Some 0 else mem_byte s b)"
      using 1(5,6) 2(3) b user_page[OF b] by (auto simp: discard_def)
  qed
  then show ?case using 1(1) 2(1,2) by auto
qed

text \<open>\<^verbatim>\<open>MADV_DONTNEED\<close> on a mapped range zeroes exactly the writable pages that are not file-backed:
  file-backed pages, read-only pages and everything outside the range keep every byte.\<close>

theorem dontneed_exact:
  assumes "as_inv oth {} s" "tidy (fst s)" "h_alloc (snd s)" "page + n \<le> MEM_PAGES" "n < 2 ^ 20"
    "\<forall>q. page \<le> q \<and> q < page + n \<longrightarrow> mem_pt (fst s) q \<noteq> None"
  shows "\<exists>s'. sys_madvise limit s (page * PAGE_BYTES) (n * PAGE_BYTES) MADV_DONTNEED = Some (0, s')
     \<and> as_inv oth {} s' \<and> discard {page..<page + n} s s'"
proof -
  have sizes: "page * PAGE_BYTES + n * PAGE_BYTES < ADDR_MOD" "n * PAGE_BYTES + PAGE_BYTES - 1 < 2 ^ 32"
    using assms(4,5) by (simp_all add: MEM_PAGES_def PAGE_BYTES_def ADDR_MOD_def)
  have fin: "(page * PAGE_BYTES + n * PAGE_BYTES) mod ADDR_MOD - page * PAGE_BYTES = n * PAGE_BYTES" using sizes(1) by simp
  have cnt: "(n * PAGE_BYTES + PAGE_BYTES - 1) div PAGE_BYTES = n"
  proof -
    have "n * PAGE_BYTES + PAGE_BYTES - 1 = PAGE_BYTES - 1 + n * PAGE_BYTES" "(PAGE_BYTES - 1) div PAGE_BYTES = 0"
      by (simp_all add: PAGE_BYTES_def)
    then show ?thesis by simp
  qed
  have pages: "(n * PAGE_BYTES + PAGE_BYTES - 1) mod 2 ^ 32 div PAGE_BYTES = n" using sizes(2) cnt by simp
  define qs where "qs = map (\<lambda>i. page + i) [0..<n]"
  have qs: "distinct qs" "set qs = {page..<page + n}" "\<forall>q \<in> set qs. q < MEM_PAGES"
    using assms(4) by (auto simp: qs_def distinct_map image_iff)
  have addrs: "map (\<lambda>i. page * PAGE_BYTES + i * PAGE_BYTES) [0..<n] = map (\<lambda>q. q * PAGE_BYTES) qs"
    by (simp add: qs_def add_mult_distrib)
  obtain any' s1 where s1: "iter_opt (dontneed_page limit) (False, s) (map (\<lambda>q. q * PAGE_BYTES) qs) = Some (any', s1)"
      "as_inv oth {} s1" "discard (set qs) s s1"
    using iter_dontneed_spec[OF assms(1-3) qs(1,3)] by blast
  define s2 where "s2 = (if any' then (mem_changed (fst s1), snd s1) else s1)"
  have "as_inv oth {} s2"
    using s1(2) as_inv_fields[of oth "{}" "fst s1" "snd s1" "mem_changed (fst s1)"] by (auto simp: s2_def mem_changed_def)
  moreover have "mem_byte s2 b = mem_byte s1 b" for b by (simp add: s2_def mem_byte_def page_bytes_def page_view_def)
  then have "discard {page..<page + n} s s2" using s1(3) qs(2) by (simp add: discard_def)
  moreover have "sys_madvise limit s (page * PAGE_BYTES) (n * PAGE_BYTES) MADV_DONTNEED = Some (0, s2)"
  proof -
    have a: "page * PAGE_BYTES mod PAGE_BYTES = 0" "page * PAGE_BYTES div PAGE_BYTES = page" by simp_all
    have m: "\<not> (\<exists>p \<in> set [page..<page + n]. mem_pt (fst s) p = None \<and> mem_find_reservation (fst s) p = None)"
      using assms(6) by auto
    have "MADV_DONTNEED \<noteq> MADV_FREE" by (simp add: MADV_DONTNEED_def MADV_FREE_def)
    then show ?thesis
      unfolding sys_madvise_def Let_def a pages fin cnt addrs if_not_P[OF m] s1(1) by (simp add: s2_def)
  qed
  ultimately show ?thesis by blast
qed

theorem dontneed_exact_witness:
  "\<exists>s s'. sys_madvise 0 s (5 * PAGE_BYTES) (1 * PAGE_BYTES) MADV_DONTNEED = Some (0, s') \<and> mem_byte s' 20490 = Some 0"
proof -
  obtain s e where s: "as_inv (\<lambda>_. 0) {} s" "tidy (fst s)" "h_alloc (snd s)" "mem_pt (fst s) 5 = Some e"
      "has (e_flags e) P_WRITE" "has (e_flags e) P_ANONYMOUS"
  proof -
    have p: "(5 :: nat) + 1 \<le> MEM_PAGES" "(5 :: nat) < MEM_PAGES" by (simp_all add: MEM_PAGES_def)
    obtain s e where s: "pt_map_nothing (mem_init, no_host) 5 1 P_WRITE = Some (0, s)" "as_inv (\<lambda>_. 0) {} s" "tidy (fst s)"
        "h_alloc (snd s)" "mem_pt (fst s) 5 = Some e" "has (e_flags e) P_WRITE"
      using one_page_space[OF p(2), of P_WRITE] by (auto simp: flag_simps)
    have "mem_pt (fst s) 5 = Some (map_entry 0 5 0 (P_WRITE OR P_ANONYMOUS) 5)"
      using pt_map_nothing_inv[OF as_inv_init p(1), of P_WRITE] s(1) p(2) by (auto simp: no_host_def)
    then have "has (e_flags e) P_ANONYMOUS" using s(5) by (simp add: map_entry_def has_def P_WRITE_def P_ANONYMOUS_def)
    then show ?thesis using that s by blast
  qed
  have n: "5 + 1 \<le> MEM_PAGES" "(1 :: nat) < 2 ^ 20" "(20490 :: nat) < USER_TOP" "20490 div PAGE_BYTES = 5"
    by (simp_all add: MEM_PAGES_def USER_TOP_def PAGE_BYTES_def)
  have m: "\<forall>q. 5 \<le> q \<and> q < 5 + 1 \<longrightarrow> mem_pt (fst s) q \<noteq> None"
  proof (intro allI impI)
    fix q :: nat assume "5 \<le> q \<and> q < 5 + 1"
    then have "q = 5" by simp
    then show "mem_pt (fst s) q \<noteq> None" using s(4) by simp
  qed
  have "discarded s 5" using s(4-6) by (simp add: discarded_def file_backed_def)
  moreover obtain s' where s': "sys_madvise 0 s (5 * PAGE_BYTES) (1 * PAGE_BYTES) MADV_DONTNEED = Some (0, s')" "discard {5..<5 + 1} s s'"
    using dontneed_exact[OF s(1-3) n(1,2) m, of 0] by blast
  ultimately have "mem_byte s' 20490 = Some 0" using n(3,4) unfolding discard_def by simp
  then show ?thesis using s'(1) by blast
qed

end
