(* ===== verification/Mount_Table.thy ===== *)
theory Mount_Table
  imports Kernel_Errno
begin

text \<open>
  The mount table (\<^verbatim>\<open>fs/mount.c\<close>), the lookup of the mount that owns a path (\<^verbatim>\<open>fs/generic.c\<close>) and the
  normal form of paths (\<^verbatim>\<open>fs/path.c\<close>). A path is a C string: a list of characters without its NUL. The
  table is the list \<^verbatim>\<open>mounts\<close>; \<open>m_addr\<close> stands for the address of the structure.
\<close>

abbreviation slash :: char where "slash \<equiv> CHR ''/''"

definition MAX_PATH :: nat where "MAX_PATH = 4096"
definition MAX_NAME :: nat where "MAX_NAME = 256"

section \<open>Components\<close>

abbreviation eat :: "string \<Rightarrow> string" where "eat p \<equiv> dropWhile (\<lambda>c. c = slash) p"

abbreviation first_name :: "string \<Rightarrow> string" where "first_name p \<equiv> takeWhile (\<lambda>c. c \<noteq> slash) p"
abbreviation after_name :: "string \<Rightarrow> string" where "after_name p \<equiv> dropWhile (\<lambda>c. c \<noteq> slash) p"

function path_is_normalized :: "string \<Rightarrow> bool" where
  "path_is_normalized [] = True"
| "path_is_normalized (c # s) =
     (c = slash \<and> (case s of [] \<Rightarrow> True | d # _ \<Rightarrow> d \<noteq> slash \<and> path_is_normalized (after_name s)))"
  by pat_completeness auto
termination
proof (relation "measure length", simp)
  fix c d :: char and s t :: string
  assume "s = d # t"
  have "length (after_name s) \<le> length s" by (rule length_dropWhile_le)
  then show "(after_name s, c # s) \<in> measure length" by simp
qed

text \<open>
  \<^verbatim>\<open>path_next_component\<close>: the outer \<open>None\<close> is the failing assertion; \<open>Inr None\<close> is the end of the path.
\<close>

definition path_next_component :: "string \<Rightarrow> (errno + (string \<times> string) option) option" where
  "path_next_component path =
     (case path of
        [] \<Rightarrow> Some (Inr None)
      | c # p \<Rightarrow>
          if c \<noteq> slash then None
          else if length (first_name p) \<ge> MAX_NAME then Some (Inl ENAMETOOLONG)
          else Some (Inr (Some (first_name p, after_name p))))"

function comps :: "string \<Rightarrow> string list" where
  "comps s = (if eat s = [] then [] else first_name (eat s) # comps (after_name (eat s)))"
  by pat_completeness auto
termination
proof (relation "measure length", simp)
  fix s assume "eat s \<noteq> []"
  then obtain c t where e: "eat s = c # t" "c \<noteq> slash"
    by (metis (full_types) hd_dropWhile list.collapse)
  then have "length (after_name (eat s)) \<le> length t" by (simp add: length_dropWhile_le)
  moreover have "length (eat s) \<le> length s" by (rule length_dropWhile_le)
  ultimately show "(after_name (eat s), s) \<in> measure length" using e(1) by simp
qed

declare comps.simps [simp del]

definition join :: "string list \<Rightarrow> string" where
  "join cs = concat (map (\<lambda>c. slash # c) cs)"

definition name :: "string \<Rightarrow> bool" where
  "name c \<longleftrightarrow> c \<noteq> [] \<and> slash \<notin> set c"

lemma join_simps [simp]: "join [] = []" "join (c # cs) = slash # c @ join cs" "join (cs @ ds) = join cs @ join ds"
  by (simp_all add: join_def)

lemma after_join [simp]: "after_name (join cs) = join cs" "first_name (join cs) = []"
  by (cases cs; simp)+

lemma name_parts: "name c \<Longrightarrow> first_name (c @ join cs) = c" "name c \<Longrightarrow> after_name (c @ join cs) = join cs"
    "name c \<Longrightarrow> eat (c @ t) = c @ t"
proof -
  assume n: "name c"
  then have all: "\<forall>x \<in> set c. x \<noteq> slash" by (auto simp: name_def)
  show "first_name (c @ join cs) = c" using all by (simp add: takeWhile_append2)
  show "after_name (c @ join cs) = join cs" using all by (simp add: dropWhile_append2)
  show "eat (c @ t) = c @ t" using n by (cases c) (auto simp: name_def)
qed

lemma comps_Nil [simp]: "comps [] = []" by (simp add: comps.simps)

lemma comps_slash [simp]: "comps (slash # s) = comps s" by (simp add: comps.simps[of "slash # s"] comps.simps[of s])

lemma comps_eat [simp]: "comps (eat s) = comps s"
  by (subst (1 2) comps.simps) simp

lemma comps_name: "name c \<Longrightarrow> comps (c @ join cs) = c # comps (join cs)"
  by (subst comps.simps) (auto simp: name_parts, simp add: name_def)

lemma comps_join [simp]: "\<forall>c \<in> set cs. name c \<Longrightarrow> comps (join cs) = cs"
  by (induction cs) (auto simp: comps_name)

lemma first_name_name: "eat s \<noteq> [] \<Longrightarrow> name (first_name (eat s))"
proof -
  assume "eat s \<noteq> []"
  then have "hd (eat s) \<noteq> slash" by (metis (full_types) hd_dropWhile)
  with \<open>eat s \<noteq> []\<close> show ?thesis
    by (cases "eat s") (auto simp: name_def dest: set_takeWhileD)
qed

lemma comps_names: "c \<in> set (comps s) \<Longrightarrow> name c"
proof (induction s rule: comps.induct)
  case (1 s)
  show ?case
  proof (cases "eat s = []")
    case True
    then show ?thesis using 1(2) comps.simps[of s] by simp
  next
    case False
    then have "c = first_name (eat s) \<or> c \<in> set (comps (after_name (eat s)))"
      using 1(2) unfolding comps.simps[of s] if_not_P[OF False] by simp
    then show ?thesis using 1(1)[OF False] first_name_name[OF False] by blast
  qed
qed

lemma join_normalized [simp]: "\<forall>c \<in> set cs. name c \<Longrightarrow> path_is_normalized (join cs)"
proof (induction cs)
  case (Cons c cs)
  then obtain d t where c: "c = d # t" "d \<noteq> slash" by (cases c) (auto simp: name_def)
  then have "after_name (d # t @ join cs) = join cs" using Cons.prems name_parts(2)[of c cs] by simp
  then show ?case using Cons c by simp
qed simp

section \<open>The table\<close>

record mount =
  m_addr :: nat
  m_point :: string
  m_source :: string
  m_info :: string
  m_flags :: nat
  m_fs :: nat
  m_refs :: u32

text \<open>The test of the loop in \<^verbatim>\<open>mount_find\<close>: the point is the path or a directory above it.\<close>

definition owns :: "string \<Rightarrow> string \<Rightarrow> bool" where
  "owns point path \<longleftrightarrow> take (length point) path = point
     \<and> (case drop (length point) path of [] \<Rightarrow> True | c # _ \<Rightarrow> c = slash)"

text \<open>
  A failing assertion is \<open>None\<close>, and so is a path no mount owns: the C loop then ends at the list's head,
  which is no mount.
\<close>

definition mount_find :: "mount list \<Rightarrow> string \<Rightarrow> (mount \<times> mount list) option" where
  "mount_find ms path =
     (if \<not> path_is_normalized path then None
      else case find (\<lambda>m. owns (m_point m) path) ms of
        None \<Rightarrow> None
      | Some m \<Rightarrow> Some (m, map (\<lambda>x. if m_addr x = m_addr m then x\<lparr>m_refs := m_refs x + 1\<rparr> else x) ms))"

definition mount_release :: "nat \<Rightarrow> mount list \<Rightarrow> mount list" where
  "mount_release a ms = map (\<lambda>x. if m_addr x = a then x\<lparr>m_refs := m_refs x - 1\<rparr> else x) ms"

definition mount_retain :: "nat \<Rightarrow> mount list \<Rightarrow> mount list" where
  "mount_retain a ms = map (\<lambda>x. if m_addr x = a then x\<lparr>m_refs := m_refs x + 1\<rparr> else x) ms"

definition find_mount_and_trim_path :: "mount list \<Rightarrow> string \<Rightarrow> (mount \<times> string \<times> mount list) option" where
  "find_mount_and_trim_path ms path =
     map_option (\<lambda>(m, ms'). (m, drop (length (m_point m)) path, ms')) (mount_find ms path)"

definition contains_mount_point :: "mount list \<Rightarrow> string \<Rightarrow> bool" where
  "contains_mount_point ms path \<longleftrightarrow> (\<exists>m \<in> set ms. owns path (m_point m))"

text \<open>
  \<open>addr\<close> is what \<^verbatim>\<open>malloc\<close> gives; \<open>fsmount\<close> is the result of the file system's \<^verbatim>\<open>mount\<close> operation (0 when
  it has none).
\<close>

definition do_mount ::
  "nat option \<Rightarrow> int \<Rightarrow> nat \<Rightarrow> string \<Rightarrow> string \<Rightarrow> string \<Rightarrow> nat \<Rightarrow> mount list \<Rightarrow> errno \<times> mount list" where
  "do_mount addr fsmount fs source point info flags ms =
     (case addr of
        None \<Rightarrow> (ENOMEM, ms)
      | Some a \<Rightarrow>
          if fsmount < 0 then (fsmount, ms)
          else (0, takeWhile (\<lambda>m. length (m_point m) > length point) ms
                   @ \<lparr>m_addr = a, m_point = point, m_source = source, m_info = info, m_flags = flags, m_fs = fs, m_refs = 0\<rparr>
                   # dropWhile (\<lambda>m. length (m_point m) > length point) ms))"

definition mount_remove :: "mount \<Rightarrow> mount list \<Rightarrow> errno \<times> mount list" where
  "mount_remove m ms =
     (if m_refs m \<noteq> 0 then (EBUSY, ms) else (0, filter (\<lambda>x. m_addr x \<noteq> m_addr m) ms))"

definition do_umount :: "string \<Rightarrow> mount list \<Rightarrow> errno \<times> mount list" where
  "do_umount point ms =
     (case find (\<lambda>m. m_point m = point) ms of
        None \<Rightarrow> (EINVAL, ms)
      | Some m \<Rightarrow> mount_remove m ms)"

text \<open>
  \<^verbatim>\<open>mount_param_flag\<close>: the loop leaves \<open>info\<close> at a comma, which \<^verbatim>\<open>strcspn\<close> never passes.
\<close>

partial_function (option) mount_param_flag :: "string \<Rightarrow> string \<Rightarrow> bool option" where
  "mount_param_flag info flag =
     (if info = [] then Some False
      else if take (length flag) info = flag then Some True
      else mount_param_flag (dropWhile (\<lambda>c. c \<noteq> CHR '','') info) flag)"

section \<open>What the table keeps\<close>

text \<open>Points are normal, from long to short, and the root is mounted.\<close>

definition mounts_ok :: "mount list \<Rightarrow> bool" where
  "mounts_ok ms \<longleftrightarrow> sorted_wrt (\<lambda>a b. length (m_point b) \<le> length (m_point a)) ms
     \<and> distinct (map m_addr ms) \<and> (\<forall>m \<in> set ms. \<exists>cs. m_point m = join cs \<and> (\<forall>c \<in> set cs. name c))
     \<and> (\<exists>m \<in> set ms. m_point m = [])"

lemma owns_join:
  assumes "\<forall>c \<in> set ps. name c" "\<forall>c \<in> set cs. name c"
  shows "owns (join ps) (join cs) \<longleftrightarrow> take (length ps) cs = ps"
  using assms
proof (induction ps arbitrary: cs)
  case Nil
  then show ?case by (cases cs) (auto simp: owns_def)
next
  case (Cons p ps)
  show ?case
  proof (cases cs)
    case Nil
    then show ?thesis by (simp add: owns_def)
  next
    case c: (Cons c cs')
    have "owns (join (p # ps)) (join (c # cs')) \<longleftrightarrow> p = c \<and> owns (join ps) (join cs')"
    proof
      assume o: "owns (join (p # ps)) (join (c # cs'))"
      define r where "r = drop (length (join (p # ps))) (join (c # cs'))"
      have "join (c # cs') = join (p # ps) @ r"
        using o append_take_drop_id[of "length (join (p # ps))" "join (c # cs')"] by (simp add: owns_def r_def)
      then have r: "c @ join cs' = p @ join ps @ r" by simp
      have r2: "r = [] \<or> hd r = slash" using o unfolding owns_def r_def[symmetric] by (cases r) auto
      have f: "first_name (p @ join ps @ r) = p"
      proof -
        have "first_name (join ps @ r) = []" using r2 by (cases ps; cases r) auto
        then show ?thesis using Cons.prems(1) by (subst takeWhile_append2) (auto simp: name_def)
      qed
      then have pc: "p = c" using name_parts(1)[of c cs'] Cons.prems(2) c r by simp
      then have "join cs' = join ps @ r" using r by simp
      then show "p = c \<and> owns (join ps) (join cs')" using pc r2 by (cases r) (simp_all add: owns_def)
    next
      assume "p = c \<and> owns (join ps) (join cs')"
      then show "owns (join (p # ps)) (join (c # cs'))" by (auto simp: owns_def split: list.splits)
    qed
    then show ?thesis using Cons.IH[of cs'] Cons.prems c by auto
  qed
qed

lemma mounts_ok_owner:
  assumes "mounts_ok ms" "\<forall>c \<in> set cs. name c"
  shows "\<exists>m ps qs. find (\<lambda>m. owns (m_point m) (join cs)) ms = Some m \<and> m \<in> set ms \<and> m_point m = join ps \<and> cs = ps @ qs
     \<and> (\<forall>x \<in> set ms. owns (m_point x) (join cs) \<longrightarrow> length (m_point x) \<le> length (m_point m))"
proof -
  obtain r where r: "r \<in> set ms" "m_point r = []" using assms(1) by (auto simp: mounts_ok_def)
  then have "owns (m_point r) (join cs)" by (cases cs) (simp_all add: owns_def)
  then obtain m where m: "find (\<lambda>m. owns (m_point m) (join cs)) ms = Some m"
    using r(1) by (cases "find (\<lambda>m. owns (m_point m) (join cs)) ms") (auto simp: find_None_iff)
  then obtain i where i: "i < length ms" "m = ms ! i" "owns (m_point m) (join cs)"
      "\<forall>j < i. \<not> owns (m_point (ms ! j)) (join cs)"
    by (auto simp: find_Some_iff)
  have inm: "m \<in> set ms" using i by simp
  obtain ps where ps: "m_point m = join ps" "\<forall>c \<in> set ps. name c" using assms(1) inm by (auto simp: mounts_ok_def)
  have "take (length ps) cs = ps" using owns_join[OF ps(2) assms(2)] i(3) ps(1) by simp
  then have split: "cs = ps @ drop (length ps) cs" by (metis append_take_drop_id)
  have "length (m_point x) \<le> length (m_point m)" if x: "x \<in> set ms" "owns (m_point x) (join cs)" for x
  proof -
    obtain j where j: "j < length ms" "x = ms ! j" using x(1) by (auto simp: in_set_conv_nth)
    then have "i \<le> j" using i(4) x(2) by (meson not_le)
    then show ?thesis using assms(1) i j by (cases "i = j") (auto simp: mounts_ok_def sorted_wrt_iff_nth_less)
  qed
  then show ?thesis using m inm ps(1) split by blast
qed

lemma find_release:
  assumes "mounts_ok ms" "find_mount_and_trim_path ms path = Some (m, q, ms')"
  shows "mount_release (m_addr m) ms' = ms"
proof -
  have "ms' = map (\<lambda>x. if m_addr x = m_addr m then x\<lparr>m_refs := m_refs x + 1\<rparr> else x) ms"
    using assms(2) by (auto simp: find_mount_and_trim_path_def mount_find_def split: if_splits option.splits)
  then show ?thesis by (auto simp: mount_release_def o_def intro!: map_idI)
qed

lemma find_path:
  assumes "mounts_ok ms" "\<forall>c \<in> set cs. name c"
  shows "\<exists>m qs ms'. find_mount_and_trim_path ms (join cs) = Some (m, join qs, ms') \<and> (\<forall>c \<in> set qs. name c) \<and> m \<in> set ms"
proof -
  obtain m ps qs where m: "find (\<lambda>m. owns (m_point m) (join cs)) ms = Some m" "m \<in> set ms" "m_point m = join ps" "cs = ps @ qs"
    using mounts_ok_owner[OF assms] by auto
  then have d: "drop (length (m_point m)) (join cs) = join qs" by simp
  have "path_is_normalized (join cs)" "\<forall>c \<in> set qs. name c" using assms(2) m(4) by (simp_all del: join_simps)
  then show ?thesis using m(1,2) d unfolding find_mount_and_trim_path_def mount_find_def by (simp, blast)
qed

section \<open>The interface path resolution relies on\<close>

text \<open>
  A table in which every normal path has an owner, found with the rest of the path, and in which releasing what
  was found leaves the table as it was.
\<close>

locale lookup_table =
  fixes ok :: "'t \<Rightarrow> bool"
    and lookup :: "'t \<Rightarrow> string \<Rightarrow> ('m \<times> string \<times> 't) option"
    and release :: "'m \<Rightarrow> 't \<Rightarrow> 't"
  assumes lookup_ok: "ok t \<Longrightarrow> \<forall>c \<in> set cs. name c \<Longrightarrow>
      \<exists>m qs t'. lookup t (join cs) = Some (m, join qs, t') \<and> (\<forall>c \<in> set qs. name c) \<and> release m t' = t"
begin

text \<open>What a query through the table answers.\<close>

definition ask :: "'t \<Rightarrow> ('m \<Rightarrow> string \<Rightarrow> 'a) \<Rightarrow> string list \<Rightarrow> 'a" where
  "ask t query cs = (case lookup t (join cs) of Some (m, q, t') \<Rightarrow> query m q)"

lemma asked:
  assumes "ok t" "\<forall>c \<in> set cs. name c"
  obtains m q t' where "lookup t (join cs) = Some (m, q, t')" "path_is_normalized q" "release m t' = t"
  using lookup_ok[OF assms] by auto

lemma ask_eq: "lookup t (join cs) = Some (m, q, t') \<Longrightarrow> ask t query cs = query m q"
  by (simp add: ask_def)

end

interpretation mounts: lookup_table mounts_ok find_mount_and_trim_path "\<lambda>m. mount_release (m_addr m)"
proof
  fix ms cs assume ms: "mounts_ok ms" "\<forall>c \<in> set cs. name c"
  obtain m qs ms' where f: "find_mount_and_trim_path ms (join cs) = Some (m, join qs, ms')" "\<forall>c \<in> set qs. name c"
    using find_path[OF ms] by blast
  then show "\<exists>m qs t'. find_mount_and_trim_path ms (join cs) = Some (m, join qs, t') \<and> (\<forall>c \<in> set qs. name c)
      \<and> mount_release (m_addr m) t' = ms"
    using find_release[OF ms(1) f(1)] by blast
qed

section \<open>Reachable tables\<close>

text \<open>
  Booting mounts the root; then mounts come and go and are looked up and released. The root itself stays: it
  holds the working directories.
\<close>

inductive mounts_reach :: "mount list \<Rightarrow> bool" where
  boot: "do_mount (Some a) 0 fs source [] info flags [] = (0, ms) \<Longrightarrow> mounts_reach ms"
| mount: "mounts_reach ms \<Longrightarrow> a \<notin> m_addr ` set ms \<Longrightarrow> \<forall>c \<in> set cs. name c \<Longrightarrow>
    do_mount (Some a) r fs source (join cs) info flags ms = (err, ms') \<Longrightarrow> mounts_reach ms'"
| umount: "mounts_reach ms \<Longrightarrow> point \<noteq> [] \<Longrightarrow> do_umount point ms = (err, ms') \<Longrightarrow> mounts_reach ms'"
| found: "mounts_reach ms \<Longrightarrow> mount_find ms path = Some (m, ms') \<Longrightarrow> mounts_reach ms'"
| released: "mounts_reach ms \<Longrightarrow> mounts_reach (mount_release a ms)"
| retained: "mounts_reach ms \<Longrightarrow> mounts_reach (mount_retain a ms)"

lemma mounts_ok_refs:
  assumes "mounts_ok ms" "\<And>x. m_addr (f x) = m_addr x" "\<And>x. m_point (f x) = m_point x"
  shows "mounts_ok (map f ms)"
  using assms by (auto simp: mounts_ok_def sorted_wrt_map o_def)

lemma mounts_ok_release: "mounts_ok ms \<Longrightarrow> mounts_ok (mount_release a ms)" "mounts_ok ms \<Longrightarrow> mounts_ok (mount_retain a ms)"
  unfolding mount_release_def mount_retain_def by (erule mounts_ok_refs; simp)+

lemma mounts_ok_find:
  assumes "mounts_ok ms" "mount_find ms path = Some (m, ms')"
  shows "mounts_ok ms'"
proof -
  have "ms' = map (\<lambda>x. if m_addr x = m_addr m then x\<lparr>m_refs := m_refs x + 1\<rparr> else x) ms"
    using assms(2) by (auto simp: mount_find_def split: if_splits option.splits)
  then show ?thesis using assms(1) by (auto intro: mounts_ok_refs)
qed

lemma mounts_ok_mount:
  assumes "mounts_ok ms" "a \<notin> m_addr ` set ms" "\<forall>c \<in> set cs. name c"
    "do_mount (Some a) r fs source (join cs) info flags ms = (err, ms')"
  shows "mounts_ok ms'"
proof (cases "r < 0")
  case True
  then show ?thesis using assms(1,4) by (auto simp: do_mount_def)
next
  case False
  let ?P = "\<lambda>m. length (m_point m) > length (join cs)"
  define x where "x = \<lparr>m_addr = a, m_point = join cs, m_source = source, m_info = info, m_flags = flags, m_fs = fs, m_refs = 0\<rparr>"
  have x: "m_addr x = a" "m_point x = join cs" "ms' = takeWhile ?P ms @ x # dropWhile ?P ms"
    using assms(4) False by (simp_all add: do_mount_def x_def)
  have sorted: "sorted_wrt (\<lambda>a b. length (m_point b) \<le> length (m_point a)) (takeWhile ?P ms @ dropWhile ?P ms)"
    using assms(1) by (simp add: mounts_ok_def)
  have "\<not> ?P y" if "y \<in> set (dropWhile ?P ms)" for y
  proof (cases "dropWhile ?P ms")
    case Nil
    then show ?thesis using that unfolding Nil by (simp only: list.set empty_iff)
  next
    case (Cons d ds)
    then have "\<not> ?P d" using hd_dropWhile[of ?P ms] by simp
    moreover have "y = d \<or> length (m_point y) \<le> length (m_point d)"
      using sorted that Cons by (auto simp: sorted_wrt_append)
    ultimately show ?thesis by auto
  qed
  moreover have "?P y" if "y \<in> set (takeWhile ?P ms)" for y using that set_takeWhileD[of y ?P ms] by blast
  ultimately have "sorted_wrt (\<lambda>a b. length (m_point b) \<le> length (m_point a)) ms'"
    using sorted x(2) unfolding x(3) sorted_wrt_append by (simp add: not_less less_imp_le)
  moreover have sub: "set ms' = insert x (set ms)" using x(3) by (metis append_Cons list.set(2) set_append takeWhile_dropWhile_id Un_insert_right)
  moreover have "distinct (map m_addr ms')"
  proof -
    have "distinct (map m_addr (takeWhile ?P ms @ dropWhile ?P ms))" using assms(1) unfolding takeWhile_dropWhile_id by (simp add: mounts_ok_def)
    moreover have "a \<notin> m_addr ` set (takeWhile ?P ms)" "a \<notin> m_addr ` set (dropWhile ?P ms)"
      using assms(2) by (auto dest: set_takeWhileD set_dropWhileD)
    ultimately show ?thesis unfolding x(3) map_append distinct_append list.map using x(1) by (simp only: distinct.simps list.set set_map) blast
  qed
  ultimately show ?thesis using assms(1,3) x(2) by (auto simp: mounts_ok_def)
qed

lemma mounts_ok_umount:
  assumes "mounts_ok ms" "point \<noteq> []" "do_umount point ms = (err, ms')"
  shows "mounts_ok ms'"
proof (cases "ms' = ms")
  case False
  then obtain m where m: "find (\<lambda>m. m_point m = point) ms = Some m" "ms' = filter (\<lambda>x. m_addr x \<noteq> m_addr m) ms"
    using assms(3) by (auto simp: do_umount_def mount_remove_def split: option.splits if_splits)
  then have pt: "m \<in> set ms" "m_point m = point" by (auto simp: find_Some_iff)
  obtain r where r: "r \<in> set ms" "m_point r = []" using assms(1) by (auto simp: mounts_ok_def)
  have "m_addr r \<noteq> m_addr m"
  proof
    assume "m_addr r = m_addr m"
    then have "r = m" using assms(1) r(1) pt(1) by (auto simp: mounts_ok_def distinct_map inj_on_def)
    then show False using r(2) pt(2) assms(2) by simp
  qed
  then show ?thesis using assms(1) r m(2)
    by (auto simp: mounts_ok_def sorted_wrt_filter distinct_map_filter)
qed (use assms in simp)

lemma reach_ok: "mounts_reach ms \<Longrightarrow> mounts_ok ms"
proof (induction rule: mounts_reach.induct)
  case (boot a fs source info flags ms)
  then show ?case by (auto simp: do_mount_def mounts_ok_def intro: exI[of _ "[]"])
qed (auto intro: mounts_ok_mount mounts_ok_umount mounts_ok_find mounts_ok_release)

text \<open>Claim C28. In every reachable mount table each normal path has an owner, and it is the deepest mount point that
  is the path or a directory above it.\<close>

theorem mount_find_deepest:
  assumes "mounts_reach ms" "\<forall>c \<in> set cs. name c"
  shows "\<exists>m ms'. mount_find ms (join cs) = Some (m, ms') \<and> m \<in> set ms \<and> owns (m_point m) (join cs)
     \<and> (\<forall>x \<in> set ms. owns (m_point x) (join cs) \<longrightarrow> length (m_point x) \<le> length (m_point m))"
proof -
  obtain m where m: "find (\<lambda>m. owns (m_point m) (join cs)) ms = Some m" "m \<in> set ms"
      "\<forall>x \<in> set ms. owns (m_point x) (join cs) \<longrightarrow> length (m_point x) \<le> length (m_point m)"
    using mounts_ok_owner[OF reach_ok[OF assms(1)] assms(2)] by auto
  have "path_is_normalized (join cs)" using assms(2) by simp
  moreover have "owns (m_point m) (join cs)" using m(1) by (auto simp: find_Some_iff)
  ultimately show ?thesis using m by (simp add: mount_find_def)
qed

text \<open>Two mounts, the second below the first: \<^verbatim>\<open>/dev/pts/0\<close> belongs to \<^verbatim>\<open>/dev/pts\<close>.\<close>

definition dev_table :: "mount list" where
  "dev_table = snd (do_mount (Some 2) 0 2 ''devpts'' ''/dev/pts'' [] 0 (snd (do_mount (Some 1) 0 1 ''dev'' ''/dev'' [] 0
     (snd (do_mount (Some 0) 0 0 ''root'' [] [] 0 [])))))"

lemma dev_reach: "mounts_reach dev_table"
proof -
  have j: "''/dev'' = join [''dev'']" "''/dev/pts'' = join [''dev'', ''pts'']" "\<forall>c \<in> set [''dev'', ''pts'']. name c"
    by (simp_all add: name_def)
  let ?m0 = "snd (do_mount (Some 0) 0 0 ''root'' [] [] 0 [])"
  let ?m1 = "snd (do_mount (Some 1) 0 1 ''dev'' ''/dev'' [] 0 ?m0)"
  have "mounts_reach ?m0" by (rule mounts_reach.boot[of 0 0 "''root''" "[]" 0]) (simp add: do_mount_def)
  moreover have "do_mount (Some 1) 0 1 ''dev'' (join [''dev'']) [] 0 ?m0 = (0, ?m1)" by (simp add: do_mount_def)
  ultimately have 1: "mounts_reach ?m1"
    by - (erule mounts_reach.mount[where a = 1 and cs = "[''dev'']" and ms = ?m0, rotated -1], simp_all add: do_mount_def name_def)
  moreover have "do_mount (Some 2) 0 2 ''devpts'' (join [''dev'', ''pts'']) [] 0 ?m1 = (0, dev_table)"
    by (simp add: do_mount_def dev_table_def)
  ultimately show ?thesis
    by - (erule mounts_reach.mount[where a = 2 and cs = "[''dev'', ''pts'']" and ms = ?m1, rotated -1], simp_all add: do_mount_def name_def)
qed

theorem mount_find_deepest_witness:
  "\<exists>m ms'. mount_find dev_table ''/dev/pts/0'' = Some (m, ms') \<and> m_fs m = 2"
proof -
  have j: "''/dev/pts/0'' = join [''dev'', ''pts'', ''0'']" "\<forall>c \<in> set [''dev'', ''pts'', ''0'']. name c"
    by (simp_all add: name_def)
  obtain m ms' where m: "mount_find dev_table ''/dev/pts/0'' = Some (m, ms')" "m \<in> set dev_table"
      "\<forall>x \<in> set dev_table. owns (m_point x) ''/dev/pts/0'' \<longrightarrow> length (m_point x) \<le> length (m_point m)"
    using mount_find_deepest[OF dev_reach j(2)] unfolding j(1)[symmetric] by blast
  have "m_fs m = 2" using m(2,3) by (auto simp: dev_table_def do_mount_def owns_def)
  then show ?thesis using m(1) by blast
qed

lemma find_first: "\<forall>y \<in> set A. \<not> P y \<Longrightarrow> P x \<Longrightarrow> find P (A @ x # B) = Some x"
  by (induction A) auto

text \<open>Claim C29. Unmounting undoes mounting, also on a point that has a mount already, which is uncovered as it was.\<close>

theorem umount_undoes_mount:
  assumes "mounts_reach ms" "a \<notin> m_addr ` set ms" "0 \<le> r"
  shows "\<exists>ms1. do_mount (Some a) r fs source point info flags ms = (0, ms1) \<and> do_umount point ms1 = (0, ms)"
proof -
  let ?P = "\<lambda>m. length (m_point m) > length point"
  define x where "x = \<lparr>m_addr = a, m_point = point, m_source = source, m_info = info, m_flags = flags, m_fs = fs, m_refs = 0\<rparr>"
  define ms1 where "ms1 = takeWhile ?P ms @ x # dropWhile ?P ms"
  have run: "do_mount (Some a) r fs source point info flags ms = (0, ms1)"
    using assms(3) by (simp add: do_mount_def ms1_def x_def)
  have "find (\<lambda>m. m_point m = point) ms1 = Some x"
  proof -
    have "\<forall>m \<in> set (takeWhile ?P ms). m_point m \<noteq> point" by (auto dest: set_takeWhileD)
    then show ?thesis unfolding ms1_def by (rule find_first) (simp add: x_def)
  qed
  moreover have "filter (\<lambda>y. m_addr y \<noteq> a) ms1 = ms"
  proof -
    have "filter (\<lambda>y. m_addr y \<noteq> a) ys = ys" if "set ys \<subseteq> set ms" for ys
      using that assms(2) by (auto simp: filter_id_conv)
    moreover have "set (takeWhile ?P ms) \<subseteq> set ms" "set (dropWhile ?P ms) \<subseteq> set ms"
      by (auto dest: set_takeWhileD set_dropWhileD)
    moreover have "m_addr x = a" by (simp add: x_def)
    ultimately have "filter (\<lambda>y. m_addr y \<noteq> a) ms1 = takeWhile ?P ms @ dropWhile ?P ms" unfolding ms1_def by simp
    then show ?thesis unfolding takeWhile_dropWhile_id .
  qed
  ultimately have "do_umount point ms1 = (0, ms)" by (simp add: do_umount_def mount_remove_def x_def)
  then show ?thesis using run by blast
qed

theorem umount_undoes_mount_witness:
  "\<exists>ms1. do_mount (Some 7) 0 3 ''tmpfs'' ''/dev'' [] 0 dev_table = (0, ms1) \<and> do_umount ''/dev'' ms1 = (0, dev_table)"
  by (rule umount_undoes_mount[OF dev_reach]) (simp_all add: dev_table_def do_mount_def)

lemma param_flag_comma:
  assumes "mount_param_flag info flag = Some b" "flag \<noteq> []" "hd flag \<noteq> CHR '',''"
  shows "\<not> (info \<noteq> [] \<and> hd info = CHR '','')"
proof -
  have "flag \<noteq> [] \<and> hd flag \<noteq> CHR '','' \<longrightarrow> \<not> (info \<noteq> [] \<and> hd info = CHR '','')"
  proof (rule mount_param_flag.raw_induct[OF _ assms(1),
        where P = "\<lambda>info flag b. flag \<noteq> [] \<and> hd flag \<noteq> CHR '','' \<longrightarrow> \<not> (info \<noteq> [] \<and> hd info = CHR '','')"], intro impI notI, elim conjE)
    fix mpf :: "string \<Rightarrow> string \<Rightarrow> bool option" and info flag :: string and b
    assume ih: "\<And>i f y. mpf i f = Some y \<Longrightarrow> f \<noteq> [] \<and> hd f \<noteq> CHR '','' \<longrightarrow> \<not> (i \<noteq> [] \<and> hd i = CHR '','')"
      and run: "(if info = [] then Some False else if take (length flag) info = flag then Some True
        else mpf (dropWhile (\<lambda>c. c \<noteq> CHR '','') info) flag) = Some b"
      and f: "flag \<noteq> []" "hd flag \<noteq> CHR '',''" and c: "info \<noteq> []" "hd info = CHR '',''"
    have d: "dropWhile (\<lambda>c. c \<noteq> CHR '','') info = info" using c by (cases info) auto
    have "take (length flag) info \<noteq> flag" using c f by (cases info; cases flag) auto
    then have "mpf info flag = Some b" using run c(1) d by simp
    then show False using ih f c by blast
  qed
  then show ?thesis using assms(2,3) by blast
qed

text \<open>Looking for a mount option never ends when the option string does not begin with it and holds a comma:
  the loop stays at the comma for ever.\<close>

theorem mount_param_flag_hangs:
  assumes "CHR '','' \<in> set info" "flag \<noteq> []" "hd flag \<noteq> CHR '',''" "take (length flag) info \<noteq> flag"
  shows "mount_param_flag info flag = None"
proof (rule ccontr)
  let ?rest = "dropWhile (\<lambda>c. c \<noteq> CHR '','') info"
  assume "mount_param_flag info flag \<noteq> None"
  then obtain b where "mount_param_flag info flag = Some b" by blast
  moreover have "info \<noteq> []" using assms(1) by auto
  ultimately have "mount_param_flag ?rest flag = Some b" using assms(4) by (subst (asm) mount_param_flag.simps) simp
  then have "\<not> (?rest \<noteq> [] \<and> hd ?rest = CHR '','')" using param_flag_comma assms(2,3) by blast
  moreover have "?rest \<noteq> []" using assms(1) by (auto simp: dropWhile_eq_Nil_conv)
  then have "hd ?rest = CHR '',''" using hd_dropWhile[of "\<lambda>c. c \<noteq> CHR '',''" info] by blast
  ultimately show False using \<open>?rest \<noteq> []\<close> by blast
qed

theorem mount_param_flag_hangs_witness: "mount_param_flag ''rw,ro'' ''ro'' = None"
  by (rule mount_param_flag_hangs) simp_all

end
