(* ===== verification/Path_Walk.thy ===== *)
theory Path_Walk
  imports Mount_Table
begin

text \<open>
  Path resolution (\<^verbatim>\<open>fs/path.c\<close>) and the permission check (\<^verbatim>\<open>access_check\<close> of \<^verbatim>\<open>kernel/fs.c\<close>). The output
  buffer is the list of the characters before \<^verbatim>\<open>o\<close>; \<open>n\<close> is the room the code keeps count of. A write outside a
  buffer of \<open>MAX_PATH\<close> bytes and a failing assertion are \<open>None\<close>. The file systems are parameters: their
  \<^verbatim>\<open>readlink\<close> and \<^verbatim>\<open>stat\<close> operations on the path within the mount.
\<close>

section \<open>Permissions\<close>

record stat_buf =
  st_mode :: u32
  st_uid :: nat
  st_gid :: nat

record cred =
  c_euid :: nat
  c_egid :: nat

definition AC_R :: u32 where "AC_R = 4"
definition AC_W :: u32 where "AC_W = 2"
definition AC_X :: u32 where "AC_X = 1"

definition S_ISDIR :: "u32 \<Rightarrow> bool" where "S_ISDIR mode \<longleftrightarrow> mode AND 0xf000 = 0x4000"

definition superuser :: "cred \<Rightarrow> bool" where "superuser c \<longleftrightarrow> c_euid c = 0"

definition access_check :: "cred \<Rightarrow> stat_buf \<Rightarrow> u32 \<Rightarrow> int" where
  "access_check c st check =
     (if superuser c then 0
      else if check = 0 then 0
      else let check' = (if c_euid c = st_uid st then push_bit 6 check
                         else if c_egid c = st_gid st then push_bit 3 check else check)
           in if st_mode st AND check' = 0 then EACCES else 0)"

section \<open>The walk\<close>

record fs_view =
  fv_readlink :: "(mount \<Rightarrow> string \<Rightarrow> string option) option"
  fv_stat :: "mount \<Rightarrow> string \<Rightarrow> errno + stat_buf"

record penv =
  pe_fs :: "nat \<Rightarrow> fs_view"
  pe_cred :: cred

definition fs_readlink :: "penv \<Rightarrow> mount \<Rightarrow> string \<Rightarrow> string option" where
  "fs_readlink E m q = (case fv_readlink (pe_fs E (m_fs m)) of None \<Rightarrow> None | Some f \<Rightarrow> f m q)"

definition fs_stat :: "penv \<Rightarrow> mount \<Rightarrow> string \<Rightarrow> errno + stat_buf" where
  "fs_stat E m q = fv_stat (pe_fs E (m_fs m)) m q"

text \<open>The check of a component that something follows: an error if it exists and cannot be passed.\<close>

definition dir_check :: "penv \<Rightarrow> mount \<Rightarrow> string \<Rightarrow> errno option" where
  "dir_check E m q =
     (case fs_stat E m q of
        Inl _ \<Rightarrow> None
      | Inr st \<Rightarrow> if \<not> S_ISDIR (st_mode st) then Some ENOTDIR
                  else if access_check (pe_cred E) st AC_X < 0 then Some (access_check (pe_cred E) st AC_X) else None)"

definition N_SYMLINK_FOLLOW :: u32 where "N_SYMLINK_FOLLOW = 1"
definition N_SYMLINK_NOFOLLOW :: u32 where "N_SYMLINK_NOFOLLOW = 2"
definition N_PARENT_DIR_WRITE :: u32 where "N_PARENT_DIR_WRITE = 4"

definition is_dot :: "string \<Rightarrow> bool" where
  "is_dot p \<longleftrightarrow> first_name p = ''.''"

definition is_dotdot :: "string \<Rightarrow> bool" where
  "is_dotdot p \<longleftrightarrow> first_name p = ''..''"

text \<open>Back to the last slash; without one the loop would leave the buffer.\<close>

definition pop_component :: "string \<Rightarrow> string option" where
  "pop_component out = (case dropWhile (\<lambda>c. c \<noteq> slash) (rev out) of [] \<Rightarrow> None | _ # r \<Rightarrow> Some (rev r))"

text \<open>The copy of a name: what is copied, what is left of the path, and the room that remains.\<close>

fun copy_name :: "string \<Rightarrow> int \<Rightarrow> string \<times> string \<times> int" where
  "copy_name [] n = ([], [], n)"
| "copy_name (c # p) n =
     (if c = slash then ([], c # p, n)
      else if n - 1 > 0 then apfst ((#) c) (copy_name p (n - 1))
      else ([], c # p, n - 1))"

definition root_floor :: "string \<Rightarrow> nat" where
  "root_floor root = (if root \<noteq> ''/'' then length root else 0)"

text \<open>The buffer at the start: the base path, if it leaves room.\<close>

definition start_at :: "string option \<Rightarrow> errno + string" where
  "start_at at = (case at of
     None \<Rightarrow> Inr []
   | Some a \<Rightarrow> if a = ''/'' then Inr [] else if length a + 2 > MAX_PATH - 1 then Inl ENAMETOOLONG else Inr a)"

lemma copy_name_spec:
  "copy_name p n = (c, r, n1) \<Longrightarrow> 0 < n \<Longrightarrow> 0 < n1 \<Longrightarrow>
     c = first_name p \<and> r = after_name p \<and> n1 = n - int (length c)"
proof (induction p arbitrary: n c r n1)
  case (Cons x p)
  show ?case
  proof (cases "x = slash")
    case True
    then show ?thesis using Cons.prems by auto
  next
    case False
    then have "n - 1 > 0" using Cons.prems by (auto split: if_splits)
    moreover obtain c' where "copy_name p (n - 1) = (c', r, n1)" "c = x # c'"
      using Cons.prems False calculation by (cases "copy_name p (n - 1)") auto
    ultimately show ?thesis using Cons.IH[of "n - 1" c' r n1] Cons.prems False by simp
  qed
qed simp

lemma after_name_le: "length (after_name p) \<le> length p" "length (eat p) \<le> length p"
  by (rule length_dropWhile_le)+

lemma copy_name_shrinks:
  assumes "copy_name p n = (c, r, n1)" "0 < n" "0 < n1" "p \<noteq> []"
  shows "length (eat r) < length p"
proof (cases p)
  case (Cons x q)
  show ?thesis
  proof (cases "x = slash")
    case True
    then have "eat r = eat q" using assms Cons by auto
    then show ?thesis using after_name_le(2)[of q] Cons by simp
  next
    case False
    then have "r = after_name q" using copy_name_spec[OF assms(1-3)] Cons by simp
    then show ?thesis using after_name_le(2)[of r] after_name_le(1)[of q] Cons by simp
  qed
qed (use assms in simp)

lemma eat_drop_less: "p \<noteq> [] \<Longrightarrow> 0 < k \<Longrightarrow> length (eat (drop k p)) < length p"
  using after_name_le(2)[of "drop k p"] by (cases p) (auto simp: less_eq_Suc_le)

text \<open>
  The path a symbolic link leads to: the text that has been read replaces the last component, an absolute one
  starts again at the task's root. \<open>None\<close> is a write past a buffer; \<open>t\<close> is what \<^verbatim>\<open>readlink\<close> stored.
\<close>

definition expand :: "string \<Rightarrow> string \<Rightarrow> string \<Rightarrow> string \<Rightarrow> (string option \<times> string) option" where
  "expand root o1 t rest =
     (let base = (case t of c # _ \<Rightarrow> if c = slash then t else o1 @ t | [] \<Rightarrow> o1 @ t);
          restart = (case t of c # _ \<Rightarrow> if c = slash then Some root else None | [] \<Rightarrow> None);
          full = (if rest = [] then base else base @ [slash] @ rest)
      in if length o1 + length t \<ge> MAX_PATH \<or> length full \<ge> MAX_PATH then None else Some (restart, full))"

function norm_loop ::
  "penv \<Rightarrow> string \<Rightarrow> bool \<Rightarrow> nat \<Rightarrow> string \<Rightarrow> string \<Rightarrow> int \<Rightarrow> mount list \<Rightarrow> ((errno + string) \<times> mount list) option" where
  "norm_loop E root fol lv p out n ms =
     (if p = [] then (if path_is_normalized out then Some (Inr out, ms) else None)
      else if is_dot p then norm_loop E root fol lv (eat (drop 1 p)) out n ms
      else if is_dotdot p then
        (if out \<noteq> [] \<and> length out > root_floor root then
           (case pop_component out of
              None \<Rightarrow> None
            | Some o' \<Rightarrow> norm_loop E root fol lv (eat (drop 2 p)) o' (n + int (length out - length o')) ms)
         else norm_loop E root fol lv (eat (drop 2 p)) out n ms)
      else if n < 2 then Some (Inl ENAMETOOLONG, ms)
      else (case copy_name p (n - 1) of (c, r, n1) \<Rightarrow>
        if n1 \<le> 0 then Some (Inl ENAMETOOLONG, ms)
        else if \<not> (fol \<or> eat r \<noteq> []) then norm_loop E root fol lv (eat r) (out @ [slash] @ c) n1 ms
        else (case find_mount_and_trim_path ms (out @ [slash] @ c) of
            None \<Rightarrow> None
          | Some (m, q, ms1) \<Rightarrow>
              if \<not> path_is_normalized q then None
              else (case fs_readlink E m q of
                  Some target \<Rightarrow>
                    if lv \<ge> 5 then Some (Inl ELOOP, mount_release (m_addr m) ms1)
                    else (case expand root (out @ [slash]) (take (MAX_PATH - (length out + 1)) target) (eat r) of
                        None \<Rightarrow> None
                      | Some (restart, full) \<Rightarrow>
                          if full = [] then Some (Inl ENOENT, mount_release (m_addr m) ms1)
                          else (case start_at restart of
                              Inl e \<Rightarrow> Some (Inl e, mount_release (m_addr m) ms1)
                            | Inr out0 \<Rightarrow> norm_loop E root fol (lv + 1) (eat full) out0
                                            (int MAX_PATH - 1 - int (length out0)) (mount_release (m_addr m) ms1)))
                | None \<Rightarrow>
                    (case if eat r \<noteq> r then dir_check E m q else None of
                        Some e \<Rightarrow> Some (Inl e, mount_release (m_addr m) ms1)
                      | None \<Rightarrow> norm_loop E root fol lv (eat r) (out @ [slash] @ c) n1 (mount_release (m_addr m) ms1))))))"
  by pat_completeness auto
termination
proof (relation "measures [\<lambda>(E, root, fol, lv, p, out, n, ms). 5 - lv, \<lambda>(E, root, fol, lv, p, out, n, ms). length p]", goal_cases)
  case (2 E root fol lv p out n ms)
  then show ?case using eat_drop_less[of p 1] by simp
next
  case (3 E root fol lv p out n ms o')
  then show ?case using eat_drop_less[of p 2] by simp
next
  case (4 E root fol lv p out n ms)
  then show ?case using eat_drop_less[of p 2] by simp
next
  case (5 E root fol lv p out n ms c x2 r n1)
  then show ?case using copy_name_shrinks[of p "n - 1" c r n1] by simp
next
  case (6 E root fol lv p out n ms c x2 r n1)
  then show ?case using copy_name_shrinks[of p "n - 1" c r n1] by simp
next
  case (7 E root fol lv)
  then have "5 - (lv + 1) < 5 - lv" by simp
  then show ?case by simp
qed simp

declare norm_loop.simps [simp del]

definition norm_path ::
  "penv \<Rightarrow> string option \<Rightarrow> string \<Rightarrow> string \<Rightarrow> u32 \<Rightarrow> nat \<Rightarrow> mount list \<Rightarrow> ((errno + string) \<times> mount list) option" where
  "norm_path E at root path flags lv ms =
     (if (flags AND N_SYMLINK_FOLLOW \<noteq> 0) = (flags AND N_SYMLINK_NOFOLLOW \<noteq> 0) then None
      else if path = [] then Some (Inl ENOENT, ms)
      else case start_at at of
        Inl e \<Rightarrow> Some (Inl e, ms)
      | Inr out0 \<Rightarrow> norm_loop E root (flags AND N_SYMLINK_FOLLOW \<noteq> 0) lv (eat path) out0
                      (int MAX_PATH - 1 - int (length out0)) ms)"

section \<open>The cache and the entry point\<close>

definition PATH_CACHE_SIZE :: nat where "PATH_CACHE_SIZE = 64"
definition PATH_CACHE_TTL_NS :: nat where "PATH_CACHE_TTL_NS = 100000000"

record path_cache_entry =
  input_path :: string
  root_path :: string
  normalized :: string
  timestamp :: nat
  pc_flags :: u32
  pc_valid :: bool

definition path_hash :: "string \<Rightarrow> u32" where
  "path_hash str = foldl (\<lambda>hash c. (push_bit 5 hash + hash) + of_char c) 5381 str"

definition path_cache_init :: "path_cache_entry list" where
  "path_cache_init = replicate PATH_CACHE_SIZE
     \<lparr>input_path = [], root_path = [], normalized = [], timestamp = 0, pc_flags = 0, pc_valid = False\<rparr>"

definition cache_index :: "string \<Rightarrow> nat" where
  "cache_index full = unat (path_hash full) mod PATH_CACHE_SIZE"

definition path_cache_get ::
  "nat \<Rightarrow> string \<Rightarrow> string \<Rightarrow> u32 \<Rightarrow> path_cache_entry list \<Rightarrow> string option \<times> path_cache_entry list" where
  "path_cache_get now full root flags C =
     (let i = cache_index full; e = C ! i
      in if \<not> pc_valid e then (None, C)
         else if root_path e \<noteq> root then (None, C)
         else if input_path e \<noteq> full then (None, C)
         else if pc_flags e \<noteq> flags then (None, C)
         else if size_sub now (timestamp e) > PATH_CACHE_TTL_NS then (None, C[i := e\<lparr>pc_valid := False\<rparr>])
         else (Some (normalized e), C))"

definition path_cache_set ::
  "nat \<Rightarrow> string \<Rightarrow> string \<Rightarrow> u32 \<Rightarrow> string \<Rightarrow> path_cache_entry list \<Rightarrow> path_cache_entry list" where
  "path_cache_set now full root flags norm C =
     C[cache_index full := \<lparr>input_path = take (MAX_PATH - 1) full, root_path = take (MAX_PATH - 1) root,
         normalized = take (MAX_PATH - 1) norm, timestamp = now, pc_flags = flags, pc_valid = True\<rparr>]"

text \<open>
  Where paths start: each is what \<^verbatim>\<open>generic_getpath\<close> gives for the task's root, its working directory or
  the descriptor of the call; \<open>None\<close> is a null pointer.
\<close>

record fs_info =
  fi_root :: "(errno + string) option"
  fi_pwd :: "(errno + string) option"

datatype at_arg = AtPwd | AtFd "errno + string"

definition base_of :: "fs_info \<Rightarrow> at_arg \<Rightarrow> string \<Rightarrow> (errno + string) option" where
  "base_of fi at path =
     (if (case path of c # _ \<Rightarrow> c = slash | [] \<Rightarrow> False) then fi_root fi
      else case at of AtPwd \<Rightarrow> fi_pwd fi | AtFd r \<Rightarrow> Some r)"

definition full_input :: "string option \<Rightarrow> string \<Rightarrow> string" where
  "full_input at path = take (MAX_PATH - 1)
     (case at of Some a \<Rightarrow> if a \<noteq> ''/'' then a @ [slash] @ path else path | None \<Rightarrow> path)"

text \<open>\<open>t\<close> and \<open>t'\<close> are the times at which the cache is read and written.\<close>

definition path_normalize ::
  "penv \<Rightarrow> nat \<Rightarrow> nat \<Rightarrow> fs_info \<Rightarrow> at_arg \<Rightarrow> string \<Rightarrow> u32 \<Rightarrow> path_cache_entry list \<Rightarrow> mount list
    \<Rightarrow> ((errno + string) \<times> path_cache_entry list \<times> mount list) option" where
  "path_normalize E t t' fi at path flags C ms =
     (if path = [] then Some (Inl ENOENT, C, ms)
      else case base_of fi at path of
        Some (Inl e) \<Rightarrow> Some (Inl e, C, ms)
      | base \<Rightarrow>
          let at_path = (case base of Some (Inr a) \<Rightarrow> Some a | _ \<Rightarrow> None)
          in if \<not> (case at_path of Some a \<Rightarrow> path_is_normalized a | None \<Rightarrow> True) then None
             else (case (case fi_root fi of Some r \<Rightarrow> r | None \<Rightarrow> Inr ''/'') of
                 Inl e \<Rightarrow> Some (Inl e, C, ms)
               | Inr root \<Rightarrow>
                   if \<not> path_is_normalized root then None
                   else (case path_cache_get t (full_input at_path path) root flags C of
                       (Some out, C1) \<Rightarrow> Some (Inr out, C1, ms)
                     | (None, C1) \<Rightarrow>
                         (case norm_path E at_path root path flags 0 ms of
                            None \<Rightarrow> None
                          | Some (Inl e, ms') \<Rightarrow> Some (Inl e, C1, ms')
                          | Some (Inr out, ms') \<Rightarrow>
                              Some (Inr out, path_cache_set t' (full_input at_path path) root flags out C1, ms')))))"

end
