(* ===== verification/Path_Spec.thy ===== *)
theory Path_Spec
  imports Path_Walk
begin

text \<open>
  What path resolution computes: a walk over lists of names, without buffers, strings or counts. The buffer
  algorithm is related to it, and the properties of the result are proved on the walk.
\<close>

section \<open>Names and strings\<close>

definition trail :: "string \<Rightarrow> bool" where
  "trail p \<longleftrightarrow> p \<noteq> [] \<and> last p = slash"

lemma name_append_slash: "first_name (s @ slash # t) = first_name s" "after_name (s @ slash # t) = after_name s @ slash # t"
  by (induction s) simp_all

lemma comps_slash_append: "comps (s @ slash # t) = comps s @ comps t"
proof (induction s rule: comps.induct)
  case (1 s)
  show ?case
  proof (cases "eat s = []")
    case True
    then have "\<forall>c \<in> set s. c = slash" by (simp add: dropWhile_eq_Nil_conv)
    then have "eat (s @ slash # t) = eat t" by (simp add: dropWhile_append2)
    moreover have "comps s = []" using True by (simp add: comps.simps)
    ultimately show ?thesis by (metis append_Nil comps_eat)
  next
    case False
    have e: "eat (s @ slash # t) = eat s @ slash # t"
      using False by (subst dropWhile_append) (auto simp: dropWhile_eq_Nil_conv)
    have "comps (s @ slash # t) = first_name (eat s) # comps (after_name (eat s) @ slash # t)"
      unfolding comps.simps[of "s @ slash # t"] e name_append_slash by simp
    moreover have "comps s = first_name (eat s) # comps (after_name (eat s))"
      by (simp only: comps.simps[of s] if_not_P[OF False])
    ultimately show ?thesis using 1[OF False] by simp
  qed
qed

lemma comps_step:
  assumes "p \<noteq> []" "eat p = p"
  shows "comps p = first_name p # comps (after_name p)" "name (first_name p)" "p = first_name p @ after_name p"
proof -
  show "comps p = first_name p # comps (after_name p)"
    unfolding comps.simps[of p] assms(2) if_not_P[OF assms(1)] ..
  show "name (first_name p)" using first_name_name[of p] assms by simp
qed simp

lemma comps_empty: "comps p = [] \<longleftrightarrow> eat p = []"
  using comps.simps[of p] by (auto split: if_splits)

lemma trail_after:
  assumes "p \<noteq> []" "eat p = p"
  shows "eat (after_name p) \<noteq> [] \<Longrightarrow> trail (eat (after_name p)) = trail p"
    "eat (after_name p) = [] \<Longrightarrow> (after_name p \<noteq> []) = trail p"
proof -
  have nm: "name (first_name p)" "p = first_name p @ after_name p" using comps_step[OF assms] by simp_all
  have last_p: "after_name p \<noteq> [] \<Longrightarrow> last p = last (after_name p)"
    using nm(2) by (metis last_append)
  {
    assume e: "eat (after_name p) \<noteq> []"
    have "after_name p = takeWhile (\<lambda>c. c = slash) (after_name p) @ eat (after_name p)" by simp
    then have l: "last (after_name p) = last (eat (after_name p))" using e by (metis last_append)
    have "after_name p \<noteq> []" using e by (metis dropWhile.simps(1))
    then have "last p = last (eat (after_name p))" using last_p l by simp
    then show "trail (eat (after_name p)) = trail p" using e assms(1) unfolding trail_def by metis
  next
    assume e: "eat (after_name p) = []"
    then have all: "\<forall>c \<in> set (after_name p). c = slash" by (simp only: dropWhile_eq_Nil_conv)
    show "(after_name p \<noteq> []) = trail p"
    proof (cases "after_name p = []")
      case True
      then have "p = first_name p" using nm(2) by (metis append_Nil2)
      then have "last p \<noteq> slash" using nm(1) assms(1) by (metis last_in_set name_def)
      then show ?thesis using True by (simp add: trail_def)
    next
      case False
      then have "last p = slash" using all last_p by (metis last_in_set)
      then show ?thesis using False assms(1) by (simp add: trail_def)
    qed
  }
qed

lemma trail_eat: "eat s \<noteq> [] \<Longrightarrow> trail (eat s) = trail s"
proof -
  assume e: "eat s \<noteq> []"
  have "s = takeWhile (\<lambda>c. c = slash) s @ eat s" by simp
  then have "last s = last (eat s)" "s \<noteq> []" using e by (metis last_append, metis dropWhile.simps(1))
  then show ?thesis using e unfolding trail_def by metis
qed

lemma eat_after: "p \<noteq> [] \<Longrightarrow> eat p = p \<Longrightarrow> (eat (after_name p) \<noteq> after_name p) = (after_name p \<noteq> [])"
  by (metis (full_types) dropWhile.simps(1) hd_dropWhile)

lemma pop_join:
  assumes "\<forall>c \<in> set os. name c" "os \<noteq> []"
  shows "pop_component (join os) = Some (join (butlast os))"
proof -
  obtain xs c where os: "os = xs @ [c]" using assms(2) by (metis rev_exhaust)
  then have "\<forall>x \<in> set (rev c). x \<noteq> slash" using assms(1) by (auto simp: name_def)
  then have "dropWhile (\<lambda>x. x \<noteq> slash) (rev (join os)) = slash # rev (join xs)"
    by (simp add: os) (subst dropWhile_append2, simp_all)
  then show ?thesis by (simp add: pop_component_def os)
qed

section \<open>The walk over names\<close>

text \<open>
  \<open>L\<close> gives the target of a link, \<open>D\<close> the error of a component that cannot be passed; \<open>tr\<close> says whether a
  slash follows the last name.
\<close>

function walk ::
  "(string list \<Rightarrow> string option) \<Rightarrow> (string list \<Rightarrow> errno option) \<Rightarrow> string list \<Rightarrow> bool \<Rightarrow> nat
    \<Rightarrow> string list \<Rightarrow> bool \<Rightarrow> string list \<Rightarrow> errno + string list" where
  "walk L D root fol lv [] tr out = Inr out"
| "walk L D root fol lv (c # cs) tr out =
     (if c = ''.'' then walk L D root fol lv cs tr out
      else if c = ''..'' then
        walk L D root fol lv cs tr (if length (join out) > length (join root) then butlast out else out)
      else if \<not> fol \<and> cs = [] then Inr (out @ [c])
      else (case L (out @ [c]) of
          Some t \<Rightarrow>
            if lv \<ge> 5 then Inl ELOOP
            else if t \<noteq> [] \<and> hd t = slash
              then walk L D root fol (lv + 1) (comps t @ cs) (if cs = [] then trail t else tr) root
              else walk L D root fol (lv + 1) (out @ comps t @ cs) (if cs = [] then t = [] \<or> trail t else tr) []
        | None \<Rightarrow>
            (case if cs \<noteq> [] \<or> tr then D (out @ [c]) else None of
               Some e \<Rightarrow> Inl e
             | None \<Rightarrow> walk L D root fol lv cs tr (out @ [c]))))"
  by pat_completeness auto
termination
proof (relation "measures [\<lambda>(L, D, root, fol, lv, cs, tr, out). 5 - lv, \<lambda>(L, D, root, fol, lv, cs, tr, out). length cs]", goal_cases)
  case (5 L D root fol lv)
  then have "5 - (lv + 1) < 5 - lv" by simp
  then show ?case by simp
next
  case (6 L D root fol lv)
  then have "5 - (lv + 1) < 5 - lv" by simp
  then show ?case by simp
qed simp_all

declare walk.simps(2) [simp del]

definition links :: "penv \<Rightarrow> mount list \<Rightarrow> string list \<Rightarrow> string option" where
  "links E ms = mounts.ask ms (fs_readlink E)"

definition passes :: "penv \<Rightarrow> mount list \<Rightarrow> string list \<Rightarrow> errno option" where
  "passes E ms = mounts.ask ms (dir_check E)"

text \<open>How a root is written: \<^verbatim>\<open>/\<close> for the machine's own.\<close>

definition root_string :: "string list \<Rightarrow> string" where
  "root_string rs = (if rs = [] then ''/'' else join rs)"

lemma root_floor_string [simp]: "\<forall>c \<in> set rs. name c \<Longrightarrow> root_floor (root_string rs) = length (join rs)"
proof (cases rs)
  case (Cons r rs')
  assume "\<forall>c \<in> set rs. name c"
  then show ?thesis using Cons by (auto simp: root_floor_def root_string_def name_def)
qed (simp add: root_floor_def root_string_def)

lemma start_root: "\<forall>c \<in> set rs. name c \<Longrightarrow>
    start_at (Some (root_string rs)) = (if length (join rs) + 2 > MAX_PATH - 1 then Inl ENAMETOOLONG else Inr (join rs))"
proof (cases rs)
  case (Cons r rs')
  assume "\<forall>c \<in> set rs. name c"
  then have "join rs \<noteq> ''/''" using Cons by (auto simp: name_def)
  then show ?thesis using Cons by (auto simp: start_at_def root_string_def)
qed (simp add: start_at_def root_string_def MAX_PATH_def)

text \<open>What the expansion of a link means for the names.\<close>

lemma expand_names:
  assumes "\<forall>c \<in> set os. name c" "expand root (join os @ [slash]) t rest = Some (restart, full)" "eat rest = rest"
  shows "full \<noteq> []" "length (join os @ [slash]) + length t < MAX_PATH"
    "restart = (if t \<noteq> [] \<and> hd t = slash then Some root else None)"
    "comps full = (if t \<noteq> [] \<and> hd t = slash then [] else os) @ comps t @ comps rest"
    "trail full = (if rest = [] then (if t \<noteq> [] \<and> hd t = slash then trail t else t = [] \<or> trail t) else trail rest)"
proof -
  define base where "base = (if t \<noteq> [] \<and> hd t = slash then t else join os @ slash # t)"
  have e: "restart = (if t \<noteq> [] \<and> hd t = slash then Some root else None)"
      "full = (if rest = [] then base else base @ slash # rest)" "length (join os @ [slash]) + length t < MAX_PATH"
    using assms(2) by (auto simp: expand_def Let_def base_def split: if_splits list.splits)
  show "restart = (if t \<noteq> [] \<and> hd t = slash then Some root else None)" "length (join os @ [slash]) + length t < MAX_PATH"
    using e by blast+
  show "full \<noteq> []" using e(2) by (auto simp: base_def)
  have b: "comps base = (if t \<noteq> [] \<and> hd t = slash then [] else os) @ comps t"
    using assms(1) comps_slash_append[of "join os" t] by (cases t) (simp_all add: base_def)
  show "comps full = (if t \<noteq> [] \<and> hd t = slash then [] else os) @ comps t @ comps rest"
    using e(2) b comps_slash_append[of base rest] by simp
  show "trail full = (if rest = [] then (if t \<noteq> [] \<and> hd t = slash then trail t else t = [] \<or> trail t) else trail rest)"
    using e(2) by (auto simp: trail_def base_def)
qed

section \<open>The buffer algorithm computes the walk\<close>

definition outcome :: "errno + string list \<Rightarrow> errno + string" where
  "outcome r = map_sum id join r"

lemma outcome_simps [simp]: "outcome (Inl e) = Inl e" "outcome (Inr cs) = Inr (join cs)"
  by (simp_all add: outcome_def)

lemma dots_name:
  assumes "p \<noteq> []" "eat p = p"
  shows "is_dot p \<Longrightarrow> comps p = ''.'' # comps (eat (drop 1 p)) \<and> (comps (eat (drop 1 p)) \<noteq> [] \<longrightarrow> trail (eat (drop 1 p)) = trail p)"
    "is_dotdot p \<Longrightarrow> comps p = ''..'' # comps (eat (drop 2 p)) \<and> (comps (eat (drop 2 p)) \<noteq> [] \<longrightarrow> trail (eat (drop 2 p)) = trail p)"
proof -
  have st: "comps p = first_name p # comps (after_name p)" "p = first_name p @ after_name p" using comps_step[OF assms] by blast+
  have tr: "comps (eat (after_name p)) \<noteq> [] \<Longrightarrow> trail (eat (after_name p)) = trail p"
    using trail_after(1)[OF assms] comps_empty[of "eat (after_name p)"] by (metis dropWhile_idem)
  show "comps p = ''.'' # comps (eat (drop 1 p)) \<and> (comps (eat (drop 1 p)) \<noteq> [] \<longrightarrow> trail (eat (drop 1 p)) = trail p)" if "is_dot p"
  proof -
    have "drop 1 p = after_name p" using that st(2) by (metis append_eq_conv_conj is_dot_def length_Cons list.size(3) One_nat_def)
    then show ?thesis using st(1) tr that by (simp add: is_dot_def)
  qed
  show "comps p = ''..'' # comps (eat (drop 2 p)) \<and> (comps (eat (drop 2 p)) \<noteq> [] \<longrightarrow> trail (eat (drop 2 p)) = trail p)" if "is_dotdot p"
  proof -
    have "drop 2 p = after_name p" using that st(2) by (metis append_eq_conv_conj is_dotdot_def length_Cons list.size(3) numeral_2_eq_2)
    then show ?thesis using st(1) tr that by (simp add: is_dotdot_def)
  qed
qed

lemma walk_no_trail: "cs \<noteq> [] \<longrightarrow> tr = tr' \<Longrightarrow> walk L D root fol lv cs tr out = walk L D root fol lv cs tr' out"
  by (cases cs) auto

lemma walk_dots:
  "walk L D root fol lv (''.'' # cs) tr out = walk L D root fol lv cs tr out"
  "walk L D root fol lv (''..'' # cs) tr out =
     walk L D root fol lv cs tr (if length (join out) > length (join root) then butlast out else out)"
  by (simp_all add: walk.simps(2))

lemma walk_dot_step:
  assumes "comps p = ''.'' # comps q \<and> (comps q \<noteq> [] \<longrightarrow> trail q = trail p)"
  shows "walk L D root fol lv (comps p) (trail p) out = walk L D root fol lv (comps q) (trail q) out"
  using assms walk_no_trail[of "comps q" "trail p" "trail q"] by (simp only: walk_dots) blast

lemma walk_dotdot_step:
  assumes "comps p = ''..'' # comps q \<and> (comps q \<noteq> [] \<longrightarrow> trail q = trail p)"
  shows "walk L D root fol lv (comps p) (trail p) out = walk L D root fol lv (comps q) (trail q)
    (if length (join out) > length (join root) then butlast out else out)"
  using assms walk_no_trail[of "comps q" "trail p" "trail q"] by (simp only: walk_dots) blast

lemma walk_name:
  assumes "c \<noteq> ''.''" "c \<noteq> ''..''" "fol \<or> cs \<noteq> []"
  shows "L (out @ [c]) = None \<Longrightarrow> (if cs \<noteq> [] \<or> tr then D (out @ [c]) else None) = Some e \<Longrightarrow> walk L D root fol lv (c # cs) tr out = Inl e"
    "L (out @ [c]) = None \<Longrightarrow> (if cs \<noteq> [] \<or> tr then D (out @ [c]) else None) = None \<Longrightarrow>
       walk L D root fol lv (c # cs) tr out = walk L D root fol lv cs tr (out @ [c])"
    "L (out @ [c]) = Some t \<Longrightarrow> 5 \<le> lv \<Longrightarrow> walk L D root fol lv (c # cs) tr out = Inl ELOOP"
    "L (out @ [c]) = Some t \<Longrightarrow> \<not> 5 \<le> lv \<Longrightarrow> walk L D root fol lv (c # cs) tr out
       = walk L D root fol (lv + 1) ((if t \<noteq> [] \<and> hd t = slash then [] else out) @ comps t @ cs)
           (if cs = [] then (if t \<noteq> [] \<and> hd t = slash then trail t else t = [] \<or> trail t) else tr)
           (if t \<noteq> [] \<and> hd t = slash then root else [])"
  using assms by (auto simp: walk.simps(2))

lemma outcome_Inr: "Inr s = outcome r \<Longrightarrow> \<exists>res. r = Inr res \<and> s = join res"
  by (cases r) simp_all

lemma norm_loop_name:
  assumes "p \<noteq> []" "\<not> is_dot p" "\<not> is_dotdot p" "\<not> n < 2" "copy_name p (n - 1) = (c, rr, n1)" "\<not> n1 \<le> 0"
    "fol \<or> eat rr \<noteq> []" "find_mount_and_trim_path ms (out @ [slash] @ c) = Some (m, q, ms1)" "path_is_normalized q"
    "mount_release (m_addr m) ms1 = ms"
  shows "norm_loop E root fol lv p out n ms =
      (case fs_readlink E m q of
         Some target \<Rightarrow>
           if lv \<ge> 5 then Some (Inl ELOOP, ms)
           else (case expand root (out @ [slash]) (take (MAX_PATH - (length out + 1)) target) (eat rr) of
               None \<Rightarrow> None
             | Some (restart, full) \<Rightarrow>
                 if full = [] then Some (Inl ENOENT, ms)
                 else (case start_at restart of
                     Inl e \<Rightarrow> Some (Inl e, ms)
                   | Inr out0 \<Rightarrow> norm_loop E root fol (lv + 1) (eat full) out0 (int MAX_PATH - 1 - int (length out0)) ms))
       | None \<Rightarrow>
           (case if eat rr \<noteq> rr then dir_check E m q else None of
               Some e \<Rightarrow> Some (Inl e, ms)
             | None \<Rightarrow> norm_loop E root fol lv (eat rr) (out @ [slash] @ c) n1 ms))"
proof -
  have h: "\<not> \<not> (fol \<or> eat rr \<noteq> [])" "\<not> \<not> path_is_normalized q" using assms(7,9) by blast+
  show ?thesis
    unfolding norm_loop.simps[of E root fol lv p] assms(5,8,10) prod.case option.case if_not_P[OF assms(1)] if_not_P[OF assms(2)]
      if_not_P[OF assms(3)] if_not_P[OF assms(4)] if_not_P[OF assms(6)] if_not_P[OF h(1)] if_not_P[OF h(2)] ..
qed

lemma norm_loop_skip:
  assumes "p \<noteq> []" "\<not> is_dot p" "\<not> is_dotdot p" "\<not> n < 2" "copy_name p (n - 1) = (c, rr, n1)" "\<not> n1 \<le> 0" "\<not> fol" "eat rr = []"
  shows "norm_loop E root fol lv p out n ms = norm_loop E root fol lv [] (out @ [slash] @ c) n1 ms"
proof -
  have h: "\<not> (fol \<or> eat rr \<noteq> [])" using assms(7,8) by blast
  show ?thesis
    unfolding norm_loop.simps[of E root fol lv p] assms(5) prod.case if_not_P[OF assms(1)] if_not_P[OF assms(2)]
      if_not_P[OF assms(3)] if_not_P[OF assms(4)] if_not_P[OF assms(6)] if_P[OF h] unfolding assms(8) ..
qed

text \<open>
  The algorithm, run on normal buffers: it leaves the mount table as it was, and unless it reports a name that
  is too long its result is that of the walk, shorter than the buffer.
\<close>

lemma norm_loop_walk:
  assumes "\<forall>c \<in> set rs. name c"
  shows "mounts_ok ms \<Longrightarrow> root = root_string rs \<Longrightarrow> norm_loop E root fol lv p out n ms = Some (r, ms') \<Longrightarrow>
      out = join os \<Longrightarrow> \<forall>c \<in> set os. name c \<Longrightarrow> eat p = p \<Longrightarrow> n = int MAX_PATH - 1 - int (length out) \<Longrightarrow> 0 < n \<Longrightarrow>
      ms' = ms \<and> (\<forall>s. r = Inr s \<longrightarrow> length s < MAX_PATH - 1)
      \<and> (r = Inl ENAMETOOLONG \<or> r = outcome (walk (links E ms) (passes E ms) rs fol lv (comps p) (trail p) os))"
proof (induction E root fol lv p out n ms arbitrary: os rule: norm_loop.induct)
  case (1 E root fol lv p out n ms)
  note IH = "1.IH" and run = "1.prems"(3) and out = "1.prems"(4) and nm = "1.prems"(5) and ep = "1.prems"(6) and n = "1.prems"(7) and pos = "1.prems"(8)
  let ?W = "walk (links E ms) (passes E ms) rs fol lv"
  have fl: "root_floor root = length (join rs)" using 1(8) assms by simp
  consider (empty) "p = []" | (dot) "p \<noteq> []" "is_dot p" | (dotdot) "p \<noteq> []" "\<not> is_dot p" "is_dotdot p"
    | (full) "p \<noteq> []" "\<not> is_dot p" "\<not> is_dotdot p" "n < 2"
    | (nm) "p \<noteq> []" "\<not> is_dot p" "\<not> is_dotdot p" "\<not> n < 2" by blast
  then show ?case
  proof cases
    case empty
    then have "r = Inr out \<and> ms' = ms" using run by (subst (asm) norm_loop.simps) (auto split: if_splits)
    then show ?thesis using empty out n pos by auto
  next
    case dot
    have "norm_loop E root fol lv (eat (drop 1 p)) out n ms = Some (r, ms')"
      using run dot by (subst (asm) norm_loop.simps) simp
    from IH(1)[OF dot "1.prems"(1,2) this out nm _ n pos] have
      "ms' = ms \<and> (\<forall>s. r = Inr s \<longrightarrow> length s < MAX_PATH - 1) \<and> (r = Inl ENAMETOOLONG \<or> r = outcome (?W (comps (eat (drop 1 p))) (trail (eat (drop 1 p))) os))" by simp
    moreover have "?W (comps p) (trail p) os = ?W (comps (eat (drop 1 p))) (trail (eat (drop 1 p))) os"
      by (rule walk_dot_step[OF dots_name(1)[OF dot(1) ep dot(2)]])
    ultimately show ?thesis by simp
  next
    case dotdot
    note d = dots_name(2)[OF dotdot(1) ep dotdot(3)]
    show ?thesis
    proof (cases "out \<noteq> [] \<and> length out > root_floor root")
      case True
      then have os: "os \<noteq> []" using out by auto
      note pj = pop_join[OF nm os]
      have "norm_loop E root fol lv (eat (drop 2 p)) (join (butlast os)) (n + int (length out - length (join (butlast os)))) ms = Some (r, ms')"
        using run dotdot True pj out by (subst (asm) norm_loop.simps) simp
      moreover have "length (join (butlast os)) \<le> length out"
        using out os by (metis append_butlast_last_id join_simps(3) le_add1 length_append)
      moreover have "\<forall>c \<in> set (butlast os). name c" using nm by (auto dest: in_set_butlastD)
      ultimately have "ms' = ms \<and> (\<forall>s. r = Inr s \<longrightarrow> length s < MAX_PATH - 1) \<and> (r = Inl ENAMETOOLONG \<or> r = outcome (?W (comps (eat (drop 2 p))) (trail (eat (drop 2 p))) (butlast os)))"
        using IH(2)[OF dotdot True, of "join (butlast os)" "butlast os"] pj out n pos "1.prems"(1,2) by simp
      moreover have "?W (comps p) (trail p) os = ?W (comps (eat (drop 2 p))) (trail (eat (drop 2 p))) (butlast os)"
        unfolding walk_dotdot_step[OF d] using True out fl by simp
      ultimately show ?thesis by simp
    next
      case False
      have "norm_loop E root fol lv (eat (drop 2 p)) out n ms = Some (r, ms')"
        using run dotdot False by (subst (asm) norm_loop.simps) auto
      from IH(3)[OF dotdot False "1.prems"(1,2) this out nm _ n pos] have
        "ms' = ms \<and> (\<forall>s. r = Inr s \<longrightarrow> length s < MAX_PATH - 1) \<and> (r = Inl ENAMETOOLONG \<or> r = outcome (?W (comps (eat (drop 2 p))) (trail (eat (drop 2 p))) os))" by simp
      moreover have "?W (comps p) (trail p) os = ?W (comps (eat (drop 2 p))) (trail (eat (drop 2 p))) os"
      proof -
        have "\<not> length (join os) > length (join rs)" using False out fl by auto
        then show ?thesis unfolding walk_dotdot_step[OF d] by simp
      qed
      ultimately show ?thesis by simp
    qed
  next
    case full
    then show ?thesis using run by (subst (asm) norm_loop.simps) auto
  next
    case pn: nm
    obtain c rr n1 where cn: "copy_name p (n - 1) = (c, rr, n1)" by (metis prod_cases3)
    show ?thesis
    proof (cases "n1 \<le> 0")
      case True
      then show ?thesis using run pn cn by (subst (asm) norm_loop.simps) auto
    next
      case n1: False
      have c: "c = first_name p" "rr = after_name p" "n1 = n - 1 - int (length c)"
        using copy_name_spec[OF cn] pn(4) n1 by simp_all
      have cp: "comps p = c # comps (eat rr)" "name c" using comps_step[OF pn(1) ep] c by simp_all
      have out2: "out @ [slash] @ c = join (os @ [c])" "\<forall>x \<in> set (os @ [c]). name x" using out nm cp by simp_all
      have nn: "n1 = int MAX_PATH - 1 - int (length (join (os @ [c])))" using n c(3) out by simp
      have nd: "c \<noteq> ''.''" "c \<noteq> ''..''" using pn c by (simp_all add: is_dot_def is_dotdot_def)
      have er: "eat (eat rr) = eat rr" "(comps (eat rr) = []) = (eat rr = [])" using comps_empty[of "eat rr"] by simp_all
      have tr: "eat rr \<noteq> [] \<Longrightarrow> trail (eat rr) = trail p" "eat rr = [] \<Longrightarrow> (rr \<noteq> []) = trail p"
        using trail_after[OF pn(1) ep] unfolding c(2) by blast+
      show ?thesis
      proof (cases "fol \<or> eat rr \<noteq> []")
        case False
        have e0: "eat rr = []" "\<not> fol" using False by blast+
        have "norm_loop E root fol lv [] (join (os @ [c])) n1 ms = Some (r, ms')"
          using run unfolding norm_loop_skip[OF pn cn n1 e0(2,1)] out2(1) .
        then have "r = Inr (join (os @ [c])) \<and> ms' = ms" by (subst (asm) norm_loop.simps) (auto split: if_splits)
        moreover have "?W (comps p) (trail p) os = Inr (os @ [c])"
          using nd e0(2) unfolding cp(1) e0(1) by (simp add: walk.simps(2))
        moreover have "length (join (os @ [c])) < MAX_PATH - 1" using nn n1 by simp
        ultimately show ?thesis by auto
      next
        case look: True
        obtain m q ms1 where f: "find_mount_and_trim_path ms (join (os @ [c])) = Some (m, q, ms1)" "path_is_normalized q"
            "mount_release (m_addr m) ms1 = ms"
          using mounts.asked[OF "1.prems"(1) out2(2)] by metis
        have L: "links E ms (os @ [c]) = fs_readlink E m q" and D: "passes E ms (os @ [c]) = dir_check E m q"
          by (simp_all only: links_def passes_def mounts.ask_eq[OF f(1)])
        have look': "fol \<or> comps (eat rr) \<noteq> []" using look er(2) by blast
        have h: "\<not> \<not> (fol \<or> eat rr \<noteq> [])" "\<not> \<not> path_is_normalized q" using look f(2) by blast+
        note unf = norm_loop_name[OF pn cn n1 look f(1)[folded out2(1)] f(2,3), of E root lv, unfolded out2(1)]
        show ?thesis
        proof (cases "fs_readlink E m q")
          case None
          have chk: "(eat rr \<noteq> rr) = (comps (eat rr) \<noteq> [] \<or> trail p)"
            using eat_after[OF pn(1) ep] er(2) tr(2) unfolding c(2)[symmetric] by (metis dropWhile.simps(1))
          show ?thesis
          proof (cases "if eat rr \<noteq> rr then dir_check E m q else None")
            case (Some e)
            then have "r = Inl e \<and> ms' = ms" using run None unfolding unf by simp
            moreover have "?W (comps p) (trail p) os = Inl e"
              unfolding cp(1) by (rule walk_name(1)[OF nd look']) (simp only: L None, simp only: D chk[symmetric] Some)
            ultimately show ?thesis by simp
          next
            case ok: None
            have run5: "norm_loop E root fol lv (eat rr) (join (os @ [c])) n1 ms = Some (r, ms')"
              using run None ok unfolding unf by simp
            have "ms' = ms \<and> (\<forall>s. r = Inr s \<longrightarrow> length s < MAX_PATH - 1) \<and> (r = Inl ENAMETOOLONG \<or> r = outcome (?W (comps (eat rr)) (trail (eat rr)) (os @ [c])))"
              by (rule IH(5)[OF pn cn[symmetric] refl n1 h(1) f(1)[folded out2(1)] refl refl h(2) None ok,
                    unfolded f(3) out2(1), OF "1.prems"(1,2) run5 refl out2(2) er(1) nn n1[unfolded not_le]])
            moreover have "?W (comps p) (trail p) os = ?W (comps (eat rr)) (trail p) (os @ [c])"
              unfolding cp(1) by (rule walk_name(2)[OF nd look']) (simp only: L None, simp only: D chk[symmetric] ok)
            moreover have "?W (comps (eat rr)) (trail p) (os @ [c]) = ?W (comps (eat rr)) (trail (eat rr)) (os @ [c])"
              using tr(1) er(2) by (intro walk_no_trail) blast
            ultimately show ?thesis by simp
          qed
        next
          case (Some target)
          show ?thesis
          proof (cases "lv \<ge> 5")
            case True
            then have "r = Inl ELOOP \<and> ms' = ms" using run Some unfolding unf by simp
            moreover have "?W (comps p) (trail p) os = Inl ELOOP"
              unfolding cp(1) by (rule walk_name(3)[OF nd look' _ True]) (simp only: L Some)
            ultimately show ?thesis by simp
          next
            case lv: False
            let ?t = "take (MAX_PATH - (length out + 1)) target"
            obtain restart full where e: "expand root (out @ [slash]) ?t (eat rr) = Some (restart, full)"
              using run Some lv unfolding unf by (auto split: option.splits)
            note ex = expand_names[OF nm e[unfolded out] er(1)]
            have t: "?t = target"
              using ex(2) out by (auto simp: min_def split: if_splits)
            note ex = ex[folded out, unfolded t]
            show ?thesis
            proof (cases "start_at restart")
              case (Inl err)
              have "err = ENAMETOOLONG" using Inl by (auto simp: start_at_def split: option.splits if_splits)
              then have "r = Inl ENAMETOOLONG \<and> ms' = ms" using run Some lv e ex(1) Inl unfolding unf by simp
              then show ?thesis by simp
            next
              case (Inr out0)
              have o0: "out0 = join (if target \<noteq> [] \<and> hd target = slash then rs else [])"
                using Inr start_root[OF assms] "1.prems"(2) unfolding ex(3) by (auto simp: start_at_def split: if_splits)
              have run6: "norm_loop E root fol (lv + 1) (eat full) out0 (int MAX_PATH - 1 - int (length out0)) ms = Some (r, ms')"
                using run Some lv e ex(1) Inr unfolding unf by simp
              have ns: "\<forall>x \<in> set (if target \<noteq> [] \<and> hd target = slash then rs else []). name x" using assms by simp
              have pos0: "0 < int MAX_PATH - 1 - int (length out0)"
                using Inr by (auto simp: start_at_def MAX_PATH_def split: option.splits if_splits)
              have eq: "eat (eat full) = eat full" by simp
              have "ms' = ms \<and> (\<forall>s. r = Inr s \<longrightarrow> length s < MAX_PATH - 1) \<and> (r = Inl ENAMETOOLONG \<or> r = outcome (walk (links E ms) (passes E ms) rs fol (lv + 1)
                  (comps (eat full)) (trail (eat full)) (if target \<noteq> [] \<and> hd target = slash then rs else [])))"
                by (rule IH(6)[OF pn cn[symmetric] refl n1 h(1) f(1)[folded out2(1)] refl refl h(2) Some lv e refl ex(1) Inr,
                      unfolded f(3), OF "1.prems"(1,2) run6 o0 ns eq refl pos0])
              moreover have "?W (comps p) (trail p) os = walk (links E ms) (passes E ms) rs fol (lv + 1)
                  (comps full) (trail full) (if target \<noteq> [] \<and> hd target = slash then rs else [])"
              proof -
                have "(if comps (eat rr) = [] then x else trail p) = (if eat rr = [] then x else trail (eat rr))" for x
                  using er(2) tr(1) by metis
                then show ?thesis
                  unfolding cp(1) ex(4,5) walk_name(4)[OF nd look', where L = "links E ms" and out = os, OF Some[folded L] lv] by (simp only:)
              qed
              moreover have "walk (links E ms) (passes E ms) rs fol (lv + 1) (comps full) (trail full) x
                 = walk (links E ms) (passes E ms) rs fol (lv + 1) (comps (eat full)) (trail (eat full)) x" for x
                using trail_eat[of full] comps_empty[of full] by (metis walk_no_trail comps_eat)
              ultimately show ?thesis by simp
            qed
          qed
        qed
      qed
    qed
  qed
qed

end
