(* ===== verification/Path_Props.thy ===== *)
theory Path_Props
  imports Path_Spec
begin

text \<open>
  The properties of path resolution: when it succeeds it computes the walk, it fits the buffer, it stays below
  the task's root; and where its buffers and its cache let it down.
\<close>

section \<open>It always returns\<close>

lemma copy_name_fits: "int (length (first_name p)) < n \<Longrightarrow> 0 < n \<Longrightarrow> copy_name p n = (c, r, n1) \<Longrightarrow> 0 < n1"
proof (induction p arbitrary: n c r n1)
  case (Cons x p)
  show ?case
  proof (cases "x = slash")
    case False
    then have "int (length (first_name p)) < n - 1" "0 < n - 1" using Cons.prems(1) by auto
    moreover obtain c' where "copy_name p (n - 1) = (c', r, n1)"
      using Cons.prems(3) False calculation(2) by (cases "copy_name p (n - 1)") auto
    ultimately show ?thesis using Cons.IH by blast
  qed (use Cons.prems in auto)
qed simp

lemma expand_fits:
  assumes "length o1 + length t + 1 + length rest < MAX_PATH"
  shows "\<exists>restart full. expand root o1 t rest = Some (restart, full)
    \<and> length full \<le> (if t \<noteq> [] \<and> hd t = slash then 0 else length o1) + length t + (if rest = [] then 0 else 1 + length rest)
    \<and> restart = (if t \<noteq> [] \<and> hd t = slash then Some root else None)"
  using assms by (auto simp: expand_def Let_def split: list.splits)

lemma dir_check_error: "dir_check E m q = Some e \<Longrightarrow> e = ENOTDIR \<or> e = EACCES"
  by (auto simp: dir_check_def access_check_def Let_def split: sum.splits if_splits)

lemma eat_shorter: "eat r \<noteq> [] \<Longrightarrow> r \<noteq> eat r \<Longrightarrow> length (eat r) < length r"
  by (metis le_neq_implies_less length_dropWhile_le dropWhile_eq_self_iff eq_Nil_appendI length_append
      takeWhile_dropWhile_id add_cancel_right_left length_0_conv)

definition budget :: "nat \<Rightarrow> string list \<Rightarrow> nat \<Rightarrow> string \<Rightarrow> string \<Rightarrow> bool" where
  "budget K rs lv p out \<longleftrightarrow> length out + length p + 1 + (5 - lv) * (K + length (join rs) + 2) \<le> MAX_PATH - 2"

text \<open>No link has a target longer than \<open>K\<close>.\<close>

definition short_links :: "nat \<Rightarrow> penv \<Rightarrow> mount list \<Rightarrow> bool" where
  "short_links K E ms \<longleftrightarrow> (\<forall>cs t. (\<forall>c \<in> set cs. name c) \<longrightarrow> links E ms cs = Some t \<longrightarrow> length t \<le> K)"

lemma norm_loop_returns:
  assumes rs: "\<forall>c \<in> set rs. name c" and K: "short_links K E ms"
  shows "mounts_ok ms \<Longrightarrow> root = root_string rs \<Longrightarrow> out = join os \<Longrightarrow> \<forall>c \<in> set os. name c \<Longrightarrow> eat p = p \<Longrightarrow>
      n = int MAX_PATH - 1 - int (length out) \<Longrightarrow> p = [] \<or> budget K rs lv p out \<Longrightarrow> 
      \<exists>r. norm_loop E root fol lv p out n ms = Some (r, ms) \<and> r \<noteq> Inl ENAMETOOLONG"
  using K
proof (induction E root fol lv p out n ms arbitrary: os rule: norm_loop.induct)
  case (1 E root fol lv p out n ms)
  note IH = "1.IH" and out = "1.prems"(3) and nm = "1.prems"(4) and ep = "1.prems"(5) and n = "1.prems"(6)
    and bud = "1.prems"(7) and Kt = "1.prems"(8)
  have fl: "root_floor root = length (join rs)" using "1.prems"(2) rs by simp
  show ?case
  proof (cases "p = []")
    case True
    then show ?thesis using nm out by (subst norm_loop.simps) simp
  next
    case p: False
    have b: "length out + length p + 1 + (5 - lv) * (K + length (join rs) + 2) \<le> MAX_PATH - 2" "0 < length p"
      using bud p by (simp_all add: budget_def)
    have less: "length (eat (drop k p)) \<le> length p" for k
      using after_name_le(2)[of "drop k p"] by simp
    have nn: "\<not> n < 2" using b n by (simp add: MAX_PATH_def)
    consider (dot) "is_dot p" | (dotdot) "\<not> is_dot p" "is_dotdot p" | (nm) "\<not> is_dot p" "\<not> is_dotdot p" by blast
    then show ?thesis
    proof cases
      case dot
      have "\<exists>r. norm_loop E root fol lv (eat (drop 1 p)) out n ms = Some (r, ms) \<and> r \<noteq> Inl ENAMETOOLONG"
        using less[of 1] b(1) by (intro IH(1)[OF p dot "1.prems"(1,2) out nm _ n _ Kt]) (simp_all add: budget_def)
      then show ?thesis using p dot by (subst norm_loop.simps) simp
    next
      case dotdot
      show ?thesis
      proof (cases "out \<noteq> [] \<and> length out > root_floor root")
        case True
        then have os: "os \<noteq> []" using out by auto
        note pj = pop_join[OF nm os]
        have le: "length (join (butlast os)) \<le> length out"
          using out os by (metis append_butlast_last_id join_simps(3) le_add1 length_append)
        have "\<exists>r. norm_loop E root fol lv (eat (drop 2 p)) (join (butlast os)) (n + int (length out - length (join (butlast os)))) ms
            = Some (r, ms) \<and> r \<noteq> Inl ENAMETOOLONG"
        proof (rule IH(2)[OF p dotdot True _ "1.prems"(1,2) refl _ _ _ _ Kt])
          show "pop_component out = Some (join (butlast os))" using pj out by simp
          show "\<forall>c \<in> set (butlast os). name c" using nm by (auto dest: in_set_butlastD)
          show "eat (drop 2 p) = [] \<or> budget K rs lv (eat (drop 2 p)) (join (butlast os))"
            using less[of 2] le b(1) by (simp add: budget_def)
        qed (use n le in simp_all)
        then show ?thesis using p dotdot True pj out by (subst norm_loop.simps) simp
      next
        case False
        have "\<exists>r. norm_loop E root fol lv (eat (drop 2 p)) out n ms = Some (r, ms) \<and> r \<noteq> Inl ENAMETOOLONG"
          using less[of 2] b(1) by (intro IH(3)[OF p dotdot False "1.prems"(1,2) out nm _ n _ Kt]) (simp_all add: budget_def)
        then show ?thesis using p dotdot False by (subst norm_loop.simps) auto
      qed
    next
      case nd: nm
      obtain c rr n1 where cn: "copy_name p (n - 1) = (c, rr, n1)" by (metis prod_cases3)
      have pl: "length p = length (first_name p) + length (after_name p)"
        by (metis length_append takeWhile_dropWhile_id)
      have fits: "0 < n1" by (rule copy_name_fits[OF _ _ cn]) (use pl b n in \<open>simp_all add: MAX_PATH_def\<close>)
      then have n1: "\<not> n1 \<le> 0" by simp
      have c: "c = first_name p" "rr = after_name p" "n1 = n - 1 - int (length c)"
        using copy_name_spec[OF cn] nn fits by simp_all
      have cp: "name c" using comps_step[OF p ep] c by simp
      have out2: "out @ [slash] @ c = join (os @ [c])" "\<forall>x \<in> set (os @ [c]). name x" using out nm cp by simp_all
      have er: "eat (eat rr) = eat rr" by simp
      have short: "length c + length (eat rr) + (if eat rr = [] then 0 else 1) \<le> length p"
      proof (cases "eat rr = []")
        case True
        show ?thesis using pl unfolding c(1,2)[symmetric] True by simp
      next
        case False
        have "rr \<noteq> []" using False by (metis dropWhile.simps(1))
        then have "length (eat rr) < length rr" using eat_after[OF p ep] eat_shorter[OF False] unfolding c(2)[symmetric] by metis
        then show ?thesis using pl unfolding c(1,2)[symmetric] if_not_P[OF False] by linarith
      qed
      show ?thesis
      proof (cases "fol \<or> eat rr \<noteq> []")
        case False
        then have e: "\<not> fol" "eat rr = []" by blast+
        have "path_is_normalized (out @ [slash] @ c)" using out2 by (simp only: join_normalized)
        then show ?thesis
          unfolding norm_loop_skip[OF p nd nn cn n1 e] by (subst norm_loop.simps) simp
      next
        case look: True
        obtain m q ms1 where f: "find_mount_and_trim_path ms (join (os @ [c])) = Some (m, q, ms1)" "path_is_normalized q"
            "mount_release (m_addr m) ms1 = ms"
          using mounts.asked[OF "1.prems"(1) out2(2)] by metis
        have L: "links E ms (os @ [c]) = fs_readlink E m q" by (simp only: links_def mounts.ask_eq[OF f(1)])
        have h: "\<not> \<not> (fol \<or> eat rr \<noteq> [])" "\<not> \<not> path_is_normalized q" using look f(2) by blast+
        note unf = norm_loop_name[OF p nd nn cn n1 look f(1)[folded out2(1)] f(2,3), of E root lv]
        show ?thesis
        proof (cases "fs_readlink E m q")
          case None
          show ?thesis
          proof (cases "if eat rr \<noteq> rr then dir_check E m q else None")
            case (Some e)
            then show ?thesis using None dir_check_error[of E m q e] unfolding unf by (auto split: if_splits)
          next
            case ok: None
            have "\<exists>r. norm_loop E root fol lv (eat rr) (out @ [slash] @ c) n1 ms = Some (r, ms) \<and> r \<noteq> Inl ENAMETOOLONG"
            proof (rule IH(5)[OF p nd nn cn[symmetric] refl n1 h(1) f(1)[folded out2(1)] refl refl h(2) None ok,
                    unfolded f(3), OF "1.prems"(1,2) out2 er _ _ Kt])
              show "n1 = int MAX_PATH - 1 - int (length (out @ [slash] @ c))" using c(3) n by simp
              show "eat rr = [] \<or> budget K rs lv (eat rr) (out @ [slash] @ c)"
              proof (cases "eat rr = []")
                case False
                then have "length c + length (eat rr) + 1 \<le> length p" using short by (metis (full_types))
                then show ?thesis using b(1) unfolding budget_def by simp
              qed blast
            qed
            then show ?thesis using None ok unfolding unf by simp
          qed
        next
          case (Some target)
          show ?thesis
          proof (cases "lv \<ge> 5")
            case True
            then show ?thesis using Some unfolding unf by simp
          next
            case lv: False
            then obtain d where d: "5 - lv = Suc d" "5 - (lv + 1) = d" by (cases "5 - lv") auto
            have Kl: "length target \<le> K" using Kt out2(2) Some L unfolding short_links_def by metis
            have b2: "length out + length p + 1 + (K + length (join rs) + 2) + d * (K + length (join rs) + 2) \<le> MAX_PATH - 2"
              using b(1) unfolding d(1) by simp
            have t: "take (MAX_PATH - (length out + 1)) target = target" using Kl b2 by (simp add: MAX_PATH_def)
            have "length (out @ [slash]) + length target + 1 + length (eat rr) < MAX_PATH"
              using Kl b2 short by (simp add: MAX_PATH_def)
            then obtain restart full where e: "expand root (out @ [slash]) (take (MAX_PATH - (length out + 1)) target) (eat rr) = Some (restart, full)"
                "length full \<le> (if target \<noteq> [] \<and> hd target = slash then 0 else length (out @ [slash])) + length target
                   + (if eat rr = [] then 0 else 1 + length (eat rr))"
                "restart = (if target \<noteq> [] \<and> hd target = slash then Some root else None)"
              using expand_fits[of "out @ [slash]" target "eat rr" root] unfolding t by auto
            have ne: "full \<noteq> []" using expand_names(1)[OF nm e(1)[unfolded out] er] .
            have st: "start_at restart = Inr (join (if target \<noteq> [] \<and> hd target = slash then rs else []))"
              using start_root[OF rs] "1.prems"(2) e(3) b2 by (auto simp: start_at_def MAX_PATH_def)
            have "\<exists>r. norm_loop E root fol (lv + 1) (eat full) (join (if target \<noteq> [] \<and> hd target = slash then rs else []))
                (int MAX_PATH - 1 - int (length (join (if target \<noteq> [] \<and> hd target = slash then rs else [])))) ms
                = Some (r, ms) \<and> r \<noteq> Inl ENAMETOOLONG"
            proof (rule IH(6)[OF p nd nn cn[symmetric] refl n1 h(1) f(1)[folded out2(1)] refl refl h(2) Some lv e(1) refl ne st,
                    unfolded f(3), OF "1.prems"(1,2) refl _ _ refl _ Kt])
              show "\<forall>x \<in> set (if target \<noteq> [] \<and> hd target = slash then rs else []). name x" using rs by simp
              show "eat (eat full) = eat full" by simp
              have c1: "1 \<le> length c" using cp by (cases c) (simp_all add: name_def)
              have fu: "length (eat full) \<le> length full" by (rule after_name_le)
              show "eat full = [] \<or> budget K rs (lv + 1) (eat full) (join (if target \<noteq> [] \<and> hd target = slash then rs else []))"
                unfolding budget_def d(2) using b2 e(2) fu Kl short c1 by (auto split: if_splits)
            qed
            then show ?thesis using Some lv e(1) ne st unfolding unf by simp
          qed
        qed
      qed
    qed
  qed
qed

section \<open>What the walk keeps\<close>

definition clean :: "string \<Rightarrow> bool" where
  "clean c \<longleftrightarrow> name c \<and> c \<noteq> ''.'' \<and> c \<noteq> ''..''"

lemma walk_clean:
  "\<forall>c \<in> set rs. clean c \<Longrightarrow> \<forall>c \<in> set os. clean c \<Longrightarrow> \<forall>c \<in> set cs. name c \<Longrightarrow>
     walk L D rs fol lv cs tr os = Inr res \<Longrightarrow> \<forall>c \<in> set res. clean c"
proof (induction L D rs fol lv cs tr os rule: walk.induct)
  case (2 L D rs fol lv c cs tr os)
  note IH = "2.IH" and pr = "2.prems"
  have cs: "name c" "\<forall>c \<in> set cs. name c" using pr(3) by simp_all
  consider (dot) "c = ''.''" | (dd) "c = ''..''" | (nm) "c \<noteq> ''.''" "c \<noteq> ''..''" by blast
  then show ?case
  proof cases
    case dot
    then show ?thesis using IH(1)[OF dot pr(1,2) cs(2)] pr(4) by (simp add: walk_dots)
  next
    case dd
    have "\<forall>c \<in> set (if length (join os) > length (join rs) then butlast os else os). clean c"
      using pr(2) by (auto dest: in_set_butlastD)
    then show ?thesis using IH(2)[OF _ dd pr(1) _ cs(2)] pr(4) dd by (simp add: walk_dots)
  next
    case nm
    have cl: "\<forall>x \<in> set (os @ [c]). clean x" using pr(2) cs(1) nm by (simp add: clean_def)
    show ?thesis
    proof (cases "\<not> fol \<and> cs = []")
      case True
      then show ?thesis using pr(4) nm cl by (auto simp: walk.simps(2))
    next
      case f: False
      then have f': "fol \<or> cs \<noteq> []" by blast
      show ?thesis
      proof (cases "L (os @ [c])")
        case None
        show ?thesis
        proof (cases "if cs \<noteq> [] \<or> tr then D (os @ [c]) else None")
          case (Some e)
          then show ?thesis using walk_name(1)[OF nm f', where L = L and out = os and D = D and tr = tr, OF None Some] pr(4) by simp
        next
          case ok: None
          then show ?thesis using IH(3)[OF nm f None ok pr(1) cl cs(2)] walk_name(2)[OF nm f', where L = L and out = os and D = D and tr = tr, OF None ok] pr(4) by simp
        qed
      next
        case (Some t)
        have lv: "\<not> 5 \<le> lv" using walk_name(3)[OF nm f', where L = L and out = os, OF Some] pr(4) by auto
        have nt: "\<forall>x \<in> set (comps t @ cs). name x" "\<forall>x \<in> set (os @ comps t @ cs). name x"
          using cs(2) pr(2) by (auto simp: comps_names clean_def)
        note w = walk_name(4)[OF nm f', where L = L and out = os and D = D and root = rs and tr = tr, OF Some lv]
        show ?thesis
        proof (cases "t \<noteq> [] \<and> hd t = slash")
          case True
          then show ?thesis using IH(4)[OF nm f Some lv True pr(1,1) nt(1)] w pr(4) by simp
        next
          case False
          then show ?thesis using IH(5)[OF nm f Some lv False pr(1) _ nt(2)] w pr(4) by auto
        qed
      qed
    qed
  qed
qed simp

text \<open>Below the root, or on the way to it through the names of its own path.\<close>

definition confined :: "string list \<Rightarrow> string list \<Rightarrow> string list \<Rightarrow> bool" where
  "confined rs os cs \<longleftrightarrow> (\<exists>xs. os = rs @ xs) \<or> (\<exists>z zs ws. rs = os @ z # zs \<and> cs = z # zs @ ws)"

lemma walk_confined:
  "\<forall>c \<in> set rs. clean c \<Longrightarrow> \<forall>k. 0 < k \<and> k \<le> length rs \<longrightarrow> L (take k rs) = None \<Longrightarrow> confined rs os cs \<Longrightarrow>
     walk L D rs fol lv cs tr os = Inr res \<Longrightarrow> \<exists>xs. res = rs @ xs"
proof (induction L D rs fol lv cs tr os rule: walk.induct)
  case (1 L D rs fol lv tr os)
  then show ?case by (auto simp: confined_def)
next
  case (2 L D rs fol lv c cs tr os)
  note IH = "2.IH" and pr = "2.prems"
  have way: "clean c \<and> L (os @ [c]) = None \<and> confined rs (os @ [c]) cs" if no: "\<not> (\<exists>xs. os = rs @ xs)"
  proof -
    obtain zs ws where z: "rs = os @ c # zs" "cs = zs @ ws" using pr(3) no by (auto simp: confined_def)
    have "take (length os + 1) rs = os @ [c]" using z(1) by simp
    then have "L (os @ [c]) = None" using pr(2)[rule_format, of "length os + 1"] z(1) by simp
    moreover have "confined rs (os @ [c]) cs" using z by (cases zs) (auto simp: confined_def)
    ultimately show ?thesis using pr(1) z(1) by simp
  qed
  consider (dot) "c = ''.''" | (dd) "c = ''..''" | (nm) "c \<noteq> ''.''" "c \<noteq> ''..''" by blast
  then show ?case
  proof cases
    case dot
    then have "\<exists>xs. os = rs @ xs" using way by (auto simp: clean_def)
    then have "confined rs os cs" by (simp add: confined_def)
    then show ?thesis using IH(1)[OF dot pr(1,2)] pr(4) dot by (simp add: walk_dots)
  next
    case dd
    then obtain xs where xs: "os = rs @ xs" using way by (auto simp: clean_def)
    have "confined rs (if length (join os) > length (join rs) then butlast os else os) cs"
      using xs by (cases xs rule: rev_cases) (auto simp: confined_def butlast_append)
    then show ?thesis using IH(2)[OF _ dd pr(1,2)] pr(4) dd by (simp add: walk_dots)
  next
    case nm
    have cf: "confined rs (os @ [c]) cs"
    proof (cases "\<exists>xs. os = rs @ xs")
      case True
      then show ?thesis by (auto simp: confined_def)
    qed (use way in blast)
    show ?thesis
    proof (cases "\<not> fol \<and> cs = []")
      case True
      then show ?thesis using pr(4) nm cf by (auto simp: walk.simps(2) confined_def)
    next
      case f: False
      then have f': "fol \<or> cs \<noteq> []" by blast
      show ?thesis
      proof (cases "L (os @ [c])")
        case None
        show ?thesis
        proof (cases "if cs \<noteq> [] \<or> tr then D (os @ [c]) else None")
          case (Some e)
          then show ?thesis using walk_name(1)[OF nm f', where L = L and out = os and D = D and tr = tr, OF None Some] pr(4) by simp
        next
          case ok: None
          then show ?thesis using IH(3)[OF nm f None ok pr(1,2) cf] walk_name(2)[OF nm f', where L = L and out = os and D = D and tr = tr, OF None ok] pr(4) by simp
        qed
      next
        case (Some t)
        have lv: "\<not> 5 \<le> lv" using walk_name(3)[OF nm f', where L = L and out = os, OF Some] pr(4) by auto
        obtain xs where xs: "os = rs @ xs" using way Some by auto
        note w = walk_name(4)[OF nm f', where L = L and out = os and D = D and root = rs and tr = tr, OF Some lv]
        show ?thesis
        proof (cases "t \<noteq> [] \<and> hd t = slash")
          case True
          have "confined rs rs (comps t @ cs)" by (simp add: confined_def)
          then show ?thesis using IH(4)[OF nm f Some lv True pr(1,2)] w pr(4) True by simp
        next
          case False
          have "confined rs [] (os @ comps t @ cs)" using xs by (cases rs) (auto simp: confined_def)
          then show ?thesis using IH(5)[OF nm f Some lv False pr(1,2)] w pr(4) False by auto
        qed
      qed
    qed
  qed
qed

section \<open>Path resolution\<close>

lemma norm_path_walk:
  assumes "mounts_ok ms" "\<forall>c \<in> set rs. name c" "\<forall>c \<in> set os. name c" "path \<noteq> []"
    "norm_path E (Some (root_string os)) (root_string rs) path flags 0 ms = Some (r, ms')"
  shows "ms' = ms \<and> (\<forall>s. r = Inr s \<longrightarrow> length s < MAX_PATH - 1) \<and> (r = Inl ENAMETOOLONG
     \<or> r = outcome (walk (links E ms) (passes E ms) rs (flags AND N_SYMLINK_FOLLOW \<noteq> 0) 0 (comps path) (trail path) os))"
proof (cases "length (join os) + 2 > MAX_PATH - 1")
  case True
  then show ?thesis using assms(4,5) start_root[OF assms(3)] by (auto simp: norm_path_def split: if_splits)
next
  case False
  let ?fol = "flags AND N_SYMLINK_FOLLOW \<noteq> 0"
  have run: "norm_loop E (root_string rs) ?fol 0 (eat path) (join os) (int MAX_PATH - 1 - int (length (join os))) ms = Some (r, ms')"
    using assms(4,5) start_root[OF assms(3)] False by (auto simp: norm_path_def split: if_splits)
  have pos: "0 < int MAX_PATH - 1 - int (length (join os))" using False by (simp add: MAX_PATH_def)
  have ee: "eat (eat path) = eat path" by simp
  have w: "walk (links E ms) (passes E ms) rs ?fol 0 (comps (eat path)) (trail (eat path)) os
      = walk (links E ms) (passes E ms) rs ?fol 0 (comps path) (trail path) os"
    using trail_eat[of path] comps_empty[of path] by (metis walk_no_trail comps_eat)
  show ?thesis using norm_loop_walk[OF assms(2,1) refl run refl assms(3) ee refl pos] unfolding w .
qed

text \<open>Claim C4. Path resolution is total and exact: when the base, the path and five links fit the buffer together, it
  returns, leaves every mount reference count as it was, and its result is that of the walk over names:
  dots, symbolic links, the five-link limit and the checks of what is passed included.\<close>

theorem path_resolution_exact:
  assumes "mounts_reach ms" "\<forall>c \<in> set rs. name c" "\<forall>c \<in> set os. name c" "path \<noteq> []"
    "(flags AND N_SYMLINK_FOLLOW \<noteq> 0) \<noteq> (flags AND N_SYMLINK_NOFOLLOW \<noteq> 0)"
    "short_links K E ms"
    "length (join os) + length path + 1 + 5 * (K + length (join rs) + 2) \<le> MAX_PATH - 2"
  shows "norm_path E (Some (root_string os)) (root_string rs) path flags 0 ms
    = Some (outcome (walk (links E ms) (passes E ms) rs (flags AND N_SYMLINK_FOLLOW \<noteq> 0) 0 (comps path) (trail path) os), ms)"
proof -
  have ok: "mounts_ok ms" by (rule reach_ok[OF assms(1)])
  have st: "start_at (Some (root_string os)) = Inr (join os)" using start_root[OF assms(3)] assms(7) by (auto simp: MAX_PATH_def)
  have "budget K rs 0 (eat path) (join os)" using assms(7) after_name_le(2)[of path] by (simp add: budget_def)
  then have b: "eat path = [] \<or> budget K rs 0 (eat path) (join os)" by blast
  have ee: "eat (eat path) = eat path" by simp
  obtain r where r: "norm_loop E (root_string rs) (flags AND N_SYMLINK_FOLLOW \<noteq> 0) 0 (eat path) (join os)
      (int MAX_PATH - 1 - int (length (join os))) ms = Some (r, ms)" "r \<noteq> Inl ENAMETOOLONG"
    using norm_loop_returns[OF assms(2) assms(6) ok refl refl assms(3) ee refl b] by blast
  have run: "norm_path E (Some (root_string os)) (root_string rs) path flags 0 ms = Some (r, ms)"
    using assms(4,5) st r(1) by (auto simp: norm_path_def)
  show ?thesis using norm_path_walk[OF ok assms(2-4) run] run r(2) by simp
qed

text \<open>A system with one link, \<^verbatim>\<open>/dev/fd\<close> to \<^verbatim>\<open>/proc/self\<close>; everything else exists as a directory anybody can pass.\<close>

definition link_fs :: "(string \<times> string) list \<Rightarrow> fs_view" where
  "link_fs ls = \<lparr>fv_readlink = Some (\<lambda>m q. map_of ls (m_point m @ q)),
     fv_stat = (\<lambda>m q. Inr \<lparr>st_mode = 0x41ff, st_uid = 0, st_gid = 0\<rparr>)\<rparr>"

definition link_env :: "(string \<times> string) list \<Rightarrow> penv" where
  "link_env ls = \<lparr>pe_fs = (\<lambda>_. link_fs ls), pe_cred = \<lparr>c_euid = 0, c_egid = 0\<rparr>\<rparr>"

lemma links_env:
  assumes "mounts_ok ms" "\<forall>c \<in> set cs. name c"
  shows "links (link_env ls) ms cs = map_of ls (join cs)" "passes (link_env ls) ms cs = None"
proof -
  obtain m ps qs where m: "find (\<lambda>m. owns (m_point m) (join cs)) ms = Some m" "m_point m = join ps" "cs = ps @ qs"
    using mounts_ok_owner[OF assms] by auto
  have n: "path_is_normalized (join cs)" using assms(2) by simp
  have d: "drop (length (m_point m)) (join cs) = join qs" using m(2,3) by simp
  have f: "\<exists>ms'. find_mount_and_trim_path ms (join cs) = Some (m, join qs, ms')"
    using m(1) n d unfolding find_mount_and_trim_path_def mount_find_def by simp
  then show "links (link_env ls) ms cs = map_of ls (join cs)"
    using m(2,3) by (auto simp: links_def fs_readlink_def link_env_def link_fs_def mounts.ask_def)
  show "passes (link_env ls) ms cs = None"
    using f by (auto simp: mounts.ask_def passes_def dir_check_def fs_stat_def link_env_def link_fs_def access_check_def superuser_def S_ISDIR_def)
qed

definition one_mount :: "mount list" where
  "one_mount = snd (do_mount (Some 0) 0 0 ''root'' [] [] 0 [])"

lemma one_reach: "mounts_reach one_mount"
  by (rule mounts_reach.boot[of 0 0 "''root''" "[]" 0]) (simp add: do_mount_def one_mount_def)

theorem path_resolution_exact_witness:
  "norm_path (link_env [(''/dev/fd'', ''/proc/self'')]) (Some (root_string [''home''])) (root_string []) ''./../dev//fd/'' N_SYMLINK_FOLLOW 0 one_mount
    = Some (Inr ''/proc/self'', one_mount)"
proof -
  let ?ls = "[(''/dev/fd'', ''/proc/self'')]" and ?E = "link_env [(''/dev/fd'', ''/proc/self'')]"
  have ok: "mounts_ok one_mount" by (rule reach_ok[OF one_reach])
  have bound: "short_links 10 ?E one_mount"
    unfolding short_links_def
  proof (intro allI impI)
    fix cs t assume "\<forall>c \<in> set cs. name c" "links ?E one_mount cs = Some t"
    then have "map_of ?ls (join cs) = Some t" using links_env(1)[OF ok] by simp
    then show "length t \<le> 10" by (simp split: if_splits) fastforce
  qed
  have n: "\<forall>c \<in> set [''home'']. name c" "\<forall>c \<in> set ([] :: string list). name c" by (simp_all add: name_def)
  have fl: "(N_SYMLINK_FOLLOW AND N_SYMLINK_FOLLOW \<noteq> 0) \<noteq> (N_SYMLINK_FOLLOW AND N_SYMLINK_NOFOLLOW \<noteq> 0)"
    by (simp add: N_SYMLINK_FOLLOW_def N_SYMLINK_NOFOLLOW_def)
  have fits: "length (join [''home'']) + length ''./../dev//fd/'' + 1 + 5 * (10 + length (join []) + 2) \<le> MAX_PATH - 2"
    by (simp add: MAX_PATH_def)
  have cm: "comps ''./../dev//fd/'' = [''.'', ''..'', ''dev'', ''fd'']" "comps ''proc/self'' = [''proc'', ''self'']"
    by (simp_all add: comps.simps)
  have nm: "name ''dev''" "name ''fd''" "name ''proc''" "name ''self''" by (simp_all add: name_def)
  have w: "walk (links ?E one_mount) (passes ?E one_mount) [] True 0 [''.'', ''..'', ''dev'', ''fd''] True [''home''] = Inr [''proc'', ''self'']"
    using nm by (simp add: walk.simps(2) links_env[OF ok] cm trail_def)
  show ?thesis
    using path_resolution_exact[OF one_reach n(2,1) _ fl bound fits] w
    by (simp add: cm trail_def N_SYMLINK_FOLLOW_def)
qed

section \<open>The task's root\<close>

definition below :: "string list \<Rightarrow> string \<Rightarrow> bool" where
  "below rs s \<longleftrightarrow> (\<exists>xs. s = join (rs @ xs) \<and> (\<forall>c \<in> set xs. clean c) \<and> length s < MAX_PATH - 1)"

text \<open>What the cache may hold: paths below the root they were resolved under.\<close>

definition cache_below :: "string list \<Rightarrow> path_cache_entry list \<Rightarrow> bool" where
  "cache_below rs C \<longleftrightarrow> length C = PATH_CACHE_SIZE
     \<and> (\<forall>e \<in> set C. pc_valid e \<and> root_path e = root_string rs \<longrightarrow> below rs (normalized e))"

lemma cache_index_less: "cache_index full < PATH_CACHE_SIZE"
  by (simp add: cache_index_def PATH_CACHE_SIZE_def)

lemma cache_below_get:
  assumes "cache_below rs C" "path_cache_get t full (root_string rs) flags C = (hit, C')"
  shows "cache_below rs C'" "hit = Some s \<Longrightarrow> below rs s"
proof -
  have i: "cache_index full < length C" using assms(1) cache_index_less by (simp add: cache_below_def)
  show "cache_below rs C'"
    using assms i by (auto simp: cache_below_def path_cache_get_def Let_def dest!: set_update_subset_insert[THEN subsetD] split: if_splits)
  show "below rs s" if "hit = Some s"
    using assms i that nth_mem[OF i] by (auto simp: cache_below_def path_cache_get_def Let_def split: if_splits)
qed

lemma cache_below_set:
  assumes "cache_below rs C" "below rs s"
  shows "cache_below rs (path_cache_set t full (root_string rs) flags s C)"
proof -
  have "take (MAX_PATH - 1) s = s" using assms(2) by (auto simp: below_def)
  then show ?thesis
    using assms by (auto simp: cache_below_def path_cache_set_def dest!: set_update_subset_insert[THEN subsetD])
qed

lemma root_string_normalized: "\<forall>c \<in> set rs. name c \<Longrightarrow> path_is_normalized (root_string rs)"
  by (cases "rs = []") (simp_all add: root_string_def del: path_is_normalized.simps(2), simp)

text \<open>Claim C10. A path that starts below the root stays below it: with a root whose own path has no links and a cache of
  paths below it, and when the directory the path starts from (the root for an absolute path, else the working directory or
  the descriptor of the call) is below the root, then whatever the path, the links and the mounts, a path that resolves is below
  the root, normal, without dots, and fits its buffer; and the cache stays so. \<^verbatim>\<open>sys_chroot\<close> does not move the working
  directory, so a task that calls it is in that position only when it also changes to a directory below the new root, and
  keeps no descriptor of one outside. A resolution that writes past its buffer, as a long link can make it do, is not one that resolves.\<close>

theorem chroot_confines:
  assumes "mounts_reach ms" "\<forall>c \<in> set rs. clean c" "\<forall>c \<in> set ds. clean c"
    "\<forall>k. 0 < k \<and> k \<le> length rs \<longrightarrow> links E ms (take k rs) = None"
    "fi_root fi = Some (Inr (root_string rs))" "base_of fi at path = Some (Inr (root_string (rs @ ds)))" "cache_below rs C"
    "path_normalize E t t' fi at path flags C ms = Some (r, C', ms')"
  shows "ms' = ms \<and> cache_below rs C' \<and> (\<forall>s. r = Inr s \<longrightarrow> below rs s)"
proof (cases "path = []")
  case True
  then show ?thesis using assms(7,8) by (auto simp: path_normalize_def)
next
  case False
  define os where "os = rs @ ds"
  have names: "\<forall>c \<in> set rs. name c" "\<forall>c \<in> set os. name c" "\<forall>c \<in> set os. clean c"
    using assms(2,3) by (auto simp: os_def clean_def)
  have base: "base_of fi at path = Some (Inr (root_string os))" using assms(6) by (simp add: os_def)
  obtain hit C1 where g: "path_cache_get t (full_input (Some (root_string os)) path) (root_string rs) flags C = (hit, C1)" by force
  note cg = cache_below_get[OF assms(7) g]
  show ?thesis
  proof (cases hit)
    case (Some s)
    then have "r = Inr s \<and> C' = C1 \<and> ms' = ms"
      using assms(5,8) False base g root_string_normalized[OF names(1)] root_string_normalized[OF names(2)] by (simp add: path_normalize_def)
    then show ?thesis using cg Some by simp
  next
    case None
    obtain r1 ms1 where n: "norm_path E (Some (root_string os)) (root_string rs) path flags 0 ms = Some (r1, ms1)"
        "r = r1" "ms' = ms1" "C' = (case r1 of Inl _ \<Rightarrow> C1 | Inr s \<Rightarrow> path_cache_set t' (full_input (Some (root_string os)) path) (root_string rs) flags s C1)"
      using assms(5,8) False base g None root_string_normalized[OF names(1)] root_string_normalized[OF names(2)]
      by (auto simp: path_normalize_def Let_def split: option.splits sum.splits prod.splits)
    note w = norm_path_walk[OF reach_ok[OF assms(1)] names(1,2) False n(1)]
    have "below rs s" if s: "r1 = Inr s" for s
    proof -
      obtain res where res: "walk (links E ms) (passes E ms) rs (flags AND N_SYMLINK_FOLLOW \<noteq> 0) 0 (comps path) (trail path) os = Inr res"
          "s = join res" using w s outcome_Inr by auto
      have "confined rs os (comps path)" by (auto simp: confined_def os_def)
      then obtain xs where "res = rs @ xs" using walk_confined[OF assms(2,4) _ res(1)] by blast
      moreover have "\<forall>c \<in> set res. clean c" using walk_clean[OF assms(2) names(3) _ res(1)] comps_names by blast
      ultimately show ?thesis using res(2) w s by (auto simp: below_def)
    qed
    then show ?thesis using w n(2-4) cg(1) cache_below_set by (auto split: sum.splits)
  qed
qed

theorem chroot_confines_witness:
  "\<exists>r C'. path_normalize (link_env [(''/jail/esc'', ''../..'')]) 0 0
      \<lparr>fi_root = Some (Inr ''/jail''), fi_pwd = Some (Inr ''/jail/home'')\<rparr> AtPwd ''../esc/etc'' N_SYMLINK_FOLLOW path_cache_init one_mount
    = Some (Inr ''/jail/etc'', C', one_mount) \<and> below [''jail''] ''/jail/etc''"
proof -
  let ?E = "link_env [(''/jail/esc'', ''../..'')]"
  let ?fi = "\<lparr>fi_root = Some (Inr (root_string [''jail''])), fi_pwd = Some (Inr (root_string ([''jail''] @ [''home''])))\<rparr>"
  have ok: "mounts_ok one_mount" by (rule reach_ok[OF one_reach])
  have cl: "\<forall>c \<in> set [''jail'']. clean c" "\<forall>c \<in> set [''home'']. clean c" by (simp_all add: clean_def name_def)
  have nl: "\<forall>k. 0 < k \<and> k \<le> length [''jail''] \<longrightarrow> links ?E one_mount (take k [''jail'']) = None"
  proof (intro allI impI)
    fix k :: nat assume "0 < k \<and> k \<le> length [''jail'']"
    then have "take k [''jail''] = [''jail'']" by simp
    then show "links ?E one_mount (take k [''jail'']) = None" using links_env(1)[OF ok, of "[''jail'']"] by (simp add: name_def)
  qed
  have cb: "cache_below [''jail''] path_cache_init" by (simp add: cache_below_def path_cache_init_def)
  have bound: "short_links 5 ?E one_mount"
    unfolding short_links_def
  proof (intro allI impI)
    fix cs t assume "\<forall>c \<in> set cs. name c" "links ?E one_mount cs = Some t"
    then have "map_of [(''/jail/esc'', ''../..'')] (join cs) = Some t" using links_env(1)[OF ok] by simp
    then show "length t \<le> 5" by (simp split: if_splits) fastforce
  qed
  have n: "\<forall>c \<in> set [''jail'']. name c" "\<forall>c \<in> set [''jail'', ''home'']. name c" by (simp_all add: name_def)
  have fl: "(N_SYMLINK_FOLLOW AND N_SYMLINK_FOLLOW \<noteq> 0) \<noteq> (N_SYMLINK_FOLLOW AND N_SYMLINK_NOFOLLOW \<noteq> 0)"
    by (simp add: N_SYMLINK_FOLLOW_def N_SYMLINK_NOFOLLOW_def)
  have fits: "length (join [''jail'', ''home'']) + length ''../esc/etc'' + 1 + 5 * (5 + length (join [''jail'']) + 2) \<le> MAX_PATH - 2"
    by (simp add: MAX_PATH_def)
  have cm: "comps ''../esc/etc'' = [''..'', ''esc'', ''etc'']" "comps ''../..'' = [''..'', ''..'']" by (simp_all add: comps.simps)
  have nm: "name ''jail''" "name ''home''" "name ''esc''" "name ''etc''" by (simp_all add: name_def)
  have w: "walk (links ?E one_mount) (passes ?E one_mount) [''jail''] True 0 [''..'', ''esc'', ''etc''] False [''jail'', ''home''] = Inr [''jail'', ''etc'']"
    using nm by (simp add: walk.simps(2) links_env[OF ok] cm trail_def)
  have "norm_path ?E (Some (root_string [''jail'', ''home''])) (root_string [''jail'']) ''../esc/etc'' N_SYMLINK_FOLLOW 0 one_mount = Some (Inr ''/jail/etc'', one_mount)"
    using path_resolution_exact[OF one_reach n _ fl bound fits] w by (simp add: cm trail_def N_SYMLINK_FOLLOW_def)
  moreover have "path_cache_get 0 f (root_string [''jail'']) N_SYMLINK_FOLLOW path_cache_init = (None, path_cache_init)" for f
    using cache_index_less[of f] by (simp add: path_cache_get_def path_cache_init_def)
  ultimately have "\<exists>C'. path_normalize ?E 0 0 ?fi AtPwd ''../esc/etc'' N_SYMLINK_FOLLOW path_cache_init one_mount = Some (Inr ''/jail/etc'', C', one_mount)"
    by (simp add: path_normalize_def base_of_def root_string_def)
  then obtain C' where run: "path_normalize ?E 0 0 ?fi AtPwd ''../esc/etc'' N_SYMLINK_FOLLOW path_cache_init one_mount = Some (Inr ''/jail/etc'', C', one_mount)" by blast
  have "fi_root ?fi = Some (Inr (root_string [''jail'']))"
    "base_of ?fi AtPwd ''../esc/etc'' = Some (Inr (root_string ([''jail''] @ [''home''])))" by (simp_all add: base_of_def)
  then have "below [''jail''] ''/jail/etc''" using chroot_confines[OF one_reach cl nl _ _ cb run] by blast
  then show ?thesis using run by (auto simp: root_string_def)
qed

section \<open>Where the buffers and the cache let it down\<close>

text \<open>Claim C30. Following a link whose target is as long as what is left of the buffer writes the terminating zero
  past its end: the buffer has \<^verbatim>\<open>MAX_PATH\<close> bytes and the target is stored behind the path so far.\<close>

theorem long_link_overflows:
  assumes "mounts_reach ms" "\<forall>c \<in> set os. name c" "clean c" "links E ms (os @ [c]) = Some t"
    "length (join os) + length c + 3 < MAX_PATH" "length (join os) + 1 + length t \<ge> MAX_PATH"
  shows "norm_path E (Some (root_string os)) root c N_SYMLINK_FOLLOW 0 ms = None"
proof -
  have c: "name c" "c \<noteq> []" "eat c = c" "first_name c = c" "after_name c = []"
    using assms(3) name_parts[of c "[]"] by (auto simp: clean_def name_def)
  have nd: "\<not> is_dot c" "\<not> is_dotdot c" using assms(3) unfolding is_dot_def is_dotdot_def c(4) clean_def by blast+
  define n where "n = int MAX_PATH - 1 - int (length (join os))"
  obtain d rr n1 where cn: "copy_name c (n - 1) = (d, rr, n1)" by (metis prod_cases3)
  have n: "0 < n - 1" "int (length (first_name c)) < n - 1" using assms(5) unfolding c(4) n_def by simp_all
  have n1: "0 < n1" by (rule copy_name_fits[OF n(2,1) cn])
  have d: "d = c" "rr = []" using copy_name_spec[OF cn n(1) n1] unfolding c(4,5) by blast+
  have nm: "\<forall>x \<in> set (os @ [c]). name x" "join os @ [slash] @ c = join (os @ [c])" using assms(2) c by simp_all
  obtain m q ms1 where f: "find_mount_and_trim_path ms (join (os @ [c])) = Some (m, q, ms1)" "path_is_normalized q"
      "mount_release (m_addr m) ms1 = ms"
    using mounts.asked[OF reach_ok[OF assms(1)] nm(1)] by metis
  have L: "fs_readlink E m q = Some t" using assms(4) by (simp only: links_def mounts.ask_eq[OF f(1)])
  have tk: "length (take (MAX_PATH - (length (join os) + 1)) t) = MAX_PATH - (length (join os) + 1)" using assms(6) by simp
  have ex: "expand root (join os @ [slash]) (take (MAX_PATH - (length (join os) + 1)) t) [] = None"
    unfolding expand_def Let_def using assms(5) tk by (auto split: list.splits)
  have "\<not> n < 2" "\<not> n1 \<le> 0" "True \<or> eat rr \<noteq> []" using n n1 by simp_all
  note unf = norm_loop_name[OF c(2) nd this(1) cn this(2,3) f(1)[folded nm(2), folded d(1)] f(2,3), of E root 0]
  have "norm_loop E root True 0 c (join os) n ms = None" unfolding unf L using d ex by simp
  moreover have "start_at (Some (root_string os)) = Inr (join os)" using start_root[OF assms(2)] assms(5) by (simp add: MAX_PATH_def)
  ultimately show ?thesis using c by (simp add: norm_path_def n_def N_SYMLINK_FOLLOW_def N_SYMLINK_NOFOLLOW_def)
qed

theorem long_link_overflows_witness:
  "norm_path (link_env [(''/home/a'', replicate 4095 CHR ''x'')]) (Some ''/home'') ''/'' ''a'' N_SYMLINK_FOLLOW 0 one_mount = None"
proof -
  let ?E = "link_env [(''/home/a'', replicate 4095 CHR ''x'')]"
  have n: "\<forall>c \<in> set [''home'']. name c" "\<forall>c \<in> set ([''home''] @ [''a'']). name c" "clean ''a''" by (simp_all add: name_def clean_def)
  have l: "links ?E one_mount ([''home''] @ [''a'']) = Some (replicate 4095 CHR ''x'')"
    using links_env(1)[OF reach_ok[OF one_reach] n(2)] by simp
  have s: "length (join [''home'']) + length ''a'' + 3 < MAX_PATH" "length (join [''home'']) + 1 + length (replicate 4095 CHR ''x'') \<ge> MAX_PATH"
    by (simp_all add: MAX_PATH_def)
  show ?thesis using long_link_overflows[OF one_reach n(1,3) l s] by (simp add: root_string_def)
qed

text \<open>For a tenth of a second the cache answers from the past: whatever has become of the links, the
  permissions and the mounts, a path with the same first 4095 bytes behind the same base and root gets the
  earlier answer, also when it is a different path.\<close>

theorem cache_answers_stale:
  assumes "path_normalize E t t' fi at path flags path_cache_init ms = Some (Inr out, C, ms1)"
    "fi_root fi = Some (Inr root)" "base_of fi at path = Some (Inr a)" "base_of fi at path2 = Some (Inr a)" "path2 \<noteq> []"
    "full_input (Some a) path2 = full_input (Some a) path" "length root < MAX_PATH" "length out < MAX_PATH"
    "t' \<le> t2" "t2 - t' \<le> PATH_CACHE_TTL_NS" "t2 < size_max"
  shows "path_normalize E2 t2 t2' fi at path2 flags C ms2 = Some (Inr out, C, ms2)"
proof -
  let ?full = "full_input (Some a) path"
  have miss: "path_cache_get t ?full root flags path_cache_init = (None, path_cache_init)"
    using cache_index_less[of ?full] by (simp add: path_cache_get_def path_cache_init_def)
  have norm: "path_is_normalized a" "path_is_normalized root" "C = path_cache_set t' ?full root flags out path_cache_init"
    using assms(1-3) miss by (auto simp: path_normalize_def Let_def split: if_splits option.splits sum.splits prod.splits)
  have i: "cache_index ?full < length path_cache_init" using cache_index_less by (simp add: path_cache_init_def)
  have tr: "take (MAX_PATH - 1) ?full = ?full" "take (MAX_PATH - 1) root = root" "take (MAX_PATH - 1) out = out"
    using assms(7,8) by (simp_all add: full_input_def)
  have "path_cache_get t2 ?full root flags C = (Some out, C)"
    using i tr assms(9-11) by (simp add: norm(3) path_cache_set_def path_cache_get_def Let_def)
  then show ?thesis using assms(2,4-6) norm by (simp add: path_normalize_def)
qed

text \<open>The link \<^verbatim>\<open>/home/a\<close> is gone, but the path still resolves to its target.\<close>

theorem cache_answers_stale_witness:
  "\<exists>C. path_normalize (link_env []) 1000 1000 \<lparr>fi_root = Some (Inr ''/''), fi_pwd = None\<rparr> (AtFd (Inr ''/home'')) ''a'' N_SYMLINK_FOLLOW C one_mount
     = Some (Inr ''/b'', C, one_mount)"
proof -
  let ?ls = "[(''/home/a'', ''/b'')]" and ?fi = "\<lparr>fi_root = Some (Inr ''/''), fi_pwd = None\<rparr>"
  have ok: "mounts_ok one_mount" by (rule reach_ok[OF one_reach])
  have bound: "short_links 2 (link_env ?ls) one_mount"
    unfolding short_links_def
  proof (intro allI impI)
    fix cs t assume "\<forall>c \<in> set cs. name c" "links (link_env ?ls) one_mount cs = Some t"
    then have "map_of ?ls (join cs) = Some t" using links_env(1)[OF ok] by simp
    then show "length t \<le> 2" by (simp split: if_splits) fastforce
  qed
  have n: "\<forall>c \<in> set ([] :: string list). name c" "\<forall>c \<in> set [''home'']. name c" by (simp_all add: name_def)
  have fl: "(N_SYMLINK_FOLLOW AND N_SYMLINK_FOLLOW \<noteq> 0) \<noteq> (N_SYMLINK_FOLLOW AND N_SYMLINK_NOFOLLOW \<noteq> 0)"
    by (simp add: N_SYMLINK_FOLLOW_def N_SYMLINK_NOFOLLOW_def)
  have fits: "length (join [''home'']) + length ''a'' + 1 + 5 * (2 + length (join []) + 2) \<le> MAX_PATH - 2"
    by (simp add: MAX_PATH_def)
  have cm: "comps ''a'' = [''a'']" "comps ''b'' = [''b'']" by (simp_all add: comps.simps)
  have nm: "name ''home''" "name ''a''" "name ''b''" by (simp_all add: name_def)
  have w: "walk (links (link_env ?ls) one_mount) (passes (link_env ?ls) one_mount) [] True 0 [''a''] False [''home''] = Inr [''b'']"
    using nm by (simp add: walk.simps(2) links_env[OF ok] cm trail_def)
  have np: "norm_path (link_env ?ls) (Some ''/home'') ''/'' ''a'' N_SYMLINK_FOLLOW 0 one_mount = Some (Inr ''/b'', one_mount)"
    using path_resolution_exact[OF one_reach n _ fl bound fits] w
    by (simp add: cm trail_def N_SYMLINK_FOLLOW_def root_string_def)
  have miss: "path_cache_get 0 f ''/'' N_SYMLINK_FOLLOW path_cache_init = (None, path_cache_init)" for f
    using cache_index_less[of f] by (simp add: path_cache_get_def path_cache_init_def)
  have "\<exists>C. path_normalize (link_env ?ls) 0 0 ?fi (AtFd (Inr ''/home'')) ''a'' N_SYMLINK_FOLLOW path_cache_init one_mount = Some (Inr ''/b'', C, one_mount)"
    using np miss by (simp add: path_normalize_def base_of_def)
  then obtain C where run: "path_normalize (link_env ?ls) 0 0 ?fi (AtFd (Inr ''/home'')) ''a'' N_SYMLINK_FOLLOW path_cache_init one_mount
      = Some (Inr ''/b'', C, one_mount)" by blast
  have b: "base_of ?fi (AtFd (Inr ''/home'')) ''a'' = Some (Inr ''/home'')" by (simp add: base_of_def)
  have "path_normalize (link_env []) 1000 1000 ?fi (AtFd (Inr ''/home'')) ''a'' N_SYMLINK_FOLLOW C one_mount = Some (Inr ''/b'', C, one_mount)"
    by (rule cache_answers_stale[OF run _ b b, of "''/''"]) (simp_all add: MAX_PATH_def PATH_CACHE_TTL_NS_def)
  then show ?thesis by blast
qed

end
