(* ===== verification/Generic_Files.thy ===== *)
theory Generic_Files
  imports Path_Props "HOL-Library.Monad_Syntax"
begin

text \<open>
  The file calls by path (\<^verbatim>\<open>fs/generic.c\<close>): each resolves its path, finds the mount that owns it and calls the
  operation of its file system, which is a parameter. Nothing happens when the path does not resolve.
\<close>

section \<open>Operations of a file system\<close>

text \<open>\<open>'w\<close> is what the file systems keep; a missing operation is \<open>None\<close>.\<close>

record 'w fs_ops =
  op_link :: "(mount \<Rightarrow> string \<Rightarrow> string \<Rightarrow> 'w \<Rightarrow> int \<times> 'w) option"
  op_rename :: "(mount \<Rightarrow> string \<Rightarrow> string \<Rightarrow> 'w \<Rightarrow> int \<times> 'w) option"
  op_unlink :: "(mount \<Rightarrow> string \<Rightarrow> 'w \<Rightarrow> int \<times> 'w) option"
  op_rmdir :: "(mount \<Rightarrow> string \<Rightarrow> 'w \<Rightarrow> int \<times> 'w) option"
  op_symlink :: "(mount \<Rightarrow> string \<Rightarrow> string \<Rightarrow> 'w \<Rightarrow> int \<times> 'w) option"
  op_mknod :: "(mount \<Rightarrow> string \<Rightarrow> u32 \<Rightarrow> u32 \<Rightarrow> 'w \<Rightarrow> int \<times> 'w) option"
  op_mkdir :: "(mount \<Rightarrow> string \<Rightarrow> u32 \<Rightarrow> 'w \<Rightarrow> int \<times> 'w) option"

text \<open>What a call reads, and the state it changes.\<close>

record 'w kctx =
  k_env :: "'w \<Rightarrow> penv"
  k_ops :: "nat \<Rightarrow> 'w fs_ops"
  k_fs :: fs_info
  k_now :: nat

record 'w kstate =
  ks_cache :: "path_cache_entry list"
  ks_mounts :: "mount list"
  ks_world :: 'w

definition resolve :: "'w kctx \<Rightarrow> at_arg \<Rightarrow> string \<Rightarrow> u32 \<Rightarrow> 'w kstate \<Rightarrow> ((errno + string) \<times> 'w kstate) option" where
  "resolve K at path flags s =
     map_option (\<lambda>(r, C, ms). (r, s\<lparr>ks_cache := C, ks_mounts := ms\<rparr>))
       (path_normalize (k_env K (ks_world s)) (k_now K) (k_now K) (k_fs K) at path flags (ks_cache s) (ks_mounts s))"

text \<open>Resolve, or return the error.\<close>

definition on_path ::
  "'w kctx \<Rightarrow> at_arg \<Rightarrow> string \<Rightarrow> u32 \<Rightarrow> (string \<Rightarrow> 'w kstate \<Rightarrow> (int \<times> 'w kstate) option) \<Rightarrow> 'w kstate \<Rightarrow> (int \<times> 'w kstate) option" where
  "on_path K at path flags f s =
     (case resolve K at path flags s of
        None \<Rightarrow> None
      | Some (Inl e, s') \<Rightarrow> Some (e, s')
      | Some (Inr p, s') \<Rightarrow> f p s')"

text \<open>Find the mount, call the operation or return \<open>e\<close>, release the mount.\<close>

definition on_mount ::
  "errno \<Rightarrow> (nat \<Rightarrow> (mount \<Rightarrow> string \<Rightarrow> 'w \<Rightarrow> int \<times> 'w) option) \<Rightarrow> string \<Rightarrow> 'w kstate \<Rightarrow> (int \<times> 'w kstate) option" where
  "on_mount e get p s =
     (case find_mount_and_trim_path (ks_mounts s) p of
        None \<Rightarrow> None
      | Some (m, q, ms) \<Rightarrow>
          (case get (m_fs m) of
             None \<Rightarrow> Some (e, s\<lparr>ks_mounts := mount_release (m_addr m) ms\<rparr>)
           | Some f \<Rightarrow> (case f m q (ks_world s) of
               (r, w) \<Rightarrow> Some (r, s\<lparr>ks_world := w, ks_mounts := mount_release (m_addr m) ms\<rparr>))))"

definition on_two_mounts ::
  "(nat \<Rightarrow> (mount \<Rightarrow> string \<Rightarrow> string \<Rightarrow> 'w \<Rightarrow> int \<times> 'w) option) \<Rightarrow> string \<Rightarrow> string \<Rightarrow> 'w kstate \<Rightarrow> (int \<times> 'w kstate) option" where
  "on_two_mounts get src dst s =
     (case find_mount_and_trim_path (ks_mounts s) src of
        None \<Rightarrow> None
      | Some (m, q, ms) \<Rightarrow>
          (case find_mount_and_trim_path ms dst of
             None \<Rightarrow> None
           | Some (m2, q2, ms2) \<Rightarrow>
               let ms3 = mount_release (m_addr m2) (mount_release (m_addr m) ms2)
               in if m_addr m \<noteq> m_addr m2 then Some (EXDEV, s\<lparr>ks_mounts := ms3\<rparr>)
                  else (case get (m_fs m) of
                      None \<Rightarrow> Some (EPERM, s\<lparr>ks_mounts := ms3\<rparr>)
                    | Some f \<Rightarrow> (case f m q q2 (ks_world s) of (r, w) \<Rightarrow> Some (r, s\<lparr>ks_world := w, ks_mounts := ms3\<rparr>)))))"

section \<open>The calls\<close>

definition S_IFMT :: u32 where "S_IFMT = 0xf000"

definition S_ISLNK :: "u32 \<Rightarrow> bool" where "S_ISLNK mode \<longleftrightarrow> mode AND S_IFMT = 0xa000"
definition S_ISBLK :: "u32 \<Rightarrow> bool" where "S_ISBLK mode \<longleftrightarrow> mode AND S_IFMT = 0x6000"
definition S_ISCHR :: "u32 \<Rightarrow> bool" where "S_ISCHR mode \<longleftrightarrow> mode AND S_IFMT = 0x2000"

definition cred_of :: "'w kctx \<Rightarrow> 'w kstate \<Rightarrow> cred" where
  "cred_of K s = pe_cred (k_env K (ks_world s))"

definition generic_accessat :: "'w kctx \<Rightarrow> at_arg \<Rightarrow> string \<Rightarrow> u32 \<Rightarrow> 'w kstate \<Rightarrow> (int \<times> 'w kstate) option" where
  "generic_accessat K at path mode =
     on_path K at path N_SYMLINK_FOLLOW (\<lambda>p s.
       on_mount EPERM (\<lambda>_. Some (\<lambda>m q w.
         (case fs_stat (k_env K w) m q of Inl e \<Rightarrow> e | Inr st \<Rightarrow> access_check (pe_cred (k_env K w)) st mode, w))) p s)"

definition generic_linkat :: "'w kctx \<Rightarrow> at_arg \<Rightarrow> string \<Rightarrow> at_arg \<Rightarrow> string \<Rightarrow> 'w kstate \<Rightarrow> (int \<times> 'w kstate) option" where
  "generic_linkat K src_at src_raw dst_at dst_raw =
     on_path K src_at src_raw N_SYMLINK_NOFOLLOW (\<lambda>src.
       on_path K dst_at dst_raw (N_SYMLINK_NOFOLLOW OR N_PARENT_DIR_WRITE) (\<lambda>dst.
         on_two_mounts (\<lambda>fs. op_link (k_ops K fs)) src dst))"

definition generic_unlinkat :: "'w kctx \<Rightarrow> at_arg \<Rightarrow> string \<Rightarrow> 'w kstate \<Rightarrow> (int \<times> 'w kstate) option" where
  "generic_unlinkat K at path =
     on_path K at path (N_SYMLINK_NOFOLLOW OR N_PARENT_DIR_WRITE) (on_mount EPERM (\<lambda>fs. op_unlink (k_ops K fs)))"

definition generic_renameat :: "'w kctx \<Rightarrow> at_arg \<Rightarrow> string \<Rightarrow> at_arg \<Rightarrow> string \<Rightarrow> 'w kstate \<Rightarrow> (int \<times> 'w kstate) option" where
  "generic_renameat K src_at src_raw dst_at dst_raw =
     on_path K src_at src_raw (N_SYMLINK_NOFOLLOW OR N_PARENT_DIR_WRITE) (\<lambda>src.
       on_path K dst_at dst_raw (N_SYMLINK_NOFOLLOW OR N_PARENT_DIR_WRITE) (\<lambda>dst s.
         if contains_mount_point (ks_mounts s) src then Some (EBUSY, s)
         else on_two_mounts (\<lambda>fs. op_rename (k_ops K fs)) src dst s))"

definition generic_symlinkat :: "'w kctx \<Rightarrow> string \<Rightarrow> at_arg \<Rightarrow> string \<Rightarrow> 'w kstate \<Rightarrow> (int \<times> 'w kstate) option" where
  "generic_symlinkat K target at link =
     on_path K at link (N_SYMLINK_NOFOLLOW OR N_PARENT_DIR_WRITE)
       (on_mount EPERM (\<lambda>fs. map_option (\<lambda>f m q. f m target q) (op_symlink (k_ops K fs))))"

definition generic_mknodat :: "'w kctx \<Rightarrow> at_arg \<Rightarrow> string \<Rightarrow> u32 \<Rightarrow> u32 \<Rightarrow> 'w kstate \<Rightarrow> (int \<times> 'w kstate) option" where
  "generic_mknodat K at path mode dev s =
     (if S_ISDIR mode \<or> S_ISLNK mode then Some (EINVAL, s)
      else if \<not> superuser (cred_of K s) \<and> (S_ISBLK mode \<or> S_ISCHR mode) then Some (EPERM, s)
      else on_path K at path (N_SYMLINK_NOFOLLOW OR N_PARENT_DIR_WRITE)
             (on_mount EPERM (\<lambda>fs. map_option (\<lambda>f m q. f m q mode dev) (op_mknod (k_ops K fs)))) s)"

definition generic_mkdirat :: "'w kctx \<Rightarrow> at_arg \<Rightarrow> string \<Rightarrow> u32 \<Rightarrow> 'w kstate \<Rightarrow> (int \<times> 'w kstate) option" where
  "generic_mkdirat K at path mode =
     on_path K at path (N_SYMLINK_FOLLOW OR N_PARENT_DIR_WRITE)
       (on_mount EPERM (\<lambda>fs. map_option (\<lambda>f m q. f m q mode) (op_mkdir (k_ops K fs))))"

definition generic_rmdirat :: "'w kctx \<Rightarrow> at_arg \<Rightarrow> string \<Rightarrow> 'w kstate \<Rightarrow> (int \<times> 'w kstate) option" where
  "generic_rmdirat K at path =
     on_path K at path (N_SYMLINK_FOLLOW OR N_PARENT_DIR_WRITE) (\<lambda>p s.
       if contains_mount_point (ks_mounts s) p then Some (EBUSY, s)
       else on_mount EPERM (\<lambda>fs. op_rmdir (k_ops K fs)) p s)"

definition generic_readlinkat :: "'w kctx \<Rightarrow> at_arg \<Rightarrow> string \<Rightarrow> nat \<Rightarrow> 'w kstate \<Rightarrow> ((errno + string) \<times> 'w kstate) option" where
  "generic_readlinkat K at path bufsize s =
     (case resolve K at path N_SYMLINK_NOFOLLOW s of
        None \<Rightarrow> None
      | Some (Inl e, s') \<Rightarrow> Some (Inl e, s')
      | Some (Inr p, s') \<Rightarrow>
          (case find_mount_and_trim_path (ks_mounts s') p of
             None \<Rightarrow> None
           | Some (m, q, ms) \<Rightarrow>
               Some (case fs_readlink (k_env K (ks_world s')) m q of None \<Rightarrow> Inl EINVAL | Some t \<Rightarrow> Inr (take bufsize t),
                     s'\<lparr>ks_mounts := mount_release (m_addr m) ms\<rparr>)))"

section \<open>Seeking\<close>

definition LSEEK_SET :: int where "LSEEK_SET = 0"
definition LSEEK_CUR :: int where "LSEEK_CUR = 1"
definition LSEEK_END :: int where "LSEEK_END = 2"

text \<open>The offset before, the argument, and the size: the result and the offset after. Offsets are 64-bit.\<close>

definition generic_seek :: "int \<Rightarrow> int \<Rightarrow> int \<Rightarrow> u64 \<Rightarrow> int \<times> int" where
  "generic_seek offset off whence sz =
     (if whence = LSEEK_SET then (0, off)
      else if whence = LSEEK_CUR then
        (if offset + off \<ge> 2 ^ 63 \<or> offset + off < - (2 ^ 63) \<or> offset + off < 0 then (EINVAL, offset) else (0, offset + off))
      else if whence = LSEEK_END then
        (let new = sint (sz + word_of_int off) in if new < 0 then (EINVAL, offset) else (0, new))
      else (EINVAL, offset))"

section \<open>Permission checks that check less than they say\<close>

text \<open>Checking for reading and writing together grants both as soon as one is allowed: the check tests
  whether any of the bits is set.\<close>

theorem access_check_any_bit:
  "access_check c st (AC_R OR AC_W) = 0 \<longleftrightarrow> access_check c st AC_R = 0 \<or> access_check c st AC_W = 0"
proof -
  have d: "(x AND (a OR b) = 0) = (x AND a = 0 \<and> x AND b = 0)" for x a b :: u32
    by (simp add: bit.conj_disj_distrib or_eq_0_iff)
  show ?thesis
    by (simp add: access_check_def Let_def push_bit_or d) (simp add: AC_R_def AC_W_def)
qed

lemma parent_flag_bits:
  "(flags OR N_PARENT_DIR_WRITE) AND N_SYMLINK_FOLLOW = flags AND N_SYMLINK_FOLLOW"
  "(flags OR N_PARENT_DIR_WRITE) AND N_SYMLINK_NOFOLLOW = flags AND N_SYMLINK_NOFOLLOW"
  by (simp_all add: N_PARENT_DIR_WRITE_def N_SYMLINK_FOLLOW_def N_SYMLINK_NOFOLLOW_def bit.conj_disj_distrib2)

lemma norm_path_last:
  assumes "\<forall>c \<in> set os. name c" "clean c" "length (join os) + length c + 3 < MAX_PATH"
    "flags AND N_SYMLINK_FOLLOW = 0" "flags AND N_SYMLINK_NOFOLLOW \<noteq> 0"
  shows "norm_path E (Some (root_string os)) root c flags lv ms = Some (Inr (join (os @ [c])), ms)"
proof -
  have c: "name c" "c \<noteq> []" "eat c = c" "first_name c = c" "after_name c = []"
    using assms(2) name_parts[of c "[]"] by (auto simp: clean_def name_def)
  have nd: "\<not> is_dot c" "\<not> is_dotdot c" using assms(2) unfolding is_dot_def is_dotdot_def c(4) clean_def by blast+
  define n where "n = int MAX_PATH - 1 - int (length (join os))"
  obtain d rr n1 where cn: "copy_name c (n - 1) = (d, rr, n1)" by (metis prod_cases3)
  have n: "0 < n - 1" "int (length (first_name c)) < n - 1" using assms(3) unfolding c(4) n_def by simp_all
  have n1: "0 < n1" by (rule copy_name_fits[OF n(2,1) cn])
  have d: "d = c" "rr = []" using copy_name_spec[OF cn n(1) n1] unfolding c(4,5) by blast+
  have g: "\<not> n < 2" "\<not> n1 \<le> 0" "\<not> False" "eat rr = []" using n n1 d by simp_all
  have "path_is_normalized (join (os @ [c]))" using assms(1) c(1) by (intro join_normalized) simp
  then have "norm_loop E root False lv c (join os) n ms = Some (Inr (join (os @ [c])), ms)"
    unfolding norm_loop_skip[OF c(2) nd g(1) cn g(2-4)] using d(1) by (subst norm_loop.simps) simp
  moreover have "start_at (Some (root_string os)) = Inr (join os)"
    using start_root[OF assms(1)] assms(3) by (simp add: MAX_PATH_def)
  ultimately show ?thesis using c(2,3) assms(4,5) by (simp add: norm_path_def n_def)
qed

text \<open>Removing a file needs no permission on its directory: whoever the caller is and whatever the modes of the
  directories are, the file system's \<^verbatim>\<open>unlink\<close> is called for a name in the working directory and its
  result returned.\<close>

theorem unlink_needs_no_permission:
  assumes "mounts_reach (ks_mounts s)" "ks_cache s = path_cache_init" "\<forall>c \<in> set os. name c" "clean c"
    "length (join os) + length c + 3 < MAX_PATH" "k_fs K = \<lparr>fi_root = Some (Inr ''/''), fi_pwd = Some (Inr (root_string os))\<rparr>"
    "\<And>fs. op_unlink (k_ops K fs) = Some (un fs)"
  shows "\<exists>m q C. m \<in> set (ks_mounts s) \<and> m_point m @ q = join (os @ [c])
     \<and> generic_unlinkat K AtPwd c s
         = Some (fst (un (m_fs m) m q (ks_world s)), s\<lparr>ks_cache := C, ks_world := snd (un (m_fs m) m q (ks_world s))\<rparr>)"
proof -
  let ?fl = "N_SYMLINK_NOFOLLOW OR N_PARENT_DIR_WRITE" and ?fi = "k_fs K"
  have ok: "mounts_ok (ks_mounts s)" by (rule reach_ok[OF assms(1)])
  have fl: "?fl AND N_SYMLINK_FOLLOW = 0" "?fl AND N_SYMLINK_NOFOLLOW \<noteq> 0"
    unfolding parent_flag_bits by (simp_all add: N_SYMLINK_FOLLOW_def N_SYMLINK_NOFOLLOW_def)
  have c: "name c" "c \<noteq> []" "hd c \<noteq> slash" using assms(4) by (cases c; auto simp: clean_def name_def)+
  have base: "base_of ?fi AtPwd c = Some (Inr (root_string os))" using c(2,3) assms(6) by (cases c) (auto simp: base_of_def)
  have miss: "path_cache_get (k_now K) f ''/'' ?fl path_cache_init = (None, path_cache_init)" for f
    using cache_index_less[of f] by (simp add: path_cache_get_def path_cache_init_def)
  obtain C where pn: "path_normalize (k_env K (ks_world s)) (k_now K) (k_now K) ?fi AtPwd c ?fl path_cache_init (ks_mounts s)
      = Some (Inr (join (os @ [c])), C, ks_mounts s)"
    using c(2) base miss norm_path_last[OF assms(3-5) fl] root_string_normalized[OF assms(3)] assms(6)
    by (simp add: path_normalize_def)
  have names: "\<forall>x \<in> set (os @ [c]). name x" using assms(3) c(1) by simp
  obtain m q ms1 where f: "find_mount_and_trim_path (ks_mounts s) (join (os @ [c])) = Some (m, q, ms1)"
      "mount_release (m_addr m) ms1 = ks_mounts s" "m \<in> set (ks_mounts s)" "m_point m @ q = join (os @ [c])"
  proof -
    obtain m ps qs where m: "find (\<lambda>m. owns (m_point m) (join (os @ [c]))) (ks_mounts s) = Some m" "m \<in> set (ks_mounts s)"
        "m_point m = join ps" "os @ [c] = ps @ qs" using mounts_ok_owner[OF ok names] by (elim exE conjE) (rule that)
    obtain q ms1 where f: "find_mount_and_trim_path (ks_mounts s) (join (os @ [c])) = Some (m, q, ms1)" "q = drop (length (m_point m)) (join (os @ [c]))"
      using m(1) join_normalized[OF names] unfolding find_mount_and_trim_path_def mount_find_def by simp
    then show thesis using that[OF f(1) find_release[OF ok f(1)] m(2)] m(3,4) by simp
  qed
  have "generic_unlinkat K AtPwd c s
      = Some (fst (un (m_fs m) m q (ks_world s)), s\<lparr>ks_cache := C, ks_world := snd (un (m_fs m) m q (ks_world s))\<rparr>)"
    using pn f(1,2) assms(2,7)
    by (simp add: generic_unlinkat_def on_path_def resolve_def on_mount_def split: prod.split)
  then show ?thesis using f(3,4) by blast
qed

text \<open>User 1000 removes a file from a directory that only the superuser may write.\<close>

definition readonly_kctx :: "nat kctx" where
  "readonly_kctx = \<lparr>k_env = (\<lambda>_. \<lparr>pe_fs = (\<lambda>_. \<lparr>fv_readlink = None, fv_stat = (\<lambda>_ _. Inr \<lparr>st_mode = 0x416d, st_uid = 0, st_gid = 0\<rparr>)\<rparr>),
       pe_cred = \<lparr>c_euid = 1000, c_egid = 1000\<rparr>\<rparr>),
     k_ops = (\<lambda>_. \<lparr>op_link = None, op_rename = None, op_unlink = Some (\<lambda>_ _ n. (0, n - 1)), op_rmdir = None, op_symlink = None,
       op_mknod = None, op_mkdir = None\<rparr>),
     k_fs = \<lparr>fi_root = Some (Inr ''/''), fi_pwd = Some (Inr ''/srv'')\<rparr>, k_now = 0\<rparr>"

theorem unlink_needs_no_permission_witness:
  "\<exists>C. generic_unlinkat readonly_kctx AtPwd ''file'' \<lparr>ks_cache = path_cache_init, ks_mounts = one_mount, ks_world = 5\<rparr>
     = Some (0, \<lparr>ks_cache = C, ks_mounts = one_mount, ks_world = 4\<rparr>)"
proof -
  let ?s = "\<lparr>ks_cache = path_cache_init, ks_mounts = one_mount, ks_world = 5 :: nat\<rparr>"
  have r: "mounts_reach (ks_mounts ?s)" using one_reach by simp
  have n: "\<forall>c \<in> set [''srv'']. name c" "clean ''file''" by (simp_all add: name_def clean_def)
  have "\<exists>m q C. m \<in> set (ks_mounts ?s) \<and> m_point m @ q = join ([''srv''] @ [''file''])
      \<and> generic_unlinkat readonly_kctx AtPwd ''file'' ?s = Some (fst ((\<lambda>_ _ _ n. (0, n - 1)) (m_fs m) m q (ks_world ?s)),
          ?s\<lparr>ks_cache := C, ks_world := snd ((\<lambda>_ _ _ n. (0 :: int, n - 1)) (m_fs m) m q (ks_world ?s))\<rparr>)"
    by (rule unlink_needs_no_permission[OF r _ n]) (simp_all add: MAX_PATH_def readonly_kctx_def root_string_def)
  then show ?thesis by auto
qed

end
