(* ===== verification/Signal_State.thy ===== *)
theory Signal_State
  imports Kernel_Errno "HOL-Library.Monad_Syntax"
begin

text \<open>
  Signals as a thread keeps them (\<^verbatim>\<open>kernel/signal.h\<close>, \<^verbatim>\<open>kernel/signal.c\<close>): sets as 64-bit masks, actions,
  the pending set with its queue, sending, masks, and waiting for a signal (\<^verbatim>\<open>util/sync.c\<close>). \<open>None\<close> is a failed
  assertion or an index outside the table of actions. An operation that runs under \<^verbatim>\<open>sighand->lock\<close> is one step.
\<close>

unbundle bit_operations_syntax

section \<open>Sets of signals\<close>

type_synonym sigset = u64

abbreviation (input) SIGILL :: int where "SIGILL \<equiv> 4"
abbreviation (input) SIGTRAP :: int where "SIGTRAP \<equiv> 5"
abbreviation (input) SIGABRT :: int where "SIGABRT \<equiv> 6"
abbreviation (input) SIGBUS :: int where "SIGBUS \<equiv> 7"
abbreviation (input) SIGKILL :: int where "SIGKILL \<equiv> 9"
abbreviation (input) SIGSEGV :: int where "SIGSEGV \<equiv> 11"
abbreviation (input) SIGCHLD :: int where "SIGCHLD \<equiv> 17"
abbreviation (input) SIGCONT :: int where "SIGCONT \<equiv> 18"
abbreviation (input) SIGSTOP :: int where "SIGSTOP \<equiv> 19"
abbreviation (input) SIGTSTP :: int where "SIGTSTP \<equiv> 20"
abbreviation (input) SIGTTIN :: int where "SIGTTIN \<equiv> 21"
abbreviation (input) SIGTTOU :: int where "SIGTTOU \<equiv> 22"
abbreviation (input) SIGURG :: int where "SIGURG \<equiv> 23"
abbreviation (input) SIGWINCH :: int where "SIGWINCH \<equiv> 28"
abbreviation (input) SIGIO :: int where "SIGIO \<equiv> 29"
abbreviation (input) SIGRTMIN :: int where "SIGRTMIN \<equiv> 32"
abbreviation (input) MAX_SIG :: int where "MAX_SIG \<equiv> 64"

definition sig_mask :: "int \<Rightarrow> sigset option" where
  "sig_mask sig = (if 1 \<le> sig \<and> sig \<le> MAX_SIG then Some (push_bit (nat (sig - 1)) 1) else None)"

definition sigset_has :: "sigset \<Rightarrow> int \<Rightarrow> bool option" where
  "sigset_has ss sig = do { m \<leftarrow> sig_mask sig; Some (ss AND m \<noteq> 0) }"

definition sigset_add :: "sigset \<Rightarrow> int \<Rightarrow> sigset option" where
  "sigset_add ss sig = do { m \<leftarrow> sig_mask sig; Some (ss OR m) }"

definition sigset_del :: "sigset \<Rightarrow> int \<Rightarrow> sigset option" where
  "sigset_del ss sig = do { m \<leftarrow> sig_mask sig; Some (ss AND NOT m) }"

section \<open>Actions\<close>

record sigaction =
  sa_handler :: u64
  sa_flags :: u32
  sa_restorer :: u64
  sa_mask :: sigset

abbreviation (input) SIG_DFL :: u64 where "SIG_DFL \<equiv> 0"
abbreviation (input) SIG_IGN :: u64 where "SIG_IGN \<equiv> 1"

definition NUM_SIGS :: nat where "NUM_SIGS = 65"

record sighand =
  sh_action :: "sigaction list"
  sh_altstack :: u64
  sh_altstack_size :: u32

definition no_action :: sigaction where
  "no_action = \<lparr>sa_handler = SIG_DFL, sa_flags = 0, sa_restorer = 0, sa_mask = 0\<rparr>"

definition sighand_new :: sighand where
  "sighand_new = \<lparr>sh_action = replicate NUM_SIGS no_action, sh_altstack = 0, sh_altstack_size = 0\<rparr>"

definition sighand_copy :: "sighand \<Rightarrow> sighand" where
  "sighand_copy sh = sighand_new\<lparr>sh_action := sh_action sh\<rparr>"

definition action_of :: "sighand \<Rightarrow> int \<Rightarrow> sigaction option" where
  "action_of sh sig = (if 0 \<le> sig \<and> nat sig < length (sh_action sh) then Some (sh_action sh ! nat sig) else None)"

definition signal_is_blockable :: "int \<Rightarrow> bool" where
  "signal_is_blockable sig \<longleftrightarrow> sig \<noteq> SIGKILL \<and> sig \<noteq> SIGSTOP"

datatype disposition = SIGNAL_IGNORE | SIGNAL_KILL | SIGNAL_CALL_HANDLER | SIGNAL_STOP

definition default_action :: "int \<Rightarrow> disposition" where
  "default_action sig =
     (if sig \<in> {SIGURG, SIGCONT, SIGCHLD, SIGIO, SIGWINCH} then SIGNAL_IGNORE
      else if sig \<in> {SIGSTOP, SIGTSTP, SIGTTIN, SIGTTOU} then SIGNAL_STOP
      else SIGNAL_KILL)"

definition signal_action :: "sighand \<Rightarrow> int \<Rightarrow> disposition option" where
  "signal_action sh sig =
     (if signal_is_blockable sig then do {
        a \<leftarrow> action_of sh sig;
        Some (if sa_handler a = SIG_IGN then SIGNAL_IGNORE
              else if sa_handler a \<noteq> SIG_DFL then SIGNAL_CALL_HANDLER
              else default_action sig)
      } else Some (default_action sig))"

text \<open>The result, the old action, and the table; \<^verbatim>\<open>action\<close> and \<^verbatim>\<open>oldaction\<close> may be null.\<close>

definition do_sigaction ::
  "int \<Rightarrow> sigaction option \<Rightarrow> bool \<Rightarrow> sighand \<Rightarrow> (int \<times> sigaction option \<times> sighand) option" where
  "do_sigaction sig action want_old sh =
     (if sig > MAX_SIG \<or> \<not> signal_is_blockable sig then Some (EINVAL, None, sh)
      else if action = None \<and> \<not> want_old then Some (0, None, sh)
      else do {
        old \<leftarrow> action_of sh sig;
        Some (0, if want_old then Some old else None,
              case action of None \<Rightarrow> sh | Some a \<Rightarrow> sh\<lparr>sh_action := (sh_action sh)[nat sig := a]\<rparr>)
      })"

section \<open>The signal state of a thread\<close>

text \<open>\<open>si_fields\<close> are the bytes of the union; \<open>t_woken\<close> records that the thread was interrupted in its wait.\<close>

record siginfo =
  si_signo :: int
  si_errno :: int
  si_code :: int
  si_fields :: "byte list"

definition SIGINFO_NIL :: siginfo where
  "SIGINFO_NIL = \<lparr>si_signo = 0, si_errno = 0, si_code = 128, si_fields = replicate 112 0\<rparr>"

record stask =
  t_blocked :: sigset
  t_pending :: sigset
  t_waiting :: sigset
  t_queue :: "siginfo list"
  t_saved_mask :: sigset
  t_has_saved_mask :: bool
  t_zombie :: bool
  t_exiting :: bool
  t_woken :: bool

record sgroup =
  g_stopped :: bool
  g_continued :: bool
  g_exit_code :: u32

text \<open>\<open>self\<close>: the thread is the current one, which needs no waking.\<close>

definition deliver_signal_unlocked :: "bool \<Rightarrow> int \<Rightarrow> siginfo \<Rightarrow> stask \<Rightarrow> stask option" where
  "deliver_signal_unlocked self sig info t = do {
     already \<leftarrow> (if sig < SIGRTMIN then sigset_has (t_pending t) sig else Some False);
     if already then Some t
     else do {
       pending \<leftarrow> sigset_add (t_pending t) sig;
       let t1 = t\<lparr>t_pending := pending, t_queue := t_queue t @ [info\<lparr>si_signo := sig\<rparr>]\<rparr>;
       held \<leftarrow> sigset_has (t_blocked t AND NOT (t_waiting t)) sig;
       Some (t1\<lparr>t_woken := (t_woken t \<or> \<not> (held \<and> signal_is_blockable sig) \<and> \<not> self)\<rparr>)
     }
   }"

definition deliver_signal :: "bool \<Rightarrow> int \<Rightarrow> siginfo \<Rightarrow> sighand option \<Rightarrow> stask \<Rightarrow> stask option" where
  "deliver_signal self sig info sh t = (case sh of None \<Rightarrow> Some t | Some _ \<Rightarrow> deliver_signal_unlocked self sig info t)"

text \<open>\<open>offload\<close>: the task is run by the host and the signal was passed to it.\<close>

definition send_signal ::
  "bool \<Rightarrow> bool \<Rightarrow> int \<Rightarrow> siginfo \<Rightarrow> sighand option \<Rightarrow> stask \<times> sgroup \<Rightarrow> (stask \<times> sgroup) option" where
  "send_signal offload self sig info sh tg = (case tg of (t, g) \<Rightarrow>
     if sig = 0 \<or> t_zombie t \<or> t_exiting t \<or> offload then Some (t, g)
     else case sh of None \<Rightarrow> Some (t, g)
     | Some h \<Rightarrow> do {
         act \<leftarrow> signal_action h sig;
         t1 \<leftarrow> (if act \<noteq> SIGNAL_IGNORE then deliver_signal_unlocked self sig info t else Some t);
         Some (t1, if sig = SIGCONT \<or> sig = SIGKILL
                   then g\<lparr>g_continued := (if g_stopped g \<and> sig = SIGCONT then True else g_continued g),
                          g_stopped := False\<rparr>
                   else g)
       })"

definition try_self_signal :: "int \<Rightarrow> sighand \<Rightarrow> stask \<Rightarrow> (bool \<times> stask) option" where
  "try_self_signal sig sh t =
     (if sig \<noteq> SIGTTIN \<and> sig \<noteq> SIGTTOU then None
      else do {
        act \<leftarrow> signal_action sh sig;
        blocked \<leftarrow> sigset_has (t_blocked t) sig;
        if act \<noteq> SIGNAL_IGNORE \<and> \<not> blocked
        then do { t1 \<leftarrow> deliver_signal_unlocked True sig SIGINFO_NIL t; Some (True, t1) }
        else Some (False, t)
      })"

section \<open>Masks\<close>

definition UNBLOCKABLE_MASK :: sigset where
  "UNBLOCKABLE_MASK = push_bit 8 1 OR push_bit 18 1"

definition sigmask_set :: "sigset \<Rightarrow> stask \<Rightarrow> stask" where
  "sigmask_set ss t = t\<lparr>t_blocked := ss AND NOT UNBLOCKABLE_MASK\<rparr>"

definition sigmask_set_temp :: "sigset \<Rightarrow> stask \<Rightarrow> stask" where
  "sigmask_set_temp ss t = sigmask_set ss (t\<lparr>t_saved_mask := t_blocked t, t_has_saved_mask := True\<rparr>)"

abbreviation (input) SIG_BLOCK :: u32 where "SIG_BLOCK \<equiv> 0"
abbreviation (input) SIG_UNBLOCK :: u32 where "SIG_UNBLOCK \<equiv> 1"
abbreviation (input) SIG_SETMASK :: u32 where "SIG_SETMASK \<equiv> 2"

definition do_sigprocmask :: "u32 \<Rightarrow> sigset \<Rightarrow> stask \<Rightarrow> int \<times> stask" where
  "do_sigprocmask how ss t =
     (if how = SIG_BLOCK then (0, sigmask_set (t_blocked t OR ss) t)
      else if how = SIG_UNBLOCK then (0, sigmask_set (t_blocked t AND NOT ss) t)
      else if how = SIG_SETMASK then (0, sigmask_set ss t)
      else (EINVAL, t))"

section \<open>Waiting for a signal\<close>

text \<open>
  A wake-up: the signals that arrived while the thread slept, and whether its time ran out. A wait is given the
  wake-ups it gets; one that uses them all up is still asleep.
\<close>

datatype wake = Wake (arrivals: "(int \<times> siginfo) list") (expired: bool)

datatype 'a waited = Aborted | Asleep stask | Awake 'a

definition is_signal_pending :: "stask \<Rightarrow> bool" where
  "is_signal_pending t \<longleftrightarrow> t_pending t AND NOT (t_blocked t) \<noteq> 0"

definition arrive :: "(int \<times> siginfo) list \<Rightarrow> stask \<Rightarrow> stask option" where
  "arrive xs t = iter_opt (\<lambda>t (sig, info). deliver_signal_unlocked False sig info t) t xs"

text \<open>\<^verbatim>\<open>wait_for\<close>: its result, the wake-ups left and the thread.\<close>

definition wait_for :: "bool \<Rightarrow> wake list \<Rightarrow> stask \<Rightarrow> (int \<times> wake list \<times> stask) waited" where
  "wait_for timed ws t =
     (if is_signal_pending t then Awake (EINTR, ws, t)
      else case ws of [] \<Rightarrow> Asleep t
      | w # ws' \<Rightarrow>
          (case arrive (arrivals w) t of None \<Rightarrow> Aborted
           | Some t1 \<Rightarrow>
               Awake (if timed \<and> expired w then ETIMEDOUT else if is_signal_pending t1 then EINTR else 0, ws', t1)))"

lemma wait_for_uses:
  "wait_for timed ws t = Awake (r, ws', t') \<Longrightarrow> r \<noteq> EINTR \<Longrightarrow> length ws' < length ws"
  by (auto simp: wait_for_def split: if_splits list.splits option.splits)

text \<open>The loop of \<^verbatim>\<open>sys_rt_sigtimedwait\<close>, which waits again while the answer is 0.\<close>

function sigwait_loop :: "bool \<Rightarrow> wake list \<Rightarrow> stask \<Rightarrow> (int \<times> stask) waited" where
  "sigwait_loop timed ws t =
     (case wait_for timed ws t of
        Aborted \<Rightarrow> Aborted
      | Asleep t1 \<Rightarrow> Asleep t1
      | Awake (r, ws1, t1) \<Rightarrow> if r = 0 then sigwait_loop timed ws1 t1 else Awake (r, t1))"
  by pat_completeness auto
termination
  by (relation "measure (\<lambda>(timed, ws, t). length ws)") (auto intro: wait_for_uses)

declare sigwait_loop.simps [simp del]

text \<open>The first queued signal of the set leaves the queue; the pending set is not touched.\<close>

fun take_queued :: "sigset \<Rightarrow> siginfo list \<Rightarrow> (siginfo option \<times> siginfo list) option" where
  "take_queued ss [] = Some (None, [])"
| "take_queued ss (i # q) = do {
     h \<leftarrow> sigset_has ss (si_signo i);
     if h then Some (Some i, q)
     else do { (r, q') \<leftarrow> take_queued ss q; Some (r, i # q') }
   }"

text \<open>\<^verbatim>\<open>sys_rt_sigtimedwait\<close> after its arguments are read: the result with the information taken.\<close>

definition sigtimedwait :: "sigset \<Rightarrow> bool \<Rightarrow> wake list \<Rightarrow> stask \<Rightarrow> (int \<times> siginfo option \<times> stask) waited" where
  "sigtimedwait ss timed ws t =
     (if t_waiting t \<noteq> 0 then Aborted
      else case sigwait_loop timed ws (t\<lparr>t_waiting := ss\<rparr>) of
        Aborted \<Rightarrow> Aborted
      | Asleep t1 \<Rightarrow> Asleep t1
      | Awake (r, t1) \<Rightarrow>
          let t2 = t1\<lparr>t_waiting := 0\<rparr>
          in if r = ETIMEDOUT then Awake (EAGAIN, None, t2)
             else case take_queued ss (t_queue t2) of
               None \<Rightarrow> Aborted
             | Some (None, _) \<Rightarrow> Awake (EINTR, None, t2)
             | Some (Some i, q) \<Rightarrow> Awake (si_signo i, Some i, t2\<lparr>t_queue := q\<rparr>))"

text \<open>\<^verbatim>\<open>while (wait_for(...) != _EINTR) continue\<close>, without a timeout.\<close>

function pause_loop :: "wake list \<Rightarrow> stask \<Rightarrow> (int \<times> stask) waited" where
  "pause_loop ws t =
     (case wait_for False ws t of
        Aborted \<Rightarrow> Aborted
      | Asleep t1 \<Rightarrow> Asleep t1
      | Awake (r, ws1, t1) \<Rightarrow>
          if r \<noteq> EINTR then pause_loop ws1 t1 else Awake (EINTR, t1))"
  by pat_completeness auto
termination
  by (relation "measure (\<lambda>(ws, t). length ws)") (auto intro: wait_for_uses)

declare pause_loop.simps [simp del]

definition sigsuspend :: "sigset \<Rightarrow> wake list \<Rightarrow> stask \<Rightarrow> (int \<times> stask) waited" where
  "sigsuspend ss ws t = pause_loop ws (sigmask_set_temp ss t)"

end
