(* ===== verification/Signal_Frames.thy ===== *)
theory Signal_Frames
  imports Signal_State User_Memory
begin

text \<open>
  Delivering signals (\<^verbatim>\<open>receive_signals\<close>, \<^verbatim>\<open>receive_signal\<close> of \<^verbatim>\<open>kernel/signal.c\<close>) and returning from handlers: the
  frame on the guest's stack is the bytes of \<^verbatim>\<open>struct rt_sigframe_\<close>, written and read through the copies of
  \<open>User_Memory\<close>. The delivery stop of a traced task is not modelled.
\<close>

unbundle bit_operations_syntax

section \<open>Registers and frames\<close>

record cpu =
  c_regs :: "u64 list"
  c_sp :: u64
  c_pc :: u64
  c_nf :: byte
  c_zf :: byte
  c_cf :: byte
  c_vf :: byte
  c_nzcv :: u32
  c_fpsr :: u32
  c_fpcr :: u32
  c_fp :: "128 word list"
  c_segfault_addr :: u64
  c_excl_addr :: u64

record sigcontext =
  sc_fault_address :: u64
  sc_regs :: "u64 list"
  sc_sp :: u64
  sc_pc :: u64
  sc_pstate :: u64
  sc_reserved :: "byte list"

record stack_t =
  ss_sp :: u64
  ss_flags :: u32
  ss_size :: u64

record rt_sigframe =
  fr_restorer :: u64
  fr_sig :: int
  fr_pinfo :: u64
  fr_puc :: u64
  fr_info :: siginfo
  uc_flags :: u64
  uc_link :: u64
  uc_stack :: stack_t
  uc_sigmask :: sigset
  uc_mcontext :: sigcontext
  fr_retcode :: "byte list"

definition FPSIMD_MAGIC :: u32 where "FPSIMD_MAGIC = 0x46508001"

text \<open>
  \<^verbatim>\<open>struct fpsimd_context_\<close> is 528 bytes at the start of the reserved area; the null record that ends the list
  follows it.
\<close>

definition fpsimd_bytes :: "cpu \<Rightarrow> byte list" where
  "fpsimd_bytes cpu = word_bytes FPSIMD_MAGIC @ word_bytes (528 :: u32) @ word_bytes (c_fpsr cpu)
     @ word_bytes (c_fpcr cpu) @ concat (map word_bytes (c_fp cpu))"

definition setup_sigcontext :: "cpu \<Rightarrow> sigcontext" where
  "setup_sigcontext cpu =
     \<lparr>sc_fault_address = c_segfault_addr cpu, sc_regs = c_regs cpu, sc_sp = c_sp cpu, sc_pc = c_pc cpu,
      sc_pstate = ucast (c_nzcv cpu),
      sc_reserved = fpsimd_bytes cpu @ replicate 8 0 @ replicate (4096 - 528 - 8) 0\<rparr>"

definition cut :: "nat \<Rightarrow> nat \<Rightarrow> 'a list \<Rightarrow> 'a list" where
  "cut off n bs = take n (drop off bs)"

definition arm64_set_nzcv :: "u32 \<Rightarrow> cpu \<Rightarrow> cpu" where
  "arm64_set_nzcv v cpu = cpu\<lparr>c_nzcv := v,
     c_nf := ucast (drop_bit 31 v AND 1), c_zf := ucast (drop_bit 30 v AND 1),
     c_cf := ucast (drop_bit 29 v AND 1), c_vf := ucast (drop_bit 28 v AND 1)\<rparr>"

definition restore_sigcontext :: "sigcontext \<Rightarrow> cpu \<Rightarrow> cpu" where
  "restore_sigcontext sc cpu =
     (let c1 = arm64_set_nzcv (ucast (sc_pstate sc)) (cpu\<lparr>c_regs := sc_regs sc, c_sp := sc_sp sc, c_pc := sc_pc sc\<rparr>);
          r = sc_reserved sc
      in if bytes_word (cut 0 4 r) = FPSIMD_MAGIC
         then c1\<lparr>c_fpsr := bytes_word (cut 8 4 r), c_fpcr := bytes_word (cut 12 4 r),
                 c_fp := map (\<lambda>i. bytes_word (cut (16 + 16 * i) 16 r)) [0..<32]\<rparr>
         else c1)"

text \<open>The layout of the frame: 4712 bytes, with the information at 32 and the context at 160.\<close>

definition siginfo_bytes :: "siginfo \<Rightarrow> byte list" where
  "siginfo_bytes i = word_bytes (word_of_int (si_signo i) :: u32) @ word_bytes (word_of_int (si_errno i) :: u32)
     @ word_bytes (word_of_int (si_code i) :: u32) @ replicate 4 0 @ si_fields i"

definition stack_bytes :: "stack_t \<Rightarrow> byte list" where
  "stack_bytes s = word_bytes (ss_sp s) @ word_bytes (ss_flags s) @ replicate 4 0 @ word_bytes (ss_size s)"

definition sigcontext_bytes :: "sigcontext \<Rightarrow> byte list" where
  "sigcontext_bytes sc = word_bytes (sc_fault_address sc) @ concat (map word_bytes (sc_regs sc))
     @ word_bytes (sc_sp sc) @ word_bytes (sc_pc sc) @ word_bytes (sc_pstate sc) @ sc_reserved sc"

definition frame_bytes :: "rt_sigframe \<Rightarrow> byte list" where
  "frame_bytes f = word_bytes (fr_restorer f) @ word_bytes (word_of_int (fr_sig f) :: u32) @ replicate 4 0
     @ word_bytes (fr_pinfo f) @ word_bytes (fr_puc f) @ siginfo_bytes (fr_info f)
     @ word_bytes (uc_flags f) @ word_bytes (uc_link f) @ stack_bytes (uc_stack f) @ word_bytes (uc_sigmask f)
     @ replicate 120 0 @ sigcontext_bytes (uc_mcontext f) @ fr_retcode f"

definition FRAME_SIZE :: nat where "FRAME_SIZE = 4712"

text \<open>What \<^verbatim>\<open>sys_rt_sigreturn\<close> reads of it.\<close>

definition bytes_stack :: "byte list \<Rightarrow> stack_t" where
  "bytes_stack bs = \<lparr>ss_sp = bytes_word (cut 0 8 bs), ss_flags = bytes_word (cut 8 4 bs), ss_size = bytes_word (cut 16 8 bs)\<rparr>"

definition bytes_sigcontext :: "byte list \<Rightarrow> sigcontext" where
  "bytes_sigcontext bs =
     \<lparr>sc_fault_address = bytes_word (cut 0 8 bs), sc_regs = map (\<lambda>i. bytes_word (cut (8 + 8 * i) 8 bs)) [0..<31],
      sc_sp = bytes_word (cut 256 8 bs), sc_pc = bytes_word (cut 264 8 bs), sc_pstate = bytes_word (cut 272 8 bs),
      sc_reserved = cut 280 4096 bs\<rparr>"

definition frame_stack :: "byte list \<Rightarrow> stack_t" where "frame_stack bs = bytes_stack (cut 176 24 bs)"
definition frame_sigmask :: "byte list \<Rightarrow> sigset" where "frame_sigmask bs = bytes_word (cut 200 8 bs)"
definition frame_mcontext :: "byte list \<Rightarrow> sigcontext" where "frame_mcontext bs = bytes_sigcontext (cut 328 4376 bs)"

section \<open>The thread\<close>

text \<open>
  \<open>th_locked\<close>: this thread holds \<^verbatim>\<open>sighand->lock\<close>, a mutex that is not recursive. \<open>th_limit\<close> bounds the growth of
  the stack; \<open>th_trampoline\<close> is the address of \<^verbatim>\<open>__kernel_rt_sigreturn\<close> in the guest.
\<close>

record thread =
  th_sig :: stask
  th_hand :: sighand
  th_group :: sgroup
  th_cpu :: cpu
  th_mem :: "space option"
  th_limit :: nat
  th_trampoline :: u64
  th_restartable :: bool
  th_restart_pc :: u64
  th_restart_arg0 :: u64
  th_v8_aborting :: bool
  th_locked :: bool

text \<open>An operation returns, ends the process with a status, waits for ever for a lock it holds, or has failed.\<close>

datatype 'a outcome = Returned 'a | Exits int | Deadlock | Undefined

fun after :: "'a outcome \<Rightarrow> ('a \<Rightarrow> 'b outcome) \<Rightarrow> 'b outcome" where
  "after (Returned x) f = f x"
| "after (Exits n) f = Exits n"
| "after Deadlock f = Deadlock"
| "after Undefined f = Undefined"

definition lock_hand :: "thread \<Rightarrow> thread outcome" where
  "lock_hand th = (if th_locked th then Deadlock else Returned (th\<lparr>th_locked := True\<rparr>))"

definition unlock_hand :: "thread \<Rightarrow> thread" where
  "unlock_hand th = th\<lparr>th_locked := False\<rparr>"

text \<open>\<^verbatim>\<open>deliver_signal\<close> to the current thread.\<close>

definition deliver_self :: "int \<Rightarrow> siginfo \<Rightarrow> thread \<Rightarrow> thread outcome" where
  "deliver_self sig info th = after (lock_hand th) (\<lambda>th.
     case deliver_signal_unlocked True sig info (th_sig th) of
       None \<Rightarrow> Undefined
     | Some t \<Rightarrow> Returned (unlock_hand (th\<lparr>th_sig := t\<rparr>)))"

section \<open>The alternate stack\<close>

definition is_on_altstack :: "u64 \<Rightarrow> sighand \<Rightarrow> bool" where
  "is_on_altstack sp sh \<longleftrightarrow> sp > sh_altstack sh \<and> sp \<le> sh_altstack sh + ucast (sh_altstack_size sh)"

definition altstack_to_user :: "u64 \<Rightarrow> sighand \<Rightarrow> stack_t" where
  "altstack_to_user sp sh =
     \<lparr>ss_sp = sh_altstack sh,
      ss_flags = (if sh_altstack sh = 0 then 2 else 0) OR (if is_on_altstack sp sh then 1 else 0),
      ss_size = ucast (sh_altstack_size sh)\<rparr>"

abbreviation (input) MINSIGSTKSZ :: u64 where "MINSIGSTKSZ \<equiv> 6144"

section \<open>Receiving a signal\<close>

definition SA_SIGINFO :: u32 where "SA_SIGINFO = 4"
definition SA_ONSTACK :: u32 where "SA_ONSTACK = 0x08000000"
definition SA_RESTART :: u32 where "SA_RESTART = 0x10000000"
definition SA_NODEFER :: u32 where "SA_NODEFER = 0x40000000"
definition SA_RESETHAND :: u32 where "SA_RESETHAND = 0x80000000"

text \<open>\<open>rt_retcode\<close> is \<^verbatim>\<open>mov $173,%eax; int $0x80\<close> and a byte of padding.\<close>

definition rt_retcode :: "byte list" where
  "rt_retcode = [0xb8] @ word_bytes (173 :: u32) @ word_bytes (0x80cd :: u16) @ [0]"

definition setup_rt_sigframe :: "siginfo \<Rightarrow> thread \<Rightarrow> rt_sigframe" where
  "setup_rt_sigframe info th =
     \<lparr>fr_restorer = th_trampoline th, fr_sig = si_signo info, fr_pinfo = 0, fr_puc = 0, fr_info = info,
      uc_flags = 0, uc_link = 0, uc_stack = altstack_to_user (c_sp (th_cpu th)) (th_hand th),
      uc_sigmask = t_blocked (th_sig th), uc_mcontext = setup_sigcontext (th_cpu th), fr_retcode = rt_retcode\<rparr>"

text \<open>The status a process dies with from a signal whose action is to kill it.\<close>

definition kill_status :: "int \<Rightarrow> thread \<Rightarrow> int" where
  "kill_status sig th =
     (if sig = SIGTRAP \<or> sig = SIGABRT then (if th_v8_aborting th then 0 else sig)
      else if (sig = SIGILL \<or> sig = SIGBUS) \<and> c_pc (th_cpu th) \<ge> 0xb0000000 \<and> c_pc (th_cpu th) < 0xf0000000 then 256
      else if sig = SIGSEGV \<and> th_v8_aborting th then 0
      else sig)"

definition syscall_restart :: "sigaction \<Rightarrow> thread \<Rightarrow> thread" where
  "syscall_restart a th =
     (let c = th_cpu th
      in if sa_flags a AND SA_RESTART \<noteq> 0 \<and> th_restartable th \<and> c_pc c = th_restart_pc th
         then th\<lparr>th_cpu := c\<lparr>c_pc := c_pc c - 4, c_regs := (c_regs c)[0 := th_restart_arg0 th]\<rparr>,
                 th_restartable := False\<rparr>
         else th)"

text \<open>Where the frame goes.\<close>

definition frame_sp :: "sigaction \<Rightarrow> sighand \<Rightarrow> u64 \<Rightarrow> u64" where
  "frame_sp a sh sp =
     (let sp1 = (if sa_flags a AND SA_ONSTACK \<noteq> 0 \<and> sh_altstack sh \<noteq> 0 \<and> \<not> is_on_altstack sp sh
                 then sh_altstack sh + ucast (sh_altstack_size sh) else sp)
      in (sp1 - of_nat FRAME_SIZE) AND NOT 15)"

definition handler_mask :: "sigaction \<Rightarrow> int \<Rightarrow> sigset \<Rightarrow> sigset option" where
  "handler_mask a sig blocked = do {
     b \<leftarrow> (if sa_flags a AND SA_NODEFER = 0 then sigset_add blocked sig else Some blocked);
     Some (b OR sa_mask a)
   }"

definition handler_cpu :: "sigaction \<Rightarrow> int \<Rightarrow> u64 \<Rightarrow> cpu \<Rightarrow> cpu" where
  "handler_cpu a sig sp c = c\<lparr>c_excl_addr := - 1, c_pc := sa_handler a, c_sp := sp,
     c_regs := (c_regs c)[0 := word_of_int sig, 1 := sp + 32, 2 := sp + 160]\<rparr>"

definition handler_frame :: "siginfo \<Rightarrow> u64 \<Rightarrow> thread \<Rightarrow> rt_sigframe" where
  "handler_frame info sp th = (setup_rt_sigframe info th)\<lparr>fr_pinfo := sp + 32, fr_puc := sp + 160\<rparr>"

text \<open>The return address, and \<^verbatim>\<open>SA_RESETHAND\<close>.\<close>

definition enter_handler :: "sigaction \<Rightarrow> int \<Rightarrow> thread \<Rightarrow> thread" where
  "enter_handler a sig th = th\<lparr>
     th_cpu := (th_cpu th)\<lparr>c_regs := (c_regs (th_cpu th))[30 := th_trampoline th]\<rparr>,
     th_hand := (if sa_flags a AND SA_RESETHAND \<noteq> 0
                 then (th_hand th)\<lparr>sh_action := (sh_action (th_hand th))[nat sig := no_action]\<rparr>
                 else th_hand th)\<rparr>"

definition call_handler :: "siginfo \<Rightarrow> sigaction \<Rightarrow> thread \<Rightarrow> thread outcome" where
  "call_handler info a th0 =
     (let sig = si_signo info;
          th = syscall_restart a th0;
          sp = frame_sp a (th_hand th) (c_sp (th_cpu th));
          frame = handler_frame info sp th
      in case handler_mask a sig (t_blocked (th_sig th)) of
           None \<Rightarrow> Undefined
         | Some blocked \<Rightarrow>
             let th1 = th\<lparr>th_cpu := handler_cpu a sig sp (th_cpu th), th_sig := (th_sig th)\<lparr>t_blocked := blocked\<rparr>\<rparr>
             in case user_write_task (th_limit th) (th_mem th) (unat sp) (frame_bytes frame) of
                  None \<Rightarrow> Undefined
                | Some (r, m) \<Rightarrow>
                    after (if r \<noteq> 0 then deliver_self SIGSEGV SIGINFO_NIL (th1\<lparr>th_mem := m\<rparr>)
                           else Returned (th1\<lparr>th_mem := m\<rparr>))
                      (\<lambda>th2. Returned (enter_handler a sig th2)))"

definition receive_signal :: "siginfo \<Rightarrow> thread \<Rightarrow> thread outcome" where
  "receive_signal info th =
     (case signal_action (th_hand th) (si_signo info) of
        None \<Rightarrow> Undefined
      | Some SIGNAL_IGNORE \<Rightarrow> Returned th
      | Some SIGNAL_STOP \<Rightarrow>
          Returned (th\<lparr>th_group := (th_group th)\<lparr>g_stopped := True,
            g_exit_code := word_of_int (si_signo info * 256) OR 0x7f\<rparr>\<rparr>)
      | Some SIGNAL_KILL \<Rightarrow> Exits (kill_status (si_signo info) th)
      | Some SIGNAL_CALL_HANDLER \<Rightarrow>
          (case action_of (th_hand th) (si_signo info) of
             None \<Rightarrow> Undefined
           | Some a \<Rightarrow> call_handler info a th))"

text \<open>The walk over the queue; \<open>kept\<close> are the signals already passed over.\<close>

fun receive_loop :: "sigset \<Rightarrow> siginfo list \<Rightarrow> siginfo list \<Rightarrow> thread \<Rightarrow> thread outcome" where
  "receive_loop blocked kept [] th = Returned th"
| "receive_loop blocked kept (i # rest) th =
     (case (sigset_has blocked (si_signo i), sigset_del (t_pending (th_sig th)) (si_signo i)) of
        (Some True, _) \<Rightarrow> receive_loop blocked (kept @ [i]) rest th
      | (Some False, Some p) \<Rightarrow>
          after (receive_signal i (th\<lparr>th_sig := (th_sig th)\<lparr>t_queue := kept @ rest, t_pending := p\<rparr>\<rparr>))
            (receive_loop blocked kept rest)
      | _ \<Rightarrow> Undefined)"

text \<open>
  After a call like \<^verbatim>\<open>sigsuspend\<close>, only what was blocked during the call and is blocked after it is held back.
  The result says whether the parent is told that the process stopped.
\<close>

definition receive_mask :: "stask \<Rightarrow> sigset" where
  "receive_mask t = (if t_has_saved_mask t then t_blocked t AND t_saved_mask t else t_blocked t)"

definition drop_saved_mask :: "stask \<Rightarrow> stask" where
  "drop_saved_mask t =
     (if t_has_saved_mask t then t\<lparr>t_has_saved_mask := False, t_blocked := t_saved_mask t\<rparr> else t)"

definition receive_signals :: "thread \<Rightarrow> (bool \<times> thread) outcome" where
  "receive_signals th0 =
     after (lock_hand th0) (\<lambda>th.
       after (receive_loop (receive_mask (th_sig th)) [] (t_queue (th_sig th))
                (th\<lparr>th_sig := drop_saved_mask (th_sig th)\<rparr>)) (\<lambda>th1.
         Returned (\<not> g_stopped (th_group th0) \<and> g_stopped (th_group th1), unlock_hand th1)))"

section \<open>Returning from a handler\<close>

definition sys_rt_sigreturn :: "thread \<Rightarrow> (u64 \<times> thread) outcome" where
  "sys_rt_sigreturn th =
     (let sp = c_sp (th_cpu th)
      in case user_read_task (th_limit th) (th_mem th) (unat sp) FRAME_SIZE of
           None \<Rightarrow> Undefined
         | Some (r, bs, m) \<Rightarrow>
             if r \<noteq> 0 then after (deliver_self SIGSEGV SIGINFO_NIL (th\<lparr>th_mem := m\<rparr>))
                              (\<lambda>th. Returned (word_of_int EFAULT, th))
             else
               let c = restore_sigcontext (frame_mcontext bs) (th_cpu th);
                   st = frame_stack bs;
                   sh = th_hand th
               in after (lock_hand (th\<lparr>th_mem := m, th_cpu := c\<rparr>)) (\<lambda>th1.
                    Returned (c_regs c ! 0, unlock_hand (th1\<lparr>
                      th_hand := (if \<not> is_on_altstack sp sh \<and> ss_size st \<ge> MINSIGSTKSZ
                                  then sh\<lparr>sh_altstack := ss_sp st, sh_altstack_size := ucast (ss_size st)\<rparr> else sh),
                      th_sig := sigmask_set (frame_sigmask bs) (th_sig th1)\<rparr>))))"

end
