(* ===== verification/Signal_Queue.thy ===== *)
theory Signal_Queue
  imports Signal_State
begin

text \<open>
  The signal state of a thread as the set of what is queued: the invariant that ties the pending mask to the
  queue, and what sending and waiting do to it.
\<close>

unbundle bit_operations_syntax

section \<open>Masks as sets of numbers\<close>

definition sig_range :: "int \<Rightarrow> bool" where "sig_range sig \<longleftrightarrow> 1 \<le> sig \<and> sig \<le> 64"

definition holds_sig :: "sigset \<Rightarrow> int \<Rightarrow> bool" where "holds_sig ss sig \<longleftrightarrow> bit ss (nat (sig - 1))"

lemma sig_mask_range: "sig_range sig \<Longrightarrow> sig_mask sig = Some (2 ^ nat (sig - 1))"
  by (simp add: sig_mask_def sig_range_def)

lemma sig_mask_None: "\<not> sig_range sig \<Longrightarrow> sig_mask sig = None"
  by (auto simp: sig_mask_def sig_range_def)

lemma bit_mask: "sig_range s \<Longrightarrow> sig_range s' \<Longrightarrow> bit (2 ^ nat (s - 1) :: sigset) (nat (s' - 1)) \<longleftrightarrow> s' = s"
  by (auto simp: bit_exp_iff sig_range_def)

lemma sigset_has_range [simp]: "sig_range sig \<Longrightarrow> sigset_has ss sig = Some (holds_sig ss sig)"
  using bit_iff_and_push_bit_not_eq_0[of ss "nat (sig - 1)"]
  by (simp add: sigset_has_def sig_mask_range holds_sig_def)

lemma sigset_has_SomeD: "sigset_has ss sig = Some b \<Longrightarrow> sig_range sig \<and> b = holds_sig ss sig"
  by (cases "sig_range sig") (simp, simp add: sigset_has_def sig_mask_None)

lemma sigset_add_SomeD: "sigset_add ss sig = Some p \<Longrightarrow> sig_range sig"
  by (cases "sig_range sig") (simp, simp add: sigset_add_def sig_mask_None)

lemma sigset_del_SomeD: "sigset_del ss sig = Some p \<Longrightarrow> sig_range sig"
  by (cases "sig_range sig") (simp, simp add: sigset_del_def sig_mask_None)

lemma sigset_add_range:
  assumes "sig_range sig"
  shows "\<exists>p. sigset_add ss sig = Some p \<and> (\<forall>s. sig_range s \<longrightarrow> holds_sig p s = (holds_sig ss s \<or> s = sig))"
  using assms by (simp add: sigset_add_def sig_mask_range holds_sig_def bit_or_iff bit_mask)

lemma sigset_del_range:
  assumes "sig_range sig"
  shows "\<exists>p. sigset_del ss sig = Some p \<and> (\<forall>s. sig_range s \<longrightarrow> holds_sig p s = (holds_sig ss s \<and> s \<noteq> sig))"
proof -
  have "nat (s - 1) < 64" if "sig_range s" for s using that by (auto simp: sig_range_def)
  then show ?thesis
    using assms by (simp add: sigset_del_def sig_mask_range holds_sig_def bit_and_iff bit_not_iff bit_mask)
qed

lemma holds_or [simp]: "holds_sig (a OR b) s \<longleftrightarrow> holds_sig a s \<or> holds_sig b s"
  by (simp add: holds_sig_def bit_or_iff)

lemma holds_and [simp]: "holds_sig (a AND b) s \<longleftrightarrow> holds_sig a s \<and> holds_sig b s"
  by (simp add: holds_sig_def bit_and_iff)

lemma holds_not [simp]: "sig_range s \<Longrightarrow> holds_sig (NOT a) s \<longleftrightarrow> \<not> holds_sig a s"
  by (auto simp: holds_sig_def bit_not_iff sig_range_def)

lemma holds_0 [simp]: "\<not> holds_sig 0 s"
  by (simp add: holds_sig_def)

lemma holds_all [simp]: "sig_range s \<Longrightarrow> holds_sig (- 1) s"
  by (auto simp: holds_sig_def sig_range_def)

lemma holds_unblockable [simp]: "sig_range s \<Longrightarrow> holds_sig UNBLOCKABLE_MASK s \<longleftrightarrow> \<not> signal_is_blockable s"
proof -
  assume s: "sig_range s"
  then have "nat (s - 1) < 64" by (auto simp: sig_range_def)
  with s show ?thesis
    unfolding UNBLOCKABLE_MASK_def holds_sig_def bit_or_iff bit_push_bit_iff bit_1_iff
    by (auto simp: sig_range_def signal_is_blockable_def)
qed

lemma mask_zero_iff: "a = 0 \<longleftrightarrow> (\<forall>s. sig_range s \<longrightarrow> \<not> holds_sig a s)"
proof
  assume h: "\<forall>s. sig_range s \<longrightarrow> \<not> holds_sig a s"
  have "\<not> bit a n" for n
  proof (cases "n < 64")
    case True
    then have "sig_range (int n + 1)" by (simp add: sig_range_def)
    with h show ?thesis by (force simp: holds_sig_def)
  next
    case False
    then show ?thesis using bit_imp_le_length[of a n] by auto
  qed
  then show "a = 0" by (intro bit_word_eqI) simp
qed simp

lemma sig_pending_iff:
  "is_signal_pending t \<longleftrightarrow> (\<exists>s. sig_range s \<and> holds_sig (t_pending t) s \<and> \<not> holds_sig (t_blocked t) s)"
  by (auto simp: is_signal_pending_def mask_zero_iff)

section \<open>The queue and the pending mask\<close>

definition queued :: "stask \<Rightarrow> int \<Rightarrow> nat" where
  "queued t sig = count_list (map si_signo (t_queue t)) sig"

definition sig_ok :: "stask \<Rightarrow> bool" where
  "sig_ok t \<longleftrightarrow> (\<forall>i \<in> set (t_queue t). sig_range (si_signo i))
     \<and> (\<forall>s. sig_range s \<longrightarrow> (holds_sig (t_pending t) s \<longleftrightarrow> 0 < queued t s))
     \<and> (\<forall>s < SIGRTMIN. queued t s \<le> 1)"

lemma sig_okD:
  assumes "sig_ok t"
  shows "\<forall>i \<in> set (t_queue t). sig_range (si_signo i)"
    "sig_range s \<Longrightarrow> holds_sig (t_pending t) s \<longleftrightarrow> 0 < queued t s"
    "s < SIGRTMIN \<Longrightarrow> queued t s \<le> 1"
  using assms by (simp_all add: sig_ok_def)

text \<open>Sending: what the queue and the other fields become.\<close>

definition coalesced :: "int \<Rightarrow> stask \<Rightarrow> bool" where
  "coalesced sig t \<longleftrightarrow> sig < SIGRTMIN \<and> holds_sig (t_pending t) sig"

lemma deliver_spec:
  assumes "sig_range sig"
  obtains t' where "deliver_signal_unlocked self sig info t = Some t'"
    "t_blocked t' = t_blocked t" "t_waiting t' = t_waiting t" "t_saved_mask t' = t_saved_mask t"
    "t_has_saved_mask t' = t_has_saved_mask t" "t_zombie t' = t_zombie t" "t_exiting t' = t_exiting t"
    "t_queue t' = (if coalesced sig t then t_queue t else t_queue t @ [info\<lparr>si_signo := sig\<rparr>])"
    "\<forall>s. sig_range s \<longrightarrow> holds_sig (t_pending t') s = (holds_sig (t_pending t) s \<or> s = sig)"
    "t_woken t' = (t_woken t \<or> \<not> coalesced sig t \<and> \<not> self
        \<and> \<not> (holds_sig (t_blocked t) sig \<and> \<not> holds_sig (t_waiting t) sig \<and> signal_is_blockable sig))"
proof (cases "coalesced sig t")
  case True
  then have "deliver_signal_unlocked self sig info t = Some t"
    using assms by (simp add: deliver_signal_unlocked_def coalesced_def)
  with True show thesis by (intro that) (auto simp: coalesced_def)
next
  case False
  obtain p where p: "sigset_add (t_pending t) sig = Some p"
      "\<forall>s. sig_range s \<longrightarrow> holds_sig p s = (holds_sig (t_pending t) s \<or> s = sig)"
    using sigset_add_range[OF assms] by blast
  with False assms p show thesis
    by (intro that[of "t\<lparr>t_pending := p, t_queue := t_queue t @ [info\<lparr>si_signo := sig\<rparr>],
          t_woken := (t_woken t \<or> \<not> (holds_sig (t_blocked t) sig \<and> \<not> holds_sig (t_waiting t) sig
              \<and> signal_is_blockable sig) \<and> \<not> self)\<rparr>"])
      (auto simp: deliver_signal_unlocked_def coalesced_def Let_def simp flip: de_Morgan_conj)
qed

lemma queued_deliver:
  assumes "t_queue t' = (if coalesced sig t then t_queue t else t_queue t @ [info\<lparr>si_signo := sig\<rparr>])"
  shows "queued t' s = queued t s + (if s = sig \<and> \<not> coalesced sig t then 1 else 0)"
  using assms by (simp add: queued_def)

lemma deliver_Some:
  assumes "deliver_signal_unlocked self sig info t = Some t'" "sig_range sig"
  shows "t_queue t' = (if coalesced sig t then t_queue t else t_queue t @ [info\<lparr>si_signo := sig\<rparr>])"
    "sig_range s \<Longrightarrow> holds_sig (t_pending t') s = (holds_sig (t_pending t) s \<or> s = sig)"
    "t_blocked t' = t_blocked t" "t_saved_mask t' = t_saved_mask t" "t_has_saved_mask t' = t_has_saved_mask t"
    "queued t' s = queued t s + (if s = sig \<and> \<not> coalesced sig t then 1 else 0)"
proof -
  obtain t2 where 2: "deliver_signal_unlocked self sig info t = Some t2" "t_blocked t2 = t_blocked t"
    "t_saved_mask t2 = t_saved_mask t" "t_has_saved_mask t2 = t_has_saved_mask t"
    "t_queue t2 = (if coalesced sig t then t_queue t else t_queue t @ [info\<lparr>si_signo := sig\<rparr>])"
    "\<forall>s. sig_range s \<longrightarrow> holds_sig (t_pending t2) s = (holds_sig (t_pending t) s \<or> s = sig)"
    by (rule deliver_spec[OF assms(2)])
  have t2: "t2 = t'" using 2(1) assms(1) by simp
  note f = 2(2-)[unfolded t2]
  show "t_queue t' = (if coalesced sig t then t_queue t else t_queue t @ [info\<lparr>si_signo := sig\<rparr>])" by (rule f(4))
  show "queued t' s = queued t s + (if s = sig \<and> \<not> coalesced sig t then 1 else 0)" by (rule queued_deliver[OF f(4)])
  show "t_blocked t' = t_blocked t" "t_saved_mask t' = t_saved_mask t" "t_has_saved_mask t' = t_has_saved_mask t"
    using f by simp_all
  show "holds_sig (t_pending t') s = (holds_sig (t_pending t) s \<or> s = sig)" if "sig_range s" using f(5) that by blast
qed

lemma deliver_ok:
  assumes "sig_range sig" "sig_ok t" "deliver_signal_unlocked self sig info t = Some t'"
  shows "sig_ok t'"
proof -
  note q = deliver_Some(1)[OF assms(3,1)] and p = deliver_Some(2)[OF assms(3,1)] and n = deliver_Some(6)[OF assms(3,1)]
  show ?thesis
    unfolding sig_ok_def
  proof (intro conjI allI impI)
    show "\<forall>i \<in> set (t_queue t'). sig_range (si_signo i)"
      using sig_okD(1)[OF assms(2)] assms(1) by (auto simp: q split: if_splits)
    fix s
    show "holds_sig (t_pending t') s \<longleftrightarrow> 0 < queued t' s" if "sig_range s"
      using sig_okD(2)[OF assms(2) that] p that assms(1) by (auto simp: n coalesced_def)
    show "queued t' s \<le> 1" if "s < SIGRTMIN"
      using sig_okD(2)[OF assms(2) assms(1)] sig_okD(3)[OF assms(2) that] that
      by (auto simp: n coalesced_def)
  qed
qed

lemma sig_ok_cong:
  "t_queue t' = t_queue t \<Longrightarrow> t_pending t' = t_pending t \<Longrightarrow> sig_ok t' = sig_ok t"
  by (simp add: sig_ok_def queued_def)

lemma mask_calls_queue [simp]:
  "t_queue (sigmask_set ss t) = t_queue t" "t_queue (sigmask_set_temp ss t) = t_queue t"
  "t_queue (snd (do_sigprocmask how ss t)) = t_queue t"
  by (simp_all add: sigmask_set_def sigmask_set_temp_def do_sigprocmask_def)

lemma sigmask_set_ok [simp]: "sig_ok (sigmask_set ss t) = sig_ok t"
  by (rule sig_ok_cong) (simp_all add: sigmask_set_def)

lemma sigmask_set_temp_ok [simp]: "sig_ok (sigmask_set_temp ss t) = sig_ok t"
  by (rule sig_ok_cong) (simp_all add: sigmask_set_def sigmask_set_temp_def)

lemma do_sigprocmask_ok [simp]: "sig_ok (snd (do_sigprocmask how ss t)) = sig_ok t"
  by (simp add: do_sigprocmask_def)

section \<open>Signals that arrive during a wait\<close>

text \<open>A thread with nothing unblocked pending stays so while only blocked signals arrive.\<close>

definition quiet :: "sigset \<Rightarrow> stask \<Rightarrow> bool" where
  "quiet b t \<longleftrightarrow> sig_ok t \<and> t_blocked t = b \<and> \<not> is_signal_pending t"

definition held_arrival :: "sigset \<Rightarrow> int \<times> siginfo \<Rightarrow> bool" where
  "held_arrival b a \<longleftrightarrow> sig_range (fst a) \<and> holds_sig b (fst a)"

interpretation held: total_calls "quiet b" "held_arrival b" "\<lambda>t (sig, info). deliver_signal_unlocked False sig info t" for b
proof unfold_locales
  fix t and a :: "int \<times> siginfo"
  assume t: "quiet b t" and a: "held_arrival b a"
  obtain sig info where e: "a = (sig, info)" by force
  have r: "sig_range sig" "holds_sig b sig" using a by (simp_all add: e held_arrival_def)
  obtain t' where t': "deliver_signal_unlocked False sig info t = Some t'" by (rule deliver_spec[OF r(1)])
  have "sig_ok t'" using deliver_ok[OF r(1) _ t'] t by (simp add: quiet_def)
  moreover have "\<not> is_signal_pending t'" using t r(2) deliver_Some(2,3)[OF t' r(1)] by (auto simp: quiet_def sig_pending_iff)
  ultimately show "\<exists>t'. (case a of (sig, info) \<Rightarrow> deliver_signal_unlocked False sig info t) = Some t' \<and> quiet b t'"
    using t' t deliver_Some(3)[OF t' r(1)] by (simp add: e quiet_def)
qed

lemma arrive_quiet:
  "quiet b t \<Longrightarrow> \<forall>a \<in> set xs. held_arrival b a \<Longrightarrow> \<exists>t'. arrive xs t = Some t' \<and> quiet b t'"
  unfolding arrive_def by (rule held.run_total)

lemma sigwait_quiet:
  assumes "quiet b t" "\<forall>w \<in> set ws. \<forall>a \<in> set (arrivals w). held_arrival b a"
  shows "\<exists>t'. sigwait_loop False ws t = Asleep t'"
  using assms
proof (induction ws arbitrary: t)
  case Nil
  then have "wait_for False [] t = Asleep t" by (simp add: wait_for_def quiet_def)
  then show ?case by (subst sigwait_loop.simps) simp
next
  case (Cons w ws)
  have v: "\<forall>a \<in> set (arrivals w). held_arrival b a" "\<forall>w \<in> set ws. \<forall>a \<in> set (arrivals w). held_arrival b a"
    using Cons.prems(2) by simp_all
  obtain t1 where t1: "arrive (arrivals w) t = Some t1" "quiet b t1"
    using arrive_quiet[OF Cons.prems(1) v(1)] by blast
  have "\<not> is_signal_pending t" "\<not> is_signal_pending t1" using Cons.prems(1) t1(2) by (simp_all add: quiet_def)
  then have "wait_for False (w # ws) t = Awake (0, ws, t1)" using t1(1) by (simp add: wait_for_def)
  then show ?case using Cons.IH[OF t1(2) v(2)] by (subst sigwait_loop.simps) simp
qed

text \<open>
  Claim C33. Waiting for signals that are blocked, which is how \<^verbatim>\<open>sigtimedwait\<close> is meant to be used, never returns:
  without a timeout the call is still asleep after any number of wake-ups, although each brings signals of the
  set, because \<^verbatim>\<open>wait_for\<close> looks only for signals that are not blocked.
\<close>

theorem sigtimedwait_never_wakes:
  assumes "sig_ok t" "\<not> is_signal_pending t" "t_waiting t = 0"
    "\<forall>w \<in> set ws. \<forall>(sig, info) \<in> set (arrivals w). sig_range sig \<and> holds_sig (t_blocked t) sig"
  shows "\<exists>t'. sigtimedwait ss False ws t = Asleep t'"
proof -
  have q: "quiet (t_blocked t) (t\<lparr>t_waiting := ss\<rparr>)"
    using assms(1,2) by (simp add: quiet_def is_signal_pending_def sig_ok_cong[of "t\<lparr>t_waiting := ss\<rparr>" t])
  have "\<forall>w \<in> set ws. \<forall>a \<in> set (arrivals w). held_arrival (t_blocked t) a"
    using assms(4) by (simp add: held_arrival_def case_prod_beta)
  then obtain t' where "sigwait_loop False ws (t\<lparr>t_waiting := ss\<rparr>) = Asleep t'"
    using sigwait_quiet[OF q] by blast
  then show ?thesis using assms(3) by (simp add: sigtimedwait_def)
qed

definition fresh_task :: stask where
  "fresh_task = \<lparr>t_blocked = 0, t_pending = 0, t_waiting = 0, t_queue = [], t_saved_mask = 0,
     t_has_saved_mask = False, t_zombie = False, t_exiting = False, t_woken = False\<rparr>"

lemma fresh_task_ok: "sig_ok fresh_task"
  by (simp add: sig_ok_def fresh_task_def queued_def)

theorem sigtimedwait_never_wakes_witness:
  "\<exists>t'. sigtimedwait 2 False [Wake [(2, SIGINFO_NIL)] False, Wake [(2, SIGINFO_NIL)] False]
     (fresh_task\<lparr>t_blocked := 2\<rparr>) = Asleep t'"
proof -
  have "sig_ok (fresh_task\<lparr>t_blocked := 2\<rparr>)" using fresh_task_ok sig_ok_cong[of "fresh_task\<lparr>t_blocked := 2\<rparr>" fresh_task] by simp
  then show ?thesis
    using sigtimedwait_never_wakes[of "fresh_task\<lparr>t_blocked := 2\<rparr>" "[Wake [(2, SIGINFO_NIL)] False, Wake [(2, SIGINFO_NIL)] False]" 2]
    by (simp add: is_signal_pending_def fresh_task_def sig_range_def holds_sig_def)
qed

section \<open>What a wait takes\<close>

definition valid_arrival :: "int \<times> siginfo \<Rightarrow> bool" where
  "valid_arrival a \<longleftrightarrow> sig_range (fst a)"

interpretation arriving: total_calls sig_ok valid_arrival "\<lambda>t (sig, info). deliver_signal_unlocked False sig info t"
proof unfold_locales
  fix t and a :: "int \<times> siginfo"
  assume t: "sig_ok t" and a: "valid_arrival a"
  obtain sig info where e: "a = (sig, info)" by force
  have r: "sig_range sig" using a by (simp add: e valid_arrival_def)
  obtain t' where "deliver_signal_unlocked False sig info t = Some t'" by (rule deliver_spec[OF r])
  with deliver_ok[OF r t] show "\<exists>t'. (case a of (sig, info) \<Rightarrow> deliver_signal_unlocked False sig info t) = Some t' \<and> sig_ok t'"
    by (auto simp: e)
qed

lemma arrive_ok: "sig_ok t \<Longrightarrow> \<forall>a \<in> set xs. valid_arrival a \<Longrightarrow> \<exists>t'. arrive xs t = Some t' \<and> sig_ok t'"
  unfolding arrive_def by (rule arriving.run_total)

lemma wait_for_ok:
  assumes "sig_ok t" "\<forall>w \<in> set ws. \<forall>a \<in> set (arrivals w). valid_arrival a"
  shows "wait_for timed ws t = Asleep t
     \<or> (\<exists>r ws' t'. wait_for timed ws t = Awake (r, ws', t') \<and> sig_ok t' \<and> set ws' \<subseteq> set ws)"
proof (cases ws)
  case Nil
  then show ?thesis using assms(1) by (simp add: wait_for_def)
next
  case (Cons w ws1)
  have "\<forall>a \<in> set (arrivals w). valid_arrival a" using assms(2) Cons by simp
  then obtain t1 where "arrive (arrivals w) t = Some t1" "sig_ok t1"
    using arrive_ok[OF assms(1)] by blast
  with Cons assms(1) show ?thesis by (simp add: wait_for_def subset_insertI)
qed

lemma sigwait_loop_ok:
  assumes "sig_ok t" "\<forall>w \<in> set ws. \<forall>a \<in> set (arrivals w). valid_arrival a"
    "sigwait_loop timed ws t = Awake (r, t')"
  shows "sig_ok t'"
  using assms
proof (induction timed ws t rule: sigwait_loop.induct)
  case (1 timed ws t)
  from wait_for_ok[OF "1.prems"(1,2), of timed] show ?case
  proof (elim disjE exE conjE)
    assume "wait_for timed ws t = Asleep t"
    with "1.prems"(3) show ?case by (simp add: sigwait_loop.simps[of timed ws t])
  next
    fix q ws1 t1 assume w: "wait_for timed ws t = Awake (q, ws1, t1)" "sig_ok t1" "set ws1 \<subseteq> set ws"
    show ?case
    proof (cases "q = 0")
      case True
      have "sigwait_loop timed ws1 t1 = Awake (r, t')"
        using "1.prems"(3) w(1) True by (simp add: sigwait_loop.simps[of timed ws t])
      moreover have "\<forall>w \<in> set ws1. \<forall>a \<in> set (arrivals w). valid_arrival a" using "1.prems"(2) w(3) by blast
      ultimately show ?thesis using "1.IH"[OF w(1) refl refl True w(2)] by blast
    next
      case False
      then show ?thesis using "1.prems"(3) w by (simp add: sigwait_loop.simps[of timed ws t])
    qed
  qed
qed

lemma take_queued_split:
  "take_queued ss q = Some (Some i, q') \<Longrightarrow> \<exists>ys zs. q = ys @ i # zs \<and> q' = ys @ zs \<and> holds_sig ss (si_signo i)"
proof (induction q arbitrary: q')
  case (Cons j q)
  then obtain b where b: "sigset_has ss (si_signo j) = Some b" by (cases "sigset_has ss (si_signo j)") auto
  show ?case
  proof (cases b)
    case True
    with Cons.prems b show ?thesis using sigset_has_SomeD[OF b] by (intro exI[of _ "[]"] exI[of _ q]) auto
  next
    case False
    then obtain q2 where "take_queued ss q = Some (Some i, q2)" "q' = j # q2"
      using Cons.prems b by (auto split: Option.bind_splits)
    with Cons.IH obtain ys zs where "q = ys @ i # zs" "q' = j # ys @ zs" "holds_sig ss (si_signo i)" by blast
    then show ?thesis by (intro exI[of _ "j # ys"] exI[of _ zs]) simp
  qed
qed simp

text \<open>
  A standard signal that \<^verbatim>\<open>sigtimedwait\<close> has taken is lost for ever: it leaves the queue but stays in the
  pending set, so every later signal of that number is dropped as already pending.
\<close>

theorem sigtimedwait_loses_signal:
  assumes "sig_ok t" "\<forall>w \<in> set ws. \<forall>(s, info) \<in> set (arrivals w). sig_range s"
    "sigtimedwait ss timed ws t = Awake (sig, Some i, t')" "sig < SIGRTMIN"
  shows "queued t' sig = 0 \<and> holds_sig (t_pending t') sig
     \<and> deliver_signal_unlocked self sig info t' = Some t'"
proof -
  have v: "\<forall>w \<in> set ws. \<forall>a \<in> set (arrivals w). valid_arrival a" using assms(2) by (fastforce simp: valid_arrival_def)
  have ok: "sig_ok (t\<lparr>t_waiting := ss\<rparr>)" using assms(1) sig_ok_cong[of "t\<lparr>t_waiting := ss\<rparr>" t] by simp
  obtain r t1 q where 1: "sigwait_loop timed ws (t\<lparr>t_waiting := ss\<rparr>) = Awake (r, t1)"
      "take_queued ss (t_queue t1) = Some (Some i, q)" "sig = si_signo i" "t' = t1\<lparr>t_waiting := 0, t_queue := q\<rparr>"
    using assms(3) by (auto simp: sigtimedwait_def Let_def split: if_splits waited.splits option.splits)
  have ok1: "sig_ok t1" by (rule sigwait_loop_ok[OF ok v 1(1)])
  obtain ys zs where q: "t_queue t1 = ys @ i # zs" "q = ys @ zs" using take_queued_split[OF 1(2)] by blast
  have rng: "sig_range sig" using sig_okD(1)[OF ok1] q(1) 1(3) by simp
  have "queued t1 sig = queued t' sig + 1" by (simp add: queued_def q 1(3,4))
  moreover have "queued t1 sig \<le> 1" using sig_okD(3)[OF ok1] assms(4) by blast
  ultimately have n: "queued t' sig = 0" "0 < queued t1 sig" by simp_all
  have p: "holds_sig (t_pending t') sig" using sig_okD(2)[OF ok1 rng] n(2) 1(4) by simp
  then have "deliver_signal_unlocked self sig info t' = Some t'"
    using rng assms(4) by (simp add: deliver_signal_unlocked_def)
  with n(1) p show ?thesis by blast
qed

theorem sigtimedwait_loses_signal_witness:
  "\<exists>i t'. sigtimedwait 2 False [Wake [(2, SIGINFO_NIL)] False] fresh_task = Awake (2, Some i, t')
     \<and> queued t' 2 = 0 \<and> deliver_signal_unlocked False 2 SIGINFO_NIL t' = Some t'"
proof -
  have "\<exists>i t'. sigtimedwait 2 False [Wake [(2, SIGINFO_NIL)] False] fresh_task = Awake (2, Some i, t')"
    by (simp add: sigtimedwait_def sigwait_loop.simps wait_for_def is_signal_pending_def fresh_task_def arrive_def
        deliver_signal_unlocked_def sigset_has_def sigset_add_def sig_mask_def Let_def)
  then obtain i t' where "sigtimedwait 2 False [Wake [(2, SIGINFO_NIL)] False] fresh_task = Awake (2, Some i, t')" by blast
  then show ?thesis
    using sigtimedwait_loses_signal[OF fresh_task_ok, of "[Wake [(2, SIGINFO_NIL)] False]" 2 False 2 i t' False SIGINFO_NIL]
    by (auto simp: sig_range_def)
qed

end
