(* ===== verification/Signal_Delivery.thy ===== *)
theory Signal_Delivery
  imports Signal_Frames Signal_Queue
begin

text \<open>
  What a thread's signals go through, over any sequence of sends, mask and action changes, deliveries and returns
  from handlers: the pending set agrees with the queue, delivery takes what the mask lets through, \<^verbatim>\<open>SIGKILL\<close>
  ends the process, and where it does not.
\<close>

unbundle bit_operations_syntax

lemma after_Returned [simp]: "after x f = Returned y \<longleftrightarrow> (\<exists>z. x = Returned z \<and> f z = Returned y)"
  by (cases x) auto

section \<open>One signal\<close>

lemma lock_hand_Returned [simp]: "lock_hand th = Returned th' \<longleftrightarrow> \<not> th_locked th \<and> th' = th\<lparr>th_locked := True\<rparr>"
  by (auto simp: lock_hand_def)

lemma deliver_self_locked [simp]: "th_locked th \<Longrightarrow> deliver_self sig info th = Deadlock"
  by (simp add: deliver_self_def lock_hand_def)

lemma syscall_restart_fields [simp]:
  "th_sig (syscall_restart a th) = th_sig th" "th_hand (syscall_restart a th) = th_hand th"
  "th_group (syscall_restart a th) = th_group th" "th_mem (syscall_restart a th) = th_mem th"
  "th_limit (syscall_restart a th) = th_limit th" "th_locked (syscall_restart a th) = th_locked th"
  "th_trampoline (syscall_restart a th) = th_trampoline th"
  "th_v8_aborting (syscall_restart a th) = th_v8_aborting th"
  by (simp_all add: syscall_restart_def Let_def)

text \<open>A handler that was entered: its frame is on the stack and its mask is in force.\<close>

definition entered :: "siginfo \<Rightarrow> sigaction \<Rightarrow> u64 \<Rightarrow> sigset \<Rightarrow> space option \<Rightarrow> thread \<Rightarrow> thread" where
  "entered i a sp b m th = enter_handler a (si_signo i)
     (th\<lparr>th_cpu := handler_cpu a (si_signo i) sp (th_cpu th), th_sig := (th_sig th)\<lparr>t_blocked := b\<rparr>, th_mem := m\<rparr>)"

lemma entered_fields [simp]:
  "th_sig (entered i a sp b m th) = (th_sig th)\<lparr>t_blocked := b\<rparr>" "th_group (entered i a sp b m th) = th_group th"
  "th_locked (entered i a sp b m th) = th_locked th" "th_mem (entered i a sp b m th) = m"
  "c_sp (th_cpu (entered i a sp b m th)) = sp" "c_pc (th_cpu (entered i a sp b m th)) = sa_handler a"
  by (simp_all add: entered_def enter_handler_def handler_cpu_def)

lemma call_handler_Returned:
  assumes "call_handler i a th0 = Returned th'" "th_locked th0"
  obtains th sp b m where "th = syscall_restart a th0" "sp = frame_sp a (th_hand th) (c_sp (th_cpu th))"
    "handler_mask a (si_signo i) (t_blocked (th_sig th0)) = Some b"
    "user_write_task (th_limit th) (th_mem th) (unat sp) (frame_bytes (handler_frame i sp th)) = Some (0, m)"
    "th' = entered i a sp b m th"
proof -
  define th where "th = syscall_restart a th0"
  define sp where "sp = frame_sp a (th_hand th) (c_sp (th_cpu th))"
  define w where "w = user_write_task (th_limit th) (th_mem th) (unat sp) (frame_bytes (handler_frame i sp th))"
  note d = assms(1)[unfolded call_handler_def Let_def, folded th_def, folded sp_def, folded w_def]
  have e: "t_blocked (th_sig th) = t_blocked (th_sig th0)" "th_locked th" using assms(2) by (simp_all add: th_def)
  obtain b where b: "handler_mask a (si_signo i) (t_blocked (th_sig th0)) = Some b"
    using d e(1) by (cases "handler_mask a (si_signo i) (t_blocked (th_sig th0))") auto
  obtain r m where rm: "w = Some (r, m)" using d b e(1) by (cases w) auto
  have r: "r = 0" using d b rm e by (cases "r = 0") auto
  show thesis
    using d b rm r e by (intro that[OF th_def sp_def b]) (auto simp: w_def[symmetric] entered_def)
qed

definition queue_same :: "thread \<Rightarrow> thread \<Rightarrow> bool" where
  "queue_same th th' \<longleftrightarrow> t_queue (th_sig th') = t_queue (th_sig th) \<and> t_pending (th_sig th') = t_pending (th_sig th)
     \<and> t_has_saved_mask (th_sig th') = t_has_saved_mask (th_sig th) \<and> th_locked th' = th_locked th"

lemma receive_signal_same:
  assumes "receive_signal i th = Returned th'" "th_locked th"
  shows "queue_same th th'"
proof -
  have "queue_same th th'" if "call_handler i a th = Returned th'" for a
    using assms(2) by (rule call_handler_Returned[OF that]) (simp add: queue_same_def)
  then show ?thesis
    using assms by (auto simp: receive_signal_def queue_same_def split: option.splits disposition.splits)
qed

section \<open>The walk over the queue\<close>

definition let_through :: "sigset \<Rightarrow> siginfo list \<Rightarrow> siginfo list" where
  "let_through b q = filter (\<lambda>i. holds_sig b (si_signo i)) q"

text \<open>One step of the walk, for a queue of real signals.\<close>

lemma receive_loop_step:
  assumes "sig_range (si_signo i)"
  obtains p where "sigset_del (t_pending (th_sig th)) (si_signo i) = Some p"
    "\<forall>s. sig_range s \<longrightarrow> holds_sig p s = (holds_sig (t_pending (th_sig th)) s \<and> s \<noteq> si_signo i)"
    "receive_loop b kept (i # rest) th =
       (if holds_sig b (si_signo i) then receive_loop b (kept @ [i]) rest th
        else after (receive_signal i (th\<lparr>th_sig := (th_sig th)\<lparr>t_queue := kept @ rest, t_pending := p\<rparr>\<rparr>))
          (receive_loop b kept rest))"
  using sigset_del_range[OF assms, of "t_pending (th_sig th)"] assms by (force split: bool.splits)

declare receive_loop.simps(2) [simp del]

lemma receive_loop_queue:
  assumes "receive_loop b kept rest th = Returned th'" "th_locked th" "t_queue (th_sig th) = kept @ rest"
    "\<forall>i \<in> set rest. sig_range (si_signo i)"
  shows "t_queue (th_sig th') = kept @ let_through b rest
     \<and> (\<forall>s. sig_range s \<longrightarrow> holds_sig (t_pending (th_sig th')) s
           = (holds_sig (t_pending (th_sig th)) s \<and> (holds_sig b s \<or> s \<notin> si_signo ` set rest)))
     \<and> t_has_saved_mask (th_sig th') = t_has_saved_mask (th_sig th) \<and> th_locked th'"
  using assms
proof (induction rest arbitrary: kept th)
  case Nil
  then show ?case by (simp add: let_through_def)
next
  case (Cons i rest)
  have rng: "sig_range (si_signo i)" "\<forall>i \<in> set rest. sig_range (si_signo i)" using Cons.prems(4) by simp_all
  obtain p where p: "\<forall>s. sig_range s \<longrightarrow> holds_sig p s = (holds_sig (t_pending (th_sig th)) s \<and> s \<noteq> si_signo i)"
      "receive_loop b kept (i # rest) th =
       (if holds_sig b (si_signo i) then receive_loop b (kept @ [i]) rest th
        else after (receive_signal i (th\<lparr>th_sig := (th_sig th)\<lparr>t_queue := kept @ rest, t_pending := p\<rparr>\<rparr>))
          (receive_loop b kept rest))"
    by (rule receive_loop_step[OF rng(1)])
  show ?case
  proof (cases "holds_sig b (si_signo i)")
    case True
    then have "receive_loop b (kept @ [i]) rest th = Returned th'" using Cons.prems(1) p(2) by simp
    from Cons.IH[OF this Cons.prems(2) _ rng(2)] Cons.prems(3) True show ?thesis by (auto simp: let_through_def)
  next
    case False
    let ?th = "th\<lparr>th_sig := (th_sig th)\<lparr>t_queue := kept @ rest, t_pending := p\<rparr>\<rparr>"
    obtain th1 where th1: "receive_signal i ?th = Returned th1" "receive_loop b kept rest th1 = Returned th'"
      using Cons.prems(1) p(2) False by auto
    have q: "queue_same ?th th1" by (rule receive_signal_same[OF th1(1)]) (simp add: Cons.prems(2))
    then have "th_locked th1" "t_queue (th_sig th1) = kept @ rest" "t_pending (th_sig th1) = p"
        "t_has_saved_mask (th_sig th1) = t_has_saved_mask (th_sig th)"
      using Cons.prems(2) by (simp_all add: queue_same_def)
    with Cons.IH[OF th1(2) _ _ rng(2)] p(1) False show ?thesis by (auto simp: let_through_def)
  qed
qed

lemma receive_signals_Returned:
  assumes "receive_signals th = Returned (n, th')"
  obtains th1 where "\<not> th_locked th"
    "receive_loop (receive_mask (th_sig th)) [] (t_queue (th_sig th))
       (th\<lparr>th_locked := True, th_sig := drop_saved_mask (th_sig th)\<rparr>) = Returned th1"
    "n = (\<not> g_stopped (th_group th) \<and> g_stopped (th_group th1))" "th' = unlock_hand th1"
  using assms that by (auto simp: receive_signals_def)

lemma drop_saved_fields [simp]:
  "t_queue (drop_saved_mask t) = t_queue t" "t_pending (drop_saved_mask t) = t_pending t"
  "\<not> t_has_saved_mask (drop_saved_mask t)" "t_zombie (drop_saved_mask t) = t_zombie t"
  "t_exiting (drop_saved_mask t) = t_exiting t"
  by (simp_all add: drop_saved_mask_def)

lemma let_through_count: "count_list (map si_signo (let_through b q)) s
    = (if holds_sig b s then count_list (map si_signo q) s else 0)"
  by (induction q) (auto simp: let_through_def)

lemma receive_signals_queue:
  assumes "receive_signals th = Returned (n, th')" "sig_ok (th_sig th)"
  shows "t_queue (th_sig th') = let_through (receive_mask (th_sig th)) (t_queue (th_sig th))
     \<and> sig_ok (th_sig th') \<and> \<not> th_locked th' \<and> \<not> t_has_saved_mask (th_sig th')"
proof (rule receive_signals_Returned[OF assms(1)])
  let ?b = "receive_mask (th_sig th)" let ?q = "t_queue (th_sig th)"
  fix th1
  assume r: "receive_loop ?b [] ?q (th\<lparr>th_locked := True, th_sig := drop_saved_mask (th_sig th)\<rparr>) = Returned th1"
    and th': "th' = unlock_hand th1"
  have l: "t_queue (th_sig th1) = let_through ?b ?q"
      "\<forall>s. sig_range s \<longrightarrow> holds_sig (t_pending (th_sig th1)) s
           = (holds_sig (t_pending (th_sig th)) s \<and> (holds_sig ?b s \<or> s \<notin> si_signo ` set ?q))"
      "\<not> t_has_saved_mask (th_sig th1)"
    using receive_loop_queue[OF r] sig_okD(1)[OF assms(2)] by simp_all
  have n: "queued (th_sig th1) s = (if holds_sig ?b s then queued (th_sig th) s else 0)" for s
    by (simp add: queued_def l(1) let_through_count)
  have z: "s \<in> si_signo ` set ?q \<longleftrightarrow> 0 < queued (th_sig th) s" for s
    by (metis count_list_pos_iff image_set queued_def)
  have "sig_ok (th_sig th1)"
    unfolding sig_ok_def
    using sig_okD[OF assms(2)] by (auto simp: n l(1,2) z let_through_def)
  then show ?thesis using l by (simp add: th' unlock_hand_def)
qed

section \<open>Runs\<close>

text \<open>
  What happens to a running thread: another thread or itself sends it a signal, it changes its mask or an action,
  suspends with a mask, receives its signals, or returns from a handler.
\<close>

datatype sig_event =
    Send bool int siginfo | Procmask u32 sigset | Action int sigaction | Suspend sigset | Receive | Sigreturn

definition send_to :: "bool \<Rightarrow> int \<Rightarrow> siginfo \<Rightarrow> thread \<Rightarrow> thread outcome" where
  "send_to self sig info th =
     (case send_signal False self sig info (Some (th_hand th)) (th_sig th, th_group th) of
        None \<Rightarrow> Undefined
      | Some (t, g) \<Rightarrow> Returned (th\<lparr>th_sig := t, th_group := g\<rparr>))"

definition act_on :: "int \<Rightarrow> sigaction \<Rightarrow> thread \<Rightarrow> thread outcome" where
  "act_on sig a th =
     (case do_sigaction sig (Some a) False (th_hand th) of
        None \<Rightarrow> Undefined
      | Some (r, old, sh) \<Rightarrow> Returned (th\<lparr>th_hand := sh\<rparr>))"

fun sig_step :: "sig_event \<Rightarrow> thread \<Rightarrow> thread outcome" where
  "sig_step (Send self sig info) th = send_to self sig info th"
| "sig_step (Procmask how ss) th = Returned (th\<lparr>th_sig := snd (do_sigprocmask how ss (th_sig th))\<rparr>)"
| "sig_step (Action sig a) th = act_on sig a th"
| "sig_step (Suspend ss) th = Returned (th\<lparr>th_sig := sigmask_set_temp ss (th_sig th)\<rparr>)"
| "sig_step Receive th = after (receive_signals th) (\<lambda>(n, th'). Returned th')"
| "sig_step Sigreturn th = after (sys_rt_sigreturn th) (\<lambda>(r, th'). Returned th')"

fun sig_run :: "sig_event list \<Rightarrow> thread \<Rightarrow> thread outcome" where
  "sig_run [] th = Returned th"
| "sig_run (e # es) th = after (sig_step e th) (sig_run es)"

lemma sig_run_append: "sig_run (es @ fs) th = after (sig_run es th) (sig_run fs)"
proof (induction es arbitrary: th)
  case (Cons e es)
  then show ?case by (cases "sig_step e th") simp_all
qed simp

text \<open>Well-formed: the pending mask agrees with the queue, the table has an action per signal, no lock is held.\<close>

definition thread_ok :: "thread \<Rightarrow> bool" where
  "thread_ok th \<longleftrightarrow> sig_ok (th_sig th) \<and> length (sh_action (th_hand th)) = NUM_SIGS \<and> \<not> th_locked th"

text \<open>What can block \<^verbatim>\<open>SIGKILL\<close> and \<^verbatim>\<open>SIGSTOP\<close>: nothing.\<close>

definition clean :: "sigset \<Rightarrow> bool" where "clean b \<longleftrightarrow> \<not> holds_sig b SIGKILL \<and> \<not> holds_sig b SIGSTOP"

definition clean_actions :: "sighand \<Rightarrow> bool" where
  "clean_actions sh \<longleftrightarrow> (\<forall>a \<in> set (sh_action sh). clean (sa_mask a))"

definition clean_masks :: "stask \<Rightarrow> bool" where
  "clean_masks t \<longleftrightarrow> clean (t_blocked t) \<and> (t_has_saved_mask t \<longrightarrow> clean (t_saved_mask t))"

lemma kill_stop_range [simp]: "sig_range SIGKILL" "sig_range SIGSTOP"
  by (simp_all add: sig_range_def)

lemma clean_set [simp]: "clean (ss AND NOT UNBLOCKABLE_MASK)"
  by (simp add: clean_def signal_is_blockable_def)

lemma clean_or [simp]: "clean (a OR b) \<longleftrightarrow> clean a \<and> clean b"
  by (auto simp: clean_def)

lemma clean_0 [simp]: "clean 0"
  by (simp add: clean_def)

lemma no_action_clean [simp]: "clean (sa_mask no_action)"
  by (simp add: no_action_def)

lemma clean_set_action [intro]: "clean_actions sh \<Longrightarrow> clean (sa_mask a) \<Longrightarrow> clean_actions (sh\<lparr>sh_action := (sh_action sh)[n := a]\<rparr>)"
  by (auto simp: clean_actions_def dest!: set_update_subset_insert[THEN subsetD])

lemma action_of_mem: "action_of sh sig = Some a \<Longrightarrow> a \<in> set (sh_action sh)"
  by (auto simp: action_of_def split: if_splits)

lemma handler_blockable: "signal_action sh sig = Some SIGNAL_CALL_HANDLER \<Longrightarrow> signal_is_blockable sig"
  by (auto simp: signal_action_def default_action_def split: if_splits)

definition hand_same :: "thread \<Rightarrow> thread \<Rightarrow> bool" where
  "hand_same th th' \<longleftrightarrow> length (sh_action (th_hand th')) = length (sh_action (th_hand th))
     \<and> (clean_actions (th_hand th) \<longrightarrow> clean_actions (th_hand th')
          \<and> (clean_masks (th_sig th) \<longrightarrow> clean_masks (th_sig th')))"

lemma handler_mask_clean:
  assumes "handler_mask a sig b = Some b'" "signal_is_blockable sig" "clean b" "clean (sa_mask a)"
  shows "clean b'"
proof (cases "sa_flags a AND SA_NODEFER = 0")
  case True
  then obtain p where p: "sigset_add b sig = Some p" "b' = p OR sa_mask a"
    using assms(1) by (auto simp: handler_mask_def split: Option.bind_splits)
  have "clean p"
    using sigset_add_range[OF sigset_add_SomeD[OF p(1)], of b] assms(2,3) p(1)
    by (auto simp: clean_def signal_is_blockable_def)
  with p assms(4) show ?thesis by simp
next
  case False
  then show ?thesis using assms by (auto simp: handler_mask_def)
qed

lemma receive_signal_hand:
  assumes "receive_signal i th = Returned th'" "th_locked th"
  shows "hand_same th th'"
proof (cases "signal_action (th_hand th) (si_signo i) = Some SIGNAL_CALL_HANDLER")
  case False
  then show ?thesis using assms by (auto simp: receive_signal_def hand_same_def split: option.splits disposition.splits)
next
  case True
  then obtain a where a: "action_of (th_hand th) (si_signo i) = Some a" "call_handler i a th = Returned th'"
    using assms by (auto simp: receive_signal_def split: option.splits)
  show ?thesis
  proof (rule call_handler_Returned[OF a(2) assms(2)])
    fix th1 sp b m
    assume h: "th1 = syscall_restart a th" "handler_mask a (si_signo i) (t_blocked (th_sig th)) = Some b"
      "th' = entered i a sp b m th1"
    have "clean b" if "clean_actions (th_hand th)" "clean (t_blocked (th_sig th))"
      using handler_mask_clean[OF h(2) handler_blockable[OF True] that(2)] action_of_mem[OF a(1)] that(1)
      by (simp add: clean_actions_def)
    then show ?thesis
      by (auto simp: hand_same_def h(1,3) clean_masks_def) (auto simp: entered_def enter_handler_def)
  qed
qed

lemma hand_same_trans: "hand_same a b \<Longrightarrow> hand_same b c \<Longrightarrow> hand_same a c"
  by (auto simp: hand_same_def)

lemma hand_same_queue: "hand_same (th\<lparr>th_sig := (th_sig th)\<lparr>t_queue := q, t_pending := p\<rparr>\<rparr>) th' = hand_same th th'"
  by (simp add: hand_same_def clean_masks_def)

lemma receive_loop_hand:
  assumes "receive_loop b kept rest th = Returned th'" "th_locked th" "\<forall>i \<in> set rest. sig_range (si_signo i)"
  shows "hand_same th th'"
  using assms
proof (induction rest arbitrary: kept th)
  case Nil
  then show ?case by (simp add: hand_same_def)
next
  case (Cons i rest)
  have rng: "sig_range (si_signo i)" "\<forall>i \<in> set rest. sig_range (si_signo i)" using Cons.prems(3) by simp_all
  obtain p where p: "receive_loop b kept (i # rest) th =
       (if holds_sig b (si_signo i) then receive_loop b (kept @ [i]) rest th
        else after (receive_signal i (th\<lparr>th_sig := (th_sig th)\<lparr>t_queue := kept @ rest, t_pending := p\<rparr>\<rparr>))
          (receive_loop b kept rest))"
    by (rule receive_loop_step[OF rng(1)])
  show ?case
  proof (cases "holds_sig b (si_signo i)")
    case True
    then show ?thesis using Cons.IH[of "kept @ [i]" th] Cons.prems(1,2) rng(2) p by simp
  next
    case False
    let ?th = "th\<lparr>th_sig := (th_sig th)\<lparr>t_queue := kept @ rest, t_pending := p\<rparr>\<rparr>"
    obtain th1 where th1: "receive_signal i ?th = Returned th1" "receive_loop b kept rest th1 = Returned th'"
      using Cons.prems(1)[unfolded p] False by auto
    have l: "th_locked ?th" using Cons.prems(2) by simp
    have "th_locked th1" using receive_signal_same[OF th1(1) l] l by (simp add: queue_same_def)
    with Cons.IH[OF th1(2) _ rng(2)] have "hand_same th1 th'" by blast
    moreover have "hand_same th th1" using receive_signal_hand[OF th1(1) l] by (simp only: hand_same_queue)
    ultimately show ?thesis by (rule hand_same_trans[rotated])
  qed
qed

text \<open>A \<^verbatim>\<open>SIGKILL\<close> that the mask lets through ends the walk.\<close>

lemma receive_kill: "si_signo i = SIGKILL \<Longrightarrow> receive_signal i th = Exits (kill_status SIGKILL th)"
  by (simp add: receive_signal_def signal_action_def signal_is_blockable_def default_action_def)

lemma receive_loop_kill:
  assumes "\<exists>i \<in> set rest. si_signo i = SIGKILL" "\<not> holds_sig b SIGKILL" "\<forall>i \<in> set rest. sig_range (si_signo i)"
  shows "receive_loop b kept rest th \<noteq> Returned th'"
  using assms
proof (induction rest arbitrary: kept th)
  case (Cons i rest)
  have rng: "sig_range (si_signo i)" using Cons.prems(3) by simp
  obtain p where p: "receive_loop b kept (i # rest) th =
       (if holds_sig b (si_signo i) then receive_loop b (kept @ [i]) rest th
        else after (receive_signal i (th\<lparr>th_sig := (th_sig th)\<lparr>t_queue := kept @ rest, t_pending := p\<rparr>\<rparr>))
          (receive_loop b kept rest))"
    by (rule receive_loop_step[OF rng])
  show ?case
  proof (cases "si_signo i = SIGKILL")
    case True
    then show ?thesis using Cons.prems(2) by (simp add: p receive_kill)
  next
    case False
    then show ?thesis using Cons by (simp add: p)
  qed
qed simp

section \<open>Every step\<close>

text \<open>Events with real signal numbers, and events that install no mask with \<^verbatim>\<open>SIGKILL\<close> or \<^verbatim>\<open>SIGSTOP\<close> in it.\<close>

fun valid_event :: "sig_event \<Rightarrow> bool" where
  "valid_event (Send self sig info) = (0 \<le> sig \<and> sig \<le> 64)"
| "valid_event _ = True"

fun clean_event :: "sig_event \<Rightarrow> bool" where
  "clean_event (Action sig a) = clean (sa_mask a)"
| "clean_event _ = True"

definition clean_thread :: "thread \<Rightarrow> bool" where
  "clean_thread th \<longleftrightarrow> clean_actions (th_hand th) \<and> clean_masks (th_sig th)"

lemma send_signal_cases:
  assumes "send_signal off self sig info (Some h) (t, g) = Some (t', g')" "0 \<le> sig" "sig \<le> 64"
  shows "t' = t \<or> (sig_range sig \<and> deliver_signal_unlocked self sig info t = Some t')"
  using assms by (auto simp: send_signal_def sig_range_def split: if_splits Option.bind_splits)

lemma deliver_masks:
  assumes "deliver_signal_unlocked self sig info t = Some t'" "sig_range sig"
  shows "clean_masks t' = clean_masks t"
  using deliver_Some(3-5)[OF assms] by (simp add: clean_masks_def)

lemma send_to_ok:
  assumes "send_to self sig info th = Returned th'" "0 \<le> sig" "sig \<le> 64" "thread_ok th"
  shows "thread_ok th' \<and> (clean_thread th \<longrightarrow> clean_thread th')"
proof -
  obtain t g where s: "send_signal False self sig info (Some (th_hand th)) (th_sig th, th_group th) = Some (t, g)"
      "th' = th\<lparr>th_sig := t, th_group := g\<rparr>"
    using assms(1) by (auto simp: send_to_def split: option.splits)
  from send_signal_cases[OF s(1) assms(2,3)] have "sig_ok t \<and> clean_masks t = clean_masks (th_sig th)"
    using deliver_ok deliver_masks assms(4) by (auto simp: thread_ok_def)
  then show ?thesis using assms(4) by (simp add: s(2) thread_ok_def clean_thread_def)
qed

lemma receive_ok:
  assumes "receive_signals th = Returned (n, th')" "thread_ok th"
  shows "thread_ok th' \<and> (clean_thread th \<longrightarrow> clean_thread th')"
proof (rule receive_signals_Returned[OF assms(1)])
  have ok: "sig_ok (th_sig th)" using assms(2) by (simp add: thread_ok_def)
  fix th1
  assume r: "receive_loop (receive_mask (th_sig th)) [] (t_queue (th_sig th))
      (th\<lparr>th_locked := True, th_sig := drop_saved_mask (th_sig th)\<rparr>) = Returned th1" and th': "th' = unlock_hand th1"
  have h: "hand_same (th\<lparr>th_locked := True, th_sig := drop_saved_mask (th_sig th)\<rparr>) th1"
    by (rule receive_loop_hand[OF r]) (simp_all add: sig_okD(1)[OF ok])
  have "clean_masks (drop_saved_mask t)" if "clean_masks t" for t
    using that by (simp add: drop_saved_mask_def clean_masks_def)
  with h have "length (sh_action (th_hand th')) = length (sh_action (th_hand th))
      \<and> (clean_thread th \<longrightarrow> clean_thread th')"
    by (auto simp: hand_same_def clean_thread_def th' unlock_hand_def)
  then show ?thesis using receive_signals_queue[OF assms(1) ok] assms(2) by (auto simp: thread_ok_def)
qed

lemma sigmask_set_saved [simp]:
  "t_has_saved_mask (sigmask_set ss t) = t_has_saved_mask t" "t_saved_mask (sigmask_set ss t) = t_saved_mask t"
  "clean (t_blocked (sigmask_set ss t))"
  by (simp_all add: sigmask_set_def)

lemma sigmask_set_clean: "clean_masks t \<Longrightarrow> clean_masks (sigmask_set ss t)"
  by (simp add: clean_masks_def)

lemma sigreturn_cases:
  assumes "sys_rt_sigreturn th = Returned (r, th')"
  obtains (fault) m where "deliver_self SIGSEGV SIGINFO_NIL (th\<lparr>th_mem := m\<rparr>) = Returned th'"
  | (frame) bs m sh where "user_read_task (th_limit th) (th_mem th) (unat (c_sp (th_cpu th))) FRAME_SIZE = Some (0, bs, m)"
    "sh_action sh = sh_action (th_hand th)" "\<not> th_locked th"
    "th' = th\<lparr>th_mem := m, th_cpu := restore_sigcontext (frame_mcontext bs) (th_cpu th), th_hand := sh,
       th_sig := sigmask_set (frame_sigmask bs) (th_sig th), th_locked := False\<rparr>"
proof -
  obtain q bs m where q: "user_read_task (th_limit th) (th_mem th) (unat (c_sp (th_cpu th))) FRAME_SIZE = Some (q, bs, m)"
    using assms by (auto simp: sys_rt_sigreturn_def Let_def split: option.splits)
  show thesis
  proof (cases "q = 0")
    case True
    define sh where "sh = (if \<not> is_on_altstack (c_sp (th_cpu th)) (th_hand th) \<and> ss_size (frame_stack bs) \<ge> MINSIGSTKSZ
        then (th_hand th)\<lparr>sh_altstack := ss_sp (frame_stack bs), sh_altstack_size := ucast (ss_size (frame_stack bs))\<rparr>
        else th_hand th)"
    have "sh_action sh = sh_action (th_hand th)" by (simp add: sh_def)
    with assms q True show thesis
      by (intro frame[of bs m sh]) (simp_all add: sys_rt_sigreturn_def Let_def unlock_hand_def sh_def[symmetric])
  next
    case False
    with assms q show thesis by (intro fault[of m]) (simp add: sys_rt_sigreturn_def Let_def)
  qed
qed

lemma deliver_self_ok:
  assumes "deliver_self sig info th = Returned th'" "sig_range sig" "thread_ok th"
  shows "thread_ok th' \<and> (clean_thread th \<longrightarrow> clean_thread th')"
proof -
  obtain t where t: "deliver_signal_unlocked True sig info (th_sig th) = Some t"
      "th' = unlock_hand (th\<lparr>th_locked := True, th_sig := t\<rparr>)"
    using assms(1) by (auto simp: deliver_self_def split: option.splits)
  then show ?thesis
    using deliver_ok[OF assms(2) _ t(1)] deliver_masks[OF t(1) assms(2)] assms(3)
    by (simp add: thread_ok_def clean_thread_def unlock_hand_def)
qed

lemma sigreturn_ok:
  assumes "sys_rt_sigreturn th = Returned (r, th')" "thread_ok th"
  shows "thread_ok th' \<and> (clean_thread th \<longrightarrow> clean_thread th')"
  using assms(1)
proof (cases rule: sigreturn_cases)
  case (fault m)
  have "thread_ok (th\<lparr>th_mem := m\<rparr>)" "clean_thread (th\<lparr>th_mem := m\<rparr>) = clean_thread th"
    using assms(2) by (simp_all add: thread_ok_def clean_thread_def)
  with deliver_self_ok[OF fault] show ?thesis by (simp add: sig_range_def)
next
  case (frame bs m sh)
  then show ?thesis
    using assms(2) by (auto simp: thread_ok_def clean_thread_def clean_actions_def intro: sigmask_set_clean)
qed

lemma act_on_ok:
  assumes "act_on sig a th = Returned th'" "thread_ok th"
  shows "thread_ok th' \<and> (clean_thread th \<and> clean (sa_mask a) \<longrightarrow> clean_thread th')"
proof -
  have "th' = th \<or> th' = th\<lparr>th_hand := (th_hand th)\<lparr>sh_action := (sh_action (th_hand th))[nat sig := a]\<rparr>\<rparr>"
    using assms(1) by (auto simp: act_on_def do_sigaction_def split: if_splits option.splits Option.bind_splits)
  then show ?thesis using assms(2) by (auto simp: thread_ok_def clean_thread_def)
qed

lemma do_sigprocmask_clean: "clean_masks t \<Longrightarrow> clean_masks (snd (do_sigprocmask how ss t))"
  by (simp add: do_sigprocmask_def sigmask_set_clean)

lemma sigmask_set_temp_clean: "clean_masks t \<Longrightarrow> clean_masks (sigmask_set_temp ss t)"
  unfolding sigmask_set_temp_def by (intro sigmask_set_clean) (simp add: clean_masks_def)

lemma sig_step_ok:
  assumes "sig_step e th = Returned th'" "valid_event e" "thread_ok th"
  shows "thread_ok th' \<and> (clean_thread th \<and> clean_event e \<longrightarrow> clean_thread th')"
proof (cases e)
  case (Send self sig info)
  then show ?thesis using send_to_ok[of self sig info th th'] assms by simp
next
  case (Action sig a)
  then show ?thesis using act_on_ok[of sig a th th'] assms by simp
next
  case Receive
  then show ?thesis using receive_ok assms by auto
next
  case Sigreturn
  then show ?thesis using sigreturn_ok assms by auto
qed (use assms in \<open>auto simp: thread_ok_def clean_thread_def intro: do_sigprocmask_clean sigmask_set_temp_clean\<close>)

lemma sig_run_ok:
  assumes "sig_run es th = Returned th'" "\<forall>e \<in> set es. valid_event e" "thread_ok th"
  shows "thread_ok th' \<and> (clean_thread th \<and> (\<forall>e \<in> set es. clean_event e) \<longrightarrow> clean_thread th')"
  using assms
proof (induction es arbitrary: th)
  case (Cons e es)
  then obtain th1 where 1: "sig_step e th = Returned th1" "sig_run es th1 = Returned th'" by auto
  from sig_step_ok[OF 1(1)] Cons.IH[OF 1(2)] Cons.prems(2,3) show ?case by auto
qed simp

end
