(* ===== verification/Signal_Return.thy ===== *)
theory Signal_Return
  imports Signal_Delivery User_Props
begin

text \<open>
  Frames as bytes, and the way into a handler and back: what delivery puts on the guest's stack is what
  \<^verbatim>\<open>rt_sigreturn\<close> reads from it.
\<close>

unbundle bit_operations_syntax

section \<open>The layout\<close>

lemma cut_length [simp]: "off + n \<le> length bs \<Longrightarrow> length (cut off n bs) = n"
  by (simp add: cut_def)

lemma cut_skip: "length xs \<le> off \<Longrightarrow> cut off n (xs @ bs) = cut (off - length xs) n bs"
  by (simp add: cut_def)

lemma cut_here: "length xs = n \<Longrightarrow> cut 0 n (xs @ bs) = xs"
  by (simp add: cut_def)

lemma cut_all: "length xs = n \<Longrightarrow> cut 0 n xs = xs"
  by (simp add: cut_def)

text \<open>An array of words at \<open>off\<close>.\<close>

lemma cut_concat:
  assumes "\<forall>w \<in> set ws. length (f w) = k" "i < length ws"
  shows "cut (k * i) k (concat (map f ws) @ bs) = f (ws ! i)"
  using assms
proof (induction ws arbitrary: i)
  case (Cons w ws)
  show ?case
  proof (cases i)
    case 0
    then show ?thesis using Cons.prems by (simp add: cut_def)
  next
    case (Suc j)
    then have "cut (k * i) k (f w @ concat (map f ws) @ bs) = cut (k * j) k (concat (map f ws) @ bs)"
      using Cons.prems(1) by (subst cut_skip) auto
    with Suc Cons show ?thesis by simp
  qed
qed simp

lemma length_concat_words: "length (concat (map (word_bytes :: 'a::len word \<Rightarrow> byte list) ws)) = LENGTH('a) div 8 * length ws"
  by (induction ws) simp_all

lemma words_at:
  assumes "length xs = off" "length ws = n" "8 dvd LENGTH('a)" "k = LENGTH('a) div 8"
  shows "map (\<lambda>i. bytes_word (cut (off + k * i) k (xs @ concat (map word_bytes ws) @ bs))) [0..<n] = (ws :: 'a::len word list)"
proof (rule nth_equalityI)
  show "length (map (\<lambda>i. bytes_word (cut (off + k * i) k (xs @ concat (map word_bytes ws) @ bs))) [0..<n]) = length ws"
    using assms(2) by simp
  fix i assume i: "i < length (map (\<lambda>i. bytes_word (cut (off + k * i) k (xs @ concat (map word_bytes ws) @ bs)) :: 'a word) [0..<n])"
  then have "i < n" by simp
  have "cut (off + k * i) k (xs @ concat (map word_bytes ws) @ bs) = cut (k * i) k (concat (map word_bytes ws) @ bs)"
    using assms(1) by (subst cut_skip) simp_all
  also have "\<dots> = word_bytes (ws ! i)" using \<open>i < n\<close> assms(2,4) by (intro cut_concat) auto
  finally show "map (\<lambda>i. bytes_word (cut (off + k * i) k (xs @ concat (map word_bytes ws) @ bs))) [0..<n] ! i = ws ! i"
    using \<open>i < n\<close> assms(3) by simp
qed

definition cpu_ok :: "cpu \<Rightarrow> bool" where
  "cpu_ok c \<longleftrightarrow> length (c_regs c) = 31 \<and> length (c_fp c) = 32"

lemma length_fpsimd: "cpu_ok c \<Longrightarrow> length (fpsimd_bytes c) = 528"
  by (simp add: fpsimd_bytes_def cpu_ok_def length_concat_words)

lemma length_reserved: "cpu_ok c \<Longrightarrow> length (sc_reserved (setup_sigcontext c)) = 4096"
  by (simp add: setup_sigcontext_def length_fpsimd)

lemma length_sigcontext: "cpu_ok c \<Longrightarrow> length (sigcontext_bytes (setup_sigcontext c)) = 4376"
  using length_reserved[of c]
  by (simp add: sigcontext_bytes_def length_concat_words) (simp add: setup_sigcontext_def cpu_ok_def)

text \<open>A context that was set up, written and read restores the registers.\<close>

definition same_registers :: "cpu \<Rightarrow> cpu \<Rightarrow> bool" where
  "same_registers c c' \<longleftrightarrow> c_regs c' = c_regs c \<and> c_sp c' = c_sp c \<and> c_pc c' = c_pc c \<and> c_nzcv c' = c_nzcv c
     \<and> c_fpsr c' = c_fpsr c \<and> c_fpcr c' = c_fpcr c \<and> c_fp c' = c_fp c"

lemma sigcontext_roundtrip:
  assumes "cpu_ok c"
  shows "bytes_sigcontext (sigcontext_bytes (setup_sigcontext c)) = setup_sigcontext c"
proof -
  let ?s = "setup_sigcontext c"
  have regs: "length (sc_regs ?s) = 31" using assms by (simp add: setup_sigcontext_def cpu_ok_def)
  have res: "length (sc_reserved ?s) = 4096" by (rule length_reserved[OF assms])
  have l: "length (concat (map word_bytes (sc_regs ?s))) = 248" by (simp add: length_concat_words regs)
  have "map (\<lambda>i. bytes_word (cut (8 + 8 * i) 8 (sigcontext_bytes ?s))) [0..<31] = sc_regs ?s"
    unfolding sigcontext_bytes_def by (rule words_at) (simp_all add: regs)
  moreover have "cut 0 8 (sigcontext_bytes ?s) = word_bytes (sc_fault_address ?s)"
    "cut 256 8 (sigcontext_bytes ?s) = word_bytes (sc_sp ?s)" "cut 264 8 (sigcontext_bytes ?s) = word_bytes (sc_pc ?s)"
    "cut 272 8 (sigcontext_bytes ?s) = word_bytes (sc_pstate ?s)" "cut 280 4096 (sigcontext_bytes ?s) = sc_reserved ?s"
    unfolding sigcontext_bytes_def by (simp_all add: cut_skip cut_here cut_all l res)
  ultimately show ?thesis by (simp add: bytes_sigcontext_def)
qed

lemma restore_setup:
  assumes "cpu_ok c"
  shows "same_registers c (restore_sigcontext (setup_sigcontext c) c')"
proof -
  let ?s = "setup_sigcontext c"
  have s: "sc_regs ?s = c_regs c" "sc_sp ?s = c_sp c" "sc_pc ?s = c_pc c" "sc_pstate ?s = ucast (c_nzcv c)"
    by (simp_all add: setup_sigcontext_def)
  have r: "sc_reserved ?s = (word_bytes FPSIMD_MAGIC @ word_bytes (528 :: u32) @ word_bytes (c_fpsr c) @ word_bytes (c_fpcr c))
      @ concat (map word_bytes (c_fp c)) @ (replicate 8 0 @ replicate (4096 - 528 - 8) 0)"
    unfolding setup_sigcontext_def by (simp only: fpsimd_bytes_def append_assoc sigcontext.select_convs)
  have "map (\<lambda>i. bytes_word (cut (16 + 16 * i) 16 (sc_reserved ?s))) [0..<32] = c_fp c"
    unfolding r by (rule words_at) (use assms in \<open>simp_all add: cpu_ok_def\<close>)
  moreover have "cut 0 4 (sc_reserved ?s) = word_bytes FPSIMD_MAGIC"
    "cut 8 4 (sc_reserved ?s) = word_bytes (c_fpsr c)" "cut 12 4 (sc_reserved ?s) = word_bytes (c_fpcr c)"
    unfolding r by (simp_all add: cut_skip cut_here)
  ultimately show ?thesis
    by (simp add: restore_sigcontext_def same_registers_def s arm64_set_nzcv_def Let_def ucast_up_ucast_id is_up)
qed

text \<open>Where the parts of a frame are.\<close>

definition info_ok :: "siginfo \<Rightarrow> bool" where "info_ok i \<longleftrightarrow> length (si_fields i) = 112"

lemma length_info: "info_ok i \<Longrightarrow> length (siginfo_bytes i) = 128"
  by (simp add: siginfo_bytes_def info_ok_def)

lemma length_stack [simp]: "length (stack_bytes s) = 24"
  by (simp add: stack_bytes_def)

lemma handler_frame_fields [simp]:
  "fr_info (handler_frame i sp th) = i" "uc_sigmask (handler_frame i sp th) = t_blocked (th_sig th)"
  "uc_mcontext (handler_frame i sp th) = setup_sigcontext (th_cpu th)" "length (fr_retcode (handler_frame i sp th)) = 8"
  by (simp_all add: handler_frame_def setup_rt_sigframe_def rt_retcode_def)

lemma length_frame:
  "cpu_ok (th_cpu th) \<Longrightarrow> info_ok i \<Longrightarrow> length (frame_bytes (handler_frame i sp th)) = FRAME_SIZE"
  by (simp add: frame_bytes_def length_info length_sigcontext FRAME_SIZE_def)

lemma frame_parts:
  assumes "cpu_ok (th_cpu th)" "info_ok i"
  shows "frame_sigmask (frame_bytes (handler_frame i sp th)) = t_blocked (th_sig th)"
    "frame_mcontext (frame_bytes (handler_frame i sp th)) = setup_sigcontext (th_cpu th)"
proof -
  have "cut 200 8 (frame_bytes (handler_frame i sp th)) = word_bytes (t_blocked (th_sig th))"
    "cut 328 4376 (frame_bytes (handler_frame i sp th)) = sigcontext_bytes (setup_sigcontext (th_cpu th))"
    unfolding frame_bytes_def
    by (simp_all add: cut_skip cut_here length_info[OF assms(2)] length_sigcontext[OF assms(1)])
  then show "frame_sigmask (frame_bytes (handler_frame i sp th)) = t_blocked (th_sig th)"
    "frame_mcontext (frame_bytes (handler_frame i sp th)) = setup_sigcontext (th_cpu th)"
    by (simp_all add: frame_sigmask_def frame_mcontext_def sigcontext_roundtrip[OF assms(1)])
qed

section \<open>Guest memory as the signal code relies on it\<close>

text \<open>What was written is there, and what is there is read.\<close>

locale guest_memory =
  fixes ok :: "'m \<Rightarrow> bool" and byte :: "'m \<Rightarrow> nat \<Rightarrow> byte option" and top :: nat
    and store :: "'m \<Rightarrow> nat \<Rightarrow> byte list \<Rightarrow> (int \<times> 'm) option"
    and load :: "'m \<Rightarrow> nat \<Rightarrow> nat \<Rightarrow> (int \<times> byte list \<times> 'm) option"
  assumes write_bytes: "ok m \<Longrightarrow> a + length bs \<le> top \<Longrightarrow> store m a bs = Some (0, m') \<Longrightarrow>
      ok m' \<and> (\<forall>x < length bs. byte m' (a + x) = Some (bs ! x))"
    and read_bytes: "ok m \<Longrightarrow> a + length bs \<le> top \<Longrightarrow> \<forall>x < length bs. byte m (a + x) = Some (bs ! x) \<Longrightarrow>
      load m a (length bs) = Some (0, bs, m)"
begin

lemma read_back:
  assumes "ok m" "a + length bs \<le> top" "store m a bs = Some (0, m1)" "ok m2"
    "\<forall>x < length bs. byte m2 (a + x) = byte m1 (a + x)"
  shows "load m2 a (length bs) = Some (0, bs, m2)"
  using assms write_bytes[OF assms(1-3)] by (intro read_bytes) simp_all

end

definition guest_ok :: "space option \<Rightarrow> bool" where
  "guest_ok m \<longleftrightarrow> (\<exists>s oth. m = Some s \<and> as_inv oth {} s \<and> tidy (fst s) \<and> h_alloc (snd s))"

definition guest_byte :: "space option \<Rightarrow> nat \<Rightarrow> byte option" where
  "guest_byte m a = (case m of None \<Rightarrow> None | Some s \<Rightarrow> mem_byte s a)"

lemma below_top_mod: "a \<le> USER_TOP \<Longrightarrow> a mod ADDR_MOD = a"
  by (simp add: USER_TOP_def ADDR_MOD_def MEM_PAGES_def PAGE_BYTES_def)

interpretation guest: guest_memory guest_ok guest_byte USER_TOP "user_write_task limit" "user_read_task limit'" for limit limit'
proof unfold_locales
  fix m a bs m'
  assume h: "guest_ok m" "a + length bs \<le> USER_TOP" "user_write_task limit m a bs = Some (0, m')"
  then obtain s oth where s: "m = Some s" "as_inv oth {} s" "tidy (fst s)" "h_alloc (snd s)" by (auto simp: guest_ok_def)
  have w: "writes MEM_WRITE" by (simp add: writes_def)
  obtain s' where "user_write_mem limit MEM_WRITE (a + length bs) a bs s = Some (0, s')" "m' = Some s'"
    using h(3) by (auto simp: user_write_task_def s(1) below_top_mod[OF h(2)])
  with user_write_spec[OF s(2-4) refl h(2) w, of limit]
  show "guest_ok m' \<and> (\<forall>x < length bs. guest_byte m' (a + x) = Some (bs ! x))"
    by (auto simp: guest_ok_def guest_byte_def now_reads_def)
next
  fix m a and bs :: "byte list"
  assume h: "guest_ok m" "a + length bs \<le> USER_TOP" "\<forall>x < length bs. guest_byte m (a + x) = Some (bs ! x)"
  then obtain s oth where s: "m = Some s" "as_inv oth {} s" "h_alloc (snd s)" by (auto simp: guest_ok_def)
  have b: "mem_byte s (a + x) = Some (bs ! x)" if "x < length bs" for x
    using h(3) that by (simp add: s(1) guest_byte_def)
  have "mem_byte s y \<noteq> None" if "a \<le> y \<and> y < a + length bs" for y
    using b[of "y - a"] that by auto
  then obtain cs where c: "user_read_mem limit' (a + length bs) a [] s = Some (0, cs, s)" "now_reads s a cs" "length cs = length bs"
    using user_read_spec[OF s(2,3) h(2), of limit' a "[]"] by auto
  have "cs = bs"
    using c(2,3) b by (intro nth_equalityI) (auto simp: now_reads_def)
  then show "user_read_task limit' m a (length bs) = Some (0, bs, m)"
    using c(1) by (simp add: user_read_task_def s(1) below_top_mod[OF h(2)])
qed

end
