(* ===== verification/Signal_Props.thy ===== *)
theory Signal_Props
  imports Signal_Return
begin

text \<open>The properties of signal delivery, with a thread whose stack is mapped as the instance of each.\<close>

unbundle bit_operations_syntax

section \<open>A sample thread\<close>

definition sample_cpu :: cpu where
  "sample_cpu = \<lparr>c_regs = replicate 31 7, c_sp = 36864, c_pc = 0x1000, c_nf = 0, c_zf = 0, c_cf = 0, c_vf = 0,
     c_nzcv = 0x60000000, c_fpsr = 1, c_fpcr = 2, c_fp = replicate 32 9, c_segfault_addr = 0, c_excl_addr = 0\<rparr>"

definition sample_thread :: "space option \<Rightarrow> sighand \<Rightarrow> thread" where
  "sample_thread m sh = \<lparr>th_sig = fresh_task, th_hand = sh,
     th_group = \<lparr>g_stopped = False, g_continued = False, g_exit_code = 0\<rparr>, th_cpu = sample_cpu, th_mem = m, th_limit = 0,
     th_trampoline = 0x7000, th_restartable = False, th_restart_pc = 0, th_restart_arg0 = 0,
     th_v8_aborting = False, th_locked = False\<rparr>"

lemma sample_cpu_ok: "cpu_ok sample_cpu"
  by (simp add: cpu_ok_def sample_cpu_def)

lemma sample_ok: "length (sh_action sh) = NUM_SIGS \<Longrightarrow> thread_ok (sample_thread m sh)"
  by (simp add: thread_ok_def sample_thread_def fresh_task_ok)

lemma sighand_new_length [simp]: "length (sh_action sighand_new) = NUM_SIGS"
  by (simp add: sighand_new_def)

lemma sample_clean: "clean_thread (sample_thread m sighand_new)"
  by (simp add: clean_thread_def sample_thread_def clean_actions_def sighand_new_def clean_masks_def fresh_task_def)

lemma nil_info_ok [simp]: "info_ok SIGINFO_NIL" "info_ok (SIGINFO_NIL\<lparr>si_signo := s\<rparr>)"
  by (simp_all add: info_ok_def SIGINFO_NIL_def)

section \<open>The pending set\<close>

text \<open>
  Claim C7. After every run of sends to a thread, changes of its mask and its actions, deliveries and returns from handlers, in any
  order, from a thread for which it holds, a signal is in the pending set exactly when an instance of it is queued, and a
  standard signal is queued at most once. Of \<^verbatim>\<open>sigsuspend\<close> only the change of the mask is an event here;
  \<^verbatim>\<open>rt_sigtimedwait\<close> is none: it takes a signal from the queue and leaves the set as it was, so the property does not survive it.
\<close>

theorem pending_set_exact:
  assumes "thread_ok th" "\<forall>e \<in> set es. valid_event e" "sig_run es th = Returned th'" "sig_range sig"
  shows "(holds_sig (t_pending (th_sig th')) sig \<longleftrightarrow> 0 < queued (th_sig th') sig)
     \<and> (sig < SIGRTMIN \<longrightarrow> queued (th_sig th') sig \<le> 1)"
proof -
  have "sig_ok (th_sig th')" using sig_run_ok[OF assms(3,2,1)] by (simp add: thread_ok_def)
  then show ?thesis using sig_okD assms(4) by blast
qed

lemma sample_run:
  "\<exists>th'. sig_run [Procmask 0 2, Send False 2 SIGINFO_NIL, Send True 34 SIGINFO_NIL, Suspend 0] (sample_thread None sighand_new)
     = Returned th'"
  by (simp add: send_to_def send_signal_def sample_thread_def fresh_task_def signal_action_def signal_is_blockable_def
      action_of_def sighand_new_def NUM_SIGS_def no_action_def default_action_def deliver_signal_unlocked_def Let_def
      do_sigprocmask_def sigmask_set_def UNBLOCKABLE_MASK_def sigset_has_def sigset_add_def sig_mask_def)

theorem pending_set_exact_witness:
  "\<exists>th'. sig_run [Procmask 0 2, Send False 2 SIGINFO_NIL, Send True 34 SIGINFO_NIL, Suspend 0] (sample_thread None sighand_new)
     = Returned th' \<and> (holds_sig (t_pending (th_sig th')) 2 \<longleftrightarrow> 0 < queued (th_sig th') 2)"
proof -
  obtain th' where r: "sig_run [Procmask 0 2, Send False 2 SIGINFO_NIL, Send True 34 SIGINFO_NIL, Suspend 0]
      (sample_thread None sighand_new) = Returned th'" using sample_run by blast
  have v: "\<forall>e \<in> set [Procmask 0 2, Send False 2 SIGINFO_NIL, Send True 34 SIGINFO_NIL, Suspend 0]. valid_event e" by simp
  have "sig_range 2" by (simp add: sig_range_def)
  note exact = pending_set_exact[OF sample_ok[OF sighand_new_length] v r this]
  show ?thesis by (intro exI[of _ th'] conjI r conjunct1[OF exact])
qed

section \<open>SIGKILL\<close>

lemma deliver_kill:
  assumes "deliver_signal_unlocked self SIGKILL info t = Some t'" "sig_ok t"
  shows "0 < queued t' SIGKILL"
proof -
  have "holds_sig (t_pending t') SIGKILL" using deliver_Some(2)[OF assms(1) kill_stop_range(1)] by simp
  then show ?thesis using sig_okD(2)[OF deliver_ok[OF kill_stop_range(1) assms(2,1)]] by simp
qed

lemma send_kill:
  assumes "thread_ok th" "\<not> t_zombie (th_sig th)" "\<not> t_exiting (th_sig th)"
    "send_to self SIGKILL info th = Returned th'"
  shows "0 < queued (th_sig th') SIGKILL"
proof -
  have "signal_action (th_hand th) SIGKILL = Some SIGNAL_KILL"
    by (simp add: signal_action_def signal_is_blockable_def default_action_def)
  then obtain t where "deliver_signal_unlocked self SIGKILL info (th_sig th) = Some t" "th_sig th' = t"
    using assms(2-4) by (auto simp: send_to_def send_signal_def split: option.splits Option.bind_splits)
  with deliver_kill assms(1) show ?thesis by (simp add: thread_ok_def)
qed

lemma receive_mask_clean: "clean_masks t \<Longrightarrow> clean (receive_mask t)"
  by (auto simp: receive_mask_def clean_masks_def clean_def)

lemma receive_kills:
  assumes "thread_ok th" "clean_thread th" "0 < queued (th_sig th) SIGKILL"
  shows "receive_signals th \<noteq> Returned r"
proof
  assume "receive_signals th = Returned r"
  then obtain n th' where r: "receive_signals th = Returned (n, th')" by (cases r) auto
  have ok: "sig_ok (th_sig th)" using assms(1) by (simp add: thread_ok_def)
  have k: "\<exists>i \<in> set (t_queue (th_sig th)). si_signo i = SIGKILL"
    using assms(3) count_list_pos_iff[of "map si_signo (t_queue (th_sig th))" SIGKILL] by (auto simp: queued_def)
  have m: "\<not> holds_sig (receive_mask (th_sig th)) SIGKILL"
    using receive_mask_clean assms(2) by (simp add: clean_thread_def clean_def)
  show False
    by (rule receive_signals_Returned[OF r]) (use receive_loop_kill[OF k m sig_okD(1)[OF ok]] in blast)
qed

text \<open>Nothing but a delivery takes a signal from the queue.\<close>

lemma step_keeps_queued:
  assumes "sig_step e th = Returned th'" "valid_event e" "e \<noteq> Receive" "thread_ok th"
  shows "queued (th_sig th) s \<le> queued (th_sig th') s"
proof -
  have d: "queued t s \<le> queued t' s" if "deliver_signal_unlocked self sig info t = Some t'" "sig_range sig" for self sig info t t'
    using deliver_Some(6)[OF that] by simp
  show ?thesis
  proof (cases e)
    case (Send self sig info)
    then obtain t g where t: "send_signal False self sig info (Some (th_hand th)) (th_sig th, th_group th) = Some (t, g)" "th_sig th' = t"
      using assms(1) by (auto simp: send_to_def split: option.splits)
    show ?thesis using send_signal_cases[OF t(1)] d assms(2) t(2) Send by auto
  next
    case Sigreturn
    then obtain r where "sys_rt_sigreturn th = Returned (r, th')" using assms(1) by auto
    then show ?thesis
    proof (cases rule: sigreturn_cases)
      case (fault m)
      then obtain t where "deliver_signal_unlocked True SIGSEGV SIGINFO_NIL (th_sig th) = Some t" "th_sig th' = t"
        by (auto simp: deliver_self_def unlock_hand_def split: option.splits)
      then show ?thesis using d by (auto simp: sig_range_def)
    qed (simp add: queued_def)
  qed (use assms in \<open>auto simp: act_on_def queued_def split: option.splits\<close>)
qed

lemma run_keeps_queued:
  assumes "sig_run es th = Returned th'" "\<forall>e \<in> set es. valid_event e" "Receive \<notin> set es" "thread_ok th"
  shows "queued (th_sig th) s \<le> queued (th_sig th') s"
  using assms
proof (induction es arbitrary: th)
  case (Cons e es)
  then obtain th1 where 1: "sig_step e th = Returned th1" "sig_run es th1 = Returned th'" by auto
  have e: "valid_event e" "e \<noteq> Receive" using Cons.prems(2,3) by auto
  have "thread_ok th1" using sig_step_ok[OF 1(1) e(1) Cons.prems(4)] by simp
  then have "queued (th_sig th1) s \<le> queued (th_sig th') s" using Cons.IH[OF 1(2)] Cons.prems(2,3) by auto
  with step_keeps_queued[OF 1(1) e Cons.prems(4), of s] show ?case by simp
qed simp

text \<open>Among signals without handlers the walk over the queue returns or comes to a fatal one.\<close>

lemma plain_signal:
  assumes "sig_range (si_signo i)" "length (sh_action (th_hand th)) = NUM_SIGS"
    "signal_action (th_hand th) (si_signo i) \<noteq> Some SIGNAL_CALL_HANDLER"
  shows "(\<exists>n. receive_signal i th = Exits n) \<or> (\<exists>th'. receive_signal i th = Returned th' \<and> th_hand th' = th_hand th)"
proof -
  have "\<exists>d. signal_action (th_hand th) (si_signo i) = Some d"
    using assms(1,2) by (simp add: signal_action_def action_of_def sig_range_def NUM_SIGS_def nat_less_iff)
  then obtain d where d: "signal_action (th_hand th) (si_signo i) = Some d" by blast
  with assms(3) show ?thesis by (cases d) (simp_all add: receive_signal_def)
qed

lemma receive_loop_exits:
  assumes "\<exists>i \<in> set rest. si_signo i = SIGKILL" "\<not> holds_sig b SIGKILL" "\<forall>i \<in> set rest. sig_range (si_signo i)"
    "length (sh_action (th_hand th)) = NUM_SIGS"
    "\<forall>i \<in> set rest. \<not> holds_sig b (si_signo i) \<longrightarrow> signal_action (th_hand th) (si_signo i) \<noteq> Some SIGNAL_CALL_HANDLER"
  shows "\<exists>n. receive_loop b kept rest th = Exits n"
  using assms
proof (induction rest arbitrary: kept th)
  case (Cons i rest)
  have rng: "sig_range (si_signo i)" using Cons.prems(3) by simp
  obtain p where p: "receive_loop b kept (i # rest) th =
       (if holds_sig b (si_signo i) then receive_loop b (kept @ [i]) rest th
        else after (receive_signal i (th\<lparr>th_sig := (th_sig th)\<lparr>t_queue := kept @ rest, t_pending := p\<rparr>\<rparr>))
          (receive_loop b kept rest))"
    by (rule receive_loop_step[OF rng])
  show ?case
  proof (cases "si_signo i = SIGKILL")
    case True
    then show ?thesis using Cons.prems(2) by (simp add: p receive_kill)
  next
    case False
    then have rest: "\<exists>i \<in> set rest. si_signo i = SIGKILL" using Cons.prems(1) by simp
    show ?thesis
    proof (cases "holds_sig b (si_signo i)")
      case True
      then show ?thesis using Cons.IH[OF rest Cons.prems(2) _ Cons.prems(4)] Cons.prems(3,5) by (simp add: p)
    next
      case False
      let ?th = "th\<lparr>th_sig := (th_sig th)\<lparr>t_queue := kept @ rest, t_pending := p\<rparr>\<rparr>"
      have "(\<exists>n. receive_signal i ?th = Exits n) \<or> (\<exists>th'. receive_signal i ?th = Returned th' \<and> th_hand th' = th_hand th)"
        using plain_signal[OF rng, of ?th] Cons.prems(4,5) False by simp
      then show ?thesis
      proof
        assume "\<exists>th'. receive_signal i ?th = Returned th' \<and> th_hand th' = th_hand th"
        then obtain th' where th': "receive_signal i ?th = Returned th'" "th_hand th' = th_hand th" by blast
        then have "\<exists>n. receive_loop b kept rest th' = Exits n" using Cons.IH[OF rest Cons.prems(2), of th'] Cons.prems(3-5) by simp
        then show ?thesis using th'(1) False by (simp add: p)
      qed (use False in \<open>auto simp: p\<close>)
    qed
  qed
qed simp

definition no_handler_due :: "thread \<Rightarrow> bool" where
  "no_handler_due th \<longleftrightarrow> (\<forall>i \<in> set (t_queue (th_sig th)). \<not> holds_sig (receive_mask (th_sig th)) (si_signo i)
     \<longrightarrow> signal_action (th_hand th) (si_signo i) \<noteq> Some SIGNAL_CALL_HANDLER)"

lemma receive_exits:
  assumes "thread_ok th" "clean_thread th" "0 < queued (th_sig th) SIGKILL" "no_handler_due th"
  shows "\<exists>n. receive_signals th = Exits n"
proof -
  let ?th = "th\<lparr>th_locked := True, th_sig := drop_saved_mask (th_sig th)\<rparr>" and ?b = "receive_mask (th_sig th)"
  have ok: "sig_ok (th_sig th)" "length (sh_action (th_hand th)) = NUM_SIGS" "\<not> th_locked th" using assms(1) by (simp_all add: thread_ok_def)
  have "\<exists>i \<in> set (t_queue (th_sig th)). si_signo i = SIGKILL"
    using assms(3) count_list_pos_iff[of "map si_signo (t_queue (th_sig th))" SIGKILL] by (auto simp: queued_def)
  moreover have "\<not> holds_sig ?b SIGKILL" using receive_mask_clean assms(2) by (simp add: clean_thread_def clean_def)
  ultimately have "\<exists>n. receive_loop ?b [] (t_queue (th_sig th)) ?th = Exits n"
    using assms(4) ok sig_okD(1)[OF ok(1)] by (intro receive_loop_exits) (simp_all add: no_handler_due_def)
  then show ?thesis using ok(3) by (auto simp: receive_signals_def lock_hand_def)
qed

text \<open>
  Claim C31. Take a running thread whose masks, and the masks of whose actions, do not name \<^verbatim>\<open>SIGKILL\<close> or \<^verbatim>\<open>SIGSTOP\<close>. After
  \<^verbatim>\<open>SIGKILL\<close> was sent to it, and it was sent other signals, changed its mask and actions (the masks of the new ones without these two
  too) and returned from handlers in any order, its next delivery does not return to the guest; and when no unblocked signal in its queue has a handler, that
  delivery ends the process. (With a handler due before, the frame may fail and the thread hang.)
\<close>

theorem kill_ends_thread:
  assumes "thread_ok th" "clean_thread th" "\<not> t_zombie (th_sig th)" "\<not> t_exiting (th_sig th)"
    "\<forall>e \<in> set fs. valid_event e \<and> clean_event e" "Receive \<notin> set fs" "sig_run (Send self SIGKILL info # fs) th = Returned th'"
  shows "(\<forall>r. receive_signals th' \<noteq> Returned r) \<and> (no_handler_due th' \<longrightarrow> (\<exists>n. receive_signals th' = Exits n))"
proof -
  obtain th1 where s: "sig_step (Send self SIGKILL info) th = Returned th1" "sig_run fs th1 = Returned th'" using assms(7) by auto
  have ok1: "thread_ok th1" "clean_thread th1" using sig_step_ok[OF s(1) _ assms(1)] assms(2) by simp_all
  have ok: "thread_ok th'" "clean_thread th'" using sig_run_ok[OF s(2) _ ok1(1)] ok1(2) assms(5) by simp_all
  have "0 < queued (th_sig th1) SIGKILL" using send_kill[OF assms(1,3,4), of self info th1] s(1) by simp
  then have "0 < queued (th_sig th') SIGKILL" using run_keeps_queued[OF s(2) _ assms(6) ok1(1)] assms(5) by (meson less_le_trans)
  with ok show ?thesis using receive_kills receive_exits by blast
qed

lemma kill_run:
  "\<exists>th. sig_run [Send False 9 SIGINFO_NIL, Send False 10 SIGINFO_NIL, Procmask 2 (- 1)] (sample_thread None sighand_new) = Returned th \<and> no_handler_due th"
  by (simp add: send_to_def send_signal_def sample_thread_def fresh_task_def signal_action_def signal_is_blockable_def
      action_of_def sighand_new_def NUM_SIGS_def no_action_def default_action_def deliver_signal_unlocked_def Let_def
      do_sigprocmask_def sigmask_set_def UNBLOCKABLE_MASK_def sigset_has_def sigset_add_def sig_mask_def no_handler_due_def)

theorem kill_ends_thread_witness:
  "\<exists>th n. sig_run [Send False 9 SIGINFO_NIL, Send False 10 SIGINFO_NIL, Procmask 2 (- 1)] (sample_thread None sighand_new) = Returned th
     \<and> receive_signals th = Exits n"
proof -
  obtain th where r: "sig_run [Send False 9 SIGINFO_NIL, Send False 10 SIGINFO_NIL, Procmask 2 (- 1)] (sample_thread None sighand_new) = Returned th"
    "no_handler_due th" using kill_run by blast
  have "(\<forall>r. receive_signals th \<noteq> Returned r) \<and> (no_handler_due th \<longrightarrow> (\<exists>n. receive_signals th = Exits n))"
    by (rule kill_ends_thread[OF sample_ok sample_clean _ _ _ _ r(1)]) (simp_all add: sample_thread_def fresh_task_def)
  with r show ?thesis by blast
qed

section \<open>Into a handler and back\<close>

text \<open>One unblocked signal with a handler is pending.\<close>

definition one_pending :: "siginfo \<Rightarrow> sigaction \<Rightarrow> thread \<Rightarrow> bool" where
  "one_pending i a th \<longleftrightarrow> t_queue (th_sig th) = [i] \<and> sig_range (si_signo i)
     \<and> \<not> holds_sig (receive_mask (th_sig th)) (si_signo i)
     \<and> signal_action (th_hand th) (si_signo i) = Some SIGNAL_CALL_HANDLER
     \<and> action_of (th_hand th) (si_signo i) = Some a \<and> \<not> th_locked th"

lemma restart_sig: "th_cpu (syscall_restart a (th\<lparr>th_locked := l, th_sig := t\<rparr>)) = th_cpu (syscall_restart a th)"
  by (simp add: syscall_restart_def Let_def)

text \<open>Delivery to such a thread is the call of the handler.\<close>

lemma receive_one:
  assumes "one_pending i a th"
  obtains t where "t_blocked t = t_blocked (drop_saved_mask (th_sig th))" "t_queue t = []"
    "\<not> t_has_saved_mask t" "t_zombie t = t_zombie (th_sig th)" "t_exiting t = t_exiting (th_sig th)"
    "receive_signals th = after (call_handler i a (th\<lparr>th_locked := True, th_sig := t\<rparr>)) (\<lambda>th1.
       Returned (\<not> g_stopped (th_group th) \<and> g_stopped (th_group th1), unlock_hand th1))"
proof -
  have q: "t_queue (th_sig th) = [i]" "sig_range (si_signo i)" "\<not> holds_sig (receive_mask (th_sig th)) (si_signo i)"
      "signal_action (th_hand th) (si_signo i) = Some SIGNAL_CALL_HANDLER"
      "action_of (th_hand th) (si_signo i) = Some a" "\<not> th_locked th"
    using assms by (simp_all add: one_pending_def)
  let ?th = "th\<lparr>th_locked := True, th_sig := drop_saved_mask (th_sig th)\<rparr>"
  obtain p where p: "receive_loop (receive_mask (th_sig th)) [] [i] ?th =
      after (receive_signal i (?th\<lparr>th_sig := (th_sig ?th)\<lparr>t_queue := [], t_pending := p\<rparr>\<rparr>))
        (receive_loop (receive_mask (th_sig th)) [] [])"
    using receive_loop_step[OF q(2), of ?th "receive_mask (th_sig th)" "[]" "[]"] q(3) by auto
  let ?t = "(drop_saved_mask (th_sig th))\<lparr>t_queue := [], t_pending := p\<rparr>"
  have "receive_signal i (th\<lparr>th_locked := True, th_sig := ?t\<rparr>) = call_handler i a (th\<lparr>th_locked := True, th_sig := ?t\<rparr>)"
    using q(4,5) by (simp add: receive_signal_def)
  moreover have "after (after x Returned) f = after x f" for x :: "thread outcome" and f :: "thread \<Rightarrow> (bool \<times> thread) outcome"
    by (cases x) simp_all
  moreover have "receive_loop (receive_mask (th_sig th)) [] [] = Returned" by (rule ext) simp
  ultimately have "receive_signals th = after (call_handler i a (th\<lparr>th_locked := True, th_sig := ?t\<rparr>)) (\<lambda>th1.
       Returned (\<not> g_stopped (th_group th) \<and> g_stopped (th_group th1), unlock_hand th1))"
    using q(1,6) p by (simp add: receive_signals_def lock_hand_def)
  then show thesis by (rule that[rotated -1]) simp_all
qed

text \<open>A handler whose frame fits on writable pages is entered.\<close>

definition space_ok :: "space \<Rightarrow> bool" where
  "space_ok s \<longleftrightarrow> (\<exists>oth. as_inv oth {} s) \<and> tidy (fst s) \<and> h_alloc (snd s)"

lemma space_guest_ok [simp]: "guest_ok (Some s) = space_ok s"
  by (auto simp: guest_ok_def space_ok_def)

lemma user_write_fits:
  assumes "space_ok s" "writable_range s a (length bs)" "a + length bs \<le> USER_TOP"
  shows "\<exists>s'. user_write_task limit (Some s) a bs = Some (0, Some s') \<and> space_ok s' \<and> keeps_writable s s'"
proof -
  obtain oth where s: "as_inv oth {} s" "tidy (fst s)" "h_alloc (snd s)" using assms(1) by (auto simp: space_ok_def)
  obtain s' where w: "user_write_mem limit MEM_WRITE (a + length bs) a bs s = Some (0, s')" "keeps_writable s s'"
    using user_write_writable[OF s refl assms(3,2)] by blast
  then have "user_write_task limit (Some s) a bs = Some (0, Some s')"
    by (simp add: user_write_task_def below_top_mod[OF assms(3)])
  moreover from this have "guest_ok (Some s')"
    using guest.write_bytes[of "Some s" a bs limit "Some s'"] assms(1,3) by simp
  ultimately show ?thesis using w(2) by auto
qed

lemma handler_mask_range: "sig_range sig \<Longrightarrow> \<exists>b'. handler_mask a sig b = Some b'"
  using sigset_add_range[of sig b] by (auto simp: handler_mask_def)

lemma call_handler_enters:
  assumes "th_mem th0 = Some s" "space_ok s" "cpu_ok (th_cpu th0)" "info_ok i" "sig_range (si_signo i)"
    "sp = frame_sp a (th_hand th0) (c_sp (th_cpu th0))" "unat sp + FRAME_SIZE \<le> USER_TOP" "writable_range s (unat sp) FRAME_SIZE"
  shows "\<exists>b s'. handler_mask a (si_signo i) (t_blocked (th_sig th0)) = Some b
     \<and> call_handler i a th0 = Returned (entered i a sp b (Some s') (syscall_restart a th0))
     \<and> space_ok s' \<and> keeps_writable s s'"
proof -
  let ?th = "syscall_restart a th0"
  obtain b where b: "handler_mask a (si_signo i) (t_blocked (th_sig th0)) = Some b" using handler_mask_range[OF assms(5)] by blast
  have ok: "cpu_ok (th_cpu ?th)" "c_sp (th_cpu ?th) = c_sp (th_cpu th0)"
    using assms(3) by (auto simp: cpu_ok_def syscall_restart_def Let_def)
  note len = length_frame[OF ok(1) assms(4), of sp]
  obtain s' where "user_write_task (th_limit th0) (Some s) (unat sp) (frame_bytes (handler_frame i sp ?th)) = Some (0, Some s')"
      "space_ok s'" "keeps_writable s s'"
    using user_write_fits[OF assms(2), of "unat sp" "frame_bytes (handler_frame i sp ?th)" "th_limit th0", unfolded len,
        OF assms(8,7)] by blast
  moreover from this(1) have "call_handler i a th0 = Returned (entered i a sp b (Some s') ?th)"
    using b assms(1) by (simp add: call_handler_def Let_def ok(2) assms(6)[symmetric] entered_def)
  ultimately show ?thesis using b by blast
qed

text \<open>
  Claim C11. A handler that returns leaves no trace in the interrupted program: if the frame on the stack is
  unchanged when \<^verbatim>\<open>rt_sigreturn\<close> runs with the stack pointer the handler was entered with, every register, the flags,
  the vector registers and the signal mask are what they were at the interruption (with the system call
  restarted, if the handler asked for that), whatever the handler did to registers and to other memory.
\<close>

theorem sigreturn_restores:
  assumes "one_pending i a th" "receive_signals th = Returned (n, th1)"
    "guest_ok (th_mem th)" "cpu_ok (th_cpu th)" "info_ok i"
    "unat (c_sp (th_cpu th1)) + FRAME_SIZE \<le> USER_TOP"
    "guest_ok (th_mem th2)" "c_sp (th_cpu th2) = c_sp (th_cpu th1)" "\<not> th_locked th2"
    "\<forall>x < FRAME_SIZE. guest_byte (th_mem th2) (unat (c_sp (th_cpu th1)) + x)
        = guest_byte (th_mem th1) (unat (c_sp (th_cpu th1)) + x)"
  shows "\<exists>r th3. sys_rt_sigreturn th2 = Returned (r, th3)
     \<and> same_registers (th_cpu (syscall_restart a th)) (th_cpu th3) \<and> r = c_regs (th_cpu th3) ! 0
     \<and> t_blocked (th_sig th3) = t_blocked (drop_saved_mask (th_sig th)) AND NOT UNBLOCKABLE_MASK"
proof -
  obtain t where t: "t_blocked t = t_blocked (drop_saved_mask (th_sig th))"
      "receive_signals th = after (call_handler i a (th\<lparr>th_locked := True, th_sig := t\<rparr>)) (\<lambda>th1.
         Returned (\<not> g_stopped (th_group th) \<and> g_stopped (th_group th1), unlock_hand th1))"
    by (rule receive_one[OF assms(1)])
  obtain th' where h: "call_handler i a (th\<lparr>th_locked := True, th_sig := t\<rparr>) = Returned th'" "th1 = unlock_hand th'"
    using assms(2)[unfolded t(2)] by auto
  obtain tr sp b m where e: "tr = syscall_restart a (th\<lparr>th_locked := True, th_sig := t\<rparr>)"
      "user_write_task (th_limit tr) (th_mem tr) (unat sp) (frame_bytes (handler_frame i sp tr)) = Some (0, m)"
      "th' = entered i a sp b m tr"
    by (rule call_handler_Returned[OF h(1)]) simp_all
  have cpu: "th_cpu tr = th_cpu (syscall_restart a th)" unfolding e(1) by (rule restart_sig)
  have ok: "cpu_ok (th_cpu tr)" using assms(4) unfolding cpu by (auto simp: cpu_ok_def syscall_restart_def Let_def)
  let ?f = "frame_bytes (handler_frame i sp tr)"
  have len: "length ?f = FRAME_SIZE" by (rule length_frame[OF ok assms(5)])
  have sp: "c_sp (th_cpu th1) = sp" "th_mem th1 = m" by (simp_all add: h(2) unlock_hand_def e(3))
  have mem: "guest_ok (th_mem tr)" using assms(3) by (simp add: e(1))
  have "user_read_task (th_limit th2) (th_mem th2) (unat sp) (length ?f) = Some (0, ?f, th_mem th2)"
    by (rule guest.read_back[OF mem _ e(2) assms(7)]) (use assms(6,10) in \<open>simp_all add: len sp\<close>)
  then have "user_read_task (th_limit th2) (th_mem th2) (unat (c_sp (th_cpu th2))) FRAME_SIZE = Some (0, ?f, th_mem th2)"
    by (simp add: len assms(8) sp)
  then have "\<exists>th3. sys_rt_sigreturn th2 = Returned (c_regs (th_cpu th3) ! 0, th3)
      \<and> th_cpu th3 = restore_sigcontext (setup_sigcontext (th_cpu tr)) (th_cpu th2)
      \<and> th_sig th3 = sigmask_set (t_blocked t) (th_sig th2)"
    using assms(9) frame_parts[OF ok assms(5), of sp]
    by (simp add: sys_rt_sigreturn_def Let_def lock_hand_def unlock_hand_def e(1))
  then show ?thesis
    using restore_setup[OF ok, of "th_cpu th2"] by (auto simp: cpu sigmask_set_def t(1))
qed

text \<open>A thread with \<^verbatim>\<open>SIGUSR1\<close> handled and pending, on a stack of four pages.\<close>

definition handler_of :: "sigset \<Rightarrow> sigaction" where
  "handler_of m = \<lparr>sa_handler = 0x2000, sa_flags = 0, sa_restorer = 0, sa_mask = m\<rparr>"

definition usr1_hand :: "sigset \<Rightarrow> sighand" where
  "usr1_hand m = sighand_new\<lparr>sh_action := (sh_action sighand_new)[10 := handler_of m]\<rparr>"

definition usr1_thread :: "sigset \<Rightarrow> space option \<Rightarrow> thread" where
  "usr1_thread m s = (sample_thread s (usr1_hand m))
     \<lparr>th_sig := fresh_task\<lparr>t_pending := 2 ^ 9, t_queue := [SIGINFO_NIL\<lparr>si_signo := 10\<rparr>]\<rparr>\<rparr>"

lemma usr1_pending: "one_pending (SIGINFO_NIL\<lparr>si_signo := 10\<rparr>) (handler_of m) (usr1_thread m s)"
  by (simp add: one_pending_def usr1_thread_def sample_thread_def fresh_task_def sig_range_def receive_mask_def
      signal_action_def signal_is_blockable_def action_of_def usr1_hand_def sighand_new_def NUM_SIGS_def handler_of_def)

lemma usr1_ok: "thread_ok (usr1_thread m s)"
proof -
  have "(2::sigset) ^ 9 = 2 ^ nat (10 - 1)" by simp
  then have "holds_sig (2 ^ 9) s = (s = 10)" if "sig_range s" for s
    using bit_mask[of 10 s] that by (auto simp: holds_sig_def sig_range_def simp del: power_numeral)
  then show ?thesis
    by (auto simp: thread_ok_def usr1_thread_def sample_thread_def fresh_task_def sig_ok_def queued_def usr1_hand_def
        sighand_new_def sig_range_def)
qed

lemma usr1_sp: "frame_sp (handler_of m) (usr1_hand m) 36864 = 32144"
  by (simp add: frame_sp_def handler_of_def usr1_hand_def sighand_new_def FRAME_SIZE_def Let_def)

lemma four_pages:
  "\<exists>s. pt_map_nothing (mem_init, no_host) 5 4 P_WRITE = Some (0, s) \<and> space_ok s \<and> writable_range s 20480 16384"
proof -
  have "(5::nat) + 4 \<le> MEM_PAGES" "has P_WRITE P_WRITE" by (simp_all add: MEM_PAGES_def flag_simps)
  from fresh_space[OF this] show ?thesis by (auto simp: space_ok_def PAGE_BYTES_def)
qed

lemma usr1_enters:
  assumes "space_ok s" "writable_range s 20480 16384"
  shows "\<exists>n th1 s' b. receive_signals (usr1_thread m (Some s)) = Returned (n, th1) \<and> th_mem th1 = Some s' \<and> space_ok s'
     \<and> keeps_writable s s' \<and> c_sp (th_cpu th1) = 32144 \<and> t_blocked (th_sig th1) = b OR m \<and> t_queue (th_sig th1) = []
     \<and> \<not> t_has_saved_mask (th_sig th1) \<and> \<not> t_zombie (th_sig th1) \<and> \<not> t_exiting (th_sig th1) \<and> \<not> th_locked th1"
proof -
  let ?i = "SIGINFO_NIL\<lparr>si_signo := 10\<rparr>" and ?a = "handler_of m" and ?th = "usr1_thread m (Some s)"
  obtain t where t: "t_queue t = []" "\<not> t_has_saved_mask t" "t_zombie t = t_zombie (th_sig ?th)"
      "t_exiting t = t_exiting (th_sig ?th)"
      "receive_signals ?th = after (call_handler ?i ?a (?th\<lparr>th_locked := True, th_sig := t\<rparr>)) (\<lambda>th1.
         Returned (\<not> g_stopped (th_group ?th) \<and> g_stopped (th_group th1), unlock_hand th1))"
    by (rule receive_one[OF usr1_pending])
  have "writable_range s 32144 FRAME_SIZE" using assms(2) by (simp add: writable_range_def FRAME_SIZE_def)
  then obtain b s' where b: "handler_mask ?a 10 (t_blocked t) = Some b"
      "call_handler ?i ?a (?th\<lparr>th_locked := True, th_sig := t\<rparr>)
        = Returned (entered ?i ?a 32144 b (Some s') (syscall_restart ?a (?th\<lparr>th_locked := True, th_sig := t\<rparr>)))"
      "space_ok s'" "keeps_writable s s'"
    using call_handler_enters[of "?th\<lparr>th_locked := True, th_sig := t\<rparr>" s ?i 32144 ?a] assms(1) usr1_sp[of m] sample_cpu_ok
    by (auto simp: usr1_thread_def sample_thread_def sig_range_def FRAME_SIZE_def USER_TOP_def MEM_PAGES_def PAGE_BYTES_def sample_cpu_def)
  obtain b0 where b0: "b = b0 OR m" using b(1) by (auto simp: handler_mask_def handler_of_def split: Option.bind_splits if_splits)
  show ?thesis
    unfolding t(5) b(2) using b(3,4) t(1-4)
    by (intro exI[of _ "unlock_hand (entered ?i ?a 32144 b (Some s') (syscall_restart ?a (?th\<lparr>th_locked := True, th_sig := t\<rparr>)))"] exI)
      (auto simp: unlock_hand_def b0 usr1_thread_def sample_thread_def fresh_task_def)
qed

theorem sigreturn_restores_witness:
  "\<exists>s n th1 r th3. receive_signals (usr1_thread 0 (Some s)) = Returned (n, th1)
     \<and> sys_rt_sigreturn (th1\<lparr>th_cpu := (th_cpu th1)\<lparr>c_regs := replicate 31 0, c_pc := 0x2040\<rparr>\<rparr>) = Returned (r, th3)
     \<and> c_regs (th_cpu th3) = replicate 31 7 \<and> c_pc (th_cpu th3) = 0x1000"
proof -
  obtain s where s: "space_ok s" "writable_range s 20480 16384" using four_pages by blast
  let ?th = "usr1_thread 0 (Some s)" and ?i = "SIGINFO_NIL\<lparr>si_signo := 10\<rparr>"
  obtain n th1 s' where r: "receive_signals ?th = Returned (n, th1)" "th_mem th1 = Some s'" "space_ok s'"
      "c_sp (th_cpu th1) = 32144" "\<not> th_locked th1"
    using usr1_enters[OF s, of 0] by blast
  let ?th2 = "th1\<lparr>th_cpu := (th_cpu th1)\<lparr>c_regs := replicate 31 0, c_pc := 0x2040\<rparr>\<rparr>"
  have sp: "unat (c_sp (th_cpu th1)) + FRAME_SIZE \<le> USER_TOP"
    by (simp add: r(4) FRAME_SIZE_def USER_TOP_def MEM_PAGES_def PAGE_BYTES_def)
  have "\<exists>r th3. sys_rt_sigreturn ?th2 = Returned (r, th3)
      \<and> same_registers (th_cpu (syscall_restart (handler_of 0) ?th)) (th_cpu th3) \<and> r = c_regs (th_cpu th3) ! 0
      \<and> t_blocked (th_sig th3) = t_blocked (drop_saved_mask (th_sig ?th)) AND NOT UNBLOCKABLE_MASK"
    by (rule sigreturn_restores[OF usr1_pending r(1) _ _ _ sp])
      (use r s sample_cpu_ok in \<open>simp_all add: usr1_thread_def sample_thread_def\<close>)
  moreover have "th_cpu (syscall_restart (handler_of 0) ?th) = sample_cpu"
    by (simp add: syscall_restart_def usr1_thread_def sample_thread_def Let_def)
  ultimately obtain q th3 where "sys_rt_sigreturn ?th2 = Returned (q, th3)" "same_registers sample_cpu (th_cpu th3)" by auto
  then show ?thesis using r(1) by (intro exI[of _ s] exI[of _ n] exI[of _ th1] exI[of _ q] exI[of _ th3])
    (simp add: same_registers_def sample_cpu_def)
qed

section \<open>What delivery takes\<close>

text \<open>
  Claim C32. A delivery that returns has taken exactly the queued signals its mask lets through, and keeps the others
  in their order; the mask is the thread's, or after \<^verbatim>\<open>sigsuspend\<close> what was blocked both during the call and before.
\<close>

theorem receive_takes_unblocked:
  assumes "thread_ok th" "receive_signals th = Returned (n, th')"
  shows "t_queue (th_sig th') = filter (\<lambda>i. holds_sig (if t_has_saved_mask (th_sig th)
       then t_blocked (th_sig th) AND t_saved_mask (th_sig th) else t_blocked (th_sig th)) (si_signo i)) (t_queue (th_sig th))"
  using receive_signals_queue[OF assms(2)] assms(1) by (simp add: thread_ok_def let_through_def receive_mask_def)

theorem receive_takes_unblocked_witness:
  "\<exists>s n th'. t_queue (th_sig (usr1_thread 0 (Some s))) \<noteq> [] \<and> receive_signals (usr1_thread 0 (Some s)) = Returned (n, th')
     \<and> t_queue (th_sig th') = []"
proof -
  obtain s where s: "space_ok s" "writable_range s 20480 16384" using four_pages by blast
  obtain n th1 where r: "receive_signals (usr1_thread 0 (Some s)) = Returned (n, th1)"
    using usr1_enters[OF s, of 0] by blast
  have "t_queue (th_sig th1) = []"
    using receive_takes_unblocked[OF usr1_ok r] by (simp add: usr1_thread_def fresh_task_def)
  with r show ?thesis by (intro exI[of _ s] exI[of _ n] exI[of _ th1]) (simp add: usr1_thread_def fresh_task_def)
qed

section \<open>Where delivery goes wrong\<close>

lemma receive_signal_action:
  assumes "receive_signal i th = Returned th'" "th_locked th" "si_signo i \<noteq> sig" "sig_range sig" "sig_range (si_signo i)"
  shows "action_of (th_hand th') sig = action_of (th_hand th) sig"
proof (cases "signal_action (th_hand th) (si_signo i) = Some SIGNAL_CALL_HANDLER")
  case False
  then show ?thesis using assms(1) by (auto simp: receive_signal_def split: option.splits disposition.splits)
next
  case True
  then obtain a where "call_handler i a th = Returned th'"
    using assms(1) by (auto simp: receive_signal_def split: option.splits)
  then show ?thesis
    by (rule call_handler_Returned) (use assms(2-5) in \<open>auto simp: entered_def enter_handler_def action_of_def sig_range_def\<close>)
qed

text \<open>
  Claim C38. The mask of an action is installed as the program gave it, so a handler whose mask names \<^verbatim>\<open>SIGKILL\<close>
  cannot be killed while it runs: a \<^verbatim>\<open>SIGKILL\<close> sent to it is queued, the next delivery returns to the handler, and
  the signal is still queued after it.
\<close>

theorem handler_mask_holds_kill:
  assumes "one_pending i a th" "thread_ok th" "holds_sig (sa_mask a) SIGKILL"
    "receive_signals th = Returned (n, th1)" "\<not> t_zombie (th_sig th)" "\<not> t_exiting (th_sig th)"
  shows "\<exists>th2 m th3. send_to self SIGKILL info th1 = Returned th2 \<and> receive_signals th2 = Returned (m, th3)
     \<and> th_cpu th3 = th_cpu th1 \<and> 0 < queued (th_sig th3) SIGKILL"
proof -
  obtain t where t: "t_queue t = []" "\<not> t_has_saved_mask t" "t_zombie t = t_zombie (th_sig th)" "t_exiting t = t_exiting (th_sig th)"
      "receive_signals th = after (call_handler i a (th\<lparr>th_locked := True, th_sig := t\<rparr>)) (\<lambda>th1.
         Returned (\<not> g_stopped (th_group th) \<and> g_stopped (th_group th1), unlock_hand th1))"
    by (rule receive_one[OF assms(1)])
  obtain th' where h: "call_handler i a (th\<lparr>th_locked := True, th_sig := t\<rparr>) = Returned th'" "th1 = unlock_hand th'"
    using assms(4)[unfolded t(5)] by auto
  obtain tr sp b m where e: "tr = syscall_restart a (th\<lparr>th_locked := True, th_sig := t\<rparr>)"
      "handler_mask a (si_signo i) (t_blocked t) = Some b" "th' = entered i a sp b m tr"
    by (rule call_handler_Returned[OF h(1)]) simp_all
  have held: "holds_sig b SIGKILL"
    using e(2) assms(3) by (auto simp: handler_mask_def split: Option.bind_splits)
  have th1: "th_sig th1 = t\<lparr>t_blocked := b\<rparr>" by (simp add: h(2) unlock_hand_def e)
  have ok: "thread_ok th1" using receive_ok[OF assms(4,2)] by simp
  have k: "signal_action (th_hand th1) SIGKILL = Some SIGNAL_KILL"
    by (simp add: signal_action_def signal_is_blockable_def default_action_def)
  obtain t2 where t2: "deliver_signal_unlocked self SIGKILL info (th_sig th1) = Some t2"
    by (rule deliver_spec[OF kill_stop_range(1)])
  obtain g where send: "send_to self SIGKILL info th1 = Returned (th1\<lparr>th_sig := t2, th_group := g\<rparr>)"
    using k t2 assms(5,6) by (simp add: send_to_def send_signal_def th1 t(3,4))
  note f = deliver_Some[OF t2 kill_stop_range(1)]
  have okt: "sig_ok (th_sig th1)" using ok by (simp add: thread_ok_def)
  have "queued (th_sig th1) SIGKILL = 0" by (simp add: th1 queued_def t(1))
  then have nc: "\<not> coalesced SIGKILL (th_sig th1)" using sig_okD(2)[OF okt kill_stop_range(1)] by (simp add: coalesced_def)
  have q: "t_queue t2 = [info\<lparr>si_signo := SIGKILL\<rparr>]" using f(1) nc by (simp add: th1 t(1))
  have m: "receive_mask t2 = b" using f(3,5) by (simp add: receive_mask_def th1 t(2))
  let ?th2 = "th1\<lparr>th_sig := t2, th_group := g\<rparr>"
  have "\<exists>n th3. receive_signals ?th2 = Returned (n, th3) \<and> th_cpu th3 = th_cpu th1 \<and> th_sig th3 = drop_saved_mask t2"
    using ok by (simp add: receive_signals_def lock_hand_def thread_ok_def q m held receive_loop.simps(2) unlock_hand_def)
       (use sigset_del_range[OF kill_stop_range(1), of "t_pending (drop_saved_mask t2)"] in auto)
  moreover have "0 < queued (drop_saved_mask t2) SIGKILL" by (simp add: queued_def q)
  ultimately show ?thesis using send by metis
qed

theorem handler_mask_holds_kill_witness:
  "\<exists>s n th1 th2 m th3. receive_signals (usr1_thread (- 1) (Some s)) = Returned (n, th1)
     \<and> send_to False SIGKILL SIGINFO_NIL th1 = Returned th2 \<and> receive_signals th2 = Returned (m, th3)
     \<and> 0 < queued (th_sig th3) SIGKILL"
proof -
  obtain s where s: "space_ok s" "writable_range s 20480 16384" using four_pages by blast
  obtain n th1 where r: "receive_signals (usr1_thread (- 1) (Some s)) = Returned (n, th1)"
    using usr1_enters[OF s, of "- 1"] by blast
  have "holds_sig (sa_mask (handler_of (- 1))) SIGKILL" by (simp add: handler_of_def)
  moreover have "\<not> t_zombie (th_sig (usr1_thread (- 1) (Some s)))" "\<not> t_exiting (th_sig (usr1_thread (- 1) (Some s)))"
    by (simp_all add: usr1_thread_def fresh_task_def)
  ultimately obtain th2 m th3 where k: "send_to False SIGKILL SIGINFO_NIL th1 = Returned th2"
      "receive_signals th2 = Returned (m, th3)" "0 < queued (th_sig th3) SIGKILL"
    using handler_mask_holds_kill[OF usr1_pending usr1_ok _ r, of False SIGINFO_NIL] by blast
  show ?thesis by (intro exI[of _ s] exI[of _ n] exI[of _ th1] exI[of _ th2] exI[of _ m] exI[of _ th3] conjI r k)
qed

text \<open>
  The mask of a handler does not hold back a signal that is pending at the same time: when two handled
  signals are pending and the first one's action blocks the second, delivery enters both handlers, and it is
  the second that runs first.
\<close>

theorem handler_mask_ignored:
  assumes "thread_ok th" "t_queue (th_sig th) = [i, j]" "si_signo i \<noteq> si_signo j"
    "action_of (th_hand th) (si_signo i) = Some a" "holds_sig (sa_mask a) (si_signo j)"
    "signal_action (th_hand th) (si_signo j) = Some SIGNAL_CALL_HANDLER" "action_of (th_hand th) (si_signo j) = Some a'"
    "\<not> holds_sig (receive_mask (th_sig th)) (si_signo i)" "\<not> holds_sig (receive_mask (th_sig th)) (si_signo j)"
    "receive_signals th = Returned (n, th')"
  shows "t_queue (th_sig th') = [] \<and> c_pc (th_cpu th') = sa_handler a'"
proof (rule receive_signals_Returned[OF assms(10)])
  let ?b = "receive_mask (th_sig th)"
  fix th1
  assume r: "receive_loop ?b [] (t_queue (th_sig th)) (th\<lparr>th_locked := True, th_sig := drop_saved_mask (th_sig th)\<rparr>) = Returned th1"
    and th': "th' = unlock_hand th1"
  let ?th = "th\<lparr>th_locked := True, th_sig := drop_saved_mask (th_sig th)\<rparr>"
  have ok: "sig_ok (th_sig th)" using assms(1) by (simp add: thread_ok_def)
  have rng: "sig_range (si_signo i)" "sig_range (si_signo j)" using sig_okD(1)[OF ok] assms(2) by simp_all
  obtain p where p: "receive_loop ?b [] [i, j] ?th =
      after (receive_signal i (?th\<lparr>th_sig := (th_sig ?th)\<lparr>t_queue := [j], t_pending := p\<rparr>\<rparr>)) (receive_loop ?b [] [j])"
    using receive_loop_step[OF rng(1), of ?th ?b "[]" "[j]"] assms(8) by auto
  obtain th2 where 2: "receive_signal i (?th\<lparr>th_sig := (th_sig ?th)\<lparr>t_queue := [j], t_pending := p\<rparr>\<rparr>) = Returned th2"
      "receive_loop ?b [] [j] th2 = Returned th1"
    using r[unfolded assms(2) p] by auto
  have keep: "th_locked th2 \<and> action_of (th_hand th2) (si_signo j) = Some a'
      \<and> signal_action (th_hand th2) (si_signo j) = Some SIGNAL_CALL_HANDLER"
  proof -
    have l: "th_locked th2" using receive_signal_same[OF 2(1)] by (simp add: queue_same_def)
    have "action_of (th_hand th2) (si_signo j) = action_of (th_hand th) (si_signo j)"
      using receive_signal_action[OF 2(1) _ assms(3)] rng by simp
    then show ?thesis using l assms(6,7) by (simp add: signal_action_def split: if_splits)
  qed
  obtain p2 where p2: "receive_loop ?b [] [j] th2 =
      after (receive_signal j (th2\<lparr>th_sig := (th_sig th2)\<lparr>t_queue := [], t_pending := p2\<rparr>\<rparr>)) (receive_loop ?b [] [])"
    using receive_loop_step[OF rng(2), of th2 ?b "[]" "[]"] assms(9) by auto
  have "call_handler j a' (th2\<lparr>th_sig := (th_sig th2)\<lparr>t_queue := [], t_pending := p2\<rparr>\<rparr>) = Returned th1"
    using 2(2)[unfolded p2] keep by (auto simp: receive_signal_def)
  then have "t_queue (th_sig th1) = [] \<and> c_pc (th_cpu th1) = sa_handler a'"
    by (rule call_handler_Returned) (use keep in simp_all)
  then show ?thesis by (simp add: th' unlock_hand_def)
qed

text \<open>Two handlers, the first of which blocks everything, and one signal pending for each.\<close>

definition usr2_action :: sigaction where
  "usr2_action = (handler_of 0)\<lparr>sa_handler := 0x3000\<rparr>"

definition both_hand :: sighand where
  "both_hand = sighand_new\<lparr>sh_action := (sh_action sighand_new)[10 := handler_of (- 1), 12 := usr2_action]\<rparr>"

definition both_thread :: "space \<Rightarrow> thread" where
  "both_thread s = (sample_thread (Some s) both_hand)
     \<lparr>th_sig := fresh_task\<lparr>t_pending := 2 ^ 9 OR 2 ^ 11,
        t_queue := [SIGINFO_NIL\<lparr>si_signo := 10\<rparr>, SIGINFO_NIL\<lparr>si_signo := 12\<rparr>]\<rparr>\<rparr>"

lemma both_ok: "thread_ok (both_thread s)"
proof -
  have "(2::sigset) ^ 9 = 2 ^ nat (10 - 1)" "(2::sigset) ^ 11 = 2 ^ nat (12 - 1)" by simp_all
  then have "holds_sig (2 ^ 9 OR 2 ^ 11) s = (s = 10 \<or> s = 12)" if "sig_range s" for s
    using bit_mask[of 10 s] bit_mask[of 12 s] that
    by (auto simp: holds_sig_def sig_range_def bit_or_iff simp del: power_numeral)
  then show ?thesis
    by (auto simp: thread_ok_def both_thread_def sample_thread_def fresh_task_def sig_ok_def queued_def both_hand_def
        sighand_new_def sig_range_def)
qed

lemma both_actions:
  "signal_action both_hand 10 = Some SIGNAL_CALL_HANDLER" "action_of both_hand 10 = Some (handler_of (- 1))"
  "signal_action both_hand 12 = Some SIGNAL_CALL_HANDLER" "action_of both_hand 12 = Some usr2_action"
  by (simp_all add: signal_action_def signal_is_blockable_def action_of_def both_hand_def sighand_new_def NUM_SIGS_def
      handler_of_def usr2_action_def)

lemma both_sp: "frame_sp (handler_of (- 1)) both_hand 36864 = 32144" "frame_sp usr2_action both_hand 32144 = 27424"
  by (simp_all add: frame_sp_def handler_of_def usr2_action_def both_hand_def sighand_new_def FRAME_SIZE_def Let_def)

lemma both_enters:
  assumes "space_ok s" "writable_range s 20480 16384"
  shows "\<exists>n th1. receive_signals (both_thread s) = Returned (n, th1)"
proof -
  let ?i = "SIGINFO_NIL\<lparr>si_signo := 10\<rparr>" and ?j = "SIGINFO_NIL\<lparr>si_signo := 12\<rparr>"
  let ?th = "(both_thread s)\<lparr>th_locked := True\<rparr>"
  have w: "writable_range s 32144 FRAME_SIZE" "writable_range s 27424 FRAME_SIZE"
    using assms(2) by (simp_all add: writable_range_def FRAME_SIZE_def)
  have top: "32144 + FRAME_SIZE \<le> USER_TOP" "27424 + FRAME_SIZE \<le> USER_TOP"
    by (simp_all add: FRAME_SIZE_def USER_TOP_def MEM_PAGES_def PAGE_BYTES_def)
  have r: "sig_range (si_signo ?i)" "sig_range (si_signo ?j)" by (simp_all add: sig_range_def)
  have th: "th_hand (both_thread s) = both_hand" "th_cpu (both_thread s) = sample_cpu" "th_mem (both_thread s) = Some s"
      "\<not> th_restartable (both_thread s)" "t_blocked (th_sig (both_thread s)) = 0" "c_sp sample_cpu = 36864"
    by (simp_all add: both_thread_def sample_thread_def fresh_task_def sample_cpu_def)
  obtain p where p: "receive_loop 0 [] [?i, ?j] ?th =
      after (receive_signal ?i (?th\<lparr>th_sig := (th_sig ?th)\<lparr>t_queue := [?j], t_pending := p\<rparr>\<rparr>)) (receive_loop 0 [] [?j])"
    using receive_loop_step[OF r(1), of ?th 0 "[]" "[?j]"] by auto
  define t1 where "t1 = ?th\<lparr>th_sig := (th_sig ?th)\<lparr>t_queue := [?j], t_pending := p\<rparr>\<rparr>"
  have t1: "th_hand t1 = both_hand" "th_cpu t1 = sample_cpu" "th_mem t1 = Some s" by (simp_all add: t1_def th)
  have "syscall_restart (handler_of (- 1)) t1 = t1" by (simp add: syscall_restart_def handler_of_def)
  then obtain b s1 where 1: "call_handler ?i (handler_of (- 1)) t1 = Returned (entered ?i (handler_of (- 1)) 32144 b (Some s1) t1)"
      "space_ok s1" "keeps_writable s s1"
    using call_handler_enters[of t1 s ?i 32144 "handler_of (- 1)"] assms(1) r(1) w(1) top(1) both_sp(1) sample_cpu_ok
    by (simp add: t1 th(6) del: split_paired_Ex) blast
  define e where "e = entered ?i (handler_of (- 1)) 32144 b (Some s1) t1"
  have e: "th_hand e = both_hand" "th_mem e = Some s1" "c_sp (th_cpu e) = 32144" "cpu_ok (th_cpu e)"
    using sample_cpu_ok by (simp_all add: e_def entered_def enter_handler_def handler_cpu_def handler_of_def t1 cpu_ok_def)
  obtain p2 where p2: "receive_loop 0 [] [?j] e =
      after (receive_signal ?j (e\<lparr>th_sig := (th_sig e)\<lparr>t_queue := [], t_pending := p2\<rparr>\<rparr>)) (receive_loop 0 [] [])"
    using receive_loop_step[OF r(2), of e 0 "[]" "[]"] by auto
  define t2 where "t2 = e\<lparr>th_sig := (th_sig e)\<lparr>t_queue := [], t_pending := p2\<rparr>\<rparr>"
  have t2: "th_hand t2 = both_hand" "th_mem t2 = Some s1" "c_sp (th_cpu t2) = 32144" "cpu_ok (th_cpu t2)"
    by (simp_all add: t2_def e)
  obtain t3 where 2: "call_handler ?j usr2_action t2 = Returned t3"
    using call_handler_enters[of t2 s1 ?j 27424 usr2_action] 1(2) r(2) top(2) both_sp(2)
      keeps_writable_range[OF 1(3) w(2) top(2)] by (simp add: t2 del: split_paired_Ex) blast
  have "receive_loop 0 [] [?i, ?j] ?th = Returned t3"
    using p p2 1(1) 2 unfolding t1_def[symmetric] e_def[symmetric] t2_def[symmetric]
    by (simp add: receive_signal_def t1 t2 both_actions)
  moreover have "drop_saved_mask (th_sig (both_thread s)) = th_sig (both_thread s)" "receive_mask (th_sig (both_thread s)) = 0"
      "t_queue (th_sig (both_thread s)) = [?i, ?j]" "\<not> th_locked (both_thread s)"
    by (simp_all add: both_thread_def sample_thread_def fresh_task_def drop_saved_mask_def receive_mask_def)
  ultimately show ?thesis by (simp add: receive_signals_def lock_hand_def)
qed

theorem handler_mask_ignored_witness:
  "\<exists>s n th1. receive_signals (both_thread s) = Returned (n, th1) \<and> t_queue (th_sig th1) = [] \<and> c_pc (th_cpu th1) = 0x3000"
proof -
  obtain s where s: "space_ok s" "writable_range s 20480 16384" using four_pages by blast
  then obtain n th1 where r: "receive_signals (both_thread s) = Returned (n, th1)" using both_enters by blast
  have "t_queue (th_sig th1) = [] \<and> c_pc (th_cpu th1) = sa_handler usr2_action"
    by (rule handler_mask_ignored[of _ "SIGINFO_NIL\<lparr>si_signo := 10\<rparr>" "SIGINFO_NIL\<lparr>si_signo := 12\<rparr>"
          "handler_of (- 1)", OF both_ok _ _ _ _ _ _ _ _ r])
      (simp_all add: both_actions both_thread_def sample_thread_def fresh_task_def receive_mask_def handler_of_def holds_sig_def)
  then show ?thesis using r by (intro exI[of _ s] exI[of _ n] exI[of _ th1]) (simp add: usr2_action_def handler_of_def)
qed

text \<open>
  Claim C39. A handled signal on a stack that cannot take the frame hangs the thread for ever instead of killing it:
  \<^verbatim>\<open>receive_signal\<close> answers the failed write with \<^verbatim>\<open>deliver_signal\<close>, which waits for the lock that
  \<^verbatim>\<open>receive_signals\<close> already holds.
\<close>

theorem bad_stack_deadlocks:
  assumes "one_pending i a th" "cpu_ok (th_cpu th)" "info_ok i"
    "\<forall>bs. length bs = FRAME_SIZE \<longrightarrow> (\<exists>r m. user_write_task (th_limit th) (th_mem th)
        (unat (frame_sp a (th_hand th) (c_sp (th_cpu th)))) bs = Some (r, m) \<and> r \<noteq> 0)"
  shows "receive_signals th = Deadlock"
proof -
  obtain t where t: "receive_signals th = after (call_handler i a (th\<lparr>th_locked := True, th_sig := t\<rparr>)) (\<lambda>th1.
         Returned (\<not> g_stopped (th_group th) \<and> g_stopped (th_group th1), unlock_hand th1))"
    by (rule receive_one[OF assms(1)])
  let ?th = "th\<lparr>th_locked := True, th_sig := t\<rparr>" and ?sp = "frame_sp a (th_hand th) (c_sp (th_cpu th))"
  have "sig_range (si_signo i)" using assms(1) by (simp add: one_pending_def)
  from handler_mask_range[OF this] obtain b where b: "handler_mask a (si_signo i) (t_blocked t) = Some b" by blast
  have ok: "cpu_ok (th_cpu (syscall_restart a ?th))" "c_sp (th_cpu (syscall_restart a ?th)) = c_sp (th_cpu th)"
    using assms(2) by (auto simp: cpu_ok_def syscall_restart_def Let_def)
  obtain r m where w: "user_write_task (th_limit th) (th_mem th) (unat ?sp)
      (frame_bytes (handler_frame i ?sp (syscall_restart a ?th))) = Some (r, m)" "r \<noteq> 0"
    using assms(4) length_frame[OF ok(1) assms(3), of ?sp] by blast
  have "call_handler i a ?th = Deadlock"
    using b w by (simp add: call_handler_def Let_def ok(2) deliver_self_def lock_hand_def)
  then show ?thesis using t by simp
qed

lemma no_page: "mem_fault_in limit (mem_init, no_host) p = Some (False, (mem_init, no_host))"
  by (simp add: mem_fault_in_def Let_def mem_find_reservation_def) (simp add: mem_init_def)

theorem bad_stack_deadlocks_witness: "receive_signals (usr1_thread 0 (Some (mem_init, no_host))) = Deadlock"
proof (rule bad_stack_deadlocks[OF usr1_pending])
  have "unat (frame_sp (handler_of 0) (usr1_hand 0) 36864) = 32144" by (simp add: usr1_sp)
  then show "\<forall>bs. length bs = FRAME_SIZE \<longrightarrow> (\<exists>r m. user_write_task (th_limit (usr1_thread 0 (Some (mem_init, no_host))))
      (th_mem (usr1_thread 0 (Some (mem_init, no_host)))) (unat (frame_sp (handler_of 0)
        (th_hand (usr1_thread 0 (Some (mem_init, no_host)))) (c_sp (th_cpu (usr1_thread 0 (Some (mem_init, no_host))))))) bs
      = Some (r, m) \<and> r \<noteq> 0)"
    by (simp add: usr1_thread_def sample_thread_def sample_cpu_def user_write_task_def FRAME_SIZE_def ADDR_MOD_def
        user_write_mem.simps mem_ptr_def no_page)
qed (simp_all add: usr1_thread_def sample_thread_def sample_cpu_ok)

end
