(* ===== verification/Process_Table.thy ===== *)
theory Process_Table
  imports Signal_State
begin

text \<open>
  Tasks, thread groups and their numbers (\<^verbatim>\<open>kernel/task.c\<close>, \<^verbatim>\<open>kernel/group.c\<close>, \<^verbatim>\<open>kernel/fork.c\<close>): the objects live in
  a heap by address and are linked through intrusive lists, so a node is in one list at a time and freeing an
  object that is still linked leaves a dangling member. \<open>None\<close> is a null or freed pointer used, a failed
  assertion, or a search that never ends. Every operation runs under \<^verbatim>\<open>pids_lock\<close> and is one step.
\<close>

section \<open>Objects\<close>

abbreviation (input) MAX_PID :: int where "MAX_PID \<equiv> 32768"

text \<open>
  \<open>k_on\<close>: the task whose list of children the node \<^verbatim>\<open>siblings\<close> is in; \<open>k_linked\<close>: whether \<^verbatim>\<open>group_links\<close> is in the
  list of threads of the group. The flags \<^verbatim>\<open>zombie\<close> and \<^verbatim>\<open>exiting\<close> are those of \<open>k_sig\<close>.
\<close>

record task =
  k_pid :: int
  k_tgid :: int
  k_uid :: u32
  k_euid :: u32
  k_suid :: u32
  k_group :: nat
  k_linked :: bool
  k_parent :: "nat option"
  k_children :: "nat list"
  k_on :: "nat option"
  k_sig :: stask
  k_hand :: "nat option"
  k_exit_code :: u32
  k_exit_signal :: int

text \<open>\<open>n_pgroup_at\<close>, \<open>n_session_at\<close>: the number whose list the group is in.\<close>

record tgroup =
  n_threads :: "nat list"
  n_leader :: nat
  n_sid :: int
  n_pgid :: int
  n_pgroup_at :: "int option"
  n_session_at :: "int option"
  n_state :: sgroup
  n_group_exit :: bool
  n_tty :: "nat option"

record hand =
  h_refs :: nat
  h_sig :: sighand

record tty =
  y_refs :: int
  y_session :: int

record slot =
  s_task :: "nat option"
  s_session :: "nat list"
  s_pgroup :: "nat list"

text \<open>\<open>p_next\<close> is the address of the next allocation.\<close>

record procs =
  p_task :: "nat \<rightharpoonup> task"
  p_group :: "nat \<rightharpoonup> tgroup"
  p_hand :: "nat \<rightharpoonup> hand"
  p_tty :: "nat \<rightharpoonup> tty"
  p_slot :: "int \<Rightarrow> slot"
  p_cur :: int
  p_next :: nat

definition upd_task :: "nat \<Rightarrow> (task \<Rightarrow> task) \<Rightarrow> procs \<Rightarrow> procs option" where
  "upd_task a f s = do { k \<leftarrow> p_task s a; Some (s\<lparr>p_task := (p_task s)(a \<mapsto> f k)\<rparr>) }"

definition upd_group :: "nat \<Rightarrow> (tgroup \<Rightarrow> tgroup) \<Rightarrow> procs \<Rightarrow> procs option" where
  "upd_group g f s = do { n \<leftarrow> p_group s g; Some (s\<lparr>p_group := (p_group s)(g \<mapsto> f n)\<rparr>) }"

definition upd_slot :: "int \<Rightarrow> (slot \<Rightarrow> slot) \<Rightarrow> procs \<Rightarrow> procs" where
  "upd_slot i f s = s\<lparr>p_slot := (p_slot s)(i := f (p_slot s i))\<rparr>"

section \<open>The four kinds of lists\<close>

text \<open>
  \<^verbatim>\<open>list_add\<close> puts a node at the head of a list; \<^verbatim>\<open>list_remove\<close> takes it out of the list it is in, and uses null
  pointers if it is in none.
\<close>

definition sib_add :: "nat \<Rightarrow> nat \<Rightarrow> procs \<Rightarrow> procs option" where
  "sib_add p c s = do {
     s1 \<leftarrow> upd_task p (\<lambda>k. k\<lparr>k_children := c # k_children k\<rparr>) s;
     upd_task c (\<lambda>k. k\<lparr>k_on := Some p\<rparr>) s1
   }"

definition sib_del :: "nat \<Rightarrow> procs \<Rightarrow> procs option" where
  "sib_del c s = do {
     k \<leftarrow> p_task s c;
     case k_on k of
       None \<Rightarrow> Some s
     | Some p \<Rightarrow> do {
         s1 \<leftarrow> upd_task p (\<lambda>k. k\<lparr>k_children := remove1 c (k_children k)\<rparr>) s;
         upd_task c (\<lambda>k. k\<lparr>k_on := None\<rparr>) s1
       }
   }"

definition thr_add :: "nat \<Rightarrow> procs \<Rightarrow> procs option" where
  "thr_add a s = do {
     k \<leftarrow> p_task s a;
     s1 \<leftarrow> upd_group (k_group k) (\<lambda>n. n\<lparr>n_threads := a # n_threads n\<rparr>) s;
     upd_task a (\<lambda>k. k\<lparr>k_linked := True\<rparr>) s1
   }"

definition thr_del :: "nat \<Rightarrow> procs \<Rightarrow> procs option" where
  "thr_del a s = do {
     k \<leftarrow> p_task s a;
     if \<not> k_linked k then None
     else do {
       s1 \<leftarrow> upd_group (k_group k) (\<lambda>n. n\<lparr>n_threads := remove1 a (n_threads n)\<rparr>) s;
       upd_task a (\<lambda>k. k\<lparr>k_linked := False\<rparr>) s1
     }
   }"

definition pg_add :: "int \<Rightarrow> nat \<Rightarrow> procs \<Rightarrow> procs option" where
  "pg_add i g s = upd_group g (\<lambda>n. n\<lparr>n_pgroup_at := Some i\<rparr>)
     (upd_slot i (\<lambda>sl. sl\<lparr>s_pgroup := g # s_pgroup sl\<rparr>) s)"

definition pg_del :: "nat \<Rightarrow> procs \<Rightarrow> procs option" where
  "pg_del g s = do {
     n \<leftarrow> p_group s g;
     i \<leftarrow> n_pgroup_at n;
     upd_group g (\<lambda>n. n\<lparr>n_pgroup_at := None\<rparr>) (upd_slot i (\<lambda>sl. sl\<lparr>s_pgroup := remove1 g (s_pgroup sl)\<rparr>) s)
   }"

definition ses_add :: "int \<Rightarrow> nat \<Rightarrow> procs \<Rightarrow> procs option" where
  "ses_add i g s = upd_group g (\<lambda>n. n\<lparr>n_session_at := Some i\<rparr>)
     (upd_slot i (\<lambda>sl. sl\<lparr>s_session := g # s_session sl\<rparr>) s)"

definition ses_del :: "nat \<Rightarrow> procs \<Rightarrow> procs option" where
  "ses_del g s = do {
     n \<leftarrow> p_group s g;
     i \<leftarrow> n_session_at n;
     upd_group g (\<lambda>n. n\<lparr>n_session_at := None\<rparr>) (upd_slot i (\<lambda>sl. sl\<lparr>s_session := remove1 g (s_session sl)\<rparr>) s)
   }"

text \<open>\<^verbatim>\<open>list_add\<close> on a node that is in a list puts the new node after it.\<close>

fun insert_after :: "'a \<Rightarrow> 'a \<Rightarrow> 'a list \<Rightarrow> 'a list" where
  "insert_after x y [] = []"
| "insert_after x y (z # zs) = (if z = x then z # y # zs else z # insert_after x y zs)"

definition pg_add_after :: "nat \<Rightarrow> nat \<Rightarrow> procs \<Rightarrow> procs option" where
  "pg_add_after old g s = do {
     n \<leftarrow> p_group s old;
     i \<leftarrow> n_pgroup_at n;
     upd_group g (\<lambda>n. n\<lparr>n_pgroup_at := Some i\<rparr>) (upd_slot i (\<lambda>sl. sl\<lparr>s_pgroup := insert_after old g (s_pgroup sl)\<rparr>) s)
   }"

definition ses_add_after :: "nat \<Rightarrow> nat \<Rightarrow> procs \<Rightarrow> procs option" where
  "ses_add_after old g s = do {
     n \<leftarrow> p_group s old;
     i \<leftarrow> n_session_at n;
     upd_group g (\<lambda>n. n\<lparr>n_session_at := Some i\<rparr>) (upd_slot i (\<lambda>sl. sl\<lparr>s_session := insert_after old g (s_session sl)\<rparr>) s)
   }"

section \<open>Numbers\<close>

definition pid_empty :: "slot \<Rightarrow> bool" where
  "pid_empty sl \<longleftrightarrow> s_task sl = None \<and> s_session sl = [] \<and> s_pgroup sl = []"

definition pid_get :: "procs \<Rightarrow> int \<Rightarrow> slot option" where
  "pid_get s i = (if 0 \<le> i \<and> i \<le> MAX_PID \<and> \<not> pid_empty (p_slot s i) then Some (p_slot s i) else None)"

definition pid_get_task_zombie :: "procs \<Rightarrow> int \<Rightarrow> nat option" where
  "pid_get_task_zombie s i = (case pid_get s i of None \<Rightarrow> None | Some sl \<Rightarrow> s_task sl)"

text \<open>The inner \<open>None\<close> is \<^verbatim>\<open>NULL\<close>.\<close>

definition pid_get_task :: "procs \<Rightarrow> int \<Rightarrow> nat option option" where
  "pid_get_task s i = (case pid_get_task_zombie s i of
     None \<Rightarrow> Some None
   | Some a \<Rightarrow> do { k \<leftarrow> p_task s a; Some (if t_zombie (k_sig k) then None else Some a) })"

text \<open>The next free number after the last one given out, going round; for ever when none is free.\<close>

partial_function (option) next_pid :: "(int \<Rightarrow> slot) \<Rightarrow> int \<Rightarrow> int option" where
  "next_pid slots cur =
     (let i = (if cur + 1 > MAX_PID then 1 else cur + 1)
      in if pid_empty (slots i) then Some i else next_pid slots i)"

section \<open>Creating and destroying tasks\<close>

definition fresh_stask :: stask where
  "fresh_stask = \<lparr>t_blocked = 0, t_pending = 0, t_waiting = 0, t_queue = [], t_saved_mask = 0, t_has_saved_mask = False,
     t_zombie = False, t_exiting = False, t_woken = False\<rparr>"

definition zero_task :: task where
  "zero_task = \<lparr>k_pid = 0, k_tgid = 0, k_uid = 0, k_euid = 0, k_suid = 0, k_group = 0, k_linked = False, k_parent = None,
     k_children = [], k_on = None, k_sig = fresh_stask, k_hand = None, k_exit_code = 0, k_exit_signal = 0\<rparr>"

text \<open>The new task, and \<open>None\<close> inside when there is no memory for it.\<close>

definition task_create :: "bool \<Rightarrow> nat option \<Rightarrow> procs \<Rightarrow> (nat option \<times> procs) option" where
  "task_create room parent s = do {
     i \<leftarrow> next_pid (p_slot s) (p_cur s);
     let s1 = s\<lparr>p_cur := i, p_slot := (p_slot s)(i := (p_slot s i)\<lparr>s_session := [], s_pgroup := []\<rparr>)\<rparr>;
     if \<not> room then Some (None, s1)
     else do {
       base \<leftarrow> (case parent of None \<Rightarrow> Some zero_task | Some p \<Rightarrow> p_task s p);
       let a = p_next s;
       let k = base\<lparr>k_pid := i, k_linked := False, k_children := [], k_on := None,
                    k_parent := (case parent of None \<Rightarrow> k_parent base | Some p \<Rightarrow> Some p),
                    k_sig := (k_sig base)\<lparr>t_pending := 0, t_queue := [], t_woken := False\<rparr>\<rparr>;
       let s2 = upd_slot i (\<lambda>sl. sl\<lparr>s_task := Some a\<rparr>) (s1\<lparr>p_task := (p_task s1)(a \<mapsto> k), p_next := a + 1\<rparr>);
       s3 \<leftarrow> (case parent of None \<Rightarrow> Some s2 | Some p \<Rightarrow> sib_add p a s2);
       Some (Some a, s3)
     }
   }"

definition task_destroy :: "nat \<Rightarrow> procs \<Rightarrow> procs option" where
  "task_destroy a s = do {
     s1 \<leftarrow> sib_del a s;
     k \<leftarrow> p_task s1 a;
     _ \<leftarrow> pid_get s1 (k_pid k);
     let s2 = upd_slot (k_pid k) (\<lambda>sl. sl\<lparr>s_task := None\<rparr>) s1;
     Some (s2\<lparr>p_task := (p_task s2)(a := None)\<rparr>)
   }"

definition sighand_release :: "nat \<Rightarrow> procs \<Rightarrow> procs option" where
  "sighand_release h s = do {
     r \<leftarrow> p_hand s h;
     Some (s\<lparr>p_hand := (p_hand s)(h := if h_refs r = 1 then None else Some (r\<lparr>h_refs := h_refs r - 1\<rparr>))\<rparr>)
   }"

section \<open>Sessions and process groups\<close>

definition task_leave_session :: "nat \<Rightarrow> procs \<Rightarrow> procs option" where
  "task_leave_session a s = do {
     k \<leftarrow> p_task s a;
     n \<leftarrow> p_group s (k_group k);
     s1 \<leftarrow> (case n_session_at n of None \<Rightarrow> Some s | Some _ \<Rightarrow> ses_del (k_group k) s);
     case n_tty n of
       None \<Rightarrow> Some s1
     | Some y \<Rightarrow> do {
         sl \<leftarrow> pid_get s1 (n_sid n);
         t \<leftarrow> p_tty s1 y;
         let t1 = (if s_session sl = [] then t\<lparr>y_session := 0\<rparr> else t);
         let s2 = s1\<lparr>p_tty := (p_tty s1)(y := if y_refs t = 1 then None else Some (t1\<lparr>y_refs := y_refs t - 1\<rparr>))\<rparr>;
         upd_group (k_group k) (\<lambda>n. n\<lparr>n_tty := None\<rparr>) s2
       }
   }"

definition task_setsid :: "nat \<Rightarrow> procs \<Rightarrow> (int \<times> procs) option" where
  "task_setsid a s = do {
     k \<leftarrow> p_task s a;
     n \<leftarrow> p_group s (k_group k);
     l \<leftarrow> p_task s (n_leader n);
     let sid = k_pid l;
     if n_pgid n = sid \<or> n_sid n = sid then Some (EPERM, s)
     else do {
       s1 \<leftarrow> task_leave_session a s;
       _ \<leftarrow> pid_get s1 (k_pid k);
       s2 \<leftarrow> ses_add (k_pid k) (k_group k) s1;
       s3 \<leftarrow> upd_group (k_group k) (\<lambda>n. n\<lparr>n_sid := sid\<rparr>) s2;
       s4 \<leftarrow> (case n_pgroup_at n of None \<Rightarrow> Some s3 | Some _ \<Rightarrow> pg_del (k_group k) s3);
       s5 \<leftarrow> pg_add (k_pid k) (k_group k) s4;
       s6 \<leftarrow> upd_group (k_group k) (\<lambda>n. n\<lparr>n_pgid := sid\<rparr>) s5;
       Some (sid, s6)
     }
   }"

text \<open>\<open>Some e\<close> when a task may not join the group \<open>pgid\<close>.\<close>

definition join_check :: "procs \<Rightarrow> int \<Rightarrow> int \<Rightarrow> tgroup \<Rightarrow> int option option" where
  "join_check s i pgid n =
     (if i = pgid then Some None
      else case pid_get s pgid of
        None \<Rightarrow> Some (Some EPERM)
      | Some sl \<Rightarrow>
          (case s_pgroup sl of
             [] \<Rightarrow> Some (Some EPERM)
           | f # _ \<Rightarrow> do { n' \<leftarrow> p_group s f; Some (if n_sid n \<noteq> n_sid n' then Some EPERM else None) }))"

definition sys_setpgid :: "nat \<Rightarrow> int \<Rightarrow> int \<Rightarrow> procs \<Rightarrow> (int \<times> procs) option" where
  "sys_setpgid cur id0 pgid0 s = do {
     c \<leftarrow> p_task s cur;
     let i = (if id0 = 0 then k_pid c else id0);
     let pgid = (if pgid0 = 0 then i else pgid0);
     case pid_get_task_zombie s i of
       None \<Rightarrow> Some (ESRCH, s)
     | Some a \<Rightarrow> do {
         k \<leftarrow> p_task s a;
         n \<leftarrow> p_group s (k_group k);
         e \<leftarrow> join_check s i pgid n;
         case e of
           Some e \<Rightarrow> Some (e, s)
         | None \<Rightarrow>
             if a \<noteq> cur \<and> k_parent k \<noteq> Some cur then Some (ESRCH, s)
             else do {
               l \<leftarrow> p_task s (n_leader n);
               if n_sid n = k_pid l then Some (EPERM, s)
               else if n_pgid n = pgid then Some (0, s)
               else do {
                 s1 \<leftarrow> pg_del (k_group k) s;
                 s2 \<leftarrow> upd_group (k_group k) (\<lambda>n. n\<lparr>n_pgid := pgid\<rparr>) s1;
                 s3 \<leftarrow> pg_add i (k_group k) s2;
                 Some (0, s3)
               }
             }
       }
   }"

definition sys_getpgid :: "nat \<Rightarrow> int \<Rightarrow> procs \<Rightarrow> int option" where
  "sys_getpgid cur i s = do {
     a \<leftarrow> (if i = 0 then Some (Some cur) else pid_get_task s i);
     case a of
       None \<Rightarrow> Some ESRCH
     | Some a \<Rightarrow> do { k \<leftarrow> p_task s a; n \<leftarrow> p_group s (k_group k); Some (n_pgid n) }
   }"

definition sys_getsid :: "nat \<Rightarrow> procs \<Rightarrow> int option" where
  "sys_getsid cur s = do { k \<leftarrow> p_task s cur; n \<leftarrow> p_group s (k_group k); Some (n_sid n) }"

end
