(* ===== verification/Process_Calls.thy ===== *)
theory Process_Calls
  imports Process_Table
begin

text \<open>
  The life of a task over the table of \<open>Process_Table\<close>: cloning (\<^verbatim>\<open>kernel/fork.c\<close>), exiting and waiting
  (\<^verbatim>\<open>kernel/exit.c\<close>), and sending signals by number (\<^verbatim>\<open>kernel/signal.c\<close>). Memory, descriptors and times are
  left to their own components: whether a copy of them fails is an argument. The force-kill of threads that are stuck in the
  host and ptrace are not modelled.
\<close>

unbundle bit_operations_syntax

section \<open>Cloning\<close>

abbreviation (input) CSIGNAL :: u32 where "CSIGNAL \<equiv> 0xff"
abbreviation (input) CLONE_VM :: u32 where "CLONE_VM \<equiv> 0x100"
abbreviation (input) CLONE_FS :: u32 where "CLONE_FS \<equiv> 0x200"
abbreviation (input) CLONE_FILES :: u32 where "CLONE_FILES \<equiv> 0x400"
abbreviation (input) CLONE_SIGHAND :: u32 where "CLONE_SIGHAND \<equiv> 0x800"
abbreviation (input) CLONE_VFORK :: u32 where "CLONE_VFORK \<equiv> 0x4000"
abbreviation (input) CLONE_THREAD :: u32 where "CLONE_THREAD \<equiv> 0x10000"
abbreviation (input) CLONE_SYSVSEM :: u32 where "CLONE_SYSVSEM \<equiv> 0x40000"
abbreviation (input) CLONE_SETTLS :: u32 where "CLONE_SETTLS \<equiv> 0x80000"
abbreviation (input) CLONE_PARENT_SETTID :: u32 where "CLONE_PARENT_SETTID \<equiv> 0x100000"
abbreviation (input) CLONE_CHILD_CLEARTID :: u32 where "CLONE_CHILD_CLEARTID \<equiv> 0x200000"
abbreviation (input) CLONE_DETACHED :: u32 where "CLONE_DETACHED \<equiv> 0x400000"
abbreviation (input) CLONE_CHILD_SETTID :: u32 where "CLONE_CHILD_SETTID \<equiv> 0x1000000"

definition IMPLEMENTED_FLAGS :: u32 where
  "IMPLEMENTED_FLAGS = CLONE_VM OR CLONE_FILES OR CLONE_FS OR CLONE_SIGHAND OR CLONE_SYSVSEM OR CLONE_VFORK OR CLONE_THREAD
     OR CLONE_SETTLS OR CLONE_CHILD_SETTID OR CLONE_PARENT_SETTID OR CLONE_CHILD_CLEARTID OR CLONE_DETACHED"

text \<open>What may fail: the task, the copies of memory, files and root directory, the signal actions, the group, and
  storing the number of the child.\<close>

datatype clone_fail = No_Failure | Fail_Task | Fail_Copies | Fail_Hand | Fail_Group | Fail_Tid

definition tgroup_copy :: "nat \<Rightarrow> procs \<Rightarrow> (nat \<times> procs) option" where
  "tgroup_copy old s = do {
     n \<leftarrow> p_group s old;
     let g = p_next s;
     let s1 = s\<lparr>p_group := (p_group s)(g \<mapsto> n\<lparr>n_threads := [], n_pgroup_at := None, n_session_at := None, n_group_exit := False\<rparr>),
                p_next := g + 1\<rparr>;
     s2 \<leftarrow> pg_add_after old g s1;
     s3 \<leftarrow> ses_add_after old g s2;
     s4 \<leftarrow> (case n_tty n of
              None \<Rightarrow> Some s3
            | Some y \<Rightarrow> do { t \<leftarrow> p_tty s3 y; Some (s3\<lparr>p_tty := (p_tty s3)(y \<mapsto> t\<lparr>y_refs := y_refs t + 1\<rparr>)\<rparr>) });
     Some (g, s4)
   }"

definition tgroup_free :: "nat \<Rightarrow> procs \<Rightarrow> procs option" where
  "tgroup_free g s = do {
     s1 \<leftarrow> pg_del g s;
     s2 \<leftarrow> ses_del g s1;
     n \<leftarrow> p_group s2 g;
     s3 \<leftarrow> (case n_tty n of
              None \<Rightarrow> Some s2
            | Some y \<Rightarrow> do { t \<leftarrow> p_tty s2 y; Some (s2\<lparr>p_tty := (p_tty s2)(y \<mapsto> t\<lparr>y_refs := y_refs t - 1\<rparr>)\<rparr>) });
     Some (s3\<lparr>p_group := (p_group s3)(g := None)\<rparr>)
   }"

text \<open>The signal actions of the new task: shared, or a copy.\<close>

definition copy_hand :: "nat \<Rightarrow> bool \<Rightarrow> procs \<Rightarrow> procs option" where
  "copy_hand a shared s = do {
     k \<leftarrow> p_task s a;
     h \<leftarrow> k_hand k;
     r \<leftarrow> p_hand s h;
     if shared then Some (s\<lparr>p_hand := (p_hand s)(h \<mapsto> r\<lparr>h_refs := h_refs r + 1\<rparr>)\<rparr>)
     else upd_task a (\<lambda>k. k\<lparr>k_hand := Some (p_next s)\<rparr>)
            (s\<lparr>p_hand := (p_hand s)(p_next s \<mapsto> \<lparr>h_refs = 1, h_sig = sighand_copy (h_sig r)\<rparr>), p_next := p_next s + 1\<rparr>)
   }"

text \<open>The group of the new task: the same for a thread, a copy for a process.\<close>

definition join_group :: "nat \<Rightarrow> bool \<Rightarrow> procs \<Rightarrow> procs option" where
  "join_group a thread s = do {
     k \<leftarrow> p_task s a;
     s1 \<leftarrow> (if thread then Some s
            else do {
              (g, s') \<leftarrow> tgroup_copy (k_group k) s;
              s'' \<leftarrow> upd_group g (\<lambda>n. n\<lparr>n_leader := a\<rparr>) s';
              upd_task a (\<lambda>k. k\<lparr>k_group := g, k_tgid := k_pid k\<rparr>) s''
            });
     thr_add a s1
   }"

definition unjoin_group :: "nat \<Rightarrow> bool \<Rightarrow> nat \<Rightarrow> procs \<Rightarrow> procs option" where
  "unjoin_group a thread old s = do {
     s1 \<leftarrow> thr_del a s;
     if thread then Some s1
     else do {
       k \<leftarrow> p_task s1 a;
       s2 \<leftarrow> tgroup_free (k_group k) s1;
       n \<leftarrow> p_group s2 old;
       l \<leftarrow> p_task s2 (n_leader n);
       upd_task a (\<lambda>k. k\<lparr>k_group := old, k_tgid := k_tgid l\<rparr>) s2
     }
   }"

definition release_hand_of :: "nat \<Rightarrow> procs \<Rightarrow> procs option" where
  "release_hand_of a s = do { k \<leftarrow> p_task s a; h \<leftarrow> k_hand k; sighand_release h s }"

definition copy_task :: "nat \<Rightarrow> u32 \<Rightarrow> clone_fail \<Rightarrow> procs \<Rightarrow> (int \<times> procs) option" where
  "copy_task a flags fail s = (
     if fail = Fail_Copies then Some (ENOMEM, s)
     else if fail = Fail_Hand \<and> flags AND CLONE_SIGHAND = 0 then Some (ENOMEM, s)
     else do {
       k \<leftarrow> p_task s a;
       let thread = (flags AND CLONE_THREAD \<noteq> 0);
       s1 \<leftarrow> copy_hand a (flags AND CLONE_SIGHAND \<noteq> 0) s;
       if fail = Fail_Group \<and> \<not> thread then do { s2 \<leftarrow> release_hand_of a s1; Some (ENOMEM, s2) }
       else do {
         s2 \<leftarrow> join_group a thread s1;
         if fail = Fail_Tid \<and> flags AND (CLONE_CHILD_SETTID OR CLONE_PARENT_SETTID) \<noteq> 0 then do {
           s3 \<leftarrow> unjoin_group a thread (k_group k) s2;
           s4 \<leftarrow> release_hand_of a s3;
           Some (EFAULT, s4)
         } else do {
           s3 \<leftarrow> upd_task a (\<lambda>k. k\<lparr>k_exit_signal := uint (flags AND CSIGNAL)\<rparr>) s2;
           Some (0, s3)
         }
       }
     })"

text \<open>After the flags were checked.\<close>

definition clone_body :: "nat \<Rightarrow> u32 \<Rightarrow> clone_fail \<Rightarrow> procs \<Rightarrow> (int \<times> procs) option" where
  "clone_body cur flags fail s = do {
     (t, s1) \<leftarrow> task_create (fail \<noteq> Fail_Task) (Some cur) s;
     case t of
       None \<Rightarrow> Some (ENOMEM, s1)
     | Some a \<Rightarrow> do {
         (err, s2) \<leftarrow> copy_task a flags fail s1;
         if err < 0 then do { s3 \<leftarrow> task_destroy a s2; Some (err, s3) }
         else do { k \<leftarrow> p_task s2 a; Some (k_pid k, s2) }
       }
   }"

text \<open>\<open>guard\<close>: the answer of the fork guard, if there is one.\<close>

definition sys_clone :: "nat \<Rightarrow> u32 \<Rightarrow> int option \<Rightarrow> clone_fail \<Rightarrow> procs \<Rightarrow> (int \<times> procs) option" where
  "sys_clone cur flags guard fail s =
     (if flags AND NOT CSIGNAL AND NOT IMPLEMENTED_FLAGS \<noteq> 0 then Some (EINVAL, s)
      else if flags AND CLONE_SIGHAND \<noteq> 0 \<and> flags AND CLONE_VM = 0 then Some (EINVAL, s)
      else if flags AND CLONE_THREAD \<noteq> 0 \<and> flags AND CLONE_SIGHAND = 0 then Some (EINVAL, s)
      else case (if flags AND CLONE_THREAD = 0 then guard else None) of
        Some e \<Rightarrow> if e < 0 then Some (e, s) else clone_body cur flags fail s
      | None \<Rightarrow> clone_body cur flags fail s)"

section \<open>Signals by address\<close>

text \<open>\<^verbatim>\<open>send_signal\<close> from the task \<open>cur\<close> to the task at \<open>a\<close>.\<close>

definition send_task :: "nat \<Rightarrow> nat \<Rightarrow> int \<Rightarrow> siginfo \<Rightarrow> procs \<Rightarrow> procs option" where
  "send_task cur a sig info s = do {
     k \<leftarrow> p_task s a;
     if sig = 0 \<or> t_zombie (k_sig k) \<or> t_exiting (k_sig k) then Some s
     else case k_hand k of
       None \<Rightarrow> Some s
     | Some h \<Rightarrow> do {
         r \<leftarrow> p_hand s h;
         n \<leftarrow> p_group s (k_group k);
         (t, st) \<leftarrow> send_signal False (a = cur) sig info (Some (h_sig r)) (k_sig k, n_state n);
         s1 \<leftarrow> upd_task a (\<lambda>k. k\<lparr>k_sig := t\<rparr>) s;
         upd_group (k_group k) (\<lambda>n. n\<lparr>n_state := st\<rparr>) s1
       }
   }"

text \<open>\<^verbatim>\<open>deliver_signal\<close>, which does not look at the action.\<close>

definition deliver_task :: "nat \<Rightarrow> nat \<Rightarrow> int \<Rightarrow> siginfo \<Rightarrow> procs \<Rightarrow> procs option" where
  "deliver_task cur a sig info s = do {
     k \<leftarrow> p_task s a;
     case k_hand k of
       None \<Rightarrow> Some s
     | Some h \<Rightarrow> do {
         r \<leftarrow> p_hand s h;
         t \<leftarrow> deliver_signal (a = cur) sig info (Some (h_sig r)) (k_sig k);
         upd_task a (\<lambda>k. k\<lparr>k_sig := t\<rparr>) s
       }
   }"

section \<open>Exiting\<close>

text \<open>The fields of \<^verbatim>\<open>siginfo.child\<close>; the two times are 16 bytes from the clock.\<close>

record child_info =
  ci_sig :: int
  ci_code :: int
  ci_pid :: int
  ci_uid :: u32
  ci_status :: u32

abbreviation (input) CLD_EXITED :: int where "CLD_EXITED \<equiv> 1"
abbreviation (input) CLD_KILLED :: int where "CLD_KILLED \<equiv> 2"
abbreviation (input) CLD_DUMPED :: int where "CLD_DUMPED \<equiv> 3"
abbreviation (input) CLD_TRAPPED :: int where "CLD_TRAPPED \<equiv> 4"
abbreviation (input) CLD_STOPPED :: int where "CLD_STOPPED \<equiv> 5"
abbreviation (input) CLD_CONTINUED :: int where "CLD_CONTINUED \<equiv> 6"

definition waitid_decode_status :: "child_info \<Rightarrow> child_info" where
  "waitid_decode_status i0 =
     (let status = ci_status i0; i = i0\<lparr>ci_sig := SIGCHLD\<rparr>
      in if status AND 0xff = 0x7f
         then i\<lparr>ci_code := (if ci_code i = CLD_TRAPPED then CLD_TRAPPED else CLD_STOPPED),
                ci_status := drop_bit 8 status AND 0xff\<rparr>
         else if status = 0xffff then i\<lparr>ci_code := CLD_CONTINUED, ci_status := word_of_int SIGCONT\<rparr>
         else if status AND 0x7f \<noteq> 0
         then i\<lparr>ci_code := (if status AND 0x80 \<noteq> 0 then CLD_DUMPED else CLD_KILLED), ci_status := status AND 0x7f\<rparr>
         else i\<lparr>ci_code := CLD_EXITED, ci_status := drop_bit 8 status AND 0xff\<rparr>)"

definition child_siginfo :: "byte list \<Rightarrow> child_info \<Rightarrow> siginfo" where
  "child_siginfo clocks i = \<lparr>si_signo = ci_sig i, si_errno = 0, si_code = ci_code i,
     si_fields = word_bytes (word_of_int (ci_pid i) :: u32) @ word_bytes (ci_uid i) @ word_bytes (ci_status i)
       @ replicate 4 0 @ clocks @ replicate 80 0\<rparr>"

fun find_alive :: "procs \<Rightarrow> nat list \<Rightarrow> nat option option" where
  "find_alive s [] = Some None"
| "find_alive s (a # as) = do { k \<leftarrow> p_task s a; if t_exiting (k_sig k) then find_alive s as else Some (Some a) }"

definition find_new_parent :: "nat \<Rightarrow> procs \<Rightarrow> nat option option" where
  "find_new_parent a s = do {
     k \<leftarrow> p_task s a;
     n \<leftarrow> p_group s (k_group k);
     r \<leftarrow> find_alive s (n_threads n);
     case r of Some t \<Rightarrow> Some (Some t) | None \<Rightarrow> pid_get_task s 1
   }"

definition reparent_child :: "nat option \<Rightarrow> procs \<Rightarrow> nat \<Rightarrow> procs option" where
  "reparent_child np s c = do {
     s1 \<leftarrow> upd_task c (\<lambda>k. k\<lparr>k_parent := np\<rparr>) s;
     s2 \<leftarrow> sib_del c s1;
     p \<leftarrow> np;
     sib_add p c s2
   }"

definition reparent_children :: "nat \<Rightarrow> procs \<Rightarrow> procs option" where
  "reparent_children cur s = do {
     np \<leftarrow> find_new_parent cur s;
     k \<leftarrow> p_task s cur;
     iter_opt (reparent_child np) s (k_children k)
   }"

text \<open>The first part of \<^verbatim>\<open>do_exit\<close> under the lock: the task is marked and lets go of its signal actions.\<close>

definition exit_mark :: "nat \<Rightarrow> u32 \<Rightarrow> procs \<Rightarrow> procs option" where
  "exit_mark cur status s = do {
     k \<leftarrow> p_task s cur;
     s1 \<leftarrow> upd_task cur (\<lambda>k. k\<lparr>k_exit_code := status, k_sig := (k_sig k)\<lparr>t_exiting := True, t_queue := []\<rparr>, k_hand := None\<rparr>) s;
     case k_hand k of None \<Rightarrow> Some s1 | Some h \<Rightarrow> sighand_release h s1
   }"

text \<open>The tail of a reaping: the group leaves its session and its process group and is freed with its leader.\<close>

definition free_group :: "nat \<Rightarrow> procs \<Rightarrow> procs option" where
  "free_group leader s = do {
     s1 \<leftarrow> task_leave_session leader s;
     k \<leftarrow> p_task s1 leader;
     s2 \<leftarrow> pg_del (k_group k) s1;
     task_destroy leader (s2\<lparr>p_group := (p_group s2)(k_group k := None)\<rparr>)
   }"

definition auto_reaps :: "task \<Rightarrow> task \<Rightarrow> procs \<Rightarrow> bool option" where
  "auto_reaps l p s =
     (if k_exit_signal l \<noteq> SIGCHLD then Some False
      else case k_hand p of
        None \<Rightarrow> Some False
      | Some h \<Rightarrow> do {
          r \<leftarrow> p_hand s h;
          a \<leftarrow> action_of (h_sig r) SIGCHLD;
          Some (sa_handler a = SIG_IGN \<or> sa_flags a AND 2 \<noteq> 0)
        })"

text \<open>What the last thread of a group does. \<open>Halted\<close>: the first process is gone and with it the system.\<close>

datatype 'a exited = Exited 'a | Halted

definition exit_notify :: "nat \<Rightarrow> byte list \<Rightarrow> nat \<Rightarrow> procs \<Rightarrow> ((bool \<times> procs) exited) option" where
  "exit_notify cur clocks leader s = do {
     k \<leftarrow> p_task s cur;
     l \<leftarrow> p_task s leader;
     if t_zombie (k_sig l) then Some (Exited (False, s))
     else do {
       (parent, s1) \<leftarrow> (if k_parent l = None \<and> k_pid k \<noteq> 1 then do {
            i \<leftarrow> pid_get_task s 1;
            case i of
              None \<Rightarrow> Some (None, s)
            | Some i \<Rightarrow> do { s' \<leftarrow> upd_task leader (\<lambda>l. l\<lparr>k_parent := Some i\<rparr>) s; Some (Some i, s') }
          } else Some (k_parent l, s));
       case parent of
         None \<Rightarrow> Some Halted
       | Some p \<Rightarrow> do {
           pk \<leftarrow> p_task s1 p;
           reap \<leftarrow> auto_reaps l pk s1;
           s2 \<leftarrow> upd_task leader (\<lambda>l. l\<lparr>k_sig := (k_sig l)\<lparr>t_zombie := True\<rparr>\<rparr>) s1;
           let i = waitid_decode_status \<lparr>ci_sig = 0, ci_code = 0, ci_pid = k_pid l, ci_uid = k_uid k, ci_status = k_exit_code k\<rparr>;
           s3 \<leftarrow> (if k_exit_signal l \<noteq> 0
                  then send_task cur p (k_exit_signal l) (child_siginfo clocks (i\<lparr>ci_sig := k_exit_signal l\<rparr>)) s2
                  else Some s2);
           Some (Exited (reap, s3))
         }
     }
   }"

definition do_exit :: "nat \<Rightarrow> u32 \<Rightarrow> byte list \<Rightarrow> procs \<Rightarrow> procs exited option" where
  "do_exit cur status clocks s = do {
     s1 \<leftarrow> exit_mark cur status s;
     k \<leftarrow> p_task s1 cur;
     n \<leftarrow> p_group s1 (k_group k);
     let leader = n_leader n;
     s2 \<leftarrow> reparent_children cur s1;
     s3 \<leftarrow> thr_del cur s2;
     n3 \<leftarrow> p_group s3 (k_group k);
     r \<leftarrow> (if n_threads n3 = [] then exit_notify cur clocks leader s3 else Some (Exited (False, s3)));
     case r of
       Halted \<Rightarrow> Some Halted
     | Exited (reap, s4) \<Rightarrow> do {
         s5 \<leftarrow> (if reap then free_group leader s4 else Some s4);
         s6 \<leftarrow> (if cur \<noteq> leader then task_destroy cur s5 else Some s5);
         Some (Exited s6)
       }
   }"

text \<open>The first part of \<^verbatim>\<open>do_exit_group\<close>: the status with which the caller goes on to exit.\<close>

definition begin_exit_group :: "nat \<Rightarrow> u32 \<Rightarrow> procs \<Rightarrow> (u32 \<times> procs) option" where
  "begin_exit_group cur status s = do {
     k \<leftarrow> p_task s cur;
     n \<leftarrow> p_group s (k_group k);
     let code = (if n_group_exit n then g_exit_code (n_state n) else status);
     s1 \<leftarrow> upd_group (k_group k) (\<lambda>n. n\<lparr>n_group_exit := True, n_state := (n_state n)\<lparr>g_exit_code := code\<rparr>\<rparr>) s;
     s2 \<leftarrow> iter_opt (\<lambda>s a. do {
              s' \<leftarrow> deliver_task cur a SIGKILL SIGINFO_NIL s;
              upd_group (k_group k) (\<lambda>n. n\<lparr>n_state := (n_state n)\<lparr>g_stopped := False\<rparr>\<rparr>) s'
            }) s1 (n_threads n);
     Some (code, s2)
   }"

section \<open>The first process\<close>

text \<open>\<^verbatim>\<open>construct_task\<close> when every allocation succeeds.\<close>

definition construct_task :: "nat option \<Rightarrow> procs \<Rightarrow> (nat \<times> procs) option" where
  "construct_task parent s = do {
     (t, s1) \<leftarrow> task_create True parent s;
     a \<leftarrow> t;
     let g = p_next s1;
     let n = \<lparr>n_threads = [], n_leader = a, n_sid = 0, n_pgid = 0, n_pgroup_at = None, n_session_at = None,
              n_state = \<lparr>g_stopped = False, g_continued = False, g_exit_code = 0\<rparr>, n_group_exit = False, n_tty = None\<rparr>;
     let s2 = s1\<lparr>p_group := (p_group s1)(g \<mapsto> n), p_next := g + 1\<rparr>;
     s3 \<leftarrow> upd_task a (\<lambda>k. k\<lparr>k_group := g, k_tgid := k_pid k\<rparr>) s2;
     s4 \<leftarrow> thr_add a s3;
     (r, s5) \<leftarrow> task_setsid a s4;
     let s6 = s5\<lparr>p_hand := (p_hand s5)(p_next s5 \<mapsto> \<lparr>h_refs = 1, h_sig = sighand_new\<rparr>), p_next := p_next s5 + 1\<rparr>;
     s7 \<leftarrow> upd_task a (\<lambda>k. k\<lparr>k_hand := Some (p_next s5)\<rparr>) s6;
     Some (a, s7)
   }"

definition no_procs :: procs where
  "no_procs = \<lparr>p_task = Map.empty, p_group = Map.empty, p_hand = Map.empty, p_tty = Map.empty,
     p_slot = (\<lambda>_. \<lparr>s_task = None, s_session = [], s_pgroup = []\<rparr>), p_cur = 0, p_next = 0\<rparr>"

section \<open>Waiting\<close>

abbreviation (input) WNOHANG :: u32 where "WNOHANG \<equiv> 1"
abbreviation (input) WUNTRACED :: u32 where "WUNTRACED \<equiv> 2"
abbreviation (input) WEXITED :: u32 where "WEXITED \<equiv> 4"
abbreviation (input) WCONTINUED :: u32 where "WCONTINUED \<equiv> 8"
abbreviation (input) WNOWAIT :: u32 where "WNOWAIT \<equiv> 0x1000000"
abbreviation (input) WALL :: u32 where "WALL \<equiv> 0x40000000"
abbreviation (input) P_ALL :: int where "P_ALL \<equiv> 0"
abbreviation (input) P_PID :: int where "P_PID \<equiv> 1"
abbreviation (input) P_PGID :: int where "P_PGID \<equiv> 2"

text \<open>Each returns whether there is something to report, the report, and the state.\<close>

definition notify_if_stopped :: "nat \<Rightarrow> u32 \<Rightarrow> child_info \<Rightarrow> procs \<Rightarrow> (bool \<times> child_info \<times> procs) option" where
  "notify_if_stopped a options i s = do {
     k \<leftarrow> p_task s a;
     n \<leftarrow> p_group s (k_group k);
     if \<not> g_stopped (n_state n) \<or> g_exit_code (n_state n) = 0 then Some (False, i, s)
     else do {
       s1 \<leftarrow> (if options AND WNOWAIT = 0
              then upd_group (k_group k) (\<lambda>n. n\<lparr>n_state := (n_state n)\<lparr>g_exit_code := 0\<rparr>\<rparr>) s else Some s);
       Some (True, i\<lparr>ci_status := g_exit_code (n_state n)\<rparr>, s1)
     }
   }"

definition notify_if_continued :: "nat \<Rightarrow> u32 \<Rightarrow> child_info \<Rightarrow> procs \<Rightarrow> (bool \<times> child_info \<times> procs) option" where
  "notify_if_continued a options i s = do {
     k \<leftarrow> p_task s a;
     n \<leftarrow> p_group s (k_group k);
     if \<not> g_continued (n_state n) then Some (False, i, s)
     else do {
       s1 \<leftarrow> (if options AND WNOWAIT = 0
              then upd_group (k_group k) (\<lambda>n. n\<lparr>n_state := (n_state n)\<lparr>g_continued := False\<rparr>\<rparr>) s else Some s);
       Some (True, i\<lparr>ci_status := 0xffff\<rparr>, s1)
     }
   }"

definition reap_if_zombie :: "nat \<Rightarrow> u32 \<Rightarrow> child_info \<Rightarrow> procs \<Rightarrow> (bool \<times> child_info \<times> procs) option" where
  "reap_if_zombie a options i s = do {
     k \<leftarrow> p_task s a;
     if \<not> t_zombie (k_sig k) then Some (False, i, s)
     else do {
       n \<leftarrow> p_group s (k_group k);
       let i1 = i\<lparr>ci_status := (if n_group_exit n then g_exit_code (n_state n) else k_exit_code k)\<rparr>;
       if options AND WNOWAIT \<noteq> 0 then Some (True, i1, s)
       else do { s1 \<leftarrow> free_group a s; Some (True, i1, s1) }
     }
   }"

definition reap_if_needed :: "nat \<Rightarrow> u32 \<Rightarrow> child_info \<Rightarrow> procs \<Rightarrow> (bool \<times> child_info \<times> procs) option" where
  "reap_if_needed a options i s = do {
     k \<leftarrow> p_task s a;
     n \<leftarrow> p_group s (k_group k);
     if n_leader n \<noteq> a then None
     else do {
       (b1, i1, s1) \<leftarrow> (if options AND WUNTRACED \<noteq> 0 then notify_if_stopped a options i s else Some (False, i, s));
       (b2, i2, s2) \<leftarrow> (if \<not> b1 \<and> options AND WCONTINUED \<noteq> 0 then notify_if_continued a options i1 s1 else Some (b1, i1, s1));
       (b3, i3, s3) \<leftarrow> (if \<not> b2 \<and> options AND WEXITED \<noteq> 0 then reap_if_zombie a options i2 s2 else Some (b2, i2, s2));
       Some (b3, if b3 then i3\<lparr>ci_sig := SIGCHLD\<rparr> else i3, s3)
     }
   }"

text \<open>One scan of \<^verbatim>\<open>do_wait\<close>: a report, an error, or nothing yet with the information as the scan left it.\<close>

datatype wait_scan = Found child_info | Failed int | Nothing child_info

text \<open>The walk over the children; the flag says whether one was seen that the wait is about.\<close>

fun scan_children :: "nat \<Rightarrow> int option \<Rightarrow> u32 \<Rightarrow> nat list \<Rightarrow> bool \<Rightarrow> child_info \<Rightarrow> procs
    \<Rightarrow> (child_info option \<times> bool \<times> child_info \<times> procs) option" where
  "scan_children cur pgid options [] seen i s = Some (None, seen, i, s)"
| "scan_children cur pgid options (c # cs) seen i s = do {
     k \<leftarrow> p_task s c;
     n \<leftarrow> p_group s (k_group k);
     if n_leader n \<noteq> c \<or> (\<exists>p. pgid = Some p \<and> n_pgid n \<noteq> p)
     then scan_children cur pgid options cs seen i s
     else do {
       (b, i1, s1) \<leftarrow> reap_if_needed c options (i\<lparr>ci_pid := k_pid k, ci_uid := k_uid k\<rparr>) s;
       if b then Some (Some i1, True, i1, s1) else scan_children cur pgid options cs True i1 s1
     }
   }"

text \<open>The scan is done once for each thread of the caller's group, over the children of the caller.\<close>

fun scan_threads :: "nat \<Rightarrow> int option \<Rightarrow> u32 \<Rightarrow> nat list \<Rightarrow> bool \<Rightarrow> child_info \<Rightarrow> procs
    \<Rightarrow> (child_info option \<times> bool \<times> child_info \<times> procs) option" where
  "scan_threads cur pgid options [] seen i s = Some (None, seen, i, s)"
| "scan_threads cur pgid options (t # ts) seen i s = do {
     k \<leftarrow> p_task s cur;
     (r, seen1, i1, s1) \<leftarrow> scan_children cur pgid options (k_children k) seen i s;
     case r of Some _ \<Rightarrow> Some (r, seen1, i1, s1) | None \<Rightarrow> scan_threads cur pgid options ts seen1 i1 s1
   }"

definition wait_pass :: "nat \<Rightarrow> int \<Rightarrow> int \<Rightarrow> u32 \<Rightarrow> child_info \<Rightarrow> procs \<Rightarrow> (wait_scan \<times> procs) option" where
  "wait_pass cur idtype wid options i s = do {
     c \<leftarrow> p_task s cur;
     n \<leftarrow> p_group s (k_group c);
     if idtype \<noteq> P_PID then do {
       let pgid = (if idtype = P_PGID then Some (if wid = 0 then n_pgid n else wid) else None);
       (r, seen, i1, s1) \<leftarrow> scan_threads cur pgid options (n_threads n) False i s;
       Some (case r of
               Some f \<Rightarrow> (Found f, s1)
             | None \<Rightarrow> if \<not> seen then (Failed ECHILD, s1) else (Nothing i1, s1))
     } else
       case pid_get_task_zombie s wid of
         None \<Rightarrow> Some (Failed ECHILD, s)
       | Some a \<Rightarrow> do {
           k \<leftarrow> p_task s a;
           case k_parent k of
             None \<Rightarrow> Some (Failed ECHILD, s)
           | Some p \<Rightarrow> do {
               pk \<leftarrow> p_task s p;
               if k_group pk \<noteq> k_group c then Some (Failed ECHILD, s)
               else do {
                 n' \<leftarrow> p_group s (k_group k);
                 l \<leftarrow> p_task s (n_leader n');
                 (b, i1, s1) \<leftarrow> reap_if_needed (n_leader n') options (i\<lparr>ci_pid := wid, ci_uid := k_uid l\<rparr>) s;
                 Some (if b then Found i1 else Nothing i1, s1)
               }
             }
         }
   }"

definition wait_args_ok :: "int \<Rightarrow> u32 \<Rightarrow> bool" where
  "wait_args_ok idtype options \<longleftrightarrow> idtype \<in> {P_ALL, P_PID, P_PGID}
     \<and> options AND NOT (WNOHANG OR WUNTRACED OR WEXITED OR WCONTINUED OR WNOWAIT OR WALL) = 0
     \<and> options AND (WUNTRACED OR WEXITED OR WCONTINUED) \<noteq> 0"

text \<open>
  \<^verbatim>\<open>do_wait\<close>. Each sleep is given as whether a signal ended it and what the other tasks did meanwhile; a wait that
  uses up its sleeps is still asleep.
\<close>

datatype 'a wait_result = Waits procs | Waited 'a

fun do_wait_loop :: "nat \<Rightarrow> int \<Rightarrow> int \<Rightarrow> u32 \<Rightarrow> child_info \<Rightarrow> bool \<Rightarrow> (bool \<times> (procs \<Rightarrow> procs option)) list \<Rightarrow> procs
    \<Rightarrow> ((int \<times> child_info \<times> procs) wait_result) option" where
  "do_wait_loop cur idtype wid options i got [] s = do {
     (r, s1) \<leftarrow> wait_pass cur idtype wid options i s;
     Some (case r of
         Found f \<Rightarrow> Waited (0, f, s1)
       | Failed e \<Rightarrow> Waited (e, i, s1)
       | Nothing i1 \<Rightarrow>
           if options AND WNOHANG \<noteq> 0 then Waited (0, i1\<lparr>ci_pid := 0, ci_uid := 0, ci_sig := SIGCHLD\<rparr>, s1)
           else if got then Waited (EINTR, i1\<lparr>ci_pid := 0, ci_uid := 0\<rparr>, s1)
           else Waits s1)
   }"
| "do_wait_loop cur idtype wid options i got (w # ws) s = do {
     (r, s1) \<leftarrow> wait_pass cur idtype wid options i s;
     case r of
         Found f \<Rightarrow> Some (Waited (0, f, s1))
       | Failed e \<Rightarrow> Some (Waited (e, i, s1))
       | Nothing i1 \<Rightarrow>
           let i2 = i1\<lparr>ci_pid := 0, ci_uid := 0\<rparr>
           in if options AND WNOHANG \<noteq> 0 then Some (Waited (0, i2\<lparr>ci_sig := SIGCHLD\<rparr>, s1))
              else if got then Some (Waited (EINTR, i2, s1))
              else do { s2 \<leftarrow> snd w s1; do_wait_loop cur idtype wid options i2 (fst w) ws s2 }
   }"

definition do_wait :: "nat \<Rightarrow> int \<Rightarrow> int \<Rightarrow> u32 \<Rightarrow> child_info \<Rightarrow> (bool \<times> (procs \<Rightarrow> procs option)) list \<Rightarrow> procs
    \<Rightarrow> ((int \<times> child_info \<times> procs) wait_result) option" where
  "do_wait cur idtype wid options i ws s =
     (if \<not> wait_args_ok idtype options then Some (Waited (EINVAL, i, s))
      else do_wait_loop cur idtype wid options i False ws s)"

text \<open>The calls: the result, and what is stored for the caller.\<close>

definition no_child :: child_info where
  "no_child = \<lparr>ci_sig = 0, ci_code = 0, ci_pid = 0, ci_uid = 0, ci_status = 0\<rparr>"

definition sys_waitid :: "nat \<Rightarrow> int \<Rightarrow> int \<Rightarrow> u32 \<Rightarrow> (bool \<times> (procs \<Rightarrow> procs option)) list \<Rightarrow> procs
    \<Rightarrow> ((int \<times> child_info option \<times> procs) wait_result) option" where
  "sys_waitid cur idtype wid options ws s =
     (if (idtype = P_ALL \<and> wid \<noteq> 0) \<or> (idtype = P_PID \<and> wid \<le> 0) then Some (Waited (EINVAL, None, s))
      else do {
        w \<leftarrow> do_wait cur idtype wid options no_child ws s;
        Some (case w of
            Waits s1 \<Rightarrow> Waits s1
          | Waited (r, i, s1) \<Rightarrow>
              Waited (if r < 0 then (r, None, s1)
                      else if ci_pid i = 0 then (r, Some no_child, s1)
                      else (0, Some (waitid_decode_status i), s1)))
      })"

definition sys_wait4 :: "nat \<Rightarrow> int \<Rightarrow> u32 \<Rightarrow> (bool \<times> (procs \<Rightarrow> procs option)) list \<Rightarrow> procs
    \<Rightarrow> ((int \<times> u32 option \<times> procs) wait_result) option" where
  "sys_wait4 cur wid0 options ws s =
     (if options AND WNOWAIT \<noteq> 0 then Some (Waited (EINVAL, None, s))
      else do {
        c \<leftarrow> p_task s cur;
        n \<leftarrow> p_group s (k_group c);
        let idtype = (if wid0 > 0 then P_PID else if wid0 = - 1 then P_ALL else P_PGID);
        let wid = (if wid0 \<ge> - 1 \<and> wid0 \<noteq> 0 then wid0 else if wid0 = 0 then n_pgid n else - wid0);
        w \<leftarrow> do_wait cur idtype wid (options OR WEXITED) (no_child\<lparr>ci_pid := 0xbaba\<rparr>) ws s;
        Some (case w of
            Waits s1 \<Rightarrow> Waits s1
          | Waited (r, i, s1) \<Rightarrow>
              Waited (if r < 0 \<or> r = 0 \<and> ci_pid i = 0 then (r, None, s1) else (ci_pid i, Some (ci_status i), s1)))
      })"

section \<open>Signals by number\<close>

definition kill_info :: "int \<Rightarrow> u32 \<Rightarrow> siginfo" where
  "kill_info pid uid = \<lparr>si_signo = 0, si_errno = 0, si_code = 0,
     si_fields = word_bytes (word_of_int pid :: u32) @ word_bytes uid @ replicate 104 0\<rparr>"

definition may_kill :: "task \<Rightarrow> task \<Rightarrow> bool" where
  "may_kill c k \<longleftrightarrow> k_euid c = 0 \<or> k_uid c = k_uid k \<or> k_uid c = k_suid k \<or> k_euid c = k_uid k \<or> k_euid c = k_suid k"

definition kill_task :: "nat \<Rightarrow> nat \<Rightarrow> int \<Rightarrow> procs \<Rightarrow> (int \<times> procs) option" where
  "kill_task cur a sig s = do {
     c \<leftarrow> p_task s cur;
     k \<leftarrow> p_task s a;
     if \<not> may_kill c k then Some (EPERM, s)
     else do { s1 \<leftarrow> send_task cur a sig (kill_info (k_pid c) (k_uid c)) s; Some (0, s1) }
   }"

text \<open>Sending to a list of tasks reports an error only if none could be signalled.\<close>

definition kill_next :: "nat \<Rightarrow> int \<Rightarrow> int \<times> procs \<Rightarrow> nat \<Rightarrow> (int \<times> procs) option" where
  "kill_next cur sig es a = do {
     (e, s1) \<leftarrow> kill_task cur a sig (snd es);
     Some (if fst es = EPERM then e else fst es, s1)
   }"

text \<open>
  The flag of the result says whether \<^verbatim>\<open>pids_lock\<close> is still held: when nothing goes by the number, \<^verbatim>\<open>kill_group\<close>
  unlocks it before it returns. \<^verbatim>\<open>do_kill\<close> then unlocks it a second time, which C leaves undefined.
\<close>

definition kill_group :: "nat \<Rightarrow> int \<Rightarrow> int \<Rightarrow> procs \<Rightarrow> (int \<times> bool \<times> procs) option" where
  "kill_group cur pgid sig s =
     (case pid_get s pgid of
        None \<Rightarrow> Some (ESRCH, False, s)
      | Some sl \<Rightarrow> do {
          (e, s1) \<leftarrow> iter_opt (\<lambda>es g. do { n \<leftarrow> p_group (snd es) g; kill_next cur sig es (n_leader n) }) (EPERM, s) (s_pgroup sl);
          Some (e, True, s1)
        })"

definition kill_everything :: "nat \<Rightarrow> int \<Rightarrow> procs \<Rightarrow> (int \<times> procs) option" where
  "kill_everything cur sig s = iter_opt (\<lambda>es i. do {
       a \<leftarrow> pid_get_task (snd es) i;
       case a of
         None \<Rightarrow> Some es
       | Some a \<Rightarrow>
           if a = cur then Some es
           else do {
             k \<leftarrow> p_task (snd es) a;
             n \<leftarrow> p_group (snd es) (k_group k);
             if n_leader n \<noteq> a then Some es else kill_next cur sig es a
           }
     }) (EPERM, s) [2..MAX_PID - 1]"

definition do_kill :: "nat \<Rightarrow> int \<Rightarrow> int \<Rightarrow> int \<Rightarrow> procs \<Rightarrow> (int \<times> procs) option" where
  "do_kill cur pid0 sig tgid s =
     (if sig < 0 \<or> sig > MAX_SIG then Some (EINVAL, s)
      else do {
        c \<leftarrow> p_task s cur;
        n \<leftarrow> p_group s (k_group c);
        let pid = (if pid0 = 0 then - n_pgid n else pid0);
        if pid = - 1 then kill_everything cur sig s
        else if pid < 0 then do { (e, held, s1) \<leftarrow> kill_group cur (- pid) sig s; if held then Some (e, s1) else None }
        else do {
          a \<leftarrow> pid_get_task s pid;
          case a of
            None \<Rightarrow> Some (ESRCH, s)
          | Some a \<Rightarrow> do {
              k \<leftarrow> p_task s a;
              if tgid \<noteq> 0 \<and> k_tgid k \<noteq> tgid then Some (ESRCH, s) else kill_task cur a sig s
            }
        }
      })"

definition sys_kill :: "nat \<Rightarrow> int \<Rightarrow> int \<Rightarrow> procs \<Rightarrow> (int \<times> procs) option" where
  "sys_kill cur pid sig s = do_kill cur pid sig 0 s"

definition sys_tkill :: "nat \<Rightarrow> int \<Rightarrow> int \<Rightarrow> procs \<Rightarrow> (int \<times> procs) option" where
  "sys_tkill cur tid sig s = (if tid \<le> 0 then Some (EINVAL, s) else do_kill cur tid sig 0 s)"

definition sys_tgkill :: "nat \<Rightarrow> int \<Rightarrow> int \<Rightarrow> int \<Rightarrow> procs \<Rightarrow> (int \<times> procs) option" where
  "sys_tgkill cur tgid tid sig s = (if tid \<le> 0 \<or> tgid \<le> 0 then Some (EINVAL, s) else do_kill cur tid sig tgid s)"

definition send_group_signal :: "nat \<Rightarrow> int \<Rightarrow> int \<Rightarrow> siginfo \<Rightarrow> procs \<Rightarrow> (int \<times> procs) option" where
  "send_group_signal cur pgid sig info s =
     (case pid_get s pgid of
        None \<Rightarrow> Some (ESRCH, s)
      | Some sl \<Rightarrow> do {
          s1 \<leftarrow> iter_opt (\<lambda>s g. do { n \<leftarrow> p_group s g; send_task cur (n_leader n) sig info s }) s (s_pgroup sl);
          Some (0, s1)
        })"

end
