(* ===== verification/Process_Inv.thy ===== *)
theory Process_Inv
  imports Process_Calls Signal_Queue
begin

text \<open>
  The invariant of the process table. Each kind of intrusive list is a set of lists with a map from each node to
  the list that holds it; the locale \<open>node_lists\<close> says what adding and removing a node promise, and the four kinds
  of lists of the table provide it. The rest of the invariant looks at one task, group or number at a time, with
  exceptions for the task that a call is making or ending.
\<close>

section \<open>Lists of nodes\<close>

definition linked :: "('i \<Rightarrow> 'x list) \<Rightarrow> ('x \<Rightarrow> 'i option) \<Rightarrow> bool" where
  "linked L w \<longleftrightarrow> (\<forall>i. distinct (L i) \<and> (\<forall>x. x \<in> set (L i) \<longleftrightarrow> w x = Some i))"

lemma linkedD: "linked L w \<Longrightarrow> x \<in> set (L i) \<longleftrightarrow> w x = Some i" "linked L w \<Longrightarrow> distinct (L i)"
  by (simp_all add: linked_def)

lemma linked_insert:
  assumes "linked L w" "w x = None" "set ys = insert x (set (L i))" "distinct ys"
  shows "linked (L(i := ys)) (w(x := Some i))"
  using assms by (auto simp: linked_def)

lemma linked_remove:
  assumes "linked L w" "w x = Some i"
  shows "linked (L(i := remove1 x (L i))) (w(x := None))"
  using assms by (auto simp: linked_def)

locale node_lists =
  fixes members :: "'s \<Rightarrow> 'i \<Rightarrow> 'x list" and place :: "'s \<Rightarrow> 'x \<Rightarrow> 'i option"
    and add :: "'i \<Rightarrow> 'x \<Rightarrow> 's \<Rightarrow> 's option" and del :: "'x \<Rightarrow> 's \<Rightarrow> 's option"
  assumes add_law: "add i x s = Some s' \<Longrightarrow> place s x = None \<Longrightarrow>
      members s' = (members s)(i := x # members s i) \<and> place s' = (place s)(x := Some i)"
    and del_law: "del x s = Some s' \<Longrightarrow> place s x = Some i \<Longrightarrow>
      members s' = (members s)(i := remove1 x (members s i)) \<and> place s' = (place s)(x := None)"
begin

lemma linked_add:
  assumes "linked (members s) (place s)" "add i x s = Some s'" "place s x = None"
  shows "linked (members s') (place s')"
  using add_law[OF assms(2,3)] linked_insert[OF assms(1,3), of "x # members s i" i] linkedD[OF assms(1)] assms(3)
  by auto

lemma linked_del:
  assumes "linked (members s) (place s)" "del x s = Some s'" "place s x = Some i"
  shows "linked (members s') (place s')"
  using del_law[OF assms(2,3)] linked_remove[OF assms(1,3)] by simp

text \<open>Moving a node leaves every list as it was but for the node.\<close>

lemma moved:
  assumes "linked (members s) (place s)" "place s x = Some i" "del x s = Some s1" "add j x s1 = Some s2"
  shows "linked (members s2) (place s2)" "place s2 = (place s)(x := Some j)"
    "set (members s2 k) - {x} = set (members s k) - {x}"
proof -
  note d = del_law[OF assms(3,2)]
  then have n: "place s1 x = None" by simp
  note a = add_law[OF assms(4) n]
  show "linked (members s2) (place s2)" by (rule linked_add[OF linked_del[OF assms(1,3,2)] assms(4) n])
  show "place s2 = (place s)(x := Some j)" using a d by simp
  show "set (members s2 k) - {x} = set (members s k) - {x}"
    using a d linkedD(2)[OF assms(1), of i] by (auto dest: in_set_remove1[THEN iffD1, rotated] notin_set_remove1)
qed

end

section \<open>The lists of the table\<close>

definition children_of :: "procs \<Rightarrow> nat \<Rightarrow> nat list" where
  "children_of s a = (case p_task s a of None \<Rightarrow> [] | Some k \<Rightarrow> k_children k)"

definition child_at :: "procs \<Rightarrow> nat \<Rightarrow> nat option" where
  "child_at s c = (case p_task s c of None \<Rightarrow> None | Some k \<Rightarrow> k_on k)"

definition threads_of :: "procs \<Rightarrow> nat \<Rightarrow> nat list" where
  "threads_of s g = (case p_group s g of None \<Rightarrow> [] | Some n \<Rightarrow> n_threads n)"

definition thread_at :: "procs \<Rightarrow> nat \<Rightarrow> nat option" where
  "thread_at s a = (case p_task s a of None \<Rightarrow> None | Some k \<Rightarrow> if k_linked k then Some (k_group k) else None)"

definition pgroup_of :: "procs \<Rightarrow> int \<Rightarrow> nat list" where
  "pgroup_of s i = s_pgroup (p_slot s i)"

definition pgroup_at :: "procs \<Rightarrow> nat \<Rightarrow> int option" where
  "pgroup_at s g = (case p_group s g of None \<Rightarrow> None | Some n \<Rightarrow> n_pgroup_at n)"

definition session_of :: "procs \<Rightarrow> int \<Rightarrow> nat list" where
  "session_of s i = s_session (p_slot s i)"

definition session_at :: "procs \<Rightarrow> nat \<Rightarrow> int option" where
  "session_at s g = (case p_group s g of None \<Rightarrow> None | Some n \<Rightarrow> n_session_at n)"

lemmas view_defs = children_of_def child_at_def threads_of_def thread_at_def pgroup_of_def pgroup_at_def
  session_of_def session_at_def

lemma upd_task_Some: "upd_task a f s = Some s' \<longleftrightarrow> (\<exists>k. p_task s a = Some k \<and> s' = s\<lparr>p_task := (p_task s)(a \<mapsto> f k)\<rparr>)"
  by (auto simp: upd_task_def split: Option.bind_splits)

lemma upd_group_Some: "upd_group g f s = Some s' \<longleftrightarrow> (\<exists>n. p_group s g = Some n \<and> s' = s\<lparr>p_group := (p_group s)(g \<mapsto> f n)\<rparr>)"
  by (auto simp: upd_group_def split: Option.bind_splits)

lemma sib_add_Some:
  assumes "sib_add p c s = Some s'"
  obtains k kc where "p_task s p = Some k" "((p_task s)(p \<mapsto> k\<lparr>k_children := c # k_children k\<rparr>)) c = Some kc"
    "s' = s\<lparr>p_task := (p_task s)(p \<mapsto> k\<lparr>k_children := c # k_children k\<rparr>, c \<mapsto> kc\<lparr>k_on := Some p\<rparr>)\<rparr>"
  using assms unfolding sib_add_def upd_task_def by (auto split: Option.bind_splits)

lemma sib_del_Some:
  assumes "sib_del c s = Some s'" "p_task s c = Some k0" "k_on k0 = Some p"
  obtains k kc where "p_task s p = Some k" "((p_task s)(p \<mapsto> k\<lparr>k_children := remove1 c (k_children k)\<rparr>)) c = Some kc"
    "s' = s\<lparr>p_task := (p_task s)(p \<mapsto> k\<lparr>k_children := remove1 c (k_children k)\<rparr>, c \<mapsto> kc\<lparr>k_on := None\<rparr>)\<rparr>"
  using assms unfolding sib_del_def upd_task_def by (auto split: Option.bind_splits)

interpretation siblings: node_lists children_of child_at sib_add sib_del
proof unfold_locales
  fix i x s s' assume "sib_add i x s = Some s'"
  then show "children_of s' = (children_of s)(i := x # children_of s i) \<and> child_at s' = (child_at s)(x := Some i)"
    by (rule sib_add_Some) (auto simp: view_defs fun_eq_iff split: if_splits)
next
  fix i x s s' assume d: "sib_del x s = Some s'" "child_at s x = Some i"
  then obtain k0 where "p_task s x = Some k0" "k_on k0 = Some i" by (auto simp: child_at_def split: option.splits)
  with d(1) show "children_of s' = (children_of s)(i := remove1 x (children_of s i)) \<and> child_at s' = (child_at s)(x := None)"
    by (rule sib_del_Some) (auto simp: view_defs fun_eq_iff split: if_splits)
qed

lemma thr_add_Some:
  assumes "thr_add a s = Some s'"
  obtains k n where "p_task s a = Some k" "p_group s (k_group k) = Some n"
    "s' = s\<lparr>p_group := (p_group s)(k_group k \<mapsto> n\<lparr>n_threads := a # n_threads n\<rparr>),
            p_task := (p_task s)(a \<mapsto> k\<lparr>k_linked := True\<rparr>)\<rparr>"
  using assms by (auto simp: thr_add_def upd_task_Some upd_group_Some split: Option.bind_splits)

lemma thr_del_Some:
  assumes "thr_del a s = Some s'"
  obtains k n where "p_task s a = Some k" "k_linked k" "p_group s (k_group k) = Some n"
    "s' = s\<lparr>p_group := (p_group s)(k_group k \<mapsto> n\<lparr>n_threads := remove1 a (n_threads n)\<rparr>),
            p_task := (p_task s)(a \<mapsto> k\<lparr>k_linked := False\<rparr>)\<rparr>"
  using assms by (auto simp: thr_del_def upd_task_Some upd_group_Some split: Option.bind_splits if_splits)

interpretation threads: node_lists threads_of thread_at
  "\<lambda>g a s. if (case p_task s a of None \<Rightarrow> False | Some k \<Rightarrow> k_group k = g) then thr_add a s else None" thr_del
proof unfold_locales
  fix i x s s'
  assume "(if (case p_task s x of None \<Rightarrow> False | Some k \<Rightarrow> k_group k = i) then thr_add x s else None) = Some s'"
  then have "thr_add x s = Some s'" "(case p_task s x of None \<Rightarrow> False | Some k \<Rightarrow> k_group k = i)"
    by (auto split: if_splits)
  then show "threads_of s' = (threads_of s)(i := x # threads_of s i) \<and> thread_at s' = (thread_at s)(x := Some i)"
    by (elim thr_add_Some) (simp add: view_defs fun_eq_iff)
next
  fix i x s s'
  assume "thr_del x s = Some s'" "thread_at s x = Some i"
  then show "threads_of s' = (threads_of s)(i := remove1 x (threads_of s i)) \<and> thread_at s' = (thread_at s)(x := None)"
    by (elim thr_del_Some) (simp add: view_defs fun_eq_iff)
qed

interpretation pgroups: node_lists pgroup_of pgroup_at pg_add pg_del
  by unfold_locales
    (auto simp: pg_add_def pg_del_def upd_group_Some upd_slot_def view_defs fun_eq_iff
      split: Option.bind_splits option.splits if_splits)

interpretation sessions: node_lists session_of session_at ses_add ses_del
  by unfold_locales
    (auto simp: ses_add_def ses_del_def upd_group_Some upd_slot_def view_defs fun_eq_iff
      split: Option.bind_splits option.splits if_splits)

section \<open>The invariant\<close>

text \<open>
  \<open>X\<close> holds the task that a call is making or ending, whose ties to its group may be loose; \<open>Y\<close> the task whose
  reference to the signal actions is not counted.
\<close>

definition zombie :: "task \<Rightarrow> bool" where "zombie k = t_zombie (k_sig k)"
definition exiting :: "task \<Rightarrow> bool" where "exiting k = t_exiting (k_sig k)"

definition tied :: "procs \<Rightarrow> nat \<Rightarrow> task \<Rightarrow> bool" where
  "tied s a k \<longleftrightarrow> k_linked k = (\<not> exiting k) \<and> (k_hand k = None) = exiting k \<and> (k_pid k = 1 \<longrightarrow> \<not> exiting k)
     \<and> (\<exists>n. p_group s (k_group k) = Some n \<and> (exiting k \<longrightarrow> n_leader n = a \<and> k_children k = [])
          \<and> (zombie k \<longrightarrow> n_threads n = []))"

definition task_ok :: "nat set \<Rightarrow> nat set \<Rightarrow> procs \<Rightarrow> nat \<Rightarrow> task \<Rightarrow> bool" where
  "task_ok X Y s a k \<longleftrightarrow> 1 \<le> k_pid k \<and> k_pid k \<le> MAX_PID \<and> s_task (p_slot s (k_pid k)) = Some a
     \<and> k_parent k = k_on k \<and> (k_pid k = 1) = (k_on k = None)
     \<and> 0 \<le> k_exit_signal k \<and> k_exit_signal k \<le> 64 \<and> (zombie k \<longrightarrow> exiting k)
     \<and> (a \<notin> Y \<longrightarrow> (\<forall>h. k_hand k = Some h \<longrightarrow> p_hand s h \<noteq> None)) \<and> (a \<notin> X \<longrightarrow> tied s a k)"

definition group_ok :: "procs \<Rightarrow> nat \<Rightarrow> tgroup \<Rightarrow> bool" where
  "group_ok s g n \<longleftrightarrow> (\<exists>l. p_task s (n_leader n) = Some l \<and> k_group l = g)
     \<and> n_pgroup_at n \<noteq> None \<and> n_session_at n \<noteq> None \<and> n_tty n = None"

definition users :: "nat set \<Rightarrow> procs \<Rightarrow> nat \<Rightarrow> nat set" where
  "users Y s h = {a. a \<notin> Y \<and> (\<exists>k. p_task s a = Some k \<and> k_hand k = Some h)}"

definition hand_ok :: "nat set \<Rightarrow> procs \<Rightarrow> nat \<Rightarrow> hand \<Rightarrow> bool" where
  "hand_ok Y s h r \<longleftrightarrow> h_refs r = card (users Y s h) \<and> length (sh_action (h_sig r)) = NUM_SIGS"

definition init_ok :: "procs \<Rightarrow> bool" where
  "init_ok s \<longleftrightarrow> (\<exists>a k n. s_task (p_slot s 1) = Some a \<and> p_task s a = Some k \<and> \<not> zombie k
     \<and> p_group s (k_group k) = Some n \<and> n_leader n = a \<and> set (n_threads n) \<subseteq> {a})"

definition fresh_ok :: "procs \<Rightarrow> bool" where
  "fresh_ok s \<longleftrightarrow> (\<forall>x \<ge> p_next s. p_task s x = None \<and> p_group s x = None \<and> p_hand s x = None)
     \<and> 0 \<le> p_cur s \<and> p_cur s \<le> MAX_PID"

definition lists_ok :: "procs \<Rightarrow> bool" where
  "lists_ok s \<longleftrightarrow> linked (children_of s) (child_at s) \<and> linked (threads_of s) (thread_at s)
     \<and> linked (pgroup_of s) (pgroup_at s) \<and> linked (session_of s) (session_at s)"

definition slots_ok :: "procs \<Rightarrow> bool" where
  "slots_ok s \<longleftrightarrow> (\<forall>i a. s_task (p_slot s i) = Some a \<longrightarrow> (\<exists>k. p_task s a = Some k \<and> k_pid k = i))"

definition pt_okx :: "nat set \<Rightarrow> nat set \<Rightarrow> procs \<Rightarrow> bool" where
  "pt_okx X Y s \<longleftrightarrow> lists_ok s \<and> slots_ok s \<and> init_ok s \<and> fresh_ok s
     \<and> (\<forall>a k. p_task s a = Some k \<longrightarrow> task_ok X Y s a k) \<and> (\<forall>g n. p_group s g = Some n \<longrightarrow> group_ok s g n)
     \<and> (\<forall>h r. p_hand s h = Some r \<longrightarrow> hand_ok Y s h r)"

abbreviation "pt_ok \<equiv> pt_okx {} {}"

lemma pt_okI:
  assumes "lists_ok s" "slots_ok s" "init_ok s" "fresh_ok s" "\<And>a k. p_task s a = Some k \<Longrightarrow> task_ok X Y s a k"
    "\<And>g n. p_group s g = Some n \<Longrightarrow> group_ok s g n" "\<And>h r. p_hand s h = Some r \<Longrightarrow> hand_ok Y s h r"
  shows "pt_okx X Y s"
  using assms by (simp add: pt_okx_def)

lemma pt_okD:
  assumes "pt_okx X Y s"
  shows "lists_ok s" "slots_ok s" "init_ok s" "fresh_ok s" "p_task s a = Some k \<Longrightarrow> task_ok X Y s a k"
    "p_group s g = Some n \<Longrightarrow> group_ok s g n" "p_hand s h = Some r \<Longrightarrow> hand_ok Y s h r"
  using assms by (simp_all add: pt_okx_def)

lemma listsD:
  assumes "lists_ok s"
  shows "linked (children_of s) (child_at s)" "linked (threads_of s) (thread_at s)"
    "linked (pgroup_of s) (pgroup_at s)" "linked (session_of s) (session_at s)"
  using assms by (simp_all add: lists_ok_def)

section \<open>What does not matter\<close>

text \<open>Two states that differ only in signals, codes, numbers of sessions and the like.\<close>

definition same_task :: "task \<Rightarrow> task \<Rightarrow> bool" where
  "same_task k k' \<longleftrightarrow> k_pid k' = k_pid k \<and> k_group k' = k_group k \<and> k_linked k' = k_linked k \<and> k_parent k' = k_parent k
     \<and> k_children k' = k_children k \<and> k_on k' = k_on k \<and> k_hand k' = k_hand k \<and> zombie k' = zombie k
     \<and> exiting k' = exiting k \<and> k_exit_signal k' = k_exit_signal k"

definition same_group :: "tgroup \<Rightarrow> tgroup \<Rightarrow> bool" where
  "same_group n n' \<longleftrightarrow> n_threads n' = n_threads n \<and> n_leader n' = n_leader n \<and> n_pgroup_at n' = n_pgroup_at n
     \<and> n_session_at n' = n_session_at n \<and> n_tty n' = n_tty n"

fun opt_rel :: "('a \<Rightarrow> 'a \<Rightarrow> bool) \<Rightarrow> 'a option \<Rightarrow> 'a option \<Rightarrow> bool" where
  "opt_rel R None None = True"
| "opt_rel R (Some x) (Some y) = R x y"
| "opt_rel R _ _ = False"

lemma opt_rel_Some2: "opt_rel R x (Some y) \<longleftrightarrow> (\<exists>z. x = Some z \<and> R z y)"
  by (cases x) auto

lemma opt_rel_Some1: "opt_rel R (Some x) y \<longleftrightarrow> (\<exists>z. y = Some z \<and> R x z)"
  by (cases y) auto

lemma opt_rel_None [simp]: "opt_rel R x None \<longleftrightarrow> x = None" "opt_rel R None x \<longleftrightarrow> x = None"
  by (cases x; simp)+

definition quiet :: "procs \<Rightarrow> procs \<Rightarrow> bool" where
  "quiet s s' \<longleftrightarrow> (\<forall>a. opt_rel same_task (p_task s a) (p_task s' a)) \<and> (\<forall>g. opt_rel same_group (p_group s g) (p_group s' g))
     \<and> p_hand s' = p_hand s \<and> p_slot s' = p_slot s \<and> p_cur s' = p_cur s \<and> p_next s' = p_next s"

lemma same_refl [simp]: "same_task k k" "same_group n n"
  by (simp_all add: same_task_def same_group_def)

lemma opt_refl [simp]: "opt_rel same_task x x" "opt_rel same_group y y"
  by (cases x; simp) (cases y; simp)

lemma quiet_refl [simp]: "quiet s s"
  by (simp add: quiet_def)

lemma quietD: "quiet s s' \<Longrightarrow> opt_rel same_task (p_task s a) (p_task s' a)"
  "quiet s s' \<Longrightarrow> opt_rel same_group (p_group s g) (p_group s' g)"
  by (simp_all add: quiet_def)

lemma quiet_fields: "quiet s s' \<Longrightarrow> p_hand s' = p_hand s" "quiet s s' \<Longrightarrow> p_slot s' = p_slot s"
  "quiet s s' \<Longrightarrow> p_cur s' = p_cur s" "quiet s s' \<Longrightarrow> p_next s' = p_next s"
  by (simp_all add: quiet_def)

lemma quiet_trans:
  assumes "quiet s s'" "quiet s' s''"
  shows "quiet s s''"
proof -
  have "opt_rel same_task (p_task s a) (p_task s'' a)" for a
    using quietD(1)[OF assms(1), of a] quietD(1)[OF assms(2), of a]
    by (cases "p_task s a"; cases "p_task s' a"; cases "p_task s'' a") (simp_all add: same_task_def)
  moreover have "opt_rel same_group (p_group s g) (p_group s'' g)" for g
    using quietD(2)[OF assms(1), of g] quietD(2)[OF assms(2), of g]
    by (cases "p_group s g"; cases "p_group s' g"; cases "p_group s'' g") (simp_all add: same_group_def)
  ultimately show ?thesis using quiet_fields[OF assms(1)] quiet_fields[OF assms(2)] by (simp add: quiet_def)
qed

lemma quiet_task: "quiet s s' \<Longrightarrow> p_task s' a = Some k' \<Longrightarrow> \<exists>k. p_task s a = Some k \<and> same_task k k'"
  using quietD(1)[of s s' a] by (simp add: opt_rel_Some2)

lemma quiet_task_fwd: "quiet s s' \<Longrightarrow> p_task s a = Some k \<Longrightarrow> \<exists>k'. p_task s' a = Some k' \<and> same_task k k'"
  using quietD(1)[of s s' a] by (simp add: opt_rel_Some1)

lemma quiet_group: "quiet s s' \<Longrightarrow> p_group s' g = Some n' \<Longrightarrow> \<exists>n. p_group s g = Some n \<and> same_group n n'"
  using quietD(2)[of s s' g] by (simp add: opt_rel_Some2)

lemma quiet_group_fwd: "quiet s s' \<Longrightarrow> p_group s g = Some n \<Longrightarrow> \<exists>n'. p_group s' g = Some n' \<and> same_group n n'"
  using quietD(2)[of s s' g] by (simp add: opt_rel_Some1)

lemma quiet_None: "quiet s s' \<Longrightarrow> (p_task s' a = None) = (p_task s a = None)" "quiet s s' \<Longrightarrow> (p_group s' g = None) = (p_group s g = None)"
proof -
  assume q: "quiet s s'"
  show "(p_task s' a = None) = (p_task s a = None)"
    using quietD(1)[OF q, of a] by (cases "p_task s a"; cases "p_task s' a") simp_all
next
  assume q: "quiet s s'"
  show "(p_group s' g = None) = (p_group s g = None)"
    using quietD(2)[OF q, of g] by (cases "p_group s g"; cases "p_group s' g") simp_all
qed

lemma quiet_views:
  assumes "quiet s s'"
  shows "children_of s' = children_of s" "child_at s' = child_at s" "threads_of s' = threads_of s" "thread_at s' = thread_at s"
    "pgroup_of s' = pgroup_of s" "pgroup_at s' = pgroup_at s" "session_of s' = session_of s" "session_at s' = session_at s"
proof -
  have t: "opt_rel same_task (p_task s a) (p_task s' a)" and g: "opt_rel same_group (p_group s b) (p_group s' b)"
    and sl: "p_slot s' = p_slot s" for a b using assms by (simp_all add: quiet_def)
  have "children_of s' a = children_of s a \<and> child_at s' a = child_at s a \<and> thread_at s' a = thread_at s a" for a
    using t[of a] by (cases "p_task s a"; cases "p_task s' a") (simp_all add: view_defs same_task_def)
  then show "children_of s' = children_of s" "child_at s' = child_at s" "thread_at s' = thread_at s" by (simp_all add: fun_eq_iff)
  have "threads_of s' a = threads_of s a \<and> pgroup_at s' a = pgroup_at s a \<and> session_at s' a = session_at s a" for a
    using g[of a] by (cases "p_group s a"; cases "p_group s' a") (simp_all add: view_defs same_group_def)
  then show "threads_of s' = threads_of s" "pgroup_at s' = pgroup_at s" "session_at s' = session_at s" by (simp_all add: fun_eq_iff)
  show "pgroup_of s' = pgroup_of s" "session_of s' = session_of s" by (simp_all add: view_defs sl fun_eq_iff)
qed

lemma quiet_tied:
  assumes "quiet s s'" "same_task k k'" "tied s a k"
  shows "tied s' a k'"
proof -
  obtain n where n: "p_group s (k_group k) = Some n" "exiting k \<longrightarrow> n_leader n = a \<and> k_children k = []" "zombie k \<longrightarrow> n_threads n = []"
    using assms(3) by (auto simp: tied_def)
  obtain n' where "p_group s' (k_group k') = Some n'" "same_group n n'"
    using quiet_group_fwd[OF assms(1) n(1)] assms(2) by (auto simp: same_task_def)
  with n assms(2,3) show ?thesis by (simp add: tied_def same_task_def same_group_def)
qed

lemma quiet_ok:
  assumes "quiet s s'" "pt_okx X Y s"
  shows "pt_okx X Y s'"
proof (rule pt_okI)
  note d = pt_okD[OF assms(2)] and f = quiet_fields[OF assms(1)]
  show "lists_ok s'" using d(1) by (simp add: lists_ok_def quiet_views[OF assms(1)])
  show "slots_ok s'" unfolding slots_ok_def f
  proof (intro allI impI)
    fix i a assume "s_task (p_slot s i) = Some a"
    then obtain k where k: "p_task s a = Some k" "k_pid k = i" using d(2) by (auto simp: slots_ok_def)
    obtain k' where "p_task s' a = Some k'" "same_task k k'" using quiet_task_fwd[OF assms(1) k(1)] by blast
    with k(2) show "\<exists>k. p_task s' a = Some k \<and> k_pid k = i" by (simp add: same_task_def)
  qed
  show "fresh_ok s'" using d(4) by (simp add: fresh_ok_def f quiet_None[OF assms(1)])
  obtain a k n where i: "s_task (p_slot s 1) = Some a" "p_task s a = Some k" "\<not> zombie k" "p_group s (k_group k) = Some n"
      "n_leader n = a" "set (n_threads n) \<subseteq> {a}" using d(3) by (auto simp: init_ok_def)
  obtain k' where "p_task s' a = Some k'" "same_task k k'" using quiet_task_fwd[OF assms(1) i(2)] by blast
  moreover obtain n' where "p_group s' (k_group k) = Some n'" "same_group n n'" using quiet_group_fwd[OF assms(1) i(4)] by blast
  ultimately show "init_ok s'" using i unfolding init_ok_def f by (auto simp: same_task_def same_group_def)
  have u: "users Y s' h = users Y s h" for h
  proof -
    have "(\<exists>k. p_task s' a = Some k \<and> k_hand k = Some h) = (\<exists>k. p_task s a = Some k \<and> k_hand k = Some h)" for a
    proof -
      have "opt_rel same_task (p_task s a) (p_task s' a)" using assms(1) by (simp add: quiet_def)
      then show ?thesis by (cases "p_task s a"; cases "p_task s' a") (simp_all add: same_task_def)
    qed
    then show ?thesis by (simp add: users_def)
  qed
  show "hand_ok Y s' h r" if "p_hand s' h = Some r" for h r using d(7) that by (simp add: hand_ok_def u f)
  show "task_ok X Y s' a k'" if t: "p_task s' a = Some k'" for a k'
  proof -
    obtain k where k: "p_task s a = Some k" "same_task k k'" using quiet_task[OF assms(1) t] by blast
    have "task_ok X Y s a k" by (rule d(5)[OF k(1)])
    with k(2) quiet_tied[OF assms(1) k(2)] show ?thesis
      unfolding task_ok_def f by (simp add: same_task_def)
  qed
  show "group_ok s' g n'" if t: "p_group s' g = Some n'" for g n'
  proof -
    obtain n where n: "p_group s g = Some n" "same_group n n'" using quiet_group[OF assms(1) t] by blast
    obtain l where l: "p_task s (n_leader n) = Some l" "k_group l = g" using d(6)[OF n(1)] by (auto simp: group_ok_def)
    obtain l' where "p_task s' (n_leader n) = Some l'" "same_task l l'" using quiet_task_fwd[OF assms(1) l(1)] by blast
    with d(6)[OF n(1)] n(2) l show ?thesis by (simp add: group_ok_def same_group_def same_task_def)
  qed
qed

end
