(* ===== verification/Process_Signals.thy ===== *)
theory Process_Signals
  imports Process_Inv
begin

text \<open>Operations that leave the invariant alone because they touch only what it does not look at: signals and kills.\<close>

section \<open>Sending\<close>

lemma same_taskI:
  "zombie k' = zombie k \<Longrightarrow> exiting k' = exiting k \<Longrightarrow> k' = k\<lparr>k_sig := k_sig k', k_exit_code := k_exit_code k'\<rparr> \<Longrightarrow> same_task k k'"
  unfolding same_task_def by (simp only: zombie_def exiting_def) (metis task.select_convs task.surjective task.update_convs)

lemma action_of_range: "0 \<le> sig \<Longrightarrow> sig \<le> 64 \<Longrightarrow> length (sh_action h) = NUM_SIGS \<Longrightarrow> \<exists>a. action_of h sig = Some a"
  by (simp add: action_of_def NUM_SIGS_def)

lemma signal_action_range: "0 \<le> sig \<Longrightarrow> sig \<le> 64 \<Longrightarrow> length (sh_action h) = NUM_SIGS \<Longrightarrow> \<exists>a. signal_action h sig = Some a"
  using action_of_range[of sig h] by (auto simp: signal_action_def)

lemma send_signal_total:
  assumes "0 \<le> sig" "sig \<le> 64" "length (sh_action h) = NUM_SIGS"
  shows "\<exists>t' st'. send_signal False self sig info (Some h) (t, st) = Some (t', st')
     \<and> t_zombie t' = t_zombie t \<and> t_exiting t' = t_exiting t"
proof (cases "sig = 0 \<or> t_zombie t \<or> t_exiting t")
  case False
  then have r: "sig_range sig" using assms by (simp add: sig_range_def)
  obtain act where act: "signal_action h sig = Some act" using signal_action_range[OF assms] by blast
  obtain t' where "deliver_signal_unlocked self sig info t = Some t'" "t_zombie t' = t_zombie t" "t_exiting t' = t_exiting t"
    by (rule deliver_spec[OF r])
  with False act show ?thesis by (auto simp: send_signal_def)
qed (simp add: send_signal_def)

text \<open>A task that a signal can be sent to without touching freed memory.\<close>

definition reachable_task :: "procs \<Rightarrow> nat \<Rightarrow> bool" where
  "reachable_task s a \<longleftrightarrow> (\<exists>k. p_task s a = Some k \<and> (exiting k \<or>
     p_group s (k_group k) \<noteq> None \<and> (\<forall>h. k_hand k = Some h \<longrightarrow> (\<exists>r. p_hand s h = Some r \<and> length (sh_action (h_sig r)) = NUM_SIGS))))"

lemma pt_reachable:
  assumes "pt_okx X Y s" "p_task s a = Some k" "a \<in> X \<union> Y \<Longrightarrow> exiting k"
  shows "reachable_task s a"
proof (cases "exiting k")
  case False
  then have a: "a \<notin> X" "a \<notin> Y" using assms(3) by auto
  have t: "task_ok X Y s a k" by (rule pt_okD(5)[OF assms(1,2)])
  have "\<exists>r. p_hand s h = Some r \<and> length (sh_action (h_sig r)) = NUM_SIGS" if "k_hand k = Some h" for h
    using t a that pt_okD(7)[OF assms(1), of h] by (auto simp: task_ok_def hand_ok_def)
  moreover have "p_group s (k_group k) \<noteq> None" using t a by (auto simp: task_ok_def tied_def)
  ultimately show ?thesis using assms(2) by (simp add: reachable_task_def)
qed (use assms(2) in \<open>simp add: reachable_task_def\<close>)

lemma upd_quiet:
  assumes "p_task s a = Some k" "same_task k (f k)"
  shows "\<exists>s'. upd_task a f s = Some s' \<and> quiet s s'"
  using assms by (simp add: upd_task_def quiet_def)

lemma upd_group_quiet:
  assumes "p_group s g = Some n" "same_group n (f n)"
  shows "\<exists>s'. upd_group g f s = Some s' \<and> quiet s s'"
  using assms by (simp add: upd_group_def quiet_def)

lemma send_task_quiet:
  assumes "reachable_task s a" "0 \<le> sig" "sig \<le> 64"
  shows "\<exists>s'. send_task cur a sig info s = Some s' \<and> quiet s s'"
proof -
  obtain k where k: "p_task s a = Some k" "exiting k \<or> p_group s (k_group k) \<noteq> None
      \<and> (\<forall>h. k_hand k = Some h \<longrightarrow> (\<exists>r. p_hand s h = Some r \<and> length (sh_action (h_sig r)) = NUM_SIGS))"
    using assms(1) by (auto simp: reachable_task_def)
  show ?thesis
  proof (cases "sig = 0 \<or> zombie k \<or> exiting k \<or> k_hand k = None")
    case True
    then show ?thesis using k(1) by (auto simp: send_task_def zombie_def exiting_def)
  next
    case False
    then obtain h r n where h: "k_hand k = Some h" "p_hand s h = Some r" "length (sh_action (h_sig r)) = NUM_SIGS"
        "p_group s (k_group k) = Some n" using k(2) by auto
    obtain t' st' where t: "send_signal False (a = cur) sig info (Some (h_sig r)) (k_sig k, n_state n) = Some (t', st')"
        "t_zombie t' = t_zombie (k_sig k)" "t_exiting t' = t_exiting (k_sig k)"
      using send_signal_total[OF assms(2,3) h(3)] by blast
    have "same_task k (k\<lparr>k_sig := t'\<rparr>)" by (simp add: same_task_def zombie_def exiting_def t(2,3))
    then obtain s1 where s1: "upd_task a (\<lambda>k. k\<lparr>k_sig := t'\<rparr>) s = Some s1" "quiet s s1" using upd_quiet[OF k(1)] by blast
    obtain n1 where "p_group s1 (k_group k) = Some n1" using quiet_group_fwd[OF s1(2) h(4)] by blast
    then obtain s2 where "upd_group (k_group k) (\<lambda>n. n\<lparr>n_state := st'\<rparr>) s1 = Some s2" "quiet s1 s2"
      using upd_group_quiet[of s1 _ _ "\<lambda>n. n\<lparr>n_state := st'\<rparr>"] by (auto simp: same_group_def)
    then show ?thesis using False k(1) h t(1) s1 quiet_trans by (auto simp: send_task_def zombie_def exiting_def)
  qed
qed

lemma quiet_reachable:
  assumes "quiet s s'" "reachable_task s a"
  shows "reachable_task s' a"
proof -
  obtain k where k: "p_task s a = Some k" "exiting k \<or> p_group s (k_group k) \<noteq> None
      \<and> (\<forall>h. k_hand k = Some h \<longrightarrow> (\<exists>r. p_hand s h = Some r \<and> length (sh_action (h_sig r)) = NUM_SIGS))"
    using assms(2) by (auto simp: reachable_task_def)
  obtain k' where "p_task s' a = Some k'" "same_task k k'" using quiet_task_fwd[OF assms(1) k(1)] by blast
  with k(2) show ?thesis
    using quiet_None(2)[OF assms(1)] quiet_fields(1)[OF assms(1)] by (auto simp: reachable_task_def same_task_def)
qed

lemma deliver_task_quiet:
  assumes "p_task s a = Some k" "sig_range sig" "\<forall>h. k_hand k = Some h \<longrightarrow> p_hand s h \<noteq> None"
  shows "\<exists>s'. deliver_task cur a sig info s = Some s' \<and> quiet s s'"
proof (cases "k_hand k")
  case None
  then show ?thesis using assms(1) by (simp add: deliver_task_def)
next
  case (Some h)
  then obtain r where r: "p_hand s h = Some r" using assms(3) by auto
  obtain t' where t: "deliver_signal_unlocked (a = cur) sig info (k_sig k) = Some t'" "t_zombie t' = t_zombie (k_sig k)"
      "t_exiting t' = t_exiting (k_sig k)" by (rule deliver_spec[OF assms(2)])
  have "same_task k (k\<lparr>k_sig := t'\<rparr>)" by (simp add: same_task_def zombie_def exiting_def t(2,3))
  then obtain s1 where "upd_task a (\<lambda>k. k\<lparr>k_sig := t'\<rparr>) s = Some s1" "quiet s s1" using upd_quiet[OF assms(1)] by blast
  then show ?thesis using assms(1) Some r t(1) by (auto simp: deliver_task_def deliver_signal_def)
qed

section \<open>Sending to many\<close>

lemma iter_opt_keeps:
  assumes "\<And>y x. R y \<Longrightarrow> x \<in> set xs \<Longrightarrow> \<exists>y'. f y x = Some y' \<and> R y'" "R s"
  shows "\<exists>y. iter_opt f s xs = Some y \<and> R y"
  using assms
proof (induction xs arbitrary: s)
  case (Cons x xs)
  then obtain s1 where "f s x = Some s1" "R s1" by (meson list.set_intros(1))
  with Cons show ?case by simp
qed simp

lemma begin_exit_group_quiet:
  assumes "pt_okx X Y s" "p_task s cur = Some k" "cur \<notin> X" "Y = {}"
  shows "\<exists>code s'. begin_exit_group cur status s = Some (code, s') \<and> quiet s s'"
proof -
  have "task_ok X Y s cur k" by (rule pt_okD(5)[OF assms(1,2)])
  then obtain n where n: "p_group s (k_group k) = Some n" using assms(3) by (auto simp: task_ok_def tied_def)
  let ?code = "if n_group_exit n then g_exit_code (n_state n) else status"
  obtain s1 where s1: "upd_group (k_group k) (\<lambda>n. n\<lparr>n_group_exit := True, n_state := (n_state n)\<lparr>g_exit_code := ?code\<rparr>\<rparr>) s = Some s1"
      "quiet s s1"
    using upd_group_quiet[OF n, of "\<lambda>n. n\<lparr>n_group_exit := True, n_state := (n_state n)\<lparr>g_exit_code := ?code\<rparr>\<rparr>"]
    by (auto simp: same_group_def)
  let ?f = "\<lambda>s a. do {
              s' \<leftarrow> deliver_task cur a SIGKILL SIGINFO_NIL s;
              upd_group (k_group k) (\<lambda>n. n\<lparr>n_state := (n_state n)\<lparr>g_stopped := False\<rparr>\<rparr>) s'
            }"
  have "\<exists>y'. ?f y a = Some y' \<and> quiet s y'" if y: "quiet s y" "a \<in> set (n_threads n)" for y a
  proof -
    have "threads_of s (k_group k) = n_threads n" by (simp add: threads_of_def n)
    then have "thread_at s a = Some (k_group k)" using listsD(2)[OF pt_okD(1)[OF assms(1)]] y(2) linkedD(1) by metis
    then obtain ka where "p_task s a = Some ka" by (auto simp: thread_at_def split: option.splits)
    then obtain ka' where ka: "p_task y a = Some ka'" using quiet_task_fwd[OF y(1)] by blast
    have "task_ok X Y y a ka'" by (rule pt_okD(5)[OF quiet_ok[OF y(1) assms(1)] ka])
    then have h: "\<forall>h. k_hand ka' = Some h \<longrightarrow> p_hand y h \<noteq> None" using assms(4) by (simp add: task_ok_def)
    obtain y1 where y1: "deliver_task cur a SIGKILL SIGINFO_NIL y = Some y1" "quiet y y1"
      using deliver_task_quiet[OF ka _ h, of SIGKILL] by (auto simp: sig_range_def)
    have q: "quiet s y1" by (rule quiet_trans[OF y(1) y1(2)])
    obtain n1 where n1: "p_group y1 (k_group k) = Some n1" using quiet_group_fwd[OF q n] by blast
    obtain y2 where "upd_group (k_group k) (\<lambda>n. n\<lparr>n_state := (n_state n)\<lparr>g_stopped := False\<rparr>\<rparr>) y1 = Some y2" "quiet y1 y2"
      using upd_group_quiet[OF n1, of "\<lambda>n. n\<lparr>n_state := (n_state n)\<lparr>g_stopped := False\<rparr>\<rparr>"] by (auto simp: same_group_def)
    with y1(1) quiet_trans[OF q] show ?thesis by auto
  qed
  then obtain s2 where "iter_opt ?f s1 (n_threads n) = Some s2" "quiet s s2"
    using iter_opt_keeps[of "quiet s" "n_threads n" ?f s1] s1(2) by blast
  with s1(1) n assms(2) show ?thesis by (simp add: begin_exit_group_def)
qed

lemma kill_task_quiet:
  assumes "p_task s cur \<noteq> None" "reachable_task s a" "0 \<le> sig" "sig \<le> 64"
  shows "\<exists>e s'. kill_task cur a sig s = Some (e, s') \<and> quiet s s'"
proof -
  obtain c where c: "p_task s cur = Some c" using assms(1) by auto
  obtain k where k: "p_task s a = Some k" using assms(2) by (auto simp: reachable_task_def)
  from send_task_quiet[OF assms(2-4), of cur "kill_info (k_pid c) (k_uid c)"] c k
  show ?thesis by (auto simp: kill_task_def)
qed

lemma pt_ok_task: "pt_ok s \<Longrightarrow> p_task s a = Some k \<Longrightarrow> reachable_task s a"
  by (rule pt_reachable) auto

lemma pt_ok_leader: "pt_ok s \<Longrightarrow> p_group s g = Some n \<Longrightarrow> \<exists>l. p_task s (n_leader n) = Some l \<and> k_group l = g"
  using pt_okD(6)[of "{}" "{}" s g n] by (simp add: group_ok_def)

lemma pt_ok_group: "pt_ok s \<Longrightarrow> p_task s a = Some k \<Longrightarrow> \<exists>n. p_group s (k_group k) = Some n"
  using pt_okD(5)[of "{}" "{}" s a k] by (auto simp: task_ok_def tied_def)

lemma kill_next_quiet:
  assumes "pt_ok s" "quiet s (snd es)" "p_task s cur \<noteq> None" "p_task s a \<noteq> None" "0 \<le> sig" "sig \<le> 64"
  shows "\<exists>es'. kill_next cur sig es a = Some es' \<and> quiet s (snd es')"
proof -
  have ok: "pt_ok (snd es)" by (rule quiet_ok[OF assms(2,1)])
  obtain k where "p_task (snd es) a = Some k" using assms(4) quiet_task_fwd[OF assms(2)] by blast
  then have "reachable_task (snd es) a" by (rule pt_ok_task[OF ok])
  moreover have "p_task (snd es) cur \<noteq> None" using assms(3) quiet_None(1)[OF assms(2)] by auto
  ultimately obtain e s1 where "kill_task cur a sig (snd es) = Some (e, s1)" "quiet (snd es) s1"
    using kill_task_quiet assms(5,6) by blast
  with quiet_trans[OF assms(2)] show ?thesis by (auto simp: kill_next_def)
qed

lemma slot_members:
  assumes "pt_ok s"
  shows "g \<in> set (s_pgroup (p_slot s i)) \<Longrightarrow> \<exists>n l. p_group s g = Some n \<and> p_task s (n_leader n) = Some l"
    "s_task (p_slot s i) = Some a \<Longrightarrow> \<exists>k. p_task s a = Some k"
proof -
  show "\<exists>n l. p_group s g = Some n \<and> p_task s (n_leader n) = Some l" if "g \<in> set (s_pgroup (p_slot s i))"
  proof -
    have "pgroup_at s g = Some i" using listsD(3)[OF pt_okD(1)[OF assms]] that linkedD(1) unfolding pgroup_of_def by metis
    then obtain n where "p_group s g = Some n" by (auto simp: pgroup_at_def split: option.splits)
    with pt_ok_leader[OF assms this] show ?thesis by blast
  qed
  show "\<exists>k. p_task s a = Some k" if "s_task (p_slot s i) = Some a"
    using pt_okD(2)[OF assms] that by (auto simp: slots_ok_def)
qed

lemma kill_group_quiet:
  assumes "pt_ok s" "p_task s cur \<noteq> None" "0 \<le> sig" "sig \<le> 64" "pid_get s pgid \<noteq> None"
  shows "\<exists>e s'. kill_group cur pgid sig s = Some (e, True, s') \<and> quiet s s'"
proof -
  obtain sl where Some: "pid_get s pgid = Some sl" using assms(5) by auto
  then have sl: "sl = p_slot s pgid" by (auto simp: pid_get_def split: if_splits)
  let ?f = "\<lambda>es g. do { n \<leftarrow> p_group (snd es) g; kill_next cur sig es (n_leader n) }"
  have "\<exists>es'. ?f es g = Some es' \<and> quiet s (snd es')" if q: "quiet s (snd es)" "g \<in> set (s_pgroup sl)" for es g
  proof -
    obtain n l where n: "p_group s g = Some n" "p_task s (n_leader n) = Some l" using slot_members(1)[OF assms(1)] q(2) sl by blast
    obtain n' where n': "p_group (snd es) g = Some n'" "same_group n n'" using quiet_group_fwd[OF q(1) n(1)] by blast
    have "n_leader n' = n_leader n" using n'(2) by (simp add: same_group_def)
    then show ?thesis using kill_next_quiet[OF assms(1) q(1) assms(2) _ assms(3,4), of "n_leader n"] n n'(1) by auto
  qed
  then have "\<exists>y. iter_opt ?f (EPERM, s) (s_pgroup sl) = Some y \<and> quiet s (snd y)"
    by (intro iter_opt_keeps[where R = "\<lambda>es. quiet s (snd es)"]) auto
  then show ?thesis using Some by (auto simp: kill_group_def)
qed

lemma quiet_pid_get: "quiet s s' \<Longrightarrow> pid_get s' i = pid_get s i"
  by (simp add: pid_get_def quiet_fields)

lemma pid_get_task_total:
  assumes "pt_ok s"
  shows "\<exists>a. pid_get_task s i = Some a \<and> (\<forall>b. a = Some b \<longrightarrow> p_task s b \<noteq> None)"
proof (cases "pid_get_task_zombie s i")
  case None
  then show ?thesis by (simp add: pid_get_task_def)
next
  case (Some a)
  then have "s_task (p_slot s i) = Some a"
    by (auto simp: pid_get_task_zombie_def pid_get_def split: if_splits option.splits)
  then obtain k where "p_task s a = Some k" using slot_members(2)[OF assms] by blast
  with Some show ?thesis by (auto simp: pid_get_task_def)
qed

lemma kill_everything_quiet:
  assumes "pt_ok s" "p_task s cur \<noteq> None" "0 \<le> sig" "sig \<le> 64"
  shows "\<exists>e s'. kill_everything cur sig s = Some (e, s') \<and> quiet s s'"
proof -
  let ?f = "\<lambda>es i. do {
       a \<leftarrow> pid_get_task (snd es) i;
       case a of
         None \<Rightarrow> Some es
       | Some a \<Rightarrow>
           if a = cur then Some es
           else do {
             k \<leftarrow> p_task (snd es) a;
             n \<leftarrow> p_group (snd es) (k_group k);
             if n_leader n \<noteq> a then Some es else kill_next cur sig es a
           }
     }"
  have "\<exists>es'. ?f es i = Some es' \<and> quiet s (snd es')" if q: "quiet s (snd es)" for es i
  proof -
    have ok: "pt_ok (snd es)" by (rule quiet_ok[OF q assms(1)])
    obtain a where a: "pid_get_task (snd es) i = Some a" "\<forall>b. a = Some b \<longrightarrow> p_task (snd es) b \<noteq> None"
      using pid_get_task_total[OF ok] by blast
    show ?thesis
    proof (cases a)
      case None
      then show ?thesis using a(1) q by auto
    next
      case (Some b)
      then obtain k where k: "p_task (snd es) b = Some k" using a(2) by auto
      obtain n where n: "p_group (snd es) (k_group k) = Some n" using pt_ok_group[OF ok k] by blast
      have "p_task s b \<noteq> None" using k quiet_None(1)[OF q] by force
      from kill_next_quiet[OF assms(1) q assms(2) this assms(3,4)] show ?thesis using a(1) Some k n q by (cases es) auto
    qed
  qed
  note step = this
  have "\<exists>y. iter_opt ?f (EPERM, s) xs = Some y \<and> quiet s (snd y)" for xs
    by (rule iter_opt_keeps[where R = "\<lambda>es. quiet s (snd es)"]) (erule step, simp)
  then obtain y where "iter_opt ?f (EPERM, s) [2..MAX_PID - 1] = Some y" "quiet s (snd y)" by blast
  then show ?thesis unfolding kill_everything_def by (cases y) (simp only: snd_conv, blast)
qed

text \<open>A kill with a valid signal reaches a process group, if it asks for one, that something goes by.\<close>

definition kill_finds :: "task \<Rightarrow> int \<Rightarrow> int \<Rightarrow> procs \<Rightarrow> bool" where
  "kill_finds c pid0 sig s \<longleftrightarrow> (case p_group s (k_group c) of None \<Rightarrow> False | Some n \<Rightarrow>
     let pid = (if pid0 = 0 then - n_pgid n else pid0) in
     0 \<le> sig \<and> sig \<le> MAX_SIG \<and> pid < - 1 \<longrightarrow> pid_get s (- pid) \<noteq> None)"

lemma do_kill_quiet:
  assumes "pt_ok s" "p_task s cur = Some c" "kill_finds c pid sig s"
  shows "\<exists>e s'. do_kill cur pid sig tgid s = Some (e, s') \<and> quiet s s'"
proof (cases "sig < 0 \<or> sig > 64")
  case True
  then show ?thesis by (simp add: do_kill_def)
next
  case False
  then have r: "0 \<le> sig" "sig \<le> 64" by simp_all
  obtain n where n: "p_group s (k_group c) = Some n" using pt_ok_group[OF assms(1,2)] by blast
  define pid' where "pid' = (if pid = 0 then - n_pgid n else pid)"
  have cur: "p_task s cur \<noteq> None" using assms(2) by simp
  obtain a where a: "pid_get_task s pid' = Some a" "\<forall>b. a = Some b \<longrightarrow> p_task s b \<noteq> None"
    using pid_get_task_total[OF assms(1)] by blast
  have one: "\<exists>e s'. kill_task cur b sig s = Some (e, s') \<and> quiet s s'" if "a = Some b" for b
    using kill_task_quiet[OF cur pt_ok_task[OF assms(1)] r] a(2) that by blast
  have "do_kill cur pid sig tgid s =
      (if pid' = - 1 then kill_everything cur sig s else if pid' < 0 then do { (e, held, s1) \<leftarrow> kill_group cur (- pid') sig s; if held then Some (e, s1) else None }
       else case a of None \<Rightarrow> Some (ESRCH, s)
         | Some b \<Rightarrow> do { k \<leftarrow> p_task s b; if tgid \<noteq> 0 \<and> k_tgid k \<noteq> tgid then Some (ESRCH, s) else kill_task cur b sig s })"
    using False assms(2) n a(1) by (simp add: do_kill_def pid'_def Let_def)
  moreover have "\<exists>e s'. (case a of None \<Rightarrow> Some (ESRCH, s)
         | Some b \<Rightarrow> do { k \<leftarrow> p_task s b; if tgid \<noteq> 0 \<and> k_tgid k \<noteq> tgid then Some (ESRCH, s) else kill_task cur b sig s })
      = Some (e, s') \<and> quiet s s'"
  proof (cases a)
    case (Some b)
    then obtain k where "p_task s b = Some k" using a(2) by auto
    with Some one[OF Some] show ?thesis by auto
  qed simp
  moreover have "\<exists>e s'. kill_group cur (- pid') sig s = Some (e, True, s') \<and> quiet s s'" if "pid' < - 1"
    by (rule kill_group_quiet[OF assms(1) cur r]) (use assms(3) n r that in \<open>simp add: kill_finds_def pid'_def Let_def\<close>)
  ultimately show ?thesis using kill_everything_quiet[OF assms(1) cur r] by fastforce
qed

end
