(* ===== verification/Process_Groups.thy ===== *)
theory Process_Groups
  imports Process_Signals
begin

text \<open>Moving thread groups between sessions and process groups keeps the invariant.\<close>

section \<open>Steps that move a group\<close>

definition loose_group :: "tgroup \<Rightarrow> tgroup \<Rightarrow> bool" where
  "loose_group n n' \<longleftrightarrow> n_threads n' = n_threads n \<and> n_leader n' = n_leader n \<and> n_tty n' = n_tty n"

definition regroup :: "procs \<Rightarrow> procs \<Rightarrow> bool" where
  "regroup s s' \<longleftrightarrow> p_task s' = p_task s \<and> p_hand s' = p_hand s \<and> p_cur s' = p_cur s \<and> p_next s' = p_next s
     \<and> (\<forall>i. s_task (p_slot s' i) = s_task (p_slot s i)) \<and> (\<forall>g. opt_rel loose_group (p_group s g) (p_group s' g))"

lemma loose_refl [simp]: "loose_group n n" "opt_rel loose_group x x"
  by (simp add: loose_group_def) (cases x; simp add: loose_group_def)

lemma regroup_refl [simp]: "regroup s s"
  by (simp add: regroup_def)

lemma regroup_trans:
  assumes "regroup s s'" "regroup s' s''"
  shows "regroup s s''"
proof -
  have "opt_rel loose_group (p_group s g) (p_group s'' g)" for g
  proof -
    have "opt_rel loose_group (p_group s g) (p_group s' g)" "opt_rel loose_group (p_group s' g) (p_group s'' g)"
      using assms by (simp_all add: regroup_def)
    then show ?thesis
      by (cases "p_group s g"; cases "p_group s' g"; cases "p_group s'' g") (simp_all add: loose_group_def)
  qed
  with assms show ?thesis by (simp add: regroup_def)
qed

lemma regroup_group: "regroup s s' \<Longrightarrow> p_group s g = Some n \<Longrightarrow> \<exists>n'. p_group s' g = Some n' \<and> loose_group n n'"
  unfolding regroup_def by (metis opt_rel_Some1)

lemma regroup_views:
  assumes "regroup s s'"
  shows "children_of s' = children_of s" "child_at s' = child_at s" "threads_of s' = threads_of s" "thread_at s' = thread_at s"
    "p_task s' = p_task s"
proof -
  have "threads_of s' g = threads_of s g" for g
  proof -
    have "opt_rel loose_group (p_group s g) (p_group s' g)" using assms by (simp add: regroup_def)
    then show ?thesis by (cases "p_group s g"; cases "p_group s' g") (simp_all add: threads_of_def loose_group_def)
  qed
  then show "threads_of s' = threads_of s" by (simp add: fun_eq_iff)
qed (use assms in \<open>simp_all add: regroup_def view_defs fun_eq_iff\<close>)

lemma regroup_ok:
  assumes "pt_okx X Y s" "regroup s s'" "linked (pgroup_of s') (pgroup_at s')" "linked (session_of s') (session_at s')"
    "\<And>g. p_group s g \<noteq> None \<Longrightarrow> pgroup_at s' g \<noteq> None \<and> session_at s' g \<noteq> None"
  shows "pt_okx X Y s'"
proof (rule pt_okI)
  note d = pt_okD[OF assms(1)] and v = regroup_views[OF assms(2)]
  have f: "p_hand s' = p_hand s" "p_cur s' = p_cur s" "p_next s' = p_next s" "s_task (p_slot s' i) = s_task (p_slot s i)"
      "opt_rel loose_group (p_group s g) (p_group s' g)" for i g using assms(2) by (simp_all add: regroup_def)
  have dom: "(p_group s' g = None) = (p_group s g = None)" for g
    using f(5)[of g] by (cases "p_group s g"; cases "p_group s' g") simp_all
  show "lists_ok s'" using d(1) assms(3,4) by (simp add: lists_ok_def v)
  show "slots_ok s'" using d(2) by (simp add: slots_ok_def f v)
  show "fresh_ok s'" using d(4) by (simp add: fresh_ok_def f v dom)
  obtain a k n where i: "s_task (p_slot s 1) = Some a" "p_task s a = Some k" "\<not> zombie k" "p_group s (k_group k) = Some n"
      "n_leader n = a" "set (n_threads n) \<subseteq> {a}" using d(3) by (auto simp: init_ok_def)
  with regroup_group[OF assms(2) i(4)] show "init_ok s'" by (auto simp: init_ok_def f v loose_group_def)
  show "hand_ok Y s' h r" if "p_hand s' h = Some r" for h r using d(7) that by (simp add: hand_ok_def users_def f v)
  show "task_ok X Y s' a k" if k: "p_task s' a = Some k" for a k
  proof -
    have t: "task_ok X Y s a k" using d(5) k v(5) by simp
    have "tied s' a k" if "tied s a k"
      using that regroup_group[OF assms(2), of "k_group k"] by (auto simp: tied_def loose_group_def)
    with t show ?thesis by (simp add: task_ok_def f)
  qed
  show "group_ok s' g n'" if n': "p_group s' g = Some n'" for g n'
  proof -
    obtain n where n: "p_group s g = Some n" "loose_group n n'" using f(5)[of g] n' by (auto simp: opt_rel_Some2)
    from assms(5)[of g] n' n(1) have "n_pgroup_at n' \<noteq> None \<and> n_session_at n' \<noteq> None" by (simp add: view_defs)
    with d(6)[OF n(1)] n(2) show ?thesis by (simp add: group_ok_def loose_group_def v)
  qed
qed

section \<open>The single moves\<close>

lemma pg_del_ok:
  assumes "pgroup_at s g = Some i"
  obtains s' where "pg_del g s = Some s'" "regroup s s'" "session_of s' = session_of s" "session_at s' = session_at s"
    "pgroup_of s' = (pgroup_of s)(i := remove1 g (pgroup_of s i))" "pgroup_at s' = (pgroup_at s)(g := None)"
proof -
  obtain n where n: "p_group s g = Some n" "n_pgroup_at n = Some i" using assms by (auto simp: pgroup_at_def split: option.splits)
  then obtain s' where s': "pg_del g s = Some s'" by (simp add: pg_del_def upd_group_def upd_slot_def)
  then have "regroup s s'" "session_of s' = session_of s" "session_at s' = session_at s"
    using n by (auto simp: pg_del_def upd_group_def upd_slot_def regroup_def view_defs fun_eq_iff loose_group_def)
  with pgroups.del_law[OF s' assms] s' show thesis by (intro that[of s']) simp_all
qed

lemma pg_add_ok:
  assumes "p_group s g \<noteq> None" "pgroup_at s g = None"
  obtains s' where "pg_add i g s = Some s'" "regroup s s'" "session_of s' = session_of s" "session_at s' = session_at s"
    "pgroup_of s' = (pgroup_of s)(i := g # pgroup_of s i)" "pgroup_at s' = (pgroup_at s)(g := Some i)"
proof -
  obtain s' where s': "pg_add i g s = Some s'" using assms(1) by (auto simp: pg_add_def upd_group_def upd_slot_def)
  then have "regroup s s'" "session_of s' = session_of s" "session_at s' = session_at s"
    using assms(1) by (auto simp: pg_add_def upd_group_def upd_slot_def regroup_def view_defs fun_eq_iff loose_group_def)
  with pgroups.add_law[OF s' assms(2)] s' show thesis by (intro that[of s']) simp_all
qed

lemma ses_del_ok:
  assumes "session_at s g = Some i"
  obtains s' where "ses_del g s = Some s'" "regroup s s'" "pgroup_of s' = pgroup_of s" "pgroup_at s' = pgroup_at s"
    "session_of s' = (session_of s)(i := remove1 g (session_of s i))" "session_at s' = (session_at s)(g := None)"
proof -
  obtain n where n: "p_group s g = Some n" "n_session_at n = Some i" using assms by (auto simp: session_at_def split: option.splits)
  then obtain s' where s': "ses_del g s = Some s'" by (simp add: ses_del_def upd_group_def upd_slot_def)
  then have "regroup s s'" "pgroup_of s' = pgroup_of s" "pgroup_at s' = pgroup_at s"
    using n by (auto simp: ses_del_def upd_group_def upd_slot_def regroup_def view_defs fun_eq_iff loose_group_def)
  with sessions.del_law[OF s' assms] s' show thesis by (intro that[of s']) simp_all
qed

lemma ses_add_ok:
  assumes "p_group s g \<noteq> None" "session_at s g = None"
  obtains s' where "ses_add i g s = Some s'" "regroup s s'" "pgroup_of s' = pgroup_of s" "pgroup_at s' = pgroup_at s"
    "session_of s' = (session_of s)(i := g # session_of s i)" "session_at s' = (session_at s)(g := Some i)"
proof -
  obtain s' where s': "ses_add i g s = Some s'" using assms(1) by (auto simp: ses_add_def upd_group_def upd_slot_def)
  then have "regroup s s'" "pgroup_of s' = pgroup_of s" "pgroup_at s' = pgroup_at s"
    using assms(1) by (auto simp: ses_add_def upd_group_def upd_slot_def regroup_def view_defs fun_eq_iff loose_group_def)
  with sessions.add_law[OF s' assms(2)] s' show thesis by (intro that[of s']) simp_all
qed

lemma quiet_regroup:
  assumes "p_group s g = Some n" "same_group n (f n)"
  obtains s' where "upd_group g f s = Some s'" "regroup s s'" "session_of s' = session_of s" "session_at s' = session_at s"
    "pgroup_of s' = pgroup_of s" "pgroup_at s' = pgroup_at s"
proof -
  obtain s' where s': "upd_group g f s = Some s'" "quiet s s'" using upd_group_quiet[of s g n f, OF assms] by blast
  have "regroup s s'"
    using s'(1) assms by (auto simp: upd_group_def regroup_def loose_group_def same_group_def)
  with s' quiet_views[OF s'(2)] show thesis by (intro that[of s']) simp_all
qed

section \<open>Process groups\<close>

lemma group_places:
  assumes "pt_okx X Y s" "p_group s g = Some n"
  obtains i j where "pgroup_at s g = Some i" "session_at s g = Some j" "n_tty n = None"
  using pt_okD(6)[OF assms] assms(2) that by (auto simp: group_ok_def view_defs)

lemma move_pgroup:
  assumes "pt_ok s" "p_group s g = Some n"
  shows "\<exists>s1 s2 s3. pg_del g s = Some s1 \<and> upd_group g (\<lambda>n. n\<lparr>n_pgid := pgid\<rparr>) s1 = Some s2 \<and> pg_add i g s2 = Some s3
     \<and> pt_ok s3 \<and> p_task s3 = p_task s \<and> pgroup_at s3 = (pgroup_at s)(g := Some i)
     \<and> p_group s3 g = Some (n\<lparr>n_pgid := pgid, n_pgroup_at := Some i\<rparr>) \<and> (\<forall>g'. g' \<noteq> g \<longrightarrow> p_group s3 g' = p_group s g')"
proof -
  obtain j j' where at: "pgroup_at s g = Some j" "session_at s g = Some j'" by (rule group_places[OF assms])
  obtain s1 where s1: "pg_del g s = Some s1" "regroup s s1" "session_of s1 = session_of s" "session_at s1 = session_at s"
      "pgroup_of s1 = (pgroup_of s)(j := remove1 g (pgroup_of s j))" "pgroup_at s1 = (pgroup_at s)(g := None)"
    by (rule pg_del_ok[OF at(1)])
  obtain n1 where n1: "p_group s1 g = Some n1" using regroup_group[OF s1(2) assms(2)] by blast
  obtain s2 where s2: "upd_group g (\<lambda>n. n\<lparr>n_pgid := pgid\<rparr>) s1 = Some s2" "regroup s1 s2" "session_of s2 = session_of s1"
      "session_at s2 = session_at s1" "pgroup_of s2 = pgroup_of s1" "pgroup_at s2 = pgroup_at s1"
    by (rule quiet_regroup[OF n1, of "\<lambda>n. n\<lparr>n_pgid := pgid\<rparr>"]) (simp_all add: same_group_def)
  have n2: "p_group s2 g \<noteq> None" "pgroup_at s2 g = None" using regroup_group[OF s2(2) n1] by (auto simp: s2(6) s1(6))
  obtain s3 where s3: "pg_add i g s2 = Some s3" "regroup s2 s3" "session_of s3 = session_of s2" "session_at s3 = session_at s2"
      "pgroup_of s3 = (pgroup_of s2)(i := g # pgroup_of s2 i)" "pgroup_at s3 = (pgroup_at s2)(g := Some i)"
    by (rule pg_add_ok[OF n2])
  have r: "regroup s s3" using s1(2) s2(2) s3(2) regroup_trans by blast
  note l = listsD[OF pt_okD(1)[OF assms(1)]]
  have "linked (pgroup_of s2) (pgroup_at s2)"
    using pgroups.linked_del[OF l(3) s1(1) at(1)] by (simp add: s2(5,6))
  then have "linked (pgroup_of s3) (pgroup_at s3)" by (rule pgroups.linked_add[OF _ s3(1) n2(2)])
  moreover have "linked (session_of s3) (session_at s3)" using l(4) by (simp add: s3(3,4) s2(3,4) s1(3,4))
  moreover have "pgroup_at s3 h \<noteq> None \<and> session_at s3 h \<noteq> None" if "p_group s h \<noteq> None" for h
    using that group_places[OF assms(1)] by (fastforce simp: s3(4,6) s2(4,6) s1(4,6))
  ultimately have "pt_ok s3" by (intro regroup_ok[OF assms(1) r])
  moreover have "p_group s3 g = Some (n\<lparr>n_pgid := pgid, n_pgroup_at := Some i\<rparr>)" "\<forall>g'. g' \<noteq> g \<longrightarrow> p_group s3 g' = p_group s g'"
    using s1(1) s2(1) s3(1) assms(2) by (auto simp: pg_del_def pg_add_def upd_group_def upd_slot_def split: Option.bind_splits)
  ultimately show ?thesis using s1(1,6) s2(1,6) s3(1,6) regroup_views(5)[OF r] by auto
qed

lemma join_check_total: "pt_ok s \<Longrightarrow> \<exists>r. join_check s i pgid n = Some r"
  using slot_members(1)[of s _ pgid]
  by (fastforce simp: join_check_def pid_get_def split: option.splits list.splits)

lemma setpgid_ok:
  assumes "pt_ok s" "p_task s cur = Some c"
  shows "\<exists>r s'. sys_setpgid cur i pgid s = Some (r, s') \<and> pt_ok s'"
proof -
  define i' where "i' = (if i = 0 then k_pid c else i)"
  define p' where "p' = (if pgid = 0 then i' else pgid)"
  show ?thesis
  proof (cases "pid_get_task_zombie s i'")
    case None
    then show ?thesis using assms by (simp add: sys_setpgid_def i'_def)
  next
    case (Some a)
    then have "s_task (p_slot s i') = Some a" by (auto simp: pid_get_task_zombie_def pid_get_def split: if_splits option.splits)
    then obtain k where k: "p_task s a = Some k" using slot_members(2)[OF assms(1)] by blast
    obtain n where n: "p_group s (k_group k) = Some n" using pt_ok_group[OF assms(1) k] by blast
    obtain l where l: "p_task s (n_leader n) = Some l" using pt_ok_leader[OF assms(1) n] by blast
    obtain e where e: "join_check s i' p' n = Some e" using join_check_total[OF assms(1)] by blast
    obtain s1 s2 s3 where "pg_del (k_group k) s = Some s1" "upd_group (k_group k) (\<lambda>n. n\<lparr>n_pgid := p'\<rparr>) s1 = Some s2"
        "pg_add i' (k_group k) s2 = Some s3" "pt_ok s3" using move_pgroup[OF assms(1) n] by blast
    moreover have "sys_setpgid cur i pgid s = (case e of Some e \<Rightarrow> Some (e, s)
        | None \<Rightarrow> if a \<noteq> cur \<and> k_parent k \<noteq> Some cur then Some (ESRCH, s)
            else if n_sid n = k_pid l then Some (EPERM, s) else if n_pgid n = p' then Some (0, s)
            else do { s1 \<leftarrow> pg_del (k_group k) s; s2 \<leftarrow> upd_group (k_group k) (\<lambda>n. n\<lparr>n_pgid := p'\<rparr>) s1;
                      s3 \<leftarrow> pg_add i' (k_group k) s2; Some (0, s3) })"
      using e Some k n l assms(2) unfolding i'_def p'_def by (cases e) (simp_all add: sys_setpgid_def Let_def)
    ultimately show ?thesis using assms(1) by (cases e) simp_all
  qed
qed

section \<open>Sessions\<close>

lemma leave_session_del:
  assumes "p_task s a = Some k" "p_group s (k_group k) = Some n" "n_tty n = None" "n_session_at n \<noteq> None"
  shows "task_leave_session a s = ses_del (k_group k) s"
  using assms by (auto simp: task_leave_session_def split: Option.bind_splits)

lemma pid_get_own: "pt_okx X Y s \<Longrightarrow> p_task s a = Some k \<Longrightarrow> pid_get s (k_pid k) \<noteq> None"
  using pt_okD(5)[of X Y s a k] by (simp add: task_ok_def pid_get_def pid_empty_def)

lemma regroup_pid_get: "regroup s s' \<Longrightarrow> s_task (p_slot s i) \<noteq> None \<Longrightarrow> pid_get s i \<noteq> None \<Longrightarrow> pid_get s' i \<noteq> None"
  by (auto simp: regroup_def pid_get_def pid_empty_def split: if_splits)

lemma setsid_ok:
  assumes "pt_ok s" "p_task s a = Some k"
  shows "\<exists>r s'. task_setsid a s = Some (r, s') \<and> pt_ok s'"
proof -
  obtain n where n: "p_group s (k_group k) = Some n" using pt_ok_group[OF assms] by blast
  obtain l where l: "p_task s (n_leader n) = Some l" using pt_ok_leader[OF assms(1) n] by blast
  let ?g = "k_group k" and ?sid = "k_pid l"
  obtain i j where at: "pgroup_at s ?g = Some i" "session_at s ?g = Some j" "n_tty n = None" by (rule group_places[OF assms(1) n])
  have gn: "n_session_at n \<noteq> None" "n_pgroup_at n \<noteq> None" using at n by (simp_all add: view_defs)
  obtain s1 where s1: "ses_del ?g s = Some s1" "regroup s s1" "pgroup_of s1 = pgroup_of s" "pgroup_at s1 = pgroup_at s"
      "session_of s1 = (session_of s)(j := remove1 ?g (session_of s j))" "session_at s1 = (session_at s)(?g := None)"
    by (rule ses_del_ok[OF at(2)])
  obtain n1 where n1: "p_group s1 ?g = Some n1" using regroup_group[OF s1(2) n] by blast
  obtain s2 where s2: "ses_add (k_pid k) ?g s1 = Some s2" "regroup s1 s2" "pgroup_of s2 = pgroup_of s1" "pgroup_at s2 = pgroup_at s1"
      "session_of s2 = (session_of s1)(k_pid k := ?g # session_of s1 (k_pid k))" "session_at s2 = (session_at s1)(?g := Some (k_pid k))"
    by (rule ses_add_ok[of s1 ?g "k_pid k"]) (simp_all add: n1 s1(6))
  obtain n2 where n2: "p_group s2 ?g = Some n2" using regroup_group[OF s2(2) n1] by blast
  obtain s3 where s3: "upd_group ?g (\<lambda>n. n\<lparr>n_sid := ?sid\<rparr>) s2 = Some s3" "regroup s2 s3" "session_of s3 = session_of s2"
      "session_at s3 = session_at s2" "pgroup_of s3 = pgroup_of s2" "pgroup_at s3 = pgroup_at s2"
    by (rule quiet_regroup[OF n2, of "\<lambda>n. n\<lparr>n_sid := ?sid\<rparr>"]) (simp_all add: same_group_def)
  have at3: "pgroup_at s3 ?g = Some i" using at(1) by (simp add: s3(6) s2(4) s1(4))
  obtain s4 where s4: "pg_del ?g s3 = Some s4" "regroup s3 s4" "session_of s4 = session_of s3" "session_at s4 = session_at s3"
      "pgroup_of s4 = (pgroup_of s3)(i := remove1 ?g (pgroup_of s3 i))" "pgroup_at s4 = (pgroup_at s3)(?g := None)"
    by (rule pg_del_ok[OF at3])
  have r4: "regroup s s4" using s1(2) s2(2) s3(2) s4(2) regroup_trans by blast
  obtain n4 where n4: "p_group s4 ?g = Some n4" using regroup_group[OF r4 n] by blast
  obtain s5 where s5: "pg_add (k_pid k) ?g s4 = Some s5" "regroup s4 s5" "session_of s5 = session_of s4" "session_at s5 = session_at s4"
      "pgroup_of s5 = (pgroup_of s4)(k_pid k := ?g # pgroup_of s4 (k_pid k))" "pgroup_at s5 = (pgroup_at s4)(?g := Some (k_pid k))"
    by (rule pg_add_ok[of s4 ?g "k_pid k"]) (simp_all add: n4 s4(6))
  obtain n5 where n5: "p_group s5 ?g = Some n5" using regroup_group[OF s5(2) n4] by blast
  obtain s6 where s6: "upd_group ?g (\<lambda>n. n\<lparr>n_pgid := ?sid\<rparr>) s5 = Some s6" "regroup s5 s6" "session_of s6 = session_of s5"
      "session_at s6 = session_at s5" "pgroup_of s6 = pgroup_of s5" "pgroup_at s6 = pgroup_at s5"
    by (rule quiet_regroup[OF n5, of "\<lambda>n. n\<lparr>n_pgid := ?sid\<rparr>"]) (simp_all add: same_group_def)
  have r: "regroup s s6" using r4 s5(2) s6(2) regroup_trans by blast
  note L = listsD[OF pt_okD(1)[OF assms(1)]]
  have "linked (session_of s2) (session_at s2)"
    by (rule sessions.moved(1)[OF L(4) at(2) s1(1) s2(1)])
  then have "linked (session_of s6) (session_at s6)" by (simp add: s6(3,4) s5(3,4) s4(3,4) s3(3,4))
  moreover have "linked (pgroup_of s3) (pgroup_at s3)" using L(3) by (simp add: s3(5,6) s2(3,4) s1(3,4))
  from pgroups.moved(1)[OF this at3 s4(1) s5(1)] have "linked (pgroup_of s6) (pgroup_at s6)" by (simp add: s6(5,6))
  moreover have "pgroup_at s6 h \<noteq> None \<and> session_at s6 h \<noteq> None" if h: "p_group s h \<noteq> None" for h
  proof -
    obtain m where "p_group s h = Some m" using h by auto
    then obtain x y where "pgroup_at s h = Some x" "session_at s h = Some y" by (rule group_places[OF assms(1)])
    then show ?thesis by (simp add: s6(4,6) s5(4,6) s4(4,6) s3(4,6) s2(4,6) s1(4,6))
  qed
  ultimately have ok: "pt_ok s6" by (intro regroup_ok[OF assms(1) r])
  have "s_task (p_slot s (k_pid k)) = Some a" using pt_okD(5)[OF assms] by (simp add: task_ok_def)
  then have "pid_get s1 (k_pid k) \<noteq> None" using regroup_pid_get[OF s1(2) _ pid_get_own[OF assms]] by simp
  then obtain sl where sl: "pid_get s1 (k_pid k) = Some sl" by auto
  have "task_leave_session a s = Some s1" using leave_session_del[OF assms(2) n at(3) gn(1)] s1(1) by simp
  then have "task_setsid a s = (if n_pgid n = ?sid \<or> n_sid n = ?sid then Some (EPERM, s) else Some (?sid, s6))"
    using assms(2) n l sl s2(1) s3(1) s4(1) s5(1) s6(1) gn(2) by (auto simp: task_setsid_def Let_def)
  then show ?thesis using ok assms(1) by auto
qed

end
