(* ===== verification/Process_Free.thy ===== *)
theory Process_Free
  imports Process_Groups
begin

text \<open>Freeing a task and freeing a group with its leader keep the invariant.\<close>

section \<open>Freeing a task\<close>

lemma task_destroy_eq:
  assumes "p_task s a = Some k" "k_on k = Some p" "p \<noteq> a" "p_task s p = Some kp" "pid_get s (k_pid k) \<noteq> None"
  shows "task_destroy a s = Some (s\<lparr>p_task := (p_task s)(p \<mapsto> kp\<lparr>k_children := remove1 a (k_children kp)\<rparr>, a := None),
    p_slot := (p_slot s)(k_pid k := (p_slot s (k_pid k))\<lparr>s_task := None\<rparr>)\<rparr>)"
proof -
  have "pid_get (s\<lparr>p_task := T\<rparr>) i = pid_get s i" for T i by (simp add: pid_get_def)
  then show ?thesis using assms
    by (auto simp: task_destroy_def sib_del_def upd_task_def upd_slot_def fun_eq_iff intro!: ext)
qed

lemma parent_of:
  assumes "pt_okx X Y s" "p_task s a = Some k" "k_on k = Some p"
  obtains kp where "p_task s p = Some kp" "a \<in> set (k_children kp)"
proof -
  have "child_at s a = Some p" using assms(2,3) by (simp add: child_at_def)
  then have "a \<in> set (children_of s p)" using listsD(1)[OF pt_okD(1)[OF assms(1)]] linkedD(1) by metis
  then show thesis using that by (cases "p_task s p") (simp_all add: children_of_def)
qed

lemma child_of:
  assumes "pt_okx X Y s" "p_task s p = Some kp" "c \<in> set (k_children kp)"
  obtains k where "p_task s c = Some k" "k_on k = Some p" "k_parent k = Some p"
proof -
  have "c \<in> set (children_of s p)" using assms(2,3) by (simp add: children_of_def)
  then have "child_at s c = Some p" using listsD(1)[OF pt_okD(1)[OF assms(1)]] linkedD(1) by metis
  then obtain k where k: "p_task s c = Some k" "k_on k = Some p" by (auto simp: child_at_def split: option.splits)
  with pt_okD(5)[OF assms(1) k(1)] show thesis by (intro that) (auto simp: task_ok_def)
qed

lemma thread_of:
  assumes "pt_okx X Y s" "p_group s g = Some n" "a \<in> set (n_threads n)"
  obtains k where "p_task s a = Some k" "k_linked k" "k_group k = g"
proof -
  have "a \<in> set (threads_of s g)" using assms(2,3) by (simp add: threads_of_def)
  then have "thread_at s a = Some g" using listsD(2)[OF pt_okD(1)[OF assms(1)]] linkedD(1) by metis
  then show thesis using that by (cases "p_task s a") (simp_all add: thread_at_def split: if_splits)
qed

lemma threads_of_linked:
  assumes "pt_okx X Y s" "p_task s a = Some k" "k_linked k" "p_group s (k_group k) = Some n"
  shows "a \<in> set (n_threads n)"
proof -
  have "thread_at s a = Some (k_group k)" using assms(2,3) by (simp add: thread_at_def)
  then have "a \<in> set (threads_of s (k_group k))" using listsD(2)[OF pt_okD(1)[OF assms(1)]] linkedD(1) by metis
  with assms(4) show ?thesis by (simp add: threads_of_def)
qed

text \<open>The state after the task is gone.\<close>

definition without :: "nat \<Rightarrow> procs \<Rightarrow> procs \<Rightarrow> bool" where
  "without a s s' \<longleftrightarrow> p_task s' a = None \<and> (\<forall>b. b \<noteq> a \<longrightarrow> opt_rel (\<lambda>k k'. \<exists>cs. set cs \<subseteq> set (k_children k) \<and> k' = k\<lparr>k_children := cs\<rparr>)
       (p_task s b) (p_task s' b))
     \<and> p_group s' = p_group s \<and> p_hand s' = p_hand s \<and> p_tty s' = p_tty s \<and> p_cur s' = p_cur s \<and> p_next s' = p_next s"

lemma withoutD:
  assumes "without a s s'" "p_task s' b = Some k'"
  obtains k cs where "b \<noteq> a" "p_task s b = Some k" "set cs \<subseteq> set (k_children k)" "k' = k\<lparr>k_children := cs\<rparr>"
proof -
  have "b \<noteq> a" using assms by (auto simp: without_def)
  with assms show thesis using that by (auto simp: without_def opt_rel_Some2 dest!: spec[of _ b])
qed

lemma task_destroy_ok:
  assumes ok: "pt_okx X Y s" and k: "p_task s a = Some k" "k_children k = []" "\<not> k_linked k" "k_pid k \<noteq> 1"
    and hand: "k_hand k = None \<or> a \<in> Y" and lead: "\<And>g n. p_group s g = Some n \<Longrightarrow> n_leader n \<noteq> a"
  obtains s' where "task_destroy a s = Some s'" "without a s s'" "pt_okx (X - {a}) (Y - {a}) s'"
proof -
  have t: "task_ok X Y s a k" by (rule pt_okD(5)[OF ok k(1)])
  then obtain p where p: "k_on k = Some p" using k(4) by (auto simp: task_ok_def)
  obtain kp where kp: "p_task s p = Some kp" "a \<in> set (k_children kp)" by (rule parent_of[OF ok k(1) p])
  have pa: "p \<noteq> a" using kp k(1,2) by auto
  define s' where "s' = s\<lparr>p_task := (p_task s)(p \<mapsto> kp\<lparr>k_children := remove1 a (k_children kp)\<rparr>, a := None),
    p_slot := (p_slot s)(k_pid k := (p_slot s (k_pid k))\<lparr>s_task := None\<rparr>)\<rparr>"
  have d: "task_destroy a s = Some s'" unfolding s'_def by (rule task_destroy_eq[OF k(1) p pa kp(1) pid_get_own[OF ok k(1)]])
  have set1: "set (remove1 a (k_children kp)) \<subseteq> set (k_children kp)" by (rule set_remove1_subset)
  have w: "without a s s'"
  proof -
    have "opt_rel (\<lambda>k k'. \<exists>cs. set cs \<subseteq> set (k_children k) \<and> k' = k\<lparr>k_children := cs\<rparr>) (p_task s b) (p_task s' b)" if b: "b \<noteq> a" for b
    proof (cases "b = p")
      case True
      then show ?thesis using b kp(1) set1 by (auto simp: s'_def)
    next
      case False
      have "k' = k'\<lparr>k_children := k_children k'\<rparr>" for k' :: task by simp
      then show ?thesis using False b by (cases "p_task s b") (auto simp: s'_def)
    qed
    then show ?thesis by (simp add: without_def s'_def)
  qed
  have slot: "s_task (p_slot s' i) = (if i = k_pid k then None else s_task (p_slot s i))" for i by (simp add: s'_def)
  have v: "children_of s' = (children_of s)(p := remove1 a (children_of s p))" "child_at s' = (child_at s)(a := None)"
      "threads_of s' = threads_of s" "thread_at s' = thread_at s" "pgroup_of s' = pgroup_of s" "pgroup_at s' = pgroup_at s"
      "session_of s' = session_of s" "session_at s' = session_at s"
    using k kp pa by (auto simp: s'_def view_defs fun_eq_iff)
  note D = pt_okD[OF ok]
  have own: "s_task (p_slot s (k_pid k)) = Some a" using t by (simp add: task_ok_def)
  have kept: "\<exists>k'. p_task s' b = Some k' \<and> (\<exists>cs. set cs \<subseteq> set (k_children kb) \<and> k' = kb\<lparr>k_children := cs\<rparr>)"
    if "p_task s b = Some kb" "b \<noteq> a" for b kb
    using w that by (auto simp: without_def opt_rel_Some1 dest!: spec[of _ b])
  have "pt_okx (X - {a}) (Y - {a}) s'"
  proof (rule pt_okI)
    have "linked (children_of s') (child_at s')"
      unfolding v by (rule linked_remove[OF listsD(1)[OF D(1)]]) (simp add: child_at_def k(1) p)
    then show "lists_ok s'" using D(1) by (simp add: lists_ok_def v)
    show "slots_ok s'" unfolding slots_ok_def
    proof (intro allI impI)
      fix i b assume "s_task (p_slot s' i) = Some b"
      then have i: "i \<noteq> k_pid k" "s_task (p_slot s i) = Some b" by (auto simp: slot split: if_splits)
      then obtain kb where kb: "p_task s b = Some kb" "k_pid kb = i" using D(2) by (auto simp: slots_ok_def)
      then have "b \<noteq> a" using i k(1) by auto
      with kept[OF kb(1)] kb(2) show "\<exists>k. p_task s' b = Some k \<and> k_pid k = i" by auto
    qed
    show "fresh_ok s'" using D(4) kp(1) by (auto simp: fresh_ok_def s'_def)
    obtain a0 k0 n0 where i: "s_task (p_slot s 1) = Some a0" "p_task s a0 = Some k0" "\<not> zombie k0" "p_group s (k_group k0) = Some n0"
      "n_leader n0 = a0" "set (n_threads n0) \<subseteq> {a0}" using D(3) by (auto simp: init_ok_def)
    have "a0 \<noteq> a" using i(4,5) lead by blast
    then obtain k0' cs where "p_task s' a0 = Some k0'" "k0' = k0\<lparr>k_children := cs\<rparr>" using kept[OF i(2)] by blast
    then show "init_ok s'" using i k(4) w by (auto simp: init_ok_def slot without_def zombie_def)
    have u: "users (Y - {a}) s' h = users Y s h" for h
    proof -
      have "b \<in> users (Y - {a}) s' h \<longleftrightarrow> b \<in> users Y s h" for b
      proof (cases "b = a")
        case True
        then show ?thesis using w hand k(1) by (auto simp: users_def without_def)
      next
        case False
        show ?thesis
        proof (cases "p_task s b")
          case None
          then have "p_task s' b = None" using w False by (auto simp: without_def dest!: spec[of _ b])
          then show ?thesis using None by (simp add: users_def)
        next
          case (Some kb)
          from kept[OF Some False] Some False show ?thesis by (auto simp: users_def)
        qed
      qed
      then show ?thesis by blast
    qed
    show "hand_ok (Y - {a}) s' h r" if "p_hand s' h = Some r" for h r
      using that D(7)[of h r] w by (simp add: hand_ok_def u without_def)
    show "group_ok s' g n" if g: "p_group s' g = Some n" for g n
    proof -
      have g0: "p_group s g = Some n" using g w by (simp add: without_def)
      obtain l where l: "p_task s (n_leader n) = Some l" "k_group l = g" using D(6)[OF g0] by (auto simp: group_ok_def)
      show ?thesis using kept[OF l(1) lead[OF g0]] l(2) D(6)[OF g0] by (auto simp: group_ok_def)
    qed
    show "task_ok (X - {a}) (Y - {a}) s' b k'" if b: "p_task s' b = Some k'" for b k'
    proof -
      obtain kb cs where kb: "b \<noteq> a" "p_task s b = Some kb" "set cs \<subseteq> set (k_children kb)" "k' = kb\<lparr>k_children := cs\<rparr>"
        by (rule withoutD[OF w b])
      have tb: "task_ok X Y s b kb" by (rule D(5)[OF kb(2)])
      have ne: "k_pid kb \<noteq> k_pid k" using tb own kb(1) by (auto simp: task_ok_def)
      have "tied s' b k'" if "tied s b kb" using that w kb(3,4) by (auto simp: tied_def without_def exiting_def zombie_def)
      then show ?thesis using tb kb(1,4) w ne by (auto simp: task_ok_def slot without_def zombie_def exiting_def)
    qed
  qed
  with d w show thesis by (rule that)
qed

section \<open>Freeing a group\<close>

definition ungroup :: "nat \<Rightarrow> procs \<Rightarrow> procs" where
  "ungroup g s = s\<lparr>p_group := (p_group s)(g := None)\<rparr>"

lemma leader_is:
  assumes "pt_okx X Y s" "p_group s g = Some n"
  obtains l where "p_task s (n_leader n) = Some l" "k_group l = g"
  using pt_okD(6)[OF assms(1), of g n] assms(2) that by (auto simp: group_ok_def)

lemma group_gone_ok:
  assumes ok: "pt_okx X Y s" and n: "p_group s g = Some n" "n_threads n = []" and r: "regroup s s2"
    and l: "linked (pgroup_of s2) (pgroup_at s2)" "linked (session_of s2) (session_at s2)"
    and at: "pgroup_at s2 = (pgroup_at s)(g := None)" "session_at s2 = (session_at s)(g := None)"
    and init: "\<And>k. p_task s (n_leader n) = Some k \<Longrightarrow> k_pid k \<noteq> 1"
    and X: "X \<subseteq> X'" "\<And>b k. p_task s b = Some k \<Longrightarrow> k_group k = g \<Longrightarrow> b \<in> X'"
  shows "pt_okx X' Y (ungroup g s2)"
proof (rule pt_okI)
  note d = pt_okD[OF ok] and v = regroup_views[OF r]
  have f: "p_hand s2 = p_hand s" "p_cur s2 = p_cur s" "p_next s2 = p_next s" "s_task (p_slot s2 i) = s_task (p_slot s i)"
      "opt_rel loose_group (p_group s h) (p_group s2 h)" for i h using r by (simp_all add: regroup_def)
  have tg: "threads_of (ungroup g s2) = threads_of s"
    using n v(3) by (auto simp: ungroup_def view_defs fun_eq_iff)
  have w: "children_of (ungroup g s2) = children_of s" "child_at (ungroup g s2) = child_at s" "thread_at (ungroup g s2) = thread_at s"
      "pgroup_of (ungroup g s2) = pgroup_of s2" "session_of (ungroup g s2) = session_of s2"
    using v by (simp_all add: ungroup_def view_defs fun_eq_iff)
  have at': "pgroup_at (ungroup g s2) = pgroup_at s2" "session_at (ungroup g s2) = session_at s2"
    using at[THEN fun_cong, of g] by (auto simp: ungroup_def view_defs fun_eq_iff)
  show "lists_ok (ungroup g s2)" using d(1) l by (simp add: lists_ok_def tg w at')
  show "slots_ok (ungroup g s2)" using d(2) by (simp add: slots_ok_def ungroup_def f v)
  have dom: "(p_group s2 h = None) = (p_group s h = None)" for h
    using f(5)[of h] by (cases "p_group s h"; cases "p_group s2 h") simp_all
  show "fresh_ok (ungroup g s2)" using d(4) by (simp add: fresh_ok_def ungroup_def f v dom)
  obtain a0 k0 n0 where i: "s_task (p_slot s 1) = Some a0" "p_task s a0 = Some k0" "\<not> zombie k0" "p_group s (k_group k0) = Some n0"
    "n_leader n0 = a0" "set (n_threads n0) \<subseteq> {a0}" using d(3) by (auto simp: init_ok_def)
  have "k_pid k0 = 1" using d(2) i(1,2) by (fastforce simp: slots_ok_def)
  then have "k_group k0 \<noteq> g" using i init n(1) by auto
  with i regroup_group[OF r i(4)] show "init_ok (ungroup g s2)" by (auto simp: init_ok_def f v loose_group_def ungroup_def)
  show "hand_ok Y (ungroup g s2) h x" if "p_hand (ungroup g s2) h = Some x" for h x
    using d(7) that by (simp add: hand_ok_def users_def f v ungroup_def)
  show "task_ok X' Y (ungroup g s2) b k" if b: "p_task (ungroup g s2) b = Some k" for b k
  proof -
    have k: "p_task s b = Some k" using b v(5) by (simp add: ungroup_def)
    have t: "task_ok X Y s b k" by (rule d(5)[OF k])
    have "tied (ungroup g s2) b k" if "b \<notin> X'"
    proof -
      have "k_group k \<noteq> g" "tied s b k" using X(2)[OF k] X(1) that t by (auto simp: task_ok_def)
      then show ?thesis using regroup_group[OF r, of "k_group k"] by (auto simp: tied_def loose_group_def ungroup_def)
    qed
    with t X(1) show ?thesis by (auto simp: task_ok_def f ungroup_def)
  qed
  show "group_ok (ungroup g s2) h n'" if n': "p_group (ungroup g s2) h = Some n'" for h n'
  proof -
    have h: "h \<noteq> g" "p_group s2 h = Some n'" using n' by (auto simp: ungroup_def split: if_splits)
    obtain m where m: "p_group s h = Some m" "loose_group m n'" using f(5)[of h] h(2) by (auto simp: opt_rel_Some2)
    have "pgroup_at s2 h = pgroup_at s h" "session_at s2 h = session_at s h" using at h(1) by simp_all
    then have "n_pgroup_at n' = n_pgroup_at m" "n_session_at n' = n_session_at m" using h(2) m(1) by (simp_all add: view_defs)
    with d(6)[OF m(1)] m(2) show ?thesis by (simp add: group_ok_def loose_group_def ungroup_def v)
  qed
qed

text \<open>Taking the group out of both lists and freeing it.\<close>

lemma drop_group:
  assumes ok: "pt_okx X Y s" and n: "p_group s g = Some n" "n_threads n = []"
    and init: "\<And>k. p_task s (n_leader n) = Some k \<Longrightarrow> k_pid k \<noteq> 1"
    and X: "X \<subseteq> X'" "\<And>b k. p_task s b = Some k \<Longrightarrow> k_group k = g \<Longrightarrow> b \<in> X'"
  obtains s1 s2 where "ses_del g s = Some s1" "pg_del g s1 = Some s2" "pt_okx X' Y (ungroup g s2)" "regroup s s1" "regroup s s2"
    "p_tty s1 = p_tty s"
proof -
  obtain i j where at: "pgroup_at s g = Some i" "session_at s g = Some j" by (rule group_places[OF ok n(1)])
  obtain s1 where s1: "ses_del g s = Some s1" "regroup s s1" "pgroup_of s1 = pgroup_of s" "pgroup_at s1 = pgroup_at s"
      "session_of s1 = (session_of s)(j := remove1 g (session_of s j))" "session_at s1 = (session_at s)(g := None)"
    by (rule ses_del_ok[OF at(2)])
  obtain s2 where s2: "pg_del g s1 = Some s2" "regroup s1 s2" "session_of s2 = session_of s1" "session_at s2 = session_at s1"
      "pgroup_of s2 = (pgroup_of s1)(i := remove1 g (pgroup_of s1 i))" "pgroup_at s2 = (pgroup_at s1)(g := None)"
    by (rule pg_del_ok[of s1 g i]) (simp_all add: s1(4) at)
  note L = listsD[OF pt_okD(1)[OF ok]]
  have l: "linked (pgroup_of s2) (pgroup_at s2)" "linked (session_of s2) (session_at s2)"
    using linked_remove[OF L(3) at(1)] linked_remove[OF L(4) at(2)] by (simp_all add: s1 s2)
  have "p_tty s1 = p_tty s" using s1(1) by (auto simp: ses_del_def upd_group_def upd_slot_def split: Option.bind_splits)
  moreover have r: "regroup s s2" by (rule regroup_trans[OF s1(2) s2(2)])
  moreover have "pt_okx X' Y (ungroup g s2)"
    by (rule group_gone_ok[OF ok n r l _ _ init X]) (simp_all add: s1 s2)
  ultimately show thesis using s1 s2 by (intro that)
qed

text \<open>Only the leader is left of a group whose leader is a zombie.\<close>

lemma only_leader:
  assumes "pt_okx X Y s" "p_task s b = Some k" "b \<notin> X" "p_group s (k_group k) = Some n" "n_threads n = []"
  shows "b = n_leader n"
proof -
  have t: "tied s b k" using pt_okD(5)[OF assms(1,2)] assms(3) by (simp add: task_ok_def)
  show ?thesis
  proof (cases "exiting k")
    case True
    then show ?thesis using t assms(4) by (simp add: tied_def)
  next
    case False
    then have "b \<in> set (n_threads n)" using threads_of_linked[OF assms(1,2) _ assms(4)] t by (simp add: tied_def)
    then show ?thesis using assms(5) by simp
  qed
qed

lemma free_group_ok:
  assumes ok: "pt_okx X Y s" and k: "p_task s a = Some k" "zombie k" "tied s a k"
  obtains s' where "free_group a s = Some s'" "pt_okx (X - {a}) (Y - {a}) s'" "p_task s' a = None"
    "\<forall>b kb. b \<noteq> a \<longrightarrow> p_task s b = Some kb \<longrightarrow> (\<exists>cs. p_task s' b = Some (kb\<lparr>k_children := cs\<rparr>) \<and> set cs \<subseteq> set (k_children kb))"
    "\<forall>g n. p_group s' g = Some n \<longrightarrow> (\<exists>n0. p_group s g = Some n0 \<and> loose_group n0 n)"
    "\<forall>b. p_task s' b \<noteq> None \<longrightarrow> p_task s b \<noteq> None"
proof -
  let ?g = "k_group k"
  have t: "task_ok X Y s a k" by (rule pt_okD(5)[OF ok k(1)])
  then have ex: "exiting k" using k(2) by (simp add: task_ok_def)
  obtain n where n: "p_group s ?g = Some n" "n_leader n = a" "n_threads n = []" "k_children k = []"
    using k(2,3) ex by (auto simp: tied_def)
  have k': "\<not> k_linked k" "k_hand k = None" "k_pid k \<noteq> 1" using k(3) ex by (auto simp: tied_def)
  obtain i j where at: "pgroup_at s ?g = Some i" "session_at s ?g = Some j" "n_tty n = None" by (rule group_places[OF ok n(1)])
  obtain s1 s2 where s: "ses_del ?g s = Some s1" "pg_del ?g s1 = Some s2" "pt_okx (insert a X) Y (ungroup ?g s2)" "regroup s s1"
      "regroup s s2"
  proof (rule drop_group[OF ok n(1,3)])
    show "k_pid k0 \<noteq> 1" if "p_task s (n_leader n) = Some k0" for k0 using that n(2) k(1) k'(3) by simp
    show "X \<subseteq> insert a X" by blast
    show "b \<in> insert a X" if "p_task s b = Some kb" "k_group kb = ?g" for b kb
      using only_leader[OF ok that(1)] that(2) n by auto
  qed
  have ts: "p_task s1 = p_task s" "p_task s2 = p_task s" using s(4,5) by (simp_all add: regroup_def)
  obtain s' where s': "task_destroy a (ungroup ?g s2) = Some s'" "without a (ungroup ?g s2) s'"
      "pt_okx (insert a X - {a}) (Y - {a}) s'"
  proof (rule task_destroy_ok[OF s(3)])
    show "p_task (ungroup ?g s2) a = Some k" using k(1) ts by (simp add: ungroup_def)
    show "n_leader m \<noteq> a" if m: "p_group (ungroup ?g s2) h = Some m" for h m
    proof
      assume e: "n_leader m = a"
      obtain l where "p_task (ungroup ?g s2) (n_leader m) = Some l" "k_group l = h" by (rule leader_is[OF s(3) m])
      then have "h = ?g" using e k(1) ts by (simp add: ungroup_def)
      with m show False by (simp add: ungroup_def)
    qed
  qed (use n k' in simp_all)
  have leave: "task_leave_session a s = Some s1"
    using leave_session_del[OF k(1) n(1) at(3)] at(2) n(1) s(1) by (simp add: session_at_def)
  show thesis
  proof (rule that[of s'])
    show "free_group a s = Some s'" using leave s(2) s'(1) k(1) by (simp add: free_group_def ts ungroup_def)
    have "insert a X - {a} = X - {a}" by blast
    then show "pt_okx (X - {a}) (Y - {a}) s'" using s'(3) by simp
    show "p_task s' a = None" using s'(2) by (simp add: without_def)
    have "\<exists>cs. p_task s' b = Some (kb\<lparr>k_children := cs\<rparr>) \<and> set cs \<subseteq> set (k_children kb)" if "b \<noteq> a" "p_task s b = Some kb" for b kb
      using s'(2) that ts by (auto simp: without_def ungroup_def opt_rel_Some1 dest!: spec[of _ b])
    then show "\<forall>b kb. b \<noteq> a \<longrightarrow> p_task s b = Some kb \<longrightarrow> (\<exists>cs. p_task s' b = Some (kb\<lparr>k_children := cs\<rparr>) \<and> set cs \<subseteq> set (k_children kb))"
      by blast
    have "\<exists>n0. p_group s g = Some n0 \<and> loose_group n0 m" if "p_group s' g = Some m" for g m
    proof -
      have "p_group s2 g = Some m" using that s'(2) by (auto simp: without_def ungroup_def split: if_splits)
      moreover have "opt_rel loose_group (p_group s g) (p_group s2 g)" using s(5) by (simp add: regroup_def)
      ultimately show ?thesis by (auto simp: opt_rel_Some2)
    qed
    then show "\<forall>g n. p_group s' g = Some n \<longrightarrow> (\<exists>n0. p_group s g = Some n0 \<and> loose_group n0 n)" by blast
    have "p_task s b \<noteq> None" if b: "p_task s' b = Some kb" for b kb
      by (rule withoutD[OF s'(2) b]) (simp add: ts ungroup_def)
    then show "\<forall>b. p_task s' b \<noteq> None \<longrightarrow> p_task s b \<noteq> None" by blast
  qed
qed

end
