(* ===== verification/Process_Exit.thy ===== *)
theory Process_Exit
  imports Process_Free
begin

text \<open>Exiting keeps the invariant: \<^verbatim>\<open>do_exit\<close> stage by stage.\<close>

section \<open>References to the signal actions\<close>

lemma users_finite:
  assumes "pt_okx X Y s"
  shows "finite (users Z s h)"
proof -
  have "users Z s h \<subseteq> {..<p_next s}"
  proof
    fix x assume "x \<in> users Z s h"
    then have "p_task s x \<noteq> None" by (auto simp: users_def)
    with pt_okD(4)[OF assms] show "x \<in> {..<p_next s}" unfolding fresh_ok_def by (meson leI lessThan_iff)
  qed
  then show ?thesis by (rule finite_subset) simp
qed

lemma users_Diff: "users (insert a Y) s h = users Y s h - {a}"
  by (auto simp: users_def)

lemma hand_views:
  "children_of (s\<lparr>p_hand := H\<rparr>) = children_of s" "child_at (s\<lparr>p_hand := H\<rparr>) = child_at s"
  "threads_of (s\<lparr>p_hand := H\<rparr>) = threads_of s" "thread_at (s\<lparr>p_hand := H\<rparr>) = thread_at s"
  "pgroup_of (s\<lparr>p_hand := H\<rparr>) = pgroup_of s" "pgroup_at (s\<lparr>p_hand := H\<rparr>) = pgroup_at s"
  "session_of (s\<lparr>p_hand := H\<rparr>) = session_of s" "session_at (s\<lparr>p_hand := H\<rparr>) = session_at s"
  by (simp_all add: view_defs fun_eq_iff)

lemma only_hand_ok:
  assumes ok: "pt_okx X Y s" and s': "s' = s\<lparr>p_hand := H\<rparr>"
    and t: "\<And>b k h. p_task s b = Some k \<Longrightarrow> b \<notin> Y' \<Longrightarrow> k_hand k = Some h \<Longrightarrow> H h \<noteq> None"
    and h: "\<And>h r. H h = Some r \<Longrightarrow> hand_ok Y' s h r" and f: "\<And>x. x \<ge> p_next s \<Longrightarrow> H x = None"
  shows "pt_okx X Y' s'"
proof (rule pt_okI)
  note d = pt_okD[OF ok]
  show "lists_ok s'" "slots_ok s'" "init_ok s'"
    using d(1,2,3) by (simp_all add: s' lists_ok_def slots_ok_def init_ok_def hand_views)
  show "fresh_ok s'" using d(4) f by (simp add: s' fresh_ok_def)
  show "task_ok X Y' s' b k" if "p_task s' b = Some k" for b k
    using d(5)[of b k] t[of b k] that by (auto simp: s' task_ok_def tied_def)
  show "group_ok s' g n" if "p_group s' g = Some n" for g n using d(6)[of g n] that by (simp add: s' group_ok_def)
  show "hand_ok Y' s' h r" if "p_hand s' h = Some r" for h r using h[of h r] that by (simp add: s' hand_ok_def users_def)
qed

lemma hand_is:
  assumes "pt_okx X Y s" "p_task s a = Some k" "a \<notin> Y" "k_hand k = Some h"
  obtains r where "p_hand s h = Some r" "hand_ok Y s h r"
  using pt_okD(5)[OF assms(1,2)] pt_okD(7)[OF assms(1)] assms(3,4) that by (auto simp: task_ok_def)

text \<open>A task gives up its reference.\<close>

lemma release_ok:
  assumes ok: "pt_okx X Y s" and a: "p_task s a = Some k" "a \<notin> Y" "k_hand k = Some h"
  obtains H where "\<And>s'. p_hand s' = p_hand s \<Longrightarrow> sighand_release h s' = Some (s'\<lparr>p_hand := H\<rparr>)"
    "pt_okx X (insert a Y) (s\<lparr>p_hand := H\<rparr>)"
proof -
  obtain r where r: "p_hand s h = Some r" "hand_ok Y s h r" by (rule hand_is[OF ok a])
  define H where "H = (p_hand s)(h := if h_refs r = 1 then None else Some (r\<lparr>h_refs := h_refs r - 1\<rparr>))"
  have fin: "finite (users Y s h)" by (rule users_finite[OF ok])
  have mem: "a \<in> users Y s h" using a by (simp add: users_def)
  have refs: "h_refs r = card (users Y s h)" using r(2) by (simp add: hand_ok_def)
  have less: "card (users Y s h - {a}) = h_refs r - 1" using refs fin mem by simp
  show thesis
  proof (rule that[of H])
    show "sighand_release h s' = Some (s'\<lparr>p_hand := H\<rparr>)" if "p_hand s' = p_hand s" for s'
      using r(1) that by (simp add: sighand_release_def H_def)
    show "pt_okx X (insert a Y) (s\<lparr>p_hand := H\<rparr>)"
    proof (rule only_hand_ok[OF ok refl])
      show "H h' \<noteq> None" if b: "p_task s b = Some kb" "b \<notin> insert a Y" "k_hand kb = Some h'" for b kb h'
      proof (cases "h' = h")
        case True
        have "{a, b} \<subseteq> users Y s h" using mem b True by (auto simp: users_def)
        then have "card {a, b} \<le> card (users Y s h)" by (rule card_mono[OF fin])
        then have "h_refs r \<noteq> 1" using refs b(2) by (simp add: card_insert_if split: if_splits)
        then show ?thesis using True by (simp add: H_def)
      next
        case False
        obtain r' where "p_hand s h' = Some r'" by (rule hand_is[OF ok b(1) _ b(3)]) (use b(2) in simp)
        then show ?thesis using False by (simp add: H_def)
      qed
      show "hand_ok (insert a Y) s h' x" if x: "H h' = Some x" for h' x
      proof (cases "h' = h")
        case True
        then show ?thesis using x less r(2) by (auto simp: H_def hand_ok_def users_Diff split: if_splits)
      next
        case False
        have "a \<notin> users Y s h'" using a False by (simp add: users_def)
        then show ?thesis using x False pt_okD(7)[OF ok, of h' x] by (simp add: H_def hand_ok_def users_Diff)
      qed
      show "H x = None" if "x \<ge> p_next s" for x using pt_okD(4)[OF ok] that r(1) by (auto simp: H_def fresh_ok_def)
    qed
  qed
qed

text \<open>What happens to a task that is exempt.\<close>

lemma upd_loose_ok:
  assumes ok: "pt_okx X Y s" and a: "p_task s a = Some k" "a \<in> X" "a \<in> Y"
    and same: "k_pid k' = k_pid k" "k_group k' = k_group k" "k_linked k' = k_linked k" "k_parent k' = k_parent k"
      "k_children k' = k_children k" "k_on k' = k_on k" "zombie k' = zombie k" "zombie k' \<Longrightarrow> exiting k'"
      "0 \<le> k_exit_signal k'" "k_exit_signal k' \<le> 64"
  shows "pt_okx X Y (s\<lparr>p_task := (p_task s)(a \<mapsto> k')\<rparr>)" (is "pt_okx X Y ?s")
proof (rule pt_okI)
  note d = pt_okD[OF ok]
  have v: "children_of ?s = children_of s" "child_at ?s = child_at s" "thread_at ?s = thread_at s" "threads_of ?s = threads_of s"
      "pgroup_of ?s = pgroup_of s" "pgroup_at ?s = pgroup_at s" "session_of ?s = session_of s" "session_at ?s = session_at s"
    using a(1) same by (simp_all add: view_defs fun_eq_iff)
  show "lists_ok ?s" using d(1) by (simp add: lists_ok_def v)
  show "slots_ok ?s" using d(2) a(1) same(1) by (fastforce simp: slots_ok_def)
  show "init_ok ?s" using d(3) a(1) same(2,7) by (auto simp: init_ok_def)
  show "fresh_ok ?s" using d(4) a(1) by (auto simp: fresh_ok_def)
  show "task_ok X Y ?s b kb" if b: "p_task ?s b = Some kb" for b kb
    using b d(5)[OF a(1)] d(5)[of b kb] a(2,3) same by (cases "b = a") (auto simp: task_ok_def tied_def)
  show "group_ok ?s g n" if "p_group ?s g = Some n" for g n
    using d(6)[of g n] that a(1) same(2) by (auto simp: group_ok_def)
  show "hand_ok Y ?s h r" if "p_hand ?s h = Some r" for h r
    using d(7)[of h r] that a(3) by (simp add: hand_ok_def users_def) (metis (lifting))
qed

lemma count_none:
  assumes ok: "pt_okx X Y s" and a: "p_task s a = Some k" "k_hand k = None"
  shows "pt_okx X (Y - {a}) s"
proof (rule pt_okI)
  note d = pt_okD[OF ok]
  show "lists_ok s" "slots_ok s" "init_ok s" "fresh_ok s" by (fact d)+
  show "task_ok X (Y - {a}) s b kb" if "p_task s b = Some kb" for b kb
    using d(5)[OF that] a that by (auto simp: task_ok_def)
  have "users (Y - {a}) s h = users Y s h" for h using a by (auto simp: users_def)
  then show "hand_ok (Y - {a}) s h r" if "p_hand s h = Some r" for h r using d(7)[OF that] by (simp add: hand_ok_def)
qed (use pt_okD(6)[OF ok] in blast)

lemma pt_ok_weaken:
  assumes "pt_okx X Y s" "X \<subseteq> X'"
  shows "pt_okx X' Y s"
  using assms by (auto simp: pt_okx_def task_ok_def)

section \<open>Marking\<close>

definition marked :: "u32 \<Rightarrow> task \<Rightarrow> task" where
  "marked status k = k\<lparr>k_exit_code := status, k_sig := (k_sig k)\<lparr>t_exiting := True, t_queue := []\<rparr>, k_hand := None\<rparr>"

lemma exit_mark_ok:
  assumes ok: "pt_ok s" and k: "p_task s cur = Some k" "\<not> exiting k"
  obtains s1 where "exit_mark cur status s = Some s1" "pt_okx {cur} {} s1" "p_task s1 = (p_task s)(cur \<mapsto> marked status k)"
    "p_group s1 = p_group s" "p_slot s1 = p_slot s"
proof -
  have t: "task_ok {} {} s cur k" by (rule pt_okD(5)[OF ok k(1)])
  then have "k_hand k \<noteq> None" using k(2) by (simp add: task_ok_def tied_def)
  then obtain h where h: "k_hand k = Some h" by blast
  have z: "\<not> zombie k" using t k(2) by (auto simp: task_ok_def)
  have ok': "pt_okx {cur} {} s" by (rule pt_ok_weaken[OF ok]) simp
  obtain H where H: "\<And>s'. p_hand s' = p_hand s \<Longrightarrow> sighand_release h s' = Some (s'\<lparr>p_hand := H\<rparr>)"
      "pt_okx {cur} {cur} (s\<lparr>p_hand := H\<rparr>)" by (rule release_ok[OF ok' k(1) _ h]) simp_all
  define s1 where "s1 = (s\<lparr>p_hand := H\<rparr>)\<lparr>p_task := (p_task (s\<lparr>p_hand := H\<rparr>))(cur \<mapsto> marked status k)\<rparr>"
  have o1: "pt_okx {cur} {cur} s1" unfolding s1_def
    by (rule upd_loose_ok[OF H(2), of _ k]) (use k t z in \<open>simp_all add: marked_def zombie_def exiting_def task_ok_def\<close>)
  have "pt_okx {cur} ({cur} - {cur}) s1" by (rule count_none[OF o1, of _ "marked status k"]) (simp_all add: s1_def marked_def)
  moreover have "exit_mark cur status s = Some s1"
    using k(1) h by (simp add: exit_mark_def upd_task_def marked_def s1_def H(1))
  ultimately show thesis by (intro that[of s1]) (simp_all add: s1_def)
qed

section \<open>Changing parents\<close>

definition kin :: "task \<Rightarrow> task \<Rightarrow> bool" where
  "kin k k' \<longleftrightarrow> (k_on k' = None) = (k_on k = None) \<and> k' = k\<lparr>k_parent := k_parent k', k_children := k_children k', k_on := k_on k'\<rparr>"

definition rekin :: "procs \<Rightarrow> procs \<Rightarrow> bool" where
  "rekin s s' \<longleftrightarrow> (\<forall>a. opt_rel kin (p_task s a) (p_task s' a)) \<and> s' = s\<lparr>p_task := p_task s'\<rparr>"

lemma kin_refl [simp]: "kin k k" "opt_rel kin x x"
  by (simp add: kin_def) (cases x; simp add: kin_def)

lemma kin_trans: "kin k k' \<Longrightarrow> kin k' k'' \<Longrightarrow> kin k k''"
  by (cases k; cases k'; cases k'') (simp add: kin_def)

lemma kin_fields:
  assumes "kin k k'"
  shows "k_pid k' = k_pid k" "k_group k' = k_group k" "k_linked k' = k_linked k" "k_hand k' = k_hand k" "k_sig k' = k_sig k"
    "k_exit_signal k' = k_exit_signal k" "(k_on k' = None) = (k_on k = None)" "k_tgid k' = k_tgid k"
    "k_exit_code k' = k_exit_code k" "zombie k' = zombie k" "exiting k' = exiting k"
proof -
  have e: "k' = k\<lparr>k_parent := k_parent k', k_children := k_children k', k_on := k_on k'\<rparr>" using assms by (simp add: kin_def)
  show "k_pid k' = k_pid k" "k_group k' = k_group k" "k_linked k' = k_linked k" "k_hand k' = k_hand k" "k_sig k' = k_sig k"
    "k_exit_signal k' = k_exit_signal k" "k_tgid k' = k_tgid k" "k_exit_code k' = k_exit_code k" "zombie k' = zombie k"
    "exiting k' = exiting k" by (subst e, simp add: zombie_def exiting_def)+
  show "(k_on k' = None) = (k_on k = None)" using assms by (simp add: kin_def)
qed

lemma rekin_refl [simp]: "rekin s s"
  by (simp add: rekin_def)

lemma rekin_trans:
  assumes "rekin s s'" "rekin s' s''"
  shows "rekin s s''"
proof -
  have "opt_rel kin (p_task s a) (p_task s'' a)" for a
  proof -
    have "opt_rel kin (p_task s a) (p_task s' a)" "opt_rel kin (p_task s' a) (p_task s'' a)" using assms by (simp_all add: rekin_def)
    then show ?thesis
      by (cases "p_task s a"; cases "p_task s' a"; cases "p_task s'' a") (simp_all, erule (1) kin_trans)
  qed
  moreover have "s'' = s\<lparr>p_task := p_task s''\<rparr>"
    using assms unfolding rekin_def by (metis procs.surjective procs.update_convs(1))
  ultimately show ?thesis by (simp add: rekin_def)
qed

lemma rekin_fields:
  assumes "rekin s s'"
  shows "p_group s' = p_group s" "p_hand s' = p_hand s" "p_slot s' = p_slot s" "p_cur s' = p_cur s" "p_next s' = p_next s"
    "p_tty s' = p_tty s"
proof -
  have e: "s' = s\<lparr>p_task := p_task s'\<rparr>" using assms by (simp add: rekin_def)
  show "p_group s' = p_group s" "p_hand s' = p_hand s" "p_slot s' = p_slot s" "p_cur s' = p_cur s" "p_next s' = p_next s"
    "p_tty s' = p_tty s" by (subst e, simp)+
qed

lemma rekin_task: "rekin s s' \<Longrightarrow> p_task s' a = Some k' \<Longrightarrow> \<exists>k. p_task s a = Some k \<and> kin k k'"
  unfolding rekin_def by (metis opt_rel_Some2)

lemma rekin_task_fwd: "rekin s s' \<Longrightarrow> p_task s a = Some k \<Longrightarrow> \<exists>k'. p_task s' a = Some k' \<and> kin k k'"
  unfolding rekin_def by (metis opt_rel_Some1)

lemma rekin_None: "rekin s s' \<Longrightarrow> (p_task s' a = None) = (p_task s a = None)"
  unfolding rekin_def by (metis opt_rel_None)

lemma rekin_ok:
  assumes ok: "pt_okx X Y s" and r: "rekin s s'" and l: "linked (children_of s') (child_at s')"
    and p: "\<And>a k. p_task s' a = Some k \<Longrightarrow> k_parent k = k_on k"
    and c: "\<And>a k. p_task s' a = Some k \<Longrightarrow> a \<notin> X \<Longrightarrow> exiting k \<Longrightarrow> k_children k = []"
  shows "pt_okx X Y s'"
proof (rule pt_okI)
  note d = pt_okD[OF ok] and f = rekin_fields[OF r]
  have "thread_at s' a = thread_at s a" for a
  proof -
    have "opt_rel kin (p_task s a) (p_task s' a)" using r by (simp add: rekin_def)
    then show ?thesis by (cases "p_task s a"; cases "p_task s' a") (simp_all add: thread_at_def kin_fields)
  qed
  then have v: "thread_at s' = thread_at s" "threads_of s' = threads_of s" "pgroup_of s' = pgroup_of s" "pgroup_at s' = pgroup_at s"
      "session_of s' = session_of s" "session_at s' = session_at s" by (simp_all add: fun_eq_iff view_defs f)
  show "lists_ok s'" using d(1) l by (simp add: lists_ok_def v)
  show "slots_ok s'" unfolding slots_ok_def f
  proof (intro allI impI)
    fix i a assume "s_task (p_slot s i) = Some a"
    then obtain k where k: "p_task s a = Some k" "k_pid k = i" using d(2) by (auto simp: slots_ok_def)
    obtain k' where "p_task s' a = Some k'" "kin k k'" using rekin_task_fwd[OF r k(1)] by blast
    with k(2) show "\<exists>k. p_task s' a = Some k \<and> k_pid k = i" by (simp add: kin_fields)
  qed
  show "fresh_ok s'" using d(4) by (simp add: fresh_ok_def f rekin_None[OF r])
  obtain a k n where i: "s_task (p_slot s 1) = Some a" "p_task s a = Some k" "\<not> zombie k" "p_group s (k_group k) = Some n"
      "n_leader n = a" "set (n_threads n) \<subseteq> {a}" using d(3) by (auto simp: init_ok_def)
  obtain k' where "p_task s' a = Some k'" "kin k k'" using rekin_task_fwd[OF r i(2)] by blast
  with i show "init_ok s'" by (auto simp: init_ok_def f kin_fields)
  have u: "users Y s' h = users Y s h" for h
  proof -
    have "(\<exists>k. p_task s' a = Some k \<and> k_hand k = Some h) = (\<exists>k. p_task s a = Some k \<and> k_hand k = Some h)" for a
    proof -
      have "opt_rel kin (p_task s a) (p_task s' a)" using r by (simp add: rekin_def)
      then show ?thesis by (cases "p_task s a"; cases "p_task s' a") (simp_all add: kin_fields)
    qed
    then show ?thesis by (simp add: users_def)
  qed
  show "hand_ok Y s' h x" if "p_hand s' h = Some x" for h x using d(7) that by (simp add: hand_ok_def u f)
  show "task_ok X Y s' a k'" if t: "p_task s' a = Some k'" for a k'
  proof -
    obtain k where k: "p_task s a = Some k" "kin k k'" using rekin_task[OF r t] by blast
    have o: "task_ok X Y s a k" by (rule d(5)[OF k(1)])
    then have "tied s' a k'" if "a \<notin> X"
      using that c[OF t that] kin_fields[OF k(2)] by (auto simp: task_ok_def tied_def f)
    with o p[OF t] show ?thesis using kin_fields[OF k(2)] by (auto simp: task_ok_def f)
  qed
  show "group_ok s' g n" if n: "p_group s' g = Some n" for g n
  proof -
    have n0: "p_group s g = Some n" using n f by simp
    obtain x where x: "p_task s (n_leader n) = Some x" "k_group x = g" by (rule leader_is[OF ok n0])
    obtain x' where "p_task s' (n_leader n) = Some x'" "kin x x'" using rekin_task_fwd[OF r x(1)] by blast
    with d(6)[OF n0] x(2) show ?thesis by (simp add: group_ok_def kin_fields)
  qed
qed

lemma reparent_child_ok:
  assumes ok: "pt_okx X Y s" and c: "p_task s c = Some kc" "k_on kc \<noteq> None" and np: "p_task s np = Some kn" "np \<in> X \<or> \<not> exiting kn"
  obtains s' where "reparent_child (Some np) s c = Some s'" "pt_okx X Y s'" "rekin s s'" "child_at s' = (child_at s)(c := Some np)"
proof -
  obtain p where p: "k_on kc = Some p" using c(2) by auto
  obtain kp where kp: "p_task s p = Some kp" "c \<in> set (k_children kp)" by (rule parent_of[OF ok c(1) p])
  define s1 where "s1 = s\<lparr>p_task := (p_task s)(c \<mapsto> kc\<lparr>k_parent := Some np\<rparr>)\<rparr>"
  have s1: "upd_task c (\<lambda>k. k\<lparr>k_parent := Some np\<rparr>) s = Some s1" using c(1) by (simp add: upd_task_def s1_def)
  have v1: "children_of s1 = children_of s" "child_at s1 = child_at s" using c(1) by (simp_all add: s1_def view_defs fun_eq_iff)
  obtain s2 where s2: "sib_del c s1 = Some s2" using c(1) p kp(1)
    by (cases "p = c") (auto simp: sib_del_def upd_task_def s1_def)
  have "p_task s2 np \<noteq> None \<and> p_task s2 c \<noteq> None"
    using s2 c(1) p np(1) by (auto simp: sib_del_def upd_task_Some s1_def split: Option.bind_splits option.splits if_splits)
  then obtain s3 where s3: "sib_add np c s2 = Some s3" by (cases "c = np") (auto simp: sib_add_def upd_task_def)
  have at: "child_at s1 c = Some p" using c(1) p v1 by (simp add: child_at_def)
  have L: "linked (children_of s1) (child_at s1)" using listsD(1)[OF pt_okD(1)[OF ok]] by (simp add: v1)
  note m = siblings.moved[OF L at s2 s3]
  have r: "rekin s s3 \<and> (\<forall>a k'. p_task s3 a = Some k' \<longrightarrow> (\<exists>k. p_task s a = Some k \<and>
      k_parent k' = (if a = c then Some np else k_parent k) \<and> k_on k' = (if a = c then Some np else k_on k)
      \<and> (a \<noteq> np \<longrightarrow> set (k_children k') \<subseteq> set (k_children k))))"
  proof -
    have t: "s2 = s1\<lparr>p_task := p_task s2\<rparr> \<and> s3 = s2\<lparr>p_task := p_task s3\<rparr>"
      using s2 s3 by (auto simp: sib_del_def sib_add_def upd_task_Some split: Option.bind_splits option.splits)
    have e: "s3 = s\<lparr>p_task := p_task s3\<rparr>" using t unfolding s1_def by (metis procs.surjective procs.update_convs(1))
    have each: "opt_rel (\<lambda>k k'. k_parent k' = (if a = c then Some np else k_parent k)
        \<and> k_on k' = (if a = c then Some np else k_on k) \<and> kin k k' \<and> (a \<noteq> np \<longrightarrow> set (k_children k') \<subseteq> set (k_children k)))
        (p_task s a) (p_task s3 a)" for a
      using s2 s3 c(1) p kp(1) np(1)
      by (cases "p_task s a")
        (auto simp: sib_del_def sib_add_def upd_task_def s1_def kin_def split: Option.bind_splits if_splits,
          (erule set_remove1_subset[THEN subsetD])+)
    have "opt_rel kin (p_task s a) (p_task s3 a)" for a
      using each[of a] by (cases "p_task s a"; cases "p_task s3 a") simp_all
    with e have "rekin s s3" by (simp add: rekin_def)
    moreover have "\<exists>k. p_task s a = Some k \<and>
      k_parent k' = (if a = c then Some np else k_parent k) \<and> k_on k' = (if a = c then Some np else k_on k)
      \<and> (a \<noteq> np \<longrightarrow> set (k_children k') \<subseteq> set (k_children k))" if "p_task s3 a = Some k'" for a k'
      using each[of a] that by (cases "p_task s a") simp_all
    ultimately show ?thesis by blast
  qed
  have "pt_okx X Y s3"
  proof (rule rekin_ok[OF ok conjunct1[OF r] m(1)])
    fix a k' assume k': "p_task s3 a = Some k'"
    obtain k where k: "p_task s a = Some k" "k_parent k' = (if a = c then Some np else k_parent k)"
      "k_on k' = (if a = c then Some np else k_on k)" "a \<noteq> np \<longrightarrow> set (k_children k') \<subseteq> set (k_children k)" using r k' by blast
    have t: "task_ok X Y s a k" by (rule pt_okD(5)[OF ok k(1)])
    then show "k_parent k' = k_on k'" using k(2,3) by (simp add: task_ok_def)
    have "kin k k'" using rekin_task[OF conjunct1[OF r] k'] k(1) by auto
    then show "k_children k' = []" if "a \<notin> X" "exiting k'"
      using t that k(1,4) np by (auto simp: task_ok_def tied_def kin_fields)
  qed
  moreover have "reparent_child (Some np) s c = Some s3" using s1 s2 s3 by (simp add: reparent_child_def)
  moreover have "child_at s3 = (child_at s)(c := Some np)" using m(2) v1 by simp
  ultimately show thesis using r by (intro that) auto
qed

end
