(* ===== verification/Process_Leave.thy ===== *)
theory Process_Leave
  imports Process_Exit
begin

text \<open>The stages of \<^verbatim>\<open>do_exit\<close> after the task is marked, and the whole of it.\<close>

section \<open>Finding a parent and moving the children\<close>

lemma find_alive_ok:
  assumes "\<And>a. a \<in> set as \<Longrightarrow> p_task s a \<noteq> None"
  obtains r where "find_alive s as = Some r" "\<forall>t. r = Some t \<longrightarrow> t \<in> set as \<and> (\<exists>k. p_task s t = Some k \<and> \<not> exiting k)"
proof -
  have "\<exists>r. find_alive s as = Some r \<and> (\<forall>t. r = Some t \<longrightarrow> t \<in> set as \<and> (\<exists>k. p_task s t = Some k \<and> \<not> exiting k))"
    using assms
  proof (induction as)
    case (Cons a as)
    obtain k where "p_task s a = Some k" using Cons.prems[of a] by auto
    moreover obtain r where "find_alive s as = Some r" "\<forall>t. r = Some t \<longrightarrow> t \<in> set as \<and> (\<exists>k. p_task s t = Some k \<and> \<not> exiting k)"
      using Cons by (auto simp del: split_paired_Ex)
    ultimately show ?case by (auto simp: exiting_def)
  qed simp
  then show thesis using that by blast
qed

lemma init_task:
  assumes "pt_okx X Y s"
  obtains i k n where "pid_get_task s 1 = Some (Some i)" "s_task (p_slot s 1) = Some i" "p_task s i = Some k" "k_pid k = 1" "\<not> zombie k"
    "p_group s (k_group k) = Some n" "n_leader n = i" "set (n_threads n) \<subseteq> {i}"
proof -
  obtain a k n where i: "s_task (p_slot s 1) = Some a" "p_task s a = Some k" "\<not> zombie k" "p_group s (k_group k) = Some n"
      "n_leader n = a" "set (n_threads n) \<subseteq> {a}" using pt_okD(3)[OF assms] by (auto simp: init_ok_def)
  moreover have "k_pid k = 1" using pt_okD(2)[OF assms] i(1,2) by (fastforce simp: slots_ok_def)
  moreover have "pid_get_task s 1 = Some (Some a)"
    using i(1-3) by (simp add: pid_get_task_def pid_get_task_zombie_def pid_get_def pid_empty_def zombie_def)
  ultimately show thesis by (rule_tac that)
qed

lemma one_task:
  assumes "pt_okx X Y s" "p_task s a = Some k" "p_task s b = Some l" "k_pid k = k_pid l"
  shows "a = b"
  using pt_okD(5)[OF assms(1,2)] pt_okD(5)[OF assms(1,3)] assms(4) by (simp add: task_ok_def)

lemma reparent_all:
  assumes "pt_okx X Y s" "\<And>c. c \<in> set cs \<Longrightarrow> \<exists>kc. p_task s c = Some kc \<and> k_on kc \<noteq> None" "p_task s np = Some kn" "np \<in> X \<or> \<not> exiting kn"
  shows "\<exists>s'. iter_opt (reparent_child (Some np)) s cs = Some s' \<and> pt_okx X Y s' \<and> rekin s s'
     \<and> child_at s' = (\<lambda>x. if x \<in> set cs then Some np else child_at s x)"
  using assms
proof (induction cs arbitrary: s kn)
  case (Cons c cs)
  obtain kc where kc: "p_task s c = Some kc" "k_on kc \<noteq> None" using Cons.prems(2)[of c] by auto
  obtain s1 where s1: "reparent_child (Some np) s c = Some s1" "pt_okx X Y s1" "rekin s s1" "child_at s1 = (child_at s)(c := Some np)"
    by (rule reparent_child_ok[OF Cons.prems(1) kc Cons.prems(3,4)])
  have on: "\<exists>ke. p_task s1 e = Some ke \<and> k_on ke \<noteq> None" if e: "e \<in> set cs" for e
  proof -
    obtain k0 where k0: "p_task s e = Some k0" "k_on k0 \<noteq> None" using Cons.prems(2)[of e] e by auto
    obtain k1 where "p_task s1 e = Some k1" "kin k0 k1" using rekin_task_fwd[OF s1(3) k0(1)] by blast
    with k0(2) show ?thesis using kin_fields(7)[of k0 k1] by auto
  qed
  obtain kn1 where kn1: "p_task s1 np = Some kn1" "kin kn kn1" using rekin_task_fwd[OF s1(3) Cons.prems(3)] by blast
  have "np \<in> X \<or> \<not> exiting kn1" using Cons.prems(4) kin_fields(11)[OF kn1(2)] by simp
  from Cons.IH[OF s1(2) on kn1(1) this] obtain s' where "iter_opt (reparent_child (Some np)) s1 cs = Some s'" "pt_okx X Y s'"
      "rekin s1 s'" "child_at s' = (\<lambda>x. if x \<in> set cs then Some np else child_at s1 x)" by blast
  with s1 rekin_trans[OF s1(3)] show ?case by (auto simp: fun_eq_iff)
qed (simp add: fun_eq_iff)

text \<open>After it the leaving task has no children, unless it is the first process.\<close>

lemma reparent_children_ok:
  assumes ok: "pt_okx {cur} {} s" and k: "p_task s cur = Some k" "exiting k" and n: "p_group s (k_group k) = Some n"
  obtains s' k' where "reparent_children cur s = Some s'" "pt_okx {cur} {} s'" "rekin s s'" "p_task s' cur = Some k'" "kin k k'"
    "k_pid k \<noteq> 1 \<longrightarrow> k_children k' = []"
proof -
  have th: "p_task s a \<noteq> None" if "a \<in> set (n_threads n)" for a by (rule thread_of[OF ok n that]) simp
  obtain r where r: "find_alive s (n_threads n) = Some r"
    "\<forall>t. r = Some t \<longrightarrow> t \<in> set (n_threads n) \<and> (\<exists>k. p_task s t = Some k \<and> \<not> exiting k)" by (rule find_alive_ok[OF th])
  obtain i ki ni where i: "pid_get_task s 1 = Some (Some i)" "s_task (p_slot s 1) = Some i" "p_task s i = Some ki" "k_pid ki = 1"
      "\<not> zombie ki" "p_group s (k_group ki) = Some ni" "n_leader ni = i" by (rule init_task[OF ok]) blast
  define np where "np = (case r of Some t \<Rightarrow> t | None \<Rightarrow> i)"
  have find: "find_new_parent cur s = Some (Some np)" using k(1) n r(1) i(1) by (cases r) (simp_all add: find_new_parent_def np_def)
  have "\<exists>kn. p_task s np = Some kn \<and> (np = cur \<or> \<not> exiting kn) \<and> (np = cur \<longrightarrow> k_pid k = 1)"
  proof (cases r)
    case (Some t)
    then obtain kt where "p_task s t = Some kt" "\<not> exiting kt" using r(2) by blast
    with Some k show ?thesis by (auto simp: np_def)
  next
    case None
    show ?thesis
    proof (cases "i = cur")
      case True
      then show ?thesis using None i(3,4) k(1) by (auto simp: np_def)
    next
      case False
      then have "tied s i ki" using pt_okD(5)[OF ok i(3)] by (simp add: task_ok_def)
      then show ?thesis using None i(3,4) False by (auto simp: np_def tied_def)
    qed
  qed
  then obtain kn where kn: "p_task s np = Some kn" "np \<in> {cur} \<or> \<not> exiting kn" "np = cur \<longrightarrow> k_pid k = 1" by auto
  have on: "\<exists>kc. p_task s c = Some kc \<and> k_on kc \<noteq> None" if "c \<in> set (k_children k)" for c
    by (rule child_of[OF ok k(1) that]) auto
  obtain s' where s': "iter_opt (reparent_child (Some np)) s (k_children k) = Some s'" "pt_okx {cur} {} s'" "rekin s s'"
     "child_at s' = (\<lambda>x. if x \<in> set (k_children k) then Some np else child_at s x)"
    using reparent_all[OF ok on kn(1,2)] by blast
  obtain k' where k': "p_task s' cur = Some k'" "kin k k'" using rekin_task_fwd[OF s'(3) k(1)] by blast
  have "k_children k' = []" if "k_pid k \<noteq> 1"
  proof (rule ccontr)
    assume "k_children k' \<noteq> []"
    then obtain c where c: "c \<in> set (k_children k')" by (cases "k_children k'") auto
    obtain kc where "p_task s' c = Some kc" "k_on kc = Some cur" by (rule child_of[OF s'(2) k'(1) c])
    then have "child_at s' c = Some cur" by (simp add: child_at_def)
    then have "child_at s c = Some cur" "c \<notin> set (k_children k)" using s'(4) kn(3) that by (auto split: if_splits)
    moreover have "c \<in> set (children_of s cur) \<longleftrightarrow> child_at s c = Some cur"
      using listsD(1)[OF pt_okD(1)[OF ok]] linkedD(1) by metis
    ultimately show False using k(1) by (simp add: children_of_def)
  qed
  then have "k_pid k \<noteq> 1 \<longrightarrow> k_children k' = []" by blast
  with s' k' find k(1) show thesis by (intro that) (simp_all add: reparent_children_def)
qed

section \<open>Leaving the list of threads\<close>

lemma thr_del_ok:
  assumes ok: "pt_okx X Y s" and k: "p_task s a = Some k" "k_linked k" "a \<in> X" and n: "p_group s (k_group k) = Some n"
  obtains s' where "thr_del a s = Some s'" "pt_okx X Y s'"
    "s' = s\<lparr>p_group := (p_group s)(k_group k \<mapsto> n\<lparr>n_threads := remove1 a (n_threads n)\<rparr>), p_task := (p_task s)(a \<mapsto> k\<lparr>k_linked := False\<rparr>)\<rparr>"
proof -
  define s' where "s' = s\<lparr>p_group := (p_group s)(k_group k \<mapsto> n\<lparr>n_threads := remove1 a (n_threads n)\<rparr>),
      p_task := (p_task s)(a \<mapsto> k\<lparr>k_linked := False\<rparr>)\<rparr>"
  have d: "thr_del a s = Some s'" using k n by (simp add: thr_del_def upd_group_def upd_task_def s'_def)
  have at: "thread_at s a = Some (k_group k)" using k by (simp add: thread_at_def)
  note D = pt_okD[OF ok]
  have v: "children_of s' = children_of s" "child_at s' = child_at s" "pgroup_of s' = pgroup_of s" "pgroup_at s' = pgroup_at s"
      "session_of s' = session_of s" "session_at s' = session_at s"
    using k(1) n by (simp_all add: s'_def view_defs fun_eq_iff)
  have gr: "\<exists>n'. p_group s' g = Some n' \<and> n_leader n' = n_leader m \<and> set (n_threads n') \<subseteq> set (n_threads m)"
    if "p_group s g = Some m" for g m using that n set_remove1_subset[of a "n_threads n"] by (cases "g = k_group k") (auto simp: s'_def)
  have "pt_okx X Y s'"
  proof (rule pt_okI)
    show "lists_ok s'" using D(1) threads.linked_del[OF listsD(2)[OF D(1)] d at] by (simp add: lists_ok_def v)
    show "slots_ok s'" using D(2) k(1) by (fastforce simp: slots_ok_def s'_def)
    show "fresh_ok s'" using D(4) k(1) n by (auto simp: fresh_ok_def s'_def)
    obtain a0 k0 n0 where i: "s_task (p_slot s 1) = Some a0" "p_task s a0 = Some k0" "\<not> zombie k0" "p_group s (k_group k0) = Some n0"
      "n_leader n0 = a0" "set (n_threads n0) \<subseteq> {a0}" using D(3) by (auto simp: init_ok_def)
    have slot: "p_slot s' = p_slot s" by (simp add: s'_def)
    have t0: "\<exists>k0'. p_task s' a0 = Some k0' \<and> k_group k0' = k_group k0 \<and> zombie k0' = zombie k0"
      using i(2) k(1) by (cases "a0 = a") (auto simp: s'_def zombie_def)
    show "init_ok s'" using i gr[OF i(4)] t0 unfolding init_ok_def slot by fastforce
    show "task_ok X Y s' b kb" if b: "p_task s' b = Some kb" for b kb
    proof (cases "b = a")
      case True
      then show ?thesis using b D(5)[OF k(1)] k(3) by (auto simp: s'_def task_ok_def zombie_def exiting_def)
    next
      case False
      then have b0: "p_task s b = Some kb" using b by (simp add: s'_def)
      have "tied s' b kb" if t: "tied s b kb"
      proof -
        obtain m where m: "p_group s (k_group kb) = Some m" "exiting kb \<longrightarrow> n_leader m = b \<and> k_children kb = []" "zombie kb \<longrightarrow> n_threads m = []"
          using t by (auto simp: tied_def)
        obtain m' where "p_group s' (k_group kb) = Some m'" "n_leader m' = n_leader m" "set (n_threads m') \<subseteq> set (n_threads m)"
          using gr[OF m(1)] by blast
        with m t show ?thesis by (auto simp: tied_def)
      qed
      then show ?thesis using D(5)[OF b0] by (auto simp: task_ok_def s'_def)
    qed
    show "group_ok s' g m" if m: "p_group s' g = Some m" for g m
    proof -
      obtain m0 where "p_group s g = Some m0" "n_leader m = n_leader m0" "n_pgroup_at m = n_pgroup_at m0" "n_session_at m = n_session_at m0"
          "n_tty m = n_tty m0" using m n by (cases "g = k_group k") (auto simp: s'_def)
      with D(6)[of g m0] show ?thesis using k(1) by (cases "n_leader m0 = a") (auto simp: group_ok_def s'_def)
    qed
    have "users Y s' h = users Y s h" for h using k(1) by (auto simp: users_def s'_def)
    then show "hand_ok Y s' h r" if "p_hand s' h = Some r" for h r using D(7)[of h r] that by (simp add: hand_ok_def s'_def)
  qed
  with d show thesis by (intro that) (simp_all add: s'_def)
qed

section \<open>A task that has left its group\<close>

definition leaving :: "procs \<Rightarrow> nat \<Rightarrow> task \<Rightarrow> tgroup \<Rightarrow> bool" where
  "leaving s cur k n \<longleftrightarrow> pt_okx {cur} {} s \<and> p_task s cur = Some k \<and> exiting k \<and> \<not> k_linked k \<and> k_hand k = None
     \<and> k_children k = [] \<and> k_pid k \<noteq> 1 \<and> p_group s (k_group k) = Some n \<and> (zombie k \<longrightarrow> n_threads n = [])"

lemma leaving_tied: "leaving s cur k n \<Longrightarrow> n_leader n = cur \<Longrightarrow> tied s cur k"
  by (simp add: leaving_def tied_def)

lemma leaving_quiet:
  assumes "leaving s cur k n" "quiet s s'"
  obtains k' n' where "leaving s' cur k' n'" "same_task k k'" "same_group n n'"
proof -
  have l: "pt_okx {cur} {} s" "p_task s cur = Some k" "p_group s (k_group k) = Some n" using assms(1) by (simp_all add: leaving_def)
  obtain k' where k': "p_task s' cur = Some k'" "same_task k k'" using quiet_task_fwd[OF assms(2) l(2)] by blast
  obtain n' where n': "p_group s' (k_group k) = Some n'" "same_group n n'" using quiet_group_fwd[OF assms(2) l(3)] by blast
  have "leaving s' cur k' n'"
    using assms(1) quiet_ok[OF assms(2) l(1)] k' n' by (simp add: leaving_def same_task_def same_group_def)
  with k'(2) n'(2) show thesis by (rule_tac that)
qed

text \<open>The leader becomes a zombie when its group has no threads.\<close>

lemma zombie_ok:
  assumes ok: "pt_okx X Y s" and l: "p_task s a = Some l" "exiting l" "k_pid l \<noteq> 1" and n: "p_group s (k_group l) = Some n" "n_threads n = []"
  shows "pt_okx X Y (s\<lparr>p_task := (p_task s)(a \<mapsto> l\<lparr>k_sig := (k_sig l)\<lparr>t_zombie := True\<rparr>\<rparr>)\<rparr>)" (is "pt_okx X Y ?s")
proof (rule pt_okI)
  note d = pt_okD[OF ok]
  have v: "children_of ?s = children_of s" "child_at ?s = child_at s" "thread_at ?s = thread_at s" "threads_of ?s = threads_of s"
      "pgroup_of ?s = pgroup_of s" "pgroup_at ?s = pgroup_at s" "session_of ?s = session_of s" "session_at ?s = session_at s"
    using l(1) by (simp_all add: view_defs fun_eq_iff)
  show "lists_ok ?s" using d(1) by (simp add: lists_ok_def v)
  show "slots_ok ?s" using d(2) l(1) by (fastforce simp: slots_ok_def)
  obtain i ki ni where i: "s_task (p_slot s 1) = Some i" "p_task s i = Some ki" "k_pid ki = 1"
      "\<not> zombie ki" "p_group s (k_group ki) = Some ni" "n_leader ni = i" "set (n_threads ni) \<subseteq> {i}" by (rule init_task[OF ok])
  then have "i \<noteq> a" using l(1,3) by auto
  with i show "init_ok ?s" by (auto simp: init_ok_def)
  show "fresh_ok ?s" using d(4) l(1) by (auto simp: fresh_ok_def)
  show "task_ok X Y ?s b kb" if b: "p_task ?s b = Some kb" for b kb
    using b d(5)[OF l(1)] d(5)[of b kb] l n by (cases "b = a") (auto simp: task_ok_def tied_def zombie_def exiting_def)
  show "group_ok ?s g m" if "p_group ?s g = Some m" for g m
    using d(6)[of g m] that l(1) by (auto simp: group_ok_def)
  have "users Y ?s h = users Y s h" for h using l(1) by (auto simp: users_def)
  then show "hand_ok Y ?s h r" if "p_hand ?s h = Some r" for h r using d(7)[of h r] that by (simp add: hand_ok_def)
qed

lemma auto_reaps_total:
  assumes "pt_okx X {} s" "p_task s p = Some pk"
  shows "\<exists>b. auto_reaps l pk s = Some b"
proof (cases "k_hand pk")
  case None
  then have "auto_reaps l pk s = Some False" by (simp add: auto_reaps_def)
  then show ?thesis by blast
next
  case (Some h)
  obtain r where "p_hand s h = Some r" "hand_ok {} s h r" by (rule hand_is[OF assms _ Some]) simp
  then show ?thesis using Some action_of_range[of SIGCHLD "h_sig r"] by (auto simp: auto_reaps_def hand_ok_def)
qed

text \<open>The last thread of a group that is not the first process tells the parent.\<close>

lemma exit_notify_ok:
  assumes lv: "leaving s cur k n" and n: "n_threads n = []" and l: "p_task s (n_leader n) = Some l" "k_pid l \<noteq> 1" "\<not> zombie l"
    "exiting l" "k_group l = k_group k"
  obtains reap s' k' n' l' where "exit_notify cur clocks (n_leader n) s = Some (Exited (reap, s'))" "leaving s' cur k' n'"
    "same_group n n'" "k_group k' = k_group k" "p_task s' (n_leader n) = Some l'" "zombie l'" "k_group l' = k_group k"
proof -
  have ok: "pt_okx {cur} {} s" and k: "p_task s cur = Some k" and ng: "p_group s (k_group k) = Some n" using lv by (simp_all add: leaving_def)
  have "task_ok {cur} {} s (n_leader n) l" by (rule pt_okD(5)[OF ok l(1)])
  then obtain p where p: "k_parent l = Some p" "k_on l = Some p" and es: "0 \<le> k_exit_signal l" "k_exit_signal l \<le> 64"
    using l(2) by (auto simp: task_ok_def)
  obtain pk where pk: "p_task s p = Some pk" by (rule parent_of[OF ok l(1) p(2)])
  obtain reap where reap: "auto_reaps l pk s = Some reap" using auto_reaps_total[OF ok pk] by blast
  define l2 where "l2 = l\<lparr>k_sig := (k_sig l)\<lparr>t_zombie := True\<rparr>\<rparr>"
  define s2 where "s2 = s\<lparr>p_task := (p_task s)(n_leader n \<mapsto> l2)\<rparr>"
  have ok2: "pt_okx {cur} {} s2" unfolding s2_def l2_def
    by (rule zombie_ok[OF ok l(1) l(4,2)]) (use ng l(5) n in auto)
  obtain k2 where lv2: "leaving s2 cur k2 n" "k_group k2 = k_group k"
  proof (cases "n_leader n = cur")
    case True
    have kl: "l = k" using True k l(1) by simp
    have "p_task s2 cur = Some l2" "p_group s2 = p_group s" using True by (simp_all add: s2_def)
    then have "leaving s2 cur l2 n" using lv ok2 n unfolding leaving_def l2_def kl by (simp add: exiting_def)
    then show thesis by (rule that) (simp add: l2_def kl)
  next
    case False
    have "p_task s2 cur = Some k" "p_group s2 = p_group s" using False k by (simp_all add: s2_def)
    then have "leaving s2 cur k n" using lv ok2 unfolding leaving_def by simp
    then show thesis by (rule that) simp
  qed
  define i where "i = waitid_decode_status \<lparr>ci_sig = 0, ci_code = 0, ci_pid = k_pid l, ci_uid = k_uid k, ci_status = k_exit_code k\<rparr>"
  obtain s3 where s3: "(if k_exit_signal l \<noteq> 0 then send_task cur p (k_exit_signal l) (child_siginfo clocks (i\<lparr>ci_sig := k_exit_signal l\<rparr>)) s2
      else Some s2) = Some s3" "quiet s2 s3"
  proof (cases "k_exit_signal l = 0")
    case True
    then show thesis by (intro that[of s2]) simp_all
  next
    case False
    have "\<exists>pk2. p_task s2 p = Some pk2" using pk by (cases "p = n_leader n") (simp_all add: s2_def)
    then obtain pk2 where pk2: "p_task s2 p = Some pk2" by blast
    have "p_task s2 cur = Some k2" "exiting k2" using lv2(1) by (simp_all add: leaving_def)
    then have "reachable_task s2 p" by (intro pt_reachable[OF ok2 pk2]) (use pk2 in auto)
    with send_task_quiet[OF this es, of cur "child_siginfo clocks (i\<lparr>ci_sig := k_exit_signal l\<rparr>)"] False show thesis
      by (auto intro: that)
  qed
  obtain k3 n3 where lv3: "leaving s3 cur k3 n3" "same_task k2 k3" "same_group n n3" by (rule leaving_quiet[OF lv2(1) s3(2)])
  have l2: "p_task s2 (n_leader n) = Some l2" by (simp add: s2_def)
  obtain l3 where l3: "p_task s3 (n_leader n) = Some l3" "same_task l2 l3" using quiet_task_fwd[OF s3(2) l2] by blast
  have en: "exit_notify cur clocks (n_leader n) s = Some (Exited (reap, s3))"
  proof -
    have u: "upd_task (n_leader n) (\<lambda>l. l\<lparr>k_sig := (k_sig l)\<lparr>t_zombie := True\<rparr>\<rparr>) s = Some s2"
      using l(1) by (simp add: upd_task_def s2_def l2_def)
    show ?thesis using k l(1,3) p(1) pk reap s3(1) unfolding exit_notify_def i_def
      by (cases "k_exit_signal l = 0") (simp_all add: zombie_def u)
  qed
  show thesis
    by (rule that[OF en lv3(1,3) _ l3(1)]) (use lv2(2) lv3(2) l3(2) l(5) in \<open>simp_all add: same_task_def l2_def zombie_def\<close>)
qed

section \<open>The whole of it\<close>

lemma tie_up:
  assumes ok: "pt_okx {a} Y s" and t: "\<And>k. p_task s a = Some k \<Longrightarrow> tied s a k"
  shows "pt_okx {} Y s"
proof (rule pt_okI)
  note d = pt_okD[OF ok]
  show "lists_ok s" "slots_ok s" "init_ok s" "fresh_ok s" by (fact d)+
  show "task_ok {} Y s b k" if "p_task s b = Some k" for b k
    using d(5)[OF that] t that by (cases "b = a") (simp_all add: task_ok_def)
qed (use pt_okD(6,7)[OF ok] in blast)+

lemma finish_exit:
  assumes lv: "leaving s cur k n"
    and r: "reap \<longrightarrow> n_threads n = [] \<and> (\<exists>l. p_task s (n_leader n) = Some l \<and> zombie l)"
  obtains s5 s6 where "(if reap then free_group (n_leader n) s else Some s) = Some s5"
    "(if cur \<noteq> n_leader n then task_destroy cur s5 else Some s5) = Some s6" "pt_ok s6"
proof -
  have ok: "pt_okx {cur} {} s" and k: "p_task s cur = Some k" "k_children k = []" "\<not> k_linked k" "k_pid k \<noteq> 1" "k_hand k = None"
    and n: "p_group s (k_group k) = Some n" using lv by (simp_all add: leaving_def)
  have lead: "n_leader m \<noteq> cur" if m: "p_group s g = Some m" "n_leader n \<noteq> cur" for g m
  proof
    assume e: "n_leader m = cur"
    obtain x where "p_task s (n_leader m) = Some x" "k_group x = g" by (rule leader_is[OF ok m(1)])
    then show False using e k(1) n m by simp
  qed
  show thesis
  proof (cases reap)
    case False
    show thesis
    proof (cases "cur = n_leader n")
      case True
      have "pt_ok s" by (rule tie_up[OF ok]) (use k(1) leaving_tied[OF lv] True in auto)
      then show thesis using False True by (intro that[of s s]) simp_all
    next
      case ne: False
      obtain s6 where "task_destroy cur s = Some s6" "pt_okx ({cur} - {cur}) ({} - {cur}) s6"
        by (rule task_destroy_ok[OF ok k(1,2,3,4)]) (use k(5) lead ne in auto)
      then show thesis using False ne by (intro that[of s s6]) simp_all
    qed
  next
    case True
    then obtain l where l: "p_task s (n_leader n) = Some l" "zombie l" using r by blast
    show thesis
    proof (cases "cur = n_leader n")
      case eq: True
      have lk: "l = k" using l(1) k(1) eq by simp
      obtain s5 where s5: "free_group cur s = Some s5" "pt_okx ({cur} - {cur}) ({} - {cur}) s5"
        by (rule free_group_ok[OF ok k(1)]) (use l(2) lk leaving_tied[OF lv] eq in auto)
      then show thesis using True eq by (intro that[of s5 s5]) simp_all
    next
      case ne: False
      have tl: "tied s (n_leader n) l" using pt_okD(5)[OF ok l(1)] ne by (auto simp: task_ok_def)
      obtain s5 where s5: "free_group (n_leader n) s = Some s5" "pt_okx ({cur} - {n_leader n}) ({} - {n_leader n}) s5"
        "\<forall>b kb. b \<noteq> n_leader n \<longrightarrow> p_task s b = Some kb \<longrightarrow> (\<exists>cs. p_task s5 b = Some (kb\<lparr>k_children := cs\<rparr>) \<and> set cs \<subseteq> set (k_children kb))"
        "\<forall>g n. p_group s5 g = Some n \<longrightarrow> (\<exists>n0. p_group s g = Some n0 \<and> loose_group n0 n)"
        by (rule free_group_ok[OF ok l tl])
      have ok5: "pt_okx {cur} {} s5" using s5(2) ne by simp
      have k5: "p_task s5 cur = Some (k\<lparr>k_children := []\<rparr>)" using s5(3) ne k(1,2) by fastforce
      obtain s6 where "task_destroy cur s5 = Some s6" "pt_okx ({cur} - {cur}) ({} - {cur}) s6"
      proof (rule task_destroy_ok[OF ok5 k5])
        show "n_leader m \<noteq> cur" if m: "p_group s5 g = Some m" for g m
        proof -
          obtain m0 where "p_group s g = Some m0" "loose_group m0 m" using s5(4) m by blast
          with lead ne show ?thesis by (auto simp: loose_group_def)
        qed
      qed (use k in simp_all)
      then show thesis using True ne s5(1) by (intro that[of s5 s6]) simp_all
    qed
  qed
qed

text \<open>\<^verbatim>\<open>do_exit\<close> up to the point where the task has left the list of threads.\<close>

lemma exit_begins:
  assumes ok: "pt_ok s" and k: "p_task s cur = Some k" "\<not> exiting k" and n: "p_group s (k_group k) = Some n"
  obtains s1 s2 s3 k1 k3 n3 where "exit_mark cur status s = Some s1" "p_task s1 cur = Some k1" "k_group k1 = k_group k"
    "p_group s1 (k_group k) = Some n" "reparent_children cur s1 = Some s2" "thr_del cur s2 = Some s3" "pt_okx {cur} {} s3"
    "p_task s3 cur = Some k3" "exiting k3" "\<not> zombie k3" "\<not> k_linked k3" "k_hand k3 = None" "k_pid k3 = k_pid k" "k_group k3 = k_group k"
    "k_pid k \<noteq> 1 \<longrightarrow> k_children k3 = []" "p_group s3 (k_group k) = Some n3" "n_leader n3 = n_leader n"
    "n_threads n3 = remove1 cur (n_threads n)" "p_slot s3 = p_slot s"
proof -
  have t: "task_ok {} {} s cur k" by (rule pt_okD(5)[OF ok k(1)])
  then have z: "\<not> zombie k" "k_linked k" using k(2) by (auto simp: task_ok_def tied_def)
  obtain s1 where s1: "exit_mark cur status s = Some s1" "pt_okx {cur} {} s1" "p_task s1 = (p_task s)(cur \<mapsto> marked status k)"
    "p_group s1 = p_group s" "p_slot s1 = p_slot s" by (rule exit_mark_ok[OF ok k])
  let ?k1 = "marked status k"
  have m: "exiting ?k1" "k_group ?k1 = k_group k" "k_pid ?k1 = k_pid k" "k_hand ?k1 = None" "k_linked ?k1 = k_linked k" "zombie ?k1 = zombie k"
    by (simp_all add: marked_def exiting_def zombie_def)
  have k1: "p_task s1 cur = Some ?k1" "p_group s1 (k_group ?k1) = Some n" using s1(3,4) n m(2) by simp_all
  obtain s2 k2 where s2: "reparent_children cur s1 = Some s2" "pt_okx {cur} {} s2" "rekin s1 s2" "p_task s2 cur = Some k2" "kin ?k1 k2"
    "k_pid ?k1 \<noteq> 1 \<longrightarrow> k_children k2 = []" by (rule reparent_children_ok[OF s1(2) k1(1) m(1) k1(2)])
  note f = kin_fields[OF s2(5)]
  have n2: "p_group s2 (k_group k2) = Some n" "k_linked k2" using k1(2) rekin_fields(1)[OF s2(3)] f m z(2) by simp_all
  obtain s3 where s3: "thr_del cur s2 = Some s3" "pt_okx {cur} {} s3"
    "s3 = s2\<lparr>p_group := (p_group s2)(k_group k2 \<mapsto> n\<lparr>n_threads := remove1 cur (n_threads n)\<rparr>), p_task := (p_task s2)(cur \<mapsto> k2\<lparr>k_linked := False\<rparr>)\<rparr>"
    by (rule thr_del_ok[OF s2(2,4) n2(2) _ n2(1)]) simp_all
  show thesis
    by (rule that[OF s1(1) k1(1) m(2) _ s2(1) s3(1,2), of "k2\<lparr>k_linked := False\<rparr>" "n\<lparr>n_threads := remove1 cur (n_threads n)\<rparr>"])
      (use f m z s2(6) k1(2) s1(5) rekin_fields[OF s2(3)] in \<open>simp_all add: s3(3) exiting_def zombie_def\<close>)
qed

lemma do_exit_ok:
  assumes ok: "pt_ok s" and k: "p_task s cur = Some k" "\<not> exiting k"
  shows "(\<exists>s'. do_exit cur status clocks s = Some (Exited s') \<and> pt_ok s') \<or> do_exit cur status clocks s = Some Halted \<and> k_pid k = 1"
proof -
  obtain n where n: "p_group s (k_group k) = Some n" using pt_ok_group[OF ok k(1)] by blast
  obtain s1 s2 s3 k1 k3 n3 where s: "exit_mark cur status s = Some s1" "p_task s1 cur = Some k1" "k_group k1 = k_group k"
    "p_group s1 (k_group k) = Some n" "reparent_children cur s1 = Some s2" "thr_del cur s2 = Some s3" "pt_okx {cur} {} s3"
    and k3: "p_task s3 cur = Some k3" "exiting k3" "\<not> zombie k3" "\<not> k_linked k3" "k_hand k3 = None" "k_pid k3 = k_pid k" "k_group k3 = k_group k"
    "k_pid k \<noteq> 1 \<longrightarrow> k_children k3 = []" and n3: "p_group s3 (k_group k) = Some n3" "n_leader n3 = n_leader n"
    "n_threads n3 = remove1 cur (n_threads n)" and slot: "p_slot s3 = p_slot s" by (rule exit_begins[OF ok k n])
  obtain l where l: "p_task s3 (n_leader n) = Some l" "k_group l = k_group k" using leader_is[OF s(7) n3(1)] n3(2) by auto
  obtain i ki ni where i: "p_task s i = Some ki" "k_pid ki = 1" "p_group s (k_group ki) = Some ni" "n_leader ni = i" "set (n_threads ni) \<subseteq> {i}"
    "s_task (p_slot s 1) = Some i" by (rule init_task[OF ok])
  have me: "cur \<in> set (n_threads n)"
    by (rule threads_of_linked[OF ok k(1) _ n]) (use pt_okD(5)[OF ok k(1)] k(2) in \<open>simp add: task_ok_def tied_def\<close>)
  have body: "do_exit cur status clocks s = (case (if n_threads n3 = [] then exit_notify cur clocks (n_leader n) s3 else Some (Exited (False, s3))) of
      None \<Rightarrow> None | Some Halted \<Rightarrow> Some Halted | Some (Exited (reap, s4)) \<Rightarrow> do {
         s5 \<leftarrow> (if reap then free_group (n_leader n) s4 else Some s4);
         s6 \<leftarrow> (if cur \<noteq> n_leader n then task_destroy cur s5 else Some s5);
         Some (Exited s6) })"
    using s n3(1) by (simp add: do_exit_def Let_def split: option.splits exited.splits)
  show ?thesis
  proof (cases "k_pid k = 1")
    case True
    have ic: "i = cur" by (rule one_task[OF ok i(1) k(1)]) (use i(2) True in simp)
    then have nn: "ni = n" using i(1,3) k(1) n by simp
    have "distinct (n_threads n)"
      using linkedD(2)[OF listsD(2)[OF pt_okD(1)[OF ok]], of "k_group k"] n by (simp add: threads_of_def)
    then have e: "n_threads n3 = []" using i(5) me ic nn unfolding n3(3)
      by (cases "n_threads n") (auto simp: subset_singleton_iff)
    have lk: "l = k3" using l(1) k3(1) i(4) ic nn by simp
    have "k_parent k3 = None" using pt_okD(5)[OF s(7) k3(1)] k3(6) True by (simp add: task_ok_def)
    then have "exit_notify cur clocks (n_leader n) s3 = Some Halted"
      using l(1) k3 True lk by (simp add: exit_notify_def zombie_def)
    then show ?thesis using body e True by simp
  next
    case False
    have lv: "leaving s3 cur k3 n3" using s(7) k3 n3(1) False by (simp add: leaving_def)
    have fin: ?thesis if x: "(if n_threads n3 = [] then exit_notify cur clocks (n_leader n) s3 else Some (Exited (False, s3))) = Some (Exited (reap, s4))"
        "leaving s4 cur k4 n4" "n_leader n4 = n_leader n" "reap \<longrightarrow> n_threads n4 = [] \<and> (\<exists>l. p_task s4 (n_leader n4) = Some l \<and> zombie l)"
      for reap s4 k4 n4
    proof -
      obtain s5 s6 where "(if reap then free_group (n_leader n4) s4 else Some s4) = Some s5"
        "(if cur \<noteq> n_leader n4 then task_destroy cur s5 else Some s5) = Some s6" "pt_ok s6" by (rule finish_exit[OF x(2,4)])
      then have "do_exit cur status clocks s = Some (Exited s6)" "pt_ok s6"
        unfolding body x(1) option.case exited.case prod.case
        by (cases reap; cases "cur = n_leader n"; simp add: x(3))+
      then show ?thesis by blast
    qed
    show ?thesis
    proof (cases "n_threads n3 = [] \<and> \<not> zombie l")
      case no: False
      have "(if n_threads n3 = [] then exit_notify cur clocks (n_leader n) s3 else Some (Exited (False, s3))) = Some (Exited (False, s3))"
        using no l(1) k3(1) by (auto simp: exit_notify_def zombie_def)
      then show ?thesis by (rule fin[OF _ lv n3(2)]) simp
    next
      case True
      have pl: "k_pid l \<noteq> 1"
      proof
        assume "k_pid l = 1"
        then have "s_task (p_slot s3 1) = Some (n_leader n)" using pt_okD(5)[OF s(7) l(1)] by (simp add: task_ok_def)
        then have il: "n_leader n = i" using i(6) slot by simp
        then have "ni = n" using leader_is[OF ok n] i(1,3) n by fastforce
        then have "cur = i" using i(5) me by auto
        then show False using i(1,2) k(1) False by simp
      qed
      have ex: "exiting l"
      proof (cases "n_leader n = cur")
        case False
        then have "tied s3 (n_leader n) l" using pt_okD(5)[OF s(7) l(1)] by (simp add: task_ok_def)
        then show ?thesis using threads_of_linked[OF s(7) l(1)] l(2) n3(1) True by (auto simp: tied_def)
      qed (use l(1) k3(1,2) in simp)
      obtain reap s4 k4 n4 l4 where "exit_notify cur clocks (n_leader n3) s3 = Some (Exited (reap, s4))" "leaving s4 cur k4 n4"
        "same_group n3 n4" "p_task s4 (n_leader n3) = Some l4" "zombie l4"
        by (rule exit_notify_ok[OF lv, of l clocks]) (use True l pl ex k3(7) n3(2) in auto)
      then show ?thesis using True n3(2) by (intro fin[of reap s4 k4 n4]) (auto simp: same_group_def)
    qed
  qed
qed

end
