(* ===== verification/Process_Clone.thy ===== *)
theory Process_Clone
  imports Process_Leave
begin

text \<open>
  Cloning: a new number is found when one is free, the new task is tied to its group with the invariant kept, and a
  clone that fails leaves the table as it was.
\<close>

section \<open>A free number\<close>

definition pids_left :: "procs \<Rightarrow> bool" where
  "pids_left s \<longleftrightarrow> (\<exists>i. 1 \<le> i \<and> i \<le> MAX_PID \<and> pid_empty (p_slot s i))"

lemma next_pid_finds:
  assumes "0 \<le> c" "c \<le> MAX_PID" "1 \<le> j" "j \<le> MAX_PID" "pid_empty (slots j)"
  shows "\<exists>i. next_pid slots c = Some i \<and> 1 \<le> i \<and> i \<le> MAX_PID \<and> pid_empty (slots i)"
  using assms
proof (induction "nat (if c < j then j - c else j - c + MAX_PID)" arbitrary: c rule: less_induct)
  case less
  define i where "i = (if c + 1 > MAX_PID then 1 else c + 1)"
  have i: "1 \<le> i" "i \<le> MAX_PID" using less.prems by (auto simp: i_def)
  have eq: "next_pid slots c = (if pid_empty (slots i) then Some i else next_pid slots i)"
    by (subst next_pid.simps) (simp add: i_def Let_def)
  show ?case
  proof (cases "pid_empty (slots i)")
    case False
    then have "i \<noteq> j" using less.prems(5) by auto
    then have "nat (if i < j then j - i else j - i + MAX_PID) < nat (if c < j then j - c else j - c + MAX_PID)"
      using less.prems by (auto simp: i_def split: if_splits)
    from less.hyps[OF this] i less.prems(3-5) False show ?thesis by (simp add: eq)
  qed (use i eq in simp)
qed

section \<open>The new task\<close>

definition newborn :: "nat \<Rightarrow> int \<Rightarrow> task \<Rightarrow> task" where
  "newborn cur i k = k\<lparr>k_pid := i, k_linked := False, k_children := [], k_parent := Some cur,
     k_sig := (k_sig k)\<lparr>t_pending := 0, t_queue := [], t_woken := False\<rparr>, k_on := Some cur\<rparr>"

definition after_create :: "nat \<Rightarrow> int \<Rightarrow> task \<Rightarrow> procs \<Rightarrow> procs" where
  "after_create cur i k s = s\<lparr>p_cur := i, p_next := p_next s + 1, p_slot := (p_slot s)(i := (p_slot s i)\<lparr>s_task := Some (p_next s)\<rparr>),
     p_task := (p_task s)(cur \<mapsto> k\<lparr>k_children := p_next s # k_children k\<rparr>, p_next s \<mapsto> newborn cur i k)\<rparr>"

lemma fresh_task:
  assumes "pt_okx X Y s" "x \<ge> p_next s"
  shows "p_task s x = None" "p_group s x = None" "p_hand s x = None"
  using pt_okD(4)[OF assms(1)] assms(2) by (simp_all add: fresh_ok_def)

lemma slot_same: "pid_empty sl \<Longrightarrow> sl\<lparr>s_session := [], s_pgroup := []\<rparr> = sl"
  by (cases sl) (simp add: pid_empty_def)

lemma task_create_eq:
  assumes ok: "pt_ok s" and k: "p_task s cur = Some k" and left: "pids_left s"
  obtains i where "next_pid (p_slot s) (p_cur s) = Some i" "1 \<le> i" "i \<le> MAX_PID" "pid_empty (p_slot s i)"
    "task_create room (Some cur) s = Some (if room then (Some (p_next s), after_create cur i k s) else (None, s\<lparr>p_cur := i\<rparr>))"
proof -
  obtain j where j: "1 \<le> j" "j \<le> MAX_PID" "pid_empty (p_slot s j)" using left unfolding pids_left_def by blast
  have c: "0 \<le> p_cur s" "p_cur s \<le> MAX_PID" using pt_okD(4)[OF ok] by (simp_all add: fresh_ok_def)
  obtain i where i: "next_pid (p_slot s) (p_cur s) = Some i" "1 \<le> i" "i \<le> MAX_PID" "pid_empty (p_slot s i)"
    using next_pid_finds[of "p_cur s" j "p_slot s"] c j by blast
  have ne: "cur \<noteq> p_next s" using k fresh_task(1)[OF ok, of "p_next s"] by auto
  have sl: "(p_slot s)(i := (p_slot s i)\<lparr>s_session := [], s_pgroup := []\<rparr>) = p_slot s" using slot_same[OF i(4)] by simp
  have "task_create room (Some cur) s = Some (if room then (Some (p_next s), after_create cur i k s) else (None, s\<lparr>p_cur := i\<rparr>))"
    using i k ne by (simp add: task_create_def Let_def sl upd_slot_def sib_add_def upd_task_def after_create_def newborn_def fun_upd_twist)
  with i show thesis by (rule that)
qed

lemma after_create_ok:
  assumes ok: "pt_ok s" and k: "p_task s cur = Some k" "\<not> exiting k" and i: "1 \<le> i" "i \<le> MAX_PID" "pid_empty (p_slot s i)"
  shows "pt_okx {p_next s} {p_next s} (after_create cur i k s)" (is "pt_okx _ _ ?s")
proof (rule pt_okI)
  let ?a = "p_next s"
  note d = pt_okD[OF ok]
  have a: "p_task s ?a = None" "p_group s ?a = None" using fresh_task[OF ok] by simp_all
  have ne: "cur \<noteq> ?a" using k(1) a by auto
  have f: "p_group ?s = p_group s" "p_hand ?s = p_hand s" "p_tty ?s = p_tty s"
    "p_task ?s = (p_task s)(cur \<mapsto> k\<lparr>k_children := ?a # k_children k\<rparr>, ?a \<mapsto> newborn cur i k)"
    "p_slot ?s = (p_slot s)(i := (p_slot s i)\<lparr>s_task := Some ?a\<rparr>)" by (simp_all add: after_create_def)
  have v: "children_of ?s = (children_of s)(cur := ?a # children_of s cur)" "child_at ?s = (child_at s)(?a := Some cur)"
      "threads_of ?s = threads_of s" "thread_at ?s = thread_at s" "pgroup_of ?s = pgroup_of s" "pgroup_at ?s = pgroup_at s"
      "session_of ?s = session_of s" "session_at ?s = session_at s"
    using k(1) a ne by (auto simp: f view_defs fun_eq_iff newborn_def)
  note L = listsD[OF d(1)]
  have "child_at s ?a = None" by (simp add: child_at_def a)
  then have "linked (children_of ?s) (child_at ?s)" unfolding v
    using linkedD(1)[OF L(1), of ?a cur] by (intro linked_insert[OF L(1)]) (simp_all add: linkedD(2)[OF L(1)])
  with L show "lists_ok ?s" by (simp add: lists_ok_def v)
  have e: "s_task (p_slot s i) = None" using i(3) by (simp add: pid_empty_def)
  have kept: "\<exists>kb'. p_task ?s b = Some kb' \<and> (\<exists>cs. kb' = kb\<lparr>k_children := cs\<rparr> \<and> (exiting kb \<longrightarrow> cs = k_children kb))"
    if "p_task s b = Some kb" for b kb
  proof (cases "b = cur")
    case True
    have kk: "kb = k" using True that k(1) by simp
    have "p_task ?s cur = Some (k\<lparr>k_children := ?a # k_children k\<rparr>)" using ne by (simp add: f)
    then show ?thesis unfolding kk True using k(2) by blast
  next
    case False
    have "b \<noteq> ?a" using that a by auto
    then have "p_task ?s b = Some (kb\<lparr>k_children := k_children kb\<rparr>)" using that False by (simp add: f)
    then show ?thesis by blast
  qed
  show "slots_ok ?s" unfolding slots_ok_def
  proof (intro allI impI)
    fix j b assume b: "s_task (p_slot ?s j) = Some b"
    show "\<exists>k. p_task ?s b = Some k \<and> k_pid k = j"
    proof (cases "j = i")
      case True
      then show ?thesis using b by (simp add: f newborn_def)
    next
      case False
      then obtain kb where "p_task s b = Some kb" "k_pid kb = j" using b d(2) by (auto simp: f slots_ok_def)
      with kept[of b kb] show ?thesis by auto
    qed
  qed
  show "fresh_ok ?s" using d(4) i k(1) by (auto simp: fresh_ok_def f after_create_def)
  obtain a0 k0 n0 where n0: "s_task (p_slot s 1) = Some a0" "p_task s a0 = Some k0" "\<not> zombie k0" "p_group s (k_group k0) = Some n0"
    "n_leader n0 = a0" "set (n_threads n0) \<subseteq> {a0}" using d(3) by (auto simp: init_ok_def)
  moreover have "i \<noteq> 1" using n0(1) e by auto
  ultimately show "init_ok ?s" using kept[OF n0(2)] by (fastforce simp: init_ok_def f zombie_def)
  have u: "users {?a} ?s h = users {} s h" for h
  proof -
    have "b \<in> users {?a} ?s h \<longleftrightarrow> b \<in> users {} s h" for b
      using k(1) a by (cases "b = ?a"; cases "b = cur") (auto simp: users_def f)
    then show ?thesis by blast
  qed
  show "hand_ok {?a} ?s h r" if "p_hand ?s h = Some r" for h r using d(7)[of h r] that by (simp add: hand_ok_def u f)
  show "group_ok ?s g n" if n: "p_group ?s g = Some n" for g n
  proof -
    have g: "p_group s g = Some n" using n by (simp add: f)
    obtain l where l: "p_task s (n_leader n) = Some l" "k_group l = g" by (rule leader_is[OF ok g])
    with kept[OF l(1)] d(6)[OF g] show ?thesis by (auto simp: group_ok_def)
  qed
  show "task_ok {?a} {?a} ?s b kb" if b: "p_task ?s b = Some kb" for b kb
  proof (cases "b = ?a")
    case True
    have "i \<noteq> 1" using n0(1) e by auto
    moreover have "kb = newborn cur i k" using True b by (simp add: f)
    moreover have "task_ok {} {} s cur k" by (rule d(5)[OF k(1)])
    ultimately show ?thesis using True i k(2) by (auto simp: task_ok_def f newborn_def zombie_def exiting_def)
  next
    case False
    obtain kb0 where kb0: "p_task s b = Some kb0" using b False k(1) by (auto simp: f split: if_splits)
    then obtain cs where cs: "kb = kb0\<lparr>k_children := cs\<rparr>" "exiting kb0 \<longrightarrow> cs = k_children kb0" using kept[OF kb0] b by auto
    have t: "task_ok {} {} s b kb0" by (rule d(5)[OF kb0])
    then have "k_pid kb0 \<noteq> i" using e by (auto simp: task_ok_def)
    with t cs show ?thesis by (auto simp: task_ok_def tied_def f zombie_def exiting_def)
  qed
qed

section \<open>Its signal actions\<close>

lemma bump_ok:
  assumes "pt_okx X Y s" "p_next s \<le> m"
  shows "pt_okx X Y (s\<lparr>p_next := m\<rparr>)" (is "pt_okx X Y ?s")
proof (rule pt_okI)
  note d = pt_okD[OF assms(1)]
  have v: "children_of ?s = children_of s" "child_at ?s = child_at s" "thread_at ?s = thread_at s" "threads_of ?s = threads_of s"
      "pgroup_of ?s = pgroup_of s" "pgroup_at ?s = pgroup_at s" "session_of ?s = session_of s" "session_at ?s = session_at s"
    by (simp_all add: view_defs fun_eq_iff)
  show "lists_ok ?s" using d(1) by (simp add: lists_ok_def v)
  show "slots_ok ?s" "init_ok ?s" using d(2,3) by (simp_all add: slots_ok_def init_ok_def)
  show "fresh_ok ?s" using d(4) assms(2) by (simp add: fresh_ok_def)
  show "task_ok X Y ?s b k" if "p_task ?s b = Some k" for b k using d(5)[of b k] that by (simp add: task_ok_def tied_def)
  show "group_ok ?s g n" if "p_group ?s g = Some n" for g n using d(6)[of g n] that by (simp add: group_ok_def)
  show "hand_ok Y ?s h r" if "p_hand ?s h = Some r" for h r using d(7)[of h r] that by (simp add: hand_ok_def users_def)
qed

definition with_hand :: "nat \<Rightarrow> bool \<Rightarrow> task \<Rightarrow> nat \<Rightarrow> hand \<Rightarrow> procs \<Rightarrow> procs" where
  "with_hand a shared k h r s = (if shared then s\<lparr>p_hand := (p_hand s)(h \<mapsto> r\<lparr>h_refs := h_refs r + 1\<rparr>)\<rparr>
     else s\<lparr>p_hand := (p_hand s)(p_next s \<mapsto> \<lparr>h_refs = 1, h_sig = sighand_copy (h_sig r)\<rparr>), p_next := p_next s + 1,
            p_task := (p_task s)(a \<mapsto> k\<lparr>k_hand := Some (p_next s)\<rparr>)\<rparr>)"

lemma copy_hand_eq:
  assumes "p_task s a = Some k" "k_hand k = Some h" "p_hand s h = Some r"
  shows "copy_hand a shared s = Some (with_hand a shared k h r s)"
  using assms by (simp add: copy_hand_def with_hand_def upd_task_def)

lemma users_back: "a \<in> Y \<Longrightarrow> p_task s a = Some k \<Longrightarrow> users (Y - {a}) s h = (if k_hand k = Some h then insert a (users Y s h) else users Y s h)"
  by (auto simp: users_def)

lemma with_hand_ok:
  assumes ok: "pt_okx X {a} s" and k: "p_task s a = Some k" "a \<in> X" "k_hand k = Some h" "\<not> zombie k" and r: "p_hand s h = Some r"
  shows "pt_okx X {} (with_hand a shared k h r s)"
proof (cases shared)
  case True
  have not: "a \<notin> users {a} s h'" for h' by (simp add: users_def)
  have u: "users {} s h' = (if h' = h then insert a (users {a} s h') else users {a} s h')" for h'
    using users_back[of a "{a}" s k h'] k by auto
  show ?thesis
  proof (rule only_hand_ok[OF ok])
    show "with_hand a shared k h r s = s\<lparr>p_hand := (p_hand s)(h \<mapsto> r\<lparr>h_refs := h_refs r + 1\<rparr>)\<rparr>" using True by (simp add: with_hand_def)
    show "((p_hand s)(h \<mapsto> r\<lparr>h_refs := h_refs r + 1\<rparr>)) h' \<noteq> None" if b: "p_task s b = Some kb" "k_hand kb = Some h'" for b kb h'
    proof (cases "b = a")
      case True
      then show ?thesis using b k by simp
    next
      case False
      then obtain r' where "p_hand s h' = Some r'" using hand_is[OF ok b(1) _ b(2)] by auto
      then show ?thesis by simp
    qed
    show "hand_ok {} s h' x" if x: "((p_hand s)(h \<mapsto> r\<lparr>h_refs := h_refs r + 1\<rparr>)) h' = Some x" for h' x
    proof (cases "h' = h")
      case True
      then show ?thesis using x pt_okD(7)[OF ok r] not[of h] users_finite[OF ok, of "{a}" h] by (auto simp: hand_ok_def u)
    next
      case False
      then show ?thesis using x pt_okD(7)[OF ok, of h' x] by (simp add: hand_ok_def u)
    qed
    show "((p_hand s)(h \<mapsto> r\<lparr>h_refs := h_refs r + 1\<rparr>)) x = None" if "p_next s \<le> x" for x
      using fresh_task(3)[OF ok that] r by auto
  qed
next
  case False
  let ?m = "p_next s"
  define s1 where "s1 = s\<lparr>p_next := ?m + 1\<rparr>"
  have o1: "pt_okx X {a} s1" unfolding s1_def by (rule bump_ok[OF ok]) simp
  define s2 where "s2 = s1\<lparr>p_task := (p_task s1)(a \<mapsto> k\<lparr>k_hand := Some ?m\<rparr>)\<rparr>"
  have k1: "p_task s1 a = Some k" using k(1) by (simp add: s1_def)
  have o2: "pt_okx X {a} s2" unfolding s2_def
    by (rule upd_loose_ok[OF o1 k1 k(2)]) (use k(4) pt_okD(5)[OF ok k(1)] in \<open>simp_all add: zombie_def task_ok_def\<close>)
  have k2: "p_task s2 a = Some (k\<lparr>k_hand := Some ?m\<rparr>)" by (simp add: s2_def)
  have u2: "users {a} s2 h' = users {a} s h'" for h' by (auto simp: users_def s2_def s1_def)
  have none: "users {a} s ?m = {}"
  proof -
    have False if b: "b \<in> users {a} s ?m" for b
    proof -
      obtain kb where kb: "p_task s b = Some kb" "b \<notin> {a}" "k_hand kb = Some ?m" using b by (auto simp: users_def)
      obtain r' where "p_hand s ?m = Some r'" by (rule hand_is[OF ok kb])
      then show False using fresh_task(3)[OF ok, of ?m] by simp
    qed
    then show ?thesis by blast
  qed
  have u: "users {} s2 h' = (if h' = ?m then {a} else users {a} s h')" for h'
    using users_back[of a "{a}" s2 _ h'] k2 u2 none by auto
  have len: "length (sh_action (sighand_copy (h_sig r))) = NUM_SIGS" using pt_okD(7)[OF ok r] by (simp add: hand_ok_def sighand_copy_def)
  have ph: "p_hand s2 = p_hand s" by (simp add: s2_def s1_def)
  show ?thesis
  proof (rule only_hand_ok[OF o2])
    show "with_hand a shared k h r s = s2\<lparr>p_hand := (p_hand s2)(?m \<mapsto> \<lparr>h_refs = 1, h_sig = sighand_copy (h_sig r)\<rparr>)\<rparr>"
      using False by (simp add: with_hand_def s2_def s1_def)
    show "((p_hand s2)(?m \<mapsto> \<lparr>h_refs = 1, h_sig = sighand_copy (h_sig r)\<rparr>)) h' \<noteq> None"
      if b: "p_task s2 b = Some kb" "k_hand kb = Some h'" for b kb h'
    proof (cases "b = a")
      case True
      then have "kb = k\<lparr>k_hand := Some ?m\<rparr>" using b(1) k2 by simp
      then have "h' = ?m" using b(2) by simp
      then show ?thesis by simp
    next
      case False
      then obtain r' where "p_hand s2 h' = Some r'" using hand_is[OF o2 b(1) _ b(2)] by auto
      then show ?thesis by simp
    qed
    show "hand_ok {} s2 h' x" if "((p_hand s2)(?m \<mapsto> \<lparr>h_refs = 1, h_sig = sighand_copy (h_sig r)\<rparr>)) h' = Some x" for h' x
      using that pt_okD(7)[OF ok, of h' x] len by (auto simp: hand_ok_def u ph split: if_splits)
    show "((p_hand s2)(?m \<mapsto> \<lparr>h_refs = 1, h_sig = sighand_copy (h_sig r)\<rparr>)) x = None" if "p_next s2 \<le> x" for x
      using that fresh_task(3)[OF ok, of x] by (simp add: ph s2_def s1_def)
  qed
qed

section \<open>Its group\<close>

lemma set_insert_after: "x \<in> set xs \<Longrightarrow> set (insert_after x y xs) = insert y (set xs)"
  by (induction xs) auto

lemma set_insert_after_sub: "set (insert_after x y xs) \<subseteq> insert y (set xs)"
  by (induction xs) auto

lemma distinct_insert_after: "distinct xs \<Longrightarrow> y \<notin> set xs \<Longrightarrow> distinct (insert_after x y xs)"
  using set_insert_after_sub by (induction xs) fastforce+

lemma remove1_insert_after: "y \<notin> set xs \<Longrightarrow> remove1 y (insert_after x y xs) = xs"
  by (induction xs) (auto simp: remove1_idem)

definition with_group :: "nat \<Rightarrow> task \<Rightarrow> tgroup \<Rightarrow> int \<Rightarrow> int \<Rightarrow> procs \<Rightarrow> procs" where
  "with_group a k n i j s = s\<lparr>p_next := p_next s + 1,
     p_slot := (let sl = (p_slot s)(i := (p_slot s i)\<lparr>s_pgroup := insert_after (k_group k) (p_next s) (s_pgroup (p_slot s i))\<rparr>)
                in sl(j := (sl j)\<lparr>s_session := insert_after (k_group k) (p_next s) (s_session (sl j))\<rparr>)),
     p_group := (p_group s)(p_next s \<mapsto> n\<lparr>n_threads := [], n_group_exit := False, n_pgroup_at := Some i, n_session_at := Some j, n_leader := a\<rparr>),
     p_task := (p_task s)(a \<mapsto> k\<lparr>k_group := p_next s, k_tgid := k_pid k\<rparr>)\<rparr>"

lemma join_group_eq:
  assumes "p_task s a = Some k" "p_group s (k_group k) = Some n" "n_pgroup_at n = Some i" "n_session_at n = Some j" "n_tty n = None"
    "k_group k \<noteq> p_next s"
  shows "join_group a False s = thr_add a (with_group a k n i j s)"
  using assms
  by (simp add: join_group_def tgroup_copy_def pg_add_after_def ses_add_after_def upd_group_def upd_task_def upd_slot_def with_group_def Let_def)

lemma with_group_ok:
  assumes ok: "pt_okx {a} {} s" and k: "p_task s a = Some k" "\<not> k_linked k" "k_on k \<noteq> None" and n: "p_group s (k_group k) = Some n" "n_pgroup_at n = Some i"
    "n_session_at n = Some j" "n_leader n \<noteq> a"
  shows "pt_okx {a} {} (with_group a k n i j s)" (is "pt_okx _ _ ?s")
proof (rule pt_okI)
  let ?g = "p_next s" and ?o = "k_group k"
  note d = pt_okD[OF ok]
  have fr: "p_group s ?g = None" "p_task s ?g = None" using fresh_task[OF ok] by simp_all
  have tg: "threads_of s ?g = []" by (simp add: threads_of_def fr)
  have lead: "n_leader m \<noteq> a" if m: "p_group s h = Some m" for h m
  proof
    assume e: "n_leader m = a"
    obtain x where "p_task s (n_leader m) = Some x" "k_group x = h" by (rule leader_is[OF ok m])
    with e k(1) n(1,4) m show False by simp
  qed
  have f: "p_hand ?s = p_hand s" "p_task ?s = (p_task s)(a \<mapsto> k\<lparr>k_group := ?g, k_tgid := k_pid k\<rparr>)" "p_cur ?s = p_cur s" "p_next ?s = ?g + 1"
    "p_group ?s = (p_group s)(?g \<mapsto> n\<lparr>n_threads := [], n_group_exit := False, n_pgroup_at := Some i, n_session_at := Some j, n_leader := a\<rparr>)"
    "s_task (p_slot ?s m) = s_task (p_slot s m)" for m by (simp_all add: with_group_def Let_def)
  have v: "children_of ?s = children_of s" "child_at ?s = child_at s" "threads_of ?s = threads_of s" "thread_at ?s = thread_at s"
      "pgroup_of ?s = (pgroup_of s)(i := insert_after ?o ?g (pgroup_of s i))" "pgroup_at ?s = (pgroup_at s)(?g := Some i)"
      "session_of ?s = (session_of s)(j := insert_after ?o ?g (session_of s j))" "session_at ?s = (session_at s)(?g := Some j)"
    using k(1,2) tg by (auto simp: with_group_def Let_def view_defs fun_eq_iff fr)
  note L = listsD[OF d(1)]
  have at: "pgroup_at s ?g = None" "session_at s ?g = None" "pgroup_at s ?o = Some i" "session_at s ?o = Some j"
    using n by (simp_all add: view_defs fr)
  have "linked (pgroup_of ?s) (pgroup_at ?s)" unfolding v
    using linkedD[OF L(3)] at by (intro linked_insert[OF L(3)] set_insert_after distinct_insert_after) auto
  moreover have "linked (session_of ?s) (session_at ?s)" unfolding v
    using linkedD[OF L(4)] at by (intro linked_insert[OF L(4)] set_insert_after distinct_insert_after) auto
  ultimately show "lists_ok ?s" using L unfolding lists_ok_def v by simp
  show "slots_ok ?s" unfolding slots_ok_def f
  proof (intro allI impI)
    fix m b assume "s_task (p_slot s m) = Some b"
    then obtain kb where "p_task s b = Some kb" "k_pid kb = m" using d(2) by (auto simp: slots_ok_def)
    then show "\<exists>kb. ((p_task s)(a \<mapsto> k\<lparr>k_group := ?g, k_tgid := k_pid k\<rparr>)) b = Some kb \<and> k_pid kb = m" using k(1) by auto
  qed
  show "fresh_ok ?s" using d(4) k(1) by (auto simp: fresh_ok_def f)
  obtain a0 k0 n0 where i0: "s_task (p_slot s 1) = Some a0" "p_task s a0 = Some k0" "\<not> zombie k0" "p_group s (k_group k0) = Some n0"
    "n_leader n0 = a0" "set (n_threads n0) \<subseteq> {a0}" using d(3) by (auto simp: init_ok_def)
  have "a0 \<noteq> a" using lead[OF i0(4)] i0(5) by simp
  moreover have "k_group k0 \<noteq> ?g" using i0(4) fr by auto
  ultimately show "init_ok ?s" using i0 by (simp add: init_ok_def f)
  have "users {} ?s h = users {} s h" for h using k(1) by (auto simp: users_def f)
  then show "hand_ok {} ?s h r" if "p_hand ?s h = Some r" for h r using d(7)[of h r] that by (simp add: hand_ok_def f)
  show "group_ok ?s h m" if m: "p_group ?s h = Some m" for h m
  proof (cases "h = ?g")
    case True
    then show ?thesis using m d(6)[OF n(1)] by (auto simp: f group_ok_def)
  next
    case False
    then have m0: "p_group s h = Some m" using m by (simp add: f)
    show ?thesis using d(6)[OF m0] lead[OF m0] by (simp add: group_ok_def f)
  qed
  show "task_ok {a} {} ?s b kb" if b: "p_task ?s b = Some kb" for b kb
  proof (cases "b = a")
    case True
    then show ?thesis using b d(5)[OF k(1)] by (auto simp: f task_ok_def zombie_def exiting_def)
  next
    case False
    then have b0: "p_task s b = Some kb" using b by (simp add: f)
    have "k_group kb \<noteq> ?g" using d(5)[OF b0] False fr by (auto simp: task_ok_def tied_def)
    then show ?thesis using d(5)[OF b0] False by (simp add: task_ok_def tied_def f)
  qed
qed

lemma thr_add_ok:
  assumes ok: "pt_okx {a} {} s" and k: "p_task s a = Some k" "\<not> k_linked k" "\<not> exiting k" "k_hand k \<noteq> None"
    and n: "p_group s (k_group k) = Some n" "\<And>l. p_task s (n_leader n) = Some l \<Longrightarrow> k_pid l \<noteq> 1"
    and z: "\<And>b kb. b \<noteq> a \<Longrightarrow> p_task s b = Some kb \<Longrightarrow> k_group kb = k_group k \<Longrightarrow> \<not> zombie kb"
  obtains s' where "thr_add a s = Some s'" "pt_ok s'" "p_task s' = (p_task s)(a \<mapsto> k\<lparr>k_linked := True\<rparr>)"
    "s' = s\<lparr>p_group := (p_group s)(k_group k \<mapsto> n\<lparr>n_threads := a # n_threads n\<rparr>), p_task := (p_task s)(a \<mapsto> k\<lparr>k_linked := True\<rparr>)\<rparr>"
proof -
  let ?g = "k_group k"
  define s' where "s' = s\<lparr>p_group := (p_group s)(?g \<mapsto> n\<lparr>n_threads := a # n_threads n\<rparr>), p_task := (p_task s)(a \<mapsto> k\<lparr>k_linked := True\<rparr>)\<rparr>"
  have d0: "thr_add a s = Some s'" using k(1) n(1) by (simp add: thr_add_def upd_group_def upd_task_def s'_def)
  note d = pt_okD[OF ok]
  have f: "p_hand s' = p_hand s" "p_task s' = (p_task s)(a \<mapsto> k\<lparr>k_linked := True\<rparr>)" "p_cur s' = p_cur s" "p_next s' = p_next s"
    "p_slot s' = p_slot s" "p_group s' = (p_group s)(?g \<mapsto> n\<lparr>n_threads := a # n_threads n\<rparr>)" by (simp_all add: s'_def)
  have v: "children_of s' = children_of s" "child_at s' = child_at s" "threads_of s' = (threads_of s)(?g := a # threads_of s ?g)"
      "thread_at s' = (thread_at s)(a := Some ?g)" "pgroup_of s' = pgroup_of s" "pgroup_at s' = pgroup_at s"
      "session_of s' = session_of s" "session_at s' = session_at s"
    using k(1) n(1) by (simp_all add: view_defs fun_eq_iff f)
  note L = listsD[OF d(1)]
  have at: "thread_at s a = None" using k(1,2) by (simp add: thread_at_def)
  have t: "task_ok {a} {} s a k" by (rule d(5)[OF k(1)])
  have za: "\<not> zombie k" using t k(3) by (auto simp: task_ok_def)
  obtain i ki ni where i: "s_task (p_slot s 1) = Some i" "p_task s i = Some ki" "k_pid ki = 1" "\<not> zombie ki"
    "p_group s (k_group ki) = Some ni" "n_leader ni = i" "set (n_threads ni) \<subseteq> {i}" by (rule init_task[OF ok])
  have gi: "k_group ki \<noteq> ?g" using i(2,3,5,6) n by auto
  have ai: "a \<noteq> i" using gi k(1) i(2) by auto
  have p1: "k_pid k \<noteq> 1" using ai one_task[OF ok k(1) i(2)] i(3) by auto
  have "pt_ok s'"
  proof (rule pt_okI)
    have "linked (threads_of s') (thread_at s')" unfolding v
      using linkedD[OF L(2)] at by (intro linked_insert[OF L(2) at]) auto
    with L show "lists_ok s'" by (simp add: lists_ok_def v)
    show "slots_ok s'" using d(2) k(1) by (fastforce simp: slots_ok_def f)
    show "fresh_ok s'" using d(4) k(1) n(1) by (auto simp: fresh_ok_def f)
    show "init_ok s'" using i ai gi by (simp add: init_ok_def f)
    have "users {} s' h = users {} s h" for h using k(1) by (auto simp: users_def f)
    then show "hand_ok {} s' h r" if "p_hand s' h = Some r" for h r using d(7)[of h r] that by (simp add: hand_ok_def f)
    show "group_ok s' h m" if m: "p_group s' h = Some m" for h m
    proof -
      obtain m0 where "p_group s h = Some m0" "n_leader m = n_leader m0" "n_pgroup_at m = n_pgroup_at m0" "n_session_at m = n_session_at m0"
          "n_tty m = n_tty m0" using m n(1) by (cases "h = ?g") (auto simp: f)
      with d(6)[of h m0] show ?thesis using k(1) by (cases "n_leader m0 = a") (auto simp: group_ok_def f)
    qed
    show "task_ok {} {} s' b kb" if b: "p_task s' b = Some kb" for b kb
    proof (cases "b = a")
      case True
      then have "kb = k\<lparr>k_linked := True\<rparr>" using b by (simp add: f)
      then show ?thesis using True t k za p1 n(1) by (auto simp: task_ok_def tied_def f zombie_def exiting_def)
    next
      case False
      then have b0: "p_task s b = Some kb" using b by (simp add: f)
      have "tied s' b kb" if "tied s b kb" using that z[OF False b0] n(1) by (cases "k_group kb = ?g") (auto simp: tied_def f)
      then show ?thesis using d(5)[OF b0] False by (simp add: task_ok_def f)
    qed
  qed
  with d0 show thesis by (intro that) (simp_all add: s'_def)
qed

end
