(* ===== verification/Process_Cloned.thy ===== *)
theory Process_Cloned
  imports Process_Clone
begin

text \<open>The whole of \<^verbatim>\<open>sys_clone\<close>: what it makes keeps the invariant, and what fails is undone.\<close>

section \<open>Undoing\<close>

definition unborn :: "nat \<Rightarrow> int \<Rightarrow> task \<Rightarrow> procs \<Rightarrow> task \<Rightarrow> nat \<Rightarrow> procs" where
  "unborn cur i k s k' m = (after_create cur i k s)\<lparr>p_next := m,
     p_task := (p_task (after_create cur i k s))(p_next s \<mapsto> k')\<rparr>"

lemma unborn_destroy:
  assumes ok: "pt_ok s" and k: "p_task s cur = Some k" and i: "1 \<le> i" "i \<le> MAX_PID" "pid_empty (p_slot s i)"
    and k': "k_pid k' = i" "k_on k' = Some cur"
  shows "task_destroy (p_next s) (unborn cur i k s k' m) = Some (s\<lparr>p_cur := i, p_next := m\<rparr>)"
proof -
  let ?a = "p_next s" and ?u = "unborn cur i k s k' m"
  have a: "p_task s ?a = None" by (rule fresh_task(1)[OF ok]) simp
  then have ne: "cur \<noteq> ?a" using k by auto
  have e: "s_task (p_slot s i) = None" using i(3) by (simp add: pid_empty_def)
  have "task_destroy ?a ?u = Some (?u\<lparr>p_task := (p_task ?u)(cur \<mapsto> (k\<lparr>k_children := ?a # k_children k\<rparr>)\<lparr>k_children := remove1 ?a (k_children (k\<lparr>k_children := ?a # k_children k\<rparr>))\<rparr>, ?a := None),
    p_slot := (p_slot ?u)(k_pid k' := (p_slot ?u (k_pid k'))\<lparr>s_task := None\<rparr>)\<rparr>)"
    by (rule task_destroy_eq) (use k' i ne in \<open>auto simp: unborn_def after_create_def pid_get_def pid_empty_def\<close>)
  also have "\<dots> = Some (s\<lparr>p_cur := i, p_next := m\<rparr>)"
  proof -
    have t: "(p_task s)(cur \<mapsto> k, ?a := None) = p_task s" using k a by (auto simp: fun_eq_iff)
    have tt: "(p_task ?u)(cur \<mapsto> (k\<lparr>k_children := ?a # k_children k\<rparr>)\<lparr>k_children := remove1 ?a (k_children (k\<lparr>k_children := ?a # k_children k\<rparr>))\<rparr>, ?a := None)
      = p_task s" using k a by (auto simp: fun_eq_iff unborn_def after_create_def)
    have "(p_slot s i)\<lparr>s_task := None\<rparr> = p_slot s i" using e by (cases "p_slot s i") simp
    then have "(p_slot ?u)(k_pid k' := (p_slot ?u (k_pid k'))\<lparr>s_task := None\<rparr>) = p_slot s"
      using k'(1) by (auto simp: fun_eq_iff unborn_def after_create_def)
    with tt show ?thesis unfolding tt by (simp add: unborn_def after_create_def)
  qed
  finally show ?thesis .
qed

lemma map_upd_same: "m x = Some y \<Longrightarrow> m(x \<mapsto> y) = m"
  by (auto simp: fun_eq_iff)

lemma map_del_same: "m x = None \<Longrightarrow> m(x := None) = m"
  by (auto simp: fun_eq_iff)

lemma thr_undo:
  assumes "p_task s a = Some k" "\<not> k_linked k" "p_group s (k_group k) = Some n"
    "s' = s\<lparr>p_group := (p_group s)(k_group k \<mapsto> n\<lparr>n_threads := a # n_threads n\<rparr>), p_task := (p_task s)(a \<mapsto> k\<lparr>k_linked := True\<rparr>)\<rparr>"
  shows "thr_del a s' = Some s"
proof -
  have "k\<lparr>k_linked := False\<rparr> = k" using assms(2) by (cases k) simp
  then show ?thesis using assms by (simp add: thr_del_def upd_group_def upd_task_def map_upd_same)
qed

text \<open>Undoing the group of a process.\<close>

lemma group_undo:
  assumes ok: "pt_okx {a} {} s" and k: "p_task s a = Some k" and n: "p_group s (k_group k) = Some n" "n_pgroup_at n = Some i"
    "n_session_at n = Some j" "n_tty n = None"
  shows "tgroup_free (p_next s) (with_group a k n i j s)
    = Some (s\<lparr>p_next := p_next s + 1, p_task := (p_task s)(a \<mapsto> k\<lparr>k_group := p_next s, k_tgid := k_pid k\<rparr>)\<rparr>)"
proof -
  let ?g = "p_next s"
  have fr: "p_group s ?g = None" by (rule fresh_task(2)[OF ok]) simp
  note L = listsD[OF pt_okD(1)[OF ok]]
  have "?g \<notin> set (pgroup_of s i)" "?g \<notin> set (session_of s j)" using linkedD(1)[OF L(3)] linkedD(1)[OF L(4)] fr by (simp_all add: view_defs)
  then have r: "remove1 ?g (insert_after (k_group k) ?g (s_pgroup (p_slot s i))) = s_pgroup (p_slot s i)"
    "remove1 ?g (insert_after (k_group k) ?g (s_session (p_slot s j))) = s_session (p_slot s j)"
    by (simp_all add: remove1_insert_after pgroup_of_def session_of_def)
  let ?p = "(p_slot s)(i := (p_slot s i)\<lparr>s_pgroup := insert_after (k_group k) ?g (s_pgroup (p_slot s i))\<rparr>)"
  have sl: "s_session (?p j) = s_session (p_slot s j)" by simp
  define q where "q = ?p(j := (?p j)\<lparr>s_session := insert_after (k_group k) ?g (s_session (?p j))\<rparr>)"
  define q1 where "q1 = q(i := (q i)\<lparr>s_pgroup := remove1 ?g (s_pgroup (q i))\<rparr>)"
  have q2: "q1(j := (q1 j)\<lparr>s_session := remove1 ?g (s_session (q1 j))\<rparr>) = p_slot s"
    using r by (cases "i = j") (simp_all add: q1_def q_def fun_eq_iff)
  have "tgroup_free ?g (with_group a k n i j s) = Some ((with_group a k n i j s)\<lparr>
      p_slot := q1(j := (q1 j)\<lparr>s_session := remove1 ?g (s_session (q1 j))\<rparr>), p_group := (p_group s)(?g := None)\<rparr>)"
    using n by (simp add: tgroup_free_def pg_del_def ses_del_def upd_group_def upd_slot_def with_group_def Let_def q1_def q_def)
  then show ?thesis unfolding q2 by (simp add: with_group_def map_del_same[of "p_group s", OF fr])
qed

section \<open>The signal a child sends when it exits\<close>

lemma exit_signal_ok:
  assumes ok: "pt_ok s" and k: "p_task s a = Some k" and e: "0 \<le> e" "e \<le> 64"
  shows "pt_ok (s\<lparr>p_task := (p_task s)(a \<mapsto> k\<lparr>k_exit_signal := e\<rparr>)\<rparr>)" (is "pt_ok ?s")
proof (rule pt_okI)
  note d = pt_okD[OF ok]
  have v: "children_of ?s = children_of s" "child_at ?s = child_at s" "thread_at ?s = thread_at s" "threads_of ?s = threads_of s"
      "pgroup_of ?s = pgroup_of s" "pgroup_at ?s = pgroup_at s" "session_of ?s = session_of s" "session_at ?s = session_at s"
    using k by (simp_all add: view_defs fun_eq_iff)
  show "lists_ok ?s" using d(1) by (simp add: lists_ok_def v)
  show "slots_ok ?s" using d(2) k by (fastforce simp: slots_ok_def)
  show "init_ok ?s" using d(3) k by (auto simp: init_ok_def zombie_def)
  show "fresh_ok ?s" using d(4) k by (auto simp: fresh_ok_def)
  show "task_ok {} {} ?s b kb" if b: "p_task ?s b = Some kb" for b kb
  proof (cases "b = a")
    case True
    then have kb: "kb = k\<lparr>k_exit_signal := e\<rparr>" using b by simp
    have "tied ?s a kb" using d(5)[OF k] by (simp add: kb task_ok_def tied_def zombie_def exiting_def)
    then show ?thesis using d(5)[OF k] e True by (simp add: kb task_ok_def zombie_def exiting_def)
  next
    case False
    then show ?thesis using b d(5)[of b kb] by (simp add: task_ok_def tied_def)
  qed
  show "group_ok ?s g n" if "p_group ?s g = Some n" for g n
    using d(6)[of g n] that k by (auto simp: group_ok_def)
  have "users {} ?s h = users {} s h" for h using k by (auto simp: users_def)
  then show "hand_ok {} ?s h r" if "p_hand ?s h = Some r" for h r using d(7)[of h r] that by (simp add: hand_ok_def)
qed

section \<open>The stages of a clone\<close>

lemma cloner:
  assumes ok: "pt_ok s" and k: "p_task s cur = Some k" "\<not> exiting k"
  obtains h r n i j where "k_hand k = Some h" "p_hand s h = Some r" "h_refs r \<ge> 1" "p_group s (k_group k) = Some n" "n_pgroup_at n = Some i"
    "n_session_at n = Some j" "n_tty n = None" "cur \<in> set (n_threads n)" "\<not> zombie k"
    "\<forall>b kb. p_task s b = Some kb \<longrightarrow> k_group kb = k_group k \<longrightarrow> \<not> zombie kb"
    "\<forall>l. p_task s (n_leader n) = Some l \<longrightarrow> k_pid l = 1 \<longrightarrow> k_pid k = 1"
proof -
  have t: "task_ok {} {} s cur k" by (rule pt_okD(5)[OF ok k(1)])
  then have "k_hand k \<noteq> None" "\<not> zombie k" "k_linked k" using k(2) by (auto simp: task_ok_def tied_def)
  then obtain h where h: "k_hand k = Some h" by blast
  obtain r where r: "p_hand s h = Some r" "hand_ok {} s h r" by (rule hand_is[OF ok k(1) _ h]) simp
  have "cur \<in> users {} s h" using k(1) h by (simp add: users_def)
  then have refs: "h_refs r \<ge> 1" using r(2) users_finite[OF ok, of "{}" h] by (auto simp: hand_ok_def Suc_le_eq card_gt_0_iff)
  obtain n where n: "p_group s (k_group k) = Some n" using pt_ok_group[OF ok k(1)] by blast
  obtain i j where at: "n_pgroup_at n = Some i" "n_session_at n = Some j" "n_tty n = None"
    using pt_okD(6)[OF ok n] by (auto simp: group_ok_def)
  have me: "cur \<in> set (n_threads n)" by (rule threads_of_linked[OF ok k(1) \<open>k_linked k\<close> n])
  have z: "\<not> zombie kb" if b: "p_task s b = Some kb" "k_group kb = k_group k" for b kb
    using pt_okD(5)[OF ok b(1)] b(2) n me by (auto simp: task_ok_def tied_def)
  have p: "k_pid k = 1" if l: "p_task s (n_leader n) = Some l" "k_pid l = 1" for l
  proof -
    obtain i0 ki ni where i0: "p_task s i0 = Some ki" "k_pid ki = 1" "p_group s (k_group ki) = Some ni" "n_leader ni = i0" "set (n_threads ni) \<subseteq> {i0}"
      by (rule init_task[OF ok])
    have "n_leader n = i0" by (rule one_task[OF ok l(1) i0(1)]) (use l i0 in simp)
    then have "ni = n" using leader_is[OF ok n] i0(1,3) n by fastforce
    then have "cur = i0" using me i0(5) by auto
    then show ?thesis using i0(1,2) k(1) by simp
  qed
  show thesis using h r(1) refs n at me \<open>\<not> zombie k\<close> z p by (intro that) blast+
qed

text \<open>After the signal actions are copied: what a release then gives back.\<close>

lemma hand_stage:
  assumes ok: "pt_ok s" and k: "p_task s cur = Some k" "\<not> exiting k" and i: "1 \<le> i" "i \<le> MAX_PID" "pid_empty (p_slot s i)"
  obtains sB kB where "copy_hand (p_next s) shared (after_create cur i k s) = Some sB" "pt_okx {p_next s} {} sB" "p_task sB (p_next s) = Some kB"
    "kB = (newborn cur i k)\<lparr>k_hand := k_hand kB\<rparr>" "k_hand kB \<noteq> None" "p_group sB = p_group s" "p_next s < p_next sB"
    "p_task sB = (p_task (after_create cur i k s))(p_next s \<mapsto> kB)"
    "\<forall>kC m. k_hand kC = k_hand kB \<longrightarrow> release_hand_of (p_next s) (sB\<lparr>p_next := m, p_task := (p_task sB)(p_next s \<mapsto> kC)\<rparr>)
       = Some (unborn cur i k s kC m)"
proof -
  let ?a = "p_next s" and ?A = "after_create cur i k s" and ?k = "newborn cur i k"
  obtain h r where h: "k_hand k = Some h" "p_hand s h = Some r" "h_refs r \<ge> 1" "\<not> zombie k" by (rule cloner[OF ok k])
  have A: "p_task ?A ?a = Some ?k" "p_hand ?A = p_hand s" "p_group ?A = p_group s" "p_next ?A = ?a + 1"
    by (simp_all add: after_create_def)
  have hk: "k_hand ?k = Some h" "\<not> zombie ?k" using h by (simp_all add: newborn_def zombie_def)
  define sB where "sB = with_hand ?a shared ?k h r ?A"
  have B: "copy_hand ?a shared ?A = Some sB" unfolding sB_def by (rule copy_hand_eq) (use A hk h in simp_all)
  have okB: "pt_okx {?a} {} sB" unfolding sB_def
    by (rule with_hand_ok[OF after_create_ok[OF ok k i] A(1) _ hk]) (use A(2) h(2) in simp_all)
  have new: "p_hand s (?a + 1) = None" by (rule fresh_task(3)[OF ok]) simp
  show thesis
  proof (cases shared)
    case True
    then have sB: "sB = ?A\<lparr>p_hand := (p_hand s)(h \<mapsto> r\<lparr>h_refs := h_refs r + 1\<rparr>)\<rparr>" by (simp add: sB_def with_hand_def A(2))
    have back1: "(p_hand s)(h \<mapsto> r\<lparr>h_refs := h_refs r + 1\<rparr>, h \<mapsto> r) = p_hand s" using h(2) by (simp add: map_upd_same)
    have "r\<lparr>h_refs := h_refs r\<rparr> = r" by simp
    then have rel: "release_hand_of ?a (sB\<lparr>p_next := m, p_task := (p_task sB)(?a \<mapsto> kC)\<rparr>) = Some (unborn cur i k s kC m)" if "k_hand kC = Some h" for kC m
      using that h(2,3) back1 by (simp add: release_hand_of_def sighand_release_def sB unborn_def after_create_def map_upd_same)
    have "?k = ?k\<lparr>k_hand := k_hand ?k\<rparr>" by simp
    then show thesis using rel hk(1) A by (intro that[OF B okB, of ?k]) (auto simp: sB)
  next
    case False
    let ?kB = "?k\<lparr>k_hand := Some (?a + 1)\<rparr>"
    have sB: "sB = ?A\<lparr>p_hand := (p_hand s)(?a + 1 \<mapsto> \<lparr>h_refs = 1, h_sig = sighand_copy (h_sig r)\<rparr>), p_next := ?a + 2, p_task := (p_task ?A)(?a \<mapsto> ?kB)\<rparr>"
      using False by (simp add: sB_def with_hand_def A)
    have rel: "release_hand_of ?a (sB\<lparr>p_next := m, p_task := (p_task sB)(?a \<mapsto> kC)\<rparr>) = Some (unborn cur i k s kC m)" if "k_hand kC = Some (?a + 1)" for kC m
      using that new by (simp add: release_hand_of_def sighand_release_def sB unborn_def after_create_def map_del_same)
    then show thesis using A by (intro that[OF B okB, of ?kB]) (auto simp: sB)
  qed
qed

text \<open>Joining the group, and leaving it again when the child's number cannot be stored.\<close>

lemma group_stage:
  assumes ok: "pt_ok s" and k: "p_task s cur = Some k" "\<not> exiting k" and th: "thread \<Longrightarrow> k_pid k \<noteq> 1"
    and B: "pt_okx {p_next s} {} sB" "p_task sB (p_next s) = Some kB" "kB = (newborn cur i k)\<lparr>k_hand := k_hand kB\<rparr>" "k_hand kB \<noteq> None"
      "p_group sB = p_group s" "p_next s < p_next sB" "\<forall>b. b \<noteq> p_next s \<longrightarrow> p_task sB b = None \<longleftrightarrow> p_task s b = None"
      "\<forall>b kb. b \<noteq> p_next s \<longrightarrow> p_task sB b = Some kb \<longrightarrow> (\<exists>k0 cs. p_task s b = Some k0 \<and> kb = k0\<lparr>k_children := cs\<rparr>)"
  obtains sC kC m where "join_group (p_next s) thread sB = Some sC" "pt_ok sC" "p_task sC (p_next s) = Some kC" "k_pid kC = i"
    "\<exists>kD. unjoin_group (p_next s) thread (k_group k) sC = Some (sB\<lparr>p_next := m, p_task := (p_task sB)(p_next s \<mapsto> kD)\<rparr>)
       \<and> k_hand kD = k_hand kB \<and> k_pid kD = i \<and> k_on kD = Some cur \<and> p_next s \<le> m"
proof -
  let ?a = "p_next s"
  obtain n i' j where n: "p_group s (k_group k) = Some n" "n_pgroup_at n = Some i'"
    "n_session_at n = Some j" "n_tty n = None" "cur \<in> set (n_threads n)" "\<not> zombie k"
    "\<forall>b kb. p_task s b = Some kb \<longrightarrow> k_group kb = k_group k \<longrightarrow> \<not> zombie kb"
    "\<forall>l. p_task s (n_leader n) = Some l \<longrightarrow> k_pid l = 1 \<longrightarrow> k_pid k = 1" by (rule cloner[OF ok k])
  have kB: "k_group kB = k_group k" "\<not> k_linked kB" "\<not> exiting kB" "k_pid kB = i" "k_on kB = Some cur"
    using k(2) by (subst B(3), simp add: newborn_def exiting_def)+
  have nB: "p_group sB (k_group kB) = Some n" using n(1) kB(1) B(5) by simp
  have na: "n_leader n \<noteq> ?a"
  proof
    assume "n_leader n = ?a"
    then show False using leader_is[OF ok n(1)] fresh_task(1)[OF ok, of ?a] by fastforce
  qed
  show thesis
  proof (cases thread)
    case True
    obtain sC where sC: "thr_add ?a sB = Some sC" "pt_ok sC" "p_task sC = (p_task sB)(?a \<mapsto> kB\<lparr>k_linked := True\<rparr>)"
      "sC = sB\<lparr>p_group := (p_group sB)(k_group kB \<mapsto> n\<lparr>n_threads := ?a # n_threads n\<rparr>), p_task := (p_task sB)(?a \<mapsto> kB\<lparr>k_linked := True\<rparr>)\<rparr>"
    proof (rule thr_add_ok[OF B(1,2) kB(2,3) B(4) nB])
      show "k_pid l \<noteq> 1" if "p_task sB (n_leader n) = Some l" for l using that B(8) na n(8) th[OF True] by fastforce
      show "\<not> zombie kb" if "b \<noteq> ?a" "p_task sB b = Some kb" "k_group kb = k_group kB" for b kb
        using that B(8) n(7) kB(1) by (fastforce simp: zombie_def)
    qed
    have "thr_del ?a sC = Some sB" by (rule thr_undo[OF B(2) kB(2) nB sC(4)])
    moreover have "sB = sB\<lparr>p_next := p_next sB, p_task := (p_task sB)(?a \<mapsto> kB)\<rparr>" using B(2) by (simp add: map_upd_same)
    ultimately have "unjoin_group ?a thread (k_group k) sC = Some (sB\<lparr>p_next := p_next sB, p_task := (p_task sB)(?a \<mapsto> kB)\<rparr>)"
      using True by (simp add: unjoin_group_def)
    moreover have "join_group ?a thread sB = Some sC" using True B(2) sC(1) by (simp add: join_group_def)
    ultimately show thesis using sC(2,3) kB by (intro that[of sC "kB\<lparr>k_linked := True\<rparr>" "p_next sB"]) (use B(6) in auto)
  next
    case False
    let ?g = "p_next sB" and ?W = "with_group ?a kB n i' j sB"
    let ?kW = "kB\<lparr>k_group := ?g, k_tgid := k_pid kB\<rparr>"
    have fr: "p_group sB ?g = None" by (rule fresh_task(2)[OF B(1)]) simp
    have gne: "k_group kB \<noteq> ?g" using nB fr by auto
    have W: "pt_okx {?a} {} ?W" by (rule with_group_ok[OF B(1,2) kB(2) _ nB n(2,3) na]) (simp add: kB(5))
    have tW: "p_task ?W ?a = Some ?kW" by (simp add: with_group_def)
    have gW: "p_group ?W (k_group ?kW) = Some (n\<lparr>n_threads := [], n_group_exit := False, n_pgroup_at := Some i', n_session_at := Some j, n_leader := ?a\<rparr>)"
      by (simp add: with_group_def)
    have i1: "i \<noteq> 1"
    proof -
      have "task_ok {?a} {} sB ?a kB" by (rule pt_okD(5)[OF B(1,2)])
      then show ?thesis using kB(4,5) by (auto simp: task_ok_def)
    qed
    obtain sC where sC: "thr_add ?a ?W = Some sC" "pt_ok sC" "p_task sC = (p_task ?W)(?a \<mapsto> ?kW\<lparr>k_linked := True\<rparr>)"
      "sC = ?W\<lparr>p_group := (p_group ?W)(k_group ?kW \<mapsto> (n\<lparr>n_threads := [], n_group_exit := False, n_pgroup_at := Some i', n_session_at := Some j, n_leader := ?a\<rparr>)
         \<lparr>n_threads := ?a # n_threads (n\<lparr>n_threads := [], n_group_exit := False, n_pgroup_at := Some i', n_session_at := Some j, n_leader := ?a\<rparr>)\<rparr>),
        p_task := (p_task ?W)(?a \<mapsto> ?kW\<lparr>k_linked := True\<rparr>)\<rparr>"
    proof (rule thr_add_ok[OF W tW _ _ _ gW])
      show "\<not> k_linked ?kW" "\<not> exiting ?kW" "k_hand ?kW \<noteq> None" using kB B(4) by (simp_all add: exiting_def)
      show "k_pid l \<noteq> 1" if "p_task ?W (n_leader (n\<lparr>n_threads := [], n_group_exit := False, n_pgroup_at := Some i', n_session_at := Some j, n_leader := ?a\<rparr>)) = Some l" for l
      proof -
        have "?kW = l" using that tW by simp
        then show ?thesis using kB(4) i1 by auto
      qed
      show "\<not> zombie kb" if "b \<noteq> ?a" "p_task ?W b = Some kb" "k_group kb = k_group ?kW" for b kb
      proof -
        have b: "p_task sB b = Some kb" using that(1,2) by (simp add: with_group_def)
        have "tied sB b kb" using pt_okD(5)[OF B(1) b] that(1) by (simp add: task_ok_def)
        then show ?thesis using fr that(3) by (auto simp: tied_def)
      qed
    qed
    have J: "join_group ?a thread sB = Some sC" using False join_group_eq[OF B(2) nB n(2-4) gne] sC(1) by simp
    have u1: "thr_del ?a sC = Some ?W" by (rule thr_undo[OF tW _ gW sC(4)]) (simp add: kB)
    have u2: "tgroup_free ?g ?W = Some (sB\<lparr>p_next := ?g + 1, p_task := (p_task sB)(?a \<mapsto> ?kW)\<rparr>)"
      by (rule group_undo[OF B(1,2) nB n(2-4)])
    obtain l where l: "p_task s (n_leader n) = Some l" using leader_is[OF ok n(1)] by blast
    then obtain lB where lB: "p_task sB (n_leader n) = Some lB" using B(7) na by fastforce
    have "unjoin_group ?a thread (k_group k) sC = Some (sB\<lparr>p_next := ?g + 1,
        p_task := (p_task sB)(?a \<mapsto> ?kW\<lparr>k_group := k_group k, k_tgid := k_tgid lB\<rparr>)\<rparr>)"
      using False u1 tW u2 n(1) B(5) lB na by (simp add: unjoin_group_def upd_task_def)
    then show thesis using J sC(2,3) kB by (intro that[of sC "?kW\<lparr>k_linked := True\<rparr>" "?g + 1"]) (use B(6) in auto)
  qed
qed

text \<open>The whole body: the invariant is kept, and an error leaves the table as it was but for the numbers to come.\<close>

lemma clone_body_ok:
  assumes ok: "pt_ok s" and k: "p_task s cur = Some k" "\<not> exiting k" and left: "pids_left s"
    and th: "flags AND CLONE_THREAD \<noteq> 0 \<Longrightarrow> k_pid k \<noteq> 1" and es: "uint (flags AND CSIGNAL) \<le> 64"
  shows "\<exists>r s'. clone_body cur flags fail s = Some (r, s') \<and> pt_ok s' \<and> (r < 0 \<longrightarrow> s' = s\<lparr>p_cur := p_cur s', p_next := p_next s'\<rparr>)"
proof -
  let ?a = "p_next s" and ?shared = "flags AND CLONE_SIGHAND \<noteq> 0" and ?thread = "flags AND CLONE_THREAD \<noteq> 0"
  obtain i where i: "1 \<le> i" "i \<le> MAX_PID" "pid_empty (p_slot s i)" "\<And>room. task_create room (Some cur) s
      = Some (if room then (Some ?a, after_create cur i k s) else (None, s\<lparr>p_cur := i\<rparr>))"
  proof -
    obtain i where i: "next_pid (p_slot s) (p_cur s) = Some i" "1 \<le> i" "i \<le> MAX_PID" "pid_empty (p_slot s i)"
      using task_create_eq[OF ok k(1) left] by metis
    then have "task_create room (Some cur) s = Some (if room then (Some ?a, after_create cur i k s) else (None, s\<lparr>p_cur := i\<rparr>))" for room
      using task_create_eq[OF ok k(1) left, of room] by (metis option.inject)
    with i show thesis by (intro that)
  qed
  have undone: "pt_ok (s\<lparr>p_cur := i, p_next := m\<rparr>)" if "?a \<le> m" for m
  proof -
    have "pt_ok (s\<lparr>p_next := m\<rparr>)" by (rule bump_ok[OF ok that])
    then show ?thesis using i(1,2) by (auto simp: pt_okx_def lists_ok_def slots_ok_def init_ok_def fresh_ok_def task_ok_def tied_def group_ok_def
      hand_ok_def users_def view_defs[abs_def])
  qed
  have destroyed: "task_destroy ?a (unborn cur i k s k' m) = Some (s\<lparr>p_cur := i, p_next := m\<rparr>)" if "k_pid k' = i" "k_on k' = Some cur" for k' m
    by (rule unborn_destroy[OF ok k(1) i(1-3) that])
  have A: "after_create cur i k s = unborn cur i k s (newborn cur i k) (?a + 1)"
    by (simp add: unborn_def after_create_def)
  have nb: "k_pid (newborn cur i k) = i" "k_on (newborn cur i k) = Some cur" by (simp_all add: newborn_def)
  have failed: ?thesis if "clone_body cur flags fail s = Some (r, s\<lparr>p_cur := i, p_next := m\<rparr>)" "?a \<le> m" for r m
    using that undone by auto
  show ?thesis
  proof (cases "fail = Fail_Task")
    case True
    then have "clone_body cur flags fail s = Some (ENOMEM, s\<lparr>p_cur := i, p_next := ?a\<rparr>)" by (simp add: clone_body_def i(4))
    then show ?thesis by (rule failed) simp
  next
    case ft: False
    show ?thesis
    proof (cases "fail = Fail_Copies \<or> fail = Fail_Hand \<and> \<not> ?shared")
      case True
      then have "clone_body cur flags fail s = Some (ENOMEM, s\<lparr>p_cur := i, p_next := ?a + 1\<rparr>)"
        using ft destroyed[OF nb, of "?a + 1"] by (auto simp: clone_body_def i(4) copy_task_def A)
      then show ?thesis by (rule failed) simp
    next
      case fc: False
      obtain sB kB where B: "copy_hand ?a ?shared (after_create cur i k s) = Some sB" "pt_okx {?a} {} sB" "p_task sB ?a = Some kB"
        "kB = (newborn cur i k)\<lparr>k_hand := k_hand kB\<rparr>" "k_hand kB \<noteq> None" "p_group sB = p_group s" "?a < p_next sB"
        "p_task sB = (p_task (after_create cur i k s))(?a \<mapsto> kB)"
        "\<forall>kC m. k_hand kC = k_hand kB \<longrightarrow> release_hand_of ?a (sB\<lparr>p_next := m, p_task := (p_task sB)(?a \<mapsto> kC)\<rparr>) = Some (unborn cur i k s kC m)"
        by (rule hand_stage[OF ok k i(1-3)])
      have kB: "k_pid kB = i" "k_on kB = Some cur" by (subst B(4), simp add: nb)+
      have tA: "p_task (after_create cur i k s) ?a = Some (newborn cur i k)" by (simp add: after_create_def)
      have gk: "k_group (newborn cur i k) = k_group k" by (simp add: newborn_def)
      show ?thesis
      proof (cases "fail = Fail_Group \<and> \<not> ?thread")
        case True
        have "sB = sB\<lparr>p_next := p_next sB, p_task := (p_task sB)(?a \<mapsto> kB)\<rparr>" using B(3) by (simp add: map_upd_same)
        then have "release_hand_of ?a sB = Some (unborn cur i k s kB (p_next sB))" using B(9) by metis
        then have "clone_body cur flags fail s = Some (ENOMEM, s\<lparr>p_cur := i, p_next := p_next sB\<rparr>)"
          using True ft fc destroyed[OF kB, of "p_next sB"] B(1) tA by (simp add: clone_body_def i(4) copy_task_def)
        then show ?thesis by (rule failed) (use B(7) in simp)
      next
        case fg: False
        obtain sC kC m where C: "join_group ?a ?thread sB = Some sC" "pt_ok sC" "p_task sC ?a = Some kC" "k_pid kC = i"
          "\<exists>kD. unjoin_group ?a ?thread (k_group k) sC = Some (sB\<lparr>p_next := m, p_task := (p_task sB)(?a \<mapsto> kD)\<rparr>)
             \<and> k_hand kD = k_hand kB \<and> k_pid kD = i \<and> k_on kD = Some cur \<and> ?a \<le> m"
        proof (rule group_stage[OF ok k th B(2-7)])
          have ne: "cur \<noteq> ?a" using k(1) fresh_task(1)[OF ok, of ?a] by auto
          show "\<forall>b. b \<noteq> ?a \<longrightarrow> p_task sB b = None \<longleftrightarrow> p_task s b = None" using k(1) by (auto simp: B(8) after_create_def)
          have "\<exists>k0 cs. p_task s b = Some k0 \<and> kb = k0\<lparr>k_children := cs\<rparr>" if "b \<noteq> ?a" "p_task sB b = Some kb" for b kb
          proof (cases "b = cur")
            case True
            then show ?thesis using that k(1) by (auto simp: B(8) after_create_def)
          next
            case False
            then have "p_task s b = Some kb" using that by (simp add: B(8) after_create_def)
            then show ?thesis by (intro exI[of _ kb] exI[of _ "k_children kb"]) simp
          qed
          then show "\<forall>b kb. b \<noteq> ?a \<longrightarrow> p_task sB b = Some kb \<longrightarrow> (\<exists>k0 cs. p_task s b = Some k0 \<and> kb = k0\<lparr>k_children := cs\<rparr>)" by blast
        qed
        show ?thesis
        proof (cases "fail = Fail_Tid \<and> flags AND (CLONE_CHILD_SETTID OR CLONE_PARENT_SETTID) \<noteq> 0")
          case True
          obtain kD where D: "unjoin_group ?a ?thread (k_group k) sC = Some (sB\<lparr>p_next := m, p_task := (p_task sB)(?a \<mapsto> kD)\<rparr>)"
             "k_hand kD = k_hand kB" "k_pid kD = i" "k_on kD = Some cur" "?a \<le> m" using C(5) by blast
          have "clone_body cur flags fail s = Some (EFAULT, s\<lparr>p_cur := i, p_next := m\<rparr>)"
            using True destroyed[OF D(3,4), of m] B(1) tA C(1) D(1,2) B(9) gk
            by (simp add: clone_body_def i(4) copy_task_def)
          then show ?thesis by (rule failed) (rule D(5))
        next
          case False
          let ?s' = "sC\<lparr>p_task := (p_task sC)(?a \<mapsto> kC\<lparr>k_exit_signal := uint (flags AND CSIGNAL)\<rparr>)\<rparr>"
          have "copy_task ?a flags fail (after_create cur i k s) = Some (0, ?s')"
            using fc fg False B(1) tA C(1,3) unfolding copy_task_def by (auto simp: upd_task_def Let_def)
          then have "clone_body cur flags fail s = Some (i, ?s')" using ft C(4) by (simp add: clone_body_def i(4))
          moreover have "pt_ok ?s'" by (rule exit_signal_ok[OF C(2,3) _ es]) simp
          ultimately show ?thesis using i(1) by auto
        qed
      qed
    qed
  qed
qed

lemma sys_clone_ok:
  assumes "pt_ok s" "p_task s cur = Some k" "\<not> exiting k" "pids_left s" "flags AND CLONE_THREAD \<noteq> 0 \<longrightarrow> k_pid k \<noteq> 1"
    "uint (flags AND CSIGNAL) \<le> 64"
  shows "\<exists>r s'. sys_clone cur flags guard fail s = Some (r, s') \<and> pt_ok s' \<and> (r < 0 \<longrightarrow> s' = s\<lparr>p_cur := p_cur s', p_next := p_next s'\<rparr>)"
proof -
  have th: "k_pid k \<noteq> 1" if "flags AND CLONE_THREAD \<noteq> 0" by (rule mp[OF assms(5) that])
  have body: "\<exists>r s'. clone_body cur flags fail s = Some (r, s') \<and> pt_ok s' \<and> (r < 0 \<longrightarrow> s' = s\<lparr>p_cur := p_cur s', p_next := p_next s'\<rparr>)"
    by (rule clone_body_ok[OF assms(1-4) th assms(6)])
  have "sys_clone cur flags guard fail s = clone_body cur flags fail s \<or> (\<exists>e < 0. sys_clone cur flags guard fail s = Some (e, s))"
    by (auto simp: sys_clone_def split: option.splits)
  then show ?thesis using body assms(1) by auto
qed

end
