(* ===== verification/Process_Waits.thy ===== *)
theory Process_Waits
  imports Process_Cloned
begin

text \<open>Waiting keeps the invariant; a pass that finds nothing changes nothing.\<close>

lemma report_stopped:
  assumes "p_task s a = Some k" "p_group s (k_group k) = Some n"
  shows "\<exists>b i' s'. notify_if_stopped a options i s = Some (b, i', s') \<and> quiet s s' \<and> (\<not> b \<longrightarrow> s' = s)"
  using assms by (auto simp: notify_if_stopped_def upd_group_def quiet_def same_group_def)

lemma report_continued:
  assumes "p_task s a = Some k" "p_group s (k_group k) = Some n"
  shows "\<exists>b i' s'. notify_if_continued a options i s = Some (b, i', s') \<and> quiet s s' \<and> (\<not> b \<longrightarrow> s' = s)"
  using assms by (auto simp: notify_if_continued_def upd_group_def quiet_def same_group_def)

lemma reap_zombie:
  assumes ok: "pt_ok s" and k: "p_task s a = Some k"
  shows "\<exists>b i' s'. reap_if_zombie a options i s = Some (b, i', s') \<and> pt_ok s' \<and> (\<not> b \<longrightarrow> s' = s)"
proof (cases "zombie k \<and> options AND WNOWAIT = 0")
  case False
  obtain n where n: "p_group s (k_group k) = Some n" using pt_ok_group[OF assms] by blast
  with False ok k show ?thesis by (auto simp: reap_if_zombie_def zombie_def Let_def)
next
  case True
  obtain n where n: "p_group s (k_group k) = Some n" using pt_ok_group[OF assms] by blast
  obtain s' where "free_group a s = Some s'" "pt_okx ({} - {a}) ({} - {a}) s'"
    by (rule free_group_ok[OF ok k]) (use True pt_okD(5)[OF ok k] in \<open>simp_all add: task_ok_def\<close>)
  with True k n show ?thesis by (auto simp: reap_if_zombie_def zombie_def Let_def)
qed

lemma reap_ok:
  assumes ok: "pt_ok s" and k: "p_task s a = Some k" and n: "p_group s (k_group k) = Some n" "n_leader n = a"
  shows "\<exists>b i' s'. reap_if_needed a options i s = Some (b, i', s') \<and> pt_ok s' \<and> (\<not> b \<longrightarrow> s' = s)"
proof -
  obtain b1 i1 s1 where 1: "(if options AND WUNTRACED \<noteq> 0 then notify_if_stopped a options i s else Some (False, i, s)) = Some (b1, i1, s1)"
    "quiet s s1" "\<not> b1 \<longrightarrow> s1 = s"
  proof (cases "options AND WUNTRACED \<noteq> 0")
    case True
    then show thesis using that report_stopped[OF k n(1), of options i] by auto
  next
    case False
    then show thesis by (intro that[of False i s]) simp_all
  qed
  obtain b2 i2 s2 where 2: "(if \<not> b1 \<and> options AND WCONTINUED \<noteq> 0 then notify_if_continued a options i1 s1 else Some (b1, i1, s1)) = Some (b2, i2, s2)"
    "quiet s s2" "\<not> b2 \<longrightarrow> s2 = s"
  proof (cases "\<not> b1 \<and> options AND WCONTINUED \<noteq> 0")
    case True
    then show thesis using that report_continued[OF k n(1), of options i1] 1(3) by auto
  next
    case False
    then show thesis using 1 by (intro that[of b1 i1 s1]) auto
  qed
  obtain b3 i3 s3 where 3: "(if \<not> b2 \<and> options AND WEXITED \<noteq> 0 then reap_if_zombie a options i2 s2 else Some (b2, i2, s2)) = Some (b3, i3, s3)"
    "pt_ok s3" "\<not> b3 \<longrightarrow> s3 = s"
  proof (cases "\<not> b2 \<and> options AND WEXITED \<noteq> 0")
    case True
    then show thesis using that reap_zombie[OF ok k, of options i2] 2(3) by auto
  next
    case False
    then show thesis using 2 quiet_ok[OF 2(2) ok] by (intro that[of b2 i2 s2]) auto
  qed
  have "reap_if_needed a options i s = Some (b3, if b3 then i3\<lparr>ci_sig := SIGCHLD\<rparr> else i3, s3)"
    using k n unfolding reap_if_needed_def by (simp add: 1(1) 2(1) 3(1))
  with 3(2,3) show ?thesis by blast
qed

lemma scan_children_ok:
  assumes "pt_ok s" "\<And>c. c \<in> set cs \<Longrightarrow> p_task s c \<noteq> None"
  shows "\<exists>r seen' i' s'. scan_children cur pgid options cs seen i s = Some (r, seen', i', s') \<and> pt_ok s' \<and> (r = None \<longrightarrow> s' = s)"
  using assms
proof (induction cs arbitrary: seen i)
  case (Cons c cs)
  have "p_task s c \<noteq> None" using Cons.prems(2)[of c] by simp
  then obtain k where k: "p_task s c = Some k" by blast
  obtain n where n: "p_group s (k_group k) = Some n" using pt_ok_group[OF Cons.prems(1) k] by blast
  have IH: "\<exists>r seen' i' s'. scan_children cur pgid options cs seen i s = Some (r, seen', i', s') \<and> pt_ok s' \<and> (r = None \<longrightarrow> s' = s)" for seen i
    by (rule Cons.IH[OF Cons.prems(1)]) (use Cons.prems(2) in simp)
  show ?case
  proof (cases "n_leader n \<noteq> c \<or> (\<exists>p. pgid = Some p \<and> n_pgid n \<noteq> p)")
    case True
    then show ?thesis using IH[of seen i] k n by (simp del: split_paired_Ex)
  next
    case False
    then have l: "n_leader n = c" by simp
    obtain b i1 s1 where r: "reap_if_needed c options (i\<lparr>ci_pid := k_pid k, ci_uid := k_uid k\<rparr>) s = Some (b, i1, s1)" "pt_ok s1" "\<not> b \<longrightarrow> s1 = s"
      using reap_ok[OF Cons.prems(1) k n l, of options "i\<lparr>ci_pid := k_pid k, ci_uid := k_uid k\<rparr>"] by blast
    have e: "scan_children cur pgid options (c # cs) seen i s = (if b then Some (Some i1, True, i1, s1) else scan_children cur pgid options cs True i1 s1)"
      using k n r(1) False by auto
    show ?thesis
    proof (cases b)
      case True
      then have "scan_children cur pgid options (c # cs) seen i s = Some (Some i1, True, i1, s1)" using e by (simp only: if_True)
      then show ?thesis using r(2) by blast
    next
      case False
      then show ?thesis using e r(3) IH[of True i1] by (simp del: split_paired_Ex scan_children.simps)
    qed
  qed
qed simp

lemma scan_threads_ok:
  assumes "pt_ok s" "p_task s cur = Some k"
  shows "\<exists>r seen' i' s'. scan_threads cur pgid options ts seen i s = Some (r, seen', i', s') \<and> pt_ok s' \<and> (r = None \<longrightarrow> s' = s)"
proof (induction ts arbitrary: seen i)
  case (Cons t ts)
  have c: "p_task s c \<noteq> None" if "c \<in> set (k_children k)" for c by (rule child_of[OF assms that]) simp
  obtain r seen' i' s' where r: "scan_children cur pgid options (k_children k) seen i s = Some (r, seen', i', s')" "pt_ok s'" "r = None \<longrightarrow> s' = s"
    using scan_children_ok[OF assms(1) c, of "k_children k"] by blast
  then show ?case using assms(2) Cons.IH[of seen' i'] by (cases r) (simp_all del: split_paired_Ex)
qed (use assms(1) in simp)

lemma wait_pass_ok:
  assumes ok: "pt_ok s" and k: "p_task s cur = Some k"
  shows "\<exists>r s'. wait_pass cur idtype wid options i s = Some (r, s') \<and> pt_ok s' \<and> ((\<forall>f. r \<noteq> Found f) \<longrightarrow> s' = s)"
proof -
  obtain n where n: "p_group s (k_group k) = Some n" using pt_ok_group[OF assms] by blast
  show ?thesis
  proof (cases "idtype \<noteq> P_PID")
    case True
    define pgid where "pgid = (if idtype = P_PGID then Some (if wid = 0 then n_pgid n else wid) else None)"
    obtain r seen i' s' where r: "scan_threads cur pgid options (n_threads n) False i s = Some (r, seen, i', s')" "pt_ok s'" "r = None \<longrightarrow> s' = s"
      using scan_threads_ok[OF assms] by blast
    have "wait_pass cur idtype wid options i s = Some (case r of Some f \<Rightarrow> (Found f, s')
        | None \<Rightarrow> if \<not> seen then (Failed ECHILD, s') else (Nothing i', s'))"
      using True k n r(1) by (simp add: wait_pass_def pgid_def Let_def)
    with r(2,3) show ?thesis by (cases r) auto
  next
    case pid: False
    show ?thesis
    proof (cases "pid_get_task_zombie s wid")
      case None
      then show ?thesis using pid k n ok by (simp add: wait_pass_def)
    next
      case (Some a)
      then have "s_task (p_slot s wid) = Some a" by (auto simp: pid_get_task_zombie_def pid_get_def split: if_splits option.splits)
      then obtain ka where ka: "p_task s a = Some ka" using slot_members(2)[OF ok] by blast
      show ?thesis
      proof (cases "k_parent ka")
        case None
        then show ?thesis using pid k n ok Some ka by (simp add: wait_pass_def)
      next
        case p: (Some p)
        have "k_on ka = Some p" using pt_okD(5)[OF ok ka] p by (simp add: task_ok_def)
        then obtain kp where kp: "p_task s p = Some kp" using parent_of[OF ok ka] by blast
        obtain m where m: "p_group s (k_group ka) = Some m" using pt_ok_group[OF ok ka] by blast
        obtain l where l: "p_task s (n_leader m) = Some l" "k_group l = k_group ka" by (rule leader_is[OF ok m])
        obtain b i1 s1 where r: "reap_if_needed (n_leader m) options (i\<lparr>ci_pid := wid, ci_uid := k_uid l\<rparr>) s = Some (b, i1, s1)" "pt_ok s1" "\<not> b \<longrightarrow> s1 = s"
          using reap_ok[OF ok l(1) _ refl, of options "i\<lparr>ci_pid := wid, ci_uid := k_uid l\<rparr>"] m l(2) by auto
        have "wait_pass cur idtype wid options i s = (if k_group kp \<noteq> k_group k then Some (Failed ECHILD, s) else Some (if b then Found i1 else Nothing i1, s1))"
          using pid k n Some ka p kp m l r(1) by (simp add: wait_pass_def)
        then show ?thesis using r(2,3) ok by auto
      qed
    qed
  qed
qed

end
