(* ===== verification/Process_Safety.thy ===== *)
theory Process_Safety
  imports Process_Waits
begin

text \<open>
  The table as a machine: the calls of the running tasks, in any order, from the state that the first process is
  made in. A step is a whole call, and for a wait each of its scans. Exits, moves, signals and
  scans change the lists and tasks of the table while they hold \<^verbatim>\<open>pids_lock\<close>. A clone does not hold it all the way: it makes the
  task, releases the lock and takes it again to link the task into its group (the FIXME at \<^verbatim>\<open>kernel/fork.c\<close>, line 239); what
  another thread could do with the half-made task between the two is not modelled.
\<close>

section \<open>The first process\<close>

definition first_task :: task where
  "first_task = zero_task\<lparr>k_pid := 1, k_group := 1, k_tgid := 1, k_linked := True, k_hand := Some 2\<rparr>"

definition first_group :: tgroup where
  "first_group = \<lparr>n_threads = [0], n_leader = 0, n_sid = 1, n_pgid = 1, n_pgroup_at = Some 1, n_session_at = Some 1,
     n_state = \<lparr>g_stopped = False, g_continued = False, g_exit_code = 0\<rparr>, n_group_exit = False, n_tty = None\<rparr>"

definition first_state :: procs where
  "first_state = no_procs\<lparr>p_task := [0 \<mapsto> first_task], p_group := [1 \<mapsto> first_group], p_hand := [2 \<mapsto> \<lparr>h_refs = 1, h_sig = sighand_new\<rparr>],
     p_slot := (p_slot no_procs)(1 := \<lparr>s_task = Some 0, s_session = [1], s_pgroup = [1]\<rparr>), p_cur := 1, p_next := 3\<rparr>"

lemma first_pid: "next_pid (\<lambda>_. \<lparr>s_task = None, s_session = [], s_pgroup = []\<rparr>) 0 = Some 1"
  by (subst next_pid.simps) (simp add: pid_empty_def)

lemma construct_first: "construct_task None no_procs = Some (0, first_state)"
  by (simp add: construct_task_def task_create_def no_procs_def first_pid Let_def upd_slot_def upd_task_def upd_group_def thr_add_def
      task_setsid_def task_leave_session_def ses_add_def pg_add_def pid_get_def pid_empty_def zero_task_def fresh_stask_def
      first_state_def first_task_def first_group_def fun_eq_iff)

lemma first_ok: "pt_ok first_state"
proof (rule pt_okI)
  let ?s = first_state
  have t: "p_task ?s a = (if a = 0 then Some first_task else None)" and g: "p_group ?s b = (if b = 1 then Some first_group else None)"
    and h: "p_hand ?s c = (if c = 2 then Some \<lparr>h_refs = 1, h_sig = sighand_new\<rparr> else None)"
    and sl: "p_slot ?s i = (if i = 1 then \<lparr>s_task = Some 0, s_session = [1], s_pgroup = [1]\<rparr> else \<lparr>s_task = None, s_session = [], s_pgroup = []\<rparr>)"
    for a b c i by (auto simp: first_state_def no_procs_def)
  have k: "k_pid first_task = 1" "k_group first_task = 1" "k_linked first_task" "k_hand first_task = Some 2" "k_parent first_task = None"
    "k_on first_task = None" "k_children first_task = []" "\<not> zombie first_task" "\<not> exiting first_task" "k_exit_signal first_task = 0"
    by (simp_all add: first_task_def zero_task_def fresh_stask_def zombie_def exiting_def)
  have n: "n_threads first_group = [0]" "n_leader first_group = 0" "n_pgroup_at first_group = Some 1" "n_session_at first_group = Some 1"
    "n_tty first_group = None" by (simp_all add: first_group_def)
  have v: "children_of ?s = (\<lambda>_. [])" "child_at ?s = (\<lambda>_. None)" "threads_of ?s = (\<lambda>x. if x = 1 then [0] else [])"
    "thread_at ?s = (\<lambda>x. if x = 0 then Some 1 else None)" "pgroup_of ?s = (\<lambda>x. if x = 1 then [1] else [])"
    "pgroup_at ?s = (\<lambda>x. if x = 1 then Some 1 else None)" "session_of ?s = (\<lambda>x. if x = 1 then [1] else [])"
    "session_at ?s = (\<lambda>x. if x = 1 then Some 1 else None)"
    by (auto simp: view_defs t g sl k n fun_eq_iff)
  show "lists_ok ?s" by (auto simp: lists_ok_def v linked_def)
  show "slots_ok ?s" by (auto simp: slots_ok_def sl t k)
  show "init_ok ?s" by (simp add: init_ok_def sl t g k n)
  have "p_next ?s = 3" "p_cur ?s = 1" by (simp_all add: first_state_def)
  then show "fresh_ok ?s" by (auto simp: fresh_ok_def t g h)
  show "task_ok {} {} ?s a x" if "p_task ?s a = Some x" for a x
    using that k n by (auto simp: t task_ok_def sl tied_def g h split: if_splits)
  show "group_ok ?s b x" if "p_group ?s b = Some x" for b x
    using that k n by (auto simp: g group_ok_def t split: if_splits)
  have "users {} ?s c = (if c = 2 then {0} else {})" for c using k by (auto simp: users_def t)
  then show "hand_ok {} ?s c r" if "p_hand ?s c = Some r" for c r
    using that by (auto simp: h hand_ok_def sighand_new_def split: if_splits)
qed

section \<open>Calls\<close>

datatype call = Clone u32 "int option" clone_fail | Exit u32 "byte list" | Exit_Group u32 | Setpgid int int | Setsid
  | Kill int int int | Wait int int u32

fun perform :: "nat \<Rightarrow> call \<Rightarrow> procs \<Rightarrow> procs exited option" where
  "perform cur (Clone flags guard fail) s = map_option (\<lambda>x. Exited (snd x)) (sys_clone cur flags guard fail s)"
| "perform cur (Exit status clocks) s = do_exit cur status clocks s"
| "perform cur (Exit_Group status) s = map_option (\<lambda>x. Exited (snd x)) (begin_exit_group cur status s)"
| "perform cur (Setpgid i pgid) s = map_option (\<lambda>x. Exited (snd x)) (sys_setpgid cur i pgid s)"
| "perform cur Setsid s = map_option (\<lambda>x. Exited (snd x)) (task_setsid cur s)"
| "perform cur (Kill pid sig tgid) s = map_option (\<lambda>x. Exited (snd x)) (do_kill cur pid sig tgid s)"
| "perform cur (Wait idtype wid options) s = map_option (\<lambda>x. Exited (snd x)) (wait_pass cur idtype wid options no_child s)"

text \<open>
  A call is made by a task that has not begun to exit. Three things are asked of a clone: that a number is free, that the first
  process makes no threads, and that the exit signal is one; and of a signal to a process group, that something goes by its number.
  \<open>Process_Faults\<close> shows what the code does otherwise.
\<close>

fun callable :: "task \<Rightarrow> call \<Rightarrow> procs \<Rightarrow> bool" where
  "callable k (Clone flags guard fail) s \<longleftrightarrow>
     pids_left s \<and> (flags AND CLONE_THREAD \<noteq> 0 \<longrightarrow> k_pid k \<noteq> 1) \<and> uint (flags AND CSIGNAL) \<le> 64"
| "callable k (Kill pid sig tgid) s \<longleftrightarrow> kill_finds k pid sig s"
| "callable k c s \<longleftrightarrow> True"

definition allowed :: "nat \<Rightarrow> call \<Rightarrow> procs \<Rightarrow> bool" where
  "allowed cur c s \<longleftrightarrow> (\<exists>k. p_task s cur = Some k \<and> \<not> exiting k \<and> callable k c s)"

inductive reachable :: "procs \<Rightarrow> bool" where
  boot: "construct_task None no_procs = Some (a, s) \<Longrightarrow> reachable s"
| call: "reachable s \<Longrightarrow> allowed cur c s \<Longrightarrow> perform cur c s = Some (Exited s') \<Longrightarrow> reachable s'"

lemma perform_ok:
  assumes ok: "pt_ok s" and al: "allowed cur c s"
  shows "(\<exists>s'. perform cur c s = Some (Exited s') \<and> pt_ok s') \<or> perform cur c s = Some Halted"
proof -
  obtain k where k: "p_task s cur = Some k" "\<not> exiting k" and ca: "callable k c s" using al unfolding allowed_def by blast
  have q: "\<exists>s'. map_option (\<lambda>x. Exited (snd x)) z = Some (Exited s') \<and> pt_ok s'" if "\<exists>r s'. z = Some (r, s') \<and> pt_ok s'"
    for z :: "('r \<times> procs) option" using that by auto
  show ?thesis
  proof (cases c)
    case (Clone flags guard fail)
    note l = ca[unfolded Clone callable.simps]
    have "\<exists>r s'. sys_clone cur flags guard fail s = Some (r, s') \<and> pt_ok s'"
      using sys_clone_ok[OF ok k conjunct1[OF l] conjunct1[OF conjunct2[OF l]] conjunct2[OF conjunct2[OF l]], of guard fail]
      by (elim exE conjE) (intro exI conjI)
    then show ?thesis unfolding Clone perform.simps by (intro disjI1 q)
  next
    case (Exit status clocks)
    then show ?thesis using do_exit_ok[OF ok k] by auto
  next
    case (Exit_Group status)
    have "\<exists>r s'. begin_exit_group cur status s = Some (r, s') \<and> pt_ok s'"
      using begin_exit_group_quiet[OF ok k(1)] quiet_ok[OF _ ok] by blast
    then show ?thesis unfolding Exit_Group perform.simps by (intro disjI1 q)
  next
    case (Setpgid i pgid)
    then show ?thesis using q[OF setpgid_ok[OF ok k(1)]] by simp
  next
    case Setsid
    then show ?thesis using q[OF setsid_ok[OF ok k(1)]] by simp
  next
    case (Kill pid sig tgid)
    have "\<exists>r s'. do_kill cur pid sig tgid s = Some (r, s') \<and> pt_ok s'"
      using do_kill_quiet[OF ok k(1), of pid sig tgid] ca[unfolded Kill callable.simps] quiet_ok[OF _ ok] by blast
    then show ?thesis unfolding Kill perform.simps by (intro disjI1 q)
  next
    case (Wait idtype wid options)
    have "\<exists>r s'. wait_pass cur idtype wid options no_child s = Some (r, s') \<and> pt_ok s'" using wait_pass_ok[OF ok k(1)] by blast
    then show ?thesis unfolding Wait perform.simps by (intro disjI1 q)
  qed
qed

lemma reachable_ok: "reachable s \<Longrightarrow> pt_ok s"
proof (induction rule: reachable.induct)
  case (boot a s)
  then show ?case using first_ok construct_first by simp
next
  case (call s cur c s')
  then show ?case using perform_ok[OF call.IH call.hyps(2)] by auto
qed

end
