(* ===== verification/Process_Props.thy ===== *)
theory Process_Props
  imports Process_Safety
begin

text \<open>What the process table promises: the claims over the calls and their witnesses on the state of the first process.\<close>

section \<open>Evaluating on a small state\<close>

lemma next_pid_here: "c < MAX_PID \<Longrightarrow> pid_empty (slots (c + 1)) \<Longrightarrow> next_pid slots c = Some (c + 1)"
  by (subst next_pid.simps) simp

lemmas state_simps = first_state_def no_procs_def first_task_def first_group_def zero_task_def fresh_stask_def
lemmas table_simps = upd_task_def upd_group_def upd_slot_def sib_add_def sib_del_def thr_add_def thr_del_def pg_add_def pg_del_def
  ses_add_def ses_del_def pg_add_after_def ses_add_after_def pid_empty_def pid_get_def pid_get_task_zombie_def pid_get_task_def Let_def
lemmas clone_simps = sys_clone_def clone_body_def copy_task_def copy_hand_def join_group_def tgroup_copy_def task_create_def
  next_pid_here IMPLEMENTED_FLAGS_def
lemmas exit_simps = do_exit_def exit_mark_def sighand_release_def reparent_children_def find_new_parent_def reparent_child_def
  exit_notify_def auto_reaps_def free_group_def task_leave_session_def task_destroy_def
lemmas signal_simps = send_task_def action_of_def sighand_new_def sighand_copy_def child_siginfo_def waitid_decode_status_def

lemma first_reachable: "reachable first_state"
  by (rule reachable.boot[OF construct_first])

lemma first_running: "p_task first_state 0 = Some first_task" "\<not> exiting first_task"
  by (simp_all add: state_simps exiting_def)

lemma first_left: "pids_left first_state"
  unfolding pids_left_def by (rule exI[of _ 2]) (simp add: state_simps pid_empty_def)

lemma first_forks: "allowed 0 (Clone 17 None No_Failure) first_state"
  unfolding allowed_def by (rule exI[of _ first_task]) (simp add: first_running first_left)

section \<open>The claims\<close>

text \<open>
  Claim C1. The states meant are those that the first process and the processes and threads it makes can reach by cloning, exiting,
  ending their group, moving between process groups and sessions, sending signals and waiting, in any order, one whole call after
  another, as long as (1) a clone finds a free number, (2) process 1 makes no threads, (3) the exit signal that a clone asks
  for is at most 64, and (4) a signal to a process group names a number that something goes by. In each of them, each such call by a task that
  has not begun to exit finishes, without touching a freed task, group or set of signal actions, without a failed assertion and without a
  second unlock of \<^verbatim>\<open>pids_lock\<close>, and only the exit of process 1 halts the system. None of the four conditions is checked by
  the code, and calls against them can fail. Other threads' calls between the two halves of a clone are not covered.
\<close>

theorem calls_are_safe:
  assumes "reachable s" "allowed cur c s"
  shows "\<exists>r. perform cur c s = Some r \<and> (r = Halted \<longrightarrow> (\<exists>k. p_task s cur = Some k \<and> k_pid k = 1))"
proof -
  have ok: "pt_ok s" by (rule reachable_ok[OF assms(1)])
  show ?thesis
  proof (cases "\<exists>status clocks. c = Exit status clocks")
    case True
    then obtain status clocks where c: "c = Exit status clocks" by blast
    obtain k where k: "p_task s cur = Some k" "\<not> exiting k" using assms(2) unfolding allowed_def by blast
    from do_exit_ok[OF ok k, of status clocks] k show ?thesis unfolding c perform.simps by auto
  next
    case False
    then have "perform cur c s \<noteq> Some Halted" by (cases c) auto
    with perform_ok[OF ok assms(2)] show ?thesis by auto
  qed
qed

theorem calls_are_safe_witness: "\<exists>r. perform 0 (Clone 17 None No_Failure) first_state = Some r"
  using calls_are_safe[OF first_reachable first_forks] by blast

text \<open>Each of the four kinds of lists has exactly the nodes that name it as their place.\<close>

lemma lists_exact:
  assumes ok: "pt_ok s"
  shows "p_task s a = Some k \<Longrightarrow> p_task s p = Some kp \<Longrightarrow> a \<in> set (k_children kp) \<longleftrightarrow> k_parent k = Some p"
    "p_task s a = Some k \<Longrightarrow> p_group s g = Some n \<Longrightarrow> a \<in> set (n_threads n) \<longleftrightarrow> k_group k = g \<and> \<not> exiting k"
    "p_group s g = Some n \<Longrightarrow> \<exists>!i. g \<in> set (s_pgroup (p_slot s i))" "p_group s g = Some n \<Longrightarrow> \<exists>!i. g \<in> set (s_session (p_slot s i))"
    "g \<in> set (s_pgroup (p_slot s i)) \<or> g \<in> set (s_session (p_slot s i)) \<Longrightarrow> p_group s g \<noteq> None"
proof -
  note L = listsD[OF pt_okD(1)[OF ok]]
  show "a \<in> set (k_children kp) \<longleftrightarrow> k_parent k = Some p" if "p_task s a = Some k" "p_task s p = Some kp"
    using linkedD(1)[OF L(1), of a p] that pt_okD(5)[OF ok that(1)] by (simp add: children_of_def child_at_def task_ok_def)
  show "a \<in> set (n_threads n) \<longleftrightarrow> k_group k = g \<and> \<not> exiting k" if "p_task s a = Some k" "p_group s g = Some n"
    using linkedD(1)[OF L(2), of a g] that pt_okD(5)[OF ok that(1)] by (auto simp: threads_of_def thread_at_def task_ok_def tied_def)
  show "\<exists>!i. g \<in> set (s_pgroup (p_slot s i))" "\<exists>!i. g \<in> set (s_session (p_slot s i))" if n: "p_group s g = Some n"
  proof -
    obtain i j where "pgroup_at s g = Some i" "session_at s g = Some j" by (rule group_places[OF ok n])
    then show "\<exists>!i. g \<in> set (s_pgroup (p_slot s i))" "\<exists>!i. g \<in> set (s_session (p_slot s i))"
      using linkedD(1)[OF L(3), of g] linkedD(1)[OF L(4), of g] by (auto simp: pgroup_of_def session_of_def)
  qed
  show "p_group s g \<noteq> None" if "g \<in> set (s_pgroup (p_slot s i)) \<or> g \<in> set (s_session (p_slot s i))"
    using that linkedD(1)[OF L(3), of g i] linkedD(1)[OF L(4), of g i]
    by (auto simp: pgroup_of_def session_of_def pgroup_at_def session_at_def split: option.splits)
qed

text \<open>
  Claim C8. In every state that is reached under the four conditions of the first claim the table is consistent: a task is the one its
  number leads to, its group exists, and a number leads only to a task that has it; the list of a task's children holds exactly the tasks whose
  parent it is, and the list of a group's threads exactly its tasks that have not begun to exit; a group has a
  leader that is in it, and is in the process-group list of exactly one number and in the session list of exactly one, and these lists hold
  nothing else; and the count of each set of signal actions is the number of the tasks that use it. It says nothing of which
  numbers these two are: the fields for them can differ from the lists.
\<close>

theorem table_is_consistent:
  assumes "reachable s"
  shows "(\<forall>a k. p_task s a = Some k \<longrightarrow> s_task (p_slot s (k_pid k)) = Some a \<and> p_group s (k_group k) \<noteq> None
      \<and> (\<forall>p. k_parent k = Some p \<longrightarrow> p_task s p \<noteq> None)
      \<and> (\<forall>p kp. p_task s p = Some kp \<longrightarrow> (a \<in> set (k_children kp) \<longleftrightarrow> k_parent k = Some p))
      \<and> (\<forall>g n. p_group s g = Some n \<longrightarrow> (a \<in> set (n_threads n) \<longleftrightarrow> k_group k = g \<and> \<not> exiting k)))
    \<and> (\<forall>i a. s_task (p_slot s i) = Some a \<longrightarrow> (\<exists>k. p_task s a = Some k \<and> k_pid k = i))
    \<and> (\<forall>g n. p_group s g = Some n \<longrightarrow> (\<exists>l. p_task s (n_leader n) = Some l \<and> k_group l = g)
      \<and> (\<exists>!i. g \<in> set (s_pgroup (p_slot s i))) \<and> (\<exists>!i. g \<in> set (s_session (p_slot s i))))
    \<and> (\<forall>i g. g \<in> set (s_pgroup (p_slot s i)) \<or> g \<in> set (s_session (p_slot s i)) \<longrightarrow> p_group s g \<noteq> None)
    \<and> (\<forall>h r. p_hand s h = Some r \<longrightarrow> h_refs r = card {a. \<exists>k. p_task s a = Some k \<and> k_hand k = Some h})"
proof (intro conjI allI impI)
  have ok: "pt_ok s" by (rule reachable_ok[OF assms])
  note exact = lists_exact[OF ok]
  show "h_refs r = card {a. \<exists>k. p_task s a = Some k \<and> k_hand k = Some h}" if "p_hand s h = Some r" for h r
    using pt_okD(7)[OF ok that] by (simp add: hand_ok_def users_def)
  show "\<exists>l. p_task s (n_leader n) = Some l \<and> k_group l = g" if "p_group s g = Some n" for g n
    by (rule leader_is[OF ok that]) blast
  show "\<exists>!i. g \<in> set (s_pgroup (p_slot s i))" "\<exists>!i. g \<in> set (s_session (p_slot s i))" if "p_group s g = Some n" for g n
    by (rule exact(3)[OF that], rule exact(4)[OF that])
  show "p_group s g \<noteq> None" if "g \<in> set (s_pgroup (p_slot s i)) \<or> g \<in> set (s_session (p_slot s i))" for g i
    by (rule exact(5)[OF that])
  show "\<exists>k. p_task s a = Some k \<and> k_pid k = i" if "s_task (p_slot s i) = Some a" for i a
    using pt_okD(2)[OF ok] that by (simp add: slots_ok_def)
  fix a k assume k: "p_task s a = Some k"
  show "s_task (p_slot s (k_pid k)) = Some a" "p_group s (k_group k) \<noteq> None"
    using pt_okD(5)[OF ok k] by (auto simp: task_ok_def tied_def)
  show "p_task s p \<noteq> None" if "k_parent k = Some p" for p
  proof -
    have "k_on k = Some p" using pt_okD(5)[OF ok k] that by (simp add: task_ok_def)
    then show ?thesis by (rule parent_of[OF ok k]) simp
  qed
  show "a \<in> set (k_children kp) \<longleftrightarrow> k_parent k = Some p" if "p_task s p = Some kp" for p kp by (rule exact(1)[OF k that])
  show "a \<in> set (n_threads n) \<longleftrightarrow> k_group k = g \<and> \<not> exiting k" if "p_group s g = Some n" for g n by (rule exact(2)[OF k that])
qed

theorem table_is_consistent_witness: "s_task (p_slot first_state (k_pid first_task)) = Some 0"
  using table_is_consistent[OF first_reachable] first_running(1) by blast

text \<open>
  Claim C6. In a state reached under the conditions of the first claim, a clone that they allow and that fails, for want of memory or because the number of the child cannot be stored, in whatever stage, leaves every task,
  group, list and count as it was: only the next number and the next address to be given out differ.
\<close>

theorem failed_clone_is_undone:
  assumes "reachable s" "allowed cur (Clone flags guard fail) s" "sys_clone cur flags guard fail s = Some (e, s')" "e < 0"
  shows "s' = s\<lparr>p_cur := p_cur s', p_next := p_next s'\<rparr>"
proof -
  obtain k where k: "p_task s cur = Some k" "\<not> exiting k" and ca: "callable k (Clone flags guard fail) s"
    using assms(2) unfolding allowed_def by blast
  note l = ca[unfolded callable.simps]
  obtain r s'' where "sys_clone cur flags guard fail s = Some (r, s'')" "r < 0 \<longrightarrow> s'' = s\<lparr>p_cur := p_cur s'', p_next := p_next s''\<rparr>"
    using sys_clone_ok[OF reachable_ok[OF assms(1)] k conjunct1[OF l] conjunct1[OF conjunct2[OF l]] conjunct2[OF conjunct2[OF l]], of guard fail]
    by (elim exE conjE)
  with assms(3,4) show ?thesis by simp
qed

lemma first_tid_clone: "allowed 0 (Clone 0x100011 None Fail_Tid) first_state"
  unfolding allowed_def by (rule exI[of _ first_task]) (simp add: first_running first_left)

lemma first_tid_fails: "\<exists>s'. sys_clone 0 0x100011 None Fail_Tid first_state = Some (EFAULT, s')"
  by (simp add: clone_simps table_simps state_simps unjoin_group_def tgroup_free_def release_hand_of_def sighand_release_def sib_del_def task_destroy_def)

theorem failed_clone_is_undone_witness:
  "\<exists>s'. sys_clone 0 0x100011 None Fail_Tid first_state = Some (EFAULT, s') \<and> p_group s' = p_group first_state \<and> p_slot s' = p_slot first_state"
proof -
  obtain s' where s': "sys_clone 0 0x100011 None Fail_Tid first_state = Some (EFAULT, s')" using first_tid_fails by blast
  have "s' = first_state\<lparr>p_cur := p_cur s', p_next := p_next s'\<rparr>"
    by (rule failed_clone_is_undone[OF first_reachable first_tid_clone s']) simp
  then have "p_group s' = p_group first_state \<and> p_slot s' = p_slot first_state"
    by (metis procs.select_convs(2,5) procs.surjective procs.update_convs(6,7))
  with s' show ?thesis by blast
qed

text \<open>Claim C14. The search for a number ends exactly when some number from 1 to 32768 is free, and then gives a free one.\<close>

theorem number_search_ends:
  assumes "0 \<le> c" "c \<le> MAX_PID"
  shows "(\<exists>i. next_pid slots c = Some i) \<longleftrightarrow> (\<exists>i. 1 \<le> i \<and> i \<le> MAX_PID \<and> pid_empty (slots i))"
proof
  let ?P = "\<lambda>sl c i. 0 \<le> c \<longrightarrow> c \<le> MAX_PID \<longrightarrow> 1 \<le> i \<and> i \<le> MAX_PID \<and> pid_empty (sl i)"
  have free: "?P slots c i" if e: "next_pid slots c = Some i" for i
  proof (rule next_pid.raw_induct[of ?P, OF _ e])
    fix np sl c i
    assume IH: "\<And>sl c i. np sl c = Some i \<Longrightarrow> ?P sl c i"
      and "(let i = if 32768 < c + 1 then 1 else c + 1 in if pid_empty (sl i) then Some i else np sl i) = Some (i :: int)"
    then show "?P sl c i" using IH[of sl "if 32768 < c + 1 then 1 else c + 1" i] by (auto simp: Let_def split: if_splits)
  qed
  show "\<exists>i. 1 \<le> i \<and> i \<le> MAX_PID \<and> pid_empty (slots i)" if ex: "\<exists>i. next_pid slots c = Some i"
  proof -
    obtain i where "next_pid slots c = Some i" using ex by blast
    from free[OF this] assms show ?thesis by (intro exI[of _ i]) simp
  qed
  show "\<exists>i. next_pid slots c = Some i" if ex: "\<exists>i. 1 \<le> i \<and> i \<le> MAX_PID \<and> pid_empty (slots i)"
  proof -
    obtain j where j: "1 \<le> j" "j \<le> MAX_PID" "pid_empty (slots j)" using ex by (elim exE conjE)
    obtain i where "next_pid slots c = Some i" using next_pid_finds[of c j slots, OF assms j] by (elim exE conjE)
    then show ?thesis by (rule exI)
  qed
qed

theorem number_search_ends_witness: "\<exists>i. next_pid (p_slot first_state) 1 = Some i"
proof -
  have "\<exists>i. 1 \<le> i \<and> i \<le> MAX_PID \<and> pid_empty (p_slot first_state i)" using first_left unfolding pids_left_def .
  then show ?thesis using number_search_ends[of 1 "p_slot first_state"] by simp
qed

end
