(* ===== verification/Process_Jobs.thy ===== *)
theory Process_Jobs
  imports Process_Props
begin

text \<open>Claims about waiting, process groups and signals by number, and the places where the code does not keep the contract of the calls.\<close>

section \<open>Waiting\<close>

text \<open>The state after a zombie \<open>a\<close> with group \<open>g\<close> is gone: neither is left, in no list, and the other tasks have lost at most a child.\<close>

definition reaped :: "nat \<Rightarrow> nat \<Rightarrow> procs \<Rightarrow> procs \<Rightarrow> bool" where
  "reaped a g s s' \<longleftrightarrow> p_task s' a = None \<and> p_group s' g = None
     \<and> (\<forall>b k'. p_task s' b = Some k' \<longrightarrow> a \<notin> set (k_children k'))
     \<and> (\<forall>i. s_task (p_slot s' i) \<noteq> Some a \<and> g \<notin> set (s_pgroup (p_slot s' i)) \<and> g \<notin> set (s_session (p_slot s' i)))
     \<and> (\<forall>b. b \<noteq> a \<longrightarrow> map_option (\<lambda>k. k\<lparr>k_children := []\<rparr>) (p_task s' b) = map_option (\<lambda>k. k\<lparr>k_children := []\<rparr>) (p_task s b))"

lemma reap_zombie_now:
  assumes ok: "pt_ok s" and k: "p_task s a = Some k" "zombie k" and o: "options AND WNOWAIT = 0"
  shows "\<exists>n s'. p_group s (k_group k) = Some n \<and> n_leader n = a
     \<and> reap_if_zombie a options i s = Some (True, i\<lparr>ci_status := (if n_group_exit n then g_exit_code (n_state n) else k_exit_code k)\<rparr>, s')
     \<and> reaped a (k_group k) s s' \<and> s_task (p_slot s' (k_pid k)) = None"
proof -
  have t: "tied s a k" "exiting k" using pt_okD(5)[OF ok k(1)] k(2) by (simp_all add: task_ok_def)
  then obtain n where n: "p_group s (k_group k) = Some n" "n_leader n = a" by (auto simp: tied_def)
  obtain s' where s': "free_group a s = Some s'" "pt_okx ({} - {a}) ({} - {a}) s'" "p_task s' a = None"
    "\<forall>b kb. b \<noteq> a \<longrightarrow> p_task s b = Some kb \<longrightarrow> (\<exists>cs. p_task s' b = Some (kb\<lparr>k_children := cs\<rparr>) \<and> set cs \<subseteq> set (k_children kb))"
    "\<forall>g n. p_group s' g = Some n \<longrightarrow> (\<exists>n0. p_group s g = Some n0 \<and> loose_group n0 n)"
    "\<forall>b. p_task s' b \<noteq> None \<longrightarrow> p_task s b \<noteq> None" by (rule free_group_ok[OF ok k t(1)])
  have ok': "pt_ok s'" using s'(2) by simp
  have g': "p_group s' (k_group k) = None"
  proof (rule ccontr)
    assume "p_group s' (k_group k) \<noteq> None"
    then obtain m where m: "p_group s' (k_group k) = Some m" by blast
    then have "n_leader m = a" using s'(5) n by (fastforce simp: loose_group_def)
    then show False using leader_is[OF ok' m] s'(3) by auto
  qed
  note exact = lists_exact[OF ok']
  have "reaped a (k_group k) s s'" unfolding reaped_def
  proof (intro conjI allI impI s'(3) g')
    show "a \<notin> set (k_children k')" if b: "p_task s' b = Some k'" for b k'
    proof
      assume "a \<in> set (k_children k')"
      then have "child_at s' a = Some b" using linkedD(1)[OF listsD(1)[OF pt_okD(1)[OF ok']], of a b] b by (simp add: children_of_def)
      then show False using s'(3) by (simp add: child_at_def)
    qed
    show "s_task (p_slot s' i) \<noteq> Some a" for i using pt_okD(2)[OF ok'] s'(3) by (fastforce simp: slots_ok_def)
    show "k_group k \<notin> set (s_pgroup (p_slot s' i))" "k_group k \<notin> set (s_session (p_slot s' i))" for i using exact(5)[of "k_group k" i] g' by blast+
    show "map_option (\<lambda>k. k\<lparr>k_children := []\<rparr>) (p_task s' b) = map_option (\<lambda>k. k\<lparr>k_children := []\<rparr>) (p_task s b)" if "b \<noteq> a" for b
      using s'(4,6) that by (cases "p_task s b") fastforce+
  qed
  moreover have "s_task (p_slot s' (k_pid k)) = None"
  proof (rule ccontr)
    assume "s_task (p_slot s' (k_pid k)) \<noteq> None"
    then obtain b where "s_task (p_slot s' (k_pid k)) = Some b" by blast
    then obtain kb where b: "p_task s' b = Some kb" "k_pid kb = k_pid k" using pt_okD(2)[OF ok'] by (auto simp: slots_ok_def)
    have ba: "b \<noteq> a" using b(1) s'(3) by auto
    obtain k0 where k0: "p_task s b = Some k0" using s'(6) b(1) by blast
    then have "k_pid k0 = k_pid kb" using s'(4) ba b(1) by fastforce
    then show False using one_task[OF ok k0 k(1)] b(2) ba by simp
  qed
  ultimately show ?thesis using n k s'(1) o by (auto simp: reap_if_zombie_def zombie_def Let_def)
qed

text \<open>
  Claim C13. In a state reached under the conditions of the first claim, a wait for the number of a child that is a zombie, when the parent
  is in the caller's group and only exits are asked for, is answered at once with the child's number and its code (the code of the group if
  the group was ended as a whole). The child and its group are gone, from the lists of its parent, of process groups and of sessions too, and
  the other tasks are as they were but for their lists of children. The number leads to no task, and can be given out again
  unless a process group or a session of others still goes by it.
\<close>

theorem wait_reaps_the_child:
  assumes "reachable s" "p_task s cur = Some c" "pid_get_task_zombie s wid = Some a" "p_task s a = Some k" "zombie k"
    and "k_parent k = Some p" "p_task s p = Some kp" "k_group kp = k_group c"
    and "options AND WUNTRACED = 0" "options AND WCONTINUED = 0" "options AND WEXITED \<noteq> 0" "options AND WNOWAIT = 0"
  shows "\<exists>n f s'. p_group s (k_group k) = Some n \<and> wait_pass cur P_PID wid options i s = Some (Found f, s') \<and> ci_pid f = wid
     \<and> ci_status f = (if n_group_exit n then g_exit_code (n_state n) else k_exit_code k) \<and> reaped a (k_group k) s s'
     \<and> s_task (p_slot s' wid) = None \<and> (s_pgroup (p_slot s' wid) = [] \<and> s_session (p_slot s' wid) = [] \<longrightarrow> pid_empty (p_slot s' wid))"
proof -
  have ok: "pt_ok s" by (rule reachable_ok[OF assms(1)])
  have "s_task (p_slot s wid) = Some a" using assms(3) by (auto simp: pid_get_task_zombie_def pid_get_def split: if_splits option.splits)
  then have pid: "k_pid k = wid" using pt_okD(2)[OF ok] assms(4) by (fastforce simp: slots_ok_def)
  let ?i = "i\<lparr>ci_pid := wid, ci_uid := k_uid k\<rparr>"
  obtain n s' where n: "p_group s (k_group k) = Some n" "n_leader n = a"
    "reap_if_zombie a options ?i s = Some (True, ?i\<lparr>ci_status := (if n_group_exit n then g_exit_code (n_state n) else k_exit_code k)\<rparr>, s')"
    "s_task (p_slot s' (k_pid k)) = None" "reaped a (k_group k) s s'" using reap_zombie_now[OF ok assms(4,5,12), of ?i] by blast
  obtain nc where nc: "p_group s (k_group c) = Some nc" using pt_ok_group[OF ok assms(2)] by blast
  define f where "f = ?i\<lparr>ci_status := (if n_group_exit n then g_exit_code (n_state n) else k_exit_code k), ci_sig := SIGCHLD\<rparr>"
  have "wait_pass cur P_PID wid options i s = Some (Found f, s')"
    using assms n(1-3) nc by (simp add: wait_pass_def reap_if_needed_def f_def)
  moreover have "ci_pid f = wid" "ci_status f = (if n_group_exit n then g_exit_code (n_state n) else k_exit_code k)" by (simp_all add: f_def)
  ultimately show ?thesis using n(1,4,5) pid by (intro exI[of _ n] exI[of _ f] exI[of _ s'] conjI impI) (simp_all add: pid_empty_def)
qed

text \<open>A child of the first process that has exited.\<close>

definition one_zombie :: procs where
  "one_zombie = (case sys_clone 0 17 None No_Failure first_state of Some (_, s) \<Rightarrow>
     (case do_exit 3 0x2a00 [] s of Some (Exited s1) \<Rightarrow> s1 | _ \<Rightarrow> first_state) | None \<Rightarrow> first_state)"

lemma one_zombie_facts:
  "p_task one_zombie 0 = Some (first_task\<lparr>k_children := [3]\<rparr>)" "pid_get_task_zombie one_zombie 2 = Some 3"
  "\<exists>k. p_task one_zombie 3 = Some k \<and> zombie k \<and> k_parent k = Some 0 \<and> k_exit_code k = 0x2a00 \<and> k_group k = 5"
  "\<exists>n. p_group one_zombie 5 = Some n \<and> \<not> n_group_exit n"
  by (simp_all add: one_zombie_def clone_simps table_simps state_simps exit_simps signal_simps send_signal_def signal_action_def default_action_def no_action_def
    NUM_SIGS_def zombie_def)

lemmas run_simps = clone_simps table_simps state_simps exit_simps signal_simps send_signal_def signal_action_def default_action_def
  no_action_def NUM_SIGS_def

fun run :: "(nat \<times> call) list \<Rightarrow> procs \<Rightarrow> procs option" where
  "run [] s = Some s"
| "run ((cur, c) # cs) s = (case perform cur c s of Some (Exited s') \<Rightarrow> run cs s' | _ \<Rightarrow> None)"

text \<open>Whether every call of the run is allowed; the last number is free throughout.\<close>

fun may_run :: "(nat \<times> call) list \<Rightarrow> procs \<Rightarrow> bool" where
  "may_run [] s \<longleftrightarrow> True"
| "may_run ((cur, c) # cs) s \<longleftrightarrow> (case p_task s cur of None \<Rightarrow> False | Some k \<Rightarrow> \<not> exiting k
     \<and> (case c of Clone flags _ _ \<Rightarrow> pid_empty (p_slot s MAX_PID) \<and> (flags AND CLONE_THREAD = 0 \<or> k_pid k \<noteq> 1) \<and> uint (flags AND CSIGNAL) \<le> 64
        | Kill pid sig tgid \<Rightarrow> kill_finds k pid sig s | _ \<Rightarrow> True)) \<and> (case perform cur c s of Some (Exited s') \<Rightarrow> may_run cs s' | _ \<Rightarrow> False)"

lemma may_allowed:
  assumes "may_run ((cur, c) # cs) s"
  shows "allowed cur c s" "\<exists>s'. perform cur c s = Some (Exited s') \<and> may_run cs s'"
proof -
  obtain k where k: "p_task s cur = Some k" "\<not> exiting k" "case c of Clone flags _ _ \<Rightarrow> pid_empty (p_slot s MAX_PID)
      \<and> (flags AND CLONE_THREAD = 0 \<or> k_pid k \<noteq> 1) \<and> uint (flags AND CSIGNAL) \<le> 64
      | Kill pid sig tgid \<Rightarrow> kill_finds k pid sig s | _ \<Rightarrow> True"
    using assms by (auto split: option.splits)
  have left: "pids_left s" if "pid_empty (p_slot s MAX_PID)" unfolding pids_left_def by (rule exI[of _ MAX_PID]) (simp add: that)
  have "callable k c s"
  proof (cases c)
    case (Clone flags guard fail)
    note x = k(3)[unfolded Clone call.case]
    show ?thesis unfolding Clone callable.simps
      by (intro conjI impI left conjunct1[OF x] conjunct2[OF conjunct2[OF x]]) (use conjunct1[OF conjunct2[OF x]] in blast)
  qed (use k(3) in simp_all)
  with k show "allowed cur c s" unfolding allowed_def by blast
  show "\<exists>s'. perform cur c s = Some (Exited s') \<and> may_run cs s'" using assms by (auto split: option.splits exited.splits)
qed

lemma run_reachable: "reachable s \<Longrightarrow> may_run cs s \<Longrightarrow> \<exists>s'. run cs s = Some s' \<and> reachable s'"
proof (induction cs arbitrary: s)
  case (Cons x cs)
  obtain cur c where x: "x = (cur, c)" by (cases x)
  obtain s1 where s1: "perform cur c s = Some (Exited s1)" "may_run cs s1" using may_allowed(2)[of cur c cs s] Cons.prems(2) x by blast
  have "reachable s1" by (rule reachable.call[OF Cons.prems(1) may_allowed(1)[of cur c cs] s1(1)]) (use Cons.prems(2) x in simp)
  from Cons.IH[OF this s1(2)] s1(1) show ?case by (simp add: x)
qed simp

definition zombie_run :: "(nat \<times> call) list" where
  "zombie_run = [(0, Clone 17 None No_Failure), (3, Exit 0x2a00 [])]"

lemma zombie_runs: "run zombie_run first_state = Some one_zombie" "may_run zombie_run first_state"
  by (simp_all add: zombie_run_def one_zombie_def run_simps exiting_def)

lemma one_zombie_reachable: "reachable one_zombie"
  using run_reachable[OF first_reachable zombie_runs(2)] zombie_runs(1) by simp

theorem wait_reaps_the_child_witness:
  "\<exists>f s'. wait_pass 0 P_PID 2 WEXITED no_child one_zombie = Some (Found f, s') \<and> ci_pid f = 2 \<and> ci_status f = 0x2a00
     \<and> reaped 3 5 one_zombie s' \<and> s_task (p_slot s' 2) = None"
proof -
  obtain k where k: "p_task one_zombie 3 = Some k" "zombie k" "k_parent k = Some 0" "k_exit_code k = 0x2a00" "k_group k = 5"
    using one_zombie_facts(3) by blast
  have g: "k_group (first_task\<lparr>k_children := [3]\<rparr>) = k_group (first_task\<lparr>k_children := [3]\<rparr>)" by simp
  obtain n f s' where "p_group one_zombie (k_group k) = Some n" "wait_pass 0 P_PID 2 WEXITED no_child one_zombie = Some (Found f, s')" "ci_pid f = 2"
     "ci_status f = (if n_group_exit n then g_exit_code (n_state n) else k_exit_code k)" "reaped 3 (k_group k) one_zombie s'" "s_task (p_slot s' 2) = None"
    using wait_reaps_the_child[OF one_zombie_reachable one_zombie_facts(1,2) k(1-3) one_zombie_facts(1) g, of WEXITED no_child] by auto
  then show ?thesis using k(4,5) one_zombie_facts(4) by auto
qed

end
