(* ===== verification/Process_Faults.thy ===== *)
theory Process_Faults
  imports Process_Jobs
begin

text \<open>
  The decoding of status words, and the places where the code does not keep the
  contract of its calls: each is shown on the model, with the state that leads to it.
\<close>

section \<open>Status words\<close>

lemma small_word:
  fixes w :: u32
  assumes "w \<noteq> 0" "w \<le> 64"
  obtains n :: nat where "n \<in> set [1..<65]" "w = word_of_nat n"
proof (rule that[of "unat w"])
  have "unat w \<le> 64" "unat w \<noteq> 0" using assms by (simp_all add: word_le_nat_alt unat_eq_0)
  then show "unat w \<in> set [1..<65]" by simp
qed simp

lemma decode_killed: "\<forall>n \<in> set [1..<65]. waitid_decode_status (i\<lparr>ci_status := word_of_nat n\<rparr>)
    = i\<lparr>ci_sig := SIGCHLD, ci_code := CLD_KILLED, ci_status := word_of_nat n\<rparr>"
  by (simp add: waitid_decode_status_def upt_rec)

lemma decode_stopped: "\<forall>n \<in> set [1..<65]. ci_code i \<noteq> CLD_TRAPPED \<longrightarrow>
    waitid_decode_status (i\<lparr>ci_status := push_bit 8 (word_of_nat n) OR 0x7f\<rparr>)
    = i\<lparr>ci_sig := SIGCHLD, ci_code := CLD_STOPPED, ci_status := word_of_nat n\<rparr>"
  by (simp add: waitid_decode_status_def upt_rec)

text \<open>
  Claim C15. The status words that the exits, the fatal signals, the stops and the continues of the kernel are packed into are decoded
  by waitid to the code and the value they were made from.
\<close>

theorem status_words_are_decoded:
  assumes "ci_code i \<noteq> CLD_TRAPPED"
  shows "(\<forall>c. waitid_decode_status (i\<lparr>ci_status := push_bit 8 c\<rparr>) = i\<lparr>ci_sig := SIGCHLD, ci_code := CLD_EXITED, ci_status := c AND 0xff\<rparr>)
    \<and> (\<forall>sig. sig \<noteq> 0 \<and> sig \<le> 64 \<longrightarrow> waitid_decode_status (i\<lparr>ci_status := sig\<rparr>)
         = i\<lparr>ci_sig := SIGCHLD, ci_code := CLD_KILLED, ci_status := sig\<rparr>)
    \<and> (\<forall>sig. sig \<noteq> 0 \<and> sig \<le> 64 \<longrightarrow> waitid_decode_status (i\<lparr>ci_status := push_bit 8 sig OR 0x7f\<rparr>)
         = i\<lparr>ci_sig := SIGCHLD, ci_code := CLD_STOPPED, ci_status := sig\<rparr>)
    \<and> waitid_decode_status (i\<lparr>ci_status := 0xffff\<rparr>) = i\<lparr>ci_sig := SIGCHLD, ci_code := CLD_CONTINUED, ci_status := word_of_int SIGCONT\<rparr>"
proof (intro conjI allI impI)
  fix c :: u32
  have m: "0xff = (mask 8 :: u32)" "0x7f = (mask 7 :: u32)" by (simp_all add: mask_eq_exp_minus_1)
  have z: "push_bit 8 c AND mask 8 = 0" "push_bit 8 c AND mask 7 = 0" by (rule bit_word_eqI; simp add: bit_simps)+
  have d: "drop_bit 8 (push_bit 8 c) AND mask 8 = c AND mask 8" by (rule bit_word_eqI) (auto simp: bit_simps)
  have "push_bit 8 c \<noteq> 0xffff"
  proof
    assume "push_bit 8 c = 0xffff"
    then have "push_bit 8 c AND 0xff = (0xffff AND 0xff :: u32)" by simp
    then show False using z(1) unfolding m(1)[symmetric] by simp
  qed
  then show "waitid_decode_status (i\<lparr>ci_status := push_bit 8 c\<rparr>) = i\<lparr>ci_sig := SIGCHLD, ci_code := CLD_EXITED, ci_status := c AND 0xff\<rparr>"
    using z d by (simp add: waitid_decode_status_def Let_def m)
next
  fix sig :: u32 assume s: "sig \<noteq> 0 \<and> sig \<le> 64"
  then obtain n :: nat where n: "n \<in> set [1..<65]" "sig = word_of_nat n" using small_word by blast
  show "waitid_decode_status (i\<lparr>ci_status := sig\<rparr>) = i\<lparr>ci_sig := SIGCHLD, ci_code := CLD_KILLED, ci_status := sig\<rparr>"
    unfolding n(2) by (rule bspec[OF decode_killed n(1)])
  show "waitid_decode_status (i\<lparr>ci_status := push_bit 8 sig OR 0x7f\<rparr>) = i\<lparr>ci_sig := SIGCHLD, ci_code := CLD_STOPPED, ci_status := sig\<rparr>"
    unfolding n(2) by (rule mp[OF bspec[OF decode_stopped n(1)] assms])
qed (simp add: waitid_decode_status_def)

theorem status_words_are_decoded_witness:
  "waitid_decode_status (no_child\<lparr>ci_status := push_bit 8 31\<rparr>) = no_child\<lparr>ci_sig := SIGCHLD, ci_code := CLD_EXITED, ci_status := 31\<rparr>"
proof -
  have "ci_code no_child \<noteq> CLD_TRAPPED" by (simp add: no_child_def)
  note d = conjunct1[OF status_words_are_decoded[OF this]]
  show ?thesis using d[THEN spec, of 31] by simp
qed

section \<open>Waiting for any child\<close>

lemma scan_no_children:
  assumes "p_task s cur = Some c" "k_children c = []"
  shows "scan_threads cur pgid options ts seen i s = Some (None, seen, i, s)"
  using assms by (induction ts arbitrary: i) simp_all

text \<open>
  A wait for any child, or for a process group, by a thread that has made no children itself fails with ECHILD, whatever children the
  other threads of its process have: the scan walks the children of the caller once for each thread instead of those of each thread.
\<close>

theorem wait_any_misses_other_threads:
  assumes "p_task s cur = Some c" "p_group s (k_group c) = Some n" "k_children c = []" "idtype \<noteq> P_PID"
  shows "wait_pass cur idtype wid options i s = Some (Failed ECHILD, s)"
  using assms scan_no_children[OF assms(1,3)] by (simp add: wait_pass_def)

text \<open>Process 2 (at 3) makes thread 3 (at 6), then process 4 (at 7), which exits; thread 3 waits for any child.\<close>

definition thread_run :: "(nat \<times> call) list" where
  "thread_run = [(0, Clone 17 None No_Failure), (3, Clone 0x10f00 None No_Failure), (3, Clone 17 None No_Failure), (7, Exit 0 [])]"

theorem wait_any_misses_other_threads_witness:
  "case run thread_run first_state of None \<Rightarrow> False | Some s \<Rightarrow>
     wait_pass 6 P_ALL 0 WEXITED no_child s = Some (Failed ECHILD, s)
     \<and> (\<exists>f s'. wait_pass 3 P_ALL 0 WEXITED no_child s = Some (Found f, s') \<and> ci_pid f = 4)
     \<and> map_option k_group (p_task s 3) = map_option k_group (p_task s 6)"
proof -
  have "\<exists>s c n. run thread_run first_state = Some s \<and> p_task s 6 = Some c \<and> p_group s (k_group c) = Some n \<and> k_children c = []
      \<and> (\<exists>f s'. wait_pass 3 P_ALL 0 WEXITED no_child s = Some (Found f, s') \<and> ci_pid f = 4)
      \<and> map_option k_group (p_task s 3) = map_option k_group (p_task s 6)"
    by (simp add: thread_run_def run_simps wait_pass_def reap_if_needed_def reap_if_zombie_def no_child_def)
  then obtain s c n where s: "run thread_run first_state = Some s" "p_task s 6 = Some c" "p_group s (k_group c) = Some n" "k_children c = []"
      "\<exists>f s'. wait_pass 3 P_ALL 0 WEXITED no_child s = Some (Found f, s') \<and> ci_pid f = 4"
      "map_option k_group (p_task s 3) = map_option k_group (p_task s 6)" by blast
  have "wait_pass 6 P_ALL 0 WEXITED no_child s = Some (Failed ECHILD, s)"
    by (rule wait_any_misses_other_threads[OF s(2-4)]) simp
  with s show ?thesis by simp
qed

section \<open>Process groups\<close>

text \<open>
  Claim C36. A successful setpgid that moves a process to the group of another files it under its own number: the field says it is in
  the new group, the list of that group does not have it, and a signal to the group does not reach it.
\<close>

theorem setpgid_files_under_own_number:
  assumes "reachable s" "sys_setpgid cur i pgid s = Some (0, s')" "i \<noteq> 0" "pgid \<noteq> 0" "i \<noteq> pgid"
    and "pid_get_task_zombie s i = Some a" "p_task s a = Some k" "p_group s (k_group k) = Some n" "n_pgid n \<noteq> pgid"
  shows "(\<exists>n'. p_group s' (k_group k) = Some n' \<and> n_pgid n' = pgid) \<and> k_group k \<notin> set (s_pgroup (p_slot s' pgid))
    \<and> k_group k \<in> set (s_pgroup (p_slot s' i))"
proof -
  have ok: "pt_ok s" by (rule reachable_ok[OF assms(1)])
  obtain s1 s2 s3 where m: "pg_del (k_group k) s = Some s1" "upd_group (k_group k) (\<lambda>n. n\<lparr>n_pgid := pgid\<rparr>) s1 = Some s2"
      "pg_add i (k_group k) s2 = Some s3" "pt_ok s3" "pgroup_at s3 = (pgroup_at s)(k_group k := Some i)"
      "p_group s3 (k_group k) = Some (n\<lparr>n_pgid := pgid, n_pgroup_at := Some i\<rparr>)"
    using move_pgroup[OF ok assms(8), of pgid i] by (elim exE conjE)
  obtain l where l: "p_task s (n_leader n) = Some l" using leader_is[OF ok assms(8)] by blast
  obtain c e where c: "p_task s cur = Some c" "join_check s i pgid n = Some e"
    using assms(2-8) by (auto simp: sys_setpgid_def Let_def split: Option.bind_splits)
  have "e \<noteq> Some 0" using c(2) by (auto simp: join_check_def split: option.splits list.splits Option.bind_splits if_splits)
  then have "s' = s3" using assms(2-9) c l m(1-3)
    by (simp add: sys_setpgid_def Let_def split: option.splits if_splits)
  moreover have "linked (pgroup_of s3) (pgroup_at s3)" using listsD(3)[OF pt_okD(1)[OF m(4)]] .
  then have "k_group k \<in> set (pgroup_of s3 x) \<longleftrightarrow> x = i" for x using linkedD(1)[of "pgroup_of s3" "pgroup_at s3" "k_group k" x] m(5) by auto
  ultimately show ?thesis using m(6) assms(5) by (simp add: pgroup_of_def)
qed

text \<open>Processes 2 and 3; process 2 leads a group of its own, and process 3 is moved into it.\<close>

definition group_run :: "(nat \<times> call) list" where
  "group_run = [(0, Clone 17 None No_Failure), (0, Clone 17 None No_Failure), (0, Setpgid 2 2)]"

theorem setpgid_files_under_own_number_witness:
  "case run group_run first_state of None \<Rightarrow> False | Some s \<Rightarrow>
     (case sys_setpgid 0 3 2 s of None \<Rightarrow> False | Some (r, s') \<Rightarrow> r = 0 \<and> 8 \<notin> set (s_pgroup (p_slot s' 2)) \<and> 8 \<in> set (s_pgroup (p_slot s' 3)))"
proof -
  have "\<exists>s. run group_run first_state = Some s \<and> (\<exists>s'. sys_setpgid 0 3 2 s = Some (0, s')) \<and> pid_get_task_zombie s 3 = Some 6
      \<and> (\<exists>k. p_task s 6 = Some k \<and> k_group k = 8) \<and> (\<exists>n. p_group s 8 = Some n \<and> n_pgid n \<noteq> 2)"
    by (simp add: group_run_def run_simps sys_setpgid_def join_check_def)
  moreover have "may_run group_run first_state"
    by (simp add: group_run_def run_simps sys_setpgid_def join_check_def exiting_def)
  moreover note run_reachable[OF first_reachable, of group_run]
  ultimately obtain s s' k n where s: "run group_run first_state = Some s" "reachable s" "sys_setpgid 0 3 2 s = Some (0, s')"
      "pid_get_task_zombie s 3 = Some 6" "p_task s 6 = Some k" "k_group k = 8" "p_group s 8 = Some n" "n_pgid n \<noteq> 2" by auto
  have "p_group s (k_group k) = Some n" using s(6,7) by simp
  then have "8 \<notin> set (s_pgroup (p_slot s' 2)) \<and> 8 \<in> set (s_pgroup (p_slot s' 3))"
    using setpgid_files_under_own_number[OF s(2,3) _ _ _ s(4,5) _ s(8)] s(6) by simp
  with s(1,3) show ?thesis by simp
qed

text \<open>
  A signal to the caller's own process group, when that group is 1 (the one the first process and all its
  descendants start in), is sent to every process of the system but the caller: the number is negated to -1 before it is looked at.
\<close>

theorem own_group_one_is_everything:
  assumes "p_task s cur = Some c" "p_group s (k_group c) = Some n" "n_pgid n = 1" "0 \<le> sig" "sig \<le> 64"
  shows "sys_kill cur 0 sig s = kill_everything cur sig s"
  using assms by (simp add: sys_kill_def do_kill_def)

lemma first_leads_one: "p_group first_state (k_group first_task) = Some first_group" "n_pgid first_group = 1"
  by (simp_all add: state_simps)

theorem own_group_one_is_everything_witness: "sys_kill 0 0 15 first_state = kill_everything 0 15 first_state"
  by (rule own_group_one_is_everything[OF first_running(1) first_leads_one]) simp_all

section \<open>Exits\<close>

lemma copy_keeps_exit_signal:
  assumes "copy_task a flags fail s = Some (e, s')" "\<not> e < 0" "p_task s' a = Some k"
  shows "k_exit_signal k = uint (flags AND CSIGNAL)"
proof -
  have "\<exists>s2. upd_task a (\<lambda>k. k\<lparr>k_exit_signal := uint (flags AND CSIGNAL)\<rparr>) s2 = Some s'"
    using assms(1,2) unfolding copy_task_def Let_def by (simp split: Option.bind_splits if_splits; blast)
  then obtain s2 where "upd_task a (\<lambda>k. k\<lparr>k_exit_signal := uint (flags AND CSIGNAL)\<rparr>) s2 = Some s'" by blast
  with assms(3) show ?thesis by (auto simp: upd_task_Some)
qed

lemma clone_body_Some:
  assumes "clone_body cur flags fail s = Some (r, s')" "0 < r"
  obtains a s1 e k where "copy_task a flags fail s1 = Some (e, s')" "\<not> e < 0" "p_task s' a = Some k" "k_pid k = r"
proof -
  obtain t s1 where t: "task_create (fail \<noteq> Fail_Task) (Some cur) s = Some (t, s1)"
    using assms by (cases "task_create (fail \<noteq> Fail_Task) (Some cur) s") (auto simp: clone_body_def)
  then obtain a where a: "t = Some a" using assms by (cases t) (simp_all add: clone_body_def)
  obtain e s2 where c: "copy_task a flags fail s1 = Some (e, s2)" using assms t a
    by (cases "copy_task a flags fail s1") (auto simp: clone_body_def)
  have e: "\<not> e < 0"
  proof
    assume "e < 0"
    then have "r = e" using assms(1) t a c by (cases "task_destroy a s2") (simp_all add: clone_body_def)
    with \<open>e < 0\<close> assms(2) show False by simp
  qed
  then obtain k where "p_task s2 a = Some k" "k_pid k = r" "s2 = s'" using assms(1) t a c by (cases "p_task s2 a") (simp_all add: clone_body_def)
  with c e show thesis using that by blast
qed

lemma clone_keeps_exit_signal:
  assumes "sys_clone cur flags guard fail s = Some (r, s')" "0 < r"
  shows "\<exists>a k. p_task s' a = Some k \<and> k_pid k = r \<and> k_exit_signal k = uint (flags AND CSIGNAL)"
proof -
  have "clone_body cur flags fail s = Some (r, s')" using assms by (auto simp: sys_clone_def split: if_splits option.splits)
  then obtain a s1 e k where "copy_task a flags fail s1 = Some (e, s')" "\<not> e < 0" "p_task s' a = Some k" "k_pid k = r"
    by (rule clone_body_Some[OF _ assms(2)])
  with copy_keeps_exit_signal show ?thesis by blast
qed

lemma no_such_action:
  assumes "length (sh_action (h_sig r)) = NUM_SIGS" "64 < sig"
  shows "action_of (h_sig r) sig = None" "signal_action (h_sig r) sig = None"
  using assms by (simp_all add: action_of_def signal_action_def signal_is_blockable_def NUM_SIGS_def)

text \<open>
  Claim C37. Whatever exit signal a clone asks for is stored in the child: it is not checked. When the last thread of a group exits whose leader has an exit signal
  above 64 stored, and the parent is a running task with its own table of 65 actions, the notice to the parent looks up an action at that index, which
  the table does not have.
\<close>

theorem exit_signal_is_not_checked:
  assumes "sys_clone cur flags guard fail s = Some (r, s')" "0 < r"
    and "p_task t c = Some kc" "p_task t l = Some kl" "\<not> zombie kl" "64 < k_exit_signal kl" "k_parent kl = Some p" "p \<noteq> l" "p_task t p = Some kp"
    and "\<not> exiting kp" "\<not> zombie kp" "k_hand kp = Some h" "p_hand t h = Some a" "length (sh_action (h_sig a)) = NUM_SIGS"
  shows "(\<exists>b k. p_task s' b = Some k \<and> k_pid k = r \<and> k_exit_signal k = uint (flags AND CSIGNAL))
    \<and> action_of (h_sig a) (k_exit_signal kl) = None \<and> exit_notify c clocks l t = None"
proof (intro conjI)
  show "\<exists>b k. p_task s' b = Some k \<and> k_pid k = r \<and> k_exit_signal k = uint (flags AND CSIGNAL)" by (rule clone_keeps_exit_signal[OF assms(1,2)])
  note no = no_such_action[OF assms(14,6)]
  show "action_of (h_sig a) (k_exit_signal kl) = None" by (rule no(1))
  have "k_exit_signal kl \<noteq> SIGCHLD" "k_exit_signal kl \<noteq> 0" using assms(6) by auto
  then show "exit_notify c clocks l t = None"
    using assms(3-13) no(2) by (simp add: exit_notify_def auto_reaps_def upd_task_def send_task_def send_signal_def zombie_def exiting_def Let_def
      split: Option.bind_splits)
qed

theorem exit_signal_is_not_checked_witness:
  "\<exists>s'. sys_clone 0 200 None No_Failure first_state = Some (2, s') \<and> action_of sighand_new 200 = None \<and> exit_notify 3 [] 3 s' = None"
proof -
  obtain s' kl where c: "sys_clone 0 200 None No_Failure first_state = Some (2, s')" "p_task s' 3 = Some kl" "\<not> zombie kl" "k_exit_signal kl = 200"
    "k_parent kl = Some 0" "p_task s' 0 = Some (first_task\<lparr>k_children := [3]\<rparr>)" "p_hand s' 2 = Some \<lparr>h_refs = 1, h_sig = sighand_new\<rparr>"
    by (simp add: run_simps zombie_def)
  have "action_of (h_sig \<lparr>h_refs = 1, h_sig = sighand_new\<rparr>) (k_exit_signal kl) = None \<and> exit_notify 3 [] 3 s' = None"
    using exit_signal_is_not_checked[OF c(1) _ c(2,2,3) _ c(5) _ c(6) _ _ _ c(7), of "[]"] c(4)
    by (simp add: first_task_def zero_task_def fresh_stask_def zombie_def exiting_def sighand_new_def)
  with c(1,4) show ?thesis by auto
qed

text \<open>
  Claim C35. When the last thread of a group to exit is not its leader, and the leader is the main thread of process 1, which has exited but is no zombie yet, the
  exit does not halt the system: the leader becomes its own parent and a zombie, nothing else changes, and process 1 can no longer be found.
\<close>

theorem first_process_without_main_thread:
  assumes "p_task s cur = Some k" "k_pid k \<noteq> 1" "s_task (p_slot s 1) = Some l" "p_task s l = Some kl" "k_parent kl = None"
    and "\<not> zombie kl" "k_hand kl = None"
  shows "exit_notify cur clocks l s = Some (Exited (False, s\<lparr>p_task := (p_task s)(l \<mapsto> kl\<lparr>k_parent := Some l, k_sig := (k_sig kl)\<lparr>t_zombie := True\<rparr>\<rparr>)\<rparr>))
    \<and> pid_get_task (s\<lparr>p_task := (p_task s)(l \<mapsto> kl\<lparr>k_parent := Some l, k_sig := (k_sig kl)\<lparr>t_zombie := True\<rparr>\<rparr>)\<rparr>) 1 = Some None"
  using assms by (auto simp: exit_notify_def auto_reaps_def send_task_def upd_task_def pid_get_task_def pid_get_task_zombie_def pid_get_def pid_empty_def
    zombie_def Let_def)

text \<open>Process 1 makes a thread (at 3), and its main thread exits.\<close>

theorem first_process_without_main_thread_witness:
  "\<exists>s s' k. do { (r, s) \<leftarrow> sys_clone 0 0x10f00 None No_Failure first_state;
        e \<leftarrow> do_exit 0 0 [] s;
        case e of Halted \<Rightarrow> None | Exited s1 \<Rightarrow> Some s1 } = Some s
     \<and> exit_notify 3 [] 0 s = Some (Exited (False, s')) \<and> p_task s' 0 = Some k \<and> k_parent k = Some 0 \<and> zombie k"
proof -
  obtain s k kl where s: "do { (r, s) \<leftarrow> sys_clone 0 0x10f00 None No_Failure first_state;
        e \<leftarrow> do_exit 0 0 [] s;
        case e of Halted \<Rightarrow> None | Exited s1 \<Rightarrow> Some s1 } = Some s" "p_task s 3 = Some k" "k_pid k \<noteq> 1" "s_task (p_slot s 1) = Some 0"
    "p_task s 0 = Some kl" "k_parent kl = None" "\<not> zombie kl" "k_hand kl = None"
    by (simp add: run_simps zombie_def)
  have "exit_notify 3 [] 0 s = Some (Exited (False, s\<lparr>p_task := (p_task s)(0 \<mapsto> kl\<lparr>k_parent := Some 0, k_sig := (k_sig kl)\<lparr>t_zombie := True\<rparr>\<rparr>)\<rparr>))"
    by (rule conjunct1[OF first_process_without_main_thread[OF s(2-8)]])
  moreover have "zombie (kl\<lparr>k_parent := Some 0, k_sig := (k_sig kl)\<lparr>t_zombie := True\<rparr>\<rparr>)" by (simp add: zombie_def)
  ultimately show ?thesis using s(1) by fastforce
qed

text \<open>
  A signal to a process group of a number that nothing goes by unlocks \<^verbatim>\<open>pids_lock\<close> twice: \<^verbatim>\<open>kill_group\<close> has
  unlocked it when it returns, and \<^verbatim>\<open>do_kill\<close> unlocks it again.
\<close>

theorem kill_missing_group_unlocks_twice:
  assumes "p_task s cur = Some c" "p_group s (k_group c) \<noteq> None" "0 \<le> sig" "sig \<le> 64" "pid < - 1" "pid_get s (- pid) = None"
  shows "kill_group cur (- pid) sig s = Some (ESRCH, False, s) \<and> sys_kill cur pid sig s = None"
  using assms by (auto simp: kill_group_def sys_kill_def do_kill_def)

theorem kill_missing_group_unlocks_twice_witness: "kill_group 0 7 15 first_state = Some (ESRCH, False, first_state) \<and> sys_kill 0 (- 7) 15 first_state = None"
  using kill_missing_group_unlocks_twice[OF first_running(1), of 15 "- 7"] by (simp add: state_simps pid_get_def pid_empty_def)

text \<open>
  A process forked by one that was continued after a stop reports, to a wait for continued children, a continue that it never had:
  the copy of the group keeps the mark.
\<close>

theorem fork_copies_continued_mark:
  "\<exists>f s'. do { (r, s) \<leftarrow> sys_clone 0 17 None No_Failure
            (first_state\<lparr>p_group := [1 \<mapsto> first_group\<lparr>n_state := \<lparr>g_stopped = False, g_continued = True, g_exit_code = 0\<rparr>\<rparr>]\<rparr>);
          wait_pass 0 P_PID r WCONTINUED no_child s } = Some (Found f, s') \<and> ci_pid f = 2 \<and> ci_status f = 0xffff"
  by (simp add: run_simps wait_pass_def reap_if_needed_def notify_if_continued_def no_child_def)

section \<open>Terminals of sessions, and the last number\<close>

text \<open>
  When a zombie is the last of a session that has a terminal, the leader of the session has been waited for and the zombie's process
  group has another number, waiting for it dereferences a null pointer: leaving the session empties the entry of the session's
  number, and then the entry is looked up again and used.
\<close>

theorem last_of_terminal_session_faults:
  assumes "p_task s a = Some k" "zombie k" "p_group s (k_group k) = Some n" "n_tty n = Some y" "options AND WNOWAIT = 0"
    and "n_session_at n = Some (n_sid n)" "p_slot s (n_sid n) = \<lparr>s_task = None, s_session = [k_group k], s_pgroup = []\<rparr>"
  shows "reap_if_zombie a options i s = None"
proof -
  obtain s1 where s1: "ses_del (k_group k) s = Some s1" using assms(3,6) by (simp add: ses_del_def upd_group_def upd_slot_def)
  then have "p_slot s1 (n_sid n) = \<lparr>s_task = None, s_session = [], s_pgroup = []\<rparr>"
    using assms(3,6,7) by (auto simp: ses_del_def upd_group_def upd_slot_def)
  then have "pid_get s1 (n_sid n) = None" by (simp add: pid_get_def pid_empty_def)
  then have "task_leave_session a s = None" using assms(1,3,4,6) s1 by (simp add: task_leave_session_def)
  then show ?thesis using assms(1-3,5) by (simp add: reap_if_zombie_def zombie_def free_group_def Let_def)
qed

text \<open>Process 3 alone in session 2, whose leader, process 2, is gone.\<close>

definition lone_task :: task where
  "lone_task = zero_task\<lparr>k_pid := 3, k_tgid := 3, k_group := 8, k_parent := Some 0, k_on := Some 0,
     k_sig := fresh_stask\<lparr>t_zombie := True, t_exiting := True\<rparr>\<rparr>"

definition lone_group :: tgroup where
  "lone_group = first_group\<lparr>n_threads := [], n_leader := 6, n_sid := 2, n_pgid := 3, n_pgroup_at := Some 3, n_session_at := Some 2, n_tty := Some 0\<rparr>"

definition session_state :: procs where
  "session_state = first_state\<lparr>p_task := (p_task first_state)(6 \<mapsto> lone_task), p_group := (p_group first_state)(8 \<mapsto> lone_group),
     p_tty := [0 \<mapsto> \<lparr>y_refs = 1, y_session = 2\<rparr>],
     p_slot := (p_slot first_state)(2 := \<lparr>s_task = None, s_session = [8], s_pgroup = []\<rparr>, 3 := \<lparr>s_task = Some 6, s_session = [], s_pgroup = [8]\<rparr>)\<rparr>"

theorem last_of_terminal_session_faults_witness: "reap_if_zombie 6 WEXITED no_child session_state = None"
  by (rule last_of_terminal_session_faults[of _ _ lone_task lone_group 0])
    (simp_all add: session_state_def lone_task_def lone_group_def zero_task_def first_group_def fresh_stask_def zombie_def)

lemma send_task_elsewhere:
  assumes "send_task cur a sig info s = Some s'"
  shows "b \<noteq> a \<Longrightarrow> p_task s' b = p_task s b" "p_slot s' = p_slot s"
  using assms by (auto simp: send_task_def upd_task_def upd_group_def split: Option.bind_splits option.splits if_splits)

lemma kill_next_elsewhere:
  assumes "kill_next cur sig es a = Some es'"
  shows "b \<noteq> a \<Longrightarrow> p_task (snd es') b = p_task (snd es) b" "p_slot (snd es') = p_slot (snd es)"
proof -
  obtain e s1 where k: "kill_task cur a sig (snd es) = Some (e, s1)" "snd es' = s1" using assms by (auto simp: kill_next_def split: Option.bind_splits)
  have "s1 = snd es \<or> (\<exists>info. send_task cur a sig info (snd es) = Some s1)"
    using k(1) by (auto simp: kill_task_def split: Option.bind_splits if_splits)
  then show "b \<noteq> a \<Longrightarrow> p_task (snd es') b = p_task (snd es) b" "p_slot (snd es') = p_slot (snd es)"
    using send_task_elsewhere k(2) by auto
qed

lemma iter_opt_invariant:
  assumes "\<And>y x y'. R y \<Longrightarrow> x \<in> set xs \<Longrightarrow> f y x = Some y' \<Longrightarrow> R y'" "R s" "iter_opt f s xs = Some s'"
  shows "R s'"
  using assms
proof (induction xs arbitrary: s)
  case (Cons x xs)
  obtain s1 where s1: "f s x = Some s1" "iter_opt f s1 xs = Some s'" using Cons.prems(3) by (cases "f s x") auto
  have "R s1" using Cons.prems(1)[OF Cons.prems(2) _ s1(1)] by simp
  from Cons.IH[OF _ this s1(2)] Cons.prems(1) show ?case by (meson list.set_intros(2))
qed simp

text \<open>
  A signal to every process leaves the process with the number 32768 as it was, although the numbers that are given out go up
  to 32768: the loop stops one short.
\<close>

theorem kill_all_misses_last_number:
  assumes "slots_ok s" "s_task (p_slot s MAX_PID) = Some b" "sys_kill cur (- 1) sig s = Some (e, s')" "0 \<le> sig" "sig \<le> 64"
  shows "p_task s' b = p_task s b"
proof -
  let ?f = "\<lambda>es i. do {
       a \<leftarrow> pid_get_task (snd es) i;
       case a of
         None \<Rightarrow> Some es
       | Some a \<Rightarrow>
           if a = cur then Some es
           else do {
             k \<leftarrow> p_task (snd es) a;
             n \<leftarrow> p_group (snd es) (k_group k);
             if n_leader n \<noteq> a then Some es else kill_next cur sig es a
           }
     }"
  let ?R = "\<lambda>es. p_task (snd es) b = p_task s b \<and> p_slot (snd es) = p_slot s"
  have step: "?R es'" if es: "?R es" "i \<noteq> MAX_PID" "?f es i = Some es'" for es i es'
  proof -
    have "es' = es \<or> (\<exists>a. s_task (p_slot s i) = Some a \<and> kill_next cur sig es a = Some es')"
      using es(1,3) by (auto simp: pid_get_task_def pid_get_task_zombie_def pid_get_def split: Option.bind_splits option.splits if_splits)
    moreover have "a \<noteq> b" if a: "s_task (p_slot s i) = Some a" for a
    proof
      assume "a = b"
      then show False using assms(1) a assms(2) es(2) unfolding slots_ok_def by (metis option.inject)
    qed
    ultimately show ?thesis using kill_next_elsewhere[of cur sig es _ es'] es(1) by (metis (no_types, lifting))
  qed
  have run: "?R y" if "iter_opt ?f (EPERM, s) xs = Some y" "MAX_PID \<notin> set xs" for xs y
  proof (rule iter_opt_invariant[OF _ _ that(1), where R = ?R])
    show "?R z'" if "?R z" "x \<in> set xs" "?f z x = Some z'" for z x z' using step[OF that(1) _ that(3)] that(2) \<open>MAX_PID \<notin> set xs\<close> by blast
  qed simp
  have "MAX_PID \<notin> set [2..MAX_PID - 1]" unfolding set_upto atLeastAtMost_iff by linarith
  moreover have "iter_opt ?f (EPERM, s) [2..MAX_PID - 1] = Some (e, s')"
    using assms(3-5) unfolding sys_kill_def do_kill_def kill_everything_def
    by (cases "p_task s cur"; simp only: bind.simps) (auto simp only: Let_def split: Option.bind_splits if_splits)
  ultimately have "?R (e, s')" by (intro run)
  then show ?thesis by simp
qed

definition last_state :: procs where
  "last_state = first_state\<lparr>p_task := (p_task first_state)(3 \<mapsto> first_task\<lparr>k_pid := MAX_PID\<rparr>),
     p_slot := (p_slot first_state)(MAX_PID := \<lparr>s_task = Some 3, s_session = [], s_pgroup = []\<rparr>)\<rparr>"

lemma kill_all_alone:
  assumes "\<And>i. 2 \<le> i \<Longrightarrow> i < MAX_PID \<Longrightarrow> pid_empty (p_slot s i)"
  shows "kill_everything cur sig s = Some (EPERM, s)"
proof -
  have step: "pid_get_task s i = Some None" if "2 \<le> i" "i < MAX_PID" for i
    using assms[OF that] by (auto simp: pid_get_task_def pid_get_task_zombie_def pid_get_def)
  have "iter_opt (\<lambda>es i. do {
       a \<leftarrow> pid_get_task (snd es) i;
       case a of
         None \<Rightarrow> Some es
       | Some a \<Rightarrow>
           if a = cur then Some es
           else do {
             k \<leftarrow> p_task (snd es) a;
             n \<leftarrow> p_group (snd es) (k_group k);
             if n_leader n \<noteq> a then Some es else kill_next cur sig es a
           }
     }) (EPERM, s) xs = Some (EPERM, s)" if "\<forall>x \<in> set xs. 2 \<le> x \<and> x < MAX_PID" for xs
    using that by (induction xs) (auto simp: step)
  moreover have "\<forall>x \<in> set [2..MAX_PID - 1]. 2 \<le> x \<and> x < MAX_PID" unfolding set_upto by simp
  ultimately show ?thesis unfolding kill_everything_def by blast
qed

theorem kill_all_misses_last_number_witness:
  "sys_kill 0 (- 1) 15 last_state = Some (EPERM, last_state) \<and> p_task last_state 3 \<noteq> None
   \<and> (case sys_kill 0 (- 1) 15 last_state of None \<Rightarrow> False | Some (e, s') \<Rightarrow> p_task s' 3 = p_task last_state 3)"
proof -
  have "kill_everything 0 15 last_state = Some (EPERM, last_state)"
    by (rule kill_all_alone) (simp add: last_state_def state_simps pid_empty_def)
  then have k: "sys_kill 0 (- 1) 15 last_state = Some (EPERM, last_state)" by (simp add: sys_kill_def do_kill_def last_state_def state_simps)
  have "slots_ok last_state" by (simp add: slots_ok_def last_state_def state_simps)
  moreover have "s_task (p_slot last_state MAX_PID) = Some 3" by (simp add: last_state_def)
  ultimately have "p_task last_state 3 = p_task last_state 3" using k by (rule kill_all_misses_last_number) simp_all
  with k show ?thesis by (simp add: last_state_def)
qed

end
