(* ===== verification/Spec2Isabelle.thy ===== *)
theory Spec2Isabelle
  imports Ish_Prelude Ring_Fifo Kernel_Errno Kernel_Log Posix_Locks Fd_Table Vector_Helpers Crypto_Helpers Memory_Calls Generic_Files Signal_Props Process_Faults
begin

text \<open>
  ShellBox runs 64-bit ARM Linux programs on another system: \<^verbatim>\<open>asbestos/\<close> translates guest code to chains
  of assembly gadgets, \<^verbatim>\<open>kernel/\<close> and \<^verbatim>\<open>fs/\<close> implement the system calls. A system call reaches the kernel
  from \<^verbatim>\<open>handle_interrupt\<close>; it reads and writes guest memory through \<^verbatim>\<open>kernel/user.c\<close>, which asks the address
  space (\<^verbatim>\<open>kernel/memory.c\<close>) for host pointers; file calls go from numbers (\<^verbatim>\<open>fs/fd.c\<close>) or paths
  (\<^verbatim>\<open>fs/path.c\<close>, \<^verbatim>\<open>fs/mount.c\<close>, \<^verbatim>\<open>fs/generic.c\<close>) to the operations of a file system.

  \<^bold>\<open>How the code is modelled.\<close> A C function is a HOL function from the state it uses to its result and the new
  state. \<open>None\<close> is what C leaves undefined or aborts on: an access outside a buffer, a freed object, a failing
  assertion. A negative result is a guest error number (\<open>Kernel_Errno\<close>). An operation
  that runs under a lock is one step, and concurrency is a sequence of such steps; the locks that are
  modelled are \<^verbatim>\<open>sighand->lock\<close>, because delivery can take it twice, and \<^verbatim>\<open>pids_lock\<close> in the kill family, which can
  unlock it twice. Code outside the
  repository (the host's system calls, the file systems' operations) is an argument or a field of the state.

  \<^bold>\<open>The theories and the code they model.\<close>
  \<^item> \<open>Ish_Prelude\<close>: C widths, bounded copies, \<^verbatim>\<open>size_t\<close> arithmetic, list lemmas that several theories share.
  \<^item> \<open>Ring_Fifo\<close> (\<^verbatim>\<open>util/fifo.c\<close>) and \<open>Kernel_Log\<close> (\<^verbatim>\<open>kernel/log.c\<close>): the ring buffer, whose contents are a list
    (locale \<open>byte_window\<close>, interpreted on the ring), and the log kept in one.
  \<^item> \<open>Kernel_Errno\<close> (\<^verbatim>\<open>kernel/errno.c\<close>): guest error numbers and their translation.
  \<^item> \<open>Fd_Table\<close> (\<^verbatim>\<open>fs/fd.c\<close>, \<^verbatim>\<open>util/bits.h\<close>): descriptions with reference counts, tables, \<^verbatim>\<open>dup\<close>, \<^verbatim>\<open>fcntl\<close>, \<^verbatim>\<open>close\<close>.
    The invariant \<open>fds_ok\<close> counts every holder; locale \<open>guarded_calls\<close> turns preservation by one call into a
    property of every run: it ends well, or it comes to a call with arguments that the code does not check (\<open>fd_call_hazard\<close>).
  \<^item> \<open>Posix_Locks\<close> (\<^verbatim>\<open>fs/lock.c\<close>): record locks, refined to a map from bytes to the locks that cover them
    (locale \<open>lock_table\<close>). Offsets wrap as \<^verbatim>\<open>off_t\<close> does; the theorems ask for ranges that are \<open>proper\<close> (not empty, and not from
    the least offset, where a wrap breaks the exclusion of locks).
  \<^item> \<open>Page_Table\<close>, \<open>Address_Space\<close> (\<^verbatim>\<open>kernel/memory.c\<close>): the four-level table (locale \<open>page_map\<close>: it is a map
    from page numbers to entries), mappings, reservations, copy-on-write, faults. \<open>Address_Props\<close>,
    \<open>Address_Faults\<close>, \<open>Address_Protect\<close> prove its invariant \<open>as_inv\<close> (reference counts of host mappings are exact)
    and what each operation does to what the guest sees (\<open>page_view\<close>).
  \<^item> \<open>User_Memory\<close>, \<open>User_Props\<close> (\<^verbatim>\<open>kernel/user.c\<close>): copies to and from the guest, as reads and updates of a map
    from addresses to bytes (\<open>mem_byte\<close>).
  \<^item> \<open>Fork_Isolation\<close>: what two processes that share pages after a fork can do to each other.
  \<^item> \<open>Memory_Map\<close>, \<open>Memory_Map_Props\<close>, \<open>Memory_Calls\<close> (\<^verbatim>\<open>kernel/mmap.c\<close>): the search for holes and the memory calls.
  \<^item> \<open>Mount_Table\<close> (\<^verbatim>\<open>fs/mount.c\<close>): the mount list and the lookup of the owner of a path (locale
    \<open>lookup_table\<close>).
  \<^item> \<open>Path_Walk\<close> (\<^verbatim>\<open>fs/path.c\<close>), \<open>Path_Spec\<close>, \<open>Path_Props\<close>: path resolution with its buffers, the walk over names
    it implements, and what follows for confinement and the cache.
  \<^item> \<open>Generic_Files\<close> (\<^verbatim>\<open>fs/generic.c\<close>): the calls by path, over parameters for the file systems.
  \<^item> \<open>Signal_State\<close>, \<open>Signal_Queue\<close> (\<^verbatim>\<open>kernel/signal.c\<close>, \<^verbatim>\<open>util/sync.c\<close>): masks, actions, sending and waiting; the invariant
    \<open>sig_ok\<close> ties the pending mask to the queue.
  \<^item> \<open>Signal_Frames\<close>, \<open>Signal_Delivery\<close>, \<open>Signal_Return\<close>, \<open>Signal_Props\<close> (\<^verbatim>\<open>kernel/signal.c\<close>): delivery with its frame as
    bytes on the guest's stack (locale \<open>guest_memory\<close>, interpreted on the copies of \<open>User_Memory\<close>), the way back
    through \<^verbatim>\<open>rt_sigreturn\<close>, and every run of sends, mask changes, deliveries and returns.
  \<^item> \<open>Process_Table\<close> (\<^verbatim>\<open>kernel/task.c\<close>, \<^verbatim>\<open>kernel/group.c\<close>) and \<open>Process_Calls\<close> (\<^verbatim>\<open>kernel/fork.c\<close>, \<^verbatim>\<open>kernel/exit.c\<close>,
    the kill family of \<^verbatim>\<open>kernel/signal.c\<close>): tasks, thread groups and shared signal actions by address, linked through
    intrusive lists that are filed under numbers. A freed address and a node that is in no list are \<open>None\<close> when used.
  \<^item> \<open>Process_Inv\<close> states the invariant \<open>pt_ok\<close> of that table; locale \<open>node_lists\<close> is the contract of an intrusive list, interpreted
    on the lists of children, threads, process groups and sessions. \<open>Process_Signals\<close>, \<open>Process_Groups\<close>, \<open>Process_Free\<close>,
    \<open>Process_Exit\<close>, \<open>Process_Leave\<close>, \<open>Process_Clone\<close>, \<open>Process_Cloned\<close> and \<open>Process_Waits\<close> prove that each call
    returns and keeps it, with \<open>pt_okx X Y\<close> as its weaker form for the task that is half made or half ended.
  \<^item> \<open>Process_Safety\<close>, \<open>Process_Props\<close>, \<open>Process_Jobs\<close>, \<open>Process_Faults\<close>: the states that any sequence of calls reaches from the
    first process, what holds in all of them, and the places where the code breaks the contract of a call.
  \<^item> \<open>Vector_Helpers\<close>, \<open>Crypto_Helpers\<close> (\<^verbatim>\<open>asbestos/guest-arm64/crypto_helpers.c\<close>): the instructions that
    gadgets leave to C, related to the recurrences of the standards.

  \<^bold>\<open>Bounds and fuel.\<close> Loops that end are functions with a termination proof (the copies, the searches, the
  walk over a path, which is bounded by the number of names and by the five links the code allows). Loops that
  may not end are partial functions, where \<open>None\<close> is running for ever (\<open>mount_param_flag\<close>, and \<open>next_pid\<close>, the search for a
  free number, which ends exactly when there is one). Where a call waits, the wake-ups it gets are an argument; a wait for a
  child is proved one scan at a time, with other tasks' calls between the scans.

  \<^bold>\<open>Not modelled.\<close> The translator and its gadgets (\<^verbatim>\<open>asbestos/\<close> apart from the helpers, most of it assembly):
  their meaning is that of ARM machine code. Generated code under \<^verbatim>\<open>kernel/offload_tests\<close> and the native
  offload that uses it. File systems and sockets that forward to the host or to SQLite (\<^verbatim>\<open>fs/real.c\<close>,
  \<^verbatim>\<open>fs/fake*.c\<close>, \<^verbatim>\<open>fs/sock.c\<close>, \<^verbatim>\<open>fs/proc\<close>): what they do is the host's doing. Page protections of the host and the
  translation cache (\<^verbatim>\<open>emu/tlb.c\<close>). In the process table: the safety valves of \<^verbatim>\<open>do_exit_group\<close> that force threads
  out which are stuck in the host, ptrace, resource usage, the memory and files of a task (whether a copy of them fails is an
  argument), and how a session comes by its terminal; the theorems about all sequences of calls ask of a clone that a number is
  free, that process 1 makes no threads and that its exit signal is at most 64, and of a signal to a process group that something goes by its
  number; \<open>Process_Faults\<close> shows what happens otherwise. A clone is one step of such a sequence, although the code lets go of
  \<^verbatim>\<open>pids_lock\<close> in its middle. Locking apart from the locks named above, and with it races within one operation. Reference
  counts of descriptions are natural numbers, which the code's unsigned ones are below \<open>2 ^ 32\<close>.
\<close>

end
